(* ===== verification/Prelude.thy ===== *)
theory Prelude
  imports Main "HOL-Library.Word"
begin

text \<open>
  The vocabulary the component theories share: the fixed-width integers of
  \<^verbatim>\<open>src/src/includes/lib/stdint.h\<close>, the results of operations that can fail, and the
  generic facts about words and address intervals that the component proofs rest on.

  An interval of addresses is described by its first address and its length, and an
  address \<open>a\<close> belongs to the interval of length \<open>n\<close> at \<open>p\<close> iff \<open>a - p < n\<close>. The
  subtraction wraps around as the pointer arithmetic of the program does, so no side
  condition on overflow is needed.
\<close>

unbundle bit_operations_syntax

type_synonym u8 = "8 word"
type_synonym u16 = "16 word"
type_synonym u32 = "32 word"

named_theorems frame_simps \<open>what an operation leaves unchanged\<close>
named_theorems kernel_defs \<open>definitions that the evaluation of a closed instance unfolds\<close>

section \<open>Results of operations that can fail\<close>

text \<open>
  \<open>Panic\<close> is the macro \<^verbatim>\<open>PANIC\<close> of \<^verbatim>\<open>lib/log.h\<close> (interrupts off, message, \<^verbatim>\<open>hlt\<close>): nothing
  after it runs. \<open>OutOfBounds\<close> is an access outside a C array, after which the language
  promises nothing. \<open>Diverges\<close> is a call that does not return.
\<close>

datatype fault = Panic | OutOfBounds | Diverges

type_synonym 'a res = "fault + 'a"

definition bindE :: "'a res \<Rightarrow> ('a \<Rightarrow> 'b res) \<Rightarrow> 'b res" where
  "bindE x f = (case x of Inl e \<Rightarrow> Inl e | Inr y \<Rightarrow> f y)"

definition returns :: "'a option \<Rightarrow> 'a res" where
  "returns x = (case x of None \<Rightarrow> Inl Diverges | Some y \<Rightarrow> Inr y)"

lemma returns_simps [simp]:
  "returns None = Inl Diverges"
  "returns (Some y) = Inr y"
  by (simp_all add: returns_def)

lemma bindE_simps [simp]:
  "bindE (Inl e) f = Inl e"
  "bindE (Inr y) f = f y"
  by (simp_all add: bindE_def)

lemma bindE_eq_Inr: "bindE x f = Inr z \<longleftrightarrow> (\<exists>y. x = Inr y \<and> f y = Inr z)"
  by (cases x) auto

lemma bindE_split: "P (bindE x f) \<longleftrightarrow> (\<forall>e. x = Inl e \<longrightarrow> P (Inl e)) \<and> (\<forall>y. x = Inr y \<longrightarrow> P (f y))"
  by (cases x) auto

lemma bindE_cong [fundef_cong]:
  "x = x' \<Longrightarrow> (\<And>y. x' = Inr y \<Longrightarrow> f y = f' y) \<Longrightarrow> bindE x f = bindE x' f'"
  by (cases x') auto

text \<open>
  A partial function returns None when it does not end; \<open>joined\<close> makes it the fault \<open>Diverges\<close>.
\<close>

definition joined :: "'a res option \<Rightarrow> 'a res" where
  "joined r = bindE (returns r) (\<lambda>x. x)"

lemma joined_Some [simp]: "joined (Some r) = r"
  by (simp add: joined_def)

section \<open>Loops\<close>

text \<open>
  A loop whose body either goes on with a new state or leaves with a result. It ends when its
  invariant holds at the start, is kept by the body, and a measure decreases.
\<close>

partial_function (option) loop :: "('s \<Rightarrow> ('s + 'b) res) \<Rightarrow> 's \<Rightarrow> 'b res option" where
  "loop body s = (case body s of Inl e \<Rightarrow> Some (Inl e) | Inr (Inl s') \<Rightarrow> loop body s' | Inr (Inr r) \<Rightarrow> Some (Inr r))"

declare loop.simps [code]

lemma loop_exits: "body s = Inr (Inr r) \<Longrightarrow> loop body s = Some (Inr r)"
  by (simp add: loop.simps)

lemma loop_faults: "body s = Inl e \<Longrightarrow> loop body s = Some (Inl e)"
  by (simp add: loop.simps)

lemma loop_goes_on: "body s = Inr (Inl s') \<Longrightarrow> loop body s = loop body s'"
  by (simp add: loop.simps [of body s])

lemma loop_rule:
  fixes \<mu> :: "'s \<Rightarrow> nat"
  assumes "invar s"
    and "\<And>s. invar s \<Longrightarrow> (\<exists>s'. body s = Inr (Inl s') \<and> invar s' \<and> \<mu> s' < \<mu> s) \<or> (\<exists>r. body s = Inr (Inr r) \<and> post r)"
  shows "\<exists>r. loop body s = Some (Inr r) \<and> post r"
  using assms(1)
proof (induction "\<mu> s" arbitrary: s rule: less_induct)
  case less
  show ?case
  proof (cases "\<exists>r. body s = Inr (Inr r) \<and> post r")
    case True
    then show ?thesis using loop_exits by metis
  next
    case False
    then obtain s' where "body s = Inr (Inl s')" "invar s'" "\<mu> s' < \<mu> s" using assms(2) [OF less.prems] by blast
    then show ?thesis using less.hyps [of s'] loop_goes_on [of body s s'] by simp
  qed
qed

section \<open>What a program prints\<close>

datatype piece = Str string | Dec int | Ptr nat

section \<open>Words\<close>

lemma word_less_imp_unat_diff_Suc:
  fixes i n :: "'a::len word"
  assumes "i < n"
  shows "unat (n - (i + 1)) < unat (n - i)"
proof -
  have "n - i \<noteq> 0" using assms by auto
  then have "unat (n - i - 1) < unat (n - i)"
    by (metis measure_unat)
  then show ?thesis by (simp add: algebra_simps)
qed

lemma unat_Suc_less:
  fixes i n :: "'a::len word"
  assumes "i < n"
  shows "unat (i + 1) = Suc (unat i)"
proof -
  have "unat i < unat n" using assms by (simp add: word_less_nat_alt)
  moreover have "unat n < 2 ^ LENGTH('a)" by simp
  ultimately have "Suc (unat i) < 2 ^ LENGTH('a)" by linarith
  then show ?thesis by (simp add: unat_word_ariths)
qed

lemma unat_diff_1:
  fixes n :: "'a::len word"
  assumes "n \<noteq> 0"
  shows "unat (n - 1) = unat n - 1"
proof -
  have "1 \<le> n" using assms by (simp add: word_le_nat_alt unat_gt_0 Suc_le_eq)
  then show ?thesis by (simp add: unat_sub)
qed

lemma word_less_Suc_iff:
  fixes a i :: "'a::len word"
  assumes "i < n"
  shows "a < i + 1 \<longleftrightarrow> a < i \<or> a = i"
  using unat_Suc_less [OF assms] by (auto simp: word_less_nat_alt word_unat_eq_iff)

lemma unat_of_nat_u32: "n < 2 ^ 32 \<Longrightarrow> unat (of_nat n :: u32) = n"
  by (simp add: unat_of_nat take_bit_nat_eq_self)

lemma of_nat_Suc_u32_neq_0: "Suc n < 2 ^ 32 \<Longrightarrow> (1 + of_nat n :: u32) \<noteq> 0"
  using unat_of_nat_u32 [of "Suc n"] by (metis Zero_not_Suc unat_0 of_nat_Suc)

lemma unat_u32_le: "unat (x :: u32) \<le> 4294967295"
proof -
  have "unat x < 2 ^ LENGTH(32)" by (rule unsigned_less)
  then show ?thesis by simp
qed

lemma unat_minus_1_u32 [simp]: "unat (- 1 :: u32) = 4294967295"
  by (simp add: unsigned_minus_1_eq_mask mask_eq_exp_minus_1)

lemma sint_eq_iff: "sint x = sint y \<longleftrightarrow> x = y"
  by (auto intro: signed_word_eqI)

lemma sint_eq_0_iff: "sint x = 0 \<longleftrightarrow> x = 0"
  using sint_eq_iff [of x 0] by simp

lemma sint_u32_if: "sint (x :: u32) = (if uint x < 2 ^ 31 then uint x else uint x - 2 ^ 32)"
proof -
  have "uint x < 2 ^ LENGTH(32)" by (rule unsigned_less)
  then have "uint x < 2 ^ 32" by simp
  moreover have "0 \<le> uint x" by simp
  moreover have "sint x = (uint x + 2 ^ 31) mod 2 ^ 32 - 2 ^ 31"
    by (simp add: sint_uint signed_take_bit_eq_take_bit_shift take_bit_eq_mod)
  moreover have "(uint x + 2 ^ 31) mod 2 ^ 32 = uint x + 2 ^ 31 - 2 ^ 32" if "\<not> uint x < 2 ^ 31"
    using that calculation(1) minus_mod_self2 [of "uint x + 2 ^ 31" "2 ^ 32 :: int"]
    by (simp add: mod_pos_pos_trivial)
  ultimately show ?thesis by (simp add: mod_pos_pos_trivial)
qed

lemma sint_eq_uint_if_nonneg: "0 \<le> sint (x :: u32) \<Longrightarrow> sint x = uint x"
proof -
  have "uint x < 2 ^ LENGTH(32)" by (rule unsigned_less)
  then show "0 \<le> sint (x :: u32) \<Longrightarrow> sint x = uint x" by (simp add: sint_u32_if split: if_splits)
qed

lemma sint_eq_uint_if_small: "(x :: u32) \<le> 36 \<Longrightarrow> sint x = uint x"
  by (simp add: sint_u32_if word_le_def)

lemma unat_sub_2:
  fixes x :: u32
  shows "2 \<le> unat x \<Longrightarrow> unat (x - 2) = unat x - 2"
    and "unat x < 2 \<Longrightarrow> unat (x - 2) = 4294967294 + unat x"
  by (simp_all add: unat_sub_if_size word_size)

lemma uint_word_of_int_u32: "0 \<le> z \<Longrightarrow> z < 2 ^ 32 \<Longrightarrow> uint (word_of_int z :: u32) = z"
  by (simp add: uint_word_of_int_eq take_bit_int_eq_self)

lemma unat_diff_add:
  fixes a p k :: u32
  shows "unat k \<le> unat (a - p) \<Longrightarrow> unat (a - (p + k)) = unat (a - p) - unat k"
    and "unat (a - p) < unat k \<Longrightarrow> unat (a - (p + k)) = 2 ^ 32 + unat (a - p) - unat k"
  by (simp_all add: diff_diff_eq [symmetric] unat_sub_if_size word_size)

section \<open>Address intervals\<close>

definition disj_ivl :: "u32 \<Rightarrow> u32 \<Rightarrow> u32 \<Rightarrow> u32 \<Rightarrow> bool" where
  "disj_ivl p n q k \<longleftrightarrow> n \<le> q - p \<and> k \<le> p - q"

lemma sub_less_wrap:
  fixes x y :: "'a::len word"
  assumes "x < y"
  shows "- y \<le> x - y"
proof -
  have less: "unat x < unat y" using assms by (simp add: word_less_nat_alt)
  have bound: "unat y < 2 ^ LENGTH('a)" by simp
  have "unat (- y) = 2 ^ LENGTH('a) - unat y"
    using less unat_sub_if_size [of 0 y] by (simp add: word_size)
  moreover have "unat (x - y) = 2 ^ LENGTH('a) + unat x - unat y"
    using less by (simp add: unat_sub_if_size word_size)
  ultimately show ?thesis using bound by (simp add: word_le_nat_alt)
qed

lemma disj_ivl_not_both:
  assumes "disj_ivl p n q k" and "a - p < n"
  shows "\<not> a - q < k"
proof -
  have "a - p < q - p" using assms by (auto simp: disj_ivl_def intro: less_le_trans)
  then have "- (q - p) \<le> (a - p) - (q - p)" by (rule sub_less_wrap)
  then have "p - q \<le> a - q" by simp
  then have "k \<le> a - q" using assms(1) by (auto simp: disj_ivl_def)
  then show ?thesis by simp
qed

lemma disj_ivl_commute: "disj_ivl p n q k \<longleftrightarrow> disj_ivl q k p n"
  by (auto simp: disj_ivl_def)

end
