(* ===== verification/Bplus_Tree.thy ===== *)
theory Bplus_Tree
  imports Prelude
begin

text \<open>
  The B+ tree of \<^verbatim>\<open>sample/data_structure/bplus_tree.c\<close>: nodes and records in a store, searching,
  insertion, deletion, printing and the demonstration, routine by routine. The length of a search, of
  the walk along the leaves, of the way up after a split and of printing is not bounded in the code;
  these loops are partial functions, and a run that never ends is the fault \<open>Diverges\<close>.
\<close>

section \<open>The store\<close>

text \<open>
  A node with its two arrays, which only the node refers to. A slot of an array is None as long as
  nothing has been stored in it; reading it, or a slot past the end, is a fault. Addresses are
  numbers in the order of the calls of \<^verbatim>\<open>malloc\<close>, 0 is NULL, and \<open>fails\<close> says which calls return
  NULL. Keys, values and counts are C \<^verbatim>\<open>int\<close>s on which the code does no arithmetic that can leave
  their range. What is printed is a list of pieces.
\<close>

type_synonym addr = nat

record bnode =
  pointers :: "nat \<Rightarrow> addr option"
  keys :: "nat \<Rightarrow> int option"
  parent :: addr
  is_leaf :: bool
  num_keys :: nat
  next_node :: addr

record store =
  nodes :: "addr \<Rightarrow> bnode option"
  recs :: "addr \<Rightarrow> int option"
  order :: nat
  queue :: addr
  verbose_output :: bool
  calls :: nat
  fails :: "nat \<Rightarrow> bool"
  printed :: "piece list"

definition malloc_call :: "store \<Rightarrow> addr \<times> store" where
  "malloc_call s = (if fails s (calls s) then 0 else Suc (calls s), s\<lparr>calls := Suc (calls s)\<rparr>)"

definition node_at :: "addr \<Rightarrow> store \<Rightarrow> bnode res" where
  "node_at a s = (case nodes s a of None \<Rightarrow> Inl OutOfBounds | Some n \<Rightarrow> Inr n)"

definition put_node :: "addr \<Rightarrow> bnode \<Rightarrow> store \<Rightarrow> store" where
  "put_node a n s = s\<lparr>nodes := (nodes s)(a \<mapsto> n)\<rparr>"

definition on_node :: "addr \<Rightarrow> (bnode \<Rightarrow> bnode res) \<Rightarrow> store \<Rightarrow> store res" where
  "on_node a f s = bindE (node_at a s) (\<lambda>n. bindE (f n) (\<lambda>n'. Inr (put_node a n' s)))"

definition slot_get :: "nat \<Rightarrow> (nat \<Rightarrow> 'a option) \<Rightarrow> nat \<Rightarrow> 'a res" where
  "slot_get sz f i = (if i < sz then (case f i of None \<Rightarrow> Inl OutOfBounds | Some v \<Rightarrow> Inr v) else Inl OutOfBounds)"

definition slot_put :: "nat \<Rightarrow> nat \<Rightarrow> 'a \<Rightarrow> (nat \<Rightarrow> 'a option) \<Rightarrow> (nat \<Rightarrow> 'a option) res" where
  "slot_put sz i v f = (if i < sz then Inr (f(i \<mapsto> v)) else Inl OutOfBounds)"

definition key_at :: "nat \<Rightarrow> bnode \<Rightarrow> nat \<Rightarrow> int res" where
  "key_at ord n i = slot_get (ord - 1) (keys n) i"

definition ptr_at :: "nat \<Rightarrow> bnode \<Rightarrow> nat \<Rightarrow> addr res" where
  "ptr_at ord n i = slot_get ord (pointers n) i"

definition set_key :: "nat \<Rightarrow> nat \<Rightarrow> int \<Rightarrow> bnode \<Rightarrow> bnode res" where
  "set_key ord i k n = bindE (slot_put (ord - 1) i k (keys n)) (\<lambda>f. Inr (n\<lparr>keys := f\<rparr>))"

definition set_ptr :: "nat \<Rightarrow> nat \<Rightarrow> addr \<Rightarrow> bnode \<Rightarrow> bnode res" where
  "set_ptr ord i p n = bindE (slot_put ord i p (pointers n)) (\<lambda>f. Inr (n\<lparr>pointers := f\<rparr>))"

definition set_parent :: "addr \<Rightarrow> addr \<Rightarrow> store \<Rightarrow> store res" where
  "set_parent a p = on_node a (\<lambda>n. Inr (n\<lparr>parent := p\<rparr>))"

section \<open>Searching\<close>

text \<open>\<^verbatim>\<open>"%d "\<close> for the keys but the last, then the last one.\<close>

function print_key_loop :: "nat \<Rightarrow> bnode \<Rightarrow> nat \<Rightarrow> piece list res" where
  "print_key_loop ord n i =
     (if i < num_keys n - 1
      then bindE (key_at ord n i) (\<lambda>k. bindE (print_key_loop ord n (i + 1)) (\<lambda>ps. Inr (Dec k # Str '' '' # ps)))
      else bindE (key_at ord n i) (\<lambda>k. Inr [Dec k]))"
  by pat_completeness auto
termination by (relation "measure (\<lambda>(ord, n, i). num_keys n - i)") auto

definition print_keys_if :: "bool \<Rightarrow> string \<Rightarrow> string \<Rightarrow> nat \<Rightarrow> bnode \<Rightarrow> piece list res" where
  "print_keys_if v opening closing ord n =
     (if v then bindE (print_key_loop ord n 0) (\<lambda>ps. Inr (Str opening # ps @ [Str closing])) else Inr [])"

text \<open>
  The loops that run along an array as long as its elements satisfy a condition; \<open>get\<close> reads the
  array and \<open>lim\<close> is the bound of the loop.
\<close>

function scan_while :: "nat \<Rightarrow> (nat \<Rightarrow> 'a res) \<Rightarrow> ('a \<Rightarrow> bool) \<Rightarrow> nat \<Rightarrow> nat res" where
  "scan_while lim get P i =
     (if i < lim then bindE (get i) (\<lambda>v. if P v then scan_while lim get P (i + 1) else Inr i) else Inr i)"
  by pat_completeness auto
termination by (relation "measure (\<lambda>(lim, get, P, i). lim - i)") auto

definition child_index :: "nat \<Rightarrow> bnode \<Rightarrow> int \<Rightarrow> nat res" where
  "child_index ord n key = scan_while (num_keys n) (key_at ord n) (\<lambda>k. k \<le> key) 0"

declare print_key_loop.simps [simp del] scan_while.simps [simp del]

definition descend :: "addr \<Rightarrow> int \<Rightarrow> bool \<Rightarrow> store \<Rightarrow> (addr \<times> store) res" where
  "descend c key verb s =
     bindE (node_at c s) (\<lambda>n.
     bindE (print_keys_if verb ''['' ''] '' (order s) n) (\<lambda>ps.
     bindE (child_index (order s) n key) (\<lambda>i.
     bindE (ptr_at (order s) n i) (\<lambda>p.
       Inr (p, s\<lparr>printed := printed s @ ps @ (if verb then [Dec (int i), Str ('' ->'' @ [CHR 0x0A])] else [])\<rparr>)))))"

partial_function (option) find_leaf_loop :: "addr \<Rightarrow> int \<Rightarrow> bool \<Rightarrow> store \<Rightarrow> (addr \<times> store) res option" where
  "find_leaf_loop c key verb s =
     (case node_at c s of
        Inl e \<Rightarrow> Some (Inl e)
      | Inr n \<Rightarrow>
          if is_leaf n
          then Some (bindE (print_keys_if verb ''Leaf ['' (''] ->'' @ [CHR 0x0A]) (order s) n) (\<lambda>ps.
                 Inr (c, s\<lparr>printed := printed s @ ps\<rparr>)))
          else (case descend c key verb s of
                  Inl e \<Rightarrow> Some (Inl e)
                | Inr (c1, s1) \<Rightarrow> find_leaf_loop c1 key verb s1))"

definition find_leaf :: "addr \<Rightarrow> int \<Rightarrow> bool \<Rightarrow> store \<Rightarrow> (addr \<times> store) res" where
  "find_leaf root key verb s =
     (if root = 0 then Inr (root, if verb then s\<lparr>printed := printed s @ [Str (''Empty tree.'' @ [CHR 0x0A])]\<rparr> else s)
      else joined (find_leaf_loop root key verb s))"

definition key_pos :: "nat \<Rightarrow> bnode \<Rightarrow> int \<Rightarrow> nat res" where
  "key_pos ord n key = scan_while (num_keys n) (key_at ord n) (\<lambda>k. k \<noteq> key) 0"

text \<open>The result is the record and what is stored through \<^verbatim>\<open>leaf_out\<close>.\<close>

definition find_key :: "addr \<Rightarrow> int \<Rightarrow> bool \<Rightarrow> store \<Rightarrow> ((addr \<times> addr) \<times> store) res" where
  "find_key root key verb s =
     (if root = 0 then Inr ((0, 0), s)
      else bindE (find_leaf root key verb s) (\<lambda>(leaf, s1).
           bindE (node_at leaf s1) (\<lambda>n.
           bindE (key_pos (order s1) n key) (\<lambda>i.
             if i = num_keys n then Inr ((0, leaf), s1)
             else bindE (ptr_at (order s1) n i) (\<lambda>p. Inr ((p, leaf), s1))))))"

definition range_start :: "nat \<Rightarrow> bnode \<Rightarrow> int \<Rightarrow> nat res" where
  "range_start ord n key_start = scan_while (num_keys n) (key_at ord n) (\<lambda>k. k < key_start) 0"

text \<open>The two result arrays are the list of the pairs stored in them; their size is the parameter \<open>sz\<close>.\<close>

function range_leaf :: "nat \<Rightarrow> nat \<Rightarrow> bnode \<Rightarrow> int \<Rightarrow> nat \<Rightarrow> (int \<times> addr) list \<Rightarrow> (int \<times> addr) list res" where
  "range_leaf sz ord n key_end i found =
     (if i < num_keys n
      then bindE (key_at ord n i) (\<lambda>k.
             if k \<le> key_end
             then bindE (ptr_at ord n i) (\<lambda>p.
                    if length found < sz then range_leaf sz ord n key_end (i + 1) (found @ [(k, p)]) else Inl OutOfBounds)
             else Inr found)
      else Inr found)"
  by pat_completeness auto
termination by (relation "measure (\<lambda>(sz, ord, n, key_end, i, found). num_keys n - i)") auto

declare range_leaf.simps [simp del]

partial_function (option) range_loop :: "nat \<Rightarrow> addr \<Rightarrow> int \<Rightarrow> nat \<Rightarrow> (int \<times> addr) list \<Rightarrow> store \<Rightarrow> (int \<times> addr) list res option" where
  "range_loop sz a key_end i found s =
     (if a \<noteq> 0
      then (case bindE (node_at a s) (\<lambda>n. bindE (range_leaf sz (order s) n key_end i found) (\<lambda>found1.
                   bindE (ptr_at (order s) n (order s - 1)) (\<lambda>a1. Inr (a1, found1)))) of
              Inl e \<Rightarrow> Some (Inl e)
            | Inr (a1, found1) \<Rightarrow> range_loop sz a1 key_end 0 found1 s)
      else Some (Inr found))"

definition find_range :: "nat \<Rightarrow> addr \<Rightarrow> int \<Rightarrow> int \<Rightarrow> bool \<Rightarrow> store \<Rightarrow> ((int \<times> addr) list \<times> store) res" where
  "find_range sz root key_start key_end verb s =
     bindE (find_leaf root key_start verb s) (\<lambda>(a, s1).
       if a = 0 then Inr ([], s1)
       else bindE (node_at a s1) (\<lambda>n.
            bindE (range_start (order s1) n key_start) (\<lambda>i.
              if i = num_keys n then Inr ([], s1)
              else bindE (joined (range_loop sz a key_end i [] s1)) (\<lambda>found. Inr (found, s1)))))"

section \<open>New nodes\<close>

definition cut :: "nat \<Rightarrow> nat" where
  "cut len = (if len mod 2 = 0 then len div 2 else len div 2 + 1)"

text \<open>\<^verbatim>\<open>exit\<close> is \<open>Panic\<close>.\<close>

definition make_record :: "int \<Rightarrow> store \<Rightarrow> (addr \<times> store) res" where
  "make_record v s =
     (let (r, s1) = malloc_call s
      in if r = 0 then Inl Panic else Inr (r, s1\<lparr>recs := (recs s1)(r \<mapsto> v)\<rparr>))"

definition make_node :: "store \<Rightarrow> (addr \<times> store) res" where
  "make_node s =
     (let (new_node, s1) = malloc_call s in
      if new_node = 0 then Inl Panic else
      let (ks, s2) = malloc_call s1 in
      if ks = 0 then Inl Panic else
      let (ps, s3) = malloc_call s2 in
      if ps = 0 then Inl Panic else
      Inr (new_node, put_node new_node \<lparr>pointers = (\<lambda>_. None), keys = (\<lambda>_. None), parent = 0, is_leaf = False,
             num_keys = 0, next_node = 0\<rparr> s3))"

definition make_leaf :: "store \<Rightarrow> (addr \<times> store) res" where
  "make_leaf s = bindE (make_node s) (\<lambda>(leaf, s1). bindE (on_node leaf (\<lambda>n. Inr (n\<lparr>is_leaf := True\<rparr>)) s1) (\<lambda>s2. Inr (leaf, s2)))"

definition temp_arrays :: "store \<Rightarrow> store res" where
  "temp_arrays s =
     (let (a, s1) = malloc_call s in
      if a = 0 then Inl Panic else
      let (b, s2) = malloc_call s1 in
      if b = 0 then Inl Panic else Inr s2)"

definition get_left_index :: "nat \<Rightarrow> bnode \<Rightarrow> addr \<Rightarrow> nat res" where
  "get_left_index ord par left = scan_while (num_keys par + 1) (ptr_at ord par) (\<lambda>p. p \<noteq> left) 0"

section \<open>Insertion\<close>

definition insertion_point :: "nat \<Rightarrow> nat \<Rightarrow> bnode \<Rightarrow> int \<Rightarrow> nat res" where
  "insertion_point ord lim n key = scan_while lim (key_at ord n) (\<lambda>k. k < key) 0"

fun leaf_shift :: "nat \<Rightarrow> nat \<Rightarrow> nat \<Rightarrow> bnode \<Rightarrow> bnode res" where
  "leaf_shift ord point 0 n = Inr n"
| "leaf_shift ord point (Suc i) n =
     (if point < Suc i
      then bindE (key_at ord n i) (\<lambda>k. bindE (set_key ord (Suc i) k n) (\<lambda>n1.
           bindE (ptr_at ord n1 i) (\<lambda>p. bindE (set_ptr ord (Suc i) p n1) (\<lambda>n2.
             leaf_shift ord point i n2))))
      else Inr n)"

definition insert_into_leaf :: "nat \<Rightarrow> int \<Rightarrow> addr \<Rightarrow> bnode \<Rightarrow> bnode res" where
  "insert_into_leaf ord key pointer leaf =
     bindE (insertion_point ord (num_keys leaf) leaf key) (\<lambda>point.
     bindE (leaf_shift ord point (num_keys leaf) leaf) (\<lambda>n1.
     bindE (set_key ord point key n1) (\<lambda>n2.
     bindE (set_ptr ord point pointer n2) (\<lambda>n3. Inr (n3\<lparr>num_keys := num_keys n3 + 1\<rparr>)))))"

text \<open>
  The copy into the temporary arrays: the slot number \<open>hole\<close> is left out. The arrays of the
  node are read through \<open>get\<close>.
\<close>

function copy_around :: "nat \<Rightarrow> nat \<Rightarrow> nat \<Rightarrow> (nat \<Rightarrow> 'a res) \<Rightarrow> nat \<Rightarrow> nat \<Rightarrow> (nat \<Rightarrow> 'a option) \<Rightarrow> (nat \<Rightarrow> 'a option) res" where
  "copy_around sz lim hole get i j temp =
     (if i < lim
      then (let j1 = (if j = hole then j + 1 else j)
            in bindE (get i) (\<lambda>v. bindE (slot_put sz j1 v temp) (\<lambda>temp1.
                 copy_around sz lim hole get (i + 1) (j1 + 1) temp1)))
      else Inr temp)"
  by pat_completeness auto
termination by (relation "measure (\<lambda>(sz, lim, hole, get, i, j, temp). lim - i)") auto

text \<open>Filling a node from the temporary arrays, from slot \<open>j\<close> of the node and \<open>i\<close> of the arrays on.\<close>

function fill_node :: "nat \<Rightarrow> nat \<Rightarrow> nat \<Rightarrow> (nat \<Rightarrow> int option) \<Rightarrow> (nat \<Rightarrow> addr option) \<Rightarrow> nat \<Rightarrow> nat \<Rightarrow> nat \<Rightarrow> bnode \<Rightarrow> bnode res" where
  "fill_node ord ksz psz temp_keys temp_pointers lim i j n =
     (if i < lim
      then bindE (slot_get psz temp_pointers i) (\<lambda>p. bindE (set_ptr ord j p n) (\<lambda>n1.
           bindE (slot_get ksz temp_keys i) (\<lambda>k. bindE (set_key ord j k n1) (\<lambda>n2.
             fill_node ord ksz psz temp_keys temp_pointers lim (i + 1) (j + 1) (n2\<lparr>num_keys := num_keys n2 + 1\<rparr>)))))
      else Inr n)"
  by pat_completeness auto
termination by (relation "measure (\<lambda>(ord, ksz, psz, tk, tp, lim, i, j, n). lim - i)") auto

text \<open>Slots \<open>i\<close> to \<open>lim\<close> of the pointers are set to NULL.\<close>

function null_pointers :: "nat \<Rightarrow> nat \<Rightarrow> nat \<Rightarrow> bnode \<Rightarrow> bnode res" where
  "null_pointers ord lim i n =
     (if i < lim then bindE (set_ptr ord i 0 n) (null_pointers ord lim (i + 1)) else Inr n)"
  by pat_completeness auto
termination by (relation "measure (\<lambda>(ord, lim, i, n). lim - i)") auto

declare copy_around.simps [simp del] fill_node.simps [simp del] null_pointers.simps [simp del]

text \<open>
  \<^verbatim>\<open>insert_into_leaf_after_splitting\<close> up to the last line: the key for the parent and the new leaf.
\<close>

definition split_leaf :: "addr \<Rightarrow> int \<Rightarrow> addr \<Rightarrow> store \<Rightarrow> (int \<times> addr \<times> store) res" where
  "split_leaf leaf key pointer s =
     (let ord = order s in
      bindE (make_leaf s) (\<lambda>(new_leaf, s1).
      bindE (temp_arrays s1) (\<lambda>s2.
      bindE (node_at leaf s2) (\<lambda>l.
      bindE (insertion_point ord (ord - 1) l key) (\<lambda>point.
      bindE (copy_around ord (num_keys l) point (key_at ord l) 0 0 (\<lambda>_. None)) (\<lambda>tk0.
      bindE (copy_around ord (num_keys l) point (ptr_at ord l) 0 0 (\<lambda>_. None)) (\<lambda>tp0.
      bindE (slot_put ord point key tk0) (\<lambda>tk.
      bindE (slot_put ord point pointer tp0) (\<lambda>tp.
      let split = cut (ord - 1) in
      bindE (fill_node ord ord ord tk tp split 0 0 (l\<lparr>num_keys := 0\<rparr>)) (\<lambda>l1.
      bindE (node_at new_leaf s2) (\<lambda>n0.
      bindE (fill_node ord ord ord tk tp ord split 0 n0) (\<lambda>n1.
      bindE (ptr_at ord l1 (ord - 1)) (\<lambda>nxt.
      bindE (set_ptr ord (ord - 1) nxt n1) (\<lambda>n2.
      bindE (set_ptr ord (ord - 1) new_leaf l1) (\<lambda>l2.
      bindE (null_pointers ord (ord - 1) (num_keys l2) l2) (\<lambda>l3.
      bindE (null_pointers ord (ord - 1) (num_keys n2) n2) (\<lambda>n3.
      let n4 = n3\<lparr>parent := parent l3\<rparr> in
      bindE (key_at ord n4 0) (\<lambda>new_key.
        Inr (new_key, new_leaf, put_node new_leaf n4 (put_node leaf l3 s2))))))))))))))))))))"

fun node_shift :: "nat \<Rightarrow> nat \<Rightarrow> nat \<Rightarrow> bnode \<Rightarrow> bnode res" where
  "node_shift ord left_index 0 n = Inr n"
| "node_shift ord left_index (Suc i) n =
     (if left_index < Suc i
      then bindE (ptr_at ord n (Suc i)) (\<lambda>p. bindE (set_ptr ord (Suc i + 1) p n) (\<lambda>n1.
           bindE (key_at ord n1 i) (\<lambda>k. bindE (set_key ord (Suc i) k n1) (\<lambda>n2.
             node_shift ord left_index i n2))))
      else Inr n)"

definition insert_into_node :: "nat \<Rightarrow> nat \<Rightarrow> int \<Rightarrow> addr \<Rightarrow> bnode \<Rightarrow> bnode res" where
  "insert_into_node ord left_index key right n =
     bindE (node_shift ord left_index (num_keys n) n) (\<lambda>n1.
     bindE (set_ptr ord (left_index + 1) right n1) (\<lambda>n2.
     bindE (set_key ord left_index key n2) (\<lambda>n3. Inr (n3\<lparr>num_keys := num_keys n3 + 1\<rparr>))))"

text \<open>The children of a node get it as their parent: the pointers number \<open>i\<close> to \<open>lim\<close>.\<close>

function adopt :: "addr \<Rightarrow> nat \<Rightarrow> nat \<Rightarrow> store \<Rightarrow> store res" where
  "adopt a lim i s =
     (if i < lim
      then bindE (node_at a s) (\<lambda>n. bindE (ptr_at (order s) n i) (\<lambda>child.
           bindE (set_parent child a s) (adopt a lim (i + 1))))
      else Inr s)"
  by pat_completeness auto
termination by (relation "measure (\<lambda>(a, lim, i, s). lim - i)") auto

declare adopt.simps [simp del]

text \<open>\<^verbatim>\<open>insert_into_node_after_splitting\<close> up to the last line.\<close>

definition split_node :: "addr \<Rightarrow> nat \<Rightarrow> int \<Rightarrow> addr \<Rightarrow> store \<Rightarrow> (int \<times> addr \<times> store) res" where
  "split_node old_node left_index key right s =
     (let ord = order s in
      bindE (temp_arrays s) (\<lambda>s1.
      bindE (node_at old_node s1) (\<lambda>l.
      bindE (copy_around (ord + 1) (num_keys l + 1) (left_index + 1) (ptr_at ord l) 0 0 (\<lambda>_. None)) (\<lambda>tp0.
      bindE (copy_around ord (num_keys l) left_index (key_at ord l) 0 0 (\<lambda>_. None)) (\<lambda>tk0.
      bindE (slot_put (ord + 1) (left_index + 1) right tp0) (\<lambda>tp.
      bindE (slot_put ord left_index key tk0) (\<lambda>tk.
      let split = cut ord in
      bindE (make_node s1) (\<lambda>(new_node, s2).
      bindE (fill_node ord ord (ord + 1) tk tp (split - 1) 0 0 (l\<lparr>num_keys := 0\<rparr>)) (\<lambda>l1.
      bindE (slot_get (ord + 1) tp (split - 1)) (\<lambda>p.
      bindE (set_ptr ord (split - 1) p l1) (\<lambda>l2.
      bindE (slot_get ord tk (split - 1)) (\<lambda>k_prime.
      bindE (node_at new_node s2) (\<lambda>n0.
      bindE (fill_node ord ord (ord + 1) tk tp ord split 0 n0) (\<lambda>n1.
      bindE (slot_get (ord + 1) tp (max split ord)) (\<lambda>q.
      bindE (set_ptr ord (ord - split) q n1) (\<lambda>n2.
      let n3 = n2\<lparr>parent := parent l2\<rparr> in
      bindE (adopt new_node (num_keys n3 + 1) 0 (put_node new_node n3 (put_node old_node l2 s2))) (\<lambda>s3.
        Inr (k_prime, new_node, s3))))))))))))))))))"

definition insert_into_new_root :: "addr \<Rightarrow> int \<Rightarrow> addr \<Rightarrow> store \<Rightarrow> (addr \<times> store) res" where
  "insert_into_new_root left key right s =
     (let ord = order s in
      bindE (make_node s) (\<lambda>(root, s1).
      bindE (on_node root (\<lambda>n. bindE (set_key ord 0 key n) (\<lambda>n1. bindE (set_ptr ord 0 left n1) (\<lambda>n2.
               bindE (set_ptr ord 1 right n2) (\<lambda>n3. Inr (n3\<lparr>num_keys := num_keys n3 + 1, parent := 0\<rparr>))))) s1) (\<lambda>s2.
      bindE (set_parent left root s2) (\<lambda>s3.
      bindE (set_parent right root s3) (\<lambda>s4. Inr (root, s4))))))"

definition start_new_tree :: "int \<Rightarrow> addr \<Rightarrow> store \<Rightarrow> (addr \<times> store) res" where
  "start_new_tree key pointer s =
     (let ord = order s in
      bindE (make_leaf s) (\<lambda>(root, s1).
      bindE (on_node root (\<lambda>n. bindE (set_key ord 0 key n) (\<lambda>n1. bindE (set_ptr ord 0 pointer n1) (\<lambda>n2.
               bindE (set_ptr ord (ord - 1) 0 n2) (\<lambda>n3. Inr (n3\<lparr>parent := 0, num_keys := num_keys n3 + 1\<rparr>))))) s1) (\<lambda>s2.
        Inr (root, s2))))"

text \<open>
  \<^verbatim>\<open>insert_into_parent\<close> and \<^verbatim>\<open>insert_into_node_after_splitting\<close> call each other; the second call is
  the recursive one.
\<close>

partial_function (option) insert_into_parent :: "addr \<Rightarrow> addr \<Rightarrow> int \<Rightarrow> addr \<Rightarrow> store \<Rightarrow> (addr \<times> store) res option" where
  "insert_into_parent root left key right s =
     (case node_at left s of
        Inl e \<Rightarrow> Some (Inl e)
      | Inr l \<Rightarrow>
          if parent l = 0 then Some (insert_into_new_root left key right s)
          else (case bindE (node_at (parent l) s) (\<lambda>p. bindE (get_left_index (order s) p left) (\<lambda>i. Inr (p, i))) of
                  Inl e \<Rightarrow> Some (Inl e)
                | Inr (p, left_index) \<Rightarrow>
                    if num_keys p < order s - 1
                    then Some (bindE (on_node (parent l) (insert_into_node (order s) left_index key right) s) (\<lambda>s1. Inr (root, s1)))
                    else (case split_node (parent l) left_index key right s of
                            Inl e \<Rightarrow> Some (Inl e)
                          | Inr (k_prime, new_node, s1) \<Rightarrow> insert_into_parent root (parent l) k_prime new_node s1)))"

definition insert_into_leaf_after_splitting :: "addr \<Rightarrow> addr \<Rightarrow> int \<Rightarrow> addr \<Rightarrow> store \<Rightarrow> (addr \<times> store) res" where
  "insert_into_leaf_after_splitting root leaf key pointer s =
     bindE (split_leaf leaf key pointer s) (\<lambda>(new_key, new_leaf, s1).
       joined (insert_into_parent root leaf new_key new_leaf s1))"

definition insert_key :: "addr \<Rightarrow> int \<Rightarrow> int \<Rightarrow> store \<Rightarrow> (addr \<times> store) res" where
  "insert_key root key v s =
     bindE (find_key root key False s) (\<lambda>((r, _), s1).
       if r \<noteq> 0
       then (if recs s1 r = None then Inl OutOfBounds else Inr (root, s1\<lparr>recs := (recs s1)(r \<mapsto> v)\<rparr>))
       else bindE (make_record v s1) (\<lambda>(rp, s2).
            if root = 0 then start_new_tree key rp s2
            else bindE (find_leaf root key False s2) (\<lambda>(leaf, s3).
                 bindE (node_at leaf s3) (\<lambda>n.
                   if num_keys n < order s3 - 1
                   then bindE (on_node leaf (insert_into_leaf (order s3) key rp) s3) (\<lambda>s4. Inr (root, s4))
                   else insert_into_leaf_after_splitting root leaf key rp s3))))"

section \<open>Deletion\<close>

text \<open>Loads and stores through a pointer to a node; a count that would get negative is a fault.\<close>

definition read_key :: "addr \<Rightarrow> nat \<Rightarrow> store \<Rightarrow> int res" where
  "read_key a i s = bindE (node_at a s) (\<lambda>n. key_at (order s) n i)"

definition read_ptr :: "addr \<Rightarrow> nat \<Rightarrow> store \<Rightarrow> addr res" where
  "read_ptr a i s = bindE (node_at a s) (\<lambda>n. ptr_at (order s) n i)"

definition write_key :: "addr \<Rightarrow> nat \<Rightarrow> int \<Rightarrow> store \<Rightarrow> store res" where
  "write_key a i k s = on_node a (set_key (order s) i k) s"

definition write_ptr :: "addr \<Rightarrow> nat \<Rightarrow> addr \<Rightarrow> store \<Rightarrow> store res" where
  "write_ptr a i p s = on_node a (set_ptr (order s) i p) s"

definition more_keys :: "addr \<Rightarrow> store \<Rightarrow> store res" where
  "more_keys a = on_node a (\<lambda>n. Inr (n\<lparr>num_keys := num_keys n + 1\<rparr>))"

definition fewer_keys :: "addr \<Rightarrow> store \<Rightarrow> store res" where
  "fewer_keys a = on_node a (\<lambda>n. if num_keys n = 0 then Inl OutOfBounds else Inr (n\<lparr>num_keys := num_keys n - 1\<rparr>))"

definition free_node :: "addr \<Rightarrow> store \<Rightarrow> store res" where
  "free_node a s = bindE (node_at a s) (\<lambda>_. Inr (s\<lparr>nodes := (nodes s)(a := None)\<rparr>))"

definition free_record :: "addr \<Rightarrow> store \<Rightarrow> store res" where
  "free_record r s = (if recs s r = None then Inl OutOfBounds else Inr (s\<lparr>recs := (recs s)(r := None)\<rparr>))"

definition get_neighbor_index :: "addr \<Rightarrow> store \<Rightarrow> int res" where
  "get_neighbor_index a s =
     bindE (node_at a s) (\<lambda>n. bindE (node_at (parent n) s) (\<lambda>p.
     bindE (get_left_index (order s) p a) (\<lambda>i. if i \<le> num_keys p then Inr (int i - 1) else Inl Panic)))"

text \<open>The two searches have no bound of their own: past the end of the array they are a fault.\<close>

definition scan_for :: "nat \<Rightarrow> (nat \<Rightarrow> 'a res) \<Rightarrow> 'a \<Rightarrow> nat res" where
  "scan_for sz get v = bindE (scan_while sz get (\<lambda>w. w \<noteq> v) 0) (\<lambda>i. if i < sz then Inr i else Inl OutOfBounds)"

function keys_left :: "nat \<Rightarrow> nat \<Rightarrow> nat \<Rightarrow> bnode \<Rightarrow> bnode res" where
  "keys_left ord lim i n =
     (if i < lim
      then bindE (key_at ord n i) (\<lambda>k. bindE (set_key ord (i - 1) k n) (keys_left ord lim (i + 1)))
      else Inr n)"
  by pat_completeness auto
termination by (relation "measure (\<lambda>(ord, lim, i, n). lim - i)") auto

function ptrs_left :: "nat \<Rightarrow> nat \<Rightarrow> nat \<Rightarrow> bnode \<Rightarrow> bnode res" where
  "ptrs_left ord lim i n =
     (if i < lim
      then bindE (ptr_at ord n i) (\<lambda>p. bindE (set_ptr ord (i - 1) p n) (ptrs_left ord lim (i + 1)))
      else Inr n)"
  by pat_completeness auto
termination by (relation "measure (\<lambda>(ord, lim, i, n). lim - i)") auto

declare keys_left.simps [simp del] ptrs_left.simps [simp del]

definition remove_entry_from_node :: "nat \<Rightarrow> int \<Rightarrow> addr \<Rightarrow> bnode \<Rightarrow> bnode res" where
  "remove_entry_from_node ord key pointer n =
     bindE (scan_for (ord - 1) (key_at ord n) key) (\<lambda>i.
     bindE (keys_left ord (num_keys n) (i + 1) n) (\<lambda>n1.
     let num_pointers = (if is_leaf n1 then num_keys n1 else num_keys n1 + 1) in
     bindE (scan_for ord (ptr_at ord n1) pointer) (\<lambda>j.
     bindE (ptrs_left ord num_pointers (j + 1) n1) (\<lambda>n2.
     if num_keys n2 = 0 then Inl OutOfBounds
     else let n3 = n2\<lparr>num_keys := num_keys n2 - 1\<rparr>
          in if is_leaf n3 then null_pointers ord (ord - 1) (num_keys n3) n3
             else null_pointers ord ord (num_keys n3 + 1) n3))))"

definition adjust_root :: "addr \<Rightarrow> store \<Rightarrow> (addr \<times> store) res" where
  "adjust_root root s =
     bindE (node_at root s) (\<lambda>n.
       if 0 < num_keys n then Inr (root, s)
       else bindE (if \<not> is_leaf n
                   then bindE (ptr_at (order s) n 0) (\<lambda>new_root. bindE (set_parent new_root 0 s) (\<lambda>s1. Inr (new_root, s1)))
                   else Inr (0, s)) (\<lambda>(new_root, s1).
            bindE (free_node root s1) (\<lambda>s2. Inr (new_root, s2))))"

text \<open>
  Moving the entries of \<open>n\<close> from number \<open>j\<close> on behind those of the neighbor; in an inner node
  \<open>n\<close> is counted down, so that the bound is \<open>n_end\<close>.
\<close>

function move_entries :: "bool \<Rightarrow> addr \<Rightarrow> addr \<Rightarrow> nat \<Rightarrow> nat \<Rightarrow> nat \<Rightarrow> store \<Rightarrow> store res" where
  "move_entries inner a b n_end i j s =
     (if j < n_end
      then bindE (read_key a j s) (\<lambda>k. bindE (write_key b i k s) (\<lambda>s1.
           bindE (read_ptr a j s1) (\<lambda>p. bindE (write_ptr b i p s1) (\<lambda>s2.
           bindE (more_keys b s2) (\<lambda>s3.
           bindE (if inner then fewer_keys a s3 else Inr s3) (\<lambda>s4.
             move_entries inner a b n_end (i + 1) (j + 1) s4))))))
      else Inr s)"
  by pat_completeness auto
termination by (relation "measure (\<lambda>(inner, a, b, n_end, i, j, s). n_end - j)") auto

declare move_entries.simps [simp del]

text \<open>\<^verbatim>\<open>coalesce_nodes\<close> up to the call of \<^verbatim>\<open>delete_entry\<close>: the node that is left over.\<close>

definition merge_nodes :: "addr \<Rightarrow> addr \<Rightarrow> int \<Rightarrow> int \<Rightarrow> store \<Rightarrow> (addr \<times> store) res" where
  "merge_nodes n0 neighbor0 neighbor_index k_prime s =
     (let (n, neighbor) = (if neighbor_index = - 1 then (neighbor0, n0) else (n0, neighbor0)) in
      bindE (node_at neighbor s) (\<lambda>nb.
      bindE (node_at n s) (\<lambda>nd.
      let at = num_keys nb in
      if \<not> is_leaf nd
      then bindE (write_key neighbor at k_prime s) (\<lambda>s1.
           bindE (more_keys neighbor s1) (\<lambda>s2.
           bindE (node_at n s2) (\<lambda>nd2.
           let n_end = num_keys nd2 in
           bindE (move_entries True n neighbor n_end (at + 1) 0 s2) (\<lambda>s3.
           bindE (read_ptr n n_end s3) (\<lambda>p.
           bindE (write_ptr neighbor (at + 1 + n_end) p s3) (\<lambda>s4.
           bindE (node_at neighbor s4) (\<lambda>nb4.
           bindE (adopt neighbor (num_keys nb4 + 1) 0 s4) (\<lambda>s5. Inr (n, s5)))))))))
      else bindE (move_entries False n neighbor (num_keys nd) at 0 s) (\<lambda>s1.
           bindE (read_ptr n (order s - 1) s1) (\<lambda>p.
           bindE (write_ptr neighbor (order s - 1) p s1) (\<lambda>s2. Inr (n, s2)))))))"

text \<open>The neighbor's entries move one to the left.\<close>

function entries_left :: "nat \<Rightarrow> nat \<Rightarrow> nat \<Rightarrow> bnode \<Rightarrow> bnode res" where
  "entries_left ord lim i n =
     (if i < lim
      then bindE (key_at ord n (i + 1)) (\<lambda>k. bindE (set_key ord i k n) (\<lambda>n1.
           bindE (ptr_at ord n1 (i + 1)) (\<lambda>p. bindE (set_ptr ord i p n1) (entries_left ord lim (i + 1)))))
      else Inr n)"
  by pat_completeness auto
termination by (relation "measure (\<lambda>(ord, lim, i, n). lim - i)") auto

declare entries_left.simps [simp del]

definition borrow_left :: "addr \<Rightarrow> addr \<Rightarrow> nat \<Rightarrow> int \<Rightarrow> store \<Rightarrow> store res" where
  "borrow_left n neighbor k_prime_index k_prime s =
     (let ord = order s in
      bindE (node_at n s) (\<lambda>nd.
      bindE (node_at neighbor s) (\<lambda>nb.
      let nk = num_keys nd; bk = num_keys nb; inner = \<not> is_leaf nd in
      bindE (if inner then bindE (read_ptr n nk s) (\<lambda>p. write_ptr n (nk + 1) p s) else Inr s) (\<lambda>s1.
      bindE (on_node n (leaf_shift ord 0 nk) s1) (\<lambda>s2.
      if bk = 0 then Inl OutOfBounds
      else if inner
      then bindE (read_ptr neighbor bk s2) (\<lambda>p. bindE (write_ptr n 0 p s2) (\<lambda>s3.
           bindE (set_parent p n s3) (\<lambda>s4. bindE (write_ptr neighbor bk 0 s4) (\<lambda>s5.
           bindE (write_key n 0 k_prime s5) (\<lambda>s6. bindE (read_key neighbor (bk - 1) s6) (\<lambda>k.
             write_key (parent nd) k_prime_index k s6))))))
      else bindE (read_ptr neighbor (bk - 1) s2) (\<lambda>p. bindE (write_ptr n 0 p s2) (\<lambda>s3.
           bindE (write_ptr neighbor (bk - 1) 0 s3) (\<lambda>s4. bindE (read_key neighbor (bk - 1) s4) (\<lambda>k.
           bindE (write_key n 0 k s4) (\<lambda>s5. bindE (read_key n 0 s5) (\<lambda>k0.
             write_key (parent nd) k_prime_index k0 s5)))))))))))"

definition borrow_right :: "addr \<Rightarrow> addr \<Rightarrow> nat \<Rightarrow> int \<Rightarrow> store \<Rightarrow> store res" where
  "borrow_right n neighbor k_prime_index k_prime s =
     (let ord = order s in
      bindE (node_at n s) (\<lambda>nd.
      let nk = num_keys nd in
      bindE (if is_leaf nd
             then bindE (read_key neighbor 0 s) (\<lambda>k. bindE (write_key n nk k s) (\<lambda>s1.
                  bindE (read_ptr neighbor 0 s1) (\<lambda>p. bindE (write_ptr n nk p s1) (\<lambda>s2.
                  bindE (read_key neighbor 1 s2) (\<lambda>k1. write_key (parent nd) k_prime_index k1 s2)))))
             else bindE (write_key n nk k_prime s) (\<lambda>s1.
                  bindE (read_ptr neighbor 0 s1) (\<lambda>p. bindE (write_ptr n (nk + 1) p s1) (\<lambda>s2.
                  bindE (set_parent p n s2) (\<lambda>s3.
                  bindE (read_key neighbor 0 s3) (\<lambda>k. write_key (parent nd) k_prime_index k s3)))))) (\<lambda>s4.
      bindE (node_at neighbor s4) (\<lambda>nb.
      bindE (on_node neighbor (entries_left ord (num_keys nb - 1) 0) s4) (\<lambda>s5.
        if \<not> is_leaf nd
        then bindE (read_ptr neighbor (num_keys nb - 1 + 1) s5) (\<lambda>p. write_ptr neighbor (num_keys nb - 1) p s5)
        else Inr s5)))))"

definition redistribute_nodes :: "addr \<Rightarrow> addr \<Rightarrow> addr \<Rightarrow> int \<Rightarrow> nat \<Rightarrow> int \<Rightarrow> store \<Rightarrow> (addr \<times> store) res" where
  "redistribute_nodes root n neighbor neighbor_index k_prime_index k_prime s =
     bindE (if neighbor_index \<noteq> - 1 then borrow_left n neighbor k_prime_index k_prime s
            else borrow_right n neighbor k_prime_index k_prime s) (\<lambda>s1.
     bindE (more_keys n s1) (\<lambda>s2. bindE (fewer_keys neighbor s2) (\<lambda>s3. Inr (root, s3))))"

text \<open>
  \<^verbatim>\<open>delete_entry\<close> up to the choice: done, or the neighbor, its index, the index of the key between
  them and that key.
\<close>

definition underflow :: "addr \<Rightarrow> store \<Rightarrow> (addr \<times> int \<times> nat \<times> int) option res" where
  "underflow a s =
     bindE (node_at a s) (\<lambda>n.
     let min_keys = (if is_leaf n then cut (order s - 1) else cut (order s) - 1) in
     if min_keys \<le> num_keys n then Inr None
     else bindE (get_neighbor_index a s) (\<lambda>neighbor_index.
          let k_prime_index = (if neighbor_index = - 1 then 0 else nat neighbor_index) in
          bindE (read_key (parent n) k_prime_index s) (\<lambda>k_prime.
          bindE (read_ptr (parent n) (if neighbor_index = - 1 then 1 else nat neighbor_index) s) (\<lambda>neighbor.
            Inr (Some (neighbor, neighbor_index, k_prime_index, k_prime))))))"

definition fits_in_one :: "addr \<Rightarrow> addr \<Rightarrow> store \<Rightarrow> bool res" where
  "fits_in_one a neighbor s =
     bindE (node_at a s) (\<lambda>n. bindE (node_at neighbor s) (\<lambda>nb.
       let capacity = (if is_leaf n then order s else order s - 1)
       in Inr (num_keys nb + num_keys n < capacity)))"

partial_function (option) delete_entry :: "addr \<Rightarrow> addr \<Rightarrow> int \<Rightarrow> addr \<Rightarrow> store \<Rightarrow> (addr \<times> store) res option" where
  "delete_entry root n key pointer s =
     (case on_node n (remove_entry_from_node (order s) key pointer) s of
        Inl e \<Rightarrow> Some (Inl e)
      | Inr s1 \<Rightarrow>
          if n = root then Some (adjust_root root s1)
          else (case bindE (underflow n s1) (\<lambda>u. case u of None \<Rightarrow> Inr None
                       | Some x \<Rightarrow> bindE (fits_in_one n (fst x) s1) (\<lambda>b. Inr (Some (b, x)))) of
                  Inl e \<Rightarrow> Some (Inl e)
                | Inr None \<Rightarrow> Some (Inr (root, s1))
                | Inr (Some (b, neighbor, neighbor_index, k_prime_index, k_prime)) \<Rightarrow>
                    if b
                    then (case bindE (merge_nodes n neighbor neighbor_index k_prime s1) (\<lambda>(m, s2).
                                 bindE (node_at m s2) (\<lambda>nd. Inr (m, parent nd, s2))) of
                            Inl e \<Rightarrow> Some (Inl e)
                          | Inr (m, par, s2) \<Rightarrow>
                              Option.bind (delete_entry root par k_prime m s2) (\<lambda>r.
                                Some (bindE r (\<lambda>(root1, s3). bindE (free_node m s3) (\<lambda>s4. Inr (root1, s4))))))
                    else Some (redistribute_nodes root n neighbor neighbor_index k_prime_index k_prime s1)))"

definition delete_key :: "addr \<Rightarrow> int \<Rightarrow> store \<Rightarrow> (addr \<times> store) res" where
  "delete_key root key s =
     bindE (find_key root key False s) (\<lambda>((key_record, key_leaf), s1).
       if key_record \<noteq> 0 \<and> key_leaf \<noteq> 0
       then bindE (joined (delete_entry root key_leaf key key_record s1)) (\<lambda>(root1, s2).
            bindE (free_record key_record s2) (\<lambda>s3. Inr (root1, s3)))
       else Inr (root, s1))"

function free_records :: "bnode \<Rightarrow> nat \<Rightarrow> store \<Rightarrow> store res" where
  "free_records n i s =
     (if i < num_keys n then bindE (ptr_at (order s) n i) (\<lambda>p. bindE (free_record p s) (free_records n (i + 1))) else Inr s)"
  by pat_completeness auto
termination by (relation "measure (\<lambda>(n, i, s). num_keys n - i)") auto

declare free_records.simps [simp del]

text \<open>The children number \<open>i\<close> on of \<open>root\<close> are destroyed, then \<open>root\<close> itself.\<close>

partial_function (option) destroy_tree_nodes :: "addr \<Rightarrow> nat \<Rightarrow> store \<Rightarrow> store res option" where
  "destroy_tree_nodes root i s =
     (case node_at root s of
        Inl e \<Rightarrow> Some (Inl e)
      | Inr n \<Rightarrow>
          if is_leaf n then Some (bindE (free_records n 0 s) (free_node root))
          else if i < num_keys n + 1
          then (case ptr_at (order s) n i of
                  Inl e \<Rightarrow> Some (Inl e)
                | Inr child \<Rightarrow> Option.bind (destroy_tree_nodes child 0 s) (\<lambda>r.
                    case r of Inl e \<Rightarrow> Some (Inl e) | Inr s1 \<Rightarrow> destroy_tree_nodes root (i + 1) s1))
          else Some (free_node root s))"

definition destroy_tree :: "addr \<Rightarrow> store \<Rightarrow> (addr \<times> store) res" where
  "destroy_tree root s = bindE (joined (destroy_tree_nodes root 0 s)) (\<lambda>s1. Inr (0, s1))"

section \<open>Printing\<close>

abbreviation (input) newline :: string where "newline \<equiv> [CHR 0x0A]"

definition say :: "piece list \<Rightarrow> store \<Rightarrow> store" where
  "say ps s = s\<lparr>printed := printed s @ ps\<rparr>"

partial_function (option) queue_end :: "addr \<Rightarrow> store \<Rightarrow> addr res option" where
  "queue_end c s =
     (case node_at c s of
        Inl e \<Rightarrow> Some (Inl e)
      | Inr n \<Rightarrow> if next_node n \<noteq> 0 then queue_end (next_node n) s else Some (Inr c))"

definition set_next :: "addr \<Rightarrow> addr \<Rightarrow> store \<Rightarrow> store res" where
  "set_next a p = on_node a (\<lambda>n. Inr (n\<lparr>next_node := p\<rparr>))"

definition enqueue :: "addr \<Rightarrow> store \<Rightarrow> store res" where
  "enqueue new_node s =
     (if queue s = 0 then set_next new_node 0 (s\<lparr>queue := new_node\<rparr>)
      else bindE (joined (queue_end (queue s) s)) (\<lambda>c. bindE (set_next c new_node s) (set_next new_node 0)))"

definition dequeue :: "store \<Rightarrow> (addr \<times> store) res" where
  "dequeue s =
     (let n = queue s
      in bindE (node_at n s) (\<lambda>nd. bindE (set_next n 0 (s\<lparr>queue := next_node nd\<rparr>)) (\<lambda>s1. Inr (n, s1))))"

partial_function (option) height_loop :: "addr \<Rightarrow> nat \<Rightarrow> store \<Rightarrow> nat res option" where
  "height_loop c h s =
     (case node_at c s of
        Inl e \<Rightarrow> Some (Inl e)
      | Inr n \<Rightarrow>
          if is_leaf n then Some (Inr h)
          else (case ptr_at (order s) n 0 of Inl e \<Rightarrow> Some (Inl e) | Inr c1 \<Rightarrow> height_loop c1 (h + 1) s))"

definition height :: "addr \<Rightarrow> store \<Rightarrow> nat res" where
  "height root s = joined (height_loop root 0 s)"

partial_function (option) path_loop :: "addr \<Rightarrow> addr \<Rightarrow> nat \<Rightarrow> store \<Rightarrow> nat res option" where
  "path_loop root c len s =
     (if c \<noteq> root
      then (case node_at c s of Inl e \<Rightarrow> Some (Inl e) | Inr n \<Rightarrow> path_loop root (parent n) (len + 1) s)
      else Some (Inr len))"

definition path_to_root :: "addr \<Rightarrow> addr \<Rightarrow> store \<Rightarrow> nat res" where
  "path_to_root root child s = joined (path_loop root child 0 s)"

text \<open>The entries of a node, with the pointers in verbose mode.\<close>

function entry_pieces :: "bool \<Rightarrow> nat \<Rightarrow> bnode \<Rightarrow> nat \<Rightarrow> piece list res" where
  "entry_pieces v ord n i =
     (if i < num_keys n
      then bindE (if v then bindE (ptr_at ord n i) (\<lambda>p. Inr [Ptr p, Str '' '']) else Inr []) (\<lambda>ps.
           bindE (key_at ord n i) (\<lambda>k. bindE (entry_pieces v ord n (i + 1)) (\<lambda>qs. Inr (ps @ [Dec k, Str '' ''] @ qs))))
      else Inr [])"
  by pat_completeness auto
termination by (relation "measure (\<lambda>(v, ord, n, i). num_keys n - i)") auto

declare entry_pieces.simps [simp del]

partial_function (option) leaves_loop :: "addr \<Rightarrow> store \<Rightarrow> store res option" where
  "leaves_loop c s =
     (case bindE (node_at c s) (\<lambda>n. bindE (entry_pieces (verbose_output s) (order s) n 0) (\<lambda>ps.
             bindE (ptr_at (order s) n (order s - 1)) (\<lambda>nx. Inr (ps @ (if verbose_output s then [Ptr nx, Str '' ''] else []), nx)))) of
        Inl e \<Rightarrow> Some (Inl e)
      | Inr (ps, nx) \<Rightarrow> if nx \<noteq> 0 then leaves_loop nx (say (ps @ [Str '' | '']) s) else Some (Inr (say ps s)))"

partial_function (option) first_leaf :: "addr \<Rightarrow> store \<Rightarrow> addr res option" where
  "first_leaf c s =
     (case node_at c s of
        Inl e \<Rightarrow> Some (Inl e)
      | Inr n \<Rightarrow>
          if is_leaf n then Some (Inr c)
          else (case ptr_at (order s) n 0 of Inl e \<Rightarrow> Some (Inl e) | Inr c1 \<Rightarrow> first_leaf c1 s))"

definition print_leaves :: "addr \<Rightarrow> store \<Rightarrow> store res" where
  "print_leaves root s =
     (if root = 0 then Inr (say [Str (''Empty tree.'' @ newline)] s)
      else bindE (joined (first_leaf root s)) (\<lambda>c. bindE (joined (leaves_loop c s)) (\<lambda>s1. Inr (say [Str newline] s1))))"

function enqueue_children :: "addr \<Rightarrow> nat \<Rightarrow> nat \<Rightarrow> store \<Rightarrow> store res" where
  "enqueue_children a lim i s =
     (if i < lim then bindE (read_ptr a i s) (\<lambda>p. bindE (enqueue p s) (enqueue_children a lim (i + 1))) else Inr s)"
  by pat_completeness auto
termination by (relation "measure (\<lambda>(a, lim, i, s). lim - i)") auto

declare enqueue_children.simps [simp del]

text \<open>The body of the loop of \<^verbatim>\<open>print_tree\<close>: the new rank and the store.\<close>

definition print_one :: "addr \<Rightarrow> nat \<Rightarrow> store \<Rightarrow> (nat \<times> store) res" where
  "print_one root rank s0 =
     bindE (dequeue s0) (\<lambda>(a, s).
     bindE (node_at a s) (\<lambda>n.
     bindE (if parent n = 0 then Inr False else bindE (read_ptr (parent n) 0 s) (\<lambda>p. Inr (a = p))) (\<lambda>first.
     bindE (if first then bindE (path_to_root root a s) (\<lambda>new_rank.
              Inr (new_rank, if new_rank \<noteq> rank then say [Str newline] s else s)) else Inr (rank, s)) (\<lambda>(rank1, s1).
     let v = verbose_output s1; s2 = (if v then say [Str ''('', Ptr a, Str '')''] s1 else s1) in
     bindE (entry_pieces v (order s2) n 0) (\<lambda>ps.
     let s3 = say ps s2 in
     bindE (if \<not> is_leaf n then enqueue_children a (num_keys n + 1) 0 s3 else Inr s3) (\<lambda>s4.
     bindE (if v then bindE (read_ptr a (if is_leaf n then order s4 - 1 else num_keys n) s4) (\<lambda>p. Inr [Ptr p, Str '' '']) else Inr []) (\<lambda>qs.
       Inr (rank1, say (qs @ [Str ''| '']) s4))))))))"

partial_function (option) print_loop :: "addr \<Rightarrow> nat \<Rightarrow> store \<Rightarrow> store res option" where
  "print_loop root rank s =
     (if queue s \<noteq> 0
      then (case print_one root rank s of Inl e \<Rightarrow> Some (Inl e) | Inr (rank1, s1) \<Rightarrow> print_loop root rank1 s1)
      else Some (Inr s))"

definition print_tree :: "addr \<Rightarrow> store \<Rightarrow> store res" where
  "print_tree root s =
     (if root = 0 then Inr (say [Str (''Empty tree.'' @ newline)] s)
      else bindE (enqueue root (s\<lparr>queue := 0\<rparr>)) (\<lambda>s1. bindE (joined (print_loop root 0 s1)) (\<lambda>s2. Inr (say [Str newline] s2))))"

definition record_value :: "addr \<Rightarrow> store \<Rightarrow> int res" where
  "record_value r s = (case recs s r of None \<Rightarrow> Inl OutOfBounds | Some v \<Rightarrow> Inr v)"

definition find_and_print :: "addr \<Rightarrow> int \<Rightarrow> bool \<Rightarrow> store \<Rightarrow> store res" where
  "find_and_print root key verb s =
     bindE (find_key root key verb s) (\<lambda>((r, _), s1).
       if r = 0 then Inr (say [Str ''Record not found under key '', Dec key, Str (''.'' @ newline)] s1)
       else bindE (record_value r s1) (\<lambda>v.
            Inr (say [Str ''Record at '', Ptr r, Str '' -- key '', Dec key, Str '', value '', Dec v, Str (''.'' @ newline)] s1)))"

fun print_found :: "(int \<times> addr) list \<Rightarrow> store \<Rightarrow> store res" where
  "print_found [] s = Inr s"
| "print_found ((k, p) # found) s =
     bindE (record_value p s) (\<lambda>v.
       print_found found (say [Str ''Key: '', Dec k, Str ''   Location: '', Ptr p, Str ''  Value: '', Dec v, Str newline] s))"

text \<open>An array of no or a negative number of elements is not a fault until something is stored in it.\<close>

definition find_and_print_range :: "addr \<Rightarrow> int \<Rightarrow> int \<Rightarrow> bool \<Rightarrow> store \<Rightarrow> store res" where
  "find_and_print_range root key_start key_end verb s =
     bindE (find_range (nat (key_end - key_start + 1)) root key_start key_end verb s) (\<lambda>(found, s1).
       if found = [] then Inr (say [Str (''None found.'' @ newline)] s1) else print_found found s1)"

section \<open>The demonstration\<close>

definition bplus_main :: "store \<Rightarrow> (addr \<times> store) res" where
  "bplus_main s =
     bindE (insert_key 0 5 33 s) (\<lambda>(root, s). bindE (insert_key root 15 21 s) (\<lambda>(root, s).
     bindE (insert_key root 25 31 s) (\<lambda>(root, s). bindE (insert_key root 35 41 s) (\<lambda>(root, s).
     bindE (insert_key root 45 10 s) (\<lambda>(root, s). bindE (print_tree root s) (\<lambda>s.
     bindE (delete_key root 25 s) (\<lambda>(root, s). bindE (print_tree root s) (\<lambda>s. Inr (root, s)))))))))"

definition initial :: store where
  "initial = \<lparr>nodes = (\<lambda>_. None), recs = (\<lambda>_. None), order = 3, queue = 0, verbose_output = False, calls = 0,
     fails = (\<lambda>_. False), printed = []\<rparr>"

end
