(* ===== verification/Bplus_Nodes.thy ===== *)
theory Bplus_Nodes
  imports Bplus_Tree
begin

text \<open>
  What the loops of \<open>Bplus_Tree\<close> do to one node, in terms of the lists its arrays hold: searching is
  \<open>takeWhile\<close>, shifting and storing is \<open>insert_at\<close>, and the temporary arrays of a split hold the list
  with the new element in it.
\<close>

section \<open>Arrays and lists\<close>

text \<open>The first slots of an array hold the elements of a list.\<close>

definition holds :: "(nat \<Rightarrow> 'a option) \<Rightarrow> 'a list \<Rightarrow> bool" where
  "holds f xs \<longleftrightarrow> (\<forall>i < length xs. f i = Some (xs ! i))"

lemma holdsD: "holds f xs \<Longrightarrow> i < length xs \<Longrightarrow> f i = Some (xs ! i)"
  by (simp add: holds_def)

lemma holds_Nil [simp]: "holds f []"
  by (simp add: holds_def)

lemma slot_get_holds: "holds f xs \<Longrightarrow> i < length xs \<Longrightarrow> i < sz \<Longrightarrow> slot_get sz f i = Inr (xs ! i)"
  by (simp add: slot_get_def holds_def)

definition node_lists :: "bnode \<Rightarrow> int list \<Rightarrow> addr list \<Rightarrow> bool" where
  "node_lists n ks ps \<longleftrightarrow> num_keys n = length ks \<and> holds (keys n) ks \<and> holds (pointers n) ps"

lemma scan_while_list:
  assumes "\<And>j. j < length xs \<Longrightarrow> get j = Inr (xs ! j)" and "i \<le> length xs"
  shows "scan_while (length xs) get P i = Inr (i + length (takeWhile P (drop i xs)))"
  using assms(2)
proof (induction "length xs - i" arbitrary: i)
  case 0
  then show ?case by (simp add: scan_while.simps [of _ _ _ i])
next
  case (Suc d)
  then have i: "i < length xs" by simp
  then have "drop i xs = xs ! i # drop (Suc i) xs" by (simp add: Cons_nth_drop_Suc)
  moreover have "scan_while (length xs) get P (Suc i) = Inr (Suc i + length (takeWhile P (drop (Suc i) xs)))"
    using Suc by simp
  ultimately show ?case using i assms(1) by (simp add: scan_while.simps [of _ _ _ i])
qed

lemma key_at_list: "holds (keys n) ks \<Longrightarrow> j < length ks \<Longrightarrow> length ks \<le> ord - 1 \<Longrightarrow> key_at ord n j = Inr (ks ! j)"
  by (simp add: key_at_def slot_get_def holds_def)

lemma ptr_at_list: "holds (pointers n) ps \<Longrightarrow> j < length ps \<Longrightarrow> length ps \<le> ord \<Longrightarrow> ptr_at ord n j = Inr (ps ! j)"
  by (simp add: ptr_at_def slot_get_def holds_def)

lemma child_index_list:
  assumes "node_lists n ks ps" and "length ks \<le> ord - 1"
  shows "child_index ord n key = Inr (length (takeWhile (\<lambda>k. k \<le> key) ks))"
  using assms scan_while_list [of ks "key_at ord n" 0 "\<lambda>k. k \<le> key"] key_at_list by (simp add: child_index_def node_lists_def)

lemma key_pos_list:
  assumes "node_lists n ks ps" and "length ks \<le> ord - 1"
  shows "key_pos ord n key = Inr (length (takeWhile (\<lambda>k. k \<noteq> key) ks))"
  using assms scan_while_list [of ks "key_at ord n" 0 "\<lambda>k. k \<noteq> key"] key_at_list by (simp add: key_pos_def node_lists_def)

lemma insertion_point_list:
  assumes "node_lists n ks ps" and "length ks \<le> ord - 1"
  shows "insertion_point ord (length ks) n key = Inr (length (takeWhile (\<lambda>k. k < key) ks))"
  using assms scan_while_list [of ks "key_at ord n" 0 "\<lambda>k. k < key"] key_at_list by (simp add: insertion_point_def node_lists_def)

lemma get_left_index_list:
  assumes "node_lists n ks ps" and "length ps = Suc (length ks)" and "length ps \<le> ord"
  shows "get_left_index ord n p = Inr (length (takeWhile (\<lambda>q. q \<noteq> p) ps))"
  using assms scan_while_list [of ps "ptr_at ord n" 0 "\<lambda>q. q \<noteq> p"] ptr_at_list by (simp add: get_left_index_def node_lists_def)

section \<open>Moving entries inside a node\<close>

definition insert_at :: "nat \<Rightarrow> 'a \<Rightarrow> 'a list \<Rightarrow> 'a list" where
  "insert_at i x xs = take i xs @ x # drop i xs"

lemma length_insert_at [simp]: "length (insert_at i x xs) = Suc (length xs)"
  by (simp add: insert_at_def)

lemma nth_insert_at: "i \<le> length xs \<Longrightarrow> j \<le> length xs \<Longrightarrow> insert_at i x xs ! j = (if j < i then xs ! j else if j = i then x else xs ! (j - 1))"
  by (auto simp: insert_at_def nth_append nth_Cons' min_def not_less)

text \<open>One slot to the right, from number \<open>p\<close> up to number \<open>i - 1\<close>.\<close>

definition shifted :: "nat \<Rightarrow> nat \<Rightarrow> (nat \<Rightarrow> 'a option) \<Rightarrow> (nat \<Rightarrow> 'a option)" where
  "shifted p i f j = (if p < j \<and> j \<le> i then f (j - 1) else f j)"

lemma shifted_le: "i \<le> p \<Longrightarrow> shifted p i f = f"
  by (auto simp: shifted_def fun_eq_iff)

lemma shifted_Suc: "p \<le> i \<Longrightarrow> shifted p i (\<lambda>a. if a = Suc i then f i else f a) = shifted p (Suc i) f"
  by (auto simp: shifted_def fun_eq_iff le_Suc_eq)

lemma holds_shifted:
  assumes "holds f xs" and "p \<le> length xs"
  shows "holds ((shifted p (length xs) f)(p \<mapsto> x)) (insert_at p x xs)"
  using assms by (auto simp: holds_def shifted_def nth_insert_at less_Suc_eq_le)

lemma leaf_shift_eq:
  assumes "holds (keys n) ks" and "holds (pointers n) ps" and "i \<le> length ks" and "i \<le> length ps" and "i < ord - 1"
  shows "leaf_shift ord p i n = Inr (n\<lparr>keys := shifted p i (keys n), pointers := shifted p i (pointers n)\<rparr>)"
  using assms
proof (induction i arbitrary: n ks ps)
  case 0
  then show ?case by (simp add: shifted_le)
next
  case (Suc i)
  show ?case
  proof (cases "p < Suc i")
    case True
    let ?n = "n\<lparr>keys := (keys n)(Suc i := keys n i), pointers := (pointers n)(Suc i := pointers n i)\<rparr>"
    have v: "keys n i = Some (ks ! i)" "pointers n i = Some (ps ! i)" using Suc.prems by (simp_all add: holds_def)
    have "Suc i < ord" "i < ord" "i < ord - 1" using Suc.prems(5) by simp_all
    then have step: "leaf_shift ord p (Suc i) n = leaf_shift ord p i ?n"
      using True v Suc.prems(5) by (simp add: key_at_def ptr_at_def set_key_def set_ptr_def slot_get_def slot_put_def)
    have "holds (keys ?n) (take i ks)" "holds (pointers ?n) (take i ps)"
      using Suc.prems(1,2) by (simp_all add: holds_def)
    from Suc.IH [OF this] Suc.prems(3-5) show ?thesis
      unfolding step using True by (simp add: shifted_Suc fun_upd_def)
  next
    case False
    then show ?thesis by (simp add: shifted_le)
  qed
qed

lemma insert_into_leaf_eq:
  fixes key :: int
  assumes "node_lists n ks ps" and "length ps = length ks" and "length ks < ord - 1"
  defines "p \<equiv> length (takeWhile (\<lambda>k. k < key) ks)"
  shows "\<exists>n'. insert_into_leaf ord key pointer n = Inr n' \<and> node_lists n' (insert_at p key ks) (insert_at p pointer ps) \<and>
    parent n' = parent n \<and> is_leaf n' = is_leaf n \<and> pointers n' (ord - 1) = pointers n (ord - 1)"
proof -
  have p: "p \<le> length ks" unfolding p_def by (rule length_takeWhile_le)
  let ?n = "n\<lparr>keys := shifted p (length ks) (keys n), pointers := shifted p (length ks) (pointers n)\<rparr>"
  let ?n' = "n\<lparr>keys := (shifted p (length ks) (keys n))(p \<mapsto> key), pointers := (shifted p (length ks) (pointers n))(p \<mapsto> pointer),
     num_keys := Suc (length ks)\<rparr>"
  have nl: "num_keys n = length ks" "holds (keys n) ks" "holds (pointers n) ps" using assms(1) by (simp_all add: node_lists_def)
  have "leaf_shift ord p (length ks) n = Inr ?n" by (rule leaf_shift_eq [OF nl(2,3)]) (use assms(2,3) in simp_all)
  moreover have "insertion_point ord (length ks) n key = Inr p"
    unfolding p_def by (rule insertion_point_list [OF assms(1)]) (use assms(3) in simp)
  ultimately have "insert_into_leaf ord key pointer n = Inr ?n'"
    using nl p assms(3) by (simp add: insert_into_leaf_def set_key_def set_ptr_def slot_put_def)
  moreover have "node_lists ?n' (insert_at p key ks) (insert_at p pointer ps)"
    using holds_shifted [OF nl(2) p] holds_shifted [OF nl(3), of p] p assms(2) by (simp add: node_lists_def)
  moreover have "pointers ?n' (ord - 1) = pointers n (ord - 1)" using p assms(3) by (simp add: shifted_def)
  ultimately show ?thesis by (intro exI [of _ ?n']) simp
qed

lemma node_shift_eq:
  assumes "holds (keys n) ks" and "holds (pointers n) ps" and "i \<le> length ks" and "i < length ps" and "i < ord - 1"
  shows "node_shift ord p i n = Inr (n\<lparr>keys := shifted p i (keys n), pointers := shifted (Suc p) (Suc i) (pointers n)\<rparr>)"
  using assms
proof (induction i arbitrary: n ks ps)
  case 0
  then show ?case by (simp add: shifted_le)
next
  case (Suc i)
  show ?case
  proof (cases "p < Suc i")
    case True
    let ?n = "n\<lparr>pointers := (pointers n)(Suc (Suc i) := pointers n (Suc i)), keys := (keys n)(Suc i := keys n i)\<rparr>"
    have v: "keys n i = Some (ks ! i)" "pointers n (Suc i) = Some (ps ! Suc i)" using Suc.prems by (simp_all add: holds_def)
    have "Suc (Suc i) < ord" "i < ord - 1" using Suc.prems(5) by simp_all
    then have step: "node_shift ord p (Suc i) n = node_shift ord p i ?n"
      using True v Suc.prems(5) by (simp add: key_at_def ptr_at_def set_key_def set_ptr_def slot_get_def slot_put_def)
    have "holds (keys ?n) (take i ks)" "holds (pointers ?n) (take (Suc i) ps)"
      using Suc.prems(1,2) by (simp_all add: holds_def)
    from Suc.IH [OF this] Suc.prems(3-5) show ?thesis
      unfolding step using True by (simp add: shifted_Suc fun_upd_def)
  next
    case False
    then show ?thesis by (simp add: shifted_le)
  qed
qed

lemma insert_into_node_eq:
  assumes "node_lists n ks ps" and "length ps = Suc (length ks)" and "length ks < ord - 1" and "p \<le> length ks"
  shows "\<exists>n'. insert_into_node ord p key right n = Inr n' \<and> node_lists n' (insert_at p key ks) (insert_at (Suc p) right ps) \<and>
    parent n' = parent n \<and> is_leaf n' = is_leaf n"
proof -
  let ?n' = "n\<lparr>keys := (shifted p (length ks) (keys n))(p \<mapsto> key),
     pointers := (shifted (Suc p) (Suc (length ks)) (pointers n))(Suc p \<mapsto> right), num_keys := Suc (length ks)\<rparr>"
  have nl: "num_keys n = length ks" "holds (keys n) ks" "holds (pointers n) ps" using assms(1) by (simp_all add: node_lists_def)
  have "node_shift ord p (length ks) n =
      Inr (n\<lparr>keys := shifted p (length ks) (keys n), pointers := shifted (Suc p) (Suc (length ks)) (pointers n)\<rparr>)"
    by (rule node_shift_eq [OF nl(2,3)]) (use assms(2,3) in simp_all)
  then have "insert_into_node ord p key right n = Inr ?n'"
    using nl assms(3,4) by (simp add: insert_into_node_def set_key_def set_ptr_def slot_put_def)
  moreover have "node_lists ?n' (insert_at p key ks) (insert_at (Suc p) right ps)"
    using holds_shifted [OF nl(2) assms(4)] holds_shifted [OF nl(3), of "Suc p"] assms(2,4) by (simp add: node_lists_def)
  ultimately show ?thesis by (intro exI [of _ ?n']) simp
qed

section \<open>Splitting\<close>

lemma copy_around_eq:
  assumes "\<And>x. x < length xs \<Longrightarrow> get x = Inr (xs ! x)" and "hole \<le> length xs" and "length xs < sz"
    and "i \<le> length xs" and "j = (if i \<le> hole then i else Suc i)" and "\<forall>x < j. x \<noteq> hole \<longrightarrow> temp x = Some (insert_at hole v xs ! x)"
  shows "\<exists>temp'. copy_around sz (length xs) hole get i j temp = Inr temp' \<and>
    (\<forall>x \<le> length xs. x \<noteq> hole \<longrightarrow> temp' x = Some (insert_at hole v xs ! x))"
  using assms(4-6)
proof (induction "length xs - i" arbitrary: i j temp)
  case 0
  then have i: "i = length xs" by simp
  then have "\<forall>x \<le> length xs. x \<noteq> hole \<longrightarrow> x < j" using 0 assms(2) by auto
  then show ?case using 0 i by (intro exI [of _ temp]) (simp add: copy_around.simps [of _ _ _ _ "length xs"])
next
  case (Suc d)
  then have i: "i < length xs" by simp
  let ?j1 = "if j = hole then j + 1 else j"
  have j1: "?j1 \<le> length xs" "?j1 \<noteq> hole" using i Suc.prems(2) by (auto split: if_splits)
  have val: "insert_at hole v xs ! ?j1 = xs ! i"
    using nth_insert_at [OF assms(2) j1(1)] Suc.prems(2) by (auto split: if_splits)
  have step: "copy_around sz (length xs) hole get i j temp = copy_around sz (length xs) hole get (Suc i) (Suc ?j1) (temp(?j1 \<mapsto> xs ! i))"
    using i assms(1,3) j1 by (simp add: copy_around.simps [of _ _ _ _ i] slot_put_def Let_def)
  have below: "\<forall>x < Suc ?j1. x \<noteq> hole \<longrightarrow> (temp(?j1 \<mapsto> xs ! i)) x = Some (insert_at hole v xs ! x)"
  proof (intro allI impI)
    fix x assume x: "x < Suc ?j1" "x \<noteq> hole"
    show "(temp(?j1 \<mapsto> xs ! i)) x = Some (insert_at hole v xs ! x)"
    proof (cases "x = ?j1")
      case True
      then show ?thesis using val by simp
    next
      case False
      then have "x < j" using x by (auto split: if_splits)
      then show ?thesis using Suc.prems(3) x(2) False by simp
    qed
  qed
  show ?case unfolding step
    by (rule Suc.hyps(1) [OF _ _ _ below]) (use Suc.hyps(2) i Suc.prems(2) in auto)
qed

lemma copy_around_list:
  assumes "\<And>x. x < length xs \<Longrightarrow> get x = Inr (xs ! x)" and "hole \<le> length xs" and "length xs < sz"
  shows "\<exists>temp temp'. copy_around sz (length xs) hole get 0 0 (\<lambda>_. None) = Inr temp \<and> slot_put sz hole v temp = Inr temp' \<and>
    holds temp' (insert_at hole v xs)"
proof -
  obtain temp where t: "copy_around sz (length xs) hole get 0 0 (\<lambda>_. None) = Inr temp"
    "\<forall>x \<le> length xs. x \<noteq> hole \<longrightarrow> temp x = Some (insert_at hole v xs ! x)"
    using copy_around_eq [OF assms, of 0 0 "\<lambda>_. None" v] by auto
  have "holds (temp(hole \<mapsto> v)) (insert_at hole v xs)"
    using t(2) assms(2) nth_insert_at [OF assms(2), of hole v] by (simp add: holds_def less_Suc_eq_le)
  moreover have "hole < sz" using assms(2,3) by simp
  ultimately show ?thesis using t(1) by (simp add: slot_put_def)
qed

lemma fill_node_eq:
  assumes "holds tk ks" and "holds tp ps" and "lim \<le> length ks" "lim \<le> length ps" "lim \<le> ksz" "lim \<le> psz" and "i \<le> lim"
    and "j + (lim - i) \<le> ord - 1"
  shows "\<exists>n'. fill_node ord ksz psz tk tp lim i j n = Inr n' \<and> num_keys n' = num_keys n + (lim - i) \<and>
    parent n' = parent n \<and> is_leaf n' = is_leaf n \<and> next_node n' = next_node n \<and>
    (\<forall>x. keys n' x = (if j \<le> x \<and> x < j + (lim - i) then Some (ks ! (i + x - j)) else keys n x)) \<and>
    (\<forall>x. pointers n' x = (if j \<le> x \<and> x < j + (lim - i) then Some (ps ! (i + x - j)) else pointers n x))"
  using assms(7,8)
proof (induction "lim - i" arbitrary: i j n)
  case 0
  then show ?case by (auto simp: fill_node.simps [of _ _ _ _ _ _ i])
next
  case (Suc d)
  then have i: "i < lim" by simp
  let ?n = "n\<lparr>pointers := (pointers n)(j \<mapsto> ps ! i), keys := (keys n)(j \<mapsto> ks ! i), num_keys := Suc (num_keys n)\<rparr>"
  have j: "j < ord" "j < ord - 1" using Suc.prems(2) i by simp_all
  have g: "slot_get ksz tk i = Inr (ks ! i)" "slot_get psz tp i = Inr (ps ! i)"
    using assms(1-6) i by (simp_all add: slot_get_holds)
  have step: "fill_node ord ksz psz tk tp lim i j n = fill_node ord ksz psz tk tp lim (Suc i) (Suc j) ?n"
    using i j g by (simp add: fill_node.simps [of _ _ _ _ _ _ i] set_ptr_def set_key_def slot_put_def)
  have h: "d = lim - Suc i" "Suc i \<le> lim" "Suc j + (lim - Suc i) \<le> ord - 1" using Suc.hyps(2) Suc.prems(2) i by simp_all
  from Suc.hyps(1) [OF h, of ?n] obtain n' where n': "fill_node ord ksz psz tk tp lim (Suc i) (Suc j) ?n = Inr n'"
    "num_keys n' = num_keys ?n + (lim - Suc i)" "parent n' = parent n" "is_leaf n' = is_leaf n" "next_node n' = next_node n"
    "\<forall>x. keys n' x = (if Suc j \<le> x \<and> x < Suc j + (lim - Suc i) then Some (ks ! (Suc i + x - Suc j)) else keys ?n x)"
    "\<forall>x. pointers n' x = (if Suc j \<le> x \<and> x < Suc j + (lim - Suc i) then Some (ps ! (Suc i + x - Suc j)) else pointers ?n x)" by auto
  show ?case unfolding step using n' i by (intro exI [of _ n']) (auto simp: less_Suc_eq_le not_less)
qed

lemma fill_node_list:
  assumes "holds tk ks" and "holds tp ps" and "lim \<le> length ks" "lim \<le> length ps" "lim \<le> ksz" "lim \<le> psz" and "i \<le> lim"
    and "lim - i \<le> ord - 1" and "num_keys n = 0"
  shows "\<exists>n'. fill_node ord ksz psz tk tp lim i 0 n = Inr n' \<and>
    node_lists n' (drop i (take lim ks)) (drop i (take lim ps)) \<and> parent n' = parent n \<and> is_leaf n' = is_leaf n \<and>
    (\<forall>x \<ge> lim - i. keys n' x = keys n x \<and> pointers n' x = pointers n x)"
  using fill_node_eq [OF assms(1-7), of 0 ord n] assms(3,4,8,9)
  by (auto simp: node_lists_def holds_def add.commute)

definition nulled :: "nat \<Rightarrow> nat \<Rightarrow> (nat \<Rightarrow> addr option) \<Rightarrow> (nat \<Rightarrow> addr option)" where
  "nulled i lim f = (\<lambda>x. if i \<le> x \<and> x < lim then Some 0 else f x)"

lemma null_pointers_eq:
  assumes "lim \<le> ord"
  shows "null_pointers ord lim i n = Inr (n\<lparr>pointers := nulled i lim (pointers n)\<rparr>)"
proof (induction "lim - i" arbitrary: i n)
  case 0
  then have "nulled i lim (pointers n) = pointers n" by (auto simp: nulled_def fun_eq_iff)
  then show ?case using 0 by (simp add: null_pointers.simps [of _ _ i])
next
  case (Suc d)
  let ?n = "n\<lparr>pointers := (pointers n)(i \<mapsto> 0)\<rparr>"
  have i: "i < lim" "i < ord" using Suc.hyps(2) assms by simp_all
  have "null_pointers ord lim i n = null_pointers ord lim (Suc i) ?n"
    using i by (simp add: null_pointers.simps [of _ _ i] set_ptr_def slot_put_def)
  also have "\<dots> = Inr (?n\<lparr>pointers := nulled (Suc i) lim (pointers ?n)\<rparr>)"
    by (rule Suc.hyps(1)) (use Suc.hyps(2) in simp)
  also have "nulled (Suc i) lim (pointers ?n) = nulled i lim (pointers n)"
    using i by (auto simp: nulled_def fun_eq_iff)
  finally show ?case by simp
qed

lemma adopt_eq:
  assumes "nodes s a = Some n" and "holds (pointers n) ps" and "length ps \<le> order s" and "a \<notin> set ps"
    and "\<forall>p \<in> set ps. nodes s p \<noteq> None" and "i \<le> length ps"
  shows "adopt a (length ps) i s = Inr (s\<lparr>nodes := (\<lambda>x. if x \<in> set (drop i ps) then map_option (\<lambda>m. m\<lparr>parent := a\<rparr>) (nodes s x) else nodes s x)\<rparr>)"
  using assms
proof (induction "length ps - i" arbitrary: i s)
  case 0
  then have "drop i ps = []" by simp
  then show ?case using 0 by (simp add: adopt.simps [of _ _ i])
next
  case (Suc d)
  then have i: "i < length ps" by simp
  obtain m where m: "nodes s (ps ! i) = Some m" using Suc.prems(5) i by (meson nth_mem option.exhaust_sel)
  let ?s = "s\<lparr>nodes := (nodes s)(ps ! i \<mapsto> m\<lparr>parent := a\<rparr>)\<rparr>"
  have ne: "ps ! i \<noteq> a" using Suc.prems(4) i by (metis nth_mem)
  have step: "adopt a (length ps) i s = adopt a (length ps) (Suc i) ?s"
    using i m Suc.prems(1) ptr_at_list [OF Suc.prems(2) i Suc.prems(3)]
    by (simp add: adopt.simps [of _ _ i] node_at_def set_parent_def on_node_def put_node_def)
  have "adopt a (length ps) (Suc i) ?s =
      Inr (?s\<lparr>nodes := (\<lambda>x. if x \<in> set (drop (Suc i) ps) then map_option (\<lambda>m. m\<lparr>parent := a\<rparr>) (nodes ?s x) else nodes ?s x)\<rparr>)"
    by (rule Suc.hyps(1)) (use Suc ne in auto)
  moreover have "drop i ps = ps ! i # drop (Suc i) ps" using i by (simp add: Cons_nth_drop_Suc)
  then have "(\<lambda>x. if x \<in> set (drop (Suc i) ps) then map_option (\<lambda>m. m\<lparr>parent := a\<rparr>) (nodes ?s x) else nodes ?s x) =
      (\<lambda>x. if x \<in> set (drop i ps) then map_option (\<lambda>m. m\<lparr>parent := a\<rparr>) (nodes s x) else nodes s x)"
    using m by (auto simp: fun_eq_iff)
  ultimately show ?case unfolding step by simp
qed

end
