(* ===== verification/Bplus_Search.thy ===== *)
theory Bplus_Search
  imports Bplus_Nodes
begin

text \<open>
  The tree the store represents, the sizes its nodes keep, and the order of its separators and keys,
  stated on the flat list of what it holds from left to right. A search ends in the leaf a key belongs
  to; the walk along the leaves collects a range; the height is logarithmic.
\<close>

section \<open>The tree in the store\<close>

text \<open>
  A leaf with its address and its entries, keys with the addresses of their records, or an inner
  node with its keys and its children.
\<close>

datatype btree = Lf addr "(int \<times> addr) list" | Nd addr "int list" "btree list"

fun root_of :: "btree \<Rightarrow> addr" where
  "root_of (Lf a es) = a"
| "root_of (Nd a ks ts) = a"

fun addrs :: "btree \<Rightarrow> addr list" where
  "addrs (Lf a es) = [a]"
| "addrs (Nd a ks ts) = a # concat (map addrs ts)"

fun represents :: "store \<Rightarrow> addr \<Rightarrow> btree \<Rightarrow> bool" where
  "represents s p (Lf a es) \<longleftrightarrow> a \<noteq> 0 \<and>
     (case nodes s a of None \<Rightarrow> False | Some n \<Rightarrow> node_lists n (map fst es) (map snd es) \<and> parent n = p \<and> is_leaf n)"
| "represents s p (Nd a ks ts) \<longleftrightarrow> a \<noteq> 0 \<and>
     (case nodes s a of None \<Rightarrow> False | Some n \<Rightarrow> node_lists n ks (map root_of ts) \<and> parent n = p \<and> \<not> is_leaf n) \<and>
     (\<forall>t \<in> set ts. represents s a t)"

text \<open>
  The sizes: \<open>low\<close> says that a node is not the root, for which the lower bounds hold; all leaves are
  at the same distance \<open>h\<close>.
\<close>

fun shape :: "nat \<Rightarrow> bool \<Rightarrow> nat \<Rightarrow> btree \<Rightarrow> bool" where
  "shape ord low h (Lf a es) \<longleftrightarrow> h = 0 \<and> (if low then cut (ord - 1) else 1) \<le> length es \<and> length es \<le> ord - 1"
| "shape ord low h (Nd a ks ts) \<longleftrightarrow> h \<noteq> 0 \<and> (if low then cut ord - 1 else 1) \<le> length ks \<and> length ks \<le> ord - 1 \<and>
     length ts = Suc (length ks) \<and> (\<forall>t \<in> set ts. shape ord True (h - 1) t)"

text \<open>What the tree holds from left to right: its leaves, separators and entries.\<close>

datatype item = Page addr "(int \<times> addr) list" | Sep int

fun weave :: "int list \<Rightarrow> item list list \<Rightarrow> item list" where
  "weave ks [] = []"
| "weave [] (x # xs) = x"
| "weave (k # ks) (x # xs) = x @ Sep k # weave ks xs"

fun flat :: "btree \<Rightarrow> item list" where
  "flat (Lf a es) = [Page a es]"
| "flat (Nd a ks ts) = weave ks (map flat ts)"

definition leaves :: "item list \<Rightarrow> addr list" where
  "leaves xs = concat (map (\<lambda>x. case x of Page a es \<Rightarrow> [a] | Sep k \<Rightarrow> []) xs)"

definition entries :: "item list \<Rightarrow> (int \<times> addr) list" where
  "entries xs = concat (map (\<lambda>x. case x of Page a es \<Rightarrow> es | Sep k \<Rightarrow> []) xs)"

text \<open>A key is right of the separator with the same number: the numbers \<open>ranks\<close> are in order.\<close>

definition ranks :: "item list \<Rightarrow> int list" where
  "ranks xs = concat (map (\<lambda>x. case x of Page a es \<Rightarrow> map (\<lambda>e. 2 * fst e + 1) es | Sep k \<Rightarrow> [2 * k]) xs)"

lemma flat_parts [simp]:
  "leaves [] = []" "entries [] = []" "ranks [] = []"
  "leaves (Page a es # xs) = a # leaves xs" "entries (Page a es # xs) = es @ entries xs"
  "ranks (Page a es # xs) = map (\<lambda>e. 2 * fst e + 1) es @ ranks xs"
  "leaves (Sep k # xs) = leaves xs" "entries (Sep k # xs) = entries xs" "ranks (Sep k # xs) = 2 * k # ranks xs"
  "leaves (xs @ ys) = leaves xs @ leaves ys" "entries (xs @ ys) = entries xs @ entries ys" "ranks (xs @ ys) = ranks xs @ ranks ys"
  by (simp_all add: leaves_def entries_def ranks_def)

lemma entries_ranks: "k \<in> fst ` set (entries xs) \<Longrightarrow> 2 * k + 1 \<in> set (ranks xs)"
proof (induction xs)
  case (Cons x xs)
  then show ?case by (cases x) auto
qed simp

lemma sorted_entries: "sorted_wrt (<) (ranks xs) \<Longrightarrow> sorted_wrt (<) (map fst (entries xs))"
proof (induction xs)
  case (Cons x xs)
  show ?case
  proof (cases x)
    case (Page a es)
    have "\<forall>e \<in> set es. \<forall>k \<in> set (map fst (entries xs)). fst e < k"
      using Cons.prems entries_ranks [of _ xs] by (fastforce simp: Page sorted_wrt_append)
    moreover have "sorted_wrt (\<lambda>e f. fst e < fst f) es"
      using Cons.prems by (auto simp: Page sorted_wrt_append sorted_wrt_map elim!: sorted_wrt_mono_rel [rotated])
    ultimately show ?thesis using Cons by (auto simp: Page sorted_wrt_append sorted_wrt_map)
  qed (use Cons in simp)
qed simp

text \<open>Every page of the list is a leaf of the store.\<close>

definition backed :: "store \<Rightarrow> item list \<Rightarrow> bool" where
  "backed s xs \<longleftrightarrow> (\<forall>a es. Page a es \<in> set xs \<longrightarrow> a \<noteq> 0 \<and> length es \<le> order s - 1 \<and>
     (\<exists>n. nodes s a = Some n \<and> is_leaf n \<and> node_lists n (map fst es) (map snd es)))"

lemma set_weave: "set (weave ks xss) \<subseteq> Sep ` set ks \<union> (\<Union>xs \<in> set xss. set xs)"
  by (induction ks xss rule: weave.induct) auto

lemma backed_flat: "represents s p t \<Longrightarrow> shape (order s) low h t \<Longrightarrow> backed s (flat t)"
proof (induction t arbitrary: p low h)
  case (Lf a es)
  then show ?case by (auto simp: backed_def split: option.splits)
next
  case (Nd a ks ts)
  have "backed s (flat t)" if "t \<in> set ts" for t
    by (rule Nd.IH [OF that, of a True "h - 1"]) (use Nd.prems that in auto)
  then show ?case using set_weave [of ks "map flat ts"] by (fastforce simp: backed_def)
qed

definition ordered :: "btree \<Rightarrow> bool" where
  "ordered t \<longleftrightarrow> sorted_wrt (<) (ranks (flat t))"

section \<open>A place in the tree\<close>

text \<open>
  A node around a hole: its address, the keys and children left of the hole and those right of it.
  A place is the list of the nodes around it, the innermost first.
\<close>

datatype frame = Fr addr "int list" "btree list" "int list" "btree list"

fun node_of :: "frame \<Rightarrow> addr" where
  "node_of (Fr a kl ls kr rs) = a"

fun fill :: "frame \<Rightarrow> btree \<Rightarrow> btree" where
  "fill (Fr a kl ls kr rs) t = Nd a (kl @ kr) (ls @ t # rs)"

fun plug :: "frame list \<Rightarrow> btree \<Rightarrow> btree" where
  "plug [] t = t"
| "plug (f # c) t = plug c (fill f t)"

fun top :: "frame list \<Rightarrow> addr" where
  "top [] = 0"
| "top (f # c) = node_of f"

fun before_hole :: "frame list \<Rightarrow> item list" where
  "before_hole [] = []"
| "before_hole (Fr a kl ls kr rs # c) = before_hole c @ concat (map2 (\<lambda>t k. flat t @ [Sep k]) ls kl)"

fun after_hole :: "frame list \<Rightarrow> item list" where
  "after_hole [] = []"
| "after_hole (Fr a kl ls kr rs # c) = concat (map2 (\<lambda>k t. Sep k # flat t) kr rs) @ after_hole c"

fun around :: "frame list \<Rightarrow> addr list" where
  "around [] = []"
| "around (Fr a kl ls kr rs # c) = a # concat (map addrs ls) @ concat (map addrs rs) @ around c"

fun frames_shape :: "nat \<Rightarrow> nat \<Rightarrow> frame list \<Rightarrow> bool" where
  "frames_shape ord h [] \<longleftrightarrow> True"
| "frames_shape ord h (Fr a kl ls kr rs # c) \<longleftrightarrow> length ls = length kl \<and> length rs = length kr \<and>
     (if c \<noteq> [] then cut ord - 1 else 1) \<le> length kl + length kr \<and> length kl + length kr \<le> ord - 1 \<and>
     (\<forall>t \<in> set ls \<union> set rs. shape ord True h t) \<and> frames_shape ord (Suc h) c"

fun frames_in :: "store \<Rightarrow> addr \<Rightarrow> frame list \<Rightarrow> bool" where
  "frames_in s hole [] \<longleftrightarrow> True"
| "frames_in s hole (Fr a kl ls kr rs # c) \<longleftrightarrow> a \<noteq> 0 \<and>
     (case nodes s a of None \<Rightarrow> False | Some n \<Rightarrow> node_lists n (kl @ kr) (map root_of ls @ hole # map root_of rs) \<and> parent n = top c \<and> \<not> is_leaf n) \<and>
     (\<forall>t \<in> set ls \<union> set rs. represents s a t) \<and> frames_in s a c"

lemma plug_append: "plug (c @ d) t = plug d (plug c t)"
  by (induction c arbitrary: t) simp_all

lemma before_hole_append [simp]: "before_hole (c @ d) = before_hole d @ before_hole c"
  by (induction c rule: before_hole.induct) simp_all

lemma after_hole_append [simp]: "after_hole (c @ d) = after_hole c @ after_hole d"
  by (induction c rule: after_hole.induct) simp_all

lemma weave_hole:
  assumes "length ls = length kl" and "length rs = length kr"
  shows "weave (kl @ kr) (map flat ls @ x # map flat rs) =
    concat (map2 (\<lambda>t k. flat t @ [Sep k]) ls kl) @ x @ concat (map2 (\<lambda>k t. Sep k # flat t) kr rs)"
proof -
  have r: "weave kr (y # map flat rs) = y @ concat (map2 (\<lambda>k t. Sep k # flat t) kr rs)" for y
    using assms(2) by (induction rs kr arbitrary: y rule: list_induct2) simp_all
  show ?thesis using assms(1) by (induction ls kl rule: list_induct2) (simp_all add: r)
qed

lemma flat_plug:
  "frames_shape ord h c \<Longrightarrow> flat (plug c t) = before_hole c @ flat t @ after_hole c"
proof (induction c arbitrary: h t)
  case (Cons f c)
  then show ?case using Cons.IH [of "Suc h"] by (cases f) (simp add: weave_hole)
qed simp

lemma plug_addrs: "set (addrs (plug c t)) = set (around c) \<union> set (addrs t)"
proof (induction c arbitrary: t)
  case (Cons f c)
  show ?case by (cases f) (auto simp: Cons)
qed simp

lemma plug_distinct: "distinct (addrs (plug c t)) \<longleftrightarrow> distinct (around c) \<and> distinct (addrs t) \<and> set (around c) \<inter> set (addrs t) = {}"
proof (induction c arbitrary: t)
  case (Cons f c)
  show ?case by (cases f) (auto simp: Cons)
qed simp

lemma root_of_fill [simp]: "root_of (fill f t) = node_of f"
  by (cases f) simp


lemma represents_plug:
  assumes "frames_shape ord h c"
  shows "represents s 0 (plug c t) \<longleftrightarrow> frames_in s (root_of t) c \<and> represents s (top c) t"
  using assms
proof (induction c arbitrary: h t)
  case (Cons f c)
  then show ?case by (cases f) (auto split: option.splits)
qed simp

lemma represents_cong:
  "\<forall>a \<in> set (addrs t). nodes s' a = nodes s a \<Longrightarrow> represents s' p t = represents s p t"
proof (induction t arbitrary: p)
  case (Nd a ks ts)
  then show ?case by auto
qed simp

lemma frames_in_cong:
  "\<forall>a \<in> set (around c). nodes s' a = nodes s a \<Longrightarrow> frames_in s' h c = frames_in s h c"
proof (induction c arbitrary: h)
  case (Cons f c)
  obtain a kl ls kr rs where f: "f = Fr a kl ls kr rs" by (cases f)
  have "represents s' a t = represents s a t" if "t \<in> set ls \<union> set rs" for t
    using Cons.prems that by (intro represents_cong) (auto simp: f)
  then show ?case using Cons by (simp add: f)
qed simp

lemma root_in_addrs [simp]: "root_of t \<in> set (addrs t)"
  by (cases t) simp_all

lemma represents_nonzero: "represents s p t \<Longrightarrow> root_of t \<noteq> 0"
  by (cases t) simp_all

lemma represents_node: "represents s p t \<Longrightarrow> \<exists>n. nodes s (root_of t) = Some n \<and> parent n = p"
  by (cases t) (auto split: option.splits)

lemma represents_valid: "represents s p t \<Longrightarrow> a \<in> set (addrs t) \<Longrightarrow> nodes s a \<noteq> None \<and> a \<noteq> 0"
proof (induction t arbitrary: p)
  case (Nd b ks ts)
  then show ?case by (auto split: option.splits)
qed (auto split: option.splits)

section \<open>Searching\<close>

lemma left_end:
  "length ls = length kl \<Longrightarrow> kl \<noteq> [] \<Longrightarrow> \<exists>X. concat (map2 (\<lambda>t k. flat t @ [Sep k]) ls kl) = X @ [Sep (last kl)]"
proof (induction ls kl rule: list_induct2)
  case (Cons t ls k kl)
  show ?case
  proof (cases kl)
    case Nil
    then show ?thesis using Cons.hyps by simp
  next
    case (Cons k1 kl1)
    then obtain X where "concat (map2 (\<lambda>t k. flat t @ [Sep k]) ls kl) = X @ [Sep (last kl)]" using Cons.IH by auto
    then show ?thesis using Cons by simp
  qed
qed simp

lemma right_start:
  "length rs = length kr \<Longrightarrow> kr \<noteq> [] \<Longrightarrow> \<exists>X. concat (map2 (\<lambda>k t. Sep k # flat t) kr rs) = Sep (hd kr) # X"
  by (cases kr; cases rs) auto

lemma below_left:
  assumes "length ls = length kl" and "\<forall>k \<in> set kl. k \<le> key" and "\<forall>x \<in> set (ranks xs). x < 2 * key + 1"
    and "sorted_wrt (<) (ranks (xs @ concat (map2 (\<lambda>t k. flat t @ [Sep k]) ls kl) @ ys))"
  shows "\<forall>x \<in> set (ranks (xs @ concat (map2 (\<lambda>t k. flat t @ [Sep k]) ls kl))). x < 2 * key + 1"
proof (cases "kl = []")
  case True
  then show ?thesis using assms(3) by simp
next
  case False
  obtain X where X: "concat (map2 (\<lambda>t k. flat t @ [Sep k]) ls kl) = X @ [Sep (last kl)]"
    using left_end [OF assms(1) False] by (rule exE)
  have "last kl \<le> key" using assms(2) False by simp
  moreover have "\<forall>x \<in> set (ranks (xs @ X)). x < 2 * last kl"
    using assms(4) unfolding X by (auto simp: sorted_wrt_append)
  ultimately show ?thesis unfolding X by fastforce
qed

lemma above_right:
  assumes "length rs = length kr" and "kr \<noteq> [] \<Longrightarrow> key < hd kr" and "\<forall>x \<in> set (ranks ys). 2 * key + 1 < x"
    and "sorted_wrt (<) (ranks (xs @ concat (map2 (\<lambda>k t. Sep k # flat t) kr rs) @ ys))"
  shows "\<forall>x \<in> set (ranks (concat (map2 (\<lambda>k t. Sep k # flat t) kr rs) @ ys)). 2 * key + 1 < x"
proof (cases "kr = []")
  case True
  then show ?thesis using assms(3) by simp
next
  case False
  obtain X where X: "concat (map2 (\<lambda>k t. Sep k # flat t) kr rs) = Sep (hd kr) # X"
    using right_start [OF assms(1) False] by (rule exE)
  have "\<forall>x \<in> set (ranks (X @ ys)). 2 * hd kr < x"
    using assms(4) unfolding X by (simp add: sorted_wrt_append)
  then show ?thesis unfolding X using assms(2) [OF False] by fastforce
qed

lemma find_place:
  assumes "represents s p t" and "shape (order s) (d \<noteq> []) h t" and "3 \<le> order s" and "frames_shape (order s) h d" and "ordered (plug d t)"
    and "\<forall>x \<in> set (ranks (before_hole d)). x < 2 * key + 1" and "\<forall>x \<in> set (ranks (after_hole d)). 2 * key + 1 < x"
  shows "\<exists>c a es. plug d t = plug c (Lf a es) \<and> find_leaf_loop (root_of t) key False s = Some (Inr (a, s)) \<and>
    frames_shape (order s) 0 c \<and> shape (order s) (c \<noteq> []) 0 (Lf a es) \<and>
    (\<forall>x \<in> set (ranks (before_hole c)). x < 2 * key + 1) \<and> (\<forall>x \<in> set (ranks (after_hole c)). 2 * key + 1 < x)"
  using assms
proof (induction t arbitrary: p d h)
  case (Lf a es)
  then have "find_leaf_loop (root_of (Lf a es)) key False s = Some (Inr (a, s))"
    by (auto simp: find_leaf_loop.simps [of a] node_at_def print_keys_if_def split: option.splits)
  then show ?case using Lf.prems by (intro exI [of _ d] exI [of _ a] exI [of _ es]) auto
next
  case (Nd a ks ts)
  obtain n where n: "nodes s a = Some n" "node_lists n ks (map root_of ts)" "\<not> is_leaf n" and ch: "\<forall>t \<in> set ts. represents s a t"
    using Nd.prems(1) by (auto split: option.splits)
  have sz: "h \<noteq> 0" "(if d \<noteq> [] then cut (order s) - 1 else 1) \<le> length ks" "length ks \<le> order s - 1" "length ts = Suc (length ks)"
    "\<forall>t \<in> set ts. shape (order s) True (h - 1) t" using Nd.prems(2) by (simp_all split: if_splits)
  define i where "i = length (takeWhile (\<lambda>k. k \<le> key) ks)"
  have i: "i \<le> length ks" unfolding i_def by (rule length_takeWhile_le)
  have ord: "length ts \<le> order s" using sz(3,4) Nd.prems(3) by simp
  let ?d = "Fr a (take i ks) (take i ts) (drop i ks) (drop (Suc i) ts) # d"
  have split: "ts = take i ts @ ts ! i # drop (Suc i) ts" using i sz(4) by (simp add: id_take_nth_drop)
  have pl: "plug ?d (ts ! i) = plug d (Nd a ks ts)" using split by simp
  have mem: "ts ! i \<in> set ts" using i sz(4) by simp
  have fs: "frames_shape (order s) (h - 1) ?d" using Nd.prems(4) sz i by (auto dest: in_set_takeD in_set_dropD)
  have step: "find_leaf_loop (root_of (Nd a ks ts)) key False s = find_leaf_loop (root_of (ts ! i)) key False s"
    using n child_index_list [OF n(2) sz(3), of key] ptr_at_list [of n "map root_of ts" i "order s"] ord i sz(4)
    by (simp add: find_leaf_loop.simps [of a] node_at_def descend_def print_keys_if_def node_lists_def i_def [symmetric])
  have ordered: "sorted_wrt (<) (ranks (before_hole ?d @ flat (ts ! i) @ after_hole ?d))"
    unfolding flat_plug [OF fs, symmetric] pl using Nd.prems(5) by (simp add: ordered_def)
  have "take i ks = takeWhile (\<lambda>k. k \<le> key) ks" unfolding i_def by (rule takeWhile_eq_take [symmetric])
  then have left: "\<forall>k \<in> set (take i ks). k \<le> key" by (auto dest: set_takeWhileD)
  have right: "drop i ks \<noteq> [] \<Longrightarrow> key < hd (drop i ks)"
    using nth_length_takeWhile [of "\<lambda>k. k \<le> key" ks] by (simp add: hd_drop_conv_nth i_def not_le)
  have lens: "length (take i ts) = length (take i ks)" "length (drop (Suc i) ts) = length (drop i ks)" using i sz(4) by simp_all
  have before: "\<forall>x \<in> set (ranks (before_hole ?d)). x < 2 * key + 1"
    unfolding before_hole.simps
    by (rule below_left [OF lens(1) left Nd.prems(6), of "flat (ts ! i) @ after_hole ?d"]) (use ordered in simp)
  have after: "\<forall>x \<in> set (ranks (after_hole ?d)). 2 * key + 1 < x"
    unfolding after_hole.simps
    by (rule above_right [OF lens(2) right Nd.prems(7), of "before_hole ?d @ flat (ts ! i)"]) (use ordered in simp_all)
  have rp: "represents s a (ts ! i)" using ch mem by blast
  have sh: "shape (order s) (?d \<noteq> []) (h - 1) (ts ! i)" using sz(5) mem by simp
  have od: "ordered (plug ?d (ts ! i))" using Nd.prems(5) pl by simp
  show ?case unfolding step pl [symmetric] by (rule Nd.IH [OF mem rp sh Nd.prems(3) fs od before after])
qed

text \<open>A tree and the leaf a key belongs to.\<close>

definition tree_at :: "store \<Rightarrow> addr \<Rightarrow> btree \<Rightarrow> bool" where
  "tree_at s root t \<longleftrightarrow> root = root_of t \<and> 3 \<le> order s \<and> represents s 0 t \<and> (\<exists>h. shape (order s) False h t) \<and> ordered t"

lemma find_leaf_place:
  assumes "tree_at s root t"
  shows "\<exists>c a es. t = plug c (Lf a es) \<and> find_leaf root key False s = Inr (a, s) \<and>
    frames_shape (order s) 0 c \<and> shape (order s) (c \<noteq> []) 0 (Lf a es) \<and>
    (\<forall>x \<in> set (ranks (before_hole c)). x < 2 * key + 1) \<and> (\<forall>x \<in> set (ranks (after_hole c)). 2 * key + 1 < x)"
proof -
  obtain h where t: "root = root_of t" "represents s 0 t" "shape (order s) ([] \<noteq> ([] :: frame list)) h t" "3 \<le> order s" "ordered (plug [] t)"
    using assms by (auto simp: tree_at_def)
  obtain c a es where "plug [] t = plug c (Lf a es)" "find_leaf_loop root key False s = Some (Inr (a, s))"
    "frames_shape (order s) 0 c" "shape (order s) (c \<noteq> []) 0 (Lf a es)"
    "\<forall>x \<in> set (ranks (before_hole c)). x < 2 * key + 1" "\<forall>x \<in> set (ranks (after_hole c)). 2 * key + 1 < x"
    using find_place [OF t(2-4) _ t(5), of key] t(1) by auto
  moreover have "root \<noteq> 0" using represents_nonzero [OF t(2)] t(1) by simp
  ultimately show ?thesis by (intro exI [of _ c] exI [of _ a] exI [of _ es]) (simp add: find_leaf_def joined_def returns_def)
qed

lemma entries_place:
  assumes "\<forall>x \<in> set (ranks xs). x < 2 * key + 1" and "\<forall>x \<in> set (ranks zs). 2 * key + 1 < x"
  shows "map_of (entries xs @ es @ entries zs) key = map_of es key"
proof -
  have "key \<notin> fst ` set (entries xs)" "key \<notin> fst ` set (entries zs)"
    using entries_ranks [of key xs] entries_ranks [of key zs] assms by blast+
  then have "map_of (entries xs) key = None" "map_of (entries zs) key = None" by (simp_all add: map_of_eq_None_iff)
  then show ?thesis by (simp add: map_add_def split: option.splits)
qed

lemma takeWhile_map_of:
  "map_of es key = (if length (takeWhile (\<lambda>k. k \<noteq> key) (map fst es)) = length es then None
     else Some (snd (es ! length (takeWhile (\<lambda>k. k \<noteq> key) (map fst es)))))"
  by (induction es) auto

lemma find_key_place:
  assumes "tree_at s root t"
  shows "\<exists>c a es. t = plug c (Lf a es) \<and> frames_shape (order s) 0 c \<and> shape (order s) (c \<noteq> []) 0 (Lf a es) \<and>
    (\<forall>x \<in> set (ranks (before_hole c)). x < 2 * key + 1) \<and> (\<forall>x \<in> set (ranks (after_hole c)). 2 * key + 1 < x) \<and>
    find_key root key False s = Inr ((case map_of (entries (flat t)) key of None \<Rightarrow> 0 | Some r \<Rightarrow> r, a), s)"
proof -
  obtain c a es where c: "t = plug c (Lf a es)" "find_leaf root key False s = Inr (a, s)" "frames_shape (order s) 0 c"
    "shape (order s) (c \<noteq> []) 0 (Lf a es)" and
    b: "\<forall>x \<in> set (ranks (before_hole c)). x < 2 * key + 1" "\<forall>x \<in> set (ranks (after_hole c)). 2 * key + 1 < x"
    using find_leaf_place [OF assms] by blast
  have rep: "represents s 0 (plug c (Lf a es))" and root: "root \<noteq> 0"
    using assms c(1) represents_nonzero by (auto simp: tree_at_def)
  then obtain n where n: "nodes s a = Some n" "node_lists n (map fst es) (map snd es)"
    using represents_plug [OF c(3)] by (auto split: option.splits)
  have sz: "length es \<le> order s - 1" "length es \<le> order s" using c(4) by auto
  have m: "map_of (entries (flat t)) key = map_of es key"
    using entries_place [OF b] flat_plug [OF c(3)] c(1) by simp
  define i where "i = length (takeWhile (\<lambda>k. k \<noteq> key) (map fst es))"
  have i: "i \<le> length es" using length_takeWhile_le [of "\<lambda>k. k \<noteq> key" "map fst es"] by (simp add: i_def)
  have pos: "key_pos (order s) n key = Inr i" using key_pos_list [OF n(2), of "order s" key] sz by (simp add: i_def)
  have "i < length es \<Longrightarrow> ptr_at (order s) n i = Inr (snd (es ! i))"
    using ptr_at_list [of n "map snd es" i "order s"] n(2) sz by (simp add: node_lists_def)
  moreover have "num_keys n = length es" using n(2) by (simp add: node_lists_def)
  ultimately have "find_key root key False s = Inr ((case map_of es key of None \<Rightarrow> 0 | Some r \<Rightarrow> r, a), s)"
    using root c(2) n(1) pos i takeWhile_map_of [of es key]
    by (auto simp: find_key_def node_at_def i_def [symmetric])
  then show ?thesis unfolding m using c b by blast
qed

section \<open>Ranges\<close>

text \<open>The last pointer of a leaf is the next leaf.\<close>

definition next_leaf :: "store \<Rightarrow> addr \<Rightarrow> addr option" where
  "next_leaf s a = (case nodes s a of None \<Rightarrow> None | Some n \<Rightarrow> pointers n (order s - 1))"

fun chained :: "store \<Rightarrow> addr list \<Rightarrow> addr \<Rightarrow> bool" where
  "chained s [] z \<longleftrightarrow> True"
| "chained s (a # as) z \<longleftrightarrow> next_leaf s a = Some (hd (as @ [z])) \<and> chained s as z"

lemma chained_append: "chained s (as @ bs) z \<longleftrightarrow> chained s as (hd (bs @ [z])) \<and> chained s bs z"
  by (induction as) (auto simp: hd_append)

lemma range_leaf_list:
  assumes "node_lists n (map fst es) (map snd es)" and "length es \<le> ord - 1" and "i \<le> length es"
    and "length found + length (takeWhile (\<lambda>e. fst e \<le> key_end) (drop i es)) \<le> sz"
  shows "range_leaf sz ord n key_end i found = Inr (found @ takeWhile (\<lambda>e. fst e \<le> key_end) (drop i es))"
  using assms(3,4)
proof (induction "length es - i" arbitrary: i found)
  case 0
  then show ?case using assms(1) by (simp add: range_leaf.simps [of _ _ _ _ i] node_lists_def)
next
  case (Suc d)
  then have i: "i < length es" by simp
  then have d: "drop i es = es ! i # drop (Suc i) es" by (simp add: Cons_nth_drop_Suc)
  have r: "key_at ord n i = Inr (fst (es ! i))" "ptr_at ord n i = Inr (snd (es ! i))" "num_keys n = length es"
    using key_at_list [of n "map fst es" i ord] ptr_at_list [of n "map snd es" i ord] i assms(1,2) by (simp_all add: node_lists_def)
  show ?case
  proof (cases "fst (es ! i) \<le> key_end")
    case True
    have "range_leaf sz ord n key_end (Suc i) (found @ [es ! i]) =
        Inr ((found @ [es ! i]) @ takeWhile (\<lambda>e. fst e \<le> key_end) (drop (Suc i) es))"
      by (rule Suc.hyps(1)) (use Suc.hyps(2) Suc.prems(2) i d True in simp_all)
    then show ?thesis using i r d True Suc.prems(2) by (simp add: range_leaf.simps [of _ _ _ _ i])
  next
    case False
    then show ?thesis using i r d by (simp add: range_leaf.simps [of _ _ _ _ i])
  qed
qed

lemma takeWhile_filter: "sorted_wrt (<) (map fst es) \<Longrightarrow> takeWhile (\<lambda>e. fst e \<le> (b :: int)) es = filter (\<lambda>e. fst e \<le> b) es"
  by (induction es) (auto simp: filter_empty_conv eq_commute [of "[]"])

lemma range_loop_page:
  assumes "node_lists n (map fst es) (map snd es)" and "length es \<le> order s - 1" and "i \<le> length es"
    and "length found + length (takeWhile (\<lambda>e. fst e \<le> key_end) (drop i es)) \<le> sz"
    and "nodes s a = Some n" and "a \<noteq> 0" and "next_leaf s a = Some b" and "3 \<le> order s"
  shows "range_loop sz a key_end i found s = range_loop sz b key_end 0 (found @ takeWhile (\<lambda>e. fst e \<le> key_end) (drop i es)) s"
  using assms(5-8) range_leaf_list [OF assms(1-4)]
  by (simp add: range_loop.simps [of _ a] node_at_def ptr_at_def slot_get_def next_leaf_def)

lemma range_loop_walk:
  assumes "backed s xs" and "chained s (leaves xs) 0" and "sorted_wrt (<) (map fst (entries xs))" and "3 \<le> order s"
    and "length found + length (filter (\<lambda>e. fst e \<le> key_end) (entries xs)) \<le> sz"
  shows "range_loop sz (hd (leaves xs @ [0])) key_end 0 found s = Some (Inr (found @ filter (\<lambda>e. fst e \<le> key_end) (entries xs)))"
  using assms
proof (induction xs arbitrary: found)
  case Nil
  then show ?case by (simp add: range_loop.simps)
next
  case (Cons x xs)
  show ?case
  proof (cases x)
    case (Page a es)
    obtain n where n: "nodes s a = Some n" "node_lists n (map fst es) (map snd es)" "a \<noteq> 0" "length es \<le> order s - 1"
      using Cons.prems(1) by (auto simp: backed_def Page)
    have es: "takeWhile (\<lambda>e. fst e \<le> key_end) es = filter (\<lambda>e. fst e \<le> key_end) es"
      using Cons.prems(3) by (intro takeWhile_filter) (simp add: Page sorted_wrt_append)
    have l: "next_leaf s a = Some (hd (leaves xs @ [0]))" using Cons.prems(2) by (simp add: Page)
    have "range_loop sz a key_end 0 found s =
        range_loop sz (hd (leaves xs @ [0])) key_end 0 (found @ takeWhile (\<lambda>e. fst e \<le> key_end) (drop 0 es)) s"
      by (rule range_loop_page [OF n(2,4) _ _ n(1,3) l Cons.prems(4)]) (use Cons.prems(5) es in \<open>simp_all add: Page\<close>)
    also have "\<dots> = Some (Inr ((found @ takeWhile (\<lambda>e. fst e \<le> key_end) (drop 0 es)) @ filter (\<lambda>e. fst e \<le> key_end) (entries xs)))"
      by (rule Cons.IH) (use Cons.prems es in \<open>simp_all add: Page backed_def sorted_wrt_append\<close>)
    finally show ?thesis using es by (simp add: Page)
  next
    case (Sep k)
    then show ?thesis using Cons by (simp add: backed_def)
  qed
qed

definition in_range :: "int \<Rightarrow> int \<Rightarrow> (int \<times> addr) list \<Rightarrow> (int \<times> addr) list" where
  "in_range a b es = filter (\<lambda>e. a \<le> fst e \<and> fst e \<le> b) es"

lemma length_in_range:
  assumes "sorted_wrt (<) (map fst es)"
  shows "length (in_range a b es) \<le> nat (b - a + 1)"
proof -
  let ?ks = "map fst (in_range a b es)"
  have "sorted_wrt (<) ?ks"
    using assms by (auto simp: in_range_def sorted_wrt_map intro: sorted_wrt_filter)
  then have "distinct ?ks" using strict_sorted_iff by blast
  then have "length (in_range a b es) = card (set ?ks)" using distinct_card by fastforce
  also have "\<dots> \<le> card {a..b}" by (intro card_mono) (auto simp: in_range_def)
  finally show ?thesis by simp
qed

lemma range_from_place:
  assumes "\<forall>x \<in> set (ranks xs). x < 2 * a + 1" and "\<forall>x \<in> set (ranks zs). 2 * a + 1 < x"
    and "sorted_wrt (<) (map fst (entries xs @ es @ entries zs))"
  shows "in_range a b (entries xs @ es @ entries zs) =
    takeWhile (\<lambda>e. fst e \<le> b) (drop (length (takeWhile (\<lambda>k. k < a) (map fst es))) es) @ filter (\<lambda>e. fst e \<le> b) (entries zs)"
proof -
  have x: "fst e < a" if "e \<in> set (entries xs)" for e
    using assms(1) entries_ranks [of "fst e" xs] that by fastforce
  have z: "a < fst e" if "e \<in> set (entries zs)" for e
    using assms(2) entries_ranks [of "fst e" zs] that by fastforce
  have es: "sorted_wrt (<) (map fst es)" using assms(3) by (simp add: sorted_wrt_append)
  then have m: "filter (\<lambda>e. a \<le> fst e \<and> fst e \<le> b) es =
      takeWhile (\<lambda>e. fst e \<le> b) (drop (length (takeWhile (\<lambda>k. k < a) (map fst es))) es)"
  proof (induction es)
    case (Cons e es)
    show ?case
    proof (cases "fst e < a")
      case False
      then have "filter (\<lambda>e. a \<le> fst e \<and> fst e \<le> b) (e # es) = filter (\<lambda>e. fst e \<le> b) (e # es)"
        using Cons.prems by (intro filter_cong) auto
      then show ?thesis using False takeWhile_filter [OF Cons.prems] by simp
    qed (use Cons in simp)
  qed simp
  have "in_range a b (entries xs) = []" using x by (fastforce simp: in_range_def filter_empty_conv)
  moreover have "in_range a b (entries zs) = filter (\<lambda>e. fst e \<le> b) (entries zs)"
    using z by (auto simp: in_range_def intro!: filter_cong dest: less_imp_le)
  ultimately show ?thesis using m by (simp add: in_range_def)
qed

lemma find_range_place:
  assumes "tree_at s root t" and "chained s (leaves (flat t)) 0" and "nat (b - a + 1) \<le> sz"
  shows "find_range sz root a b False s = Inr (in_range a b (entries (flat t)), s) \<or>
    find_range sz root a b False s = Inr ([], s) \<and> a \<notin> fst ` set (entries (flat t))"
proof -
  obtain c l es where c: "t = plug c (Lf l es)" "find_leaf root a False s = Inr (l, s)" "frames_shape (order s) 0 c"
    "shape (order s) (c \<noteq> []) 0 (Lf l es)" and
    o: "\<forall>x \<in> set (ranks (before_hole c)). x < 2 * a + 1" "\<forall>x \<in> set (ranks (after_hole c)). 2 * a + 1 < x"
    using find_leaf_place [OF assms(1)] by blast
  obtain h where t: "represents s 0 t" "shape (order s) False h t" "3 \<le> order s" "ordered t" using assms(1) by (auto simp: tree_at_def)
  obtain n where n: "nodes s l = Some n" "node_lists n (map fst es) (map snd es)" "l \<noteq> 0"
    using t(1) represents_plug [OF c(3)] c(1) by (auto split: option.splits)
  have flat: "flat t = before_hole c @ Page l es # after_hole c" using flat_plug [OF c(3)] c(1) by simp
  have srt: "sorted_wrt (<) (map fst (entries (before_hole c) @ es @ entries (after_hole c)))"
    using t(4) sorted_entries [of "flat t"] flat by (simp add: ordered_def)
  have ents: "entries (flat t) = entries (before_hole c) @ es @ entries (after_hole c)" using flat by simp
  define i where "i = length (takeWhile (\<lambda>k. k < a) (map fst es))"
  have i: "i \<le> length es" using length_takeWhile_le [of "\<lambda>k. k < a" "map fst es"] by (simp add: i_def)
  have sz: "length es \<le> order s - 1" using c(4) by simp
  have start: "range_start (order s) n a = Inr i"
    using scan_while_list [of "map fst es" "key_at (order s) n" 0 "\<lambda>k. k < a"] key_at_list [of n "map fst es"] n(2) sz
    by (simp add: range_start_def node_lists_def i_def)
  have rng: "in_range a b (entries (flat t)) = takeWhile (\<lambda>e. fst e \<le> b) (drop i es) @ filter (\<lambda>e. fst e \<le> b) (entries (after_hole c))"
    unfolding ents i_def by (rule range_from_place [OF o srt])
  have len: "length (in_range a b (entries (flat t))) \<le> sz"
    using length_in_range [of "entries (flat t)" a b] srt ents assms(3) by simp
  have nk: "num_keys n = length es" using n(2) by (simp add: node_lists_def)
  show ?thesis
  proof (cases "i = length es")
    case True
    have "\<forall>k \<in> set (map fst es). k < a"
      using True i_def by (metis length_map takeWhile_eq_take take_all_iff order_refl takeWhile_eq_all_conv)
    then have "a \<notin> fst ` set es" by auto
    moreover have "a \<notin> fst ` set (entries (before_hole c))" using entries_ranks [of a "before_hole c"] o(1) by blast
    moreover have "a \<notin> fst ` set (entries (after_hole c))" using entries_ranks [of a "after_hole c"] o(2) by blast
    moreover have "find_range sz root a b False s = Inr ([], s)"
      using c(2) n start nk True by (simp add: find_range_def node_at_def)
    ultimately show ?thesis using ents by auto
  next
    case False
    have bk: "backed s (flat t)" by (rule backed_flat [OF t(1,2)])
    have ch: "next_leaf s l = Some (hd (leaves (after_hole c) @ [0]))" "chained s (leaves (after_hole c)) 0"
      using assms(2) flat by (simp_all add: chained_append)
    have "range_loop sz l b i [] s = range_loop sz (hd (leaves (after_hole c) @ [0])) b 0 ([] @ takeWhile (\<lambda>e. fst e \<le> b) (drop i es)) s"
      by (rule range_loop_page [OF n(2) sz i _ n(1,3) ch(1) t(3)]) (use len rng in simp)
    also have "\<dots> = Some (Inr (([] @ takeWhile (\<lambda>e. fst e \<le> b) (drop i es)) @ filter (\<lambda>e. fst e \<le> b) (entries (after_hole c))))"
      by (rule range_loop_walk [OF _ ch(2) _ t(3)]) (use bk flat srt len rng in \<open>simp_all add: backed_def sorted_wrt_append\<close>)
    finally have "joined (range_loop sz l b i [] s) = Inr (in_range a b (entries (flat t)))"
      by (simp add: joined_def returns_def rng)
    then show ?thesis using c(2) n start nk False by (simp add: find_range_def node_at_def)
  qed
qed

section \<open>The height of the tree\<close>

lemma height_loop_shape:
  "represents s p t \<Longrightarrow> shape (order s) low h t \<Longrightarrow> 3 \<le> order s \<Longrightarrow> height_loop (root_of t) k s = Some (Inr (k + h))"
proof (induction t arbitrary: p low h k)
  case (Lf a es)
  then show ?case by (auto simp: height_loop.simps [of a] node_at_def split: option.splits)
next
  case (Nd a ks ts)
  obtain n where n: "nodes s a = Some n" "node_lists n ks (map root_of ts)" "\<not> is_leaf n"
    using Nd.prems(1) by (auto split: option.splits)
  have sz: "length ts = Suc (length ks)" "length ks \<le> order s - 1" "h \<noteq> 0" using Nd.prems(2) by simp_all
  have mem: "ts ! 0 \<in> set ts" using sz(1) by (intro nth_mem) simp
  have "height_loop (root_of (ts ! 0)) (k + 1) s = Some (Inr (k + 1 + (h - 1)))"
    by (rule Nd.IH [OF mem, of a True]) (use Nd.prems mem in auto)
  moreover have "ptr_at (order s) n 0 = Inr (root_of (ts ! 0))"
    using ptr_at_list [of n "map root_of ts" 0 "order s"] n(2) sz Nd.prems(3) by (simp add: node_lists_def)
  ultimately show ?case using n sz(3) by (simp add: height_loop.simps [of a] node_at_def)
qed

lemma entries_weave: "length xss = Suc (length ks) \<Longrightarrow> length (entries (weave ks xss)) = sum_list (map (length \<circ> entries) xss)"
  by (induction ks xss rule: weave.induct) auto

lemma sum_list_least: "\<forall>x \<in> set xs. b \<le> f x \<Longrightarrow> length xs * b \<le> sum_list (map f xs)" for f :: "'a \<Rightarrow> nat"
  by (induction xs) auto

lemma cut_least: "3 \<le> x \<Longrightarrow> 2 \<le> cut x" "2 \<le> x \<Longrightarrow> 1 \<le> cut x"
  unfolding cut_def by (cases "x mod 2 = 0"; simp; presburger)+

lemma full_subtree: "shape ord True h t \<Longrightarrow> 3 \<le> ord \<Longrightarrow> cut ord ^ h \<le> length (entries (flat t))"
proof (induction t arbitrary: h)
  case (Lf a es)
  then have "2 \<le> ord - 1" by simp
  from cut_least(2) [OF this] show ?case using Lf by simp
next
  case (Nd a ks ts)
  have "\<forall>t \<in> set ts. cut ord ^ (h - 1) \<le> (length \<circ> entries \<circ> flat) t"
    using Nd by simp
  then have "length ts * cut ord ^ (h - 1) \<le> sum_list (map (length \<circ> entries \<circ> flat) ts)" by (rule sum_list_least)
  moreover have "cut ord \<le> length ts" using Nd.prems by auto
  moreover have "cut ord ^ h = cut ord * cut ord ^ (h - 1)" using Nd.prems(1) by (cases h) simp_all
  ultimately have "cut ord ^ h \<le> sum_list (map (length \<circ> entries \<circ> flat) ts)" using le_trans mult_le_mono1 by metis
  then show ?case using Nd.prems(1) entries_weave [of "map flat ts" ks] by (simp add: comp_assoc)
qed

lemma root_subtree: "shape ord False h t \<Longrightarrow> 3 \<le> ord \<Longrightarrow> (if h = 0 then 1 else 2 * cut ord ^ (h - 1)) \<le> length (entries (flat t))"
proof (cases t)
  case (Nd a ks ts)
  assume a: "shape ord False h t" "3 \<le> ord"
  have "\<forall>t \<in> set ts. cut ord ^ (h - 1) \<le> (length \<circ> entries \<circ> flat) t"
    using a full_subtree [of ord "h - 1"] by (simp add: Nd)
  then have "length ts * cut ord ^ (h - 1) \<le> sum_list (map (length \<circ> entries \<circ> flat) ts)" by (rule sum_list_least)
  moreover have "2 \<le> length ts" using a by (simp add: Nd)
  ultimately have "2 * cut ord ^ (h - 1) \<le> sum_list (map (length \<circ> entries \<circ> flat) ts)" using le_trans mult_le_mono1 by metis
  then show ?thesis using a entries_weave [of "map flat ts" ks] by (simp add: Nd comp_assoc)
qed simp

end
