(* ===== verification/Bplus_Insert.thy ===== *)
theory Bplus_Insert
  imports Bplus_Search
begin

text \<open>
  Insertion: the splits of a leaf and of an inner node, the way up to the root at a place in the tree,
  and the map the tree stands for. The flat list changes in one place only; the splits of inner nodes
  leave it as it is. The interface \<open>key_index\<close> is interpreted on the code.
\<close>

section \<open>Splitting a leaf\<close>

text \<open>No allocation fails, and the addresses in use have been handed out.\<close>

definition ready :: "store \<Rightarrow> bool" where
  "ready s \<longleftrightarrow> (\<forall>i. \<not> fails s i) \<and> (\<forall>a. nodes s a \<noteq> None \<longrightarrow> a \<le> calls s) \<and> (\<forall>a. recs s a \<noteq> None \<longrightarrow> a \<le> calls s)"

lemma readyD: "ready s \<Longrightarrow> \<not> fails s i"
  by (simp add: ready_def)

definition blank :: "bool \<Rightarrow> bnode" where
  "blank leaf = \<lparr>pointers = (\<lambda>_. None), keys = (\<lambda>_. None), parent = 0, is_leaf = leaf, num_keys = 0, next_node = 0\<rparr>"

lemma make_node_eq:
  "ready s \<Longrightarrow> make_node s = Inr (Suc (calls s), s\<lparr>nodes := (nodes s)(Suc (calls s) \<mapsto> blank False), calls := calls s + 3\<rparr>)"
  by (simp add: make_node_def malloc_call_def readyD put_node_def blank_def)

lemma make_leaf_eq:
  "ready s \<Longrightarrow> make_leaf s = Inr (Suc (calls s), s\<lparr>nodes := (nodes s)(Suc (calls s) \<mapsto> blank True), calls := calls s + 3\<rparr>)"
  by (simp add: make_leaf_def make_node_eq on_node_def node_at_def put_node_def blank_def)

lemma temp_arrays_eq: "\<forall>i. \<not> fails s i \<Longrightarrow> temp_arrays s = Inr (s\<lparr>calls := calls s + 2\<rparr>)"
  by (simp add: temp_arrays_def malloc_call_def)

lemma map_insert_at [simp]: "map f (insert_at i x xs) = insert_at i (f x) (map f xs)"
  by (simp add: insert_at_def take_map drop_map)

lemma cut_bounds: "2 \<le> x \<Longrightarrow> 1 \<le> cut x \<and> cut x < x \<and> cut x \<le> x + 1 - cut x"
  unfolding cut_def by (cases "x mod 2 = 0") (simp_all, presburger+)

lemma split_leaf_eq:
  fixes key :: int and r :: addr
  assumes "nodes s leaf = Some n" and "node_lists n (map fst es) (map snd es)" and "length es = order s - 1" and "3 \<le> order s"
    and "ready s" and "next_leaf s leaf = Some z"
  defines "es' \<equiv> insert_at (length (takeWhile (\<lambda>k. k < key) (map fst es))) (key, r) es" and "m \<equiv> cut (order s - 1)"
  shows "\<exists>n1 n2. split_leaf leaf key r s = Inr (fst (es' ! m), Suc (calls s),
      s\<lparr>nodes := (nodes s)(leaf \<mapsto> n1, Suc (calls s) \<mapsto> n2), calls := calls s + 5\<rparr>) \<and>
    node_lists n1 (map fst (take m es')) (map snd (take m es')) \<and> node_lists n2 (map fst (drop m es')) (map snd (drop m es')) \<and>
    parent n1 = parent n \<and> parent n2 = parent n \<and> is_leaf n1 = is_leaf n \<and> is_leaf n2 \<and>
    pointers n1 (order s - 1) = Some (Suc (calls s)) \<and> pointers n2 (order s - 1) = Some z"
proof -
  define ord where "ord = order s"
  define p where "p = length (takeWhile (\<lambda>k. k < key) (map fst es))"
  let ?new = "Suc (calls s)"
  let ?s2 = "s\<lparr>nodes := (nodes s)(?new \<mapsto> blank True), calls := calls s + 5\<rparr>"
  have len: "length es = ord - 1" "3 \<le> ord" using assms(3,4) by (simp_all add: ord_def)
  have p: "p \<le> length es" using length_takeWhile_le [of "\<lambda>k. k < key" "map fst es"] by (simp add: p_def)
  have es': "es' = insert_at p (key, r) es" "length es' = ord" using len by (simp_all add: es'_def p_def)
  have nl: "num_keys n = length es" "holds (keys n) (map fst es)" "holds (pointers n) (map snd es)"
    using assms(2) by (simp_all add: node_lists_def)
  have ne: "leaf \<noteq> ?new" using assms(1,5) by (force simp: ready_def)
  have lf: "nodes ?s2 leaf = Some n" using ne assms(1) by simp
  have new: "nodes ?s2 ?new = Some (blank True)" by simp
  have ip: "insertion_point ord (ord - 1) n key = Inr p"
    using insertion_point_list [OF assms(2), of ord key] len by (simp add: p_def)
  have kx: "key_at ord n x = Inr (map fst es ! x)" if "x < length (map fst es)" for x
    by (rule key_at_list [OF nl(2) that]) (use len in simp)
  have px: "ptr_at ord n x = Inr (map snd es ! x)" if "x < length (map snd es)" for x
    by (rule ptr_at_list [OF nl(3) that]) (use len in simp)
  obtain tk0 tk where tk: "copy_around ord (length es) p (key_at ord n) 0 0 (\<lambda>_. None) = Inr tk0" "slot_put ord p key tk0 = Inr tk"
    "holds tk (map fst es')"
    using copy_around_list [of "map fst es" "key_at ord n" p ord key, OF kx] p len es'(1) by auto
  obtain tp0 tp where tp: "copy_around ord (length es) p (ptr_at ord n) 0 0 (\<lambda>_. None) = Inr tp0" "slot_put ord p r tp0 = Inr tp"
    "holds tp (map snd es')"
    using copy_around_list [of "map snd es" "ptr_at ord n" p ord r, OF px] p len es'(1) by auto
  have m: "1 \<le> m" "m \<le> ord - 1" "m < ord" using cut_bounds [of "ord - 1"] len(2) unfolding m_def ord_def [symmetric] by linarith+
  have mc: "cut (ord - Suc 0) = m" by (simp add: m_def ord_def)
  obtain l1 where l1: "fill_node ord ord ord tk tp m 0 0 (n\<lparr>num_keys := 0\<rparr>) = Inr l1"
    "node_lists l1 (map fst (take m es')) (map snd (take m es'))" "parent l1 = parent n" "is_leaf l1 = is_leaf n"
    "pointers l1 (ord - 1) = pointers n (ord - 1)"
    using fill_node_list [OF tk(3) tp(3), of m ord ord 0 ord "n\<lparr>num_keys := 0\<rparr>"] m es'(2) by (auto simp: take_map)
  obtain n1 where n1: "fill_node ord ord ord tk tp ord m 0 (blank True) = Inr n1"
    "node_lists n1 (map fst (drop m es')) (map snd (drop m es'))" "is_leaf n1"
    using fill_node_list [OF tk(3) tp(3), of ord ord ord m ord "blank True"] m es'(2) diff_le_mono2 [OF m(1), of ord]
    by (auto simp: drop_map blank_def)
  have z: "ptr_at ord l1 (ord - 1) = Inr z"
    using assms(1,6) l1(5) len(2) by (simp add: ptr_at_def slot_get_def next_leaf_def ord_def)
  let ?l = "l1\<lparr>pointers := nulled (num_keys l1) (ord - 1) ((pointers l1)(ord - 1 \<mapsto> ?new))\<rparr>"
  let ?n = "n1\<lparr>pointers := nulled (num_keys n1) (ord - 1) ((pointers n1)(ord - 1 \<mapsto> z)), parent := parent n\<rparr>"
  have lists: "node_lists ?l (map fst (take m es')) (map snd (take m es'))" "node_lists ?n (map fst (drop m es')) (map snd (drop m es'))"
    using l1(2) n1(2) m es'(2) by (auto simp: node_lists_def holds_def nulled_def)
  have "key_at ord ?n 0 = Inr (fst (es' ! m))"
    using key_at_list [of ?n "map fst (drop m es')" 0 ord] lists(2) m es'(2) by (simp add: node_lists_def)
  then have "split_leaf leaf key r s = Inr (fst (es' ! m), ?new, put_node ?new ?n (put_node leaf ?l ?s2))"
    unfolding split_leaf_def Let_def ord_def [symmetric]
    using make_leaf_eq [OF assms(5)] assms(5) lf new ip tk(1,2) tp(1,2) nl(1) l1 n1(1) z len(2)
    by (simp add: temp_arrays_eq ready_def node_at_def mc set_ptr_def slot_put_def null_pointers_eq add.commute)
  moreover have "put_node ?new ?n (put_node leaf ?l ?s2) = s\<lparr>nodes := (nodes s)(leaf \<mapsto> ?l, ?new \<mapsto> ?n), calls := calls s + 5\<rparr>"
    using ne by (simp add: put_node_def fun_upd_twist)
  moreover have "pointers ?l (ord - 1) = Some ?new" "pointers ?n (ord - 1) = Some z" by (simp_all add: nulled_def)
  ultimately show ?thesis using lists l1(3,4) n1(3)
    by (intro exI [of _ ?l] exI [of _ ?n]) (simp add: ord_def)
qed

section \<open>Splitting an inner node\<close>

text \<open>The store after the children of a node have got it as their parent.\<close>

definition adopted :: "addr \<Rightarrow> addr list \<Rightarrow> (addr \<Rightarrow> bnode option) \<Rightarrow> (addr \<Rightarrow> bnode option)" where
  "adopted a ps N = (\<lambda>x. if x \<in> set ps then map_option (\<lambda>m. m\<lparr>parent := a\<rparr>) (N x) else N x)"

lemma adopt_list:
  assumes "nodes s a = Some n" and "holds (pointers n) ps" and "length ps \<le> order s" and "a \<notin> set ps"
    and "\<forall>p \<in> set ps. nodes s p \<noteq> None"
  shows "adopt a (length ps) 0 s = Inr (s\<lparr>nodes := adopted a ps (nodes s)\<rparr>)"
  using adopt_eq [OF assms, of 0] by (simp add: adopted_def)

lemma holds_snoc: "holds f xs \<Longrightarrow> holds (f(length xs \<mapsto> x)) (xs @ [x])"
  by (auto simp: holds_def nth_append less_Suc_eq)

lemma split_node_eq:
  fixes key :: int and right :: addr
  assumes "nodes s old = Some n" and "node_lists n ks ps" and "length ks = order s - 1" and "length ps = Suc (length ks)"
    and "3 \<le> order s" and "ready s" and "i \<le> length ks"
  defines "ks' \<equiv> insert_at i key ks" and "ps' \<equiv> insert_at (Suc i) right ps" and "m \<equiv> cut (order s)"
  assumes "\<forall>p \<in> set ps'. nodes s p \<noteq> None"
  shows "\<exists>n1 n2. split_node old i key right s = Inr (ks' ! (m - 1), calls s + 3,
      s\<lparr>nodes := adopted (calls s + 3) (drop m ps') ((nodes s)(old \<mapsto> n1, calls s + 3 \<mapsto> n2)), calls := calls s + 5\<rparr>) \<and>
    node_lists n1 (take (m - 1) ks') (take m ps') \<and> node_lists n2 (drop m ks') (drop m ps') \<and>
    parent n1 = parent n \<and> parent n2 = parent n \<and> is_leaf n1 = is_leaf n \<and> \<not> is_leaf n2"
proof -
  define ord where "ord = order s"
  let ?new = "calls s + 3"
  have len: "length ks = ord - 1" "3 \<le> ord" "length ps = ord" using assms(3-5) by (simp_all add: ord_def)
  have lens: "length ks' = ord" "length ps' = ord + 1" using len by (simp_all add: ks'_def ps'_def)
  have nl: "num_keys n = length ks" "holds (keys n) ks" "holds (pointers n) ps" using assms(2) by (simp_all add: node_lists_def)
  have below: "x < ?new" if "nodes s x \<noteq> None" for x using that assms(6) by (force simp: ready_def)
  have ne: "old \<noteq> ?new" using below [of old] assms(1) by auto
  have rest: "?new \<notin> set (drop m ps')" "\<forall>p \<in> set (drop m ps'). nodes s p \<noteq> None"
    using assms(11) below by (blast dest: in_set_dropD)+
  have kx: "key_at ord n x = Inr (ks ! x)" if "x < length ks" for x
    by (rule key_at_list [OF nl(2) that]) (use len in simp)
  have px: "ptr_at ord n x = Inr (ps ! x)" if "x < length ps" for x
    by (rule ptr_at_list [OF nl(3) that]) (use len in simp)
  obtain tk0 tk where tk: "copy_around ord (length ks) i (key_at ord n) 0 0 (\<lambda>_. None) = Inr tk0" "slot_put ord i key tk0 = Inr tk"
    "holds tk ks'"
    using copy_around_list [of ks "key_at ord n" i ord key, OF kx] assms(7) len by (auto simp: ks'_def)
  obtain tp0 tp where tp: "copy_around (ord + 1) (length ps) (Suc i) (ptr_at ord n) 0 0 (\<lambda>_. None) = Inr tp0"
    "slot_put (ord + 1) (Suc i) right tp0 = Inr tp" "holds tp ps'"
    using copy_around_list [of ps "ptr_at ord n" "Suc i" "ord + 1" right, OF px] assms(4,7) len by (auto simp: ps'_def)
  have m: "1 \<le> m" "m \<le> ord - 1" "m < ord" using cut_bounds [of ord] len(2) unfolding m_def ord_def [symmetric] by linarith+
  have m1: "m - 1 \<le> ord" "m - 1 \<le> ord - 1" using m by simp_all
  obtain l1 where l1: "fill_node ord ord (ord + 1) tk tp (m - 1) 0 0 (n\<lparr>num_keys := 0\<rparr>) = Inr l1"
    "node_lists l1 (take (m - 1) ks') (take (m - 1) ps')" "parent l1 = parent n" "is_leaf l1 = is_leaf n"
    using fill_node_list [OF tk(3) tp(3), of "m - 1" ord "ord + 1" 0 ord "n\<lparr>num_keys := 0\<rparr>"] m1 lens by auto
  obtain n1 where n1: "fill_node ord ord (ord + 1) tk tp ord m 0 (blank False) = Inr n1"
    "node_lists n1 (drop m ks') (drop m (take ord ps'))" "\<not> is_leaf n1"
    using fill_node_list [OF tk(3) tp(3), of ord ord "ord + 1" m ord "blank False"] m lens diff_le_mono2 [OF m(1), of ord]
    by (auto simp: blank_def)
  have sg: "slot_get (ord + 1) tp (m - 1) = Inr (ps' ! (m - 1))" "slot_get ord tk (m - 1) = Inr (ks' ! (m - 1))"
    "slot_get (ord + 1) tp (max m ord) = Inr (ps' ! ord)"
    using tk(3) tp(3) m lens by (simp_all add: slot_get_holds max_def)
  let ?l = "l1\<lparr>pointers := (pointers l1)(m - 1 \<mapsto> ps' ! (m - 1))\<rparr>"
  let ?n = "n1\<lparr>pointers := (pointers n1)(ord - m \<mapsto> ps' ! ord), parent := parent n\<rparr>"
  let ?N = "(nodes s)(old \<mapsto> ?l, ?new \<mapsto> ?n)"
  have "take m ps' = take (m - 1) ps' @ [ps' ! (m - 1)]" using take_Suc_conv_app_nth [of "m - 1" ps'] m lens by simp
  moreover have "length (take (m - 1) ps') = m - 1" using m lens by simp
  ultimately have ll: "node_lists ?l (take (m - 1) ks') (take m ps')"
    using l1(2) holds_snoc [of "pointers l1" "take (m - 1) ps'" "ps' ! (m - 1)"] by (simp add: node_lists_def)
  have "ps' = take ord ps' @ [ps' ! ord]" using take_Suc_conv_app_nth [of ord ps'] lens by simp
  from arg_cong [OF this, of "drop m"] have "drop m ps' = drop m (take ord ps') @ [ps' ! ord]" using m lens by simp
  moreover have "length (drop m (take ord ps')) = ord - m" using m lens by simp
  ultimately have ln: "node_lists ?n (drop m ks') (drop m ps')"
    using n1(2) holds_snoc [of "pointers n1" "drop m (take ord ps')" "ps' ! ord"] by (simp add: node_lists_def)
  let ?s4 = "s\<lparr>nodes := ?N, calls := calls s + 5\<rparr>"
  have "length (drop m ps') \<le> order ?s4" "num_keys n1 + 1 = length (drop m ps')"
    using m lens n1(2) by (simp_all add: node_lists_def ord_def)
  moreover have "nodes ?s4 ?new = Some ?n" "holds (pointers ?n) (drop m ps')" using ln by (simp_all add: node_lists_def)
  moreover have "\<forall>p \<in> set (drop m ps'). nodes ?s4 p \<noteq> None" using rest(2) by auto
  ultimately have ad: "adopt ?new (num_keys n1 + 1) 0 ?s4 = Inr (?s4\<lparr>nodes := adopted ?new (drop m ps') ?N\<rparr>)"
    using adopt_list [of ?s4 ?new ?n "drop m ps'"] rest(1) by simp
  have put: "put_node ?new ?n (put_node old ?l (s\<lparr>nodes := (nodes s)(?new \<mapsto> blank False), calls := calls s + 5\<rparr>)) = ?s4"
    using ne by (simp add: put_node_def fun_upd_twist)
  have mk: "make_node (s\<lparr>calls := calls s + 2\<rparr>) = Inr (?new, s\<lparr>nodes := (nodes s)(?new \<mapsto> blank False), calls := calls s + 5\<rparr>)"
  proof -
    have "ready (s\<lparr>calls := calls s + 2\<rparr>)" using assms(6) by (auto simp: ready_def intro: le_SucI)
    then show ?thesis by (simp add: make_node_eq numeral_3_eq_3 add.commute)
  qed
  have "split_node old i key right s = Inr (ks' ! (m - 1), ?new, ?s4\<lparr>nodes := adopted ?new (drop m ps') ?N\<rparr>)"
    unfolding split_node_def Let_def ord_def [symmetric] m_def [folded ord_def, symmetric]
    using mk assms(1,6) tk(1,2) tp(1,2) nl(1) len l1(1,3) n1(1) sg put ad m
    by (simp add: temp_arrays_eq readyD node_at_def set_ptr_def slot_put_def)
  then show ?thesis using ll ln l1(3,4) n1(3)
    by (intro exI [of _ ?l] exI [of _ ?n]) simp
qed

section \<open>Changing the tree at a place\<close>

lemma root_of_plug: "root_of (plug c t) = (if c = [] then root_of t else node_of (last c))"
  by (induction c arbitrary: t) auto

lemma plug_shape:
  "frames_shape ord h c \<Longrightarrow> shape ord (c \<noteq> []) h t \<Longrightarrow> shape ord False (h + length c) (plug c t)"
proof (induction c arbitrary: h t)
  case (Cons f c)
  obtain a kl ls kr rs where f: "f = Fr a kl ls kr rs" by (cases f)
  have "shape ord (c \<noteq> []) (Suc h) (fill f t)" using Cons.prems by (auto simp: f)
  moreover have "frames_shape ord (Suc h) c" using Cons.prems(1) by (simp add: f)
  ultimately have "shape ord False (Suc h + length c) (plug c (fill f t))" by (rule Cons.IH [rotated])
  then show ?case by simp
qed simp

lemma flat_pair:
  assumes "length ls = length kl" and "length rs = length kr"
  shows "flat (Nd a (kl @ key # kr) (ls @ l # r # rs)) =
    concat (map2 (\<lambda>t k. flat t @ [Sep k]) ls kl) @ flat l @ Sep key # flat r @ concat (map2 (\<lambda>k t. Sep k # flat t) kr rs)"
  using weave_hole [of ls kl "r # rs" "key # kr" "flat l"] assms by simp

lemma weave_split:
  "length xss = Suc (length ks) \<Longrightarrow> m < length ks \<Longrightarrow>
    weave ks xss = weave (take m ks) (take (Suc m) xss) @ Sep (ks ! m) # weave (drop (Suc m) ks) (drop (Suc m) xss)"
proof (induction ks xss arbitrary: m rule: weave.induct)
  case (3 k ks x xs)
  show ?case
  proof (cases m)
    case 0
    then show ?thesis by simp
  next
    case (Suc m')
    then show ?thesis using 3 by simp
  qed
qed auto

lemma represents_move:
  assumes "represents s p t" and "distinct (addrs t)" and "nodes s' (root_of t) = map_option (\<lambda>n. n\<lparr>parent := q\<rparr>) (nodes s (root_of t))"
    and "\<forall>a \<in> set (addrs t) - {root_of t}. nodes s' a = nodes s a"
  shows "represents s' q t"
proof (cases t)
  case (Lf a es)
  then show ?thesis using assms by (auto simp: node_lists_def split: option.splits)
next
  case (Nd a ks ts)
  have "represents s' a u" if "u \<in> set ts" for u
  proof -
    have "\<forall>b \<in> set (addrs u). nodes s' b = nodes s b" using assms(2,4) that by (auto simp: Nd)
    then show ?thesis using represents_cong [of u s' s a] assms(1) that by (auto simp: Nd)
  qed
  then show ?thesis using assms(1,3) by (auto simp: Nd node_lists_def split: option.splits)
qed

lemma represents_adopted:
  assumes "represents s p t" and "t \<in> set ts" and "distinct (concat (map addrs ts))"
    and "\<forall>x \<in> set (addrs t). N x = nodes s x" and "nodes s' = adopted a (map root_of ts) N"
  shows "represents s' a t"
proof (rule represents_move [OF assms(1)])
  obtain us vs where ts: "ts = us @ t # vs" using assms(2) by (meson split_list)
  show "distinct (addrs t)" using assms(3) by (simp add: ts)
  show "nodes s' (root_of t) = map_option (\<lambda>n. n\<lparr>parent := a\<rparr>) (nodes s (root_of t))"
    using assms(2,4,5) by (simp add: adopted_def)
  show "\<forall>b \<in> set (addrs t) - {root_of t}. nodes s' b = nodes s b"
  proof
    fix b assume b: "b \<in> set (addrs t) - {root_of t}"
    have "b \<notin> root_of ` set ts"
    proof
      assume "b \<in> root_of ` set ts"
      then obtain u where "u \<in> set us \<union> set vs" "b = root_of u" using b by (auto simp: ts)
      moreover have "set (addrs u) \<inter> set (addrs t) = {}" using calculation(1) assms(3) by (auto simp: ts)
      ultimately show False using b by (metis DiffD1 disjoint_iff root_in_addrs)
    qed
    then show "nodes s' b = nodes s b" using b assms(4,5) by (simp add: adopted_def)
  qed
qed

lemma represents_kept:
  assumes "represents s p t" and "set (addrs t) \<inter> set ps = {}" and "\<forall>x \<in> set (addrs t). N x = nodes s x" and "nodes s' = adopted a ps N"
  shows "represents s' p t"
proof -
  have "\<forall>x \<in> set (addrs t). nodes s' x = nodes s x" using assms(2-4) by (auto simp: adopted_def)
  then show ?thesis using represents_cong assms(1) by blast
qed

lemma frames_kept:
  assumes "frames_in s q c" and "set (around c) \<inter> set ps = {}" and "\<forall>x \<in> set (around c). N x = nodes s x" and "nodes s' = adopted a ps N"
  shows "frames_in s' q c"
proof -
  have "\<forall>x \<in> set (around c). nodes s' x = nodes s x" using assms(2-4) by (auto simp: adopted_def)
  then show ?thesis using frames_in_cong assms(1) by blast
qed

section \<open>Insertion into the parent\<close>

text \<open>The leaves of one store are those of the other, with the same pointers.\<close>

definition leaves_kept :: "store \<Rightarrow> store \<Rightarrow> bool" where
  "leaves_kept s s' \<longleftrightarrow> order s' = order s \<and>
     (\<forall>a n. nodes s a = Some n \<longrightarrow> is_leaf n \<longrightarrow> (\<exists>n'. nodes s' a = Some n' \<and> pointers n' = pointers n \<and> is_leaf n'))"

lemma leaves_kept_trans: "leaves_kept s s1 \<Longrightarrow> leaves_kept s1 s2 \<Longrightarrow> leaves_kept s s2"
  unfolding leaves_kept_def by metis

lemma leaves_kept_link: "leaves_kept s s' \<Longrightarrow> nodes s a = Some n \<Longrightarrow> is_leaf n \<Longrightarrow> next_leaf s' a = next_leaf s a"
  by (force simp: leaves_kept_def next_leaf_def)

lemma leaves_kept_adopted:
  assumes "nodes s' = adopted b ps ((nodes s)(x \<mapsto> n1, y \<mapsto> n2))" and "order s' = order s"
    and "\<And>n. nodes s x = Some n \<Longrightarrow> \<not> is_leaf n" and "nodes s y = None"
  shows "leaves_kept s s'"
  using assms by (fastforce simp: leaves_kept_def adopted_def)

lemma insert_into_new_root_place:
  assumes "represents s 0 l" and "represents s 0 r" and "distinct (addrs l @ addrs r)"
    and "shape (order s) True h l" and "shape (order s) True h r" and "ready s" and "3 \<le> order s"
  shows "\<exists>s' t'. insert_into_new_root (root_of l) key (root_of r) s = Inr (root_of t', s') \<and> represents s' 0 t' \<and>
    (\<exists>H. shape (order s) False H t') \<and> flat t' = flat l @ Sep key # flat r \<and> distinct (addrs t') \<and>
    leaves_kept s s' \<and> recs s' = recs s \<and> ready s'"
proof -
  let ?root = "Suc (calls s)"
  let ?t = "Nd ?root [key] [l, r]"
  let ?n = "(blank False)\<lparr>keys := [0 \<mapsto> key], pointers := [0 \<mapsto> root_of l, 1 \<mapsto> root_of r], num_keys := 1\<rparr>"
  let ?N = "(nodes s)(?root \<mapsto> ?n)"
  let ?s = "s\<lparr>nodes := adopted ?root [root_of l, root_of r] ?N, calls := calls s + 3\<rparr>"
  obtain nl nr where n: "nodes s (root_of l) = Some nl" "nodes s (root_of r) = Some nr"
    using represents_node [OF assms(1)] represents_node [OF assms(2)] by blast
  have below: "a \<noteq> ?root" if "a \<in> set (addrs l) \<union> set (addrs r)" for a
    using that represents_valid [OF assms(1), of a] represents_valid [OF assms(2), of a] assms(6) by (force simp: ready_def)
  have ne: "root_of l \<noteq> ?root" "root_of r \<noteq> ?root" "root_of l \<noteq> root_of r"
    using below assms(3) root_in_addrs [of l] root_in_addrs [of r] by fastforce+
  have "insert_into_new_root (root_of l) key (root_of r) s = Inr (?root,
      s\<lparr>nodes := ?N(root_of l \<mapsto> nl\<lparr>parent := ?root\<rparr>, root_of r \<mapsto> nr\<lparr>parent := ?root\<rparr>), calls := calls s + 3\<rparr>)"
    using n ne assms(7) by (simp add: insert_into_new_root_def make_node_eq [OF assms(6)] on_node_def node_at_def put_node_def
        set_key_def set_ptr_def slot_put_def set_parent_def blank_def)
  moreover have "?N(root_of l \<mapsto> nl\<lparr>parent := ?root\<rparr>, root_of r \<mapsto> nr\<lparr>parent := ?root\<rparr>) = adopted ?root [root_of l, root_of r] ?N"
    using n ne by (auto simp: adopted_def fun_eq_iff)
  ultimately have run: "insert_into_new_root (root_of l) key (root_of r) s = Inr (root_of ?t, ?s)" by simp
  have same: "\<forall>x \<in> set (addrs l) \<union> set (addrs r). ?N x = nodes s x" using below by auto
  have "represents ?s ?root l" by (rule represents_adopted [of s 0 l "[l, r]" ?N]) (use assms(1,3) same in auto)
  moreover have "represents ?s ?root r" by (rule represents_adopted [of s 0 r "[l, r]" ?N]) (use assms(2,3) same in auto)
  moreover have "nodes ?s ?root = Some ?n" using ne by (simp add: adopted_def)
  ultimately have rep: "represents ?s 0 ?t" by (simp add: node_lists_def holds_def blank_def less_Suc_eq)
  then have "shape (order s) False (Suc h) ?t" using assms(4,5,7) by simp
  moreover have "distinct (addrs ?t)" using assms(3) below by auto
  moreover have "leaves_kept s ?s"
    by (rule leaves_kept_adopted [of _ ?root "[root_of l, root_of r]" s ?root ?n ?root ?n]) (use assms(6) in \<open>force simp: ready_def\<close>)+
  moreover have "ready ?s" using assms(6) by (auto simp: ready_def adopted_def)
  ultimately show ?thesis using run rep by (intro exI [of _ ?s] exI [of _ ?t]) auto
qed

text \<open>Two halves of a node at a place; only the left one is a child yet.\<close>

definition pair_at :: "store \<Rightarrow> frame list \<Rightarrow> nat \<Rightarrow> btree \<Rightarrow> btree \<Rightarrow> bool" where
  "pair_at s c h l r \<longleftrightarrow> represents s 0 (plug c l) \<and> represents s (top c) r \<and> distinct (addrs (plug c l) @ addrs r) \<and>
     frames_shape (order s) h c \<and> shape (order s) True h l \<and> shape (order s) True h r \<and> ready s \<and> 3 \<le> order s"

text \<open>The tree that results.\<close>

definition grown :: "store \<Rightarrow> store \<Rightarrow> btree \<Rightarrow> item list \<Rightarrow> bool" where
  "grown s s' t xs \<longleftrightarrow> represents s' 0 t \<and> (\<exists>H. shape (order s) False H t) \<and> flat t = xs \<and> distinct (addrs t) \<and>
     leaves_kept s s' \<and> recs s' = recs s \<and> ready s'"

lemma pair_parent:
  assumes "pair_at s (Fr a kl ls kr rs # c) h l r"
  shows "\<exists>n nl. nodes s (root_of l) = Some nl \<and> parent nl = a \<and> a \<noteq> 0 \<and> nodes s a = Some n \<and> \<not> is_leaf n \<and> parent n = top c \<and>
    node_lists n (kl @ kr) (map root_of (ls @ l # rs)) \<and>
    get_left_index (order s) n (root_of l) = Inr (length kl) \<and> frames_in s a c \<and> length ls = length kl \<and> length rs = length kr \<and>
    (\<forall>t \<in> set (ls @ l # r # rs). represents s a t \<and> shape (order s) True h t) \<and>
    distinct (around c @ a # concat (map addrs (ls @ l # r # rs))) \<and> length kl + length kr \<le> order s - 1 \<and> 3 \<le> order s"
proof -
  let ?F = "Fr a kl ls kr rs"
  have fs: "frames_shape (order s) h (?F # c)" and od: "3 \<le> order s" using assms by (simp_all add: pair_at_def)
  have fi: "frames_in s (root_of l) (?F # c)" "represents s a l" "represents s a r"
    using assms represents_plug [OF fs, of s l] by (simp_all add: pair_at_def)
  obtain nl where nl: "nodes s (root_of l) = Some nl" "parent nl = a" using represents_node [OF fi(2)] by auto
  obtain n where n: "nodes s a = Some n" "\<not> is_leaf n" "parent n = top c" "node_lists n (kl @ kr) (map root_of (ls @ l # rs))"
    using fi(1) by (auto split: option.splits)
  have "distinct (addrs (plug (?F # c) l)) \<and> distinct (addrs r) \<and> set (addrs (plug (?F # c) l)) \<inter> set (addrs r) = {}"
    using assms by (simp add: pair_at_def)
  then have d: "distinct (around c @ a # concat (map addrs (ls @ l # r # rs)))"
    unfolding plug_distinct plug_addrs by auto
  have lens: "length ls = length kl" "length rs = length kr" "length kl + length kr \<le> order s - 1" using fs by simp_all
  have "root_of l \<notin> root_of ` set ls"
  proof
    assume "root_of l \<in> root_of ` set ls"
    then obtain u where "u \<in> set ls" "root_of u = root_of l" by auto
    moreover from this(1) have "set (addrs u) \<inter> set (addrs l) = {}" using d by auto
    ultimately show False by (metis disjoint_iff root_in_addrs)
  qed
  then have "takeWhile (\<lambda>q. q \<noteq> root_of l) (map root_of (ls @ l # rs)) = map root_of ls"
    by (subst map_append, subst takeWhile_append2) (auto simp: image_iff)
  then have "get_left_index (order s) n (root_of l) = Inr (length kl)"
    using get_left_index_list [OF n(4), of "order s" "root_of l"] lens od by simp
  then show ?thesis using nl n fi fs od d lens assms by (auto simp: pair_at_def)
qed

lemma pair_fits:
  assumes "pair_at s (Fr a kl ls kr rs # c) h l r" and "length kl + length kr < order s - 1"
  shows "\<exists>s' t. insert_into_parent root (root_of l) key (root_of r) s = Some (Inr (root, s')) \<and>
    grown s s' t (before_hole (Fr a kl ls kr rs # c) @ flat l @ Sep key # flat r @ after_hole (Fr a kl ls kr rs # c)) \<and>
    root_of t = root_of (plug (Fr a kl ls kr rs # c) l)"
proof -
  obtain n nl where p: "nodes s (root_of l) = Some nl" "parent nl = a" "a \<noteq> 0" "nodes s a = Some n" "\<not> is_leaf n" "parent n = top c"
    "node_lists n (kl @ kr) (map root_of (ls @ l # rs))" "get_left_index (order s) n (root_of l) = Inr (length kl)"
    "frames_in s a c" "length ls = length kl" "length rs = length kr"
    "\<forall>t \<in> set (ls @ l # r # rs). represents s a t \<and> shape (order s) True h t"
    "distinct (around c @ a # concat (map addrs (ls @ l # r # rs)))" "3 \<le> order s"
    using pair_parent [OF assms(1)] by blast
  let ?ps = "map root_of (ls @ l # rs)"
  have "length (kl @ kr) < order s - 1" "length ?ps = Suc (length (kl @ kr))" "length kl \<le> length (kl @ kr)"
    using p(10,11) assms(2) by simp_all
  then obtain n' where n': "insert_into_node (order s) (length kl) key (root_of r) n = Inr n'"
    "node_lists n' (insert_at (length kl) key (kl @ kr)) (insert_at (Suc (length kl)) (root_of r) ?ps)" "parent n' = parent n" "is_leaf n' = is_leaf n"
    using insert_into_node_eq [OF p(7), of "order s" "length kl" key "root_of r"] by blast
  have lists: "insert_at (length kl) key (kl @ kr) = kl @ key # kr"
    "insert_at (Suc (length kl)) (root_of r) ?ps = map root_of (ls @ l # r # rs)"
    using p(10) by (simp_all add: insert_at_def)
  let ?s = "put_node a n' s"
  let ?t = "Nd a (kl @ key # kr) (ls @ l # r # rs)"
  have nk: "num_keys n < order s - 1" using p(7) assms(2) by (simp add: node_lists_def)
  have run: "insert_into_parent root (root_of l) key (root_of r) s = Some (Inr (root, ?s))"
    using p nk n'(1) by (simp add: insert_into_parent.simps [of _ "root_of l"] node_at_def on_node_def)
  have same: "nodes ?s b = nodes s b" if "b \<noteq> a" for b using that by (simp add: put_node_def)
  have "represents ?s a t" if "t \<in> set (ls @ l # r # rs)" for t
  proof -
    have "\<forall>b \<in> set (addrs t). nodes ?s b = nodes s b" using p(13) that same by (intro ballI same) auto
    then show ?thesis using represents_cong p(12) that by blast
  qed
  then have "represents ?s (top c) ?t" using p(3,5,6) n'(2-4) lists by (auto simp: put_node_def)
  moreover have "frames_in ?s a c"
  proof -
    have "\<forall>b \<in> set (around c). nodes ?s b = nodes s b" using p(13) by (intro ballI same) auto
    then show ?thesis using frames_in_cong p(9) by blast
  qed
  moreover have fs: "frames_shape (order s) (Suc h) c" using assms(1) by (simp add: pair_at_def)
  ultimately have rep: "represents ?s 0 (plug c ?t)" using represents_plug [OF fs] by simp
  have "shape (order s) (c \<noteq> []) (Suc h) ?t"
    using assms p(12) by (auto simp: pair_at_def)
  then have "shape (order s) False (Suc h + length c) (plug c ?t)" by (rule plug_shape [OF fs])
  moreover have "flat (plug c ?t) = before_hole (Fr a kl ls kr rs # c) @ flat l @ Sep key # flat r @ after_hole (Fr a kl ls kr rs # c)"
    using flat_plug [OF fs] flat_pair [OF p(10,11)] by simp
  moreover have "distinct (addrs (plug c ?t))" unfolding plug_distinct using p(13) by auto
  moreover have "leaves_kept s ?s" using p(4,5) by (auto simp: leaves_kept_def put_node_def)
  moreover have "ready ?s" using assms(1) p(4) by (auto simp: pair_at_def ready_def put_node_def)
  moreover have "recs ?s = recs s" by (simp add: put_node_def)
  ultimately have "grown s ?s (plug c ?t) (before_hole (Fr a kl ls kr rs # c) @ flat l @ Sep key # flat r @ after_hole (Fr a kl ls kr rs # c))"
    using rep unfolding grown_def by blast
  then show ?thesis using run by (intro exI [of _ ?s] exI [of _ "plug c ?t"]) (simp add: root_of_plug)
qed

lemma pair_below: "pair_at s c h l r \<Longrightarrow> b \<in> set (addrs (plug c l)) \<union> set (addrs r) \<Longrightarrow> b \<le> calls s \<and> nodes s b \<noteq> None"
  using represents_valid [of s 0 "plug c l" b] represents_valid [of s "top c" r b] by (auto simp: pair_at_def ready_def)

lemma halves_distinct:
  assumes "distinct (concat (map addrs ts))" and "ts = ts1 @ ts2"
  shows "distinct (concat (map addrs ts1))" "distinct (concat (map addrs ts2))"
    "set (concat (map addrs ts1)) \<inter> set (concat (map addrs ts2)) = {}"
  using assms by auto

lemma roots_subset: "set (map root_of ts) \<subseteq> set (concat (map addrs ts))"
  by (induction ts) auto

lemma pair_splits:
  assumes "pair_at s (Fr a kl ls kr rs # c) h l r" and "length kl + length kr = order s - 1"
  shows "\<exists>L R k s1. split_node a (length kl) key (root_of r) s = Inr (k, root_of R, s1) \<and> root_of L = a \<and> pair_at s1 c (Suc h) L R \<and>
    flat L @ Sep k # flat R = flat (Nd a (kl @ key # kr) (ls @ l # r # rs)) \<and> leaves_kept s s1 \<and> recs s1 = recs s"
proof -
  obtain n nl where p: "nodes s (root_of l) = Some nl" "parent nl = a" "a \<noteq> 0" "nodes s a = Some n" "\<not> is_leaf n" "parent n = top c"
    "node_lists n (kl @ kr) (map root_of (ls @ l # rs))"
    "frames_in s a c" "length ls = length kl" "length rs = length kr"
    "\<forall>t \<in> set (ls @ l # r # rs). represents s a t \<and> shape (order s) True h t"
    "distinct (around c @ a # concat (map addrs (ls @ l # r # rs)))" "3 \<le> order s"
    using pair_parent [OF assms(1)] by blast
  define ks where "ks = kl @ key # kr"
  define ts where "ts = ls @ l # r # rs"
  define m where "m = cut (order s)"
  let ?new = "calls s + 3"
  have rdy: "ready s" and fs: "frames_shape (order s) (Suc h) c" using assms(1) by (simp_all add: pair_at_def)
  have lens: "length ks = order s" "length ts = Suc (order s)" using assms(2) p(9,10,13) by (simp_all add: ks_def ts_def)
  have m: "1 \<le> m" "m < order s" "m \<le> order s + 1 - m" using cut_bounds [of "order s"] p(13) by (simp_all add: m_def)
  have lists: "insert_at (length kl) key (kl @ kr) = ks" "insert_at (Suc (length kl)) (root_of r) (map root_of (ls @ l # rs)) = map root_of ts"
    using p(9) by (simp_all add: insert_at_def ks_def ts_def)
  have valid: "\<forall>b \<in> set (map root_of ts). nodes s b \<noteq> None"
    using p(11) represents_node unfolding ts_def by fastforce
  obtain n1 n2 where sp: "split_node a (length kl) key (root_of r) s = Inr (ks ! (m - 1), ?new,
      s\<lparr>nodes := adopted ?new (drop m (map root_of ts)) ((nodes s)(a \<mapsto> n1, ?new \<mapsto> n2)), calls := calls s + 5\<rparr>)"
    "node_lists n1 (take (m - 1) ks) (take m (map root_of ts))" "node_lists n2 (drop m ks) (drop m (map root_of ts))"
    "parent n1 = parent n" "parent n2 = parent n" "is_leaf n1 = is_leaf n" "\<not> is_leaf n2"
    using split_node_eq [OF p(4,7) _ _ p(13) rdy, of "length kl" "root_of r" key] assms(2) p(9,10) lists valid
    by (auto simp: m_def)
  define ts1 where "ts1 = take m ts"
  define ts2 where "ts2 = drop m ts"
  define N where "N = (nodes s)(a \<mapsto> n1, ?new \<mapsto> n2)"
  define s1 where "s1 = s\<lparr>nodes := adopted ?new (map root_of ts2) N, calls := calls s + 5\<rparr>"
  let ?L = "Nd a (take (m - 1) ks) ts1"
  let ?R = "Nd ?new (drop m ks) ts2"
  have N1: "nodes s1 = adopted ?new (map root_of ts2) N" "order s1 = order s" by (simp_all add: s1_def)
  have parts: "ts = ts1 @ ts2" "length ts1 = m" "length ts2 = Suc (order s) - m"
    using lens m by (simp_all add: ts1_def ts2_def)
  have d: "distinct (concat (map addrs ts))" "a \<notin> set (concat (map addrs ts))" "a \<notin> set (around c)"
    "distinct (around c)" "set (around c) \<inter> set (concat (map addrs ts)) = {}"
    using p(12) unfolding ts_def [symmetric] by auto
  note h = halves_distinct [OF d(1) parts(1)]
  have below: "b \<noteq> ?new" if "b \<in> insert a (set (around c) \<union> set (concat (map addrs ts)))" for b
  proof -
    have "b \<in> set (addrs (plug (Fr a kl ls kr rs # c) l)) \<union> set (addrs r)"
      using that unfolding plug_addrs ts_def by auto
    from pair_below [OF assms(1) this] show ?thesis by auto
  qed
  have same: "N b = nodes s b" if "b \<in> set (around c) \<union> set (concat (map addrs ts))" for b
    using that d(2,3) below [of b] by (auto simp: N_def)
  have r2: "set (map root_of ts2) \<subseteq> set (concat (map addrs ts2))" by (rule roots_subset)
  have kept: "represents s1 a t" if "t \<in> set ts1" for t
  proof (rule represents_kept [OF _ _ _ N1(1)])
    show "represents s a t" using p(11) that parts(1) unfolding ts_def [symmetric] by auto
    show "set (addrs t) \<inter> set (map root_of ts2) = {}" using h(3) r2 that by fastforce
    show "\<forall>b \<in> set (addrs t). N b = nodes s b" using same that parts(1) by fastforce
  qed
  have moved: "represents s1 ?new t" if "t \<in> set ts2" for t
  proof (rule represents_adopted [OF _ that h(2) _ N1(1)])
    show "represents s a t" using p(11) that parts(1) unfolding ts_def [symmetric] by auto
    show "\<forall>b \<in> set (addrs t). N b = nodes s b" using same that parts(1) by fastforce
  qed
  have sub: "set (map root_of ts2) \<subseteq> set (concat (map addrs ts))" using r2 unfolding parts(1) by auto
  have outside: "a \<notin> set (map root_of ts2)" "?new \<notin> set (map root_of ts2)" "set (around c) \<inter> set (map root_of ts2) = {}"
    using sub d(2,5) below by blast+
  have nodes: "nodes s1 a = Some n1" "nodes s1 ?new = Some n2"
    using outside below [of a] by (auto simp: N1 adopted_def N_def)
  have "represents s1 (top c) ?L"
    using nodes(1) sp(2,4,6) p(3,5,6) kept by (simp add: ts1_def take_map)
  moreover have "frames_in s1 a c"
    by (rule frames_kept [OF p(8) outside(3) _ N1(1)]) (use same in blast)
  ultimately have rl: "represents s1 0 (plug c ?L)" using represents_plug [OF fs] by simp
  have rr: "represents s1 (top c) ?R"
    using nodes(2) sp(3,5,7) p(6) moved by (simp add: ts2_def drop_map)
  have dist: "distinct (addrs (plug c ?L) @ addrs ?R)"
  proof -
    have "set (concat (map addrs ts)) = set (concat (map addrs ts1)) \<union> set (concat (map addrs ts2))" using parts(1) by auto
    then have "?new \<notin> insert a (set (around c) \<union> set (concat (map addrs ts1)) \<union> set (concat (map addrs ts2)))"
      "set (around c) \<inter> (set (concat (map addrs ts1)) \<union> set (concat (map addrs ts2))) = {}"
      "a \<notin> set (concat (map addrs ts1)) \<union> set (concat (map addrs ts2))"
      using below d(2,5) by blast+
    then show ?thesis using d(3,4) h unfolding distinct_append plug_distinct plug_addrs addrs.simps by auto
  qed
  have shl: "shape (order s) True (Suc h) ?L" "shape (order s) True (Suc h) ?R"
    using p(11) parts m lens unfolding ts_def [symmetric] by (auto simp: m_def [symmetric])
  have "ready s1" using rdy p(4) by (auto simp: ready_def s1_def adopted_def N_def)
  then have "pair_at s1 c (Suc h) ?L ?R" using rl rr dist fs shl p(13) N1(2) unfolding pair_at_def by simp
  moreover have "flat ?L @ Sep (ks ! (m - 1)) # flat ?R = flat (Nd a ks ts)"
    using weave_split [of "map flat ts" ks "m - 1"] lens m by (simp add: ts1_def ts2_def take_map drop_map)
  moreover have "leaves_kept s s1"
    by (rule leaves_kept_adopted [of _ ?new "map root_of ts2" s a n1 ?new n2])
      (use p(4,5) rdy in \<open>force simp: s1_def N_def ready_def\<close>)+
  moreover have "split_node a (length kl) key (root_of r) s = Inr (ks ! (m - 1), root_of ?R, s1)"
    using sp(1) by (simp add: s1_def N_def ts2_def drop_map)
  moreover have "recs s1 = recs s" by (simp add: s1_def)
  ultimately show ?thesis unfolding ks_def ts_def
    by (intro exI [of _ ?L] exI [of _ ?R] exI [of _ "ks ! (m - 1)"] exI [of _ s1]) (simp add: ks_def ts_def)
qed

lemma insert_into_parent_place:
  assumes "pair_at s c h l r"
  shows "\<exists>s' t. insert_into_parent (root_of (plug c l)) (root_of l) key (root_of r) s = Some (Inr (root_of t, s')) \<and>
    grown s s' t (before_hole c @ flat l @ Sep key # flat r @ after_hole c)"
  using assms
proof (induction c arbitrary: s h l r key)
  case Nil
  have a: "represents s 0 l" "represents s 0 r" "distinct (addrs l @ addrs r)" "shape (order s) True h l" "shape (order s) True h r"
    "ready s" "3 \<le> order s" using Nil by (simp_all add: pair_at_def)
  obtain s' t where "insert_into_new_root (root_of l) key (root_of r) s = Inr (root_of t, s')" "grown s s' t (flat l @ Sep key # flat r)"
    using insert_into_new_root_place [OF a, of key] unfolding grown_def by blast
  moreover obtain nl where "nodes s (root_of l) = Some nl" "parent nl = 0" using represents_node [OF a(1)] by blast
  ultimately show ?case
    by (intro exI [of _ s'] exI [of _ t]) (simp add: insert_into_parent.simps [of _ "root_of l"] node_at_def)
next
  case (Cons f c)
  obtain a kl ls kr rs where f: "f = Fr a kl ls kr rs" by (cases f)
  note pair = Cons.prems [unfolded f]
  show ?case
  proof (cases "length kl + length kr < order s - 1")
    case True
    from pair_fits [OF pair True, of "root_of (plug (f # c) l)" key] show ?thesis unfolding f by metis
  next
    case False
    obtain n nl where p: "nodes s (root_of l) = Some nl" "parent nl = a" "a \<noteq> 0" "nodes s a = Some n"
      "node_lists n (kl @ kr) (map root_of (ls @ l # rs))"
      "get_left_index (order s) n (root_of l) = Inr (length kl)" "length ls = length kl" "length rs = length kr"
      "length kl + length kr \<le> order s - 1" "frames_in s a c"
      using pair_parent [OF pair] by blast
    then have full: "length kl + length kr = order s - 1" "num_keys n = order s - 1" using False by (simp_all add: node_lists_def)
    obtain L R k s1 where sp: "split_node a (length kl) key (root_of r) s = Inr (k, root_of R, s1)" "root_of L = a" "pair_at s1 c (Suc h) L R"
      "flat L @ Sep k # flat R = flat (Nd a (kl @ key # kr) (ls @ l # r # rs))" "leaves_kept s s1" "recs s1 = recs s"
      using pair_splits [OF pair full(1), of key] by blast
    obtain s' t where t: "insert_into_parent (root_of (plug c L)) (root_of L) k (root_of R) s1 = Some (Inr (root_of t, s'))"
      "grown s1 s' t (before_hole c @ flat L @ Sep k # flat R @ after_hole c)" using Cons.IH [OF sp(3)] by blast
    have "root_of (plug c L) = root_of (plug (f # c) l)" using sp(2) by (simp add: root_of_plug f)
    then have "insert_into_parent (root_of (plug (f # c) l)) (root_of l) key (root_of r) s = Some (Inr (root_of t, s'))"
      using p full sp(1,2) t(1) by (simp add: insert_into_parent.simps [of _ "root_of l"] node_at_def)
    moreover have "before_hole c @ (flat L @ Sep k # flat R) @ after_hole c =
        before_hole (f # c) @ flat l @ Sep key # flat r @ after_hole (f # c)"
      unfolding sp(4) flat_pair [OF p(7,8)] by (simp add: f)
    then have "grown s s' t (before_hole (f # c) @ flat l @ Sep key # flat r @ after_hole (f # c))"
      using t(2) sp(5,6) leaves_kept_trans [OF sp(5)] by (auto simp: grown_def leaves_kept_def)
    ultimately show ?thesis by blast
  qed
qed

section \<open>Insertion into the list of entries\<close>

lemma insert_at_takeWhile: "insert_at (length (takeWhile P xs)) x xs = takeWhile P xs @ x # dropWhile P xs"
  by (simp add: insert_at_def takeWhile_eq_take [symmetric] dropWhile_eq_drop [symmetric])

lemma insert_at_sorted:
  fixes es :: "(int \<times> addr) list" and r :: addr
  assumes "sorted_wrt (<) (map fst es)" and "key \<notin> fst ` set es"
  defines "es' \<equiv> insert_at (length (takeWhile (\<lambda>k. k < key) (map fst es))) (key, r) es"
  shows "sorted_wrt (<) (map fst es')" and "map_of es' = (map_of es)(key \<mapsto> r)" and "set es' = insert (key, r) (set es)"
proof -
  have len: "length (takeWhile (\<lambda>k. k < key) (map fst es)) = length (takeWhile (\<lambda>e. fst e < key) es)"
    by (simp add: takeWhile_map comp_def)
  have es': "es' = takeWhile (\<lambda>e. fst e < key) es @ (key, r) # dropWhile (\<lambda>e. fst e < key) es"
    unfolding es'_def len by (rule insert_at_takeWhile)
  have left: "fst e < key" if "e \<in> set (takeWhile (\<lambda>e. fst e < key) es)" for e using that by (auto dest: set_takeWhileD)
  have right: "\<forall>e \<in> set (dropWhile (\<lambda>e. fst e < key) es). key < fst e"
    using assms(1,2)
  proof (induction es)
    case (Cons e es)
    then show ?case by (cases "fst e < key") auto
  qed simp
  have cross: "\<forall>e \<in> set (takeWhile (\<lambda>e. fst e < key) es). \<forall>f \<in> set (dropWhile (\<lambda>e. fst e < key) es). fst e < fst f"
    using left right less_trans by blast
  have "sorted_wrt (\<lambda>e f. fst e < fst f) (takeWhile (\<lambda>e. fst e < key) es @ dropWhile (\<lambda>e. fst e < key) es)"
    using assms(1) by (simp add: sorted_wrt_map)
  then show "sorted_wrt (<) (map fst es')"
    unfolding es' using left right cross by (simp add: sorted_wrt_append sorted_wrt_map)
  have "key \<notin> dom (map_of (takeWhile (\<lambda>e. fst e < key) es))" using left by (metis dom_map_of_conv_image_fst imageE less_irrefl)
  moreover have "map_of es = map_of (dropWhile (\<lambda>e. fst e < key) es) ++ map_of (takeWhile (\<lambda>e. fst e < key) es)"
    by (metis map_of_append takeWhile_dropWhile_id)
  ultimately show "map_of es' = (map_of es)(key \<mapsto> r)" unfolding es' by (simp add: map_add_upd_left)
  have "set es = set (takeWhile (\<lambda>e. fst e < key) es) \<union> set (dropWhile (\<lambda>e. fst e < key) es)"
    by (metis set_append takeWhile_dropWhile_id)
  then show "set es' = insert (key, r) (set es)" unfolding es' by auto
qed

lemma distinct_middle: "distinct (ys @ x # zs) \<longleftrightarrow> distinct (ys @ zs) \<and> x \<notin> set (ys @ zs)"
  by auto

lemma insert_at_distinct: "distinct (insert_at i x xs) \<longleftrightarrow> distinct xs \<and> x \<notin> set xs"
  unfolding insert_at_def distinct_middle append_take_drop_id by simp

lemma insert_at_set: "set (insert_at i x xs) = insert x (set xs)"
proof -
  have "set (insert_at i x xs) = insert x (set (take i xs @ drop i xs))" by (auto simp: insert_at_def simp del: append_take_drop_id)
  then show ?thesis by simp
qed

lemma ranks_insert:
  assumes "sorted_wrt (<) (ranks (xs @ Page a es # zs))"
    and "\<forall>x \<in> set (ranks xs). x < 2 * key + 1" and "\<forall>x \<in> set (ranks zs). 2 * key + 1 < x"
    and "sorted_wrt (<) (map fst es')" and "set es' = insert (key, r) (set es)"
  shows "sorted_wrt (<) (ranks (xs @ Page a es' # zs))"
proof -
  have "sorted_wrt (<) (map (\<lambda>e. 2 * fst e + 1) es')"
    using assms(4) by (auto simp: sorted_wrt_map elim!: sorted_wrt_mono_rel [rotated])
  then show ?thesis using assms(1-3,5) by (auto simp: sorted_wrt_append)
qed

lemma sorted_put:
  fixes z :: int
  shows "sorted_wrt (<) (xs @ y # ys) \<Longrightarrow> \<forall>x \<in> set xs. x < z \<Longrightarrow> z < y \<Longrightarrow> sorted_wrt (<) (xs @ z # y # ys)"
  by (auto simp: sorted_wrt_append)

lemma ranks_split:
  assumes "sorted_wrt (<) (ranks (xs @ Page a (es1 @ es2) # zs))" and "es1 \<noteq> []" and "es2 \<noteq> []"
  shows "sorted_wrt (<) (ranks (xs @ Page a es1 # Sep (fst (hd es2)) # Page b es2 # zs))"
proof -
  obtain e es where e: "es2 = e # es" using assms(3) by (cases es2) auto
  have "2 * fst d + 1 < 2 * fst e" if "d \<in> set es1" for d
  proof -
    have "2 * fst d + 1 < 2 * fst e + 1" using assms(1) that by (auto simp: e sorted_wrt_append)
    then show ?thesis by presburger
  qed
  then have below: "\<forall>d \<in> set es1. 2 * fst d + 1 < 2 * fst e" by blast
  obtain d where "d \<in> set es1" using assms(2) by (cases es1) auto
  have "\<forall>x \<in> set (ranks xs). \<forall>y \<in> set (ranks (Page a (es1 @ es2) # zs)). x < y"
    using assms(1) unfolding flat_parts(12) sorted_wrt_append by blast
  moreover have "2 * fst d + 1 \<in> set (ranks (Page a (es1 @ es2) # zs))" using \<open>d \<in> set es1\<close> by auto
  ultimately have "x < 2 * fst d + 1" if "x \<in> set (ranks xs)" for x using that by blast
  then have "\<forall>x \<in> set (ranks xs). x < 2 * fst e" using below \<open>d \<in> set es1\<close> less_trans by blast
  then have "\<forall>x \<in> set (ranks (xs @ [Page a es1])). x < 2 * fst e" using below by auto
  then have "sorted_wrt (<) (ranks (xs @ [Page a es1]) @ 2 * fst e # (2 * fst e + 1) # ranks (Page b es # zs))"
    by (rule sorted_put [rotated]) (use assms(1) in \<open>simp_all add: e\<close>)
  then show ?thesis by (simp add: e)
qed

lemma leaves_weave: "length xss = Suc (length ks) \<Longrightarrow> leaves (weave ks xss) = concat (map leaves xss)"
  by (induction ks xss rule: weave.induct) auto

fun wide :: "btree \<Rightarrow> bool" where
  "wide (Lf a es) \<longleftrightarrow> True"
| "wide (Nd a ks ts) \<longleftrightarrow> length ts = Suc (length ks) \<and> (\<forall>t \<in> set ts. wide t)"

lemma shape_wide: "shape ord low h t \<Longrightarrow> wide t"
  by (induction t arbitrary: low h) auto

lemma leaves_wide: "wide t \<Longrightarrow> distinct (addrs t) \<Longrightarrow> distinct (leaves (flat t)) \<and> set (leaves (flat t)) \<subseteq> set (addrs t)"
proof (induction t)
  case (Nd a ks ts)
  have l: "leaves (flat (Nd a ks ts)) = concat (map (leaves \<circ> flat) ts)" using Nd.prems(1) by (simp add: leaves_weave)
  have "distinct (leaves (flat t)) \<and> set (leaves (flat t)) \<subseteq> set (addrs t)" if "t \<in> set ts" for t
    by (rule Nd.IH [OF that]) (use Nd.prems that in \<open>auto simp: distinct_concat_iff\<close>)
  moreover have "distinct (concat (map addrs ts))" using Nd.prems(2) by simp
  ultimately have "distinct (concat (map (leaves \<circ> flat) ts)) \<and> set (concat (map (leaves \<circ> flat) ts)) \<subseteq> set (concat (map addrs ts))"
  proof (induction ts)
    case (Cons u us)
    have "distinct (concat (map (leaves \<circ> flat) us)) \<and> set (concat (map (leaves \<circ> flat) us)) \<subseteq> set (concat (map addrs us))"
      by (rule Cons.IH) (use Cons.prems in simp_all)
    moreover have "set (addrs u) \<inter> set (concat (map addrs us)) = {}" "distinct (leaves (flat u))" "set (leaves (flat u)) \<subseteq> set (addrs u)"
      using Cons.prems by simp_all
    ultimately show ?case unfolding list.map concat.simps distinct_append set_append comp_apply by blast
  qed simp
  then show ?case unfolding l by auto
qed simp

lemma leaves_addrs: "shape ord low h t \<Longrightarrow> distinct (addrs t) \<Longrightarrow> distinct (leaves (flat t)) \<and> set (leaves (flat t)) \<subseteq> set (addrs t)"
  using leaves_wide shape_wide by blast

lemma chained_cong: "\<forall>x \<in> set as. next_leaf s' x = next_leaf s x \<Longrightarrow> chained s' as z = chained s as z"
  by (induction as) auto

lemma chained_kept:
  assumes "chained s (leaves xs) z" and "backed s xs" and "leaves_kept s s'"
  shows "chained s' (leaves xs) z"
proof -
  have "next_leaf s' a = next_leaf s a" if "a \<in> set (leaves xs)" for a
  proof -
    obtain es where "Page a es \<in> set xs" using \<open>a \<in> set (leaves xs)\<close> by (auto simp: leaves_def split: item.splits)
    then obtain n where "nodes s a = Some n" "is_leaf n" using assms(2) by (auto simp: backed_def)
    then show ?thesis using leaves_kept_link assms(3) by blast
  qed
  then show ?thesis using assms(1) chained_cong by blast
qed

section \<open>The map a tree stands for\<close>

definition stored :: "store \<Rightarrow> btree \<Rightarrow> int \<Rightarrow> int option" where
  "stored s t key = Option.bind (map_of (entries (flat t)) key) (recs s)"

definition records_ok :: "store \<Rightarrow> (int \<times> addr) list \<Rightarrow> bool" where
  "records_ok s es \<longleftrightarrow> distinct (map snd es) \<and> (\<forall>r \<in> snd ` set es. r \<noteq> 0 \<and> recs s r \<noteq> None)"

definition index_tree :: "store \<Rightarrow> addr \<Rightarrow> btree \<Rightarrow> bool" where
  "index_tree s root t \<longleftrightarrow> ready s \<and> tree_at s root t \<and> distinct (addrs t) \<and> chained s (leaves (flat t)) 0 \<and> records_ok s (entries (flat t))"

definition index_in :: "store \<Rightarrow> addr \<Rightarrow> (int \<Rightarrow> int option) \<Rightarrow> bool" where
  "index_in s root m \<longleftrightarrow> (if root = 0 then ready s \<and> 3 \<le> order s \<and> m = Map.empty else \<exists>t. index_tree s root t \<and> m = stored s t)"

lemma start_new_tree_place:
  assumes "ready s" and "3 \<le> order s" and "r \<noteq> 0"
  shows "\<exists>root s'. start_new_tree key r s = Inr (root, s') \<and> tree_at s' root (Lf root [(key, r)]) \<and>
    chained s' [root] 0 \<and> ready s' \<and> recs s' = recs s"
proof -
  let ?root = "Suc (calls s)"
  let ?n = "(blank True)\<lparr>keys := [0 \<mapsto> key], pointers := [0 \<mapsto> r, order s - 1 \<mapsto> 0], num_keys := 1\<rparr>"
  let ?s = "s\<lparr>nodes := (nodes s)(?root \<mapsto> ?n), calls := calls s + 3\<rparr>"
  have "start_new_tree key r s = Inr (?root, ?s)"
    using assms(2) by (simp add: start_new_tree_def make_leaf_eq [OF assms(1)] on_node_def node_at_def put_node_def
        set_key_def set_ptr_def slot_put_def blank_def)
  moreover have "tree_at ?s ?root (Lf ?root [(key, r)])"
    using assms(2) by (simp add: tree_at_def node_lists_def holds_def ordered_def blank_def)
  moreover have "chained ?s [?root] 0" by (simp add: next_leaf_def)
  moreover have "ready ?s" using assms(1) by (auto simp: ready_def)
  ultimately show ?thesis by (intro exI [of _ ?root] exI [of _ ?s]) simp
qed

text \<open>What insertion of a new key has to establish.\<close>

definition inserted :: "store \<Rightarrow> btree \<Rightarrow> int \<Rightarrow> addr \<Rightarrow> store \<Rightarrow> btree \<Rightarrow> bool" where
  "inserted s t key r s' t' \<longleftrightarrow> tree_at s' (root_of t') t' \<and> distinct (addrs t') \<and> chained s' (leaves (flat t')) 0 \<and> ready s' \<and> recs s' = recs s \<and>
     map_of (entries (flat t')) = (map_of (entries (flat t)))(key \<mapsto> r) \<and>
     (\<exists>i \<le> length (entries (flat t)). entries (flat t') = insert_at i (key, r) (entries (flat t)))"

lemma insert_at_append: "i \<le> length ys \<Longrightarrow> xs @ insert_at i y ys @ zs = insert_at (length xs + i) y (xs @ ys @ zs)"
  by (simp add: insert_at_def)

lemma insertedI:
  assumes "flat t = xs @ Page a es # zs" and "sorted_wrt (<) (map fst es)" and "key \<notin> fst ` set es"
    and "\<forall>x \<in> set (ranks xs). x < 2 * key + 1" and "\<forall>x \<in> set (ranks zs). 2 * key + 1 < x"
    and "entries (flat t') = entries xs @ insert_at (length (takeWhile (\<lambda>k. k < key) (map fst es))) (key, r) es @ entries zs"
    and "tree_at s' (root_of t') t'" and "distinct (addrs t')" and "chained s' (leaves (flat t')) 0" and "ready s'" and "recs s' = recs s"
  shows "inserted s t key r s' t'"
proof -
  let ?i = "length (takeWhile (\<lambda>k. k < key) (map fst es))"
  have i: "?i \<le> length es" using length_takeWhile_le [of "\<lambda>k. k < key" "map fst es"] by simp
  have ents: "entries (flat t) = entries xs @ es @ entries zs" using assms(1) by simp
  have "key \<notin> fst ` set (entries xs)" using entries_ranks [of key xs] assms(4) by blast
  then have "map_of (entries xs) key = None" by (simp add: map_of_eq_None_iff)
  then have "map_of (entries (flat t')) = (map_of (entries (flat t)))(key \<mapsto> r)"
    unfolding assms(6) ents using insert_at_sorted(2) [OF assms(2,3)] by (auto simp: fun_eq_iff map_add_def split: option.splits)
  moreover have "entries (flat t') = insert_at (length (entries xs) + ?i) (key, r) (entries (flat t))"
    unfolding assms(6) ents by (rule insert_at_append [OF i])
  moreover have "length (entries xs) + ?i \<le> length (entries (flat t))" using i ents by simp
  ultimately show ?thesis using assms(7-11) unfolding inserted_def by blast
qed

section \<open>Insertion into the tree\<close>

text \<open>The leaf a key belongs to and what surrounds it.\<close>

definition leaf_place :: "store \<Rightarrow> btree \<Rightarrow> int \<Rightarrow> frame list \<Rightarrow> addr \<Rightarrow> (int \<times> addr) list \<Rightarrow> bool" where
  "leaf_place s t key c a es \<longleftrightarrow> t = plug c (Lf a es) \<and> frames_shape (order s) 0 c \<and> shape (order s) (c \<noteq> []) 0 (Lf a es) \<and>
     (\<forall>x \<in> set (ranks (before_hole c)). x < 2 * key + 1) \<and> (\<forall>x \<in> set (ranks (after_hole c)). 2 * key + 1 < x)"

lemma place_facts:
  assumes "leaf_place s t key c a es" and "tree_at s root t" and "distinct (addrs t)"
  shows "\<exists>n. nodes s a = Some n \<and> a \<noteq> 0 \<and> node_lists n (map fst es) (map snd es) \<and> parent n = top c \<and> is_leaf n" and "frames_in s a c"
    and "flat t = before_hole c @ Page a es # after_hole c" and "sorted_wrt (<) (map fst es)" and "a \<notin> set (around c)"
    and "map_of (entries (flat t)) key = map_of es key"
proof -
  have fs: "frames_shape (order s) 0 c" and t: "t = plug c (Lf a es)" using assms(1) by (simp_all add: leaf_place_def)
  have rep: "frames_in s a c" "represents s (top c) (Lf a es)"
    using assms(2) represents_plug [OF fs] t by (auto simp: tree_at_def)
  then show "frames_in s a c" by simp
  show "\<exists>n. nodes s a = Some n \<and> a \<noteq> 0 \<and> node_lists n (map fst es) (map snd es) \<and> parent n = top c \<and> is_leaf n"
    using rep(2) by (auto split: option.splits)
  show flat: "flat t = before_hole c @ Page a es # after_hole c" using flat_plug [OF fs] t by simp
  have "sorted_wrt (<) (map fst (entries (flat t)))" using assms(2) sorted_entries by (simp add: tree_at_def ordered_def)
  then show "sorted_wrt (<) (map fst es)" by (simp add: flat sorted_wrt_append)
  show "a \<notin> set (around c)" using assms(3) t by (auto simp: plug_distinct)
  show "map_of (entries (flat t)) key = map_of es key"
    using entries_place [of "before_hole c" key "after_hole c" es] assms(1) flat by (simp add: leaf_place_def)
qed

lemma insert_leaf_fits:
  fixes key :: int and r :: addr
  assumes pl: "leaf_place s t key c a es" and t: "tree_at s root t" "distinct (addrs t)" "chained s (leaves (flat t)) 0" "ready s"
    and new: "key \<notin> fst ` set es" and fits: "length es < order s - 1" and n: "nodes s a = Some n"
  shows "\<exists>n' t'. insert_into_leaf (order s) key r n = Inr n' \<and> inserted s t key r (put_node a n' s) t' \<and> root_of t' = root"
proof -
  note f = place_facts [OF pl t(1,2)]
  have nl: "node_lists n (map fst es) (map snd es)" "parent n = top c" "is_leaf n" "a \<noteq> 0" using f(1) n by auto
  let ?i = "length (takeWhile (\<lambda>k. k < key) (map fst es))"
  define es' where "es' = insert_at ?i (key, r) es"
  obtain n' where n': "insert_into_leaf (order s) key r n = Inr n'" "node_lists n' (map fst es') (map snd es')"
    "parent n' = parent n" "is_leaf n' = is_leaf n" "pointers n' (order s - 1) = pointers n (order s - 1)"
    using insert_into_leaf_eq [OF nl(1), of "order s" key r] fits by (auto simp: es'_def)
  let ?s = "put_node a n' s"
  let ?t = "plug c (Lf a es')"
  have fs: "frames_shape (order s) 0 c" and tc: "t = plug c (Lf a es)" and od: "3 \<le> order s" using pl t(1) by (simp_all add: leaf_place_def tree_at_def)
  have o: "order ?s = order s" by (simp add: put_node_def)
  have "frames_in ?s a c" using f(5) f(2) frames_in_cong [of c ?s s a] by (auto simp: put_node_def)
  moreover have "represents ?s (top c) (Lf a es')" using n' nl by (simp add: put_node_def)
  ultimately have rep: "represents ?s 0 ?t" using represents_plug [OF fs] by simp
  have shp: "shape (order s) False (0 + length c) ?t"
    by (rule plug_shape [OF fs]) (use pl fits in \<open>auto simp: leaf_place_def es'_def\<close>)
  have flat: "flat ?t = before_hole c @ Page a es' # after_hole c" using flat_plug [OF fs] by simp
  note ins = insert_at_sorted [OF f(4) new, of r, folded es'_def]
  have "ordered ?t" unfolding ordered_def flat
    by (rule ranks_insert [OF _ _ _ ins(1,3)]) (use t(1) f(3) pl in \<open>simp_all add: tree_at_def ordered_def leaf_place_def\<close>)
  moreover have root: "root_of ?t = root" using t(1) tc by (simp add: tree_at_def root_of_plug split: if_splits)
  ultimately have tree: "tree_at ?s (root_of ?t) ?t" using rep shp od o unfolding tree_at_def by auto
  have "distinct (addrs ?t)" using t(2) tc by (simp add: plug_distinct)
  moreover have "next_leaf ?s x = next_leaf s x" for x using n n'(5) o by (auto simp: next_leaf_def put_node_def split: option.splits)
  then have "chained ?s (leaves (flat ?t)) 0" using t(3) chained_cong [of "leaves (flat t)" ?s s 0] f(3) flat by simp
  moreover have "ready ?s" "recs ?s = recs s" using t(4) n by (auto simp: ready_def put_node_def)
  ultimately have "inserted s t key r ?s ?t"
    using insertedI [OF f(3,4) new, of ?t r ?s s] pl tree flat by (simp add: leaf_place_def es'_def)
  then show ?thesis using n'(1) root by blast
qed

lemma insert_leaf_splits:
  fixes key :: int and r :: addr
  assumes pl: "leaf_place s t key c a es" and t: "tree_at s root t" "distinct (addrs t)" "chained s (leaves (flat t)) 0" "ready s"
    and new: "key \<notin> fst ` set es" and full: "length es = order s - 1"
  shows "\<exists>s' t'. insert_into_leaf_after_splitting root a key r s = Inr (root_of t', s') \<and> inserted s t key r s' t'"
proof -
  note f = place_facts [OF pl t(1,2)]
  obtain n where n: "nodes s a = Some n" "a \<noteq> 0" "node_lists n (map fst es) (map snd es)" "parent n = top c" "is_leaf n" using f(1) by blast
  let ?i = "length (takeWhile (\<lambda>k. k < key) (map fst es))"
  let ?b = "Suc (calls s)"
  let ?A = "leaves (before_hole c)" and ?C = "leaves (after_hole c)"
  define es' where "es' = insert_at ?i (key, r) es"
  define m where "m = cut (order s - 1)"
  have fs: "frames_shape (order s) 0 c" and tc: "t = plug c (Lf a es)" and od: "3 \<le> order s" using pl t(1) by (simp_all add: leaf_place_def tree_at_def)
  have ch: "chained s ?A a" "next_leaf s a = Some (hd (?C @ [0]))" "chained s ?C 0" using t(3) f(3) by (simp_all add: chained_append)
  obtain n1 n2 where sp: "split_leaf a key r s = Inr (fst (es' ! m), ?b, s\<lparr>nodes := (nodes s)(a \<mapsto> n1, ?b \<mapsto> n2), calls := calls s + 5\<rparr>)"
    "node_lists n1 (map fst (take m es')) (map snd (take m es'))" "node_lists n2 (map fst (drop m es')) (map snd (drop m es'))"
    "parent n1 = parent n" "parent n2 = parent n" "is_leaf n1 = is_leaf n" "is_leaf n2"
    "pointers n1 (order s - 1) = Some ?b" "pointers n2 (order s - 1) = Some (hd (?C @ [0]))"
    using split_leaf_eq [OF n(1,3) full od t(4) ch(2), of key r] by (auto simp: es'_def m_def)
  define s1 where "s1 = s\<lparr>nodes := (nodes s)(a \<mapsto> n1, ?b \<mapsto> n2), calls := calls s + 5\<rparr>"
  let ?L = "Lf a (take m es')" and ?R = "Lf ?b (drop m es')"
  have m: "1 \<le> m" "m < order s - 1" "m \<le> order s - 1 + 1 - m" using cut_bounds [of "order s - 1"] od unfolding m_def by linarith+
  have mc: "cut (order s - Suc 0) = m" by (simp add: m_def)
  have len: "length es' = order s" using full od by (simp add: es'_def)
  have below: "x \<noteq> ?b" if "x \<in> set (addrs t)" for x
    using represents_valid [of s 0 t x] t(1,4) that by (force simp: tree_at_def ready_def)
  have addrs: "set (addrs t) = insert a (set (around c))" "distinct (around c)" using tc t(2) by (auto simp: plug_addrs plug_distinct)
  have nodes: "nodes s1 x = nodes s x" if "x \<in> set (around c)" for x using that f(5) below addrs(1) by (auto simp: s1_def)
  have s1: "order s1 = order s" "nodes s1 a = Some n1" "nodes s1 ?b = Some n2" "recs s1 = recs s"
    using below [of a] addrs(1) by (auto simp: s1_def)
  have "frames_in s1 a c" using frames_in_cong [of c s1 s a] nodes f(2) by blast
  moreover have "represents s1 (top c) ?L" using s1(2) sp(2,4,6) n by simp
  ultimately have "represents s1 0 (plug c ?L)" using represents_plug [OF fs] by simp
  moreover have "represents s1 (top c) ?R" using s1(3) sp(3,5,7) n by simp
  moreover have "distinct (addrs (plug c ?L) @ addrs ?R)" using f(5) addrs below by (auto simp: plug_distinct plug_addrs)
  moreover have "shape (order s) True 0 ?L" "shape (order s) True 0 ?R" using m len by (auto simp: mc)
  moreover have "ready s1" using t(4) n(1) by (auto simp: ready_def s1_def intro: le_SucI)
  ultimately have pair: "pair_at s1 c 0 ?L ?R" using fs od by (simp add: pair_at_def s1(1))
  obtain s' t' where up: "insert_into_parent (root_of (plug c ?L)) (root_of ?L) (fst (es' ! m)) (root_of ?R) s1 = Some (Inr (root_of t', s'))"
    "grown s1 s' t' (before_hole c @ flat ?L @ Sep (fst (es' ! m)) # flat ?R @ after_hole c)"
    using insert_into_parent_place [OF pair] by blast
  have "root_of (plug c ?L) = root" using t(1) tc by (simp add: tree_at_def root_of_plug split: if_splits)
  then have run: "insert_into_leaf_after_splitting root a key r s = Inr (root_of t', s')"
    using sp(1) up(1) by (simp add: insert_into_leaf_after_splitting_def s1_def joined_def returns_def)
  have flat: "flat t' = before_hole c @ Page a (take m es') # Sep (fst (es' ! m)) # Page ?b (drop m es') # after_hole c"
    using up(2) by (simp add: grown_def)
  note ins = insert_at_sorted [OF f(4) new, of r, folded es'_def]
  have "sorted_wrt (<) (ranks (before_hole c @ Page a es' # after_hole c))"
    by (rule ranks_insert [OF _ _ _ ins(1,3)]) (use t(1) f(3) pl in \<open>simp_all add: tree_at_def ordered_def leaf_place_def\<close>)
  then have "sorted_wrt (<) (ranks (before_hole c @ Page a (take m es' @ drop m es') # after_hole c))" by simp
  moreover have "take m es' \<noteq> []" "drop m es' \<noteq> []" "hd (drop m es') = es' ! m"
    using m len by (auto simp: hd_drop_conv_nth)
  ultimately have "ordered t'" unfolding ordered_def flat
    using ranks_split [of "before_hole c" a "take m es'" "drop m es'" "after_hole c" ?b] by metis
  then have tree: "tree_at s' (root_of t') t'"
    using up(2) od s1(1) by (simp add: grown_def tree_at_def leaves_kept_def)
  have dl: "distinct (leaves (flat t))" "set (leaves (flat t)) \<subseteq> set (addrs t)"
    using leaves_addrs [of "order s" False _ t] t(1,2) by (auto simp: tree_at_def)
  have links: "next_leaf s1 x = next_leaf s x" if "x \<in> set ?A \<union> set ?C" for x
  proof -
    have "x \<noteq> a" "x \<noteq> ?b" using that dl below f(3) by auto
    then show ?thesis by (simp add: next_leaf_def s1_def split: option.split)
  qed
  have "chained s1 ?A a" "chained s1 ?C 0" using ch links chained_cong by blast+
  moreover have "next_leaf s1 a = Some ?b" "next_leaf s1 ?b = Some (hd (?C @ [0]))" using s1 sp(8,9) by (simp_all add: next_leaf_def)
  ultimately have "chained s1 (leaves (flat t')) 0" by (simp add: flat chained_append)
  moreover have "backed s1 (flat t')"
  proof -
    have bk: "backed s (flat t)" using backed_flat t(1) by (auto simp: tree_at_def)
    have "\<exists>n. nodes s1 x = Some n \<and> is_leaf n \<and> node_lists n (map fst xs) (map snd xs)"
      if "Page x xs \<in> set (before_hole c) \<union> set (after_hole c)" for x xs
    proof -
      have "x \<in> set ?A \<union> set ?C" using that by (force simp: leaves_def)
      then have "x \<noteq> a" "x \<noteq> ?b" using dl below f(3) by auto
      then show ?thesis using bk f(3) that by (auto simp: backed_def s1_def)
    qed
    then show ?thesis using bk f(3) flat s1 sp n m len by (auto simp: backed_def)
  qed
  ultimately have "chained s' (leaves (flat t')) 0" using chained_kept up(2) unfolding grown_def by blast
  moreover have "entries (flat t') = entries (before_hole c) @ es' @ entries (after_hole c)" by (simp add: flat)
  ultimately have "inserted s t key r s' t'"
    using insertedI [OF f(3,4) new, of t' r s' s] pl tree up(2) s1(4) by (simp add: leaf_place_def es'_def grown_def)
  then show ?thesis using run by blast
qed

section \<open>The operations on the map\<close>

lemma find_leaf_at:
  "tree_at s root t \<Longrightarrow> \<exists>c a es. leaf_place s t key c a es \<and> find_leaf root key False s = Inr (a, s)"
  using find_leaf_place [of s root t key] unfolding leaf_place_def by blast

lemma stored_entry:
  assumes "index_tree s root t"
  shows "(case map_of (entries (flat t)) key of None \<Rightarrow> stored s t key = None | Some r \<Rightarrow> r \<noteq> 0 \<and> recs s r \<noteq> None \<and> stored s t key = recs s r)"
  using assms by (auto simp: index_tree_def records_ok_def stored_def split: option.split dest!: map_of_SomeD)

lemma root_nonzero: "index_tree s root t \<Longrightarrow> root \<noteq> 0"
  using represents_nonzero by (auto simp: index_tree_def tree_at_def)

lemma find_key_ok:
  assumes "index_in s root m"
  shows "\<exists>r leaf. find_key root key False s = Inr ((r, leaf), s) \<and> (r = 0 \<longleftrightarrow> m key = None) \<and> (r \<noteq> 0 \<longrightarrow> recs s r = m key)"
proof (cases "root = 0")
  case True
  then show ?thesis using assms by (simp add: index_in_def find_key_def)
next
  case False
  then obtain t where t: "index_tree s root t" "m = stored s t" using assms by (auto simp: index_in_def)
  have "tree_at s root t" using t(1) by (simp add: index_tree_def)
  from find_key_place [OF this] obtain leaf where
    "find_key root key False s = Inr ((case map_of (entries (flat t)) key of None \<Rightarrow> 0 | Some r \<Rightarrow> r, leaf), s)" by blast
  then show ?thesis using stored_entry [OF t(1), of key] t(2)
    by (cases "map_of (entries (flat t)) key") auto
qed

lemma map_of_distinct_values:
  "distinct (map snd es) \<Longrightarrow> map_of es k = Some r \<Longrightarrow> map_of es k' = Some r \<Longrightarrow> k = k'"
  by (induction es) (auto split: if_splits dest!: map_of_SomeD simp: rev_image_eqI)

lemma update_record:
  assumes "index_tree s root t" and "map_of (entries (flat t)) key = Some r"
  shows "index_tree (s\<lparr>recs := (recs s)(r \<mapsto> v)\<rparr>) root t \<and> stored (s\<lparr>recs := (recs s)(r \<mapsto> v)\<rparr>) t = (stored s t)(key \<mapsto> v)"
proof -
  let ?s = "s\<lparr>recs := (recs s)(r \<mapsto> v)\<rparr>"
  have rec: "recs s r \<noteq> None" "distinct (map snd (entries (flat t)))"
    using assms by (auto simp: index_tree_def records_ok_def dest!: map_of_SomeD)
  have "represents ?s 0 t = represents s 0 t" by (rule represents_cong) simp
  then have "tree_at ?s root t" using assms(1) by (simp add: index_tree_def tree_at_def)
  moreover have "chained ?s (leaves (flat t)) 0 = chained s (leaves (flat t)) 0"
    by (rule chained_cong) (simp add: next_leaf_def split: option.split)
  moreover have "ready ?s" using assms(1) rec(1) by (auto simp: index_tree_def ready_def)
  moreover have "records_ok ?s (entries (flat t))" using assms(1) by (simp add: index_tree_def records_ok_def)
  ultimately have "index_tree ?s root t" using assms(1) by (simp add: index_tree_def)
  moreover have "stored ?s t k = ((stored s t)(key \<mapsto> v)) k" for k
  proof (cases "map_of (entries (flat t)) k")
    case None
    then show ?thesis using assms(2) by (auto simp: stored_def)
  next
    case (Some r')
    have "k \<noteq> key \<Longrightarrow> r' \<noteq> r" using map_of_distinct_values [OF rec(2) assms(2), of k] Some by blast
    then show ?thesis using Some assms(2) by (auto simp: stored_def)
  qed
  ultimately show ?thesis by (simp add: fun_eq_iff)
qed

lemma inserted_index:
  assumes "inserted s t key r s' t'" and "records_ok s0 (entries (flat t))" and "recs s = (recs s0)(r \<mapsto> v)" and "recs s0 r = None"
    and "r \<noteq> 0"
  shows "index_tree s' (root_of t') t' \<and> stored s' t' = (stored s0 t)(key \<mapsto> v)"
proof -
  have i: "tree_at s' (root_of t') t'" "distinct (addrs t')" "chained s' (leaves (flat t')) 0" "ready s'" "recs s' = (recs s0)(r \<mapsto> v)"
    "map_of (entries (flat t')) = (map_of (entries (flat t)))(key \<mapsto> r)" using assms(1,3) by (simp_all add: inserted_def)
  obtain j where j: "entries (flat t') = insert_at j (key, r) (entries (flat t))" using assms(1) by (auto simp: inserted_def)
  have old: "x \<noteq> r" if "x \<in> snd ` set (entries (flat t))" for x using that assms(2,4) by (auto simp: records_ok_def)
  then have "records_ok s' (entries (flat t'))"
    using assms(2,5) i(5) by (auto simp: records_ok_def j insert_at_distinct insert_at_set)
  moreover have "stored s' t' k = ((stored s0 t)(key \<mapsto> v)) k" for k
    using old i(5,6) by (auto simp: stored_def dest!: map_of_SomeD split: bind_splits) (force)+
  ultimately show ?thesis using i by (simp add: index_tree_def fun_eq_iff)
qed

lemma make_record_eq:
  "ready s \<Longrightarrow> make_record v s = Inr (Suc (calls s), s\<lparr>recs := (recs s)(Suc (calls s) \<mapsto> v), calls := Suc (calls s)\<rparr>)"
  by (simp add: make_record_def malloc_call_def readyD)

lemma insert_key_ok:
  assumes "index_in s root m"
  shows "\<exists>root' s'. insert_key root key v s = Inr (root', s') \<and> root' \<noteq> 0 \<and> index_in s' root' (m(key \<mapsto> v))"
proof -
  let ?r = "Suc (calls s)"
  let ?s = "s\<lparr>recs := (recs s)(?r \<mapsto> v), calls := ?r\<rparr>"
  have rdy: "ready s" "ready ?s" using assms by (auto simp: index_in_def index_tree_def ready_def le_Suc_eq split: if_splits)
  have fresh: "recs s ?r = None" using rdy(1) by (force simp: ready_def)
  show ?thesis
  proof (cases "root = 0")
    case True
    then have m: "m = Map.empty" "3 \<le> order ?s" using assms by (simp_all add: index_in_def)
    obtain root' s' where st: "start_new_tree key ?r ?s = Inr (root', s')" "tree_at s' root' (Lf root' [(key, ?r)])"
      "chained s' [root'] 0" "ready s'" "recs s' = recs ?s" using start_new_tree_place [OF rdy(2) m(2), of ?r key] by auto
    have "insert_key root key v s = Inr (root', s')"
      using True st(1) make_record_eq [OF rdy(1)] by (simp add: insert_key_def find_key_def)
    moreover have ix: "index_tree s' root' (Lf root' [(key, ?r)])" using st by (simp add: index_tree_def records_ok_def)
    moreover have "stored s' (Lf root' [(key, ?r)]) = m(key \<mapsto> v)" using m st(5) by (auto simp: stored_def fun_eq_iff)
    ultimately show ?thesis using root_nonzero [OF ix] by (auto simp: index_in_def)
  next
    case False
    then obtain t where t: "index_tree s root t" "m = stored s t" using assms by (auto simp: index_in_def)
    have ta: "tree_at s root t" "distinct (addrs t)" "chained s (leaves (flat t)) 0" "records_ok s (entries (flat t))"
      using t(1) by (simp_all add: index_tree_def)
    obtain leaf where fk: "find_key root key False s = Inr ((case map_of (entries (flat t)) key of None \<Rightarrow> 0 | Some r \<Rightarrow> r, leaf), s)"
      using find_key_place [OF ta(1)] by blast
    show ?thesis
    proof (cases "map_of (entries (flat t)) key")
      case (Some r)
      then have "insert_key root key v s = Inr (root, s\<lparr>recs := (recs s)(r \<mapsto> v)\<rparr>)"
        using fk stored_entry [OF t(1), of key] by (auto simp: insert_key_def)
      then show ?thesis using update_record [OF t(1) Some, of v] t(2) False by (auto simp: index_in_def)
    next
      case None
      have "represents ?s 0 t = represents s 0 t" by (rule represents_cong) simp
      then have ts: "tree_at ?s root t" using ta(1) by (simp add: tree_at_def)
      have cs: "chained ?s (leaves (flat t)) 0"
        using ta(3) chained_cong [of "leaves (flat t)" ?s s 0] by (simp add: next_leaf_def split: option.split)
      obtain c a es where pl: "leaf_place ?s t key c a es" "find_leaf root key False ?s = Inr (a, ?s)" using find_leaf_at [OF ts] by blast
      note f = place_facts [OF pl(1) ts ta(2)]
      have new: "key \<notin> fst ` set es" using None f(6) by (simp add: map_of_eq_None_iff)
      obtain n where n: "nodes ?s a = Some n" "num_keys n = length es" using f(1) by (auto simp: node_lists_def)
      have le: "length es \<le> order ?s - 1" using pl(1) by (simp add: leaf_place_def)
      have run: "insert_key root key v s = (if length es < order ?s - 1
          then bindE (on_node a (insert_into_leaf (order ?s) key ?r) ?s) (\<lambda>s4. Inr (root, s4))
          else insert_into_leaf_after_splitting root a key ?r ?s)"
        using fk None False make_record_eq [OF rdy(1)] pl(2) n by (simp add: insert_key_def node_at_def)
      have "\<exists>s' t'. insert_key root key v s = Inr (root_of t', s') \<and> inserted ?s t key ?r s' t'"
      proof (cases "length es < order ?s - 1")
        case True
        obtain n' t' where "insert_into_leaf (order ?s) key ?r n = Inr n'" "inserted ?s t key ?r (put_node a n' ?s) t'" "root_of t' = root"
          using insert_leaf_fits [OF pl(1) ts ta(2) cs rdy(2) new True n(1), of ?r] by blast
        then show ?thesis using run True n(1) by (intro exI [of _ "put_node a n' ?s"] exI [of _ t']) (simp add: on_node_def node_at_def)
      next
        case False
        then have "length es = order ?s - 1" using le by simp
        then show ?thesis using insert_leaf_splits [OF pl(1) ts ta(2) cs rdy(2) new, of ?r] run False by auto
      qed
      then obtain s' t' where s': "insert_key root key v s = Inr (root_of t', s')" "inserted ?s t key ?r s' t'" by blast
      have ix: "index_tree s' (root_of t') t' \<and> stored s' t' = (stored s t)(key \<mapsto> v)"
        by (rule inserted_index [OF s'(2) ta(4) _ fresh]) simp_all
      then show ?thesis using s'(1) root_nonzero t(2) by (auto simp: index_in_def)
    qed
  qed
qed

lemma find_range_ok:
  assumes "index_in s root m" and "root \<noteq> 0" and "nat (b - a + 1) \<le> sz" and "m a \<noteq> None"
  shows "\<exists>found. find_range sz root a b False s = Inr (found, s) \<and> sorted_wrt (<) (map fst found) \<and>
    (\<forall>k v. (\<exists>r. (k, r) \<in> set found \<and> recs s r = Some v) \<longleftrightarrow> a \<le> k \<and> k \<le> b \<and> m k = Some v)"
proof -
  obtain t where t: "index_tree s root t" "m = stored s t" using assms(1,2) by (auto simp: index_in_def)
  have ta: "tree_at s root t" "chained s (leaves (flat t)) 0" "ordered t" using t(1) by (simp_all add: index_tree_def tree_at_def)
  have srt: "sorted_wrt (<) (map fst (entries (flat t)))" using ta(3) sorted_entries by (simp add: ordered_def)
  have "a \<in> fst ` set (entries (flat t))"
    using assms(4) t(2) by (auto simp: stored_def image_iff split: bind_splits dest!: map_of_SomeD) (metis fst_conv)+
  then have run: "find_range sz root a b False s = Inr (in_range a b (entries (flat t)), s)"
    using find_range_place [OF ta(1,2) assms(3)] by blast
  have mo: "map_of (entries (flat t)) k = Some r \<longleftrightarrow> (k, r) \<in> set (entries (flat t))" for k r
    using srt by (intro map_of_eq_Some_iff) (simp add: strict_sorted_iff)
  have "sorted_wrt (<) (map fst (in_range a b (entries (flat t))))"
    using srt by (auto simp: in_range_def sorted_wrt_map intro: sorted_wrt_filter)
  moreover have "(\<exists>r. (k, r) \<in> set (in_range a b (entries (flat t))) \<and> recs s r = Some v) \<longleftrightarrow> a \<le> k \<and> k \<le> b \<and> m k = Some v" for k v
    using mo by (auto simp: in_range_def t(2) stored_def bind_eq_Some_conv)
  ultimately show ?thesis using run by blast
qed

lemma stored_dom:
  assumes "index_tree s root t"
  shows "card (dom (stored s t)) = length (entries (flat t))"
proof -
  have "dom (stored s t) = fst ` set (entries (flat t))"
  proof -
    have "stored s t k \<noteq> None \<longleftrightarrow> map_of (entries (flat t)) k \<noteq> None" for k
      using stored_entry [OF assms, of k] by (auto split: option.splits)
    then show ?thesis by (auto simp: dom_map_of_conv_image_fst [symmetric])
  qed
  moreover have "distinct (map fst (entries (flat t)))"
    using assms sorted_entries [of "flat t"] by (simp add: index_tree_def tree_at_def ordered_def strict_sorted_iff)
  ultimately show ?thesis by (metis distinct_card length_map set_map)
qed

lemma height_ok:
  assumes "index_in s root m" and "root \<noteq> 0"
  shows "\<exists>h. height root s = Inr h \<and> (if h = 0 then 1 else 2 * cut (order s) ^ (h - 1)) \<le> card (dom m)"
proof -
  obtain t where t: "index_tree s root t" "m = stored s t" using assms by (auto simp: index_in_def)
  obtain h where h: "root = root_of t" "represents s 0 t" "shape (order s) False h t" "3 \<le> order s"
    using t(1) by (auto simp: index_tree_def tree_at_def)
  have "height root s = Inr h" using height_loop_shape [OF h(2-4), of 0] h(1) by (simp add: height_def joined_def returns_def)
  then show ?thesis using root_subtree [OF h(3,4)] stored_dom [OF t(1)] t(2) by auto
qed

section \<open>The index as an interface\<close>

text \<open>What the users of an index rely on: insertion never fails and lookup returns what was inserted last.\<close>

locale key_index =
  fixes contents :: "'s \<Rightarrow> (int \<Rightarrow> int option) \<Rightarrow> bool"
    and put :: "int \<Rightarrow> int \<Rightarrow> 's \<Rightarrow> 's res"
    and look :: "int \<Rightarrow> 's \<Rightarrow> int option res"
  assumes put_ok: "contents s m \<Longrightarrow> \<exists>s'. put k v s = Inr s' \<and> contents s' (m(k \<mapsto> v))"
    and look_ok: "contents s m \<Longrightarrow> look k s = Inr (m k)"
begin

fun put_all :: "(int \<times> int) list \<Rightarrow> 's \<Rightarrow> 's res" where
  "put_all [] s = Inr s"
| "put_all ((k, v) # kvs) s = bindE (put k v s) (put_all kvs)"

lemma put_all_ok: "contents s m \<Longrightarrow> \<exists>s'. put_all kvs s = Inr s' \<and> contents s' (m ++ map_of (rev kvs))"
proof (induction kvs arbitrary: s m)
  case (Cons kv kvs)
  obtain k v where kv: "kv = (k, v)" by (cases kv)
  obtain s1 where s1: "put k v s = Inr s1" "contents s1 (m(k \<mapsto> v))" using put_ok [OF Cons.prems] by blast
  have "m ++ map_of (rev (kv # kvs)) = m(k \<mapsto> v) ++ map_of (rev kvs)" by (simp add: kv)
  then show ?case using Cons.IH [OF s1(2)] s1(1) by (simp only: kv put_all.simps bindE_simps)
qed simp

lemma look_after_put_all: "contents s m \<Longrightarrow> bindE (put_all kvs s) (look k) = Inr ((m ++ map_of (rev kvs)) k)"
  using put_all_ok [of s m kvs] look_ok by fastforce

end

text \<open>A root and its store. The value of a key is what its record holds.\<close>

definition tree_put :: "int \<Rightarrow> int \<Rightarrow> addr \<times> store \<Rightarrow> (addr \<times> store) res" where
  "tree_put k v x = insert_key (fst x) k v (snd x)"

definition tree_look :: "int \<Rightarrow> addr \<times> store \<Rightarrow> int option res" where
  "tree_look k x = bindE (find_key (fst x) k False (snd x)) (\<lambda>((r, _), s). if r = 0 then Inr None else Inr (recs s r))"

definition tree_contents :: "addr \<times> store \<Rightarrow> (int \<Rightarrow> int option) \<Rightarrow> bool" where
  "tree_contents x m \<longleftrightarrow> index_in (snd x) (fst x) m"

interpretation bplus: key_index tree_contents tree_put tree_look
proof
  show "\<exists>s'. tree_put k v s = Inr s' \<and> tree_contents s' (m(k \<mapsto> v))" if "tree_contents s m" for s m k v
    using insert_key_ok [of "snd s" "fst s" m k v] that by (auto simp: tree_put_def tree_contents_def)
  show "tree_look k s = Inr (m k)" if "tree_contents s m" for s m k
    using find_key_ok [of "snd s" "fst s" m k] that by (auto simp: tree_look_def tree_contents_def)
qed

lemma empty_index: "ready s \<Longrightarrow> 3 \<le> order s \<Longrightarrow> tree_contents (0, s) Map.empty"
  by (simp add: tree_contents_def index_in_def)

fun tree_put_all :: "(int \<times> int) list \<Rightarrow> addr \<times> store \<Rightarrow> (addr \<times> store) res" where
  "tree_put_all [] x = Inr x"
| "tree_put_all ((k, v) # kvs) x = bindE (tree_put k v x) (tree_put_all kvs)"

lemma tree_put_all_eq: "bplus.put_all = tree_put_all"
proof (intro ext)
  show "bplus.put_all kvs x = tree_put_all kvs x" for kvs x
    by (induction kvs x rule: tree_put_all.induct) (auto simp: bindE_def split: sum.split)
qed

text \<open>
  Starting from the empty tree of \<^verbatim>\<open>bplus_tree.c\<close>, any sequence of insertions succeeds for every
  order of at least 3, and looking up a key afterwards finds the value inserted last under it, or
  nothing if there was no such insertion: the searches, splits and parent links neither fail,
  diverge nor read outside an array. (\<open>tree_put_all\<close> and \<open>tree_look\<close> call \<^verbatim>\<open>insert\<close> and \<^verbatim>\<open>find\<close>.)
\<close>

theorem lookup_after_insertions:
  assumes "\<forall>i. \<not> fails s i" and "nodes s = Map.empty" and "recs s = Map.empty" and "3 \<le> order s"
  shows "bindE (tree_put_all kvs (0, s)) (tree_look k) = Inr (map_of (rev kvs) k)"
proof -
  have "ready s" using assms by (simp add: ready_def)
  then show ?thesis using bplus.look_after_put_all [OF empty_index [OF _ assms(4)], of kvs k] by (simp add: tree_put_all_eq)
qed

section \<open>Properties\<close>

text \<open>A store for demonstrations.\<close>

definition demo :: "nat \<Rightarrow> (int \<times> int) list \<Rightarrow> (addr \<times> store) res" where
  "demo ord kvs = tree_put_all kvs (0, initial\<lparr>order := ord\<rparr>)"

lemma demo_index:
  assumes "3 \<le> ord"
  shows "\<exists>root s. demo ord kvs = Inr (root, s) \<and> index_in s root (map_of (rev kvs))"
proof -
  have "ready (initial\<lparr>order := ord\<rparr>)" by (simp add: ready_def initial_def)
  then have "tree_contents (0, initial\<lparr>order := ord\<rparr>) Map.empty" by (rule empty_index) (use assms in simp)
  from bplus.put_all_ok [OF this, of kvs] show ?thesis by (simp add: demo_def tree_put_all_eq tree_contents_def)
qed

lemma index_root: "index_in s root m \<Longrightarrow> m k \<noteq> None \<Longrightarrow> root \<noteq> 0"
  by (cases "root = 0") (simp_all add: index_in_def)

lemma demo_tree:
  "\<exists>root s. demo 3 [(5, 50), (1, 10), (7, 70), (6, 60)] = Inr (root, s) \<and> root \<noteq> 0 \<and>
    index_in s root (map_of [(6, 60), (7, 70), (1, 10), (5, 50)])"
  using demo_index [of 3 "[(5, 50), (1, 10), (7, 70), (6, 60)]"] index_root [of _ _ "map_of [(6, 60), (7, 70), (1, 10), (5, 50)]" 5] by auto

theorem lookup_after_insertions_witness:
  "bindE (tree_put_all [(5, 50), (1, 10), (5, 51)] (0, initial)) (tree_look 5) = Inr (Some 51)"
  using lookup_after_insertions [of initial "[(5, 50), (1, 10), (5, 51)]" 5] by (simp add: initial_def)

text \<open>
  C2: \<^verbatim>\<open>insert\<close> refines the update of a map: from a store that represents a B+ tree for the map \<open>m\<close>, it
  returns a root whose store represents a B+ tree for \<open>m\<close> with the key set to the value. \<open>index_in\<close>
  contains the whole invariant: parent links, sizes between the least and the largest of every
  node, all leaves at one depth, ordered separators and keys, and the chain of the leaves.
\<close>

theorem insert_key_updates:
  assumes "index_in s root m"
  shows "\<exists>root' s'. insert_key root key v s = Inr (root', s') \<and> root' \<noteq> 0 \<and> index_in s' root' (m(key \<mapsto> v))"
  by (rule insert_key_ok [OF assms])

theorem insert_key_updates_witness:
  "\<exists>root s root' s'. demo 3 [(5, 50), (1, 10), (7, 70), (6, 60)] = Inr (root, s) \<and> insert_key root 8 80 s = Inr (root', s') \<and>
    index_in s' root' (map_of [(8, 80), (6, 60), (7, 70), (1, 10), (5, 50)])"
  using demo_index [of 3 "[(5, 50), (1, 10), (7, 70), (6, 60)]"] insert_key_updates [of _ _ _ 8 80] by fastforce



declare find_leaf_loop.simps [code] insert_into_parent.simps [code] range_loop.simps [code]

text \<open>
  Without a key at the start of the range \<^verbatim>\<open>find_range\<close> can miss entries: in the tree of order 4
  with the keys 1, 2, 5, 6 it finds nothing between 3 and 6.
\<close>

theorem find_range_misses:
  "bindE (demo 4 [(1, 10), (2, 20), (5, 50), (6, 60)]) (\<lambda>(root, s). bindE (find_range 10 root 3 6 False s) (\<lambda>(found, s). Inr (map fst found))) = Inr []"
  by code_simp

text \<open>
  C35: The height of a tree of \<open>n\<close> keys is logarithmic: a tree of height \<open>h > 0\<close>, as \<^verbatim>\<open>height\<close> computes
  it, has at least \<open>2 * cut order ^ (h - 1)\<close> keys.
\<close>

theorem height_logarithmic:
  assumes "index_in s root m" and "root \<noteq> 0"
  shows "\<exists>h. height root s = Inr h \<and> (if h = 0 then 1 else 2 * cut (order s) ^ (h - 1)) \<le> card (dom m)"
  by (rule height_ok [OF assms])

theorem height_logarithmic_witness:
  "\<exists>root s h. demo 3 [(5, 50), (1, 10), (7, 70), (6, 60)] = Inr (root, s) \<and> height root s = Inr h \<and>
    (if h = 0 then 1 else 2 * cut (order s) ^ (h - 1)) \<le> card (dom (map_of [(6, 60 :: int), (7, 70), (1, 10), (5 :: int, 50)]))"
proof -
  obtain root s where d: "demo 3 [(5, 50), (1, 10), (7, 70), (6, 60)] = Inr (root, s)"
    "root \<noteq> 0" "index_in s root (map_of [(6, 60), (7, 70), (1, 10), (5, 50)])" using demo_tree by blast
  then show ?thesis using height_logarithmic [of s root "map_of [(6, 60), (7, 70), (1, 10), (5, 50)]"] by simp
qed

end
