(* ===== verification/Bplus_Merge.thy ===== *)
theory Bplus_Merge
  imports Bplus_Insert
begin

text \<open>
  What deletion does to one node and to two neighbors: removing an entry, merging a node with its
  neighbor, and borrowing an entry from it, in terms of the lists the arrays hold; and what a merge or
  a borrowing below a node makes of the tree.
\<close>

section \<open>Removing an entry from a node\<close>

text \<open>One slot to the left, from number \<open>i + 1\<close> up to number \<open>lim - 1\<close>.\<close>

definition lefted :: "nat \<Rightarrow> nat \<Rightarrow> (nat \<Rightarrow> 'a option) \<Rightarrow> (nat \<Rightarrow> 'a option)" where
  "lefted i lim f = (\<lambda>j. if i \<le> j \<and> Suc j < lim then f (Suc j) else f j)"

lemma lefted_end: "lim \<le> Suc i \<Longrightarrow> lefted i lim f = f"
  by (auto simp: lefted_def fun_eq_iff)

lemma lefted_step: "Suc i < lim \<Longrightarrow> lefted (Suc i) lim (f(i := f (Suc i))) = lefted i lim f"
  by (auto simp: lefted_def fun_eq_iff Suc_le_eq)

lemma holds_lefted: "holds f (xs @ x # ys) \<Longrightarrow> holds (lefted (length xs) (length (xs @ x # ys)) f) (xs @ ys)"
  by (auto simp: holds_def lefted_def nth_append nth_Cons' not_less Suc_diff_le)

lemma holds_set: "holds f xs \<Longrightarrow> i < length xs \<Longrightarrow> holds (f(i \<mapsto> x)) (xs[i := x])"
  by (auto simp: holds_def nth_list_update)

lemma keys_left_eq:
  assumes "holds (keys n) ks" and "length ks \<le> ord - 1"
  shows "keys_left ord (length ks) (Suc i) n = Inr (n\<lparr>keys := lefted i (length ks) (keys n)\<rparr>)"
  using assms
proof (induction "length ks - Suc i" arbitrary: i n ks)
  case 0
  then show ?case by (simp add: keys_left.simps [of _ _ "Suc i"] lefted_end)
next
  case (Suc d)
  then have i: "Suc i < length ks" by simp
  let ?n = "n\<lparr>keys := (keys n)(i \<mapsto> ks ! Suc i)\<rparr>"
  have v: "keys n (Suc i) = Some (ks ! Suc i)" using Suc.prems(1) i by (simp add: holds_def)
  have "keys_left ord (length ks) (Suc i) n = keys_left ord (length ks) (Suc (Suc i)) ?n"
    using i Suc.prems(2) v by (simp add: keys_left.simps [of _ _ "Suc i"] key_at_def set_key_def slot_get_def slot_put_def)
  also have "\<dots> = Inr (?n\<lparr>keys := lefted (Suc i) (length (ks[i := ks ! Suc i])) (keys ?n)\<rparr>)"
    using Suc.hyps(1) [of "ks[i := ks ! Suc i]" "Suc i" ?n] Suc.hyps(2) Suc.prems i holds_set [of "keys n" ks i] by simp
  also have "\<dots> = Inr (n\<lparr>keys := lefted i (length ks) (keys n)\<rparr>)"
    using lefted_step [OF i, of "keys n"] v by simp
  finally show ?case .
qed

lemma ptrs_left_eq:
  assumes "holds (pointers n) ps" and "length ps \<le> ord"
  shows "ptrs_left ord (length ps) (Suc i) n = Inr (n\<lparr>pointers := lefted i (length ps) (pointers n)\<rparr>)"
  using assms
proof (induction "length ps - Suc i" arbitrary: i n ps)
  case 0
  then show ?case by (simp add: ptrs_left.simps [of _ _ "Suc i"] lefted_end)
next
  case (Suc d)
  then have i: "Suc i < length ps" by simp
  let ?n = "n\<lparr>pointers := (pointers n)(i \<mapsto> ps ! Suc i)\<rparr>"
  have v: "pointers n (Suc i) = Some (ps ! Suc i)" using Suc.prems(1) i by (simp add: holds_def)
  have "ptrs_left ord (length ps) (Suc i) n = ptrs_left ord (length ps) (Suc (Suc i)) ?n"
    using i Suc.prems(2) v by (simp add: ptrs_left.simps [of _ _ "Suc i"] ptr_at_def set_ptr_def slot_get_def slot_put_def)
  also have "\<dots> = Inr (?n\<lparr>pointers := lefted (Suc i) (length (ps[i := ps ! Suc i])) (pointers ?n)\<rparr>)"
    using Suc.hyps(1) [of "ps[i := ps ! Suc i]" "Suc i" ?n] Suc.hyps(2) Suc.prems i holds_set [of "pointers n" ps i] by simp
  also have "\<dots> = Inr (n\<lparr>pointers := lefted i (length ps) (pointers n)\<rparr>)"
    using lefted_step [OF i, of "pointers n"] v by simp
  finally show ?case .
qed

lemma scan_while_found:
  assumes "\<And>j. j < length (xs @ x # ys) \<Longrightarrow> get j = Inr ((xs @ x # ys) ! j)" and "x \<notin> set xs" and "length (xs @ x # ys) \<le> sz"
    and "i \<le> length xs"
  shows "scan_while sz get (\<lambda>w. w \<noteq> x) i = Inr (length xs)"
  using assms(4)
proof (induction "length xs - i" arbitrary: i)
  case 0
  then have i: "i = length xs" by simp
  then have "get i = Inr x" using assms(1) [of i] by simp
  then show ?case using i assms(3) by (simp add: scan_while.simps [of _ _ _ "length xs"])
next
  case (Suc d)
  then have "i < length xs" by simp
  then have "get i = Inr (xs ! i)" "xs ! i \<noteq> x" using assms(1) [of i] assms(2) nth_mem by (force simp: nth_append)+
  moreover have "scan_while sz get (\<lambda>w. w \<noteq> x) (Suc i) = Inr (length xs)" using Suc by simp
  ultimately show ?case using \<open>i < length xs\<close> assms(3) by (simp add: scan_while.simps [of _ _ _ i])
qed

lemma scan_for_found:
  assumes "\<And>j. j < length (xs @ x # ys) \<Longrightarrow> get j = Inr ((xs @ x # ys) ! j)" and "x \<notin> set xs" and "length (xs @ x # ys) \<le> sz"
  shows "scan_for sz get x = Inr (length xs)"
  using scan_while_found [OF assms, of 0] assms(3) by (simp add: scan_for_def)

lemma remove_from_leaf:
  assumes "node_lists n (map fst (xs @ (k, r) # ys)) (map snd (xs @ (k, r) # ys))" and "is_leaf n"
    and "k \<notin> fst ` set xs" and "r \<notin> snd ` set xs" and "length (xs @ (k, r) # ys) \<le> ord - 1"
  shows "\<exists>n'. remove_entry_from_node ord k r n = Inr n' \<and> node_lists n' (map fst (xs @ ys)) (map snd (xs @ ys)) \<and>
    parent n' = parent n \<and> is_leaf n' \<and> pointers n' (ord - 1) = pointers n (ord - 1)"
proof -
  let ?es = "xs @ (k, r) # ys"
  have nl: "num_keys n = length ?es" "holds (keys n) (map fst xs @ k # map fst ys)" "holds (pointers n) (map snd xs @ r # map snd ys)"
    using assms(1) by (simp_all add: node_lists_def)
  let ?n1 = "n\<lparr>keys := lefted (length xs) (length ?es) (keys n)\<rparr>"
  let ?n2 = "n\<lparr>keys := lefted (length xs) (length ?es) (keys n), pointers := lefted (length xs) (length ?es) (pointers n),
      num_keys := length (xs @ ys)\<rparr>"
  let ?n3 = "?n2\<lparr>pointers := nulled (length (xs @ ys)) (ord - 1) (pointers ?n2)\<rparr>"
  have "scan_for (ord - 1) (key_at ord n) k = Inr (length (map fst xs))"
    by (rule scan_for_found [of _ _ "map fst ys"]) (use key_at_list [OF nl(2)] assms(3,5) in auto)
  moreover have "keys_left ord (num_keys n) (length xs + 1) n = Inr ?n1"
    using keys_left_eq [OF nl(2), of ord "length xs"] assms(5) nl(1) by simp
  moreover have "scan_for ord (ptr_at ord ?n1) r = Inr (length (map snd xs))"
    by (rule scan_for_found [of _ _ "map snd ys"]) (use ptr_at_list [of ?n1, of "map snd xs @ r # map snd ys" _ ord] nl(3) assms(4,5) in auto)
  moreover have "ptrs_left ord (length ?es) (length xs + 1) ?n1 = Inr (?n1\<lparr>pointers := lefted (length xs) (length ?es) (pointers n)\<rparr>)"
    using ptrs_left_eq [of ?n1 "map snd xs @ r # map snd ys" ord "length xs"] assms(5) nl(3) by simp
  moreover have "null_pointers ord (ord - 1) (length (xs @ ys)) ?n2 = Inr ?n3" by (rule null_pointers_eq) simp
  ultimately have "remove_entry_from_node ord k r n = Inr ?n3"
    using assms(2) nl(1) by (simp add: remove_entry_from_node_def Let_def)
  moreover have "holds (lefted (length xs) (length ?es) (keys n)) (map fst (xs @ ys))"
    "holds (lefted (length xs) (length ?es) (pointers n)) (map snd (xs @ ys))"
    using holds_lefted [OF nl(2)] holds_lefted [OF nl(3)] by simp_all
  then have "node_lists ?n3 (map fst (xs @ ys)) (map snd (xs @ ys))"
    using assms(5) by (auto simp: node_lists_def holds_def nulled_def)
  moreover have "pointers ?n3 (ord - 1) = pointers n (ord - 1)" using assms(5) by (auto simp: nulled_def lefted_def)
  ultimately show ?thesis using assms(2) by (intro exI [of _ ?n3]) simp
qed

lemma remove_from_inner:
  assumes "node_lists n (kl @ k # kr) (pl @ p # pr)" and "\<not> is_leaf n" and "k \<notin> set kl" and "p \<notin> set pl"
    and "length pl = Suc (length kl)" and "length pr = length kr" and "length (kl @ k # kr) \<le> ord - 1"
  shows "\<exists>n'. remove_entry_from_node ord k p n = Inr n' \<and> node_lists n' (kl @ kr) (pl @ pr) \<and>
    parent n' = parent n \<and> \<not> is_leaf n'"
proof -
  have nl: "num_keys n = length (kl @ k # kr)" "holds (keys n) (kl @ k # kr)" "holds (pointers n) (pl @ p # pr)"
    using assms(1) by (simp_all add: node_lists_def)
  have lp: "length (pl @ p # pr) = Suc (num_keys n)" "length (pl @ p # pr) \<le> ord" using assms(5-7) nl(1) by simp_all
  let ?K = "lefted (length kl) (length (kl @ k # kr)) (keys n)" and ?P = "lefted (length pl) (length (pl @ p # pr)) (pointers n)"
  let ?n1 = "n\<lparr>keys := ?K\<rparr>"
  let ?n2 = "n\<lparr>keys := ?K, pointers := ?P, num_keys := length (kl @ kr)\<rparr>"
  let ?n3 = "?n2\<lparr>pointers := nulled (length (kl @ kr) + 1) ord ?P\<rparr>"
  have "scan_for (ord - 1) (key_at ord n) k = Inr (length kl)"
    by (rule scan_for_found [OF key_at_list [OF nl(2)] assms(3,7)]) (use assms(7) in simp_all)
  moreover have "keys_left ord (num_keys n) (length kl + 1) n = Inr ?n1"
    using keys_left_eq [OF nl(2), of ord "length kl"] assms(7) nl(1) by simp
  moreover have "scan_for ord (ptr_at ord ?n1) p = Inr (length pl)"
    by (rule scan_for_found [OF ptr_at_list assms(4) lp(2)]) (use nl(3) lp(2) in simp_all)
  moreover have "ptrs_left ord (Suc (num_keys n)) (length pl + 1) ?n1 = Inr (?n1\<lparr>pointers := ?P\<rparr>)"
    using ptrs_left_eq [of ?n1 "pl @ p # pr" ord "length pl"] lp nl(3) by simp
  moreover have "null_pointers ord ord (length (kl @ kr) + 1) ?n2 = Inr ?n3" using null_pointers_eq [of ord ord _ ?n2] by simp
  ultimately have "remove_entry_from_node ord k p n = Inr ?n3"
    using assms(2) nl(1) by (simp add: remove_entry_from_node_def Let_def)
  moreover have "node_lists ?n3 (kl @ kr) (pl @ pr)"
    using holds_lefted [OF nl(2)] holds_lefted [OF nl(3)] assms(5,6) by (auto simp: node_lists_def holds_def nulled_def)
  ultimately show ?thesis using assms(2) by (intro exI [of _ ?n3]) simp
qed

lemma entries_left_eq:
  assumes "holds (keys n) ks" and "holds (pointers n) ps" and "lim < length ks" and "lim < length ps" and "length ks \<le> ord - 1"
  shows "entries_left ord lim i n = Inr (n\<lparr>keys := lefted i (Suc lim) (keys n), pointers := lefted i (Suc lim) (pointers n)\<rparr>)"
  using assms
proof (induction "lim - i" arbitrary: i n ks ps)
  case 0
  then show ?case by (simp add: entries_left.simps [of _ _ i] lefted_end)
next
  case (Suc d)
  then have i: "i < lim" by simp
  let ?n = "n\<lparr>keys := (keys n)(i \<mapsto> ks ! Suc i), pointers := (pointers n)(i \<mapsto> ps ! Suc i)\<rparr>"
  have v: "keys n (Suc i) = Some (ks ! Suc i)" "pointers n (Suc i) = Some (ps ! Suc i)" using Suc.prems i by (simp_all add: holds_def)
  have so: "Suc i < ord" "Suc i < ord - 1" using i Suc.prems(3,5) by simp_all
  have step: "entries_left ord lim i n = entries_left ord lim (Suc i) ?n"
    using i so Suc.prems v by (simp add: entries_left.simps [of _ _ i] key_at_def ptr_at_def set_key_def set_ptr_def slot_get_def slot_put_def)
  have h: "holds (keys ?n) (ks[i := ks ! Suc i])" "holds (pointers ?n) (ps[i := ps ! Suc i])"
    using holds_set [of "keys n" ks i] holds_set [of "pointers n" ps i] Suc.prems i by simp_all
  have "entries_left ord lim (Suc i) ?n = Inr (?n\<lparr>keys := lefted (Suc i) (Suc lim) (keys ?n), pointers := lefted (Suc i) (Suc lim) (pointers ?n)\<rparr>)"
    by (rule Suc.hyps(1) [OF _ h]) (use Suc.hyps(2) Suc.prems i in simp_all)
  then show ?case unfolding step
    using lefted_step [of i "Suc lim" "keys n"] lefted_step [of i "Suc lim" "pointers n"] i v by simp
qed

section \<open>Merging two nodes\<close>

lemmas memory = read_key_def read_ptr_def write_key_def write_ptr_def more_keys_def fewer_keys_def set_parent_def on_node_def node_at_def
  put_node_def key_at_def ptr_at_def set_key_def set_ptr_def slot_get_def slot_put_def

lemma move_entries_eq:
  assumes "nodes s a = Some na" and "nodes s b = Some nb" and "a \<noteq> b" and "holds (keys na) ks" and "holds (pointers na) ps"
    and "n_end \<le> length ks" and "n_end \<le> length ps" and "length ks \<le> order s - 1" and "j \<le> n_end" and "i + (n_end - j) \<le> order s - 1"
    and "inner \<Longrightarrow> num_keys na = n_end - j"
  shows "\<exists>nb'. move_entries inner a b n_end i j s =
      Inr (s\<lparr>nodes := (nodes s)(a \<mapsto> (if inner then na\<lparr>num_keys := 0\<rparr> else na), b \<mapsto> nb')\<rparr>) \<and>
    num_keys nb' = num_keys nb + (n_end - j) \<and> parent nb' = parent nb \<and> is_leaf nb' = is_leaf nb \<and>
    (\<forall>x. keys nb' x = (if i \<le> x \<and> x < i + (n_end - j) then Some (ks ! (j + x - i)) else keys nb x)) \<and>
    (\<forall>x. pointers nb' x = (if i \<le> x \<and> x < i + (n_end - j) then Some (ps ! (j + x - i)) else pointers nb x))"
  using assms
proof (induction "n_end - j" arbitrary: i j s na nb)
  case 0
  then have [simp]: "j = n_end" by simp
  have "(nodes s)(a \<mapsto> (if inner then na\<lparr>num_keys := 0\<rparr> else na), b \<mapsto> nb) = nodes s"
    using 0 by (auto simp: fun_eq_iff)
  then have "s\<lparr>nodes := (nodes s)(a \<mapsto> (if inner then na\<lparr>num_keys := 0\<rparr> else na), b \<mapsto> nb)\<rparr> = s" by (simp only: store.surjective) simp
  moreover have "move_entries inner a b n_end i j s = Inr s" by (simp add: move_entries.simps [of _ _ _ _ _ n_end])
  ultimately have "move_entries inner a b n_end i j s =
      Inr (s\<lparr>nodes := (nodes s)(a \<mapsto> (if inner then na\<lparr>num_keys := 0\<rparr> else na), b \<mapsto> nb)\<rparr>)" by (simp only:)
  then show ?case by (intro exI [of _ nb] conjI) (assumption, auto)
next
  case (Suc d)
  then have j: "j < n_end" by simp
  let ?na = "if inner then na\<lparr>num_keys := num_keys na - 1\<rparr> else na"
  let ?nb = "nb\<lparr>keys := (keys nb)(i \<mapsto> ks ! j), pointers := (pointers nb)(i \<mapsto> ps ! j), num_keys := num_keys nb + 1\<rparr>"
  let ?s = "s\<lparr>nodes := (nodes s)(b \<mapsto> ?nb, a \<mapsto> ?na)\<rparr>"
  have v: "keys na j = Some (ks ! j)" "pointers na j = Some (ps ! j)" using Suc.prems j by (simp_all add: holds_def)
  have b: "j < order s - 1" "j < order s" "i < order s - 1" "i < order s" using j Suc.prems by simp_all
  have nk: "inner \<Longrightarrow> num_keys na \<noteq> 0" using Suc.prems(11) j by simp
  have "(nodes s)(b \<mapsto> ?nb, a \<mapsto> na) = (nodes s)(b \<mapsto> ?nb)" using Suc.prems(1,3) by (auto simp: fun_eq_iff)
  then have step: "move_entries inner a b n_end i j s = move_entries inner a b n_end (Suc i) (Suc j) ?s"
    using j v b nk Suc.prems(1-3) by (cases inner) (simp_all add: move_entries.simps [of _ _ _ _ _ j] memory)
  have h: "d = n_end - Suc j" "nodes ?s a = Some ?na" "nodes ?s b = Some ?nb" "holds (keys ?na) ks" "holds (pointers ?na) ps"
    "length ks \<le> order ?s - 1" "Suc j \<le> n_end" "Suc i + (n_end - Suc j) \<le> order ?s - 1"
    "inner \<Longrightarrow> num_keys ?na = n_end - Suc j"
    using Suc.hyps(2) Suc.prems j by simp_all
  obtain nb' where nb': "move_entries inner a b n_end (Suc i) (Suc j) ?s =
      Inr (?s\<lparr>nodes := (nodes ?s)(a \<mapsto> (if inner then ?na\<lparr>num_keys := 0\<rparr> else ?na), b \<mapsto> nb')\<rparr>)"
    "num_keys nb' = num_keys ?nb + (n_end - Suc j)" "parent nb' = parent ?nb" "is_leaf nb' = is_leaf ?nb"
    "\<forall>x. keys nb' x = (if Suc i \<le> x \<and> x < Suc i + (n_end - Suc j) then Some (ks ! (Suc j + x - Suc i)) else keys ?nb x)"
    "\<forall>x. pointers nb' x = (if Suc i \<le> x \<and> x < Suc i + (n_end - Suc j) then Some (ps ! (Suc j + x - Suc i)) else pointers ?nb x)"
    using Suc.hyps(1) [OF h(1-3) Suc.prems(3) h(4,5) Suc.prems(6,7) h(6-9)] by blast
  have "(nodes ?s)(a \<mapsto> (if inner then ?na\<lparr>num_keys := 0\<rparr> else ?na), b \<mapsto> nb') =
      (nodes s)(a \<mapsto> (if inner then na\<lparr>num_keys := 0\<rparr> else na), b \<mapsto> nb')"
    using Suc.prems(3) by (auto simp: fun_eq_iff)
  then show ?case unfolding step nb'(1) using nb'(2-6) j
    by (intro exI [of _ nb']) (auto simp: less_Suc_eq_le not_less)
qed

lemma merge_leaves:
  assumes "(if idx = - 1 then (x, y) else (y, x)) = (n, b)" and "nodes s n = Some nd" and "nodes s b = Some nb" and "n \<noteq> b"
    and "is_leaf nd" and "node_lists nb (map fst es1) (map snd es1)" and "node_lists nd (map fst es2) (map snd es2)"
    and "length es1 + length es2 \<le> order s - 1" and "next_leaf s n = Some z" and "3 \<le> order s"
  shows "\<exists>nb'. merge_nodes y x idx k s = Inr (n, s\<lparr>nodes := (nodes s)(b \<mapsto> nb')\<rparr>) \<and>
    node_lists nb' (map fst (es1 @ es2)) (map snd (es1 @ es2)) \<and> parent nb' = parent nb \<and> is_leaf nb' = is_leaf nb \<and>
    pointers nb' (order s - 1) = Some z"
proof -
  have nl: "num_keys nb = length es1" "num_keys nd = length es2" "holds (keys nd) (map fst es2)" "holds (pointers nd) (map snd es2)"
    using assms(6,7) by (simp_all add: node_lists_def)
  have sz: "length es1 + length es2 \<le> order s - 1" "length (map fst es2) \<le> order s - 1" "length es2 \<le> length (map fst es2)"
    "length es2 \<le> length (map snd es2)" "length es1 + (length es2 - 0) \<le> order s - 1" using assms(8) by simp_all
  obtain nb1 where nb1: "move_entries False n b (length es2) (length es1) 0 s = Inr (s\<lparr>nodes := (nodes s)(n \<mapsto> nd, b \<mapsto> nb1)\<rparr>)"
    "num_keys nb1 = num_keys nb + length es2" "parent nb1 = parent nb" "is_leaf nb1 = is_leaf nb"
    "\<forall>x. keys nb1 x = (if length es1 \<le> x \<and> x < length es1 + length es2 then Some (map fst es2 ! (x - length es1)) else keys nb x)"
    "\<forall>x. pointers nb1 x = (if length es1 \<le> x \<and> x < length es1 + length es2 then Some (map snd es2 ! (x - length es1)) else pointers nb x)"
    using move_entries_eq [OF assms(2-4) nl(3,4) sz(3,4,2) _ sz(5), of False] by auto
  let ?nb = "nb1\<lparr>pointers := (pointers nb1)(order s - 1 \<mapsto> z)\<rparr>"
  have same: "(nodes s)(n \<mapsto> nd, b \<mapsto> ?nb) = (nodes s)(b \<mapsto> ?nb)" using assms(2) by (auto simp: fun_eq_iff)
  have z: "pointers nd (order s - 1) = Some z" using assms(2,9) by (simp add: next_leaf_def)
  have "merge_nodes y x idx k s = Inr (n, s\<lparr>nodes := (nodes s)(n \<mapsto> nd, b \<mapsto> ?nb)\<rparr>)"
    using assms(1-5,10) nl(1,2) nb1(1) z by (simp add: merge_nodes_def Let_def memory split_beta)
  moreover have "node_lists ?nb (map fst (es1 @ es2)) (map snd (es1 @ es2))"
    using nb1(2,5,6) nl(1) assms(6,8) by (auto simp: node_lists_def holds_def nth_append not_less)
  ultimately show ?thesis using nb1(3,4) same by (intro exI [of _ ?nb]) simp
qed

lemma merge_inner:
  assumes "(if idx = - 1 then (x, y) else (y, x)) = (n, b)" and "nodes s n = Some nd" and "nodes s b = Some nb" and "n \<noteq> b"
    and "\<not> is_leaf nd" and "node_lists nb kb pb" and "node_lists nd kn pn" and "length pb = Suc (length kb)" and "length pn = Suc (length kn)"
    and "length kb + length kn < order s - 1" and "b \<notin> set (pb @ pn)" and "\<forall>p \<in> set (pb @ pn). nodes s p \<noteq> None"
  shows "\<exists>nb' nd'. merge_nodes y x idx k s = Inr (n, s\<lparr>nodes := adopted b (pb @ pn) ((nodes s)(n \<mapsto> nd', b \<mapsto> nb'))\<rparr>) \<and>
    node_lists nb' (kb @ k # kn) (pb @ pn) \<and> parent nb' = parent nb \<and> is_leaf nb' = is_leaf nb \<and> parent nd' = parent nd"
proof -
  have nl: "num_keys nb = length kb" "num_keys nd = length kn" "holds (keys nd) kn" "holds (pointers nd) pn"
    "holds (keys nb) kb" "holds (pointers nb) pb"
    using assms(6,7) by (simp_all add: node_lists_def)
  let ?b1 = "nb\<lparr>keys := (keys nb)(length kb \<mapsto> k), num_keys := Suc (length kb)\<rparr>"
  let ?s2 = "s\<lparr>nodes := (nodes s)(b \<mapsto> ?b1)\<rparr>"
  let ?nd = "nd\<lparr>num_keys := 0\<rparr>"
  have h: "nodes ?s2 n = Some nd" "nodes ?s2 b = Some ?b1" "length kn \<le> length kn" "length kn \<le> length pn" "length kn \<le> order ?s2 - 1"
    "Suc (length kb) + (length kn - 0) \<le> order ?s2 - 1" "num_keys nd = length kn - 0"
    using assms(2,4,9,10) nl(2) by simp_all
  obtain b2 where b2: "move_entries True n b (length kn) (Suc (length kb)) 0 ?s2 =
      Inr (?s2\<lparr>nodes := (nodes ?s2)(n \<mapsto> ?nd, b \<mapsto> b2)\<rparr>)"
    "num_keys b2 = Suc (length kb) + length kn" "parent b2 = parent nb" "is_leaf b2 = is_leaf nb"
    "\<forall>x. keys b2 x = (if Suc (length kb) \<le> x \<and> x < Suc (length kb) + length kn then Some (kn ! (x - Suc (length kb))) else keys ?b1 x)"
    "\<forall>x. pointers b2 x = (if Suc (length kb) \<le> x \<and> x < Suc (length kb) + length kn then Some (pn ! (x - Suc (length kb))) else pointers nb x)"
    using move_entries_eq [OF h(1,2) assms(4) nl(3,4) h(3-5) _ h(6), of True] h(7) by auto
  let ?b3 = "b2\<lparr>pointers := (pointers b2)(Suc (length kb) + length kn \<mapsto> pn ! length kn)\<rparr>"
  let ?s4 = "s\<lparr>nodes := (nodes s)(n \<mapsto> ?nd, b \<mapsto> ?b3)\<rparr>"
  have s3: "(nodes ?s2)(n \<mapsto> ?nd, b \<mapsto> b2) = (nodes s)(n \<mapsto> ?nd, b \<mapsto> b2)" using assms(4) by (auto simp: fun_eq_iff)
  have last: "pointers nd (length kn) = Some (pn ! length kn)" using nl(4) assms(9) by (simp add: holds_def)
  have "node_lists ?b3 (kb @ k # kn) (pb @ pn)"
    using b2(2,5,6) nl assms(8,9) by (auto simp: node_lists_def holds_def nth_append nth_Cons' not_less less_Suc_eq_le Suc_le_eq not_le le_less_Suc_eq)
  moreover have "adopt b (num_keys ?b3 + 1) 0 ?s4 = Inr (?s4\<lparr>nodes := adopted b (pb @ pn) (nodes ?s4)\<rparr>)"
  proof -
    have "num_keys ?b3 + 1 = length (pb @ pn)" using b2(2) assms(8,9) by simp
    moreover have "adopt b (length (pb @ pn)) 0 ?s4 = Inr (?s4\<lparr>nodes := adopted b (pb @ pn) (nodes ?s4)\<rparr>)"
      by (rule adopt_list [of _ _ ?b3]) (use calculation \<open>node_lists ?b3 _ _\<close> assms(8-12) in \<open>auto simp: node_lists_def\<close>)
    ultimately show ?thesis by (simp only:)
  qed
  ultimately show ?thesis
    using assms(1-5,10) nl(1,2) b2(1-4) s3 last
    by (intro exI [of _ ?b3] exI [of _ ?nd]) (simp add: merge_nodes_def Let_def memory split_beta)
qed

section \<open>Borrowing from a neighbor\<close>

lemma holds_shifted0: "holds f xs \<Longrightarrow> holds ((shifted 0 (length xs) f)(0 \<mapsto> x)) (x # xs)"
  using holds_shifted [of f xs 0 x] by (simp add: insert_at_def)

lemma holds_prefix: "holds f (xs @ ys) \<Longrightarrow> holds f xs"
  by (simp add: holds_def nth_append)

lemma holds_upd_beyond: "holds f xs \<Longrightarrow> length xs \<le> i \<Longrightarrow> holds (f(i := v)) xs"
  by (simp add: holds_def)

lemma nodes_cong: "N = N' \<Longrightarrow> s\<lparr>nodes := N\<rparr> = s\<lparr>nodes := N'\<rparr>"
  by simp

lemma borrow_left_leaf:
  assumes "nodes s n = Some nd" and "nodes s b = Some nb" and "nodes s (parent nd) = Some np" and "distinct [n, b, parent nd]"
    and "is_leaf nd" and "node_lists nb (map fst (es1 @ [e])) (map snd (es1 @ [e]))" and "node_lists nd (map fst es2) (map snd es2)"
    and "length es1 < order s - 1" and "length es2 < order s - 1" and "idx \<noteq> - 1" and "i < order s - 1"
  shows "\<exists>nd' nb'. redistribute_nodes root n b idx i k s = Inr (root, s\<lparr>nodes := (nodes s)
      (n \<mapsto> nd', b \<mapsto> nb', parent nd \<mapsto> np\<lparr>keys := (keys np)(i \<mapsto> fst e)\<rparr>)\<rparr>) \<and>
    node_lists nd' (map fst (e # es2)) (map snd (e # es2)) \<and> node_lists nb' (map fst es1) (map snd es1) \<and>
    parent nd' = parent nd \<and> parent nb' = parent nb \<and> is_leaf nd' \<and> is_leaf nb' = is_leaf nb \<and>
    pointers nd' (order s - 1) = pointers nd (order s - 1) \<and> pointers nb' (order s - 1) = pointers nb (order s - 1)"
proof -
  have nl: "num_keys nb = Suc (length es1)" "num_keys nd = length es2" "holds (keys nd) (map fst es2)" "holds (pointers nd) (map snd es2)"
    "holds (keys nb) (map fst es1)" "holds (pointers nb) (map snd es1)" "keys nb (length es1) = Some (fst e)" "pointers nb (length es1) = Some (snd e)"
    using assms(6,7) by (auto simp: node_lists_def holds_def nth_append less_Suc_eq split: if_splits)
  have sh: "leaf_shift (order s) 0 (length es2) nd =
      Inr (nd\<lparr>keys := shifted 0 (length es2) (keys nd), pointers := shifted 0 (length es2) (pointers nd)\<rparr>)"
    by (rule leaf_shift_eq [OF nl(3,4)]) (use assms(9) in simp_all)
  let ?nd = "nd\<lparr>keys := (shifted 0 (length es2) (keys nd))(0 \<mapsto> fst e), pointers := (shifted 0 (length es2) (pointers nd))(0 \<mapsto> snd e),
      num_keys := Suc (length es2)\<rparr>"
  let ?nb = "nb\<lparr>pointers := (pointers nb)(length es1 \<mapsto> 0), num_keys := length es1\<rparr>"
  let ?np = "np\<lparr>keys := (keys np)(i \<mapsto> fst e)\<rparr>"
  have o: "0 < order s" "length es1 < order s" using assms(8) by simp_all
  have "\<exists>N. redistribute_nodes root n b idx i k s = Inr (root, s\<lparr>nodes := N\<rparr>) \<and>
      N = (nodes s)(n \<mapsto> ?nd, b \<mapsto> ?nb, parent nd \<mapsto> ?np)"
    using assms(1-5,8-11) nl(1,2,7,8) sh o by (auto simp: redistribute_nodes_def borrow_left_def Let_def memory fun_eq_iff)
  then have "redistribute_nodes root n b idx i k s = Inr (root, s\<lparr>nodes := (nodes s)(n \<mapsto> ?nd, b \<mapsto> ?nb, parent nd \<mapsto> ?np)\<rparr>)" by blast
  moreover have "node_lists ?nd (map fst (e # es2)) (map snd (e # es2))"
    using holds_shifted0 [OF nl(3), of "fst e"] holds_shifted0 [OF nl(4), of "snd e"] by (simp add: node_lists_def)
  moreover have "node_lists ?nb (map fst es1) (map snd es1)"
    using nl(5,6) holds_upd_beyond [OF nl(6), of "length es1"] by (simp add: node_lists_def)
  moreover have "pointers ?nd (order s - 1) = pointers nd (order s - 1)" "pointers ?nb (order s - 1) = pointers nb (order s - 1)"
    using assms(8,9) by (auto simp: shifted_def)
  ultimately show ?thesis using assms(5) by (intro exI [of _ ?nd] exI [of _ ?nb]) simp
qed

lemma borrow_right_leaf:
  assumes "nodes s n = Some nd" and "nodes s b = Some nb" and "nodes s (parent nd) = Some np" and "distinct [n, b, parent nd]"
    and "is_leaf nd" and "node_lists nd (map fst es1) (map snd es1)" and "node_lists nb (map fst (e # f # es2)) (map snd (e # f # es2))"
    and "length es1 < order s - 1" and "length (e # f # es2) \<le> order s - 1" and "i < order s - 1"
  shows "\<exists>nd' nb'. redistribute_nodes root n b (- 1) i k s = Inr (root, s\<lparr>nodes := (nodes s)
      (n \<mapsto> nd', b \<mapsto> nb', parent nd \<mapsto> np\<lparr>keys := (keys np)(i \<mapsto> fst f)\<rparr>)\<rparr>) \<and>
    node_lists nd' (map fst (es1 @ [e])) (map snd (es1 @ [e])) \<and> node_lists nb' (map fst (f # es2)) (map snd (f # es2)) \<and>
    parent nd' = parent nd \<and> parent nb' = parent nb \<and> is_leaf nd' \<and> is_leaf nb' = is_leaf nb \<and>
    pointers nd' (order s - 1) = pointers nd (order s - 1) \<and> pointers nb' (order s - 1) = pointers nb (order s - 1)"
proof -
  let ?bk = "Suc (Suc (length es2))"
  have nl: "num_keys nd = length es1" "num_keys nb = ?bk" "holds (keys nd) (map fst es1)" "holds (pointers nd) (map snd es1)"
    "holds (keys nb) (map fst (e # f # es2))" "holds (pointers nb) (map snd (e # f # es2))"
    using assms(6,7) by (simp_all add: node_lists_def)
  have v: "keys nb 0 = Some (fst e)" "pointers nb 0 = Some (snd e)" "keys nb (Suc 0) = Some (fst f)"
    using nl(5,6) by (auto simp: holds_def nth_Cons' dest: spec [of _ 0] spec [of _ 1])
  have el: "entries_left (order s) (Suc (length es2)) 0 nb = Inr (nb\<lparr>keys := lefted 0 ?bk (keys nb), pointers := lefted 0 ?bk (pointers nb)\<rparr>)"
    by (rule entries_left_eq [OF nl(5,6)]) (use assms(9) in simp_all)
  let ?nd = "nd\<lparr>keys := (keys nd)(length es1 \<mapsto> fst e), pointers := (pointers nd)(length es1 \<mapsto> snd e), num_keys := Suc (length es1)\<rparr>"
  let ?nb = "nb\<lparr>keys := lefted 0 ?bk (keys nb), pointers := lefted 0 ?bk (pointers nb), num_keys := Suc (length es2)\<rparr>"
  let ?np = "np\<lparr>keys := (keys np)(i \<mapsto> fst f)\<rparr>"
  have o: "0 < order s - 1" "Suc 0 < order s - 1" "0 < order s" "length es1 < order s" using assms(9,8) by simp_all
  have "\<exists>N. redistribute_nodes root n b (- 1) i k s = Inr (root, s\<lparr>nodes := N\<rparr>) \<and>
      N = (nodes s)(n \<mapsto> ?nd, b \<mapsto> ?nb, parent nd \<mapsto> ?np)"
    using assms(1-5,8,10) nl(1,2) v el o by (auto simp: redistribute_nodes_def borrow_right_def Let_def memory fun_eq_iff)
  then have "redistribute_nodes root n b (- 1) i k s = Inr (root, s\<lparr>nodes := (nodes s)(n \<mapsto> ?nd, b \<mapsto> ?nb, parent nd \<mapsto> ?np)\<rparr>)" by blast
  moreover have "node_lists ?nd (map fst (es1 @ [e])) (map snd (es1 @ [e]))"
    using holds_snoc [OF nl(3), of "fst e"] holds_snoc [OF nl(4), of "snd e"] by (simp add: node_lists_def)
  moreover have "node_lists ?nb (map fst (f # es2)) (map snd (f # es2))"
    using holds_lefted [of "keys nb" "[]" "fst e" "map fst (f # es2)"] holds_lefted [of "pointers nb" "[]" "snd e" "map snd (f # es2)"] nl(5,6)
    by (simp add: node_lists_def)
  moreover have "pointers ?nd (order s - 1) = pointers nd (order s - 1)" "pointers ?nb (order s - 1) = pointers nb (order s - 1)"
    using assms(8,9) by (auto simp: lefted_def)
  ultimately show ?thesis using assms(5) by (intro exI [of _ ?nd] exI [of _ ?nb]) simp
qed

lemma borrow_left_inner:
  assumes "nodes s n = Some nd" and "nodes s b = Some nb" and "nodes s (parent nd) = Some np" and "nodes s q = Some nq"
    and "distinct [n, b, parent nd, q]"
    and "\<not> is_leaf nd" and "node_lists nb (kb @ [kk]) (pb @ [q])" and "node_lists nd kn pn"
    and "length pb = Suc (length kb)" and "length pn = Suc (length kn)"
    and "length kb < order s - 1" and "length kn < order s - 1" and "idx \<noteq> - 1" and "i < order s - 1"
  shows "\<exists>nd' nb'. redistribute_nodes root n b idx i k s = Inr (root, s\<lparr>nodes := adopted n [q] ((nodes s)
      (n \<mapsto> nd', b \<mapsto> nb', parent nd \<mapsto> np\<lparr>keys := (keys np)(i \<mapsto> kk)\<rparr>))\<rparr>) \<and>
    node_lists nd' (k # kn) (q # pn) \<and> node_lists nb' kb pb \<and>
    parent nd' = parent nd \<and> parent nb' = parent nb \<and> \<not> is_leaf nd' \<and> is_leaf nb' = is_leaf nb"
proof -
  have nl: "num_keys nb = Suc (length kb)" "num_keys nd = length kn" "holds (keys nd) kn" "holds (pointers nd) pn"
    "holds (keys nb) (kb @ [kk])" "holds (pointers nb) (pb @ [q])" using assms(7,8) by (simp_all add: node_lists_def)
  have v: "keys nb (length kb) = Some kk" "pointers nb (Suc (length kb)) = Some q" "pointers nd (length kn) = Some (pn ! length kn)"
    using nl(4-6) assms(9,10) by (auto simp: holds_def nth_append)
  let ?P1 = "(pointers nd)(Suc (length kn) \<mapsto> pn ! length kn)"
  have sh: "leaf_shift (order s) 0 (length kn) (nd\<lparr>pointers := ?P1\<rparr>) =
      Inr (nd\<lparr>keys := shifted 0 (length kn) (keys nd), pointers := shifted 0 (length kn) ?P1\<rparr>)"
    using leaf_shift_eq [of "nd\<lparr>pointers := ?P1\<rparr>" kn pn "length kn" "order s" 0] nl(3) holds_upd_beyond [OF nl(4), of "Suc (length kn)"]
      assms(10,12) by simp
  let ?nd = "nd\<lparr>keys := (shifted 0 (length kn) (keys nd))(0 \<mapsto> k), pointers := (shifted 0 (length kn) ?P1)(0 \<mapsto> q), num_keys := Suc (length kn)\<rparr>"
  let ?nb = "nb\<lparr>pointers := (pointers nb)(Suc (length kb) \<mapsto> 0), num_keys := length kb\<rparr>"
  let ?np = "np\<lparr>keys := (keys np)(i \<mapsto> kk)\<rparr>"
  have o: "0 < order s" "Suc (length kb) < order s" "Suc (length kn) < order s" "length kn < order s" "0 < order s - 1"
    using assms(11,12) by simp_all
  have "redistribute_nodes root n b idx i k s =
      Inr (root, s\<lparr>nodes := adopted n [q] ((nodes s)(n \<mapsto> ?nd, b \<mapsto> ?nb, parent nd \<mapsto> ?np))\<rparr>)"
    using assms(1-6,11-14) nl(1,2) v sh o
    by (simp add: redistribute_nodes_def borrow_left_def Let_def memory) (rule nodes_cong, rule ext, simp add: adopted_def)
  moreover have "holds ((shifted 0 (length kn) ?P1)(0 \<mapsto> q)) (q # pn)"
    using nl(4) assms(10) by (auto simp: holds_def shifted_def nth_Cons' less_Suc_eq)
  then have "node_lists ?nd (k # kn) (q # pn)"
    using holds_shifted0 [OF nl(3), of k] by (simp add: node_lists_def)
  moreover have "node_lists ?nb kb pb"
    using holds_prefix [OF nl(5)] holds_upd_beyond [OF holds_prefix [OF nl(6)], of "Suc (length kb)"] assms(9) by (simp add: node_lists_def)
  ultimately show ?thesis using assms(6) by (intro exI [of _ ?nd] exI [of _ ?nb]) simp
qed

lemma borrow_right_inner:
  assumes "nodes s n = Some nd" and "nodes s b = Some nb" and "nodes s (parent nd) = Some np" and "nodes s q = Some nq"
    and "distinct [n, b, parent nd, q]"
    and "\<not> is_leaf nd" and "node_lists nd kn pn" and "node_lists nb (kk # kb) (q # pb)"
    and "length pb = Suc (length kb)" and "length pn = Suc (length kn)"
    and "length kb < order s - 1" and "length kn < order s - 1" and "i < order s - 1"
  shows "\<exists>nd' nb'. redistribute_nodes root n b (- 1) i k s = Inr (root, s\<lparr>nodes := adopted n [q] ((nodes s)
      (n \<mapsto> nd', b \<mapsto> nb', parent nd \<mapsto> np\<lparr>keys := (keys np)(i \<mapsto> kk)\<rparr>))\<rparr>) \<and>
    node_lists nd' (kn @ [k]) (pn @ [q]) \<and> node_lists nb' kb pb \<and>
    parent nd' = parent nd \<and> parent nb' = parent nb \<and> \<not> is_leaf nd' \<and> is_leaf nb' = is_leaf nb"
proof -
  let ?bk = "Suc (length kb)"
  have nl: "num_keys nd = length kn" "num_keys nb = ?bk" "holds (keys nd) kn" "holds (pointers nd) pn"
    "holds (keys nb) (kk # kb)" "holds (pointers nb) (q # pb)" using assms(7,8) by (simp_all add: node_lists_def)
  have v: "keys nb 0 = Some kk" "pointers nb 0 = Some q" "pointers nb ?bk = Some (pb ! length kb)"
    using nl(5,6) assms(9) by (auto simp: holds_def nth_Cons' dest: spec [of _ 0] spec [of _ ?bk])
  have el: "entries_left (order s) (length kb) 0 nb = Inr (nb\<lparr>keys := lefted 0 ?bk (keys nb), pointers := lefted 0 ?bk (pointers nb)\<rparr>)"
    by (rule entries_left_eq [OF nl(5,6)]) (use assms(9,11) in simp_all)
  have v2: "lefted 0 ?bk (pointers nb) ?bk = Some (pb ! length kb)" using v(3) by (simp add: lefted_def)
  let ?P = "(lefted 0 ?bk (pointers nb))(length kb \<mapsto> pb ! length kb)"
  let ?nd = "nd\<lparr>keys := (keys nd)(length kn \<mapsto> k), pointers := (pointers nd)(Suc (length kn) \<mapsto> q), num_keys := Suc (length kn)\<rparr>"
  let ?nb = "nb\<lparr>keys := lefted 0 ?bk (keys nb), pointers := ?P, num_keys := length kb\<rparr>"
  let ?np = "np\<lparr>keys := (keys np)(i \<mapsto> kk)\<rparr>"
  have o: "0 < order s" "Suc (length kn) < order s" "?bk < order s" "length kb < order s" "0 < order s - 1"
    using assms(11,12) by simp_all
  have "redistribute_nodes root n b (- 1) i k s =
      Inr (root, s\<lparr>nodes := adopted n [q] ((nodes s)(n \<mapsto> ?nd, b \<mapsto> ?nb, parent nd \<mapsto> ?np))\<rparr>)"
    using assms(1-6,11-13) nl(1,2) v v2 el o
    by (simp add: redistribute_nodes_def borrow_right_def Let_def memory) (rule nodes_cong, rule ext, simp add: adopted_def)
  moreover have "node_lists ?nd (kn @ [k]) (pn @ [q])"
    using holds_snoc [OF nl(3), of k] holds_snoc [OF nl(4), of q] assms(10) by (simp add: node_lists_def)
  moreover have "holds ?P pb"
    unfolding holds_def
  proof (intro allI impI)
    fix j assume j: "j < length pb"
    show "?P j = Some (pb ! j)"
    proof (cases "j = length kb")
      case False
      then have "Suc j < ?bk" using j assms(9) by simp
      then show ?thesis using holdsD [OF nl(6), of "Suc j"] j by (simp add: lefted_def)
    qed simp
  qed
  then have "node_lists ?nb kb pb"
    using holds_lefted [of "keys nb" "[]" kk kb] nl(5) by (simp add: node_lists_def)
  ultimately show ?thesis using assms(6) by (intro exI [of _ ?nd] exI [of _ ?nb]) simp
qed

section \<open>A node and its neighbor\<close>

lemma hole_parent:
  assumes "represents s 0 (plug (Fr p kl ls kr rs # c) t)" and "distinct (addrs (plug (Fr p kl ls kr rs # c) t))"
    and "frames_shape (order s) h (Fr p kl ls kr rs # c)"
  shows "\<exists>np. nodes s p = Some np \<and> p \<noteq> 0 \<and> \<not> is_leaf np \<and> parent np = top c \<and> node_lists np (kl @ kr) (map root_of (ls @ t # rs))" and "frames_in s p c"
    and "\<forall>u \<in> set (ls @ t # rs). represents s p u" and "\<forall>u \<in> set (ls @ rs). shape (order s) True h u"
    and "distinct (around c @ p # concat (map addrs (ls @ t # rs)))"
    and "length ls = length kl" and "length rs = length kr" and "length kl + length kr \<le> order s - 1" and "frames_shape (order s) (Suc h) c"
    and "(if c \<noteq> [] then cut (order s) - 1 else 1) \<le> length kl + length kr"
proof -
  let ?F = "Fr p kl ls kr rs"
  have fi: "frames_in s (root_of t) (?F # c)" "represents s p t"
    using assms(1) represents_plug [OF assms(3), of s t] by simp_all
  show "\<exists>np. nodes s p = Some np \<and> p \<noteq> 0 \<and> \<not> is_leaf np \<and> parent np = top c \<and> node_lists np (kl @ kr) (map root_of (ls @ t # rs))"
    using fi(1) by (auto split: option.splits)
  show "frames_in s p c" "\<forall>u \<in> set (ls @ t # rs). represents s p u" using fi by auto
  show "\<forall>u \<in> set (ls @ rs). shape (order s) True h u" "length ls = length kl" "length rs = length kr"
    "length kl + length kr \<le> order s - 1" "frames_shape (order s) (Suc h) c"
    "(if c \<noteq> [] then cut (order s) - 1 else 1) \<le> length kl + length kr" using assms(3) by simp_all
  show "distinct (around c @ p # concat (map addrs (ls @ t # rs)))" using assms(2) unfolding plug_distinct by auto
qed

lemma assemble:
  assumes "frames_in s p c" and "\<forall>x \<in> set (around c). nodes s' x = nodes s x" and "nodes s' p = Some np" and "node_lists np ks (map root_of ts)"
    and "parent np = top c" and "\<not> is_leaf np" and "p \<noteq> 0" and "\<forall>t \<in> set ts. represents s' p t" and "frames_shape ord h c"
  shows "represents s' 0 (plug c (Nd p ks ts))"
proof -
  have "frames_in s' p c" using frames_in_cong assms(1,2) by blast
  moreover have "represents s' (top c) (Nd p ks ts)" using assms(3-8) by auto
  ultimately show ?thesis using represents_plug [OF assms(9)] by simp
qed

lemma child_index_of:
  assumes "distinct (concat (map addrs (ls @ t # rs)))"
  shows "takeWhile (\<lambda>q. q \<noteq> root_of t) (map root_of (ls @ t # rs)) = map root_of ls"
proof -
  have "root_of t \<notin> set (map root_of ls)"
  proof
    assume "root_of t \<in> set (map root_of ls)"
    then have "root_of t \<in> set (concat (map addrs ls))" using roots_subset [of ls] by blast
    then show False using assms root_in_addrs [of t] unfolding map_append concat_append distinct_append by auto
  qed
  then show ?thesis by (subst map_append, subst takeWhile_append2) (auto simp: image_iff)
qed

lemma neighbor_index:
  assumes "represents s 0 (plug (Fr p kl ls kr rs # c) t)" and "distinct (addrs (plug (Fr p kl ls kr rs # c) t))"
    and "frames_shape (order s) h (Fr p kl ls kr rs # c)" and "3 \<le> order s"
  shows "get_neighbor_index (root_of t) s = Inr (int (length ls) - 1)"
proof -
  note P = hole_parent [OF assms(1-3)]
  obtain np where np: "nodes s p = Some np" "node_lists np (kl @ kr) (map root_of (ls @ t # rs))" using P(1) by blast
  obtain nt where nt: "nodes s (root_of t) = Some nt" "parent nt = p" using P(3) represents_node [of s p t] by auto
  have "get_left_index (order s) np (root_of t) = Inr (length ls)"
    using get_left_index_list [OF np(2), of "order s" "root_of t"] P(5-8) child_index_of [of ls t rs] assms(4) by simp
  moreover have "length ls \<le> num_keys np" using np(2) P(6) by (simp add: node_lists_def)
  ultimately show ?thesis using np(1) nt by (simp add: get_neighbor_index_def node_at_def)
qed

text \<open>The two neighbors \<open>l\<close> and \<open>r\<close> around a key of a node: the first of them is short, or the second.\<close>

lemma underflow_enough:
  assumes "nodes s a = Some n" and "(if is_leaf n then cut (order s - 1) else cut (order s) - 1) \<le> num_keys n"
  shows "underflow a s = Inr None"
  using assms by (simp add: underflow_def node_at_def Let_def)

lemma underflow_left:
  assumes "represents s 0 (plug (Fr p [] [] (k # kr) (r # rs) # c) l)" and "distinct (addrs (plug (Fr p [] [] (k # kr) (r # rs) # c) l))"
    and "frames_shape (order s) h (Fr p [] [] (k # kr) (r # rs) # c)" and "3 \<le> order s"
    and "nodes s (root_of l) = Some n" and "num_keys n < (if is_leaf n then cut (order s - 1) else cut (order s) - 1)"
  shows "underflow (root_of l) s = Inr (Some (root_of r, - 1, 0, k))"
proof -
  note P = hole_parent [OF assms(1-3)]
  obtain np where np: "nodes s p = Some np" "node_lists np (k # kr) (map root_of (l # r # rs))" using P(1) by auto
  have pn: "parent n = p" using P(3) represents_node [of s p l] assms(5) by auto
  have b: "Suc (length kr) \<le> order s - 1" using P(8) by simp
  have "key_at (order s) np 0 = Inr k" using key_at_list [of np "k # kr" 0 "order s"] np(2) b by (simp add: node_lists_def)
  moreover have "ptr_at (order s) np 1 = Inr (root_of r)"
    using ptr_at_list [of np "map root_of (l # r # rs)" 1 "order s"] np(2) b P(7) assms(4) by (simp add: node_lists_def)
  ultimately show ?thesis
    using neighbor_index [OF assms(1-4)] assms(5,6) np(1) pn
    by (simp add: underflow_def node_at_def Let_def read_key_def read_ptr_def)
qed

lemma underflow_right:
  assumes "represents s 0 (plug (Fr p (kl @ [k]) (ls @ [l]) kr rs # c) r)" and "distinct (addrs (plug (Fr p (kl @ [k]) (ls @ [l]) kr rs # c) r))"
    and "frames_shape (order s) h (Fr p (kl @ [k]) (ls @ [l]) kr rs # c)" and "3 \<le> order s"
    and "nodes s (root_of r) = Some n" and "num_keys n < (if is_leaf n then cut (order s - 1) else cut (order s) - 1)"
  shows "underflow (root_of r) s = Inr (Some (root_of l, int (length ls), length ls, k))"
proof -
  note P = hole_parent [OF assms(1-3)]
  obtain np where np: "nodes s p = Some np" "node_lists np (kl @ k # kr) (map root_of (ls @ l # r # rs))" using P(1) by auto
  have pn: "parent n = p" using P(3) represents_node [of s p r] assms(5) by auto
  have b: "Suc (length kl + length kr) \<le> order s - 1" "length ls = length kl" using P(6,8) by simp_all
  have "key_at (order s) np (length ls) = Inr k"
    using key_at_list [of np "kl @ k # kr" "length ls" "order s"] np(2) b by (simp add: node_lists_def)
  moreover have "ptr_at (order s) np (length ls) = Inr (root_of l)"
    using ptr_at_list [of np "map root_of (ls @ l # r # rs)" "length ls" "order s"] np(2) b P(7) assms(4)
    by (simp add: node_lists_def nth_append)
  ultimately show ?thesis
    using neighbor_index [OF assms(1-4)] assms(5,6) np(1) pn
    by (simp add: underflow_def node_at_def Let_def read_key_def read_ptr_def)
qed

section \<open>Two neighbors and their parent\<close>

text \<open>What changes between two stores: only nodes among \<open>as\<close>, and none is new.\<close>

definition quiet :: "addr set \<Rightarrow> store \<Rightarrow> store \<Rightarrow> bool" where
  "quiet as s s' \<longleftrightarrow> s' = s\<lparr>nodes := nodes s'\<rparr> \<and> (\<forall>x. x \<notin> as \<longrightarrow> nodes s' x = nodes s x) \<and> (\<forall>x. nodes s' x \<noteq> None \<longrightarrow> nodes s x \<noteq> None)"

lemma quiet_trans: "quiet as s s1 \<Longrightarrow> quiet bs s1 s2 \<Longrightarrow> as \<subseteq> cs \<Longrightarrow> bs \<subseteq> cs \<Longrightarrow> quiet cs s s2"
  unfolding quiet_def by (metis (no_types, lifting) store.update_convs(1) store.surjective subset_iff)

lemma quiet_order: "quiet as s s' \<Longrightarrow> order s' = order s \<and> recs s' = recs s \<and> calls s' = calls s \<and> fails s' = fails s"
  unfolding quiet_def by (metis store.select_convs store.surjective store.update_convs(1))

definition neighbors :: "store \<Rightarrow> frame list \<Rightarrow> nat \<Rightarrow> addr \<Rightarrow> int list \<Rightarrow> int \<Rightarrow> int list \<Rightarrow> btree list \<Rightarrow> btree \<Rightarrow> btree \<Rightarrow> btree list \<Rightarrow> bool" where
  "neighbors s c h p kl k kr ls l r rs \<longleftrightarrow> represents s 0 (plug c (Nd p (kl @ k # kr) (ls @ l # r # rs))) \<and>
     distinct (addrs (plug c (Nd p (kl @ k # kr) (ls @ l # r # rs)))) \<and> frames_shape (order s) (Suc h) c \<and>
     length ls = length kl \<and> length rs = length kr \<and> Suc (length kl + length kr) \<le> order s - 1 \<and> 3 \<le> order s"

lemma neighbors_parts:
  assumes "neighbors s c h p kl k kr ls l r rs"
  shows "\<exists>np. nodes s p = Some np \<and> p \<noteq> 0 \<and> \<not> is_leaf np \<and> parent np = top c \<and> node_lists np (kl @ k # kr) (map root_of (ls @ l # r # rs))"
    and "frames_in s p c" and "\<forall>u \<in> set (ls @ l # r # rs). represents s p u"
    and "distinct (concat (map addrs (ls @ l # r # rs)))" and "p \<notin> set (concat (map addrs (ls @ l # r # rs)))" and "p \<notin> set (around c)"
    and "distinct (around c)" and "set (around c) \<inter> set (concat (map addrs (ls @ l # r # rs))) = {}"
proof -
  have fs: "frames_shape (order s) (Suc h) c" using assms by (simp add: neighbors_def)
  have fi: "frames_in s p c" "represents s (top c) (Nd p (kl @ k # kr) (ls @ l # r # rs))"
    using assms represents_plug [OF fs, of s "Nd p (kl @ k # kr) (ls @ l # r # rs)"] by (simp_all add: neighbors_def)
  show "\<exists>np. nodes s p = Some np \<and> p \<noteq> 0 \<and> \<not> is_leaf np \<and> parent np = top c \<and> node_lists np (kl @ k # kr) (map root_of (ls @ l # r # rs))"
    using fi(2) by (auto split: option.splits)
  show "frames_in s p c" "\<forall>u \<in> set (ls @ l # r # rs). represents s p u" using fi by auto
  have "distinct (around c) \<and> distinct (addrs (Nd p (kl @ k # kr) (ls @ l # r # rs))) \<and>
      set (around c) \<inter> set (addrs (Nd p (kl @ k # kr) (ls @ l # r # rs))) = {}"
    using assms unfolding neighbors_def plug_distinct by blast
  then show "distinct (concat (map addrs (ls @ l # r # rs)))" "p \<notin> set (concat (map addrs (ls @ l # r # rs)))" "p \<notin> set (around c)"
    "distinct (around c)" "set (around c) \<inter> set (concat (map addrs (ls @ l # r # rs))) = {}"
    unfolding addrs.simps by auto
qed

lemma neighbors_rebuilt:
  assumes nb: "neighbors s c h p kl k kr ls l r rs" and s': "nodes s' = adopted w ps N"
    and N: "\<forall>x. x \<notin> {root_of l, root_of r, p} \<longrightarrow> N x = nodes s x" and ps: "set ps \<subseteq> set (addrs l) \<union> set (addrs r)"
    and np: "nodes s' p = Some np'" "node_lists np' ks (map root_of (ls @ xs @ rs))" "parent np' = top c" "\<not> is_leaf np'"
    and xs: "\<forall>x \<in> set xs. represents s' p x"
  shows "represents s' 0 (plug c (Nd p ks (ls @ xs @ rs)))"
proof -
  note P = neighbors_parts [OF nb]
  have fs: "frames_shape (order s) (Suc h) c" using nb by (simp add: neighbors_def)
  have p: "p \<noteq> 0" using P(1) by blast
  have roots: "root_of l \<in> set (addrs l)" "root_of r \<in> set (addrs r)" by simp_all
  have same: "nodes s' x = nodes s x" if "x \<notin> insert p (set (addrs l) \<union> set (addrs r))" for x
  proof -
    have "x \<notin> {root_of l, root_of r, p}" using that roots by (auto simp del: root_in_addrs)
    then have "N x = nodes s x" using N by blast
    moreover have "x \<notin> set ps" using that ps by blast
    ultimately show ?thesis using s' by (simp add: adopted_def)
  qed
  have "represents s' p t" if t: "t \<in> set (ls @ xs @ rs)" for t
  proof (cases "t \<in> set xs")
    case False
    then have t2: "t \<in> set (ls @ rs)" using t by auto
    then have "set (addrs t) \<inter> insert p (set (addrs l) \<union> set (addrs r)) = {}" using P(4,5) by auto
    then have "\<forall>x \<in> set (addrs t). nodes s' x = nodes s x" using same by blast
    moreover have "represents s p t" using P(3) t2 by auto
    ultimately show ?thesis using represents_cong by blast
  qed (use xs in blast)
  moreover have "\<forall>x \<in> set (around c). nodes s' x = nodes s x"
  proof
    fix x assume "x \<in> set (around c)"
    then have "x \<notin> insert p (set (addrs l) \<union> set (addrs r))" using P(6,8) by auto
    then show "nodes s' x = nodes s x" by (rule same)
  qed
  ultimately show ?thesis using assemble [OF P(2) _ np(1,2,3,4) p _ fs] by blast
qed

lemma leaves_kept_inner:
  assumes "nodes s' = adopted w ps N" and "order s' = order s" and "\<forall>x. x \<notin> as \<longrightarrow> N x = nodes s x" and "\<forall>x \<in> as. \<forall>n. nodes s x = Some n \<longrightarrow> \<not> is_leaf n"
  shows "leaves_kept s s'"
proof -
  have "\<exists>n'. nodes s' a = Some n' \<and> pointers n' = pointers n \<and> is_leaf n'" if "nodes s a = Some n" "is_leaf n" for a n
  proof -
    have "N a = Some n" using assms(3,4) that by (metis)
    then show ?thesis using assms(1) that(2) by (simp add: adopted_def)
  qed
  then show ?thesis using assms(2) by (simp add: leaves_kept_def)
qed

lemma nodes_of_two:
  assumes "neighbors s c h p kl k kr ls l r rs"
  shows "root_of l \<noteq> root_of r" "root_of l \<noteq> p" "root_of r \<noteq> p" "root_of l \<noteq> 0" "root_of r \<noteq> 0"
proof -
  note P = neighbors_parts [OF assms]
  show "root_of l \<noteq> p" "root_of r \<noteq> p" using P(5) root_in_addrs [of l] root_in_addrs [of r] by (auto simp del: root_in_addrs)
  have "set (addrs l) \<inter> set (addrs r) = {}" using P(4) by auto
  then show "root_of l \<noteq> root_of r" by (metis disjoint_iff root_in_addrs)
  show "root_of l \<noteq> 0" "root_of r \<noteq> 0" using P(3) represents_nonzero by auto
qed

lemma parent_removal:
  assumes "neighbors s c h p kl k kr ls l r rs" and "k \<notin> set kl" and "nodes s2 p = nodes s p" and "order s2 = order s"
  shows "\<exists>np'. on_node p (remove_entry_from_node (order s2) k (root_of r)) s2 = Inr (s2\<lparr>nodes := (nodes s2)(p \<mapsto> np')\<rparr>) \<and>
    node_lists np' (kl @ kr) (map root_of (ls @ l # rs)) \<and> parent np' = top c \<and> \<not> is_leaf np'"
proof -
  note P = neighbors_parts [OF assms(1)]
  have len: "length ls = length kl" "length rs = length kr" "Suc (length kl + length kr) \<le> order s - 1" using assms(1) by (simp_all add: neighbors_def)
  obtain np where np: "nodes s p = Some np" "\<not> is_leaf np" "parent np = top c" "node_lists np (kl @ k # kr) (map root_of (ls @ l # r # rs))"
    using P(1) by blast
  have "distinct (concat (map addrs ((ls @ [l]) @ r # rs)))" using P(4) by simp
  then have "takeWhile (\<lambda>q. q \<noteq> root_of r) (map root_of ((ls @ [l]) @ r # rs)) = map root_of (ls @ [l])" by (rule child_index_of)
  then have nr: "root_of r \<notin> set (map root_of (ls @ [l]))" by (metis set_takeWhileD)
  have np': "node_lists np (kl @ k # kr) (map root_of (ls @ [l]) @ root_of r # map root_of rs)" using np(4) by simp
  show ?thesis
    using remove_from_inner [OF np' np(2) assms(2) nr, of "order s"] len np(1,3) assms(3,4)
    by (auto simp: on_node_def node_at_def put_node_def)
qed

section \<open>Two inner neighbors\<close>

lemma inner_node:
  assumes "represents s q (Nd a ks ts)"
  shows "\<exists>n. nodes s a = Some n \<and> node_lists n ks (map root_of ts) \<and> parent n = q \<and> \<not> is_leaf n" and "\<forall>t \<in> set ts. represents s a t"
  using assms by (auto split: option.splits)

lemma roots_valid: "\<forall>t \<in> set ts. represents s a t \<Longrightarrow> \<forall>p \<in> set (map root_of ts). nodes s p \<noteq> None"
  using represents_node by fastforce

lemma inner_merge:
  assumes nb: "neighbors s c h p kl k kr ls (Nd l kL tL) (Nd r kR tR) rs" and len: "length tL = Suc (length kL)" "length tR = Suc (length kR)"
    and fits: "length kL + length kR < order s - 1" and k: "k \<notin> set kl" and swap: "(if idx = - 1 then (x, y) else (y, x)) = (r, l)"
  shows "\<exists>s2 s3 nr. merge_nodes y x idx k s = Inr (r, s2) \<and> nodes s2 r = Some nr \<and> parent nr = p \<and>
    on_node p (remove_entry_from_node (order s2) k r) s2 = Inr s3 \<and>
    represents s3 0 (plug c (Nd p (kl @ kr) (ls @ Nd l (kL @ k # kR) (tL @ tR) # rs))) \<and>
    leaves_kept s s3 \<and> quiet (set (addrs (plug c (Nd p (kl @ k # kr) (ls @ Nd l kL tL # Nd r kR tR # rs))))) s s3 \<and> nodes s3 r \<noteq> None"
proof -
  let ?L = "Nd l kL tL" and ?R = "Nd r kR tR"
  note P = neighbors_parts [OF nb] and D = nodes_of_two [OF nb, simplified]
  have rl: "represents s p ?L" and rr: "represents s p ?R" using P(3) by simp_all
  obtain nl where nl: "nodes s l = Some nl" "node_lists nl kL (map root_of tL)" "parent nl = p" "\<not> is_leaf nl" using inner_node(1) [OF rl] by blast
  obtain nr where nr: "nodes s r = Some nr" "node_lists nr kR (map root_of tR)" "parent nr = p" "\<not> is_leaf nr" using inner_node(1) [OF rr] by blast
  let ?ps = "map root_of (tL @ tR)"
  have sub: "set ?ps \<subseteq> set (concat (map addrs (tL @ tR)))" by (rule roots_subset)
  have dist: "distinct (concat (map addrs (tL @ tR)))" "l \<notin> set (concat (map addrs (tL @ tR)))" "r \<notin> set (concat (map addrs (tL @ tR)))"
    "p \<notin> set (concat (map addrs (tL @ tR)))" using P(4,5) by auto
  then have out: "l \<notin> set ?ps" "r \<notin> set ?ps" "p \<notin> set ?ps" using sub by blast+
  have ok: "\<forall>q \<in> set ?ps. nodes s q \<noteq> None"
    using roots_valid [of tL s l] roots_valid [of tR s r] inner_node(2) [OF rl] inner_node(2) [OF rr] by auto
  obtain nl' nr' where mg: "merge_nodes y x idx k s = Inr (r, s\<lparr>nodes := adopted l ?ps ((nodes s)(r \<mapsto> nr', l \<mapsto> nl'))\<rparr>)"
    "node_lists nl' (kL @ k # kR) ?ps" "parent nl' = p" "\<not> is_leaf nl'" "parent nr' = p"
    using merge_inner [OF swap nr(1) nl(1) D(1) [symmetric] nr(4) nl(2) nr(2) _ _ fits, of k] len out(1) ok nl(3,4) nr(3) by auto
  define s2 where "s2 = s\<lparr>nodes := adopted l ?ps ((nodes s)(r \<mapsto> nr', l \<mapsto> nl'))\<rparr>"
  have s2: "nodes s2 p = nodes s p" "order s2 = order s" "nodes s2 r = Some nr'" using out D by (simp_all add: s2_def adopted_def)
  obtain np' where np': "on_node p (remove_entry_from_node (order s2) k r) s2 = Inr (s2\<lparr>nodes := (nodes s2)(p \<mapsto> np')\<rparr>)"
    "node_lists np' (kl @ kr) (map root_of (ls @ ?L # rs))" "parent np' = top c" "\<not> is_leaf np'"
    using parent_removal [OF nb k s2(1,2)] by auto
  define s3 where "s3 = s2\<lparr>nodes := (nodes s2)(p \<mapsto> np')\<rparr>"
  let ?N = "(nodes s)(r \<mapsto> nr', l \<mapsto> nl', p \<mapsto> np')"
  have N: "nodes s3 = adopted l ?ps ?N" using out(3) D by (auto simp: s3_def s2_def adopted_def fun_eq_iff)
  let ?M = "Nd l (kL @ k # kR) (tL @ tR)"
  have ml: "nodes s3 l = Some nl'" using out D by (simp add: N adopted_def)
  have mp: "nodes s3 p = Some np'" using out D by (simp add: N adopted_def)
  have "represents s3 l t" if "t \<in> set (tL @ tR)" for t
  proof -
    have "represents s (if t \<in> set tL then l else r) t" using that inner_node(2) [OF rl] inner_node(2) [OF rr] by auto
    moreover have "\<forall>b \<in> set (addrs t). ?N b = nodes s b" using dist(2-4) that by auto
    ultimately show ?thesis using represents_adopted [OF _ that dist(1) _ N] by blast
  qed
  then have "represents s3 p ?M" using ml mg(2-4) D by simp
  then have rep: "represents s3 0 (plug c (Nd p (kl @ kr) (ls @ [?M] @ rs)))"
    by (intro neighbors_rebuilt [OF nb N _ _ mp _ np'(3,4)]) (use np'(2) sub in auto)
  have "leaves_kept s s3"
    by (rule leaves_kept_inner [OF N, of _ "{l, r, p}"]) (use P(1) nl(1,4) nr(1,4) in \<open>auto simp: s3_def s2_def\<close>)
  moreover have "quiet (set (addrs (plug c (Nd p (kl @ k # kr) (ls @ ?L # ?R # rs))))) s s3"
    using sub nl(1) nr(1) P(1) by (auto simp: quiet_def s3_def s2_def adopted_def plug_addrs split: if_splits)
  moreover have "nodes s3 r \<noteq> None" using s2(3) D by (simp add: s3_def)
  ultimately show ?thesis using mg(1,5) s2(3) np'(1) rep unfolding s2_def [symmetric] s3_def [symmetric] by auto
qed

lemma inner_borrow_left:
  assumes nb: "neighbors s c h p kl k kr ls (Nd l (kL @ [kk]) (tL @ [q])) (Nd r kR tR) rs"
    and len: "length tL = Suc (length kL)" "length tR = Suc (length kR)" "length kL < order s - 1" "length kR < order s - 1" and idx: "idx \<noteq> - 1"
  shows "\<exists>s'. redistribute_nodes root r l idx (length kl) k s = Inr (root, s') \<and>
    represents s' 0 (plug c (Nd p (kl @ kk # kr) (ls @ Nd l kL tL # Nd r (k # kR) (q # tR) # rs))) \<and>
    leaves_kept s s' \<and> quiet (set (addrs (plug c (Nd p (kl @ k # kr) (ls @ Nd l (kL @ [kk]) (tL @ [q]) # Nd r kR tR # rs))))) s s'"
proof -
  let ?L = "Nd l (kL @ [kk]) (tL @ [q])" and ?R = "Nd r kR tR"
  note P = neighbors_parts [OF nb] and D = nodes_of_two [OF nb, simplified]
  have rl: "represents s p ?L" and rr: "represents s p ?R" using P(3) by simp_all
  obtain nl where nl: "nodes s l = Some nl" "node_lists nl (kL @ [kk]) (map root_of tL @ [root_of q])" "parent nl = p" "\<not> is_leaf nl"
    using inner_node(1) [OF rl] by auto
  obtain nr where nr: "nodes s r = Some nr" "node_lists nr kR (map root_of tR)" "parent nr = p" "\<not> is_leaf nr" using inner_node(1) [OF rr] by blast
  obtain np where np: "nodes s p = Some np" "\<not> is_leaf np" "parent np = top c" "node_lists np (kl @ k # kr) (map root_of (ls @ ?L # ?R # rs))"
    using P(1) by blast
  have rq: "represents s l q" using inner_node(2) [OF rl] by simp
  then obtain nq where nq: "nodes s (root_of q) = Some nq" using represents_node by blast
  have dist: "l \<notin> set (concat (map addrs (tL @ q # tR)))" "r \<notin> set (concat (map addrs (tL @ q # tR)))" "p \<notin> set (concat (map addrs (tL @ q # tR)))"
    "distinct (concat (map addrs (tL @ q # tR)))" using P(4,5) by auto
  have qa: "root_of q \<in> set (addrs q)" by simp
  then have dq: "distinct [r, l, parent nr, root_of q]" using D dist nr(3) by (auto simp del: root_in_addrs)
  have b: "length kl < order s - 1" using nb by (simp add: neighbors_def)
  obtain nr' nl' where st: "redistribute_nodes root r l idx (length kl) k s = Inr (root, s\<lparr>nodes := adopted r [root_of q] ((nodes s)
      (r \<mapsto> nr', l \<mapsto> nl', p \<mapsto> np\<lparr>keys := (keys np)(length kl \<mapsto> kk)\<rparr>))\<rparr>)"
    "node_lists nr' (k # kR) (map root_of (q # tR))" "node_lists nl' kL (map root_of tL)" "parent nr' = p" "parent nl' = p" "\<not> is_leaf nr'" "\<not> is_leaf nl'"
    using borrow_left_inner [OF nr(1) nl(1) _ nq dq nr(4) nl(2) nr(2) _ _ len(3,4) idx b, of np root k] np(1) nr(3) nl(3,4) len(1,2) by auto
  let ?np = "np\<lparr>keys := (keys np)(length kl \<mapsto> kk)\<rparr>"
  let ?N = "(nodes s)(r \<mapsto> nr', l \<mapsto> nl', p \<mapsto> ?np)"
  define s' where "s' = s\<lparr>nodes := adopted r [root_of q] ?N\<rparr>"
  have N: "nodes s' = adopted r [root_of q] ?N" by (simp add: s'_def)
  have at: "nodes s' l = Some nl'" "nodes s' r = Some nr'" "nodes s' p = Some ?np" using dq D nr(3) by (auto simp: N adopted_def)
  have npl: "node_lists ?np (kl @ kk # kr) (map root_of (ls @ [Nd l kL tL, Nd r (k # kR) (q # tR)] @ rs))"
    using np(4) holds_set [of "keys np" "kl @ k # kr" "length kl" kk] by (simp add: node_lists_def)
  have keep: "represents s' w t" if "t \<in> set (tL @ tR)" "represents s w t" for w t
  proof (rule represents_kept [OF that(2) _ _ N])
    show "set (addrs t) \<inter> set [root_of q] = {}" using dist(4) that(1) qa by (auto simp del: root_in_addrs)
    show "\<forall>x \<in> set (addrs t). ?N x = nodes s x" using dist(1-3) that(1) by auto
  qed
  have "represents s' r q"
    by (rule represents_adopted [OF rq, of "[q]" ?N]) (use dist N in auto)
  then have "represents s' p (Nd r (k # kR) (q # tR))" "represents s' p (Nd l kL tL)"
    using at st(2-7) D keep inner_node(2) [OF rl] inner_node(2) [OF rr] by auto
  then have rep: "represents s' 0 (plug c (Nd p (kl @ kk # kr) (ls @ [Nd l kL tL, Nd r (k # kR) (q # tR)] @ rs)))"
    by (intro neighbors_rebuilt [OF nb N _ _ at(3) npl]) (use np(2,3) qa in auto)
  have "leaves_kept s s'"
    by (rule leaves_kept_inner [OF N, of _ "{l, r, p}"]) (use np(1,2) nl(1,4) nr(1,4) in \<open>auto simp: s'_def\<close>)
  moreover have "quiet (set (addrs (plug c (Nd p (kl @ k # kr) (ls @ ?L # ?R # rs))))) s s'"
    using qa nl(1) nr(1) np(1) nq by (auto simp: quiet_def s'_def adopted_def plug_addrs split: if_splits)
  ultimately show ?thesis using st(1) rep unfolding s'_def [symmetric] by auto
qed

lemma inner_borrow_right:
  assumes nb: "neighbors s c h p kl k kr ls (Nd l kL tL) (Nd r (kk # kR) (q # tR)) rs"
    and len: "length tL = Suc (length kL)" "length tR = Suc (length kR)" "length kL < order s - 1" "length kR < order s - 1"
  shows "\<exists>s'. redistribute_nodes root l r (- 1) (length kl) k s = Inr (root, s') \<and>
    represents s' 0 (plug c (Nd p (kl @ kk # kr) (ls @ Nd l (kL @ [k]) (tL @ [q]) # Nd r kR tR # rs))) \<and>
    leaves_kept s s' \<and> quiet (set (addrs (plug c (Nd p (kl @ k # kr) (ls @ Nd l kL tL # Nd r (kk # kR) (q # tR) # rs))))) s s'"
proof -
  let ?L = "Nd l kL tL" and ?R = "Nd r (kk # kR) (q # tR)"
  note P = neighbors_parts [OF nb] and D = nodes_of_two [OF nb, simplified]
  have rl: "represents s p ?L" and rr: "represents s p ?R" using P(3) by simp_all
  obtain nl where nl: "nodes s l = Some nl" "node_lists nl kL (map root_of tL)" "parent nl = p" "\<not> is_leaf nl"
    using inner_node(1) [OF rl] by auto
  obtain nr where nr: "nodes s r = Some nr" "node_lists nr (kk # kR) (root_of q # map root_of tR)" "parent nr = p" "\<not> is_leaf nr"
    using inner_node(1) [OF rr] by auto
  obtain np where np: "nodes s p = Some np" "\<not> is_leaf np" "parent np = top c" "node_lists np (kl @ k # kr) (map root_of (ls @ ?L # ?R # rs))"
    using P(1) by blast
  have rq: "represents s r q" using inner_node(2) [OF rr] by simp
  then obtain nq where nq: "nodes s (root_of q) = Some nq" using represents_node by blast
  have dist: "l \<notin> set (concat (map addrs (tL @ q # tR)))" "r \<notin> set (concat (map addrs (tL @ q # tR)))" "p \<notin> set (concat (map addrs (tL @ q # tR)))"
    "distinct (concat (map addrs (tL @ q # tR)))" using P(4,5) by auto
  have qa: "root_of q \<in> set (addrs q)" by simp
  then have dq: "distinct [l, r, parent nl, root_of q]" using D dist nl(3) by (auto simp del: root_in_addrs)
  have b: "length kl < order s - 1" using nb by (simp add: neighbors_def)
  obtain nl' nr' where st: "redistribute_nodes root l r (- 1) (length kl) k s = Inr (root, s\<lparr>nodes := adopted l [root_of q] ((nodes s)
      (l \<mapsto> nl', r \<mapsto> nr', p \<mapsto> np\<lparr>keys := (keys np)(length kl \<mapsto> kk)\<rparr>))\<rparr>)"
    "node_lists nl' (kL @ [k]) (map root_of (tL @ [q]))" "node_lists nr' kR (map root_of tR)" "parent nl' = p" "parent nr' = p" "\<not> is_leaf nl'" "\<not> is_leaf nr'"
    using borrow_right_inner [OF nl(1) nr(1) _ nq dq nl(4) nl(2) nr(2) _ _ len(4,3) b, of np root k] np(1) nl(3) nr(3,4) len(1,2) by auto
  let ?np = "np\<lparr>keys := (keys np)(length kl \<mapsto> kk)\<rparr>"
  let ?N = "(nodes s)(l \<mapsto> nl', r \<mapsto> nr', p \<mapsto> ?np)"
  define s' where "s' = s\<lparr>nodes := adopted l [root_of q] ?N\<rparr>"
  have N: "nodes s' = adopted l [root_of q] ?N" by (simp add: s'_def)
  have at: "nodes s' l = Some nl'" "nodes s' r = Some nr'" "nodes s' p = Some ?np" using dq D nl(3) by (auto simp: N adopted_def)
  have npl: "node_lists ?np (kl @ kk # kr) (map root_of (ls @ [Nd l (kL @ [k]) (tL @ [q]), Nd r kR tR] @ rs))"
    using np(4) holds_set [of "keys np" "kl @ k # kr" "length kl" kk] by (simp add: node_lists_def)
  have keep: "represents s' w t" if "t \<in> set (tL @ tR)" "represents s w t" for w t
  proof (rule represents_kept [OF that(2) _ _ N])
    show "set (addrs t) \<inter> set [root_of q] = {}" using dist(4) that(1) qa by (auto simp del: root_in_addrs)
    show "\<forall>x \<in> set (addrs t). ?N x = nodes s x" using dist(1-3) that(1) by auto
  qed
  have "represents s' l q"
    by (rule represents_adopted [OF rq, of "[q]" ?N]) (use dist N in auto)
  then have "represents s' p (Nd l (kL @ [k]) (tL @ [q]))" "represents s' p (Nd r kR tR)"
    using at st(2-7) D keep inner_node(2) [OF rl] inner_node(2) [OF rr] by auto
  then have rep: "represents s' 0 (plug c (Nd p (kl @ kk # kr) (ls @ [Nd l (kL @ [k]) (tL @ [q]), Nd r kR tR] @ rs)))"
    by (intro neighbors_rebuilt [OF nb N _ _ at(3) npl]) (use np(2,3) qa in auto)
  have "leaves_kept s s'"
    by (rule leaves_kept_inner [OF N, of _ "{l, r, p}"]) (use np(1,2) nl(1,4) nr(1,4) in \<open>auto simp: s'_def\<close>)
  moreover have "quiet (set (addrs (plug c (Nd p (kl @ k # kr) (ls @ ?L # ?R # rs))))) s s'"
    using qa nl(1) nr(1) np(1) nq by (auto simp: quiet_def s'_def adopted_def plug_addrs split: if_splits)
  ultimately show ?thesis using st(1) rep unfolding s'_def [symmetric] by auto
qed

end
