(* ===== verification/Bplus_Delete.thy ===== *)
theory Bplus_Delete
  imports Bplus_Merge
begin

text \<open>
  Deletion: the way up to the root until no node is too small. A node that has lost an entry is a
  hole in the tree; each step of the way up moves the hole or closes it. Destroying the tree, and
  sequences of insertions and deletions: the interface \<open>dictionary\<close> extends \<open>key_index\<close> and is
  interpreted on the code.
\<close>

section \<open>The way up\<close>

text \<open>\<open>delete_entry\<close> after the removal.\<close>

definition after_removal :: "addr \<Rightarrow> addr \<Rightarrow> store \<Rightarrow> (addr \<times> store) res option" where
  "after_removal root n s1 =
     (if n = root then Some (adjust_root root s1)
      else (case bindE (underflow n s1) (\<lambda>u. case u of None \<Rightarrow> Inr None
                   | Some x \<Rightarrow> bindE (fits_in_one n (fst x) s1) (\<lambda>b. Inr (Some (b, x)))) of
              Inl e \<Rightarrow> Some (Inl e)
            | Inr None \<Rightarrow> Some (Inr (root, s1))
            | Inr (Some (b, neighbor, neighbor_index, k_prime_index, k_prime)) \<Rightarrow>
                if b
                then (case bindE (merge_nodes n neighbor neighbor_index k_prime s1) (\<lambda>(m, s2).
                             bindE (node_at m s2) (\<lambda>nd. Inr (m, parent nd, s2))) of
                        Inl e \<Rightarrow> Some (Inl e)
                      | Inr (m, par, s2) \<Rightarrow>
                          Option.bind (delete_entry root par k_prime m s2) (\<lambda>r.
                            Some (bindE r (\<lambda>(root1, s3). bindE (free_node m s3) (\<lambda>s4. Inr (root1, s4))))))
                else Some (redistribute_nodes root n neighbor neighbor_index k_prime_index k_prime s1)))"

lemma delete_entry_removal:
  "on_node n (remove_entry_from_node (order s) key pointer) s = Inr s1 \<Longrightarrow> delete_entry root n key pointer s = after_removal root n s1"
  by (subst delete_entry.simps) (simp add: after_removal_def)

lemma after_removal_enough:
  "n \<noteq> root \<Longrightarrow> underflow n s = Inr None \<Longrightarrow> after_removal root n s = Some (Inr (root, s))"
  by (simp add: after_removal_def)

lemma after_removal_borrow:
  "n \<noteq> root \<Longrightarrow> underflow n s = Inr (Some (b, idx, i, k)) \<Longrightarrow> fits_in_one n b s = Inr False \<Longrightarrow>
    after_removal root n s = Some (redistribute_nodes root n b idx i k s)"
  by (simp add: after_removal_def)

lemma after_removal_merge:
  assumes "n \<noteq> root" and "underflow n s = Inr (Some (b, idx, i, k))" and "fits_in_one n b s = Inr True"
    and "merge_nodes n b idx k s = Inr (m, s2)" and "nodes s2 m = Some nm" and "parent nm = p"
    and "on_node p (remove_entry_from_node (order s2) k m) s2 = Inr s3"
    and "after_removal root p s3 = Some (Inr (root', s'))" and "nodes s' m \<noteq> None"
  shows "after_removal root n s = Some (Inr (root', s'\<lparr>nodes := (nodes s')(m := None)\<rparr>))"
  using assms(1-6,8,9) delete_entry_removal [OF assms(7), of root]
  by (auto simp: after_removal_def [of root n] node_at_def free_node_def)

definition settles :: "store \<Rightarrow> (addr \<times> store) res option \<Rightarrow> btree \<Rightarrow> bool" where
  "settles s r t \<longleftrightarrow> (\<exists>s' t'. r = Some (Inr (root_of t', s')) \<and> represents s' 0 t' \<and> (\<exists>H. shape (order s) False H t') \<and> flat t' = flat t \<and>
     distinct (addrs t') \<and> set (addrs t') \<subseteq> set (addrs t) \<and> leaves_kept s s' \<and> quiet (set (addrs t)) s s')"

text \<open>A node that has at most one key too few, at its place.\<close>

definition short_at :: "store \<Rightarrow> frame list \<Rightarrow> nat \<Rightarrow> addr \<Rightarrow> int list \<Rightarrow> btree list \<Rightarrow> bool" where
  "short_at s c h a ks ts \<longleftrightarrow> represents s 0 (plug c (Nd a ks ts)) \<and> distinct (addrs (plug c (Nd a ks ts))) \<and> ordered (plug c (Nd a ks ts)) \<and>
     frames_shape (order s) (Suc h) c \<and> length ts = Suc (length ks) \<and> length ks \<le> order s - 1 \<and> (\<forall>t \<in> set ts. shape (order s) True h t) \<and>
     (c \<noteq> [] \<longrightarrow> cut (order s) - 1 \<le> Suc (length ks)) \<and> 3 \<le> order s"

lemma shape_root: "shape ord True h t \<Longrightarrow> 3 \<le> ord \<Longrightarrow> shape ord False h t"
proof (cases t)
  case (Lf a es)
  assume "shape ord True h t" "3 \<le> ord"
  moreover from this have "2 \<le> ord - 1" by simp
  from cut_least(2) [OF this] have "1 \<le> cut (ord - 1)" .
  ultimately show ?thesis using Lf le_trans by auto
next
  case (Nd a ks ts)
  assume "shape ord True h t" "3 \<le> ord"
  then show ?thesis using cut_least(1) [of ord] Nd by auto
qed

lemma settles_root:
  assumes "short_at s [] h a ks ts"
  shows "settles s (after_removal a a s) (Nd a ks ts)"
proof -
  have A: "represents s 0 (Nd a ks ts)" "distinct (addrs (Nd a ks ts))" "length ts = Suc (length ks)" "length ks \<le> order s - 1"
    "\<forall>t \<in> set ts. shape (order s) True h t" "3 \<le> order s" using assms by (simp_all add: short_at_def)
  obtain n where n: "nodes s a = Some n" "node_lists n ks (map root_of ts)" "\<not> is_leaf n" using inner_node(1) [OF A(1)] by blast
  show ?thesis
  proof (cases ks)
    case (Cons k ks')
    have "after_removal a a s = Some (Inr (a, s))"
      using n Cons by (simp add: after_removal_def adjust_root_def node_at_def node_lists_def)
    moreover have "shape (order s) False (Suc h) (Nd a ks ts)" using A(3-5) Cons by simp
    moreover have "leaves_kept s s" "quiet as s s" for as by (auto simp: leaves_kept_def quiet_def)
    ultimately show ?thesis unfolding settles_def using A(1,2) root_of.simps(2) [of a ks ts]
      by (intro exI [of _ s] exI [of _ "Nd a ks ts"] conjI) (assumption | blast | simp)+
  next
    case Nil
    then obtain t where t: "ts = [t]" using A(3) by (cases ts) auto
    have rt: "represents s a t" using A(1) t by simp
    then obtain m where m: "nodes s (root_of t) = Some m" using represents_node by blast
    have d: "distinct (addrs t)" "a \<notin> set (addrs t)" using A(2) t by auto
    then have ne: "root_of t \<noteq> a" using root_in_addrs [of t] by metis
    let ?s = "s\<lparr>nodes := (nodes s)(root_of t \<mapsto> m\<lparr>parent := 0\<rparr>, a := None)\<rparr>"
    have "ptr_at (order s) n 0 = Inr (root_of t)" using ptr_at_list [of n "map root_of ts" 0 "order s"] n(2) t A(6) by (simp add: node_lists_def)
    then have "after_removal a a s = Some (Inr (root_of t, ?s))"
      using n Nil m ne by (simp add: after_removal_def adjust_root_def node_at_def node_lists_def set_parent_def on_node_def put_node_def free_node_def)
    moreover have "represents ?s 0 t"
      by (rule represents_move [OF rt d(1)]) (use m d ne in auto)
    moreover have "shape (order s) False h t" using shape_root A(5,6) t by simp
    moreover have "leaves_kept s ?s" using n m by (auto simp: leaves_kept_def)
    moreover have "quiet (set (addrs (Nd a ks ts))) s ?s" using n m t by (auto simp: quiet_def split: if_splits)
    ultimately show ?thesis unfolding settles_def using d(1) t Nil
      by (intro exI [of _ ?s] exI [of _ t]) auto
  qed
qed

lemma weave_join: "length xs = Suc (length kx) \<Longrightarrow> weave (kx @ k # ky) (xs @ ys) = weave kx xs @ Sep k # weave ky ys"
proof (induction kx xs rule: weave.induct)
  case (2 x xs)
  then show ?case by (cases ys) auto
qed auto

lemma flat_merged:
  assumes "length tL = Suc (length kL)"
  shows "flat (Nd l (kL @ k # kR) (tL @ tR)) = flat (Nd l kL tL) @ Sep k # flat (Nd r kR tR)"
  using weave_join [of "map flat tL" kL k kR "map flat tR"] assms by simp

lemma flat_children:
  assumes "length ls = length kl" and "length rs = length kr" and "flat l' @ Sep k' # flat r' = flat l @ Sep k # flat r"
  shows "flat (Nd p (kl @ k' # kr) (ls @ l' # r' # rs)) = flat (Nd p (kl @ k # kr) (ls @ l # r # rs))"
  using assms(3) unfolding flat_pair [OF assms(1,2)] by (metis append_Cons append_assoc)

lemma flat_child:
  assumes "length ls = length kl" and "length rs = length kr" and "flat m = flat l @ Sep k # flat r"
  shows "flat (Nd p (kl @ kr) (ls @ m # rs)) = flat (Nd p (kl @ k # kr) (ls @ l # r # rs))"
proof -
  have "flat (Nd p (kl @ kr) (ls @ m # rs)) = weave (kl @ kr) (map flat ls @ flat m # map flat rs)" by simp
  then show ?thesis unfolding weave_hole [OF assms(1,2)] flat_pair [OF assms(1,2)] by (simp add: assms(3))
qed

lemma separators_left: "length ls = length kl \<Longrightarrow> k \<in> set kl \<Longrightarrow> 2 * k \<in> set (ranks (concat (map2 (\<lambda>t k. flat t @ [Sep k]) ls kl)))"
  by (induction ls kl rule: list_induct2) auto

lemma separator_fresh:
  assumes "neighbors s c h p kl k kr ls l r rs" and "ordered (plug c (Nd p (kl @ k # kr) (ls @ l # r # rs)))"
  shows "k \<notin> set kl"
proof
  assume k: "k \<in> set kl"
  have nb: "length ls = length kl" "length rs = length kr" "frames_shape (order s) (Suc h) c" using assms(1) by (simp_all add: neighbors_def)
  have "\<forall>x \<in> set (ranks (concat (map2 (\<lambda>t k. flat t @ [Sep k]) ls kl))). x < 2 * k"
    using assms(2) unfolding ordered_def flat_plug [OF nb(3)] flat_pair [OF nb(1,2)] by (simp add: sorted_wrt_append)
  then show False using separators_left [OF nb(1) k] by fastforce
qed

lemma nodes_only:
  assumes "s' = s\<lparr>nodes := nodes s'\<rparr>"
  shows "s'\<lparr>nodes := N\<rparr> = s\<lparr>nodes := N\<rparr>"
proof -
  have "s'\<lparr>nodes := N\<rparr> = (s\<lparr>nodes := nodes s'\<rparr>)\<lparr>nodes := N\<rparr>" by (rule arg_cong [OF assms])
  then show ?thesis by simp
qed

lemma free_outside:
  assumes "settles s2 (Some (Inr (root', s'))) t2" and "m \<notin> set (addrs t2)" and "nodes s2 m \<noteq> None" and "\<And>n. nodes s m = Some n \<Longrightarrow> \<not> is_leaf n"
    and "leaves_kept s s2" and "quiet (set (addrs t)) s s2" and "set (addrs t2) \<subseteq> set (addrs t)" and "m \<in> set (addrs t)" and "flat t2 = flat t"
    and "order s2 = order s"
  shows "nodes s' m \<noteq> None \<and> settles s (Some (Inr (root', s'\<lparr>nodes := (nodes s')(m := None)\<rparr>))) t"
proof -
  obtain t' where t': "root' = root_of t'" "represents s' 0 t'" "\<exists>H. shape (order s2) False H t'" "flat t' = flat t2" "distinct (addrs t')"
    "set (addrs t') \<subseteq> set (addrs t2)" "leaves_kept s2 s'" "quiet (set (addrs t2)) s2 s'" using assms(1) by (auto simp: settles_def)
  let ?s = "s'\<lparr>nodes := (nodes s')(m := None)\<rparr>"
  have "nodes s' m = nodes s2 m" using t'(8) assms(2) by (simp add: quiet_def)
  moreover have "represents ?s 0 t'"
  proof -
    have "\<forall>a \<in> set (addrs t'). nodes ?s a = nodes s' a" using t'(6) assms(2) by auto
    then show ?thesis using represents_cong t'(2) by blast
  qed
  moreover have "leaves_kept s ?s"
    using leaves_kept_trans [OF assms(5) t'(7)] assms(4) by (fastforce simp: leaves_kept_def)
  moreover have "quiet (set (addrs t)) s s'"
    by (rule quiet_trans [OF assms(6) t'(8)]) (use assms(7) in auto)
  then have "quiet (set (addrs t)) s ?s" using assms(8) nodes_only [of s' s "(nodes s')(m := None)"] by (simp add: quiet_def)
  ultimately show ?thesis using t' assms(3,7,9,10) unfolding settles_def by auto
qed

lemma settles_merge:
  assumes nb: "neighbors s c h p kl k kr ls (Nd l kL tL) (Nd r kR tR) rs"
    and ord: "ordered (plug c (Nd p (kl @ k # kr) (ls @ Nd l kL tL # Nd r kR tR # rs)))"
    and sh: "\<forall>t \<in> set (ls @ rs). shape (order s) True h t" and h: "h \<noteq> 0" and ch: "\<forall>t \<in> set (tL @ tR). shape (order s) True (h - 1) t"
    and len: "length tL = Suc (length kL)" "length tR = Suc (length kR)" "length kL + length kR < order s - 1" "cut (order s) - 1 \<le> Suc (length kL + length kR)"
    and low: "c \<noteq> [] \<longrightarrow> cut (order s) - 1 \<le> Suc (length kl + length kr)"
    and run: "n \<noteq> root" "underflow n s = Inr (Some (b, idx, i, k))" "fits_in_one n b s = Inr True"
      "(if idx = - 1 then (b, n) else (n, b)) = (r, l)" "root = root_of (plug c (Nd p (kl @ k # kr) (ls @ Nd l kL tL # Nd r kR tR # rs)))"
    and IH: "\<And>a ks ts s. short_at s c h a ks ts \<Longrightarrow> settles s (after_removal (root_of (plug c (Nd a ks ts))) a s) (plug c (Nd a ks ts))"
  shows "settles s (after_removal root n s) (plug c (Nd p (kl @ k # kr) (ls @ Nd l kL tL # Nd r kR tR # rs)))"
proof -
  let ?T = "plug c (Nd p (kl @ k # kr) (ls @ Nd l kL tL # Nd r kR tR # rs))"
  let ?M = "Nd l (kL @ k # kR) (tL @ tR)"
  let ?U = "plug c (Nd p (kl @ kr) (ls @ ?M # rs))"
  note P = neighbors_parts [OF nb]
  have nbs: "length ls = length kl" "length rs = length kr" "frames_shape (order s) (Suc h) c" "Suc (length kl + length kr) \<le> order s - 1" "3 \<le> order s"
    using nb by (simp_all add: neighbors_def)
  obtain s2 s3 nr where mg: "merge_nodes n b idx k s = Inr (r, s2)" "nodes s2 r = Some nr" "parent nr = p"
    "on_node p (remove_entry_from_node (order s2) k r) s2 = Inr s3" "represents s3 0 ?U"
    "leaves_kept s s3" "quiet (set (addrs ?T)) s s3" "nodes s3 r \<noteq> None"
    using inner_merge [OF nb len(1-3) separator_fresh [OF nb ord] run(4)] by blast
  have o: "order s3 = order s" using mg(6) by (simp add: leaves_kept_def)
  have fl: "flat (Nd p (kl @ kr) (ls @ ?M # rs)) = flat (Nd p (kl @ k # kr) (ls @ Nd l kL tL # Nd r kR tR # rs))"
    by (rule flat_child [OF nbs(1,2) flat_merged [OF len(1)]])
  then have fU: "flat ?U = flat ?T" using flat_plug [OF nbs(3)] by simp
  have sub: "set (addrs ?U) \<subseteq> set (addrs ?T)" "r \<notin> set (addrs ?U)" "r \<in> set (addrs ?T)" "distinct (addrs ?U)"
    using P(4-8) unfolding plug_addrs plug_distinct by auto
  have "short_at s3 c h p (kl @ kr) (ls @ ?M # rs)"
    unfolding short_at_def o using mg(5) sub(4) fU ord nbs sh ch len low h by (auto simp: ordered_def)
  from IH [OF this] have st: "settles s3 (after_removal (root_of ?U) p s3) ?U" .
  then obtain root' s' where st': "after_removal (root_of ?U) p s3 = Some (Inr (root', s'))" by (auto simp: settles_def)
  have "root_of ?U = root" using run(5) by (simp add: root_of_plug)
  have inner: "\<And>n. nodes s r = Some n \<Longrightarrow> \<not> is_leaf n" using P(3) inner_node(1) [of s p r kR tR] by auto
  have f: "nodes s' r \<noteq> None \<and> settles s (Some (Inr (root', s'\<lparr>nodes := (nodes s')(r := None)\<rparr>))) ?T"
    by (rule free_outside [OF st [unfolded st'] sub(2) mg(8) inner mg(6,7) sub(1,3) fU o])
  have "after_removal root n s = Some (Inr (root', s'\<lparr>nodes := (nodes s')(r := None)\<rparr>))"
    by (rule after_removal_merge [OF run(1-3) mg(1-4)]) (use st' f \<open>root_of ?U = root\<close> in simp_all)
  then show ?thesis using f by simp
qed

lemma settles_borrow:
  assumes run: "n \<noteq> root" "underflow n s = Inr (Some (b, idx, i, k))" "fits_in_one n b s = Inr False"
      "redistribute_nodes root n b idx i k s = Inr (root, s')" "root = root_of (plug c (Nd p (kl @ k # kr) (ls @ l # r # rs)))"
    and nb: "neighbors s c h p kl k kr ls l r rs"
    and new: "represents s' 0 (plug c (Nd p (kl @ k' # kr) (ls @ l' # r' # rs)))" "leaves_kept s s'"
      "quiet (set (addrs (plug c (Nd p (kl @ k # kr) (ls @ l # r # rs))))) s s'"
    and flat: "flat l' @ Sep k' # flat r' = flat l @ Sep k # flat r" and addrs: "set (addrs l' @ addrs r') = set (addrs l @ addrs r)" "distinct (addrs l' @ addrs r')"
    and sh: "\<forall>t \<in> set (ls @ l' # r' # rs). shape (order s) True h t"
    and low: "(if c \<noteq> [] then cut (order s) - 1 else 1) \<le> Suc (length kl + length kr)"
  shows "settles s (after_removal root n s) (plug c (Nd p (kl @ k # kr) (ls @ l # r # rs)))"
proof -
  let ?T = "plug c (Nd p (kl @ k # kr) (ls @ l # r # rs))" and ?U = "plug c (Nd p (kl @ k' # kr) (ls @ l' # r' # rs))"
  have nbs: "length ls = length kl" "length rs = length kr" "frames_shape (order s) (Suc h) c" "Suc (length kl + length kr) \<le> order s - 1"
    "distinct (addrs ?T)" using nb by (simp_all add: neighbors_def)
  have "after_removal root n s = Some (Inr (root, s'))" using after_removal_borrow [OF run(1-3)] run(4) by simp
  moreover have "root = root_of ?U" using run(5) by (simp add: root_of_plug)
  moreover have "flat ?U = flat ?T" using flat_plug [OF nbs(3)] flat_children [OF nbs(1,2) flat] by simp
  moreover have "set (addrs ?U) = set (addrs ?T)" using addrs(1) unfolding plug_addrs by auto
  moreover have "distinct (addrs ?U)"
  proof -
    note P = neighbors_parts [OF nb]
    have "set (concat (map addrs (ls @ l' # r' # rs))) = set (concat (map addrs (ls @ l # r # rs)))" using addrs(1) by auto
    moreover have "distinct (concat (map addrs (ls @ l' # r' # rs)))"
    proof -
      have d: "distinct (concat (map addrs ls) @ (addrs l @ addrs r) @ concat (map addrs rs))" using P(4) by simp
      have "distinct (concat (map addrs ls) @ (addrs l' @ addrs r') @ concat (map addrs rs))"
        using d addrs unfolding distinct_append set_append by blast
      then show ?thesis by simp
    qed
    ultimately show ?thesis using P(5-8) unfolding plug_distinct addrs.simps distinct.simps list.set by auto
  qed
  moreover have "shape (order s) (c \<noteq> []) (Suc h) (Nd p (kl @ k' # kr) (ls @ l' # r' # rs))" using sh low nbs by simp
  then have "shape (order s) False (Suc h + length c) ?U" by (rule plug_shape [OF nbs(3)])
  ultimately show ?thesis using new unfolding settles_def by (intro exI [of _ s'] exI [of _ ?U]) auto
qed

lemma root_around: "c \<noteq> [] \<Longrightarrow> node_of (last c) \<in> set (around c)"
proof (induction c)
  case (Cons f c)
  then show ?case by (cases f) auto
qed simp

lemma child_not_root:
  assumes "distinct (addrs (plug (f # c) t))"
  shows "root_of t \<noteq> root_of (plug (f # c) t)"
proof -
  have "root_of (plug (f # c) t) \<in> set (around (f # c))" by (metis root_around root_of_plug list.distinct(1))
  moreover have "root_of t \<in> set (addrs t)" by simp
  ultimately show ?thesis using assms unfolding plug_distinct by (metis disjoint_iff)
qed

lemma settles_same:
  assumes "represents s 0 t" and "distinct (addrs t)" and "shape (order s) False H t"
  shows "settles s (Some (Inr (root_of t, s))) t"
  unfolding settles_def using assms by (intro exI [of _ s] exI [of _ t]) (auto simp: leaves_kept_def quiet_def)

lemma fits_in_one_inner:
  assumes "represents s p (Nd a ks ts)" and "represents s q (Nd b kb tb)"
  shows "fits_in_one a b s = Inr (length kb + length ks < order s - 1)"
  using assms by (auto simp: fits_in_one_def node_at_def node_lists_def split: option.splits)

lemma inner_shape: "shape ord True (Suc h) t \<Longrightarrow> \<exists>b kb tb. t = Nd b kb tb \<and> cut ord - 1 \<le> length kb \<and> length kb \<le> ord - 1 \<and>
    length tb = Suc (length kb) \<and> (\<forall>u \<in> set tb. shape ord True h u)"
  by (cases t) auto

lemma rebalance_left:
  assumes st: "short_at s (Fr p [] [] (k # kr) (r # rs) # c) h a ks ts" and few: "length ks < cut (order s) - 1"
    and IH: "\<And>a ks ts s. short_at s c (Suc h) a ks ts \<Longrightarrow> settles s (after_removal (root_of (plug c (Nd a ks ts))) a s) (plug c (Nd a ks ts))"
  shows "settles s (after_removal (root_of (plug (Fr p [] [] (k # kr) (r # rs) # c) (Nd a ks ts))) a s)
    (plug (Fr p [] [] (k # kr) (r # rs) # c) (Nd a ks ts))"
proof -
  let ?f = "Fr p [] [] (k # kr) (r # rs)" and ?t = "Nd a ks ts"
  let ?root = "root_of (plug (?f # c) ?t)"
  have A: "represents s 0 (plug (?f # c) ?t)" "distinct (addrs (plug (?f # c) ?t))" "ordered (plug (?f # c) ?t)"
    "frames_shape (order s) (Suc h) (?f # c)" "length ts = Suc (length ks)" "\<forall>t \<in> set ts. shape (order s) True h t"
    "cut (order s) - 1 \<le> Suc (length ks)" "3 \<le> order s" using st by (simp_all add: short_at_def)
  note H = hole_parent [OF A(1,2,4)]
  have "shape (order s) True (Suc h) r" using H(4) by simp
  from inner_shape [OF this] obtain b kb tb where r: "r = Nd b kb tb" "cut (order s) - 1 \<le> length kb" "length kb \<le> order s - 1" "length tb = Suc (length kb)"
    "\<forall>u \<in> set tb. shape (order s) True h u" by blast
  have rt: "represents s p ?t" "represents s p (Nd b kb tb)" using H(3) r(1) by simp_all
  have low: "(if c \<noteq> [] then cut (order s) - 1 else 1) \<le> Suc (length kr)" using H(10) by simp
  have nb: "neighbors s c (Suc h) p [] k kr [] ?t (Nd b kb tb) rs" using A(1,2,4,8) r(1) by (simp add: neighbors_def)
  obtain n where n: "nodes s (root_of ?t) = Some n" "num_keys n = length ks" "\<not> is_leaf n" using inner_node(1) [OF rt(1)] by (auto simp: node_lists_def)
  have ne: "a \<noteq> ?root" using child_not_root [OF A(2)] by simp
  have uf: "underflow a s = Inr (Some (b, - 1, 0, k))"
    using underflow_left [OF A(1,2,4,8) n(1)] n(2,3) few r(1) by simp
  have T: "plug (?f # c) ?t = plug c (Nd p ([] @ k # kr) ([] @ Nd a ks ts # Nd b kb tb # rs))" by (simp add: r(1))
  show ?thesis
  proof (cases "length kb + length ks < order s - 1")
    case True
    then have fi: "fits_in_one a b s = Inr True" using fits_in_one_inner [OF rt] by simp
    show ?thesis unfolding T
      by (rule settles_merge [OF nb _ _ _ _ A(5) r(4) _ _ _ _ uf fi])
        (use A(3) T r H(4) A(6,7) low True ne IH in \<open>auto split: if_splits\<close>)
  next
    case False
    then have fi: "fits_in_one a b s = Inr False" using fits_in_one_inner [OF rt] by simp
    have big: "cut (order s) \<le> length kb" using False few cut_bounds [of "order s"] A(8) by linarith
    then have "kb \<noteq> []" using cut_least(1) [OF A(8)] by auto
    then obtain kk kb' where kb: "kb = kk # kb'" by (cases kb) auto
    obtain q tb' where tb: "tb = q # tb'" using r(4) by (cases tb) auto
    have "length ks < order s - 1" using few cut_bounds [of "order s"] A(8) by linarith
    moreover have "length kb' < order s - 1" using r(3) kb by simp
    ultimately have bl: "length ks < order s - 1" "length kb' < order s - 1" .
    obtain s' where s': "redistribute_nodes ?root a b (- 1) (length ([] :: int list)) k s = Inr (?root, s')"
      "represents s' 0 (plug c (Nd p ([] @ kk # kr) ([] @ Nd a (ks @ [k]) (ts @ [q]) # Nd b kb' tb' # rs)))"
      "leaves_kept s s'" "quiet (set (addrs (plug c (Nd p ([] @ k # kr) ([] @ Nd a ks ts # Nd b kb tb # rs))))) s s'"
      using inner_borrow_right [OF nb [unfolded kb tb] A(5) _ bl, of ?root] r(4) kb tb by auto
    have fl: "flat (Nd a (ks @ [k]) (ts @ [q])) @ Sep kk # flat (Nd b kb' tb') = flat (Nd a ks ts) @ Sep k # flat (Nd b kb tb)"
    proof -
      have "flat (Nd a (ks @ k # []) (ts @ [q])) = flat (Nd a ks ts) @ Sep k # flat (Nd b [] [q])" by (rule flat_merged [OF A(5)])
      moreover have "flat (Nd b kb tb) = flat (Nd b [] [q]) @ Sep kk # flat (Nd b kb' tb')"
        using flat_merged [of "[q]" "[]" b kk kb' tb' b] kb tb by simp
      ultimately show ?thesis by simp
    qed
    have d: "distinct (addrs (Nd a (ks @ [k]) (ts @ [q])) @ addrs (Nd b kb' tb'))"
      using neighbors_parts(4) [OF nb] by (auto simp: tb)
    show ?thesis unfolding T
      by (rule settles_borrow [OF _ uf fi _ _ nb s'(2,3,4) fl _ d])
        (use s'(1) ne T A(5,6,7) r H(4) low few big kb tb bl in auto)
  qed
qed

lemma rebalance_right:
  assumes st: "short_at s (Fr p (kl @ [k]) (ls @ [l]) kr rs # c) h a ks ts" and few: "length ks < cut (order s) - 1"
    and IH: "\<And>a ks ts s. short_at s c (Suc h) a ks ts \<Longrightarrow> settles s (after_removal (root_of (plug c (Nd a ks ts))) a s) (plug c (Nd a ks ts))"
  shows "settles s (after_removal (root_of (plug (Fr p (kl @ [k]) (ls @ [l]) kr rs # c) (Nd a ks ts))) a s)
    (plug (Fr p (kl @ [k]) (ls @ [l]) kr rs # c) (Nd a ks ts))"
proof -
  let ?f = "Fr p (kl @ [k]) (ls @ [l]) kr rs" and ?t = "Nd a ks ts"
  let ?root = "root_of (plug (?f # c) ?t)"
  have A: "represents s 0 (plug (?f # c) ?t)" "distinct (addrs (plug (?f # c) ?t))" "ordered (plug (?f # c) ?t)"
    "frames_shape (order s) (Suc h) (?f # c)" "length ts = Suc (length ks)" "\<forall>t \<in> set ts. shape (order s) True h t"
    "cut (order s) - 1 \<le> Suc (length ks)" "3 \<le> order s" using st by (simp_all add: short_at_def)
  note H = hole_parent [OF A(1,2,4)]
  have "shape (order s) True (Suc h) l" using H(4) by simp
  from inner_shape [OF this] obtain b kb tb where l: "l = Nd b kb tb" "cut (order s) - 1 \<le> length kb" "length kb \<le> order s - 1"
    "length tb = Suc (length kb)" "\<forall>u \<in> set tb. shape (order s) True h u" by blast
  have rt: "represents s p ?t" "represents s p (Nd b kb tb)" using H(3) l(1) by simp_all
  have low: "(if c \<noteq> [] then cut (order s) - 1 else 1) \<le> Suc (length kl + length kr)" using H(10) by simp
  have nb: "neighbors s c (Suc h) p kl k kr ls (Nd b kb tb) ?t rs" using A(1,2,4,8) l(1) by (simp add: neighbors_def)
  obtain n where n: "nodes s (root_of ?t) = Some n" "num_keys n = length ks" "\<not> is_leaf n" using inner_node(1) [OF rt(1)] by (auto simp: node_lists_def)
  have ne: "a \<noteq> ?root" using child_not_root [OF A(2)] by simp
  have len: "length ls = length kl" using nb by (simp add: neighbors_def)
  have uf: "underflow a s = Inr (Some (b, int (length ls), length kl, k))"
    using underflow_right [OF A(1,2,4,8) n(1)] n(2,3) few l(1) len by simp
  have T: "plug (?f # c) ?t = plug c (Nd p (kl @ k # kr) (ls @ Nd b kb tb # Nd a ks ts # rs))" by (simp add: l(1))
  show ?thesis
  proof (cases "length kb + length ks < order s - 1")
    case True
    then have fi: "fits_in_one a b s = Inr True" using fits_in_one_inner [OF rt] by simp
    show ?thesis unfolding T
      by (rule settles_merge [OF nb _ _ _ _ l(4) A(5) _ _ _ _ uf fi])
        (use A(3) T l H(4) A(6,7) low True ne IH in \<open>auto split: if_splits\<close>)
  next
    case False
    then have fi: "fits_in_one a b s = Inr False" using fits_in_one_inner [OF rt] by simp
    have big: "cut (order s) \<le> length kb" using False few cut_bounds [of "order s"] A(8) by linarith
    then have "kb \<noteq> []" using cut_least(1) [OF A(8)] by auto
    then obtain kk kb' where kb: "kb = kb' @ [kk]" by (cases kb rule: rev_cases) auto
    obtain q tb' where tb: "tb = tb' @ [q]" using l(4) by (cases tb rule: rev_cases) auto
    have "length ks < order s - 1" using few cut_bounds [of "order s"] A(8) by linarith
    moreover have "length kb' < order s - 1" using l(3) kb by simp
    ultimately have bl: "length kb' < order s - 1" "length ks < order s - 1" by simp_all
    have lt: "length tb' = Suc (length kb')" using l(4) kb tb by simp
    obtain s' where s': "redistribute_nodes ?root a b (int (length ls)) (length kl) k s = Inr (?root, s')"
      "represents s' 0 (plug c (Nd p (kl @ kk # kr) (ls @ Nd b kb' tb' # Nd a (k # ks) (q # ts) # rs)))"
      "leaves_kept s s'" "quiet (set (addrs (plug c (Nd p (kl @ k # kr) (ls @ Nd b kb tb # Nd a ks ts # rs))))) s s'"
      using inner_borrow_left [OF nb [unfolded kb tb] lt A(5) bl, of "int (length ls)" ?root] kb tb by auto
    have fl: "flat (Nd b kb' tb') @ Sep kk # flat (Nd a (k # ks) (q # ts)) = flat (Nd b kb tb) @ Sep k # flat (Nd a ks ts)"
    proof -
      have "flat (Nd a ([] @ k # ks) ([q] @ ts)) = flat (Nd a [] [q]) @ Sep k # flat (Nd a ks ts)" by (rule flat_merged) simp
      moreover have "flat (Nd b kb tb) = flat (Nd b kb' tb') @ Sep kk # flat (Nd a [] [q])"
        using flat_merged [OF lt, of b kk "[]" "[q]" a] kb tb by simp
      ultimately show ?thesis by simp
    qed
    have d: "distinct (addrs (Nd b kb' tb') @ addrs (Nd a (k # ks) (q # ts)))"
      using neighbors_parts(4) [OF nb] by (auto simp: tb)
    show ?thesis unfolding T
      by (rule settles_borrow [OF _ uf fi _ _ nb s'(2,3,4) fl _ d])
        (use s'(1) ne T A(5,6,7) l H(4) low few big kb tb bl in auto)
  qed
qed

lemma rebalance:
  "short_at s c h a ks ts \<Longrightarrow> settles s (after_removal (root_of (plug c (Nd a ks ts))) a s) (plug c (Nd a ks ts))"
proof (induction c arbitrary: s h a ks ts)
  case Nil
  then show ?case using settles_root [of s h a ks ts] by simp
next
  case (Cons f c)
  obtain p kl ls kr rs where f: "f = Fr p kl ls kr rs" by (cases f)
  have A: "represents s 0 (plug (f # c) (Nd a ks ts))" "distinct (addrs (plug (f # c) (Nd a ks ts)))"
    "frames_shape (order s) (Suc h) (f # c)" "length ts = Suc (length ks)" "\<forall>t \<in> set ts. shape (order s) True h t"
    "length ks \<le> order s - 1" "3 \<le> order s" using Cons.prems by (simp_all add: short_at_def)
  note H = hole_parent [OF A(1-3) [unfolded f]]
  show ?case
  proof (cases "length ks < cut (order s) - 1")
    case few: True
    show ?thesis
    proof (cases ls rule: rev_cases)
      case Nil
      then have e: "kl = []" "ls = []" using H(6) by simp_all
      moreover have "kr \<noteq> []" using H(10) e cut_least(1) [OF A(7)] by (auto split: if_splits)
      then obtain k kr' where kr: "kr = k # kr'" by (cases kr) auto
      moreover obtain r rs' where "rs = r # rs'" using H(7) kr by (cases rs) auto
      ultimately show ?thesis using rebalance_left [of s p k kr' r rs' c h a ks ts] Cons.prems few Cons.IH by (simp add: f)
    next
      case (snoc ls' l)
      moreover from this obtain kl' k where "kl = kl' @ [k]" using H(6) by (cases kl rule: rev_cases) auto
      ultimately show ?thesis using rebalance_right [of s p kl' k ls' l kr rs c h a ks ts] Cons.prems few Cons.IH by (simp add: f)
    qed
  next
    case False
    have "represents s p (Nd a ks ts)" using H(3) by simp
    from inner_node(1) [OF this] obtain n where "nodes s a = Some n" "num_keys n = length ks" "\<not> is_leaf n"
      by (auto simp: node_lists_def)
    then have "underflow a s = Inr None" using False by (intro underflow_enough) auto
    moreover have "a \<noteq> root_of (plug (f # c) (Nd a ks ts))" using child_not_root [OF A(2)] by simp
    ultimately have "after_removal (root_of (plug (f # c) (Nd a ks ts))) a s = Some (Inr (root_of (plug (f # c) (Nd a ks ts)), s))"
      using after_removal_enough by blast
    moreover have "shape (order s) (f # c \<noteq> []) (Suc h) (Nd a ks ts)" using A(4-6) False by simp
    then have "shape (order s) False (Suc h + length (f # c)) (plug (f # c) (Nd a ks ts))" by (rule plug_shape [OF A(3)])
    ultimately show ?thesis using settles_same [OF A(1,2)] by simp
  qed
qed

section \<open>Two leaves\<close>

lemma adopted_Nil [simp]: "adopted w [] N = N"
  by (simp add: adopted_def)

lemma leaf_node:
  assumes "represents s q (Lf a es)"
  shows "\<exists>n. nodes s a = Some n \<and> node_lists n (map fst es) (map snd es) \<and> parent n = q \<and> is_leaf n"
  using assms by (auto split: option.splits)

lemma leaves_iff: "x \<in> set (leaves xs) \<longleftrightarrow> (\<exists>es. Page x es \<in> set xs)"
proof (induction xs)
  case (Cons i xs)
  then show ?case by (cases i) auto
qed simp

lemma leaves_are_leaves: "represents s p t \<Longrightarrow> x \<in> set (leaves (flat t)) \<Longrightarrow> \<exists>n. nodes s x = Some n \<and> is_leaf n"
proof (induction t arbitrary: p)
  case (Lf a es)
  then show ?case by (auto split: option.splits)
next
  case (Nd a ks ts)
  obtain es where "Page x es \<in> set (weave ks (map flat ts))" using Nd.prems(2) leaves_iff by auto
  then have "Page x es \<in> Sep ` set ks \<union> (\<Union>xs \<in> set (map flat ts). set xs)" using set_weave by blast
  then obtain t where "t \<in> set ts" "x \<in> set (leaves (flat t))" using leaves_iff by auto
  then show ?case using Nd by auto
qed

lemma chained_kept':
  assumes "chained s (leaves (flat t)) z" and "represents s p t" and "leaves_kept s s'"
  shows "chained s' (leaves (flat t)) z"
proof -
  have "\<forall>x \<in> set (leaves (flat t)). next_leaf s' x = next_leaf s x"
    using leaves_are_leaves [OF assms(2)] leaves_kept_link [OF assms(3)] by blast
  then show ?thesis using assms(1) chained_cong by blast
qed

text \<open>What is left and right of two neighbors.\<close>

definition left_side :: "frame list \<Rightarrow> int list \<Rightarrow> btree list \<Rightarrow> item list" where
  "left_side c kl ls = before_hole c @ concat (map2 (\<lambda>t k. flat t @ [Sep k]) ls kl)"

definition right_side :: "frame list \<Rightarrow> int list \<Rightarrow> btree list \<Rightarrow> item list" where
  "right_side c kr rs = concat (map2 (\<lambda>k t. Sep k # flat t) kr rs) @ after_hole c"

lemma flat_two:
  assumes "frames_shape ord h c" and "length ls = length kl" and "length rs = length kr"
  shows "flat (plug c (Nd p (kl @ k # kr) (ls @ l # r # rs))) = left_side c kl ls @ flat l @ Sep k # flat r @ right_side c kr rs"
  unfolding flat_plug [OF assms(1)] flat_pair [OF assms(2,3)] by (simp add: left_side_def right_side_def)

lemma flat_one:
  assumes "frames_shape ord h c" and "length ls = length kl" and "length rs = length kr"
  shows "flat (plug c (Nd p (kl @ kr) (ls @ m # rs))) = left_side c kl ls @ flat m @ right_side c kr rs"
  unfolding flat_plug [OF assms(1)] using weave_hole [OF assms(2,3), of "flat m"] by (simp add: left_side_def right_side_def)

lemma pages_disjoint:
  assumes nb: "neighbors s c 0 p kl k kr ls (Lf l eL) (Lf r eR) rs"
  shows "x \<in> set (leaves (left_side c kl ls)) \<union> set (leaves (right_side c kr rs)) \<Longrightarrow> x \<noteq> p \<and> (distinct (leaves (flat (plug c (Nd p (kl @ k # kr) (ls @ Lf l eL # Lf r eR # rs))))) \<longrightarrow> x \<noteq> l \<and> x \<noteq> r)"
proof -
  assume x: "x \<in> set (leaves (left_side c kl ls)) \<union> set (leaves (right_side c kr rs))"
  have n: "frames_shape (order s) (Suc 0) c" "length ls = length kl" "length rs = length kr"
    "represents s 0 (plug c (Nd p (kl @ k # kr) (ls @ Lf l eL # Lf r eR # rs)))" using nb by (simp_all add: neighbors_def)
  have fl: "flat (plug c (Nd p (kl @ k # kr) (ls @ Lf l eL # Lf r eR # rs))) = left_side c kl ls @ [Page l eL, Sep k, Page r eR] @ right_side c kr rs"
    using flat_two [OF n(1-3)] by simp
  have "x \<in> set (leaves (flat (plug c (Nd p (kl @ k # kr) (ls @ Lf l eL # Lf r eR # rs)))))" using x fl by auto
  then obtain nx where "nodes s x = Some nx" "is_leaf nx" using leaves_are_leaves [OF n(4)] by blast
  then have "x \<noteq> p" using neighbors_parts(1) [OF nb] by auto
  moreover have "distinct (leaves (flat (plug c (Nd p (kl @ k # kr) (ls @ Lf l eL # Lf r eR # rs))))) \<Longrightarrow> x \<noteq> l \<and> x \<noteq> r"
    unfolding fl using x by auto
  ultimately show ?thesis by blast
qed

lemma leaf_merge:
  assumes nb: "neighbors s c 0 p kl k kr ls (Lf l eL) (Lf r eR) rs"
    and fits: "length eL + length eR \<le> order s - 1" and k: "k \<notin> set kl" and swap: "(if idx = - 1 then (x, y) else (y, x)) = (r, l)"
    and z: "next_leaf s r = Some z"
  shows "\<exists>s2 s3 nr. merge_nodes y x idx k s = Inr (r, s2) \<and> nodes s2 r = Some nr \<and> parent nr = p \<and>
    on_node p (remove_entry_from_node (order s2) k r) s2 = Inr s3 \<and>
    represents s3 0 (plug c (Nd p (kl @ kr) (ls @ Lf l (eL @ eR) # rs))) \<and> order s3 = order s \<and>
    next_leaf s3 l = Some z \<and> (\<forall>x. x \<noteq> l \<longrightarrow> x \<noteq> p \<longrightarrow> nodes s3 x = nodes s x) \<and>
    quiet (set (addrs (plug c (Nd p (kl @ k # kr) (ls @ Lf l eL # Lf r eR # rs))))) s s3"
proof -
  let ?L = "Lf l eL" and ?R = "Lf r eR"
  note P = neighbors_parts [OF nb] and D = nodes_of_two [OF nb, simplified]
  have rl: "represents s p ?L" and rr: "represents s p ?R" using P(3) by simp_all
  have od: "3 \<le> order s" using nb by (simp add: neighbors_def)
  obtain nl where nl: "nodes s l = Some nl" "node_lists nl (map fst eL) (map snd eL)" "parent nl = p" "is_leaf nl" using leaf_node [OF rl] by blast
  obtain nr where nr: "nodes s r = Some nr" "node_lists nr (map fst eR) (map snd eR)" "parent nr = p" "is_leaf nr" using leaf_node [OF rr] by blast
  obtain nl' where mg: "merge_nodes y x idx k s = Inr (r, s\<lparr>nodes := (nodes s)(l \<mapsto> nl')\<rparr>)"
    "node_lists nl' (map fst (eL @ eR)) (map snd (eL @ eR))" "parent nl' = p" "is_leaf nl'" "pointers nl' (order s - 1) = Some z"
    using merge_leaves [OF swap nr(1) nl(1) D(1) [symmetric] nr(4) nl(2) nr(2) fits z od, of k] nl(3,4) by auto
  define s2 where "s2 = s\<lparr>nodes := (nodes s)(l \<mapsto> nl')\<rparr>"
  have s2: "nodes s2 p = nodes s p" "order s2 = order s" "nodes s2 r = Some nr" using D nr(1) by (simp_all add: s2_def)
  obtain np' where np': "on_node p (remove_entry_from_node (order s2) k r) s2 = Inr (s2\<lparr>nodes := (nodes s2)(p \<mapsto> np')\<rparr>)"
    "node_lists np' (kl @ kr) (map root_of (ls @ ?L # rs))" "parent np' = top c" "\<not> is_leaf np'"
    using parent_removal [OF nb k s2(1,2)] by auto
  define s3 where "s3 = s2\<lparr>nodes := (nodes s2)(p \<mapsto> np')\<rparr>"
  have N: "nodes s3 = adopted 0 [] ((nodes s)(l \<mapsto> nl', p \<mapsto> np'))" by (simp add: s3_def s2_def)
  have at: "nodes s3 l = Some nl'" "nodes s3 p = Some np'" using D by (simp_all add: N)
  have "represents s3 p (Lf l (eL @ eR))" using at(1) mg(2-4) D by simp
  then have rep: "represents s3 0 (plug c (Nd p (kl @ kr) (ls @ [Lf l (eL @ eR)] @ rs)))"
    by (intro neighbors_rebuilt [OF nb N _ _ at(2) _ np'(3,4)]) (use np'(2) in auto)
  have o: "order s3 = order s" by (simp add: s3_def s2_def)
  moreover have "next_leaf s3 l = Some z" using at(1) mg(5) o by (simp add: next_leaf_def)
  moreover have "\<forall>x. x \<noteq> l \<longrightarrow> x \<noteq> p \<longrightarrow> nodes s3 x = nodes s x" by (simp add: N)
  moreover have "quiet (set (addrs (plug c (Nd p (kl @ k # kr) (ls @ ?L # ?R # rs))))) s s3"
    using nl(1) P(1) by (auto simp: quiet_def s3_def s2_def plug_addrs split: if_splits)
  ultimately show ?thesis using mg(1) s2(3) nr(3) np'(1) rep unfolding s2_def [symmetric] s3_def [symmetric] by auto
qed

text \<open>What borrowing between leaves leaves behind.\<close>

definition leaves_moved :: "store \<Rightarrow> frame list \<Rightarrow> addr \<Rightarrow> int list \<Rightarrow> int \<Rightarrow> int list \<Rightarrow> btree list \<Rightarrow> addr \<Rightarrow> (int \<times> addr) list \<Rightarrow>
    addr \<Rightarrow> (int \<times> addr) list \<Rightarrow> btree list \<Rightarrow> int \<Rightarrow> (int \<times> addr) list \<Rightarrow> (int \<times> addr) list \<Rightarrow> store \<Rightarrow> bool" where
  "leaves_moved s c p kl k kr ls l eL r eR rs k' eL' eR' s' \<longleftrightarrow>
     represents s' 0 (plug c (Nd p (kl @ k' # kr) (ls @ Lf l eL' # Lf r eR' # rs))) \<and>
     (\<forall>x. x \<noteq> p \<longrightarrow> next_leaf s' x = next_leaf s x) \<and>
     quiet (set (addrs (plug c (Nd p (kl @ k # kr) (ls @ Lf l eL # Lf r eR # rs))))) s s'"

lemma leaves_moved_intro:
  assumes nb: "neighbors s c 0 p kl k kr ls (Lf l eL) (Lf r eR) rs" and np: "nodes s p = Some np" 
    and n: "node_lists nl' (map fst eL') (map snd eL')" "node_lists nr' (map fst eR') (map snd eR')" "parent nl' = p" "parent nr' = p"
      "is_leaf nl'" "is_leaf nr'" "nodes s l = Some nl" "nodes s r = Some nr"
      "pointers nl' (order s - 1) = pointers nl (order s - 1)" "pointers nr' (order s - 1) = pointers nr (order s - 1)"
    and s': "s' = s\<lparr>nodes := (nodes s)(l \<mapsto> nl', r \<mapsto> nr', p \<mapsto> np\<lparr>keys := (keys np)(length kl \<mapsto> k')\<rparr>)\<rparr>"
  shows "leaves_moved s c p kl k kr ls l eL r eR rs k' eL' eR' s'"
proof -
  note P = neighbors_parts [OF nb] and D = nodes_of_two [OF nb, simplified]
  let ?np = "np\<lparr>keys := (keys np)(length kl \<mapsto> k')\<rparr>"
  have np2: "\<not> is_leaf np" "parent np = top c" "node_lists np (kl @ k # kr) (map root_of (ls @ Lf l eL # Lf r eR # rs))" using P(1) np by auto
  have N: "nodes s' = adopted 0 [] ((nodes s)(l \<mapsto> nl', r \<mapsto> nr', p \<mapsto> ?np))" using s' by simp
  have at: "nodes s' l = Some nl'" "nodes s' r = Some nr'" "nodes s' p = Some ?np" using D by (simp_all add: N)
  have "represents s' p (Lf l eL')" "represents s' p (Lf r eR')" using at n D by simp_all
  moreover have "node_lists ?np (kl @ k' # kr) (map root_of (ls @ [Lf l eL', Lf r eR'] @ rs))"
    using np2(3) holds_set [of "keys np" "kl @ k # kr" "length kl" k'] by (simp add: node_lists_def)
  ultimately have "represents s' 0 (plug c (Nd p (kl @ k' # kr) (ls @ [Lf l eL', Lf r eR'] @ rs)))"
    by (intro neighbors_rebuilt [OF nb N _ _ at(3)]) (use np2 in auto)
  moreover have "next_leaf s' x = next_leaf s x" if "x \<noteq> p" for x
    using that n(7-10) by (auto simp: next_leaf_def s' split: option.split)
  moreover have "quiet (set (addrs (plug c (Nd p (kl @ k # kr) (ls @ Lf l eL # Lf r eR # rs))))) s s'"
    using n(7,8) np by (auto simp: quiet_def s' plug_addrs split: if_splits)
  ultimately show ?thesis unfolding leaves_moved_def by simp
qed

lemma leaf_borrow_left:
  assumes nb: "neighbors s c 0 p kl k kr ls (Lf l (eL @ [e])) (Lf r eR) rs"
    and len: "length eL < order s - 1" "length eR < order s - 1" and idx: "idx \<noteq> - 1"
  shows "\<exists>s'. redistribute_nodes root r l idx (length kl) k s = Inr (root, s') \<and>
    leaves_moved s c p kl k kr ls l (eL @ [e]) r eR rs (fst e) eL (e # eR) s'"
proof -
  note P = neighbors_parts [OF nb] and D = nodes_of_two [OF nb, simplified]
  have rl: "represents s p (Lf l (eL @ [e]))" and rr: "represents s p (Lf r eR)" using P(3) by simp_all
  obtain nl where nl: "nodes s l = Some nl" "node_lists nl (map fst (eL @ [e])) (map snd (eL @ [e]))" "parent nl = p" "is_leaf nl"
    using leaf_node [OF rl] by blast
  obtain nr where nr: "nodes s r = Some nr" "node_lists nr (map fst eR) (map snd eR)" "parent nr = p" "is_leaf nr" using leaf_node [OF rr] by blast
  obtain np where np: "nodes s p = Some np" using P(1) by blast
  have d: "distinct [r, l, parent nr]" using D nr(3) by auto
  have b: "length kl < order s - 1" using nb by (simp add: neighbors_def)
  obtain nr' nl' where st: "redistribute_nodes root r l idx (length kl) k s = Inr (root, s\<lparr>nodes := (nodes s)
      (r \<mapsto> nr', l \<mapsto> nl', p \<mapsto> np\<lparr>keys := (keys np)(length kl \<mapsto> fst e)\<rparr>)\<rparr>)"
    "node_lists nr' (map fst (e # eR)) (map snd (e # eR))" "node_lists nl' (map fst eL) (map snd eL)" "parent nr' = p" "parent nl' = p"
    "is_leaf nr'" "is_leaf nl'" "pointers nr' (order s - 1) = pointers nr (order s - 1)" "pointers nl' (order s - 1) = pointers nl (order s - 1)"
    using borrow_left_leaf [OF nr(1) nl(1) _ d nr(4) nl(2) nr(2) len idx b, of np root k] np nr(3) nl(3,4) by auto
  have "leaves_moved s c p kl k kr ls l (eL @ [e]) r eR rs (fst e) eL (e # eR)
      (s\<lparr>nodes := (nodes s)(r \<mapsto> nr', l \<mapsto> nl', p \<mapsto> np\<lparr>keys := (keys np)(length kl \<mapsto> fst e)\<rparr>)\<rparr>)"
    by (rule leaves_moved_intro [OF nb np st(3,2,5,4,7,6) nl(1) nr(1) st(9,8)]) (use D in \<open>simp add: fun_upd_twist\<close>)
  then show ?thesis using st(1) by blast
qed

lemma leaf_borrow_right:
  assumes nb: "neighbors s c 0 p kl k kr ls (Lf l eL) (Lf r (e # f # eR)) rs"
    and len: "length eL < order s - 1" "length (e # f # eR) \<le> order s - 1"
  shows "\<exists>s'. redistribute_nodes root l r (- 1) (length kl) k s = Inr (root, s') \<and>
    leaves_moved s c p kl k kr ls l eL r (e # f # eR) rs (fst f) (eL @ [e]) (f # eR) s'"
proof -
  note P = neighbors_parts [OF nb] and D = nodes_of_two [OF nb, simplified]
  have rl: "represents s p (Lf l eL)" and rr: "represents s p (Lf r (e # f # eR))" using P(3) by simp_all
  obtain nl where nl: "nodes s l = Some nl" "node_lists nl (map fst eL) (map snd eL)" "parent nl = p" "is_leaf nl"
    using leaf_node [OF rl] by blast
  obtain nr where nr: "nodes s r = Some nr" "node_lists nr (map fst (e # f # eR)) (map snd (e # f # eR))" "parent nr = p" "is_leaf nr"
    using leaf_node [OF rr] by blast
  obtain np where np: "nodes s p = Some np" using P(1) by blast
  have d: "distinct [l, r, parent nl]" using D nl(3) by auto
  have b: "length kl < order s - 1" using nb by (simp add: neighbors_def)
  obtain nl' nr' where st: "redistribute_nodes root l r (- 1) (length kl) k s = Inr (root, s\<lparr>nodes := (nodes s)
      (l \<mapsto> nl', r \<mapsto> nr', p \<mapsto> np\<lparr>keys := (keys np)(length kl \<mapsto> fst f)\<rparr>)\<rparr>)"
    "node_lists nl' (map fst (eL @ [e])) (map snd (eL @ [e]))" "node_lists nr' (map fst (f # eR)) (map snd (f # eR))" "parent nl' = p" "parent nr' = p"
    "is_leaf nl'" "is_leaf nr'" "pointers nl' (order s - 1) = pointers nl (order s - 1)" "pointers nr' (order s - 1) = pointers nr (order s - 1)"
    using borrow_right_leaf [OF nl(1) nr(1) _ d nl(4) nl(2) nr(2) len b, of np root k] np nl(3) nr(3,4) by auto
  have "leaves_moved s c p kl k kr ls l eL r (e # f # eR) rs (fst f) (eL @ [e]) (f # eR)
      (s\<lparr>nodes := (nodes s)(l \<mapsto> nl', r \<mapsto> nr', p \<mapsto> np\<lparr>keys := (keys np)(length kl \<mapsto> fst f)\<rparr>)\<rparr>)"
    by (rule leaves_moved_intro [OF nb np st(2,3,4,5,6,7) nl(1) nr(1) st(8,9)]) simp
  then show ?thesis using st(1) by blast
qed

lemma wide_plug: "frames_shape ord h c \<Longrightarrow> wide t \<Longrightarrow> wide (plug c t)"
proof (induction c arbitrary: h t)
  case (Cons f c)
  obtain a kl ls kr rs where f: "f = Fr a kl ls kr rs" by (cases f)
  have "\<forall>u \<in> set ls \<union> set rs. wide u" using Cons.prems(1) shape_wide by (fastforce simp: f)
  then have "wide (fill f t)" using Cons.prems by (auto simp: f)
  moreover have "frames_shape ord (Suc h) c" using Cons.prems(1) by (simp add: f)
  ultimately show ?case using Cons.IH by simp
qed simp

definition tidied :: "store \<Rightarrow> (addr \<times> store) res option \<Rightarrow> btree \<Rightarrow> bool" where
  "tidied s r t \<longleftrightarrow> (\<exists>s' t'. r = Some (Inr (root_of t', s')) \<and> represents s' 0 t' \<and> (\<exists>H. shape (order s) False H t') \<and> ordered t' \<and>
     entries (flat t') = entries (flat t) \<and> distinct (addrs t') \<and> chained s' (leaves (flat t')) 0 \<and> quiet (set (addrs t)) s s')"

text \<open>Two leaves next to each other, with the chain.\<close>

definition twins :: "store \<Rightarrow> frame list \<Rightarrow> addr \<Rightarrow> int list \<Rightarrow> int \<Rightarrow> int list \<Rightarrow> btree list \<Rightarrow> addr \<Rightarrow> (int \<times> addr) list \<Rightarrow>
    addr \<Rightarrow> (int \<times> addr) list \<Rightarrow> btree list \<Rightarrow> bool" where
  "twins s c p kl k kr ls l eL r eR rs \<longleftrightarrow> neighbors s c 0 p kl k kr ls (Lf l eL) (Lf r eR) rs \<and>
     ordered (plug c (Nd p (kl @ k # kr) (ls @ Lf l eL # Lf r eR # rs))) \<and> (\<forall>t \<in> set (ls @ rs). shape (order s) True 0 t) \<and>
     chained s (leaves (flat (plug c (Nd p (kl @ k # kr) (ls @ Lf l eL # Lf r eR # rs))))) 0 \<and>
     (if c \<noteq> [] then cut (order s) - 1 else 1) \<le> Suc (length kl + length kr)"

lemma twins_facts:
  assumes "twins s c p kl k kr ls l eL r eR rs"
  shows "flat (plug c (Nd p (kl @ k # kr) (ls @ Lf l eL # Lf r eR # rs))) = left_side c kl ls @ [Page l eL, Sep k, Page r eR] @ right_side c kr rs"
    and "chained s (leaves (left_side c kl ls)) l" "next_leaf s l = Some r" "next_leaf s r = Some (hd (leaves (right_side c kr rs) @ [0]))"
      "chained s (leaves (right_side c kr rs)) 0"
    and "\<forall>x \<in> set (leaves (left_side c kl ls)) \<union> set (leaves (right_side c kr rs)). x \<noteq> p \<and> x \<noteq> l \<and> x \<noteq> r"
    and "sorted_wrt (<) (ranks (left_side c kl ls @ Page l (eL @ eR) # right_side c kr rs))"
    and "k \<notin> set kl"
proof -
  let ?T = "plug c (Nd p (kl @ k # kr) (ls @ Lf l eL # Lf r eR # rs))"
  have nb: "neighbors s c 0 p kl k kr ls (Lf l eL) (Lf r eR) rs" and od: "ordered ?T" and sh: "\<forall>t \<in> set (ls @ rs). shape (order s) True 0 t"
    and ch: "chained s (leaves (flat ?T)) 0" using assms by (simp_all add: twins_def)
  have n: "frames_shape (order s) (Suc 0) c" "length ls = length kl" "length rs = length kr" "distinct (addrs ?T)" using nb by (simp_all add: neighbors_def)
  show fl: "flat ?T = left_side c kl ls @ [Page l eL, Sep k, Page r eR] @ right_side c kr rs" using flat_two [OF n(1-3)] by simp
  show "chained s (leaves (left_side c kl ls)) l" "next_leaf s l = Some r" "next_leaf s r = Some (hd (leaves (right_side c kr rs) @ [0]))"
    "chained s (leaves (right_side c kr rs)) 0" using ch unfolding fl by (simp_all add: chained_append)
  have "\<forall>u \<in> set (ls @ rs). wide u" using sh shape_wide by blast
  then have "wide ?T" by (intro wide_plug [OF n(1)]) (use n in auto)
  then have "distinct (leaves (flat ?T))" using leaves_wide n(4) by blast
  then show "\<forall>x \<in> set (leaves (left_side c kl ls)) \<union> set (leaves (right_side c kr rs)). x \<noteq> p \<and> x \<noteq> l \<and> x \<noteq> r"
    using pages_disjoint [OF nb] by blast
  have "sorted_wrt (<) (ranks (left_side c kl ls @ [Page l eL, Sep k, Page r eR] @ right_side c kr rs))"
    using od unfolding ordered_def fl .
  then show "sorted_wrt (<) (ranks (left_side c kl ls @ Page l (eL @ eR) # right_side c kr rs))" by (auto simp: sorted_wrt_append)
  show "k \<notin> set kl" by (rule separator_fresh [OF nb od])
qed

lemma tidied_merge:
  assumes tw: "twins s c p kl k kr ls l eL r eR rs" and fits: "length eL + length eR \<le> order s - 1" "cut (order s - 1) \<le> length eL + length eR"
    and run: "n \<noteq> root" "underflow n s = Inr (Some (b, idx, i, k))" "fits_in_one n b s = Inr True"
      "(if idx = - 1 then (b, n) else (n, b)) = (r, l)" "root = root_of (plug c (Nd p (kl @ k # kr) (ls @ Lf l eL # Lf r eR # rs)))"
  shows "tidied s (after_removal root n s) (plug c (Nd p (kl @ k # kr) (ls @ Lf l eL # Lf r eR # rs)))"
proof -
  let ?T = "plug c (Nd p (kl @ k # kr) (ls @ Lf l eL # Lf r eR # rs))"
  let ?U = "plug c (Nd p (kl @ kr) (ls @ Lf l (eL @ eR) # rs))"
  have nb: "neighbors s c 0 p kl k kr ls (Lf l eL) (Lf r eR) rs" and sh: "\<forall>t \<in> set (ls @ rs). shape (order s) True 0 t"
    and low: "(if c \<noteq> [] then cut (order s) - 1 else 1) \<le> Suc (length kl + length kr)" using tw by (simp_all add: twins_def)
  note P = neighbors_parts [OF nb] and F = twins_facts [OF tw]
  let ?z = "hd (leaves (right_side c kr rs) @ [0])"
  have nbs: "length ls = length kl" "length rs = length kr" "frames_shape (order s) (Suc 0) c" "Suc (length kl + length kr) \<le> order s - 1" "3 \<le> order s"
    using nb by (simp_all add: neighbors_def)
  obtain s2 s3 nr where mg: "merge_nodes n b idx k s = Inr (r, s2)" "nodes s2 r = Some nr" "parent nr = p"
    "on_node p (remove_entry_from_node (order s2) k r) s2 = Inr s3" "represents s3 0 ?U" "order s3 = order s"
    "next_leaf s3 l = Some ?z" "\<forall>x. x \<noteq> l \<longrightarrow> x \<noteq> p \<longrightarrow> nodes s3 x = nodes s x" "quiet (set (addrs ?T)) s s3"
    using leaf_merge [OF nb fits(1) F(8) run(4) F(4)] by blast
  have fU: "flat ?U = left_side c kl ls @ [Page l (eL @ eR)] @ right_side c kr rs" using flat_one [OF nbs(3,1,2)] by simp
  have sub: "set (addrs ?U) \<subseteq> set (addrs ?T)" "r \<notin> set (addrs ?U)" "r \<in> set (addrs ?T)" "distinct (addrs ?U)"
    using P(4-8) unfolding plug_addrs plug_distinct by auto
  have "ordered ?U" using F(7) by (simp add: ordered_def fU)
  moreover have "shape (order s) True 0 (Lf l (eL @ eR))" using fits by simp
  ultimately have "short_at s3 c 0 p (kl @ kr) (ls @ Lf l (eL @ eR) # rs)"
    unfolding short_at_def mg(6) using mg(5) sub(4) nbs sh low by auto
  from rebalance [OF this] have "settles s3 (after_removal (root_of ?U) p s3) ?U" .
  then obtain s' t' where t': "after_removal (root_of ?U) p s3 = Some (Inr (root_of t', s'))" "represents s' 0 t'"
    "\<exists>H. shape (order s3) False H t'" "flat t' = flat ?U" "distinct (addrs t')" "set (addrs t') \<subseteq> set (addrs ?U)" "leaves_kept s3 s'"
    "quiet (set (addrs ?U)) s3 s'" unfolding settles_def by blast
  let ?s = "s'\<lparr>nodes := (nodes s')(r := None)\<rparr>"
  have rl: "r \<noteq> l" "r \<noteq> p" using nodes_of_two [OF nb] by auto
  have rt: "r \<notin> set (addrs t')" using t'(6) sub(2) by blast
  have "nodes s' r = nodes s3 r" using t'(8) sub(2) by (simp add: quiet_def)
  also have "\<dots> = nodes s r" using mg(8) rl by simp
  finally have nr: "nodes s' r \<noteq> None" using P(3) represents_node [of s p "Lf r eR"] by auto
  have "root_of ?U = root" using run(5) by (simp add: root_of_plug)
  then have "after_removal root n s = Some (Inr (root_of t', ?s))"
    using after_removal_merge [OF run(1-3) mg(1-4) _ nr] t'(1) by simp
  moreover have "represents ?s 0 t'"
  proof -
    have "\<forall>x \<in> set (addrs t'). nodes ?s x = nodes s' x" using rt by auto
    then show ?thesis using represents_cong t'(2) by blast
  qed
  moreover have "ordered t'" using \<open>ordered ?U\<close> t'(4) by (simp add: ordered_def)
  moreover have "chained ?s (leaves (flat t')) 0"
  proof -
    have same: "next_leaf s3 x = next_leaf s x" if "x \<in> set (leaves (left_side c kl ls)) \<union> set (leaves (right_side c kr rs))" for x
      using F(6) mg(6,8) that by (simp add: next_leaf_def split: option.split)
    have "chained s3 (leaves (left_side c kl ls)) l" "chained s3 (leaves (right_side c kr rs)) 0"
      using F(2,5) same chained_cong [of "leaves (left_side c kl ls)" s3 s l] chained_cong [of "leaves (right_side c kr rs)" s3 s 0] by simp_all
    then have "chained s3 (leaves (flat ?U)) 0" using mg(7) by (simp add: fU chained_append)
    then have "chained s' (leaves (flat ?U)) 0" using chained_kept' mg(5) t'(7) by blast
    moreover have "r \<notin> set (leaves (flat t'))" using leaves_addrs t'(3,5) rt by blast
    then have "\<forall>x \<in> set (leaves (flat t')). next_leaf ?s x = next_leaf s' x" by (auto simp: next_leaf_def split: option.split)
    then have "chained ?s (leaves (flat t')) 0 = chained s' (leaves (flat t')) 0" by (rule chained_cong)
    ultimately show ?thesis using t'(4) by simp
  qed
  moreover have "quiet (set (addrs ?T)) s s'" by (rule quiet_trans [OF mg(9) t'(8)]) (use sub(1) in auto)
  then have "quiet (set (addrs ?T)) s ?s" using sub(3) nodes_only [of s' s "(nodes s')(r := None)"] by (simp add: quiet_def)
  moreover have "entries (flat t') = entries (flat ?T)" unfolding t'(4) fU F(1) by simp
  moreover have "\<exists>H. shape (order s) False H t'" using t'(3) mg(6) by simp
  ultimately show ?thesis unfolding tidied_def using t'(5) by (intro exI [of _ ?s] exI [of _ t'] conjI) assumption+
qed

lemma tidied_borrow:
  assumes tw: "twins s c p kl k kr ls l eL r eR rs"
    and run: "n \<noteq> root" "underflow n s = Inr (Some (b, idx, i, k))" "fits_in_one n b s = Inr False"
      "redistribute_nodes root n b idx i k s = Inr (root, s')" "root = root_of (plug c (Nd p (kl @ k # kr) (ls @ Lf l eL # Lf r eR # rs)))"
    and mv: "leaves_moved s c p kl k kr ls l eL r eR rs (fst (hd eR')) eL' eR' s'" and es: "eL' @ eR' = eL @ eR"
    and sz: "cut (order s - 1) \<le> length eL'" "length eL' \<le> order s - 1" "cut (order s - 1) \<le> length eR'" "length eR' \<le> order s - 1"
  shows "tidied s (after_removal root n s) (plug c (Nd p (kl @ k # kr) (ls @ Lf l eL # Lf r eR # rs)))"
proof -
  let ?T = "plug c (Nd p (kl @ k # kr) (ls @ Lf l eL # Lf r eR # rs))"
  let ?U = "plug c (Nd p (kl @ fst (hd eR') # kr) (ls @ Lf l eL' # Lf r eR' # rs))"
  have nb: "neighbors s c 0 p kl k kr ls (Lf l eL) (Lf r eR) rs" and sh: "\<forall>t \<in> set (ls @ rs). shape (order s) True 0 t"
    and low: "(if c \<noteq> [] then cut (order s) - 1 else 1) \<le> Suc (length kl + length kr)" using tw by (simp_all add: twins_def)
  note P = neighbors_parts [OF nb] and F = twins_facts [OF tw]
  have nbs: "length ls = length kl" "length rs = length kr" "frames_shape (order s) (Suc 0) c" "Suc (length kl + length kr) \<le> order s - 1" "3 \<le> order s"
    using nb by (simp_all add: neighbors_def)
  have rep: "represents s' 0 ?U" and nx: "\<forall>x. x \<noteq> p \<longrightarrow> next_leaf s' x = next_leaf s x" and q: "quiet (set (addrs ?T)) s s'"
    using mv by (simp_all add: leaves_moved_def)
  have "root = root_of ?U" using run(5) by (simp add: root_of_plug)
  then have "after_removal root n s = Some (Inr (root_of ?U, s'))" using after_removal_borrow [OF run(1-3)] run(4) by simp
  moreover have fU: "flat ?U = left_side c kl ls @ [Page l eL', Sep (fst (hd eR')), Page r eR'] @ right_side c kr rs"
    using flat_two [OF nbs(3,1,2)] by simp
  moreover have "2 \<le> order s - 1" using nbs(5) by simp
  then have ne: "eL' \<noteq> []" "eR' \<noteq> []" using sz(1,3) cut_least(2) [of "order s - 1"] by auto
  then have "ordered ?U"
    using ranks_split [of "left_side c kl ls" l eL' eR' "right_side c kr rs" r] F(7) es by (simp add: ordered_def fU)
  moreover have "shape (order s) (c \<noteq> []) (Suc 0) (Nd p (kl @ fst (hd eR') # kr) (ls @ Lf l eL' # Lf r eR' # rs))"
    using sh low nbs sz by simp
  then have "shape (order s) False (Suc 0 + length c) ?U" by (rule plug_shape [OF nbs(3)])
  moreover have "distinct (addrs ?U)"
    using P(4-8) unfolding plug_distinct by simp
  moreover have "chained s' (leaves (flat ?U)) 0"
  proof -
    have "\<forall>x \<in> set (leaves (left_side c kl ls)). next_leaf s' x = next_leaf s x" "\<forall>x \<in> set (leaves (right_side c kr rs)). next_leaf s' x = next_leaf s x"
      using F(6) nx by auto
    then have "chained s' (leaves (left_side c kl ls)) l" "chained s' (leaves (right_side c kr rs)) 0"
      using F(2,5) chained_cong [of "leaves (left_side c kl ls)" s' s l] chained_cong [of "leaves (right_side c kr rs)" s' s 0] by simp_all
    moreover have "l \<noteq> p" "r \<noteq> p" using nodes_of_two [OF nb] by auto
    then have "next_leaf s' l = Some r" "next_leaf s' r = Some (hd (leaves (right_side c kr rs) @ [0]))" using F(3,4) nx by simp_all
    ultimately show ?thesis by (simp add: fU chained_append)
  qed
  moreover have "entries (flat ?U) = entries (flat ?T)" unfolding fU F(1) using es by simp
  ultimately show ?thesis unfolding tidied_def using rep q
    by (intro exI [of _ s'] exI [of _ ?U] conjI) (assumption | rule exI)+
qed

definition leaf_short :: "store \<Rightarrow> frame list \<Rightarrow> addr \<Rightarrow> (int \<times> addr) list \<Rightarrow> bool" where
  "leaf_short s c a es \<longleftrightarrow> represents s 0 (plug c (Lf a es)) \<and> distinct (addrs (plug c (Lf a es))) \<and> ordered (plug c (Lf a es)) \<and>
     frames_shape (order s) 0 c \<and> length es \<le> order s - 1 \<and> (c \<noteq> [] \<longrightarrow> cut (order s - 1) \<le> Suc (length es)) \<and>
     chained s (leaves (flat (plug c (Lf a es)))) 0 \<and> 3 \<le> order s"

lemma fits_in_one_leaf:
  assumes "represents s p (Lf a ea)" and "represents s q (Lf b eb)"
  shows "fits_in_one a b s = Inr (length eb + length ea < order s)"
  using assms by (auto simp: fits_in_one_def node_at_def node_lists_def split: option.splits)

lemma leaf_shape: "shape ord True 0 t \<Longrightarrow> \<exists>b eb. t = Lf b eb \<and> cut (ord - 1) \<le> length eb \<and> length eb \<le> ord - 1"
  by (cases t) auto

lemma leaf_rebalance_left:
  assumes st: "leaf_short s (Fr p [] [] (k # kr) (r # rs) # c) a es" and few: "length es < cut (order s - 1)"
  shows "tidied s (after_removal (root_of (plug (Fr p [] [] (k # kr) (r # rs) # c) (Lf a es))) a s)
    (plug (Fr p [] [] (k # kr) (r # rs) # c) (Lf a es))"
proof -
  let ?f = "Fr p [] [] (k # kr) (r # rs)" and ?t = "Lf a es"
  let ?root = "root_of (plug (?f # c) ?t)"
  have A: "represents s 0 (plug (?f # c) ?t)" "distinct (addrs (plug (?f # c) ?t))" "ordered (plug (?f # c) ?t)"
    "frames_shape (order s) 0 (?f # c)" "cut (order s - 1) \<le> Suc (length es)" "3 \<le> order s"
    "chained s (leaves (flat (plug (?f # c) ?t))) 0" using st by (simp_all add: leaf_short_def)
  note H = hole_parent [OF A(1,2,4)]
  have "shape (order s) True 0 r" using H(4) by simp
  from leaf_shape [OF this] obtain b eb where r: "r = Lf b eb" "cut (order s - 1) \<le> length eb" "length eb \<le> order s - 1" by blast
  have rt: "represents s p ?t" "represents s p (Lf b eb)" using H(3) r(1) by simp_all
  have low: "(if c \<noteq> [] then cut (order s) - 1 else 1) \<le> Suc (length kr)" using H(10) by simp
  have nb: "neighbors s c 0 p [] k kr [] ?t (Lf b eb) rs" using A(1,2,4,6) r(1) by (simp add: neighbors_def)
  have T: "plug (?f # c) ?t = plug c (Nd p ([] @ k # kr) ([] @ Lf a es # Lf b eb # rs))" by (simp add: r(1))
  have tw: "twins s c p [] k kr [] a es b eb rs" unfolding twins_def using nb A(3,7) T H(4) low by simp
  obtain n where n: "nodes s (root_of ?t) = Some n" "num_keys n = length es" "is_leaf n" using leaf_node [OF rt(1)] by (auto simp: node_lists_def)
  have ne: "a \<noteq> ?root" using child_not_root [OF A(2)] by simp
  have uf: "underflow a s = Inr (Some (b, - 1, 0, k))" using underflow_left [OF A(1,2,4,6) n(1)] n(2,3) few r(1) by simp
  have cb: "1 \<le> cut (order s - 1) \<and> cut (order s - 1) < order s - 1 \<and> cut (order s - 1) \<le> order s - 1 + 1 - cut (order s - 1)"
    by (rule cut_bounds) (use A(6) in simp)
  show ?thesis
  proof (cases "length eb + length es < order s")
    case True
    then have fi: "fits_in_one a b s = Inr True" using fits_in_one_leaf [OF rt] by simp
    show ?thesis unfolding T
      by (rule tidied_merge [OF tw _ _ _ uf fi]) (use True r ne T in auto)
  next
    case False
    then have fi: "fits_in_one a b s = Inr False" using fits_in_one_leaf [OF rt] by simp
    have big: "Suc (cut (order s - 1)) \<le> length eb" using False few cb by linarith
    then obtain e f eR where eb: "eb = e # f # eR" using cb by (cases eb; cases "tl eb") auto
    have bl: "length es < order s - 1" using few cb by linarith
    obtain s' where s': "redistribute_nodes ?root a b (- 1) (length ([] :: int list)) k s = Inr (?root, s')"
      "leaves_moved s c p [] k kr [] a es b (e # f # eR) rs (fst f) (es @ [e]) (f # eR) s'"
      using leaf_borrow_right [OF nb [unfolded eb] bl, of ?root] r(3) eb by auto
    then have mv: "leaves_moved s c p [] k kr [] a es b eb rs (fst (hd (f # eR))) (es @ [e]) (f # eR) s'" by (simp add: eb)
    show ?thesis unfolding T
      by (rule tidied_borrow [OF tw _ uf fi _ _ mv]) (use s'(1) ne T A(5) r few big eb bl in auto)
  qed
qed

lemma leaf_rebalance_right:
  assumes st: "leaf_short s (Fr p (kl @ [k]) (ls @ [l]) kr rs # c) a es" and few: "length es < cut (order s - 1)"
  shows "tidied s (after_removal (root_of (plug (Fr p (kl @ [k]) (ls @ [l]) kr rs # c) (Lf a es))) a s)
    (plug (Fr p (kl @ [k]) (ls @ [l]) kr rs # c) (Lf a es))"
proof -
  let ?f = "Fr p (kl @ [k]) (ls @ [l]) kr rs" and ?t = "Lf a es"
  let ?root = "root_of (plug (?f # c) ?t)"
  have A: "represents s 0 (plug (?f # c) ?t)" "distinct (addrs (plug (?f # c) ?t))" "ordered (plug (?f # c) ?t)"
    "frames_shape (order s) 0 (?f # c)" "cut (order s - 1) \<le> Suc (length es)" "3 \<le> order s"
    "chained s (leaves (flat (plug (?f # c) ?t))) 0" using st by (simp_all add: leaf_short_def)
  note H = hole_parent [OF A(1,2,4)]
  have "shape (order s) True 0 l" using H(4) by simp
  from leaf_shape [OF this] obtain b eb where l: "l = Lf b eb" "cut (order s - 1) \<le> length eb" "length eb \<le> order s - 1" by blast
  have rt: "represents s p ?t" "represents s p (Lf b eb)" using H(3) l(1) by simp_all
  have low: "(if c \<noteq> [] then cut (order s) - 1 else 1) \<le> Suc (length kl + length kr)" using H(10) by simp
  have nb: "neighbors s c 0 p kl k kr ls (Lf b eb) ?t rs" using A(1,2,4,6) l(1) by (simp add: neighbors_def)
  have T: "plug (?f # c) ?t = plug c (Nd p (kl @ k # kr) (ls @ Lf b eb # Lf a es # rs))" by (simp add: l(1))
  have tw: "twins s c p kl k kr ls b eb a es rs" unfolding twins_def using nb A(3,7) T H(4) low by simp
  obtain n where n: "nodes s (root_of ?t) = Some n" "num_keys n = length es" "is_leaf n" using leaf_node [OF rt(1)] by (auto simp: node_lists_def)
  have ne: "a \<noteq> ?root" using child_not_root [OF A(2)] by simp
  have len: "length ls = length kl" using nb by (simp add: neighbors_def)
  have uf: "underflow a s = Inr (Some (b, int (length ls), length kl, k))"
    using underflow_right [OF A(1,2,4,6) n(1)] n(2,3) few l(1) len by simp
  have cb: "1 \<le> cut (order s - 1) \<and> cut (order s - 1) < order s - 1 \<and> cut (order s - 1) \<le> order s - 1 + 1 - cut (order s - 1)"
    by (rule cut_bounds) (use A(6) in simp)
  show ?thesis
  proof (cases "length eb + length es < order s")
    case True
    then have fi: "fits_in_one a b s = Inr True" using fits_in_one_leaf [OF rt] by simp
    show ?thesis unfolding T
      by (rule tidied_merge [OF tw _ _ _ uf fi]) (use True l ne T in auto)
  next
    case False
    then have fi: "fits_in_one a b s = Inr False" using fits_in_one_leaf [OF rt] by simp
    have big: "Suc (cut (order s - 1)) \<le> length eb" using False few cb by linarith
    then obtain e eL where eb: "eb = eL @ [e]" using cb by (cases eb rule: rev_cases) auto
    have bl: "length es < order s - 1" "length eL < order s - 1" using few cb l(3) eb by (linarith, simp)
    obtain s' where s': "redistribute_nodes ?root a b (int (length ls)) (length kl) k s = Inr (?root, s')"
      "leaves_moved s c p kl k kr ls b (eL @ [e]) a es rs (fst e) eL (e # es) s'"
      using leaf_borrow_left [OF nb [unfolded eb] bl(2,1), of "int (length ls)" ?root] by auto
    then have mv: "leaves_moved s c p kl k kr ls b eb a es rs (fst (hd (e # es))) eL (e # es) s'" by (simp add: eb)
    show ?thesis unfolding T
      by (rule tidied_borrow [OF tw _ uf fi _ _ mv]) (use s'(1) ne T A(5) l few big eb bl in auto)
  qed
qed

lemma leaf_rebalance:
  assumes st: "leaf_short s c a es" and ne: "c \<noteq> [] \<or> es \<noteq> []"
  shows "tidied s (after_removal (root_of (plug c (Lf a es))) a s) (plug c (Lf a es))"
proof -
  have A: "represents s 0 (plug c (Lf a es))" "distinct (addrs (plug c (Lf a es)))" "ordered (plug c (Lf a es))"
    "frames_shape (order s) 0 c" "length es \<le> order s - 1" "3 \<le> order s"
    "chained s (leaves (flat (plug c (Lf a es)))) 0" using st by (simp_all add: leaf_short_def)
  have same: "tidied s (Some (Inr (root_of (plug c (Lf a es)), s))) (plug c (Lf a es))" if "shape (order s) (c \<noteq> []) 0 (Lf a es)"
    unfolding tidied_def using A(1-3,7) plug_shape [OF A(4) that]
    by (intro exI [of _ s] exI [of _ "plug c (Lf a es)"]) (auto simp: quiet_def)
  obtain n where n: "nodes s a = Some n" "num_keys n = length es" "is_leaf n"
    using A(1) represents_plug [OF A(4)] leaf_node [of s "top c" a es] by (auto simp: node_lists_def)
  show ?thesis
  proof (cases c)
    case Nil
    then have "after_removal (root_of (plug c (Lf a es))) a s = Some (Inr (root_of (plug c (Lf a es)), s))"
      using n ne by (simp add: after_removal_def adjust_root_def node_at_def)
    moreover have "1 \<le> length es" using ne Nil by (cases es) auto
    then have "shape (order s) (c \<noteq> []) 0 (Lf a es)" using Nil A(5) by simp
    ultimately show ?thesis using same by simp
  next
    case (Cons f d)
    obtain p kl ls kr rs where f: "f = Fr p kl ls kr rs" by (cases f)
    note H = hole_parent [OF A(1,2,4) [unfolded Cons f]]
    show ?thesis
    proof (cases "length es < cut (order s - 1)")
      case few: True
      show ?thesis
      proof (cases ls rule: rev_cases)
        case Nil
        then have e: "kl = []" "ls = []" using H(6) by simp_all
        moreover have "kr \<noteq> []" using H(10) e cut_least(1) [OF A(6)] by (auto split: if_splits)
        then obtain k kr' where kr: "kr = k # kr'" by (cases kr) auto
        moreover obtain r rs' where "rs = r # rs'" using H(7) kr by (cases rs) auto
        ultimately show ?thesis using leaf_rebalance_left [of s p k kr' r rs' d a es] st few by (simp add: f Cons)
      next
        case (snoc ls' l)
        moreover from this obtain kl' k where "kl = kl' @ [k]" using H(6) by (cases kl rule: rev_cases) auto
        ultimately show ?thesis using leaf_rebalance_right [of s p kl' k ls' l kr rs d a es] st few by (simp add: f Cons)
      qed
    next
      case False
      then have "underflow a s = Inr None" using n by (intro underflow_enough [OF n(1)]) auto
      moreover have "a \<noteq> root_of (plug c (Lf a es))" using child_not_root [OF A(2) [unfolded Cons]] Cons by simp
      ultimately have "after_removal (root_of (plug c (Lf a es))) a s = Some (Inr (root_of (plug c (Lf a es)), s))"
        using after_removal_enough by blast
      then show ?thesis using same A(5) False Cons by simp
    qed
  qed
qed

section \<open>Deletion from the map\<close>

lemma find_key_at:
  "tree_at s root t \<Longrightarrow> \<exists>c a es. leaf_place s t key c a es \<and>
    find_key root key False s = Inr ((case map_of (entries (flat t)) key of None \<Rightarrow> 0 | Some r \<Rightarrow> r, a), s)"
  using find_key_place [of s root t key] unfolding leaf_place_def by blast

lemma map_of_without:
  "distinct (map fst (xs @ (k, r) # ys)) \<Longrightarrow> map_of (xs @ ys) = (map_of (xs @ (k, r) # ys))(k := None)"
proof -
  assume d: "distinct (map fst (xs @ (k, r) # ys))"
  have "map_of xs k = None" "map_of ys k = None" using d by (auto simp: map_of_eq_None_iff)
  then show ?thesis by (auto simp: fun_eq_iff map_add_def split: option.splits)
qed

lemma removed_leaf:
  assumes ix: "index_tree s root t" and pl: "leaf_place s t key c a (xs @ (key, r) # ys)"
  shows "\<exists>s1. on_node a (remove_entry_from_node (order s) key r) s = Inr s1 \<and> leaf_short s1 c a (xs @ ys) \<and> quiet {a} s s1"
proof -
  let ?es = "xs @ (key, r) # ys"
  have ta: "tree_at s root t" "distinct (addrs t)" "chained s (leaves (flat t)) 0" "records_ok s (entries (flat t))"
    using ix by (simp_all add: index_tree_def)
  note F = place_facts [OF pl ta(1,2)]
  obtain n where n: "nodes s a = Some n" "a \<noteq> 0" "node_lists n (map fst ?es) (map snd ?es)" "parent n = top c" "is_leaf n" using F(1) by blast
  have fs: "frames_shape (order s) 0 c" and t: "t = plug c (Lf a ?es)" and sz: "shape (order s) (c \<noteq> []) 0 (Lf a ?es)" and od: "3 \<le> order s"
    using pl ta(1) by (simp_all add: leaf_place_def tree_at_def)
  have "distinct (map snd ?es)" using ta(4) F(3) by (auto simp: records_ok_def)
  then have rx: "r \<notin> snd ` set xs" by auto
  have kx: "key \<notin> fst ` set xs" using F(4) by (auto simp: sorted_wrt_append)
  have lim: "length ?es \<le> order s - 1" using sz by simp
  obtain n' where n': "remove_entry_from_node (order s) key r n = Inr n'" "node_lists n' (map fst (xs @ ys)) (map snd (xs @ ys))"
    "parent n' = parent n" "is_leaf n'" "pointers n' (order s - 1) = pointers n (order s - 1)"
    using remove_from_leaf [OF n(3,5) kx rx lim] by blast
  let ?s = "put_node a n' s" and ?u = "plug c (Lf a (xs @ ys))"
  have o: "order ?s = order s" by (simp add: put_node_def)
  have run: "on_node a (remove_entry_from_node (order s) key r) s = Inr ?s" using n(1) n'(1) by (simp add: on_node_def node_at_def)
  have "\<forall>x \<in> set (around c). nodes ?s x = nodes s x" using F(5) by (auto simp: put_node_def)
  then have "frames_in ?s a c" using frames_in_cong F(2) by blast
  moreover have "represents ?s (top c) (Lf a (xs @ ys))" using n n' by (simp add: put_node_def)
  ultimately have rep: "represents ?s 0 ?u" using represents_plug [OF fs] by simp
  have dist: "distinct (addrs ?u)" using ta(2) t by (simp add: plug_distinct)
  have fl: "flat ?u = before_hole c @ Page a (xs @ ys) # after_hole c" using flat_plug [OF fs] by simp
  have "sorted_wrt (<) (ranks (before_hole c @ Page a ?es # after_hole c))" using ta(1) F(3) by (simp add: tree_at_def ordered_def)
  then have ord: "ordered ?u" unfolding ordered_def fl by (auto simp: sorted_wrt_append)
  have "next_leaf ?s x = next_leaf s x" for x using n(1) n'(5) by (auto simp: next_leaf_def put_node_def split: option.split)
  then have "chained ?s (leaves (flat t)) 0" using chained_cong [of "leaves (flat t)" ?s s 0] ta(3) by simp
  then have ch: "chained ?s (leaves (flat ?u)) 0" unfolding fl F(3) by simp
  have "leaf_short ?s c a (xs @ ys)"
    unfolding leaf_short_def o using rep dist ord fs ch od sz by (auto split: if_splits)
  moreover have "quiet {a} s ?s" using n(1) by (auto simp: quiet_def put_node_def)
  ultimately show ?thesis using run by blast
qed

lemma delete_entry_place:
  assumes ix: "index_tree s root t" and pl: "leaf_place s t key c a (xs @ (key, r) # ys)"
  shows "if c = [] \<and> xs @ ys = [] then \<exists>s'. delete_entry root a key r s = Some (Inr (0, s')) \<and> quiet {a} s s'
    else \<exists>s' t'. delete_entry root a key r s = Some (Inr (root_of t', s')) \<and> tree_at s' (root_of t') t' \<and> distinct (addrs t') \<and>
      chained s' (leaves (flat t')) 0 \<and> quiet (set (addrs t)) s s' \<and>
      entries (flat t') = entries (before_hole c) @ xs @ ys @ entries (after_hole c)"
proof -
  obtain s1 where s1: "on_node a (remove_entry_from_node (order s) key r) s = Inr s1" "leaf_short s1 c a (xs @ ys)" "quiet {a} s s1"
    using removed_leaf [OF assms] by blast
  have run: "delete_entry root a key r s = after_removal root a s1" by (rule delete_entry_removal [OF s1(1)])
  have t: "t = plug c (Lf a (xs @ (key, r) # ys))" "frames_shape (order s) 0 c" "root = root_of t" "3 \<le> order s"
    using pl ix by (simp_all add: leaf_place_def index_tree_def tree_at_def)
  then have root: "root = root_of (plug c (Lf a (xs @ ys)))" by (simp add: root_of_plug)
  have o: "order s1 = order s" using quiet_order [OF s1(3)] by simp
  show ?thesis
  proof (cases "c = [] \<and> xs @ ys = []")
    case True
    then obtain n where n: "nodes s1 a = Some n" "num_keys n = 0" "is_leaf n"
      using s1(2) leaf_node [of s1 0 a "[]"] by (auto simp: leaf_short_def node_lists_def)
    let ?s = "s1\<lparr>nodes := (nodes s1)(a := None)\<rparr>"
    have "delete_entry root a key r s = Some (Inr (0, ?s))"
      unfolding run using n True root by (simp add: after_removal_def adjust_root_def node_at_def free_node_def)
    moreover have "quiet {a} s ?s" using s1(3) nodes_only [of s1 s "(nodes s1)(a := None)"] by (simp add: quiet_def)
    ultimately show ?thesis using True by auto
  next
    case False
    then have "tidied s1 (after_removal root a s1) (plug c (Lf a (xs @ ys)))"
      unfolding root using leaf_rebalance [OF s1(2)] by auto
    then obtain s' t' where t': "after_removal root a s1 = Some (Inr (root_of t', s'))" "represents s' 0 t'" "\<exists>H. shape (order s1) False H t'"
      "ordered t'" "entries (flat t') = entries (flat (plug c (Lf a (xs @ ys))))" "distinct (addrs t')" "chained s' (leaves (flat t')) 0"
      "quiet (set (addrs (plug c (Lf a (xs @ ys))))) s1 s'" unfolding tidied_def by blast
    have "order s' = order s" using quiet_order [OF t'(8)] o by simp
    then have "tree_at s' (root_of t') t'" using t' t(4) o by (simp add: tree_at_def)
    moreover have "quiet (set (addrs t)) s s'"
      by (rule quiet_trans [OF s1(3) t'(8)]) (auto simp: t(1) plug_addrs)
    moreover have "entries (flat t') = entries (before_hole c) @ xs @ ys @ entries (after_hole c)"
      using t'(5) flat_plug [OF t(2)] by simp
    ultimately show ?thesis using False t'(1,6,7) run by auto
  qed
qed

lemma quiet_ready: "quiet as s s' \<Longrightarrow> ready s \<Longrightarrow> ready s'"
  using quiet_order [of as s s'] by (auto simp: ready_def quiet_def)

lemma delete_key_ok:
  assumes "index_in s root m"
  shows "\<exists>root' s'. delete_key root key s = Inr (root', s') \<and> index_in s' root' (m(key := None))"
proof (cases "root = 0")
  case True
  then show ?thesis using assms by (simp add: delete_key_def find_key_def index_in_def)
next
  case False
  then obtain t where t: "index_tree s root t" "m = stored s t" using assms by (auto simp: index_in_def)
  have ta: "tree_at s root t" "distinct (addrs t)" "records_ok s (entries (flat t))" "ready s" using t(1) by (simp_all add: index_tree_def)
  obtain c a es where pl: "leaf_place s t key c a es"
    "find_key root key False s = Inr ((case map_of (entries (flat t)) key of None \<Rightarrow> 0 | Some r \<Rightarrow> r, a), s)" using find_key_at [OF ta(1)] by blast
  note F = place_facts [OF pl(1) ta(1,2)]
  show ?thesis
  proof (cases "map_of (entries (flat t)) key")
    case None
    then have "m(key := None) = m" using t(2) by (auto simp: stored_def fun_eq_iff)
    then show ?thesis using pl(2) None assms by (simp add: delete_key_def)
  next
    case (Some r)
    then have "(key, r) \<in> set es" using F(6) map_of_SomeD by fastforce
    then obtain xs ys where es: "es = xs @ (key, r) # ys" by (meson split_list)
    have r: "r \<noteq> 0" "recs s r \<noteq> None" using stored_entry [OF t(1), of key] Some by simp_all
    have a: "a \<noteq> 0" using F(1) by blast
    have ents: "entries (flat t) = (entries (before_hole c) @ xs) @ (key, r) # ys @ entries (after_hole c)" using F(3) es by simp
    have srt: "sorted_wrt (<) (map fst (entries (flat t)))" using ta(1) sorted_entries by (simp add: tree_at_def ordered_def)
    then have dk: "distinct (map fst ((entries (before_hole c) @ xs) @ (key, r) # ys @ entries (after_hole c)))"
      unfolding ents [symmetric] by (simp add: strict_sorted_iff)
    note del = delete_entry_place [OF t(1) pl(1) [unfolded es]]
    show ?thesis
    proof (cases "c = [] \<and> xs @ ys = []")
      case True
      then obtain s' where s': "delete_entry root a key r s = Some (Inr (0, s'))" "quiet {a} s s'" using del by auto
      note q = quiet_order [OF s'(2)]
      let ?s = "s'\<lparr>recs := (recs s')(r := None)\<rparr>"
      have "delete_key root key s = Inr (0, ?s)"
        using pl(2) Some r a s'(1) q by (auto simp: delete_key_def joined_def returns_def free_record_def)
      moreover have "stored s t = [key \<mapsto> the (recs s r)]" using ents True r by (auto simp: stored_def fun_eq_iff)
      moreover have "ready ?s" using quiet_ready [OF s'(2) ta(4)] by (auto simp: ready_def)
      moreover have "3 \<le> order ?s" using ta(1) q by (simp add: tree_at_def)
      ultimately show ?thesis using t(2) by (auto simp: index_in_def fun_eq_iff)
    next
      case False
      then obtain s' t' where t': "delete_entry root a key r s = Some (Inr (root_of t', s'))" "tree_at s' (root_of t') t'" "distinct (addrs t')"
        "chained s' (leaves (flat t')) 0" "quiet (set (addrs t)) s s'"
        "entries (flat t') = entries (before_hole c) @ xs @ ys @ entries (after_hole c)" using del by auto
      note q = quiet_order [OF t'(5)]
      let ?s = "s'\<lparr>recs := (recs s')(r := None)\<rparr>"
      have run: "delete_key root key s = Inr (root_of t', ?s)"
        using pl(2) Some r a t'(1) q by (auto simp: delete_key_def joined_def returns_def free_record_def)
      have mo: "map_of (entries (flat t')) = (map_of (entries (flat t)))(key := None)"
        using map_of_without [OF dk] unfolding t'(6) ents by simp
      have dv: "distinct (map snd (entries (flat t)))" using ta(3) by (simp add: records_ok_def)
      then have ro: "records_ok ?s (entries (flat t'))"
        using ta(3) q unfolding records_ok_def ents t'(6) by auto
      have "represents ?s 0 t' = represents s' 0 t'" by (rule represents_cong) simp
      then have "tree_at ?s (root_of t') t'" using t'(2) by (simp add: tree_at_def)
      moreover have "chained ?s (leaves (flat t')) 0 = chained s' (leaves (flat t')) 0"
        by (rule chained_cong) (simp add: next_leaf_def split: option.split)
      moreover have "ready ?s" using quiet_ready [OF t'(5) ta(4)] by (auto simp: ready_def)
      ultimately have ix: "index_tree ?s (root_of t') t'" using t'(3,4) ro by (simp add: index_tree_def)
      have "stored ?s t' k = ((stored s t)(key := None)) k" for k
      proof (cases "k = key")
        case True
        then show ?thesis using mo by (simp add: stored_def)
      next
        case k: False
        show ?thesis
        proof (cases "map_of (entries (flat t)) k")
          case None
          then show ?thesis using mo k by (simp add: stored_def)
        next
          case r': (Some r')
          then have "r' \<noteq> r" using map_of_distinct_values [OF dv Some, of k] k by blast
          then show ?thesis using mo k r' q by (simp add: stored_def)
        qed
      qed
      then have "stored ?s t' = m(key := None)" using t(2) by (simp add: fun_eq_iff)
      then show ?thesis using run ix root_nonzero [OF ix] by (auto simp: index_in_def)
    qed
  qed
qed

section \<open>Destroying the tree\<close>

text \<open>The store without some nodes and records.\<close>

definition without :: "store \<Rightarrow> addr set \<Rightarrow> addr set \<Rightarrow> store" where
  "without s as rs = s\<lparr>nodes := (\<lambda>x. if x \<in> as then None else nodes s x), recs := (\<lambda>x. if x \<in> rs then None else recs s x)\<rparr>"

lemma without_simps [simp]:
  "nodes (without s as rs) x = (if x \<in> as then None else nodes s x)" "recs (without s as rs) x = (if x \<in> rs then None else recs s x)"
  "order (without s as rs) = order s" "without (without s as rs) bs ss = without s (as \<union> bs) (rs \<union> ss)"
  by (auto simp: without_def fun_eq_iff)

lemma free_records_list:
  assumes "holds (pointers n) ps" and "num_keys n = length ps" and "length ps \<le> order s" and "i \<le> length ps" and "distinct ps"
    and "\<forall>p \<in> set (drop i ps). recs s p \<noteq> None"
  shows "free_records n i s = Inr (without s {} (set (drop i ps)))"
  using assms(3,4,6)
proof (induction "length ps - i" arbitrary: i s)
  case 0
  then show ?case using assms(2) by (simp add: free_records.simps [of _ i] without_def)
next
  case (Suc d)
  then have i: "i < length ps" by simp
  then have dr: "drop i ps = ps ! i # drop (Suc i) ps" by (simp add: Cons_nth_drop_Suc)
  let ?s = "without s {} {ps ! i}"
  have fr: "free_record (ps ! i) s = Inr ?s" using Suc.prems(3) dr by (auto simp: free_record_def without_def fun_eq_iff)
  have "ps ! i \<notin> set (drop (Suc i) ps)" using assms(5) dr by (metis distinct.simps(2) distinct_drop)
  then have "free_records n (Suc i) ?s = Inr (without ?s {} (set (drop (Suc i) ps)))"
    by (intro Suc.hyps(1)) (use Suc dr in auto)
  then show ?case using i fr dr ptr_at_list [OF assms(1) i Suc.prems(1)] assms(2) by (simp add: free_records.simps [of _ i])
qed

lemma destroy_children:
  assumes IH: "\<And>t s. t \<in> set ts \<Longrightarrow> represents s a t \<Longrightarrow> order s = ord \<Longrightarrow> \<forall>r \<in> snd ` set (entries (flat t)). recs s r \<noteq> None \<Longrightarrow>
      destroy_tree_nodes (root_of t) 0 s = Some (Inr (without s (set (addrs t)) (snd ` set (entries (flat t)))))"
    and n: "node_lists n ks (map root_of ts)" "\<not> is_leaf n" "length ts = Suc (length ks)" "length ts \<le> ord"
    and d: "distinct (concat (map addrs ts))" "a \<notin> set (concat (map addrs ts))" "distinct (concat (map (map snd \<circ> entries \<circ> flat) ts))"
  shows "i \<le> length ts \<Longrightarrow> nodes s a = Some n \<Longrightarrow> order s = ord \<Longrightarrow> \<forall>t \<in> set (drop i ts). represents s a t \<and> (\<forall>r \<in> snd ` set (entries (flat t)). recs s r \<noteq> None) \<Longrightarrow>
    destroy_tree_nodes a i s = Some (Inr (without s (insert a (\<Union>t \<in> set (drop i ts). set (addrs t))) (\<Union>t \<in> set (drop i ts). snd ` set (entries (flat t)))))"
proof (induction "length ts - i" arbitrary: i s)
  case 0
  then have "destroy_tree_nodes a i s = Some (free_node a s)"
    using n by (simp add: destroy_tree_nodes.simps [of a] node_at_def node_lists_def)
  moreover have "free_node a s = Inr (without s {a} {})" using 0 by (auto simp: free_node_def node_at_def without_def fun_eq_iff)
  ultimately show ?case using 0 by simp
next
  case (Suc k)
  then have i: "i < length ts" by simp
  then have dr: "drop i ts = ts ! i # drop (Suc i) ts" by (simp add: Cons_nth_drop_Suc)
  let ?t = "ts ! i"
  let ?s = "without s (set (addrs ?t)) (snd ` set (entries (flat ?t)))"
  have t: "?t \<in> set ts" "represents s a ?t" "\<forall>r \<in> snd ` set (entries (flat ?t)). recs s r \<noteq> None" using i Suc.prems(4) dr by auto
  have first: "destroy_tree_nodes (root_of ?t) 0 s = Some (Inr ?s)" by (rule IH [OF t(1,2) Suc.prems(3) t(3)])
  have split: "ts = take i ts @ ?t # drop (Suc i) ts" using i by (simp add: id_take_nth_drop)
  have apart: "set (addrs ?t) \<inter> set (addrs u) = {}" "snd ` set (entries (flat ?t)) \<inter> snd ` set (entries (flat u)) = {}" if "u \<in> set (drop (Suc i) ts)" for u
  proof -
    have "distinct (concat (map addrs (take i ts @ ?t # drop (Suc i) ts)))" "distinct (concat (map (map snd \<circ> entries \<circ> flat) (take i ts @ ?t # drop (Suc i) ts)))"
      using d(1,3) split by simp_all
    then have "set (addrs ?t) \<inter> (\<Union>u \<in> set (drop (Suc i) ts). set (addrs u)) = {}"
      "snd ` set (entries (flat ?t)) \<inter> (\<Union>u \<in> set (drop (Suc i) ts). snd ` set (entries (flat u))) = {}" by simp_all
    then show "set (addrs ?t) \<inter> set (addrs u) = {}" "snd ` set (entries (flat ?t)) \<inter> snd ` set (entries (flat u)) = {}" using that by blast+
  qed
  have rest: "\<forall>u \<in> set (drop (Suc i) ts). represents ?s a u \<and> (\<forall>r \<in> snd ` set (entries (flat u)). recs ?s r \<noteq> None)"
  proof
    fix u assume u: "u \<in> set (drop (Suc i) ts)"
    then have "represents s a u" "\<forall>r \<in> snd ` set (entries (flat u)). recs s r \<noteq> None" using Suc.prems(4) dr by auto
    moreover have "\<forall>x \<in> set (addrs u). nodes ?s x = nodes s x" using apart(1) [OF u] by auto
    ultimately show "represents ?s a u \<and> (\<forall>r \<in> snd ` set (entries (flat u)). recs ?s r \<noteq> None)"
      using represents_cong [of u ?s s a] apart(2) [OF u] by auto
  qed
  have "a \<notin> set (addrs ?t)" using d(2) t(1) by auto
  then have "nodes ?s a = Some n" using Suc.prems(2) by simp
  then have go_on: "destroy_tree_nodes a (Suc i) ?s = Some (Inr (without ?s (insert a (\<Union>t \<in> set (drop (Suc i) ts). set (addrs t)))
      (\<Union>t \<in> set (drop (Suc i) ts). snd ` set (entries (flat t)))))"
    by (intro Suc.hyps(1)) (use Suc.hyps(2) Suc.prems(3) i rest in simp_all)
  have "ptr_at (order s) n i = Inr (root_of ?t)" using ptr_at_list [of n "map root_of ts" i "order s"] n i Suc.prems(3) by (simp add: node_lists_def)
  moreover have "num_keys n + 1 = length ts" using n by (simp add: node_lists_def)
  ultimately have "destroy_tree_nodes a i s = destroy_tree_nodes a (Suc i) ?s"
    using Suc.prems(2) n(2) i first by (simp add: destroy_tree_nodes.simps [of a i] node_at_def)
  then show ?case unfolding go_on dr by (simp add: Un_insert_right Un_assoc)
qed

lemma entries_weave_concat: "length xss = Suc (length ks) \<Longrightarrow> entries (weave ks xss) = concat (map entries xss)"
  by (induction ks xss rule: weave.induct) auto

lemma destroy_nodes:
  assumes "represents s p t" and "shape (order s) low h t" and "distinct (addrs t)" and "distinct (map snd (entries (flat t)))"
    and "\<forall>r \<in> snd ` set (entries (flat t)). recs s r \<noteq> None" and "3 \<le> order s"
  shows "destroy_tree_nodes (root_of t) 0 s = Some (Inr (without s (set (addrs t)) (snd ` set (entries (flat t)))))"
  using assms
proof (induction t arbitrary: p low h s)
  case (Lf a es)
  obtain n where n: "nodes s a = Some n" "node_lists n (map fst es) (map snd es)" "is_leaf n" using leaf_node [OF Lf.prems(1)] by blast
  have "free_records n 0 s = Inr (without s {} (set (drop 0 (map snd es))))"
    by (rule free_records_list) (use n Lf.prems in \<open>auto simp: node_lists_def\<close>)
  then show ?case using n
    by (auto simp: destroy_tree_nodes.simps [of a] node_at_def free_node_def without_def fun_eq_iff)
next
  case (Nd a ks ts)
  obtain n where n: "nodes s a = Some n" "node_lists n ks (map root_of ts)" "\<not> is_leaf n" using inner_node(1) [OF Nd.prems(1)] by blast
  have ch: "\<forall>t \<in> set ts. represents s a t" by (rule inner_node(2) [OF Nd.prems(1)])
  have sz: "length ts = Suc (length ks)" "length ks \<le> order s - 1" "\<forall>t \<in> set ts. shape (order s) True (h - 1) t" using Nd.prems(2) by simp_all
  have d: "distinct (concat (map addrs ts))" "a \<notin> set (concat (map addrs ts))" using Nd.prems(3) by auto
  have en: "entries (flat (Nd a ks ts)) = concat (map (entries \<circ> flat) ts)" using entries_weave_concat [of "map flat ts" ks] sz(1) by (simp add: comp_assoc)
  have dr: "distinct (concat (map (map snd \<circ> entries \<circ> flat) ts))"
    using Nd.prems(4) unfolding en map_concat by (simp add: comp_def)
  have each: "destroy_tree_nodes (root_of t) 0 s' = Some (Inr (without s' (set (addrs t)) (snd ` set (entries (flat t)))))"
    if "t \<in> set ts" "represents s' a t" "order s' = order s" "\<forall>r \<in> snd ` set (entries (flat t)). recs s' r \<noteq> None" for t s'
  proof (rule Nd.IH [OF that(1,2) _ _ _ that(4)])
    show "shape (order s') True (h - 1) t" using sz(3) that(1,3) by simp
    show "distinct (addrs t)" "distinct (map snd (entries (flat t)))" using d(1) dr that(1) by (auto simp: distinct_concat_iff)
    show "3 \<le> order s'" using Nd.prems(6) that(3) by simp
  qed
  have "destroy_tree_nodes a 0 s = Some (Inr (without s (insert a (\<Union>t \<in> set (drop 0 ts). set (addrs t))) (\<Union>t \<in> set (drop 0 ts). snd ` set (entries (flat t)))))"
    by (rule destroy_children [of ts a "order s" n ks, OF each n(2,3) sz(1) _ d dr]) (use n(1) sz ch Nd.prems(5,6) en in auto)
  moreover have "snd ` set (entries (flat (Nd a ks ts))) = (\<Union>t \<in> set ts. snd ` set (entries (flat t)))" unfolding en by auto
  ultimately show ?case by simp
qed

lemma destroy_ok:
  assumes "index_tree s root t"
  shows "destroy_tree root s = Inr (0, without s (set (addrs t)) (snd ` set (entries (flat t))))"
proof -
  have t: "root = root_of t" "represents s 0 t" "\<exists>h. shape (order s) False h t" "3 \<le> order s" "distinct (addrs t)" "records_ok s (entries (flat t))"
    using assms by (simp_all add: index_tree_def tree_at_def)
  then obtain h where "shape (order s) False h t" by blast
  from destroy_nodes [OF t(2) this t(5) _ _ t(4)] t(1,6) show ?thesis
    by (simp add: records_ok_def destroy_tree_def joined_def returns_def)
qed

section \<open>The index with deletion as an interface\<close>

text \<open>The updates of an index, and what a sequence of them makes of a map.\<close>

datatype update = Put int int | Drop int

fun update_map :: "update \<Rightarrow> (int \<Rightarrow> int option) \<Rightarrow> (int \<Rightarrow> int option)" where
  "update_map (Put k v) m = m(k \<mapsto> v)"
| "update_map (Drop k) m = m(k := None)"

locale dictionary = key_index +
  fixes drop_key :: "int \<Rightarrow> 'a \<Rightarrow> 'a res"
  assumes drop_ok: "contents s m \<Longrightarrow> \<exists>s'. drop_key k s = Inr s' \<and> contents s' (m(k := None))"
begin

fun run_update :: "update \<Rightarrow> 'a \<Rightarrow> 'a res" where
  "run_update (Put k v) s = put k v s"
| "run_update (Drop k) s = drop_key k s"

fun run_updates :: "update list \<Rightarrow> 'a \<Rightarrow> 'a res" where
  "run_updates [] s = Inr s"
| "run_updates (u # us) s = bindE (run_update u s) (run_updates us)"

lemma run_update_ok: "contents s m \<Longrightarrow> \<exists>s'. run_update u s = Inr s' \<and> contents s' (update_map u m)"
  using put_ok drop_ok by (cases u) simp_all

lemma run_updates_ok: "contents s m \<Longrightarrow> \<exists>s'. run_updates us s = Inr s' \<and> contents s' (fold update_map us m)"
proof (induction us arbitrary: s m)
  case (Cons u us)
  obtain s1 where s1: "run_update u s = Inr s1" "contents s1 (update_map u m)" using run_update_ok [OF Cons.prems] by blast
  show ?case using Cons.IH [OF s1(2)] s1(1) by simp
qed simp

lemma look_after_updates: "contents s m \<Longrightarrow> bindE (run_updates us s) (look k) = Inr (fold update_map us m k)"
  using run_updates_ok [of s m us] look_ok by fastforce

end

definition tree_drop :: "int \<Rightarrow> addr \<times> store \<Rightarrow> (addr \<times> store) res" where
  "tree_drop k x = delete_key (fst x) k (snd x)"

interpretation bplus_dict: dictionary tree_contents tree_put tree_look tree_drop
proof
  show "\<exists>s'. tree_drop k s = Inr s' \<and> tree_contents s' (m(k := None))" if "tree_contents s m" for s m k
    using delete_key_ok [of "snd s" "fst s" m k] that by (auto simp: tree_drop_def tree_contents_def)
qed

fun tree_update :: "update \<Rightarrow> addr \<times> store \<Rightarrow> (addr \<times> store) res" where
  "tree_update (Put k v) x = tree_put k v x"
| "tree_update (Drop k) x = tree_drop k x"

fun tree_updates :: "update list \<Rightarrow> addr \<times> store \<Rightarrow> (addr \<times> store) res" where
  "tree_updates [] x = Inr x"
| "tree_updates (u # us) x = bindE (tree_update u x) (tree_updates us)"

lemma tree_updates_eq: "bplus_dict.run_updates = tree_updates"
proof (intro ext)
  have one: "bplus_dict.run_update u x = tree_update u x" for u x by (cases u) simp_all
  show "bplus_dict.run_updates us x = tree_updates us x" for us x
    by (induction us x rule: tree_updates.induct) (auto simp: bindE_def one split: sum.split)
qed

text \<open>A tree after some updates.\<close>

lemma updated_index:
  assumes "\<forall>i. \<not> fails s i" and "nodes s = Map.empty" and "recs s = Map.empty" and "3 \<le> order s"
  shows "\<exists>root s'. tree_updates us (0, s) = Inr (root, s') \<and> index_in s' root (fold update_map us Map.empty)"
proof -
  have "ready s" using assms by (simp add: ready_def)
  from bplus_dict.run_updates_ok [OF empty_index [OF this assms(4)], of us] show ?thesis
    by (simp add: tree_updates_eq tree_contents_def)
qed

section \<open>Properties\<close>

text \<open>
  C3: Starting from the empty tree of \<^verbatim>\<open>bplus_tree.c\<close>, any sequence of insertions and deletions
  succeeds for every order of at least 3, and looking up a key afterwards finds what the same
  updates of a map leave under it: the searches, splits, merges, borrowings and parent links
  neither fail, diverge, use a freed node nor read outside an array. (\<open>tree_update\<close> and \<open>tree_look\<close>
  call \<^verbatim>\<open>insert\<close>, \<^verbatim>\<open>delete\<close> and \<^verbatim>\<open>find\<close>.)
\<close>

theorem operations_refine_map:
  assumes "\<forall>i. \<not> fails s i" and "nodes s = Map.empty" and "recs s = Map.empty" and "3 \<le> order s"
  shows "bindE (tree_updates us (0, s)) (tree_look k) = Inr (fold update_map us Map.empty k)"
proof -
  have "ready s" using assms by (simp add: ready_def)
  then show ?thesis using bplus_dict.look_after_updates [OF empty_index [OF _ assms(4)], of us k] by (simp add: tree_updates_eq)
qed

theorem operations_refine_map_witness:
  "bindE (tree_updates [Put 5 50, Put 1 10, Put 7 70, Drop 1, Put 5 51, Drop 9] (0, initial)) (tree_look 5) = Inr (Some 51)"
  using operations_refine_map [of initial "[Put 5 50, Put 1 10, Put 7 70, Drop 1, Put 5 51, Drop 9]" 5] by (simp add: initial_def)

text \<open>
  C4: \<^verbatim>\<open>delete\<close> refines the removal of a key from a map: from a store that represents a B+ tree for
  the map \<open>m\<close>, it returns a root whose store represents a B+ tree for \<open>m\<close> without the key, with the
  whole invariant of \<open>index_in\<close> kept by the merges and borrowings on the way up.
\<close>

theorem delete_key_updates:
  assumes "index_in s root m"
  shows "\<exists>root' s'. delete_key root key s = Inr (root', s') \<and> index_in s' root' (m(key := None))"
  by (rule delete_key_ok [OF assms])

theorem delete_key_updates_witness:
  "\<exists>root s root' s'. demo 3 [(5, 50), (1, 10), (7, 70), (6, 60)] = Inr (root, s) \<and> delete_key root 5 s = Inr (root', s') \<and>
    index_in s' root' (map_of [(6, 60), (7, 70), (1, 10)])"
proof -
  obtain root s where d: "demo 3 [(5, 50), (1, 10), (7, 70), (6, 60)] = Inr (root, s)"
    "index_in s root (map_of [(6, 60), (7, 70), (1, 10), (5, 50)])" using demo_tree by blast
  have "(map_of [(6, 60), (7, 70), (1, 10), (5, 50)])(5 := None) = map_of [(6 :: int, 60 :: int), (7, 70), (1, 10)]" by (auto simp: fun_eq_iff)
  then show ?thesis using d(1) delete_key_updates [OF d(2), of 5] by auto
qed

text \<open>
  C36: \<^verbatim>\<open>destroy_tree\<close> frees every node and every record of the tree exactly once and nothing else,
  and never follows a pointer of a node it has freed.
\<close>

theorem destroy_tree_frees:
  assumes "index_tree s root t"
  shows "destroy_tree root s = Inr (0, without s (set (addrs t)) (snd ` set (entries (flat t))))"
  by (rule destroy_ok [OF assms])

theorem destroy_tree_frees_witness:
  "\<exists>root s t. demo 3 [(5, 50), (1, 10), (7, 70), (6, 60)] = Inr (root, s) \<and> map fst (entries (flat t)) \<noteq> [] \<and> represents s 0 t \<and>
    destroy_tree root s = Inr (0, without s (set (addrs t)) (snd ` set (entries (flat t))))"
proof -
  obtain root s where d: "demo 3 [(5, 50), (1, 10), (7, 70), (6, 60)] = Inr (root, s)"
    "root \<noteq> 0" "index_in s root (map_of [(6, 60), (7, 70), (1, 10), (5, 50)])" using demo_tree by blast
  then obtain t where t: "index_tree s root t" "map_of [(6, 60), (7, 70), (1, 10), (5, 50)] = stored s t" by (auto simp: index_in_def)
  have "stored s t 5 \<noteq> None" unfolding t(2) [symmetric] by simp
  then have "entries (flat t) \<noteq> []" by (auto simp: stored_def)
  moreover have "represents s 0 t" using t(1) by (simp add: index_tree_def tree_at_def)
  ultimately show ?thesis using d(1) destroy_tree_frees [OF t(1)] by auto
qed

end
