(* ===== verification/Sample_Lists.thy ===== *)
theory Sample_Lists
  imports Prelude "HOL-Library.Multiset"
begin

text \<open>
  The linked lists of \<^verbatim>\<open>sample/data_structure\<close> (\<^verbatim>\<open>merge_ordered_list.c\<close>, \<^verbatim>\<open>detect_cycle.c\<close>,
  \<^verbatim>\<open>find_from_end.c\<close>, \<^verbatim>\<open>get_intersection_node.c\<close>): nodes in memory, each program's routines and its
  \<^verbatim>\<open>main\<close>, and what the routines do to the list a pointer leads along. The loops end because of the
  shape of the lists, which the code does not check; each is the combinator \<open>loop\<close> with its body.
\<close>

section \<open>Nodes in memory\<close>

text \<open>
  The same \<^verbatim>\<open>struct node\<close> is declared in each of the programs. A field is None until something is
  stored in it; reading it before, and following a pointer to no node, is a fault. Addresses are
  numbers in the order of the calls of \<^verbatim>\<open>malloc\<close>, 0 is NULL, and \<open>no_room\<close> says which calls return NULL.
\<close>

record cell =
  cell_data :: "int option"
  cell_next :: "nat option"

record cell_memory =
  cells :: "nat \<Rightarrow> cell option"
  mallocs :: nat
  no_room :: "nat \<Rightarrow> bool"
  shown :: "piece list"

definition malloc_cell :: "cell_memory \<Rightarrow> nat \<times> cell_memory" where
  "malloc_cell s =
     (if no_room s (mallocs s) then (0, s\<lparr>mallocs := Suc (mallocs s)\<rparr>)
      else (Suc (mallocs s), s\<lparr>mallocs := Suc (mallocs s), cells := (cells s)(Suc (mallocs s) \<mapsto> \<lparr>cell_data = None, cell_next = None\<rparr>)\<rparr>))"

definition free_cell :: "nat \<Rightarrow> cell_memory \<Rightarrow> cell_memory res" where
  "free_cell a s = (if a = 0 then Inr s else if cells s a = None then Inl OutOfBounds else Inr (s\<lparr>cells := (cells s)(a := None)\<rparr>))"

definition the_field :: "'a option \<Rightarrow> 'a res" where
  "the_field x = (case x of None \<Rightarrow> Inl OutOfBounds | Some v \<Rightarrow> Inr v)"

definition data_of :: "nat \<Rightarrow> cell_memory \<Rightarrow> int res" where
  "data_of a s = bindE (the_field (cells s a)) (\<lambda>c. the_field (cell_data c))"

definition next_of :: "nat \<Rightarrow> cell_memory \<Rightarrow> nat res" where
  "next_of a s = bindE (the_field (cells s a)) (\<lambda>c. the_field (cell_next c))"

definition set_data :: "nat \<Rightarrow> int \<Rightarrow> cell_memory \<Rightarrow> cell_memory res" where
  "set_data a v s = bindE (the_field (cells s a)) (\<lambda>c. Inr (s\<lparr>cells := (cells s)(a \<mapsto> c\<lparr>cell_data := Some v\<rparr>)\<rparr>))"

definition set_link :: "nat \<Rightarrow> nat \<Rightarrow> cell_memory \<Rightarrow> cell_memory res" where
  "set_link a b s = bindE (the_field (cells s a)) (\<lambda>c. Inr (s\<lparr>cells := (cells s)(a \<mapsto> c\<lparr>cell_next := Some b\<rparr>)\<rparr>))"

section \<open>The operations\<close>

text \<open>The loop of \<^verbatim>\<open>initialize_list\<close> from the index \<open>i\<close> on; the last node is returned.\<close>

fun append_cells :: "int list \<Rightarrow> nat \<Rightarrow> cell_memory \<Rightarrow> (nat \<times> cell_memory) res" where
  "append_cells [] cur s = Inr (cur, s)"
| "append_cells (d # ds) cur s =
     (let (a, s1) = malloc_cell s in
      bindE (set_link cur a s1) (\<lambda>s2. bindE (next_of cur s2) (\<lambda>b. bindE (set_data b d s2) (\<lambda>s3. append_cells ds b s3))))"

text \<open>
  The header gets the first element of the array, which an array of no elements does not have. The
  last node is returned with the header, for the programs that link it to another node.
\<close>

definition initialize_cells :: "int list \<Rightarrow> cell_memory \<Rightarrow> (nat \<times> nat \<times> cell_memory) res" where
  "initialize_cells ds s =
     (case ds of
        [] \<Rightarrow> Inl OutOfBounds
      | d # ds' \<Rightarrow>
          let (header, s1) = malloc_cell s in
          bindE (set_data header d s1) (\<lambda>s2. bindE (append_cells ds' header s2) (\<lambda>(cur, s3). Inr (header, cur, s3))))"

definition initialize_list :: "int list \<Rightarrow> cell_memory \<Rightarrow> (nat \<times> cell_memory) res" where
  "initialize_list ds s = bindE (initialize_cells ds s) (\<lambda>(header, cur, s1). Inr (header, s1))"

definition initialize_cyclic :: "int list \<Rightarrow> cell_memory \<Rightarrow> (nat \<times> cell_memory) res" where
  "initialize_cyclic ds s =
     bindE (initialize_cells ds s) (\<lambda>(header, cur, s1). bindE (next_of header s1) (\<lambda>b. bindE (set_link cur b s1) (\<lambda>s2. Inr (header, s2))))"

definition initialize_before :: "int list \<Rightarrow> nat \<Rightarrow> cell_memory \<Rightarrow> (nat \<times> cell_memory) res" where
  "initialize_before ds node s =
     bindE (initialize_cells ds s) (\<lambda>(header, cur, s1). bindE (set_link cur node s1) (\<lambda>s2. Inr (header, s2)))"

definition print_cell :: "nat \<times> cell_memory \<Rightarrow> (nat \<times> cell_memory + cell_memory) res" where
  "print_cell = (\<lambda>(a, s).
     if a \<noteq> 0 then bindE (data_of a s) (\<lambda>d. bindE (next_of a s) (\<lambda>b. Inr (Inl (b, s\<lparr>shown := shown s @ [Dec d, Str [CHR 0x09]]\<rparr>))))
     else Inr (Inr (s\<lparr>shown := shown s @ [Str [CHR 0x0A]]\<rparr>)))"

definition print_list :: "nat \<Rightarrow> cell_memory \<Rightarrow> cell_memory res" where
  "print_list a s = joined (loop print_cell (a, s))"

subsection \<open>Merging\<close>

definition merge_step :: "nat \<times> nat \<times> nat \<times> cell_memory \<Rightarrow> (nat \<times> nat \<times> nat \<times> cell_memory + nat \<times> nat \<times> nat \<times> cell_memory) res" where
  "merge_step = (\<lambda>(list1, list2, res_cur, s).
     if list1 \<noteq> 0 \<and> list2 \<noteq> 0
     then bindE (data_of list1 s) (\<lambda>d1. bindE (data_of list2 s) (\<lambda>d2.
       if d1 < d2
       then bindE (set_link res_cur list1 s) (\<lambda>s1. bindE (next_of list1 s1) (\<lambda>n1. bindE (next_of res_cur s1) (\<lambda>r. Inr (Inl (n1, list2, r, s1)))))
       else bindE (set_link res_cur list2 s) (\<lambda>s1. bindE (next_of list2 s1) (\<lambda>n2. bindE (next_of res_cur s1) (\<lambda>r. Inr (Inl (list1, n2, r, s1)))))))
     else Inr (Inr (list1, list2, res_cur, s)))"

definition merge_tail :: "nat \<times> nat \<times> nat \<times> cell_memory \<Rightarrow> cell_memory res" where
  "merge_tail = (\<lambda>(list1, list2, res_cur, s).
     bindE (if list1 \<noteq> 0 then set_link res_cur list1 s else Inr s) (\<lambda>s1. if list2 \<noteq> 0 then set_link res_cur list2 s1 else Inr s1))"

definition merge_ordered_list :: "nat \<Rightarrow> nat \<Rightarrow> cell_memory \<Rightarrow> (nat \<times> cell_memory) res" where
  "merge_ordered_list list1 list2 s =
     (let (result, s1) = malloc_cell s in
      bindE (set_data result (- 1) s1) (\<lambda>s2.
      bindE (joined (loop merge_step (list1, list2, result, s2))) (\<lambda>t. bindE (merge_tail t) (\<lambda>s3. Inr (result, s3)))))"

definition merge_main :: "cell_memory \<Rightarrow> cell_memory res" where
  "merge_main s =
     bindE (initialize_list [2, 3, 4] s) (\<lambda>(list1, s1).
     bindE (print_list list1 (s1\<lparr>shown := shown s1 @ [Str (''List1: '' @ [CHR 0x0A])]\<rparr>)) (\<lambda>s2.
     bindE (initialize_list [1, 3, 10] s2) (\<lambda>(list2, s3).
     bindE (print_list list2 (s3\<lparr>shown := shown s3 @ [Str (''List2: '' @ [CHR 0x0A])]\<rparr>)) (\<lambda>s4.
     bindE (merge_ordered_list list1 list2 s4) (\<lambda>(result, s5).
     bindE (next_of result s5) (\<lambda>first.
     bindE (print_list first (s5\<lparr>shown := shown s5 @ [Str (''Merged list: '' @ [CHR 0x0A])]\<rparr>)) (\<lambda>s6.
     bindE (free_cell list1 s6) (\<lambda>s7. bindE (free_cell list2 s7) (\<lambda>s8. free_cell result s8)))))))))"

subsection \<open>Detecting a cycle\<close>

definition meet_step :: "cell_memory \<Rightarrow> nat \<times> nat \<Rightarrow> (nat \<times> nat + nat) res" where
  "meet_step s = (\<lambda>(fast, slow).
     if fast = 0 then Inr (Inr fast)
     else bindE (next_of fast s) (\<lambda>f1.
       if f1 = 0 then Inr (Inr fast)
       else bindE (next_of f1 s) (\<lambda>f2. bindE (next_of slow s) (\<lambda>s1. if f2 = s1 then Inr (Inr f2) else Inr (Inl (f2, s1))))))"

definition both_step :: "cell_memory \<Rightarrow> nat \<times> nat \<Rightarrow> (nat \<times> nat + nat) res" where
  "both_step s = (\<lambda>(fast, slow).
     if slow \<noteq> fast then bindE (next_of fast s) (\<lambda>f. bindE (next_of slow s) (\<lambda>l. Inr (Inl (f, l)))) else Inr (Inr slow))"

definition detect_cycle :: "nat \<Rightarrow> cell_memory \<Rightarrow> nat res" where
  "detect_cycle head s =
     bindE (joined (loop (meet_step s) (head, head))) (\<lambda>fast.
       if fast = 0 then Inr 0
       else bindE (next_of fast s) (\<lambda>f1.
         if f1 = 0 then Inr 0 else joined (loop (both_step s) (fast, head))))"

text \<open>The messages of the programs in their encoding, UTF-8.\<close>

definition no_cycle_message :: string where
  "no_cycle_message = [CHR 0xE6, CHR 0xB2, CHR 0xA1, CHR 0xE6, CHR 0x9C, CHR 0x89, CHR 0xE7, CHR 0x8E, CHR 0xAF] @ ''...'' @ [CHR 0x0A]"

definition detect_main :: "cell_memory \<Rightarrow> cell_memory res" where
  "detect_main s =
     bindE (initialize_cyclic [10, 9, 20, 2, 3, 4] s) (\<lambda>(lst, s1).
     bindE (detect_cycle lst s1) (\<lambda>result.
     bindE (if result = 0 then Inr [Str no_cycle_message] else bindE (data_of result s1) (\<lambda>d. Inr [Str ''node value: '', Dec d, Str [CHR 0x0A]])) (\<lambda>ps.
       free_cell lst (s1\<lparr>shown := shown s1 @ ps\<rparr>))))"

subsection \<open>Counting from the end\<close>

definition from_end_step :: "nat \<Rightarrow> int \<Rightarrow> cell_memory \<Rightarrow> nat \<times> nat \<times> nat \<times> int \<Rightarrow> (nat \<times> nat \<times> nat \<times> int + nat \<times> int) res" where
  "from_end_step lst cnt s = (\<lambda>(cur, head, tail, cursor).
     if cur \<noteq> 0
     then bindE
       (if cursor + 1 = cnt then Inr (lst, cur)
        else if cursor + 1 > cnt then bindE (next_of head s) (\<lambda>h. bindE (next_of tail s) (\<lambda>t. Inr (h, t)))
        else Inr (head, tail)) (\<lambda>(head', tail').
       bindE (next_of cur s) (\<lambda>cur'. Inr (Inl (cur', head', tail', cursor + 1))))
     else Inr (Inr (head, cursor)))"

definition find_from_end :: "nat \<Rightarrow> int \<Rightarrow> cell_memory \<Rightarrow> nat res" where
  "find_from_end lst cnt s =
     bindE (joined (loop (from_end_step lst cnt s) (lst, 0, 0, 0))) (\<lambda>(head, cursor). Inr (if cursor < cnt then 0 else head))"

subsection \<open>The first common node\<close>

text \<open>The function ends without a \<^verbatim>\<open>return\<close> when both pointers are NULL; its result is then None.\<close>

definition common_step :: "nat \<Rightarrow> nat \<Rightarrow> cell_memory \<Rightarrow> nat \<times> nat \<Rightarrow> (nat \<times> nat + nat option) res" where
  "common_step list1 list2 s = (\<lambda>(cur1, cur2).
     if cur1 \<noteq> 0 \<or> cur2 \<noteq> 0
     then let c1 = (if cur1 = 0 then list2 else cur1); c2 = (if cur2 = 0 then list1 else cur2) in
          if c1 = c2 then Inr (Inr (Some c1))
          else bindE (next_of c1 s) (\<lambda>n1. bindE (next_of c2 s) (\<lambda>n2. Inr (Inl (n1, n2))))
     else Inr (Inr None))"

definition get_intersection_node :: "nat \<Rightarrow> nat \<Rightarrow> cell_memory \<Rightarrow> nat option res" where
  "get_intersection_node list1 list2 s = joined (loop (common_step list1 list2 s) (list1, list2))"

definition no_common_message :: string where
  "no_common_message = [CHR 0xE6, CHR 0xB2, CHR 0xA1, CHR 0xE6, CHR 0x9C, CHR 0x89, CHR 0xE9, CHR 0x87, CHR 0x8D, CHR 0xE5, CHR 0x90, CHR
    0x88, CHR 0xE8, CHR 0x8A, CHR 0x82, CHR 0xE7, CHR 0x82, CHR 0xB9] @ ''...'' @ [CHR 0x0A]"

definition intersection_main :: "cell_memory \<Rightarrow> cell_memory res" where
  "intersection_main s =
     (let (c2, s1) = malloc_cell s in
      bindE (set_data c2 10000 s1) (\<lambda>s2.
      let (c1, s3) = malloc_cell s2 in
      bindE (set_data c1 20000 s3) (\<lambda>s4.
      bindE (set_link c1 c2 s4) (\<lambda>s5.
      bindE (initialize_before [10, 9, 20] c1 s5) (\<lambda>(list1, s6).
      bindE (initialize_before [1, 2] c1 s6) (\<lambda>(list2, s7).
      bindE (get_intersection_node list1 list2 s7) (\<lambda>found.
      bindE (the_field found) (\<lambda>result.
      bindE (if result = 0 then Inr [Str no_common_message] else bindE (data_of result s7) (\<lambda>d. Inr [Str ''node value: '', Dec d, Str [CHR 0x0A]])) (\<lambda>ps.
      bindE (free_cell list1 (s7\<lparr>shown := shown s7 @ ps\<rparr>)) (free_cell list2))))))))))"

definition too_large_message :: string where
  "too_large_message = [CHR 0xE6, CHR 0x98, CHR 0xAF, CHR 0xE4, CHR 0xB8, CHR 0x8D, CHR 0xE6, CHR 0x98, CHR 0xAF, CHR 0xE5, CHR 0x8F, CHR
    0x82, CHR 0xE6, CHR 0x95, CHR 0xB0, CHR 0xE7, CHR 0xBB, CHR 0x99, CHR 0xE7, CHR 0x9A, CHR 0x84, CHR 0xE5, CHR 0xA4, CHR 0xAA, CHR 0xE5, CHR
    0xA4, CHR 0xA7, CHR 0xE4, CHR 0xBA, CHR 0x86, CHR 0xEF, CHR 0xBC, CHR 0x8C, CHR 0xE8, CHR 0xB6, CHR 0x85, CHR 0xE8, CHR 0xBF, CHR 0x87, CHR
    0xE5, CHR 0x88, CHR 0x97, CHR 0xE8, CHR 0xA1, CHR 0xA8, CHR 0xE9, CHR 0x95, CHR 0xBF, CHR 0xE5, CHR 0xBA, CHR 0xA6, CHR 0xE4, CHR 0xBA, CHR
    0x86] @ ''...'' @ [CHR 0x0A]"

definition from_end_main :: "cell_memory \<Rightarrow> cell_memory res" where
  "from_end_main s =
     bindE (initialize_list [10, 9, 20, 2, 3, 4] s) (\<lambda>(lst, s1).
     bindE (find_from_end lst 6 s1) (\<lambda>result.
       if result = 0 then Inr (s1\<lparr>shown := shown s1 @ [Str too_large_message]\<rparr>)
       else bindE (data_of result s1) (\<lambda>d. free_cell lst (s1\<lparr>shown := shown s1 @ [Str ''node value: '', Dec d, Str [CHR 0x0A]]\<rparr>))))"

section \<open>Lists in memory\<close>

text \<open>The pointer \<open>p\<close> leads along the nodes \<open>as\<close> to \<open>q\<close>.\<close>

fun linked :: "cell_memory \<Rightarrow> nat \<Rightarrow> nat list \<Rightarrow> nat \<Rightarrow> bool" where
  "linked s p [] q \<longleftrightarrow> p = q"
| "linked s p (a # as) q \<longleftrightarrow> p = a \<and> a \<noteq> 0 \<and> (\<exists>n. next_of a s = Inr n \<and> linked s n as q)"

lemma linked_append: "linked s p (as @ bs) q \<longleftrightarrow> (\<exists>m. linked s p as m \<and> linked s m bs q)"
  by (induction as arbitrary: p) auto

lemma linked_unique: "linked s p as 0 \<Longrightarrow> linked s p bs 0 \<Longrightarrow> as = bs"
proof (induction as arbitrary: p bs)
  case Nil
  then show ?case by (cases bs) auto
next
  case (Cons a as)
  then show ?case by (cases bs) auto
qed

lemma linked_distinct: "linked s p as 0 \<Longrightarrow> distinct as"
proof (induction as arbitrary: p)
  case (Cons a as)
  then obtain n where n: "next_of a s = Inr n" "linked s n as 0" by auto
  have "a \<notin> set as"
  proof
    assume "a \<in> set as"
    then obtain us vs where "as = us @ a # vs" by (auto simp: in_set_conv_decomp)
    then have "linked s a (a # vs) 0" using n(2) by (auto simp: linked_append)
    moreover have "linked s a (a # as) 0" using Cons.prems by auto
    ultimately have "a # vs = a # as" by (rule linked_unique)
    then show False using \<open>as = us @ a # vs\<close> by simp
  qed
  then show ?case using Cons.IH [OF n(2)] by simp
qed simp

lemma linked_cong: "(\<And>a. a \<in> set as \<Longrightarrow> next_of a s' = next_of a s) \<Longrightarrow> linked s' p as q = linked s p as q"
  by (induction as arbitrary: p) auto

lemma linked_nonzero: "linked s p as q \<Longrightarrow> a \<in> set as \<Longrightarrow> a \<noteq> 0"
  by (induction as arbitrary: p) auto

lemma linked_start: "linked s p as q \<Longrightarrow> p = (as @ [q]) ! 0"
  by (cases as) auto

lemma linked_next:
  assumes "linked s p as q" and "i < length as"
  shows "next_of (as ! i) s = Inr ((as @ [q]) ! Suc i)"
  using assms
proof (induction as arbitrary: p i)
  case (Cons a as)
  then obtain n where n: "next_of a s = Inr n" "linked s n as q" by auto
  show ?case
  proof (cases i)
    case 0
    then show ?thesis using n linked_start [OF n(2)] by simp
  next
    case (Suc j)
    then show ?thesis using Cons.IH [OF n(2), of j] Cons.prems(2) by simp
  qed
qed simp

lemma linked_cell: "linked s p as q \<Longrightarrow> a \<in> set as \<Longrightarrow> cells s a \<noteq> None"
  by (induction as arbitrary: p) (auto simp: next_of_def the_field_def bindE_eq_Inr split: option.splits)

text \<open>Storing into a field.\<close>

lemma the_field_simps [simp]: "the_field (Some v) = Inr v" "the_field None = Inl OutOfBounds"
  by (simp_all add: the_field_def)

lemma the_field_Inr [simp]: "the_field x = Inr v \<longleftrightarrow> x = Some v"
  by (cases x) simp_all

lemma set_link_ok:
  assumes "cells s a \<noteq> None"
  obtains s' where "set_link a b s = Inr s'" "\<And>x. next_of x s' = (if x = a then Inr b else next_of x s)"
    "\<And>x. data_of x s' = data_of x s" "\<And>x. x \<noteq> a \<Longrightarrow> cells s' x = cells s x" "cells s' a \<noteq> None"
proof -
  obtain c where "cells s a = Some c" using assms by auto
  then show thesis by (intro that [of "s\<lparr>cells := (cells s)(a \<mapsto> c\<lparr>cell_next := Some b\<rparr>)\<rparr>"]) (auto simp: set_link_def next_of_def data_of_def)
qed

lemma set_data_ok:
  assumes "cells s a \<noteq> None"
  obtains s' where "set_data a v s = Inr s'" "\<And>x. next_of x s' = next_of x s" "\<And>x. data_of x s' = (if x = a then Inr v else data_of x s)"
    "\<And>x. x \<noteq> a \<Longrightarrow> cells s' x = cells s x" "cells s' a \<noteq> None"
proof -
  obtain c where "cells s a = Some c" using assms by auto
  then show thesis by (intro that [of "s\<lparr>cells := (cells s)(a \<mapsto> c\<lparr>cell_data := Some v\<rparr>)\<rparr>"]) (auto simp: set_data_def next_of_def data_of_def)
qed

section \<open>Merging\<close>

fun merge_by :: "(nat \<Rightarrow> int) \<Rightarrow> nat list \<Rightarrow> nat list \<Rightarrow> nat list" where
  "merge_by f (x # xs) (y # ys) = (if f x < f y then x # merge_by f xs (y # ys) else y # merge_by f (x # xs) ys)"
| "merge_by f [] ys = ys"
| "merge_by f xs [] = xs"

lemma mset_merge_by: "mset (merge_by f xs ys) = mset xs + mset ys"
  by (induction f xs ys rule: merge_by.induct) auto

lemma set_merge_by: "set (merge_by f xs ys) = set xs \<union> set ys"
  by (induction f xs ys rule: merge_by.induct) auto

lemma sorted_merge_by: "sorted (map f xs) \<Longrightarrow> sorted (map f ys) \<Longrightarrow> sorted (map f (merge_by f xs ys))"
  by (induction f xs ys rule: merge_by.induct) (auto simp: set_merge_by)

text \<open>From any point of the loop on, the node \<open>res_cur\<close> is followed by the merge of the two rests.\<close>

lemma merge_rest:
  assumes "linked s l1 ps 0" and "linked s l2 qs 0" and "distinct (cur # ps @ qs)" and "cells s cur \<noteq> None"
    and "\<forall>a \<in> set ps \<union> set qs. data_of a s = Inr (f a)" and "ps @ qs \<noteq> []"
  shows "\<exists>s' m. bindE (joined (loop merge_step (l1, l2, cur, s))) merge_tail = Inr s' \<and> next_of cur s' = Inr m \<and>
    linked s' m (merge_by f ps qs) 0 \<and> (\<forall>a. data_of a s' = data_of a s) \<and> (\<forall>a. a \<noteq> cur \<and> a \<notin> set ps \<union> set qs \<longrightarrow> cells s' a = cells s a)"
  using assms
proof (induction "length ps + length qs" arbitrary: l1 l2 ps qs cur s)
  case 0
  then show ?case by simp
next
  case (Suc k)
  show ?case
  proof (cases "l1 \<noteq> 0 \<and> l2 \<noteq> 0")
    case False
    then have e: "loop merge_step (l1, l2, cur, s) = Some (Inr (l1, l2, cur, s))" by (intro loop_exits) (auto simp: merge_step_def)
    have "ps = [] \<or> qs = []" using False Suc.prems(1,2) by (cases ps; cases qs) auto
    then show ?thesis
    proof
      assume ps: "ps = []"
      then have l: "l1 = 0" "l2 \<noteq> 0" using Suc.prems(1,2,6) by (cases qs; auto)+
      obtain s' where s': "set_link cur l2 s = Inr s'" "\<And>x. next_of x s' = (if x = cur then Inr l2 else next_of x s)"
        "\<And>x. data_of x s' = data_of x s" "\<And>x. x \<noteq> cur \<Longrightarrow> cells s' x = cells s x" using set_link_ok [OF Suc.prems(4)] by metis
      have "linked s' l2 qs 0 = linked s l2 qs 0" by (rule linked_cong) (use s'(2) Suc.prems(3) in auto)
      then show ?thesis using ps l s' e Suc.prems(2) by (simp add: merge_tail_def)
    next
      assume qs: "qs = []"
      then have l: "l2 = 0" "l1 \<noteq> 0" using Suc.prems(1,2,6) by (cases ps; auto)+
      obtain s' where s': "set_link cur l1 s = Inr s'" "\<And>x. next_of x s' = (if x = cur then Inr l1 else next_of x s)"
        "\<And>x. data_of x s' = data_of x s" "\<And>x. x \<noteq> cur \<Longrightarrow> cells s' x = cells s x" using set_link_ok [OF Suc.prems(4)] by metis
      have "linked s' l1 ps 0 = linked s l1 ps 0" by (rule linked_cong) (use s'(2) Suc.prems(3) in auto)
      moreover have "merge_by f ps [] = ps" by (cases ps) simp_all
      ultimately show ?thesis using qs l s' e Suc.prems(1) by (simp add: merge_tail_def)
    qed
  next
    case True
    then obtain ps' qs' where pq: "ps = l1 # ps'" "qs = l2 # qs'" using Suc.prems(1,2) by (cases ps; cases qs) auto
    obtain n1 n2 where n: "next_of l1 s = Inr n1" "linked s n1 ps' 0" "next_of l2 s = Inr n2" "linked s n2 qs' 0" using Suc.prems(1,2) pq by auto
    have c: "cells s l1 \<noteq> None" "cells s l2 \<noteq> None"
      using linked_cell [OF Suc.prems(1), of l1] linked_cell [OF Suc.prems(2), of l2] pq by simp_all
    have d: "data_of l1 s = Inr (f l1)" "data_of l2 s = Inr (f l2)" using Suc.prems(5) pq by auto
    let ?b = "f l1 < f l2"
    define p where "p = (if ?b then l1 else l2)"
    define us where "us = (if ?b then ps' else ps)"
    define vs where "vs = (if ?b then qs else qs')"
    define u where "u = (if ?b then n1 else l1)"
    define v where "v = (if ?b then l2 else n2)"
    note defs = p_def us_def vs_def u_def v_def
    obtain s1 where s1: "set_link cur p s = Inr s1" "\<And>x. next_of x s1 = (if x = cur then Inr p else next_of x s)"
      "\<And>x. data_of x s1 = data_of x s" "\<And>x. x \<noteq> cur \<Longrightarrow> cells s1 x = cells s x" "cells s1 cur \<noteq> None" using set_link_ok [OF Suc.prems(4)] by metis
    have ne: "l1 \<noteq> cur" "l2 \<noteq> cur" using Suc.prems(3) pq by auto
    have step: "loop merge_step (l1, l2, cur, s) = loop merge_step (u, v, p, s1)"
      by (rule loop_goes_on) (use True d s1 n ne in \<open>auto simp: merge_step_def defs\<close>)
    have "cur \<notin> set us" "cur \<notin> set vs" using Suc.prems(3) pq by (auto simp: defs)
    then have "linked s1 u us 0 = linked s u us 0" "linked s1 v vs 0 = linked s v vs 0"
      by (metis linked_cong s1(2))+
    then have l: "linked s1 u us 0" "linked s1 v vs 0" using n Suc.prems(1,2) by (simp_all add: defs)
    have dis: "distinct (p # us @ vs)" "cur \<noteq> p" "cur \<notin> set us \<union> set vs" "insert p (set us \<union> set vs) = set ps \<union> set qs"
      using Suc.prems(3) pq by (auto simp: defs)
    have "\<exists>s' m. bindE (joined (loop merge_step (u, v, p, s1))) merge_tail = Inr s' \<and> next_of p s' = Inr m \<and>
        linked s' m (merge_by f us vs) 0 \<and> (\<forall>a. data_of a s' = data_of a s1) \<and> (\<forall>a. a \<noteq> p \<and> a \<notin> set us \<union> set vs \<longrightarrow> cells s' a = cells s1 a)"
    proof (rule Suc.hyps(1) [OF _ l dis(1)])
      show "k = length us + length vs" using Suc.hyps(2) pq by (simp add: defs)
      show "cells s1 p \<noteq> None" using c s1(4,5) ne by (simp add: defs)
      show "\<forall>a \<in> set us \<union> set vs. data_of a s1 = Inr (f a)" using Suc.prems(5) dis(4) s1(3) by (metis insertI2)
      show "us @ vs \<noteq> []" using pq by (simp add: defs)
    qed
    then obtain s' m where s': "bindE (joined (loop merge_step (u, v, p, s1))) merge_tail = Inr s'" "next_of p s' = Inr m"
      "linked s' m (merge_by f us vs) 0" "\<forall>a. data_of a s' = data_of a s1" "\<forall>a. a \<noteq> p \<and> a \<notin> set us \<union> set vs \<longrightarrow> cells s' a = cells s1 a" by blast
    have "next_of cur s' = Inr p" using s'(5) dis(2,3) s1(2) [of cur] by (simp add: next_of_def)
    moreover have "merge_by f ps qs = p # merge_by f us vs" using pq by (simp add: defs)
    moreover have "p \<noteq> 0" using True by (simp add: defs)
    moreover have "\<forall>a. a \<noteq> cur \<and> a \<notin> set ps \<union> set qs \<longrightarrow> cells s' a = cells s a" using s'(5) dis(4) s1(4) by auto
    ultimately show ?thesis using s' step s1(3) by auto
  qed
qed

lemma merge_ok:
  assumes "linked s list1 ps 0" and "linked s list2 qs 0" and "set ps \<inter> set qs = {}" and "ps @ qs \<noteq> []"
    and "\<forall>a \<in> set ps \<union> set qs. data_of a s = Inr (f a)" and "\<not> no_room s (mallocs s)" and "cells s (Suc (mallocs s)) = None"
  shows "\<exists>result s' m. merge_ordered_list list1 list2 s = Inr (result, s') \<and> next_of result s' = Inr m \<and>
    linked s' m (merge_by f ps qs) 0 \<and> (\<forall>a. a \<noteq> result \<longrightarrow> data_of a s' = data_of a s)"
proof -
  let ?r = "Suc (mallocs s)"
  define s1 where "s1 = snd (malloc_cell s)"
  have m: "malloc_cell s = (?r, s1)" "cells s1 = (cells s)(?r \<mapsto> \<lparr>cell_data = None, cell_next = None\<rparr>)"
    using assms(6) by (simp_all add: malloc_cell_def s1_def)
  then have "cells s1 ?r \<noteq> None" by simp
  then obtain s2 where s2: "set_data ?r (- 1) s1 = Inr s2" "\<And>x. next_of x s2 = next_of x s1"
    "\<And>x. data_of x s2 = (if x = ?r then Inr (- 1) else data_of x s1)" "cells s2 ?r \<noteq> None" using set_data_ok by metis
  have r: "?r \<notin> set ps \<union> set qs" using assms(7) linked_cell [OF assms(1), of ?r] linked_cell [OF assms(2), of ?r] by auto
  have old: "next_of x s2 = next_of x s" "data_of x s2 = data_of x s" if "x \<noteq> ?r" for x
    using that s2(2,3) m(2) by (simp_all add: next_of_def data_of_def)
  have "\<forall>a \<in> set ps. a \<noteq> ?r" "\<forall>a \<in> set qs. a \<noteq> ?r" using r by auto
  then have same: "\<And>a. a \<in> set ps \<Longrightarrow> next_of a s2 = next_of a s" "\<And>a. a \<in> set qs \<Longrightarrow> next_of a s2 = next_of a s" using old(1) by blast+
  have "linked s2 list1 ps 0" "linked s2 list2 qs 0" using linked_cong [OF same(1)] linked_cong [OF same(2)] assms(1,2) by simp_all
  moreover have "\<forall>a \<in> set ps \<union> set qs. data_of a s2 = Inr (f a)" using r old(2) assms(5) by (metis)
  ultimately have "\<exists>s' n. bindE (joined (loop merge_step (list1, list2, ?r, s2))) merge_tail = Inr s' \<and> next_of ?r s' = Inr n \<and>
      linked s' n (merge_by f ps qs) 0 \<and> (\<forall>a. data_of a s' = data_of a s2) \<and> (\<forall>a. a \<noteq> ?r \<and> a \<notin> set ps \<union> set qs \<longrightarrow> cells s' a = cells s2 a)"
    by (intro merge_rest) (use assms(3,4) r linked_distinct [OF assms(1)] linked_distinct [OF assms(2)] s2(4) in auto)
  then obtain s' n where s': "bindE (joined (loop merge_step (list1, list2, ?r, s2))) merge_tail = Inr s'" "next_of ?r s' = Inr n"
    "linked s' n (merge_by f ps qs) 0" "\<forall>a. data_of a s' = data_of a s2" by blast
  have "merge_ordered_list list1 list2 s = Inr (?r, s')"
    using m(1) s2(1) s'(1) by (cases "joined (loop merge_step (list1, list2, ?r, s2))") (simp_all add: merge_ordered_list_def)
  then show ?thesis using s' old by auto
qed

section \<open>Cycles\<close>

text \<open>
  The node a pointer stands on after \<open>i\<close> steps along a stem and then around a cycle.
\<close>

definition lasso :: "nat list \<Rightarrow> nat list \<Rightarrow> nat \<Rightarrow> nat" where
  "lasso stem cyc i = (if i < length stem then stem ! i else cyc ! ((i - length stem) mod length cyc))"

lemma lasso_in: "cyc \<noteq> [] \<Longrightarrow> lasso stem cyc i \<in> set (stem @ cyc)"
  by (auto simp: lasso_def)

lemma lasso_meets:
  assumes "distinct (stem @ cyc)" and "cyc \<noteq> []" and "0 < k"
  shows "lasso stem cyc (k + j) = lasso stem cyc j \<longleftrightarrow> length stem \<le> j \<and> length cyc dvd k"
proof (cases "length stem \<le> j")
  case True
  have "lasso stem cyc (k + j) = lasso stem cyc j \<longleftrightarrow> (k + (j - length stem)) mod length cyc = (j - length stem) mod length cyc"
    using True assms by (simp add: lasso_def nth_eq_iff_index_eq)
  also have "\<dots> \<longleftrightarrow> length cyc dvd k" using mod_eq_dvd_iff_nat [of "j - length stem" "k + (j - length stem)" "length cyc"] by simp
  finally show ?thesis using True by simp
next
  case False
  then have "lasso stem cyc j = stem ! j" "j < length stem" by (simp_all add: lasso_def)
  moreover have "lasso stem cyc (k + j) \<noteq> stem ! j"
  proof (cases "k + j < length stem")
    case True
    then show ?thesis using assms(1,3) calculation(2) by (simp add: lasso_def nth_eq_iff_index_eq)
  next
    case False
    then have "lasso stem cyc (k + j) \<in> set cyc" using assms(2) by (simp add: lasso_def)
    then show ?thesis using assms(1) calculation(2) by (metis disjoint_iff distinct_append nth_mem)
  qed
  ultimately show ?thesis using False by simp
qed

lemma lasso_next:
  assumes "linked s head (stem @ cyc) (hd cyc)" and "cyc \<noteq> []"
  shows "next_of (lasso stem cyc i) s = Inr (lasso stem cyc (Suc i))" and "lasso stem cyc i \<noteq> 0"
proof -
  show "lasso stem cyc i \<noteq> 0" using linked_nonzero [OF assms(1)] lasso_in [OF assms(2)] by metis
  let ?j = "if i < length stem then i else length stem + (i - length stem) mod length cyc"
  have l: "?j < length (stem @ cyc)" "lasso stem cyc i = (stem @ cyc) ! ?j" using assms(2) by (auto simp: lasso_def nth_append)
  have "((stem @ cyc) @ [hd cyc]) ! Suc ?j = lasso stem cyc (Suc i)"
  proof (cases "i < length stem")
    case True
    then show ?thesis using assms(2) by (cases cyc) (auto simp: lasso_def nth_append less_Suc_eq)
  next
    case False
    let ?m = "(i - length stem) mod length cyc"
    have m: "Suc (i - length stem) mod length cyc = (if Suc ?m = length cyc then 0 else Suc ?m)" by (rule mod_Suc)
    have lt: "?m < length cyc" using assms(2) by simp
    show ?thesis
    proof (cases "Suc ?m = length cyc")
      case True
      then show ?thesis using False m assms(2) by (simp add: lasso_def nth_append Suc_diff_le hd_conv_nth)
    next
      case False
      then have "Suc ?m < length cyc" using lt by linarith
      then show ?thesis using \<open>\<not> i < length stem\<close> m by (simp add: lasso_def nth_append Suc_diff_le)
    qed
  qed
  then show "next_of (lasso stem cyc i) s = Inr (lasso stem cyc (Suc i))" using linked_next [OF assms(1) l(1)] l(2) by simp
qed

text \<open>The two pointers meet after a number of steps that is a multiple of the period.\<close>

lemma pointers_meet:
  assumes "linked s head (stem @ cyc) (hd cyc)" and "cyc \<noteq> []" and "distinct (stem @ cyc)"
    and "k < K" and "length stem \<le> K" and "length cyc dvd K"
  shows "\<exists>m. loop (meet_step s) (lasso stem cyc (2 * k), lasso stem cyc k) = Some (Inr (lasso stem cyc m)) \<and>
    0 < m \<and> length stem \<le> m \<and> length cyc dvd m"
  using assms(4)
proof (induction "K - k" arbitrary: k)
  case (Suc d)
  note n = lasso_next [OF assms(1,2)]
  let ?f = "lasso stem cyc (2 * Suc k)"
  let ?l = "lasso stem cyc (Suc k)"
  have same: "?f = ?l \<longleftrightarrow> length stem \<le> Suc k \<and> length cyc dvd Suc k"
    using lasso_meets [OF assms(3,2), of "Suc k" "Suc k"] by (simp add: mult_2)
  show ?case
  proof (cases "?f = ?l")
    case True
    then have "loop (meet_step s) (lasso stem cyc (2 * k), lasso stem cyc k) = Some (Inr ?l)"
      by (intro loop_exits) (simp add: meet_step_def n)
    then show ?thesis using True same by blast
  next
    case False
    then have "loop (meet_step s) (lasso stem cyc (2 * k), lasso stem cyc k) = loop (meet_step s) (?f, ?l)"
      by (intro loop_goes_on) (simp add: meet_step_def n)
    moreover have "Suc k \<noteq> K" using False same assms(5,6) by auto
    ultimately show ?thesis using Suc.hyps(1) [of "Suc k"] Suc.hyps(2) Suc.prems by simp
  qed
qed simp

lemma walk_to_cycle:
  assumes "linked s head (stem @ cyc) (hd cyc)" and "cyc \<noteq> []" and "distinct (stem @ cyc)"
    and "0 < m" and "length cyc dvd m" and "j \<le> length stem"
  shows "loop (both_step s) (lasso stem cyc (m + j), lasso stem cyc j) = Some (Inr (hd cyc))"
  using assms(6)
proof (induction "length stem - j" arbitrary: j)
  case 0
  then have "lasso stem cyc (m + j) = lasso stem cyc j" using lasso_meets [OF assms(3,2,4), of j] assms(5) by simp
  moreover have "lasso stem cyc j = hd cyc" using 0 assms(2) by (simp add: lasso_def hd_conv_nth)
  ultimately show ?case by (intro loop_exits) (simp add: both_step_def)
next
  case (Suc d)
  note n = lasso_next [OF assms(1,2)]
  have "lasso stem cyc (m + j) \<noteq> lasso stem cyc j" using lasso_meets [OF assms(3,2,4), of j] Suc.hyps(2) by linarith
  then have "loop (both_step s) (lasso stem cyc (m + j), lasso stem cyc j) = loop (both_step s) (lasso stem cyc (m + Suc j), lasso stem cyc (Suc j))"
    by (intro loop_goes_on) (auto simp: both_step_def n)
  moreover have "loop (both_step s) (lasso stem cyc (m + Suc j), lasso stem cyc (Suc j)) = Some (Inr (hd cyc))"
    by (rule Suc.hyps(1)) (use Suc.hyps(2) in linarith)+
  ultimately show ?case by simp
qed

lemma cycle_found:
  assumes "linked s head (stem @ cyc) (hd cyc)" and "cyc \<noteq> []" and "distinct (stem @ cyc)"
  shows "detect_cycle head s = Inr (hd cyc)"
proof -
  let ?K = "length cyc * Suc (length stem)"
  have head: "head = lasso stem cyc 0" using linked_start [OF assms(1)] assms(2) by (auto simp: lasso_def nth_append hd_conv_nth)
  have "length stem \<le> ?K" using assms(2) by (cases cyc) simp_all
  then obtain m where m: "loop (meet_step s) (head, head) = Some (Inr (lasso stem cyc m))" "0 < m" "length stem \<le> m" "length cyc dvd m"
    using pointers_meet [OF assms, of 0 ?K] assms(2) head by auto
  have "loop (both_step s) (lasso stem cyc m, head) = Some (Inr (hd cyc))"
    using walk_to_cycle [OF assms m(2,4), of 0] head by simp
  then show ?thesis using m(1) by (simp add: detect_cycle_def lasso_next [OF assms(1,2)])
qed

text \<open>Without a cycle the fast pointer reaches the end.\<close>

lemma fast_ends:
  assumes "linked s head as 0" and "2 * k \<le> length as"
  shows "\<exists>f. loop (meet_step s) ((as @ [0]) ! (2 * k), (as @ [0]) ! k) = Some (Inr f) \<and> (f = 0 \<or> next_of f s = Inr 0)"
  using assms(2)
proof (induction "length as - k" arbitrary: k rule: less_induct)
  case less
  note n = linked_next [OF assms(1)]
  let ?at = "\<lambda>i. (as @ [0]) ! i"
  have nz: "?at i \<noteq> 0" if "i < length as" for i using linked_nonzero [OF assms(1)] that by (simp add: nth_append)
  have nx: "next_of (?at i) s = Inr (?at (Suc i))" if "i < length as" for i using n [OF that] that by (simp add: nth_append)
  consider "length as = 2 * k" | "length as = Suc (2 * k)" | "2 * Suc k \<le> length as" using less.prems by fastforce
  then show ?case
  proof cases
    case 1
    then have "loop (meet_step s) (?at (2 * k), ?at k) = Some (Inr 0)" by (intro loop_exits) (simp add: meet_step_def nth_append)
    then show ?thesis by simp
  next
    case 2
    then have "?at (2 * k) \<noteq> 0" "next_of (?at (2 * k)) s = Inr 0" using nz nx [of "2 * k"] by (simp_all add: nth_append)
    then have "loop (meet_step s) (?at (2 * k), ?at k) = Some (Inr (?at (2 * k)))" by (intro loop_exits) (simp add: meet_step_def)
    then show ?thesis using \<open>next_of (?at (2 * k)) s = Inr 0\<close> by blast
  next
    case 3
    have "distinct (as @ [0])" using linked_distinct [OF assms(1)] linked_nonzero [OF assms(1)] by auto
    then have "?at (2 * Suc k) \<noteq> ?at (Suc k)" using 3 nth_eq_iff_index_eq [of "as @ [0]" "2 * Suc k" "Suc k"] by simp
    then have "loop (meet_step s) (?at (2 * k), ?at k) = loop (meet_step s) (?at (2 * Suc k), ?at (Suc k))"
      by (intro loop_goes_on) (use 3 in \<open>simp add: meet_step_def nz [of "2 * k"] nz [of "Suc (2 * k)"] nx [of "2 * k"] nx [of "Suc (2 * k)"] nx [of k]\<close>)
    then show ?thesis using less.hyps [of "Suc k"] 3 by simp
  qed
qed

lemma no_cycle:
  assumes "linked s head as 0"
  shows "detect_cycle head s = Inr 0"
proof -
  obtain f where f: "loop (meet_step s) (head, head) = Some (Inr f)" "f = 0 \<or> next_of f s = Inr 0"
    using fast_ends [OF assms, of 0] linked_start [OF assms] by auto
  then show ?thesis by (auto simp: detect_cycle_def)
qed

section \<open>Counting from the end\<close>

text \<open>
  After \<open>i\<close> nodes the two pointers stand \<open>n\<close> nodes apart, once there are as many.
\<close>

lemma from_end_run:
  assumes "linked s lst as 0" and "1 \<le> n" and "i \<le> length as"
  shows "loop (from_end_step lst (int n) s) ((as @ [0]) ! i, if n \<le> i then as ! (i - n) else 0, if n \<le> i then as ! (i - 1) else 0, int i) =
    Some (Inr (if n \<le> length as then as ! (length as - n) else 0, int (length as)))"
  using assms(3)
proof (induction "length as - i" arbitrary: i)
  case 0
  then show ?case by (intro loop_exits) (simp add: from_end_step_def nth_append)
next
  case (Suc d)
  then have i: "i < length as" by simp
  let ?at = "\<lambda>i. (as @ [0]) ! i"
  have nz: "?at i \<noteq> 0" using linked_nonzero [OF assms(1)] i by (simp add: nth_append)
  have nx: "next_of (as ! j) s = Inr (?at (Suc j))" if "j < length as" for j using linked_next [OF assms(1) that] .
  have "loop (from_end_step lst (int n) s) (?at i, if n \<le> i then as ! (i - n) else 0, if n \<le> i then as ! (i - 1) else 0, int i) =
    loop (from_end_step lst (int n) s) (?at (Suc i), if n \<le> Suc i then as ! (Suc i - n) else 0, if n \<le> Suc i then as ! (Suc i - 1) else 0, int (Suc i))"
  proof (rule loop_goes_on)
    have cur: "next_of (?at i) s = Inr (?at (Suc i))" using nx [OF i] i by (simp add: nth_append)
    consider "n = Suc i" | "n \<le> i" | "Suc i < n" by linarith
    then show "from_end_step lst (int n) s (?at i, if n \<le> i then as ! (i - n) else 0, if n \<le> i then as ! (i - 1) else 0, int i) =
      Inr (Inl (?at (Suc i), if n \<le> Suc i then as ! (Suc i - n) else 0, if n \<le> Suc i then as ! (Suc i - 1) else 0, int (Suc i)))"
    proof cases
      case 1
      moreover have "lst = as ! 0" using linked_start [OF assms(1)] i by (cases as) auto
      ultimately show ?thesis using i nz cur by (simp add: from_end_step_def nth_append)
    next
      case 2
      then have lt: "Suc (i - n) < length as" using assms(2) i by linarith
      have "next_of (as ! (i - n)) s = Inr (as ! (Suc i - n))" "next_of (as ! (i - 1)) s = Inr (as ! i)"
        using nx [of "i - n"] nx [of "i - 1"] assms(2) i lt 2 by (simp_all add: nth_append Suc_diff_le)
      then show ?thesis using 2 nz cur by (simp add: from_end_step_def)
    next
      case 3
      then show ?thesis using nz cur by (simp add: from_end_step_def)
    qed
  qed
  also have "\<dots> = Some (Inr (if n \<le> length as then as ! (length as - n) else 0, int (length as)))"
    by (rule Suc.hyps(1)) (use Suc.hyps(2) i in linarith)+
  finally show ?case .
qed

lemma from_end_ok:
  assumes "linked s lst as 0" and "1 \<le> n"
  shows "find_from_end lst (int n) s = Inr (if n \<le> length as then as ! (length as - n) else 0)"
  using from_end_run [OF assms, of 0] linked_start [OF assms(1)] assms(2) by (auto simp: find_from_end_def)

section \<open>The first common node\<close>

text \<open>
  Each pointer walks along its own list and then along the other one; when a pointer has come to
  the end of a list it is NULL for the test of the loop.
\<close>

definition at_or_null :: "nat list \<Rightarrow> nat list \<Rightarrow> nat \<Rightarrow> nat" where
  "at_or_null as bs i = (if i = length as \<or> i = length as + length bs then 0 else (as @ bs) ! i)"

lemma walk_next:
  assumes "linked s p as 0" and "linked s q bs 0" and "i < length as + length bs"
  shows "next_of ((as @ bs) ! i) s = Inr (at_or_null as bs (Suc i))" and "(as @ bs) ! i \<noteq> 0"
proof -
  show "next_of ((as @ bs) ! i) s = Inr (at_or_null as bs (Suc i))"
  proof (cases "i < length as")
    case True
    then show ?thesis using linked_next [OF assms(1) True] by (cases bs) (auto simp: at_or_null_def nth_append)
  next
    case False
    then have lt: "i - length as < length bs" using assms(3) by simp
    have "next_of (bs ! (i - length as)) s = Inr (if Suc i = length as + length bs then 0 else bs ! Suc (i - length as))"
      using linked_next [OF assms(2) lt] lt False by (simp add: nth_append) linarith
    then show ?thesis using False lt by (simp add: at_or_null_def nth_append Suc_diff_le)
  qed
  have "(as @ bs) ! i \<in> set (as @ bs)" using assms(3) by (intro nth_mem) simp
  then show "(as @ bs) ! i \<noteq> 0" using linked_nonzero [OF assms(1)] linked_nonzero [OF assms(2)] by auto
qed

text \<open>What a pointer is after the test whether it is NULL.\<close>

lemma switch_list:
  assumes "linked s p as 0" and "linked s q bs 0" and "i < length as + length bs"
  shows "(if at_or_null as bs i = 0 then q else at_or_null as bs i) = (as @ bs) ! i"
    and "at_or_null as bs i = 0 \<longleftrightarrow> i = length as"
proof -
  show n: "at_or_null as bs i = 0 \<longleftrightarrow> i = length as" using walk_next(2) [OF assms] assms(3) by (simp add: at_or_null_def)
  show "(if at_or_null as bs i = 0 then q else at_or_null as bs i) = (as @ bs) ! i"
  proof (cases "i = length as")
    case True
    then show ?thesis using n linked_start [OF assms(2)] assms(3) by (cases bs) (auto simp: nth_append)
  next
    case False
    then show ?thesis using n assms(3) by (simp add: at_or_null_def)
  qed
qed

lemma common_goes_on:
  assumes "linked s p as 0" and "linked s q bs 0" and "i < length as + length bs"
    and "\<not> (length as = length bs \<and> i = length as)" and "(as @ bs) ! i \<noteq> (bs @ as) ! i"
  shows "loop (common_step p q s) (at_or_null as bs i, at_or_null bs as i) = loop (common_step p q s) (at_or_null as bs (Suc i), at_or_null bs as (Suc i))"
proof (rule loop_goes_on)
  have i: "i < length bs + length as" using assms(3) by simp
  note a = switch_list [OF assms(1-3)] and b = switch_list [OF assms(2,1) i]
  note na = walk_next(1) [OF assms(1-3)] and nb = walk_next(1) [OF assms(2,1) i]
  have "at_or_null as bs i \<noteq> 0 \<or> at_or_null bs as i \<noteq> 0" using a(2) b(2) assms(4) by auto
  then show "common_step p q s (at_or_null as bs i, at_or_null bs as i) = Inr (Inl (at_or_null as bs (Suc i), at_or_null bs as (Suc i)))"
    unfolding common_step_def Let_def prod.case a(1) b(1) using assms(5) na nb by simp
qed

lemma common_start:
  assumes "linked s p as 0" and "linked s q bs 0" and "as \<noteq> []" and "bs \<noteq> []"
  shows "(p, q) = (at_or_null as bs 0, at_or_null bs as 0)"
  using linked_start [OF assms(1)] linked_start [OF assms(2)] assms(3,4) by (auto simp: at_or_null_def nth_append)

lemma common_runs:
  assumes "linked s p as 0" and "linked s q bs 0" and "as \<noteq> []" and "bs \<noteq> []"
    and "\<And>i. i < T \<Longrightarrow> i < length as + length bs \<and> \<not> (length as = length bs \<and> i = length as) \<and> (as @ bs) ! i \<noteq> (bs @ as) ! i"
  shows "loop (common_step p q s) (p, q) = loop (common_step p q s) (at_or_null as bs T, at_or_null bs as T)"
  using assms(5)
proof (induction T)
  case 0
  show ?case by (simp add: common_start [OF assms(1-4), symmetric])
next
  case (Suc T)
  have "loop (common_step p q s) (p, q) = loop (common_step p q s) (at_or_null as bs T, at_or_null bs as T)" by (rule Suc.IH) (use Suc.prems in simp)
  also have "\<dots> = loop (common_step p q s) (at_or_null as bs (Suc T), at_or_null bs as (Suc T))"
    by (rule common_goes_on [OF assms(1,2)]) (use Suc.prems [of T] in auto)
  finally show ?case .
qed

lemma nth_differ:
  assumes "set as \<inter> set bs = {}" and "i < length as" and "j < length bs"
  shows "as ! i \<noteq> bs ! j"
  using assms by (metis disjoint_iff nth_mem)

lemma common_none:
  assumes "linked s p as 0" and "linked s q bs 0" and "as \<noteq> []" and "bs \<noteq> []" and "set as \<inter> set bs = {}"
  shows "get_intersection_node p q s = Inr None"
proof -
  let ?T = "if length as = length bs then length as else length as + length bs"
  have "loop (common_step p q s) (p, q) = loop (common_step p q s) (at_or_null as bs ?T, at_or_null bs as ?T)"
  proof (rule common_runs [OF assms(1-4)])
    fix i assume i: "i < ?T"
    then have lt: "i < length as + length bs" by (simp split: if_splits)
    have "(as @ bs) ! i \<noteq> (bs @ as) ! i"
    proof -
      consider "i < length as" "i < length bs" | "i < length as" "length bs \<le> i" | "length as \<le> i" "i < length bs" | "length as \<le> i" "length bs \<le> i" by linarith
      then show ?thesis
      proof cases
        case 1
        then show ?thesis using nth_differ [OF assms(5)] by (simp add: nth_append)
      next
        case 2
        have "distinct as" "i - length bs < i" using linked_distinct [OF assms(1)] assms(4) 2 by (cases bs; simp)+
        then show ?thesis using 2 lt by (simp add: nth_append nth_eq_iff_index_eq)
      next
        case 3
        have "distinct bs" "i - length as < i" using linked_distinct [OF assms(2)] assms(3) 3 by (cases as; simp)+
        then show ?thesis using 3 lt by (simp add: nth_append nth_eq_iff_index_eq)
      next
        case 4
        then show ?thesis using nth_differ [OF assms(5), of "i - length bs" "i - length as"] lt by (simp add: nth_append eq_commute)
      qed
    qed
    then show "i < length as + length bs \<and> \<not> (length as = length bs \<and> i = length as) \<and> (as @ bs) ! i \<noteq> (bs @ as) ! i"
      using lt i by auto
  qed
  moreover have "common_step p q s (at_or_null as bs ?T, at_or_null bs as ?T) = Inr (Inr None)" by (auto simp: common_step_def at_or_null_def)
  ultimately show ?thesis by (simp add: get_intersection_node_def loop_exits)
qed

lemma common_found:
  assumes "linked s p (as @ cs) 0" and "linked s q (bs @ cs) 0" and "cs \<noteq> []" and "set as \<inter> set bs = {}"
  shows "get_intersection_node p q s = Inr (Some (hd cs))"
proof -
  let ?A = "as @ cs"
  let ?B = "bs @ cs"
  let ?T = "if length as = length bs then length as else length as + length cs + length bs"
  have c: "0 < length cs" "cs ! 0 = hd cs" using assms(3) by (simp_all add: hd_conv_nth)
  have d: "distinct as" "distinct bs" "distinct cs" "set as \<inter> set cs = {}" "set bs \<inter> set cs = {}"
    using linked_distinct [OF assms(1)] linked_distinct [OF assms(2)] by auto
  have "loop (common_step p q s) (p, q) = loop (common_step p q s) (at_or_null ?A ?B ?T, at_or_null ?B ?A ?T)"
  proof (rule common_runs [OF assms(1,2)])
    show "?A \<noteq> []" "?B \<noteq> []" using assms(3) by simp_all
    fix i assume i: "i < ?T"
    have lt: "i < length as + length cs + length bs" using i c(1) by (auto split: if_splits)
    let ?D = "bs @ cs @ as"
    have D: "distinct ?D" using d assms(4) by auto
    have "?B @ ?A = ?D @ cs" by simp
    then have "(?B @ ?A) ! i = ?D ! i" using lt by (simp only: nth_append) simp
    moreover have "(?A @ ?B) ! i \<noteq> ?D ! i"
    proof -
      consider "i < length as" | "length as \<le> i" "i < length as + length cs" | "length as + length cs \<le> i" by linarith
      then obtain j where "(?A @ ?B) ! i = ?D ! j" "j < length ?D" "i \<noteq> j"
      proof cases
        case 1
        then show thesis using c(1) by (intro that [of "length bs + length cs + i"]) (simp_all add: nth_append)
      next
        case 2
        then show thesis using i by (intro that [of "length bs + (i - length as)"]) (auto simp: nth_append split: if_splits)
      next
        case 3
        then have "i - length as - length cs < i" using c(1) by linarith
        then show thesis using 3 lt c(1) by (intro that [of "i - length as - length cs"]) (auto simp: nth_append)
      qed
      then show ?thesis using D lt nth_eq_iff_index_eq [of ?D i j] by simp
    qed
    ultimately have "(?A @ ?B) ! i \<noteq> (?B @ ?A) ! i" by simp
    then show "i < length ?A + length ?B \<and> \<not> (length ?A = length ?B \<and> i = length ?A) \<and> (?A @ ?B) ! i \<noteq> (?B @ ?A) ! i"
      using i c(1) by (auto split: if_splits)
  qed
  moreover have "common_step p q s (at_or_null ?A ?B ?T, at_or_null ?B ?A ?T) = Inr (Inr (Some (hd cs)))"
  proof -
    have T: "?T < length ?A + length ?B" "?T < length ?B + length ?A" using c(1) by auto
    note a = switch_list [OF assms(1,2) T(1)] and b = switch_list [OF assms(2,1) T(2)]
    have "(?A @ ?B) ! ?T = hd cs" "(?B @ ?A) ! ?T = hd cs" using c by (auto simp: nth_append)
    moreover have "at_or_null ?A ?B ?T \<noteq> 0 \<or> at_or_null ?B ?A ?T \<noteq> 0" using a(2) b(2) c(1) by auto
    ultimately show ?thesis unfolding common_step_def Let_def prod.case a(1) b(1) by simp
  qed
  ultimately show ?thesis by (simp add: get_intersection_node_def loop_exits)
qed

section \<open>Building a list\<close>

text \<open>Memory in which no address from the next call of \<^verbatim>\<open>malloc\<close> on is in use, and every call succeeds.\<close>

definition spacious :: "cell_memory \<Rightarrow> bool" where
  "spacious s \<longleftrightarrow> (\<forall>i. \<not> no_room s i) \<and> (\<forall>a. mallocs s < a \<longrightarrow> cells s a = None) \<and> cells s 0 = None"

lemma malloc_cell_ok:
  assumes "spacious s"
  obtains s1 where "malloc_cell s = (Suc (mallocs s), s1)" "spacious s1" "mallocs s1 = Suc (mallocs s)"
    "cells s1 = (cells s)(Suc (mallocs s) \<mapsto> \<lparr>cell_data = None, cell_next = None\<rparr>)"
  using assms by (auto simp: spacious_def malloc_cell_def)

lemma set_mallocs:
  "set_link a b s = Inr s' \<Longrightarrow> mallocs s' = mallocs s \<and> no_room s' = no_room s"
  "set_data a v s = Inr s' \<Longrightarrow> mallocs s' = mallocs s \<and> no_room s' = no_room s"
  by (auto simp: set_link_def set_data_def bindE_eq_Inr)

lemma spacious_used: "spacious s \<Longrightarrow> cells s a = Some c \<Longrightarrow> 0 < a \<and> a \<le> mallocs s"
  by (cases "a = 0"; cases "a \<le> mallocs s") (auto simp: spacious_def)

lemma spacious_cells:
  assumes "spacious s" and "cells s a = Some c"
  shows "spacious (s\<lparr>cells := (cells s)(a \<mapsto> d)\<rparr>)"
  using assms(1) spacious_used [OF assms] by (simp add: spacious_def)

lemma spacious_set:
  assumes "spacious s"
  shows "set_link a b s = Inr s' \<Longrightarrow> spacious s'" and "set_data a v s = Inr s' \<Longrightarrow> spacious s'"
proof -
  show "spacious s'" if "set_link a b s = Inr s'"
    using that spacious_cells [OF assms] by (cases "cells s a") (auto simp: set_link_def)
  show "spacious s'" if "set_data a v s = Inr s'"
    using that spacious_cells [OF assms] by (cases "cells s a") (auto simp: set_data_def)
qed

text \<open>
  From the node \<open>cur\<close> on, whose own link is not set yet, the new nodes follow in the order of the
  data. The link of the last one is not set.
\<close>

lemma append_cells_ok:
  assumes "spacious s" and "cells s cur \<noteq> None" and "data_of cur s = Inr d"
  shows "\<exists>as last s'. append_cells ds cur s = Inr (last, s') \<and> spacious s' \<and> linked s' cur (butlast (cur # as)) last \<and> last = List.last (cur # as) \<and>
    map (\<lambda>a. data_of a s') (cur # as) = map Inr (d # ds) \<and> distinct (cur # as) \<and> (\<forall>a \<in> set as. mallocs s < a) \<and> cells s' last \<noteq> None \<and>
    (\<forall>a. a \<noteq> cur \<and> a \<le> mallocs s \<longrightarrow> cells s' a = cells s a)"
  using assms
proof (induction ds arbitrary: s cur d)
  case Nil
  then show ?case by (intro exI [of _ "[]"]) simp
next
  case (Cons e ds)
  let ?a = "Suc (mallocs s)"
  obtain s1 where s1: "malloc_cell s = (?a, s1)" "spacious s1" "mallocs s1 = ?a" "cells s1 = (cells s)(?a \<mapsto> \<lparr>cell_data = None, cell_next = None\<rparr>)"
    using malloc_cell_ok [OF Cons.prems(1)] .
  have old: "cur \<le> mallocs s" "cur \<noteq> 0" using spacious_used [OF Cons.prems(1)] Cons.prems(2) by auto
  then have "cells s1 cur \<noteq> None" using Cons.prems(2) s1(4) by simp
  then obtain s2 where s2: "set_link cur ?a s1 = Inr s2" "\<And>x. next_of x s2 = (if x = cur then Inr ?a else next_of x s1)"
    "\<And>x. data_of x s2 = data_of x s1" "\<And>x. x \<noteq> cur \<Longrightarrow> cells s2 x = cells s1 x" "cells s2 cur \<noteq> None" using set_link_ok by metis
  have "cells s2 ?a \<noteq> None" using s2(4) [of ?a] s1(4) old by simp
  then obtain s3 where s3: "set_data ?a e s2 = Inr s3" "\<And>x. next_of x s3 = next_of x s2" "\<And>x. data_of x s3 = (if x = ?a then Inr e else data_of x s2)"
    "\<And>x. x \<noteq> ?a \<Longrightarrow> cells s3 x = cells s2 x" "cells s3 ?a \<noteq> None" using set_data_ok by metis
  have r3: "spacious s3" by (rule spacious_set(2) [OF spacious_set(1) [OF s1(2) s2(1)] s3(1)])
  have m3: "mallocs s3 = ?a" using set_mallocs(1) [OF s2(1)] set_mallocs(2) [OF s3(1)] s1(3) by simp
  obtain as last s' where IH: "append_cells ds ?a s3 = Inr (last, s')" "spacious s'" "linked s' ?a (butlast (?a # as)) last" "last = List.last (?a # as)"
    "map (\<lambda>a. data_of a s') (?a # as) = map Inr (e # ds)" "distinct (?a # as)" "\<forall>a \<in> set as. mallocs s3 < a" "cells s' last \<noteq> None"
    "\<forall>a. a \<noteq> ?a \<and> a \<le> mallocs s3 \<longrightarrow> cells s' a = cells s3 a"
    using Cons.IH [OF r3 s3(5), of e] s3(3) by auto
  have cur: "cells s' cur = cells s2 cur" using IH(9) m3 old s3(4) by simp
  then have "next_of cur s' = Inr ?a" "data_of cur s' = data_of cur s1"
    using s2(2) [of cur] s2(3) [of cur] by (simp_all add: next_of_def data_of_def)
  moreover have "data_of cur s1 = Inr d" using Cons.prems(3) s1(4) old by (simp add: data_of_def)
  moreover have "append_cells (e # ds) cur s = Inr (last, s')" using s1(1) s2(1,2) s3(1) IH(1) by simp
  moreover have "\<forall>a. a \<noteq> cur \<and> a \<le> mallocs s \<longrightarrow> cells s' a = cells s a" using IH(9) m3 s3(4) s2(4) s1(4) by auto
  moreover have "linked s' cur (butlast (cur # ?a # as)) last" using calculation(1) IH(3) old(2) by simp
  moreover have "map (\<lambda>a. data_of a s') (cur # ?a # as) = map Inr (d # e # ds)" using calculation(2,3) IH(5) by simp
  moreover have "distinct (cur # ?a # as)" "\<forall>a \<in> set (?a # as). mallocs s < a" using IH(6,7) m3 old(1) by auto
  moreover have "last = List.last (cur # ?a # as)" using IH(4) by simp
  ultimately show ?case
    by (intro exI [of _ "?a # as"] exI [of _ last] exI [of _ s'] conjI) (use IH(2,8) in \<open>assumption | simp\<close>)+
qed

text \<open>A list that is linked to another node at its end holds the data in order, in nodes of its own.\<close>

lemma initialize_before_ok:
  assumes "spacious s" and "ds \<noteq> []"
  shows "\<exists>header as s'. initialize_before ds node s = Inr (header, s') \<and> linked s' header as node \<and> as \<noteq> [] \<and> spacious s' \<and>
    map (\<lambda>a. data_of a s') as = map Inr ds \<and> distinct as \<and> (\<forall>a \<in> set as. mallocs s < a) \<and> (\<forall>a. a \<le> mallocs s \<longrightarrow> cells s' a = cells s a)"
proof -
  obtain d ds' where ds: "ds = d # ds'" using assms(2) by (cases ds) auto
  let ?a = "Suc (mallocs s)"
  obtain s1 where s1: "malloc_cell s = (?a, s1)" "spacious s1" "mallocs s1 = ?a" "cells s1 = (cells s)(?a \<mapsto> \<lparr>cell_data = None, cell_next = None\<rparr>)"
    using malloc_cell_ok [OF assms(1)] .
  then have "cells s1 ?a \<noteq> None" by simp
  then obtain s2 where s2: "set_data ?a d s1 = Inr s2" "\<And>x. data_of x s2 = (if x = ?a then Inr d else data_of x s1)"
    "\<And>x. x \<noteq> ?a \<Longrightarrow> cells s2 x = cells s1 x" "cells s2 ?a \<noteq> None" using set_data_ok by metis
  have r2: "spacious s2" "mallocs s2 = ?a" using spacious_set(2) [OF s1(2) s2(1)] s1(3) set_mallocs(2) [OF s2(1)] by simp_all
  have d2: "data_of ?a s2 = Inr d" using s2(2) by simp
  obtain as last s3 where s3: "append_cells ds' ?a s2 = Inr (last, s3)" "spacious s3" "linked s3 ?a (butlast (?a # as)) last" "last = List.last (?a # as)"
    "map (\<lambda>a. data_of a s3) (?a # as) = map Inr (d # ds')" "distinct (?a # as)" "\<forall>a \<in> set as. mallocs s2 < a" "cells s3 last \<noteq> None"
    "\<forall>a. a \<noteq> ?a \<and> a \<le> mallocs s2 \<longrightarrow> cells s3 a = cells s2 a" using append_cells_ok [OF r2(1) s2(4) d2, of ds'] by blast
  obtain s4 where s4: "set_link last node s3 = Inr s4" "\<And>x. next_of x s4 = (if x = last then Inr node else next_of x s3)"
    "\<And>x. data_of x s4 = data_of x s3" "\<And>x. x \<noteq> last \<Longrightarrow> cells s4 x = cells s3 x" using set_link_ok [OF s3(8)] by metis
  have sp: "?a # as = butlast (?a # as) @ [last]" using s3(4) by (metis append_butlast_last_id list.discI)
  then have l: "last \<notin> set (butlast (?a # as))" "last \<in> set (?a # as)" using s3(6) by (metis distinct_append disjoint_iff list.set_intros(1), metis in_set_conv_decomp)
  have "linked s4 ?a (butlast (?a # as)) last = linked s3 ?a (butlast (?a # as)) last" by (rule linked_cong) (use l(1) s4(2) in auto)
  moreover have "last \<noteq> 0" using s3(8) spacious_used [OF s3(2)] by auto
  ultimately have "linked s4 ?a (butlast (?a # as) @ [last]) node" using s3(3) s4(2) by (simp add: linked_append)
  then have "linked s4 ?a (?a # as) node" using sp by metis
  moreover have "initialize_before ds node s = Inr (?a, s4)" using ds s1(1) s2(1) s3(1) s4(1) by (simp add: initialize_before_def initialize_cells_def)
  moreover have own: "\<forall>a \<in> set (?a # as). mallocs s < a" using s3(7) r2(2) by auto
  moreover have "\<forall>a. a \<le> mallocs s \<longrightarrow> cells s4 a = cells s a"
  proof (intro allI impI)
    fix a assume a: "a \<le> mallocs s"
    then have "a \<noteq> last" "a \<noteq> ?a" using own l(2) by auto
    then show "cells s4 a = cells s a" using a s4(4) s3(9) s2(3) s1(4) r2(2) by simp
  qed
  moreover have "map (\<lambda>a. data_of a s4) (?a # as) = map Inr ds" using s3(5) s4(3) ds by simp
  moreover have "spacious s4" by (rule spacious_set(1) [OF s3(2) s4(1)])
  ultimately show ?thesis using s3(6) by blast
qed

section \<open>Properties\<close>

text \<open>Empty memory, and the memory after a list has been built in it.\<close>

definition no_cells :: cell_memory where
  "no_cells = \<lparr>cells = Map.empty, mallocs = 0, no_room = (\<lambda>i. False), shown = []\<rparr>"

definition built :: "nat \<Rightarrow> (nat \<times> int \<times> nat) list \<Rightarrow> cell_memory" where
  "built n xs = \<lparr>cells = map_of (map (\<lambda>(a, d, b). (a, \<lparr>cell_data = Some d, cell_next = Some b\<rparr>)) xs), mallocs = n, no_room = (\<lambda>i. False), shown = []\<rparr>"

lemma built_simps [simp]: "mallocs (built n xs) = n" "no_room (built n xs) i = False"
  by (simp_all add: built_def)

text \<open>
  C38: \<^verbatim>\<open>merge_ordered_list\<close> of two disjoint lists, not both empty, returns a new header that is
  followed by a list of exactly the nodes of the two lists, relinked in place with their data
  unchanged and ending in NULL; if both lists are in order, so is the result.
\<close>

theorem merge_ordered_list_merges:
  assumes "linked s list1 ps 0" and "linked s list2 qs 0" and "set ps \<inter> set qs = {}" and "ps @ qs \<noteq> []"
    and "\<forall>a \<in> set ps \<union> set qs. data_of a s = Inr (f a)" and "\<not> no_room s (mallocs s)" and "cells s (Suc (mallocs s)) = None"
  shows "\<exists>result s' m as. merge_ordered_list list1 list2 s = Inr (result, s') \<and> next_of result s' = Inr m \<and> linked s' m as 0 \<and>
    mset as = mset ps + mset qs \<and> (\<forall>a \<in> set as. data_of a s' = data_of a s) \<and>
    (sorted (map f ps) \<and> sorted (map f qs) \<longrightarrow> sorted (map f as))"
proof -
  obtain result s' m where r: "merge_ordered_list list1 list2 s = Inr (result, s')" "next_of result s' = Inr m"
    "linked s' m (merge_by f ps qs) 0" "\<forall>a. a \<noteq> result \<longrightarrow> data_of a s' = data_of a s" using merge_ok [OF assms] by blast
  have "result = Suc (mallocs s)" using r(1) assms(6) by (auto simp: merge_ordered_list_def malloc_cell_def bindE_eq_Inr)
  then have "result \<notin> set (merge_by f ps qs)" using assms(7) linked_cell [OF assms(1), of result] linked_cell [OF assms(2), of result] by (auto simp: set_merge_by)
  then have "\<forall>a \<in> set (merge_by f ps qs). data_of a s' = data_of a s" using r(4) by metis
  then show ?thesis using r(1-3) mset_merge_by sorted_merge_by by blast
qed

theorem merge_ordered_list_merges_witness:
  "\<exists>result s' m as. merge_ordered_list 1 3 (built 4 [(1, 2, 2), (2, 5, 0), (3, 1, 4), (4, 3, 0)]) = Inr (result, s') \<and> next_of result s' = Inr m \<and>
    linked s' m as 0 \<and> mset as = {#1, 2#} + {#3, 4#}"
proof -
  let ?s = "built 4 [(1, 2, 2), (2, 5, 0), (3, 1, 4), (4, 3, 0)]"
  let ?f = "\<lambda>a. if a = 1 then 2 else if a = 2 then 5 else if a = 3 then 1 else (3 :: int)"
  have "linked ?s 1 [1, 2] 0" "linked ?s 3 [3, 4] 0" "\<forall>a \<in> set [1, 2] \<union> set [3, 4]. data_of a ?s = Inr (?f a)" "cells ?s (Suc 4) = None"
    by (simp_all add: built_def next_of_def data_of_def)
  then show ?thesis using merge_ordered_list_merges [of ?s 1 "[1, 2]" 3 "[3, 4]" ?f] by auto
qed

text \<open>
  C37: \<^verbatim>\<open>detect_cycle\<close> ends for every list, reads no field that is not there, and returns the node the
  cycle begins with, or NULL if the list has none: the two pointers meet after a multiple of the
  length of the cycle.
\<close>

theorem detect_cycle_finds:
  assumes "linked s head (stem @ cyc) (if cyc = [] then 0 else hd cyc)" and "distinct (stem @ cyc)"
  shows "detect_cycle head s = Inr (if cyc = [] then 0 else hd cyc)"
  using assms no_cycle [of s head stem] cycle_found [of s head stem cyc] by (cases "cyc = []") simp_all

theorem detect_cycle_finds_witness:
  "detect_cycle 1 (built 5 [(1, 10, 2), (2, 20, 3), (3, 30, 4), (4, 40, 5), (5, 50, 3)]) = Inr 3"
  using detect_cycle_finds [of "built 5 [(1, 10, 2), (2, 20, 3), (3, 30, 4), (4, 40, 5), (5, 50, 3)]" 1 "[1, 2]" "[3, 4, 5]"]
  by (simp add: built_def next_of_def)

text \<open>
  \<^verbatim>\<open>find_from_end\<close> returns the node that is the given number of nodes before the end, or NULL if
  the list is shorter.
\<close>

theorem find_from_end_counts:
  assumes "linked s lst as 0" and "1 \<le> n"
  shows "find_from_end lst (int n) s = Inr (if n \<le> length as then as ! (length as - n) else 0)"
  by (rule from_end_ok [OF assms])

theorem find_from_end_counts_witness:
  "find_from_end 1 2 (built 3 [(1, 10, 2), (2, 20, 3), (3, 30, 0)]) = Inr 2"
  using find_from_end_counts [of "built 3 [(1, 10, 2), (2, 20, 3), (3, 30, 0)]" 1 "[1, 2, 3]" 2]
  by (simp add: built_def next_of_def)

text \<open>
  \<^verbatim>\<open>get_intersection_node\<close> of two lists that are not empty returns the first node of their common
  end. If they have none the loop ends and so does the function, without returning a value.
\<close>

theorem get_intersection_node_finds:
  assumes "linked s p (as @ cs) 0" and "linked s q (bs @ cs) 0" and "set as \<inter> set bs = {}" and "as @ cs \<noteq> []" and "bs @ cs \<noteq> []"
  shows "get_intersection_node p q s = Inr (if cs = [] then None else Some (hd cs))"
  using assms common_none [of s p as q bs] common_found [of s p as cs q bs] by (cases "cs = []") simp_all

theorem get_intersection_node_finds_witness:
  "get_intersection_node 1 3 (built 4 [(1, 10, 2), (2, 20, 0), (3, 30, 4), (4, 40, 2)]) = Inr (Some 2)"
  using get_intersection_node_finds [of "built 4 [(1, 10, 2), (2, 20, 0), (3, 30, 4), (4, 40, 2)]" 1 "[1]" "[2]" 3 "[3, 4]"]
  by (simp add: built_def next_of_def)

text \<open>An empty list is taken to have its first node in common with the other one.\<close>

lemma empty_in_common: "q \<noteq> 0 \<Longrightarrow> get_intersection_node 0 q s = Inr (Some q) \<and> get_intersection_node q 0 s = Inr (Some q)"
  by (simp add: get_intersection_node_def loop_exits common_step_def)

text \<open>The header of the merge of two empty lists is left without a link.\<close>

lemma merge_of_nothing:
  assumes "spacious s"
  shows "\<exists>result s'. merge_ordered_list 0 0 s = Inr (result, s') \<and> next_of result s' = Inl OutOfBounds"
  using assms by (auto simp: merge_ordered_list_def malloc_cell_def spacious_def set_data_def merge_tail_def merge_step_def loop_exits next_of_def Let_def)

text \<open>
  \<^verbatim>\<open>initialize_list\<close> of \<^verbatim>\<open>merge_ordered_list.c\<close> and of \<^verbatim>\<open>find_from_end.c\<close>, and the common nodes of
  \<^verbatim>\<open>get_intersection_node.c\<close>, leave the link of the last node as \<^verbatim>\<open>malloc\<close> returned it, and the programs
  read it. \<^verbatim>\<open>detect_cycle.c\<close> sets it and prints the node the cycle begins with.
\<close>

text \<open>
  The programs \<^verbatim>\<open>merge_ordered_list.c\<close>, \<^verbatim>\<open>get_intersection_node.c\<close> and \<^verbatim>\<open>find_from_end.c\<close> read the link
  of a last node, which is as \<^verbatim>\<open>malloc\<close> returned it. \<^verbatim>\<open>detect_cycle.c\<close> sets it, and prints the node the
  cycle begins with.
\<close>

theorem programs_read_unset_links:
  "bindE (merge_main no_cells) (\<lambda>s. Inr (shown s)) = Inl OutOfBounds" "bindE (intersection_main no_cells) (\<lambda>s. Inr (shown s)) = Inl OutOfBounds" "bindE (from_end_main no_cells) (\<lambda>s. Inr (shown s)) = Inl OutOfBounds"
  "bindE (detect_main no_cells) (\<lambda>s. Inr (shown s)) = Inr [Str ''node value: '', Dec 9, Str [CHR 0x0A]]"
  by code_simp+

end
