(* ===== verification/Sample_Arrays.thy ===== *)
theory Sample_Arrays
  imports Prelude
begin

text \<open>
  The arrays and strings of \<^verbatim>\<open>sample/data_structure\<close> (\<^verbatim>\<open>remove_duplicate.c\<close>, \<^verbatim>\<open>is_palindrome.c\<close>,
  \<^verbatim>\<open>longest_palindrome.c\<close>, \<^verbatim>\<open>precedence.c\<close>): the loops over indices, with every access checked against
  the length of the array, and the functions on lists they compute.
\<close>

section \<open>Arrays\<close>

text \<open>An array is the list of its elements; an index past its end is a fault.\<close>

definition elem_at :: "'a list \<Rightarrow> nat \<Rightarrow> 'a res" where
  "elem_at xs i = (if i < length xs then Inr (xs ! i) else Inl OutOfBounds)"

definition put_elem :: "'a list \<Rightarrow> nat \<Rightarrow> 'a \<Rightarrow> 'a list res" where
  "put_elem xs i v = (if i < length xs then Inr (xs[i := v]) else Inl OutOfBounds)"

subsection \<open>Removing elements in place\<close>

function remove_loop :: "nat \<Rightarrow> int \<Rightarrow> nat \<Rightarrow> nat \<Rightarrow> int list \<Rightarrow> (nat \<times> int list) res" where
  "remove_loop cnt val i index nums =
     (if i < cnt
      then bindE (elem_at nums i) (\<lambda>x.
        if x \<noteq> val then bindE (put_elem nums index x) (remove_loop cnt val (i + 1) (index + 1))
        else remove_loop cnt val (i + 1) index nums)
      else Inr (index, nums))"
  by pat_completeness auto
termination by (relation "measure (\<lambda>(cnt, val, i, index, nums). cnt - i)") auto

definition removeElement :: "int list \<Rightarrow> nat \<Rightarrow> int \<Rightarrow> (nat \<times> int list) res" where
  "removeElement nums cnt val = remove_loop cnt val 0 0 nums"

function duplicates_loop :: "nat \<Rightarrow> nat \<Rightarrow> nat \<Rightarrow> int list \<Rightarrow> (nat \<times> int list) res" where
  "duplicates_loop cnt i index nums =
     (if i < cnt
      then bindE (elem_at nums (i - 1)) (\<lambda>x. bindE (elem_at nums i) (\<lambda>y.
        if x \<noteq> y
        then bindE (elem_at nums index) (\<lambda>z.
             bindE (if z \<noteq> y then put_elem nums index y else Inr nums) (duplicates_loop cnt (i + 1) (index + 1)))
        else duplicates_loop cnt (i + 1) index nums))
      else Inr (index, nums))"
  by pat_completeness auto
termination by (relation "measure (\<lambda>(cnt, i, index, nums). cnt - i)") auto

definition removeDuplicates :: "int list \<Rightarrow> nat \<Rightarrow> (nat \<times> int list) res" where
  "removeDuplicates nums cnt = (if cnt < 2 then Inr (cnt, nums) else duplicates_loop cnt 1 1 nums)"

declare remove_loop.simps [simp del] duplicates_loop.simps [simp del]

text \<open>\<^verbatim>\<open>"%d\t"\<close> for the first elements of an array.\<close>

fun print_elems :: "nat \<Rightarrow> int list \<Rightarrow> piece list res" where
  "print_elems 0 xs = Inr []"
| "print_elems (Suc n) xs = bindE (print_elems n xs) (\<lambda>ps. bindE (elem_at xs n) (\<lambda>x. Inr (ps @ [Dec x, Str [CHR 0x09]])))"

definition remove_main :: "piece list res" where
  "remove_main =
     bindE (removeDuplicates [0, 0, 1, 1, 2, 2, 3, 3, 4] 9) (\<lambda>(c1, nums).
     bindE (print_elems 9 nums) (\<lambda>ps.
     bindE (removeElement [0, 1, 2, 2, 3, 0, 4, 2] 8 2) (\<lambda>(c2, nums1).
     bindE (print_elems c2 nums1) (\<lambda>qs.
       Inr ([Str ''count: '', Dec (int c1), Str [CHR 0x0A], Str ''array: ''] @ ps @ [Str [CHR 0x0A]] @
            [Str ''count: '', Dec (int c2), Str [CHR 0x0A], Str ''array: ''] @ qs @ [Str [CHR 0x0A]])))))"

subsection \<open>Palindromes\<close>

function palindrome_loop :: "char list \<Rightarrow> nat \<Rightarrow> nat \<Rightarrow> int res" where
  "palindrome_loop str cnt i =
     (if i < cnt div 2
      then bindE (elem_at str i) (\<lambda>x. bindE (elem_at str (cnt - i - 1)) (\<lambda>y. if x \<noteq> y then Inr 0 else palindrome_loop str cnt (i + 1)))
      else Inr 1)"
  by pat_completeness auto
termination by (relation "measure (\<lambda>(str, cnt, i). cnt - i)") auto

definition is_palindrome :: "char list \<Rightarrow> nat \<Rightarrow> int res" where
  "is_palindrome str cnt = palindrome_loop str cnt 0"

text \<open>\<^verbatim>\<open>"%s"\<close> prints up to the terminator, which has to be in the array.\<close>

definition string_piece :: "char list \<Rightarrow> piece res" where
  "string_piece str = (if CHR 0x00 \<in> set str then Inr (Str (takeWhile (\<lambda>c. c \<noteq> CHR 0x00) str)) else Inl OutOfBounds)"

definition is_message :: string where
  "is_message = [CHR 0xE6, CHR 0x98, CHR 0xAF]"

definition is_not_message :: string where
  "is_not_message = [CHR 0xE4, CHR 0xB8, CHR 0x8D, CHR 0xE6, CHR 0x98, CHR 0xAF]"

definition palindrome_message :: string where
  "palindrome_message = [CHR 0xE5, CHR 0x9B, CHR 0x9E, CHR 0xE6, CHR 0x96, CHR 0x87]"

definition palindrome_main :: "piece list res" where
  "palindrome_main =
     (let str = ''abbca'' in
      bindE (is_palindrome str 5) (\<lambda>r.
      bindE (string_piece str) (\<lambda>p. Inr [p, Str (if r > 0 then is_message else is_not_message), Str palindrome_message])))"

text \<open>
  The two indices leave the array on the left, when \<open>l\<close> is -1, and on the right; the test on the
  right lets through \<open>cnt\<close>, one past the last element.
\<close>

function spread :: "char list \<Rightarrow> nat \<Rightarrow> int \<Rightarrow> nat \<Rightarrow> (int \<times> nat) res" where
  "spread str cnt l r =
     (if l \<ge> 0 \<and> r \<le> cnt
      then bindE (elem_at str (nat l)) (\<lambda>x. bindE (elem_at str r) (\<lambda>y. if x = y then spread str cnt (l - 1) (r + 1) else Inr (l, r)))
      else Inr (l, r))"
  by pat_completeness auto
termination by (relation "measure (\<lambda>(str, cnt, l, r). nat (l + 1))") auto

declare palindrome_loop.simps [simp del] spread.simps [simp del]

text \<open>
  The block for the result is as large as an \<^verbatim>\<open>int\<close>, the type of the expression under \<^verbatim>\<open>sizeof\<close>;
  \<open>room\<close> says whether \<^verbatim>\<open>malloc\<close> returns one.
\<close>

definition find_palindrome :: "bool \<Rightarrow> char list \<Rightarrow> nat \<Rightarrow> nat \<Rightarrow> nat \<Rightarrow> (char list \<times> int) res" where
  "find_palindrome room str l0 r0 cnt =
     bindE (spread str cnt (int l0) r0) (\<lambda>(l, r).
       let n = int r - l - 1; from = nat (l + 1) in
       if room \<and> n \<le> 4 \<and> from + nat n \<le> length str then Inr (take (nat n) (drop from str), n) else Inl OutOfBounds)"

definition longer :: "char list \<times> int \<Rightarrow> char list \<times> int \<Rightarrow> char list \<times> int" where
  "longer result i = (if snd result > snd i then result else i)"

fun longest_loop :: "bool \<Rightarrow> char list \<Rightarrow> nat \<Rightarrow> nat list \<Rightarrow> char list \<times> int \<Rightarrow> (char list \<times> int) res" where
  "longest_loop room str cnt [] result = Inr result"
| "longest_loop room str cnt (i # is) result =
     bindE (find_palindrome room str i i cnt) (\<lambda>i1. bindE (find_palindrome room str i (i + 1) cnt) (\<lambda>i2.
       longest_loop room str cnt is (longer (longer result i1) i2)))"

definition longest_palindrome :: "bool \<Rightarrow> char list \<Rightarrow> nat \<Rightarrow> (char list \<times> int) res" where
  "longest_palindrome room str cnt = longest_loop room str cnt [0..<cnt] ([], 0)"

definition longest_message :: string where
  "longest_message = [CHR 0xE6, CHR 0x9C, CHR 0x80, CHR 0xE9, CHR 0x95, CHR 0xBF, CHR 0xE5, CHR 0x9B, CHR 0x9E, CHR 0xE6, CHR 0x96, CHR 0x87, CHR 0xE4, CHR 0xB8, CHR 0xBA] @ '': ''"

definition longest_main :: "bool \<Rightarrow> piece list res" where
  "longest_main room =
     bindE (longest_palindrome room ''bababd'' 6) (\<lambda>result. bindE (string_piece (fst result)) (\<lambda>p. Inr [Str longest_message, p, Str [CHR 0x0A]]))"

subsection \<open>Precedence\<close>

fun print_wrong :: "nat \<Rightarrow> int list \<Rightarrow> piece list res" where
  "print_wrong 0 arr = Inr []"
| "print_wrong (Suc n) arr = bindE (print_wrong n arr) (\<lambda>ps. bindE (elem_at arr 0) (\<lambda>x. Inr (ps @ [Dec (x + int n), Str [CHR 0x09]])))"

definition precedence_main :: "piece list res" where
  "precedence_main =
     (let arr = [100, 10, 1] in
      bindE (print_wrong 3 arr) (\<lambda>ps. bindE (print_elems 3 arr) (\<lambda>qs.
        Inr ([Str ''Wrong: ''] @ ps @ [Str [CHR 0x0A]] @ [Str ''Right: ''] @ qs @ [Str [CHR 0x0A]]))))"

section \<open>What the loops compute\<close>

lemma put_at_prefix: "length ys \<le> i \<Longrightarrow> i < length xs \<Longrightarrow> put_elem (ys @ drop (length ys) xs) (length ys) v = Inr ((ys @ [v]) @ drop (Suc (length ys)) xs)"
  by (simp add: put_elem_def list_update_append flip: Cons_nth_drop_Suc)

lemma elem_behind: "length ys \<le> i \<Longrightarrow> i < length xs \<Longrightarrow> elem_at (ys @ drop (length ys) xs) i = Inr (xs ! i)"
  by (auto simp: elem_at_def nth_append)

text \<open>What has been kept so far is at the start of the array, and the rest is as it was.\<close>

lemma remove_loop_run:
  assumes "i \<le> cnt" and "cnt \<le> length xs"
  shows "remove_loop cnt val i (length (filter (\<lambda>x. x \<noteq> val) (take i xs))) (filter (\<lambda>x. x \<noteq> val) (take i xs) @ drop (length (filter (\<lambda>x. x \<noteq> val) (take i xs))) xs) =
    Inr (length (filter (\<lambda>x. x \<noteq> val) (take cnt xs)), filter (\<lambda>x. x \<noteq> val) (take cnt xs) @ drop (length (filter (\<lambda>x. x \<noteq> val) (take cnt xs))) xs)"
  using assms(1)
proof (induction "cnt - i" arbitrary: i)
  case 0
  then show ?case by (simp add: remove_loop.simps [of _ _ i])
next
  case (Suc d)
  let ?k = "\<lambda>i. filter (\<lambda>x. x \<noteq> val) (take i xs)"
  have i: "i < cnt" "i < length xs" using Suc.hyps(2) assms(2) by simp_all
  have le: "length (?k i) \<le> i" by (metis length_filter_le length_take min.cobounded2 le_trans)
  have t: "?k (Suc i) = ?k i @ (if xs ! i \<noteq> val then [xs ! i] else [])" using i by (simp add: take_Suc_conv_app_nth)
  have IH: "remove_loop cnt val (Suc i) (length (?k (Suc i))) (?k (Suc i) @ drop (length (?k (Suc i))) xs) = Inr (length (?k cnt), ?k cnt @ drop (length (?k cnt)) xs)"
    by (rule Suc.hyps(1)) (use Suc.hyps(2) i in linarith)+
  show ?case
  proof (cases "xs ! i = val")
    case True
    then show ?thesis using IH t i elem_behind [OF le i(2)] by (simp add: remove_loop.simps [of _ _ i])
  next
    case False
    then have "remove_loop cnt val i (length (?k i)) (?k i @ drop (length (?k i)) xs) = remove_loop cnt val (Suc i) (length (?k (Suc i))) (?k (Suc i) @ drop (length (?k (Suc i))) xs)"
      using t i elem_behind [OF le i(2)] put_at_prefix [OF le i(2), of "xs ! i"] by (simp add: remove_loop.simps [of _ _ i])
    then show ?thesis using IH by simp
  qed
qed

lemma removeElement_ok:
  assumes "cnt \<le> length nums"
  shows "removeElement nums cnt val = Inr (length (filter (\<lambda>x. x \<noteq> val) (take cnt nums)), filter (\<lambda>x. x \<noteq> val) (take cnt nums) @ drop (length (filter (\<lambda>x. x \<noteq> val) (take cnt nums))) nums)"
  using remove_loop_run [of 0 cnt nums val] assms by (simp add: removeElement_def)

lemma remdups_adj_snoc: "xs \<noteq> [] \<Longrightarrow> remdups_adj (xs @ [y]) = remdups_adj xs @ (if List.last xs = y then [] else [y])"
proof -
  assume "xs \<noteq> []"
  then obtain us u where "xs = us @ [u]" by (metis rev_exhaust)
  then show ?thesis using remdups_adj_append_two [of us u y] by simp
qed

lemma duplicates_loop_run:
  assumes "1 \<le> i" and "i \<le> cnt" and "cnt \<le> length xs"
  shows "duplicates_loop cnt i (length (remdups_adj (take i xs))) (remdups_adj (take i xs) @ drop (length (remdups_adj (take i xs))) xs) =
    Inr (length (remdups_adj (take cnt xs)), remdups_adj (take cnt xs) @ drop (length (remdups_adj (take cnt xs))) xs)"
  using assms(1,2)
proof (induction "cnt - i" arbitrary: i)
  case 0
  then show ?case by (simp add: duplicates_loop.simps [of _ i])
next
  case (Suc d)
  let ?k = "\<lambda>i. remdups_adj (take i xs)"
  have i: "i < cnt" "i < length xs" "take i xs \<noteq> []" using Suc.hyps(2) Suc.prems(1) assms(3) by auto
  have le: "length (?k i) \<le> i" by (metis remdups_adj_length length_take min.cobounded2 le_trans)
  have l: "List.last (take i xs) = xs ! (i - 1)" using i Suc.prems(1) by (simp add: last_conv_nth)
  have t: "?k (Suc i) = ?k i @ (if xs ! (i - 1) \<noteq> xs ! i then [xs ! i] else [])" using i l by (simp add: take_Suc_conv_app_nth remdups_adj_snoc)
  have prev: "elem_at (?k i @ drop (length (?k i)) xs) (i - 1) = Inr (xs ! (i - 1))"
  proof (cases "length (?k i) \<le> i - 1")
    case True
    then show ?thesis using elem_behind [of "?k i" "i - 1" xs] i by simp
  next
    case False
    then have "length (?k i) = i" using le by linarith
    moreover have "?k i ! (length (?k i) - 1) = List.last (?k i)" by (rule last_conv_nth [symmetric]) (use i(3) in simp)
    then have "?k i ! (length (?k i) - 1) = xs ! (i - 1)" using l by (metis last_remdups_adj)
    ultimately show ?thesis using i Suc.prems(1) by (auto simp: elem_at_def nth_append)
  qed
  have IH: "duplicates_loop cnt (Suc i) (length (?k (Suc i))) (?k (Suc i) @ drop (length (?k (Suc i))) xs) = Inr (length (?k cnt), ?k cnt @ drop (length (?k cnt)) xs)"
    by (rule Suc.hyps(1)) (use Suc.hyps(2) i in linarith)+
  show ?case
  proof (cases "xs ! (i - 1) = xs ! i")
    case True
    then show ?thesis using IH t i prev elem_behind [OF le i(2)] by (simp add: duplicates_loop.simps [of _ i])
  next
    case False
    let ?a = "?k i @ drop (length (?k i)) xs"
    have z: "elem_at ?a (length (?k i)) = Inr (xs ! length (?k i))" by (rule elem_behind) (use le i in simp_all)
    have p: "put_elem ?a (length (?k i)) (xs ! i) = Inr (?k (Suc i) @ drop (length (?k (Suc i))) xs)"
      using put_at_prefix [OF le i(2), of "xs ! i"] t False by simp
    have "(if xs ! length (?k i) \<noteq> xs ! i then put_elem ?a (length (?k i)) (xs ! i) else Inr ?a) = Inr (?k (Suc i) @ drop (length (?k (Suc i))) xs)"
    proof (cases "xs ! length (?k i) = xs ! i")
      case True
      then have "put_elem ?a (length (?k i)) (xs ! i) = Inr ?a" using le i by (simp add: put_elem_def list_update_append flip: Cons_nth_drop_Suc)
      then show ?thesis using True p by simp
    qed (use p in simp)
    then have "duplicates_loop cnt i (length (?k i)) ?a = duplicates_loop cnt (Suc i) (Suc (length (?k i))) (?k (Suc i) @ drop (length (?k (Suc i))) xs)"
      using False i prev elem_behind [OF le i(2)] z by (simp add: duplicates_loop.simps [of _ i])
    then show ?thesis using IH t False by simp
  qed
qed

lemma removeDuplicates_ok:
  assumes "cnt \<le> length nums"
  shows "removeDuplicates nums cnt = Inr (length (remdups_adj (take cnt nums)), remdups_adj (take cnt nums) @ drop (length (remdups_adj (take cnt nums))) nums)"
proof (cases "cnt < 2")
  case True
  then consider "cnt = 0" | "cnt = 1" by linarith
  then show ?thesis using assms by cases (cases nums; simp add: removeDuplicates_def)+
next
  case False
  then have "nums \<noteq> []" using assms by auto
  then have "take 1 nums = [nums ! 0]" "nums = [nums ! 0] @ drop 1 nums" by (cases nums; simp)+
  then show ?thesis using duplicates_loop_run [of 1 cnt nums] assms False by (simp add: removeDuplicates_def)
qed

lemma palindrome_loop_run:
  assumes "cnt \<le> length str"
  shows "palindrome_loop str cnt i = Inr (if \<forall>j. i \<le> j \<and> j < cnt div 2 \<longrightarrow> str ! j = str ! (cnt - j - 1) then 1 else 0)"
proof (induction "cnt div 2 - i" arbitrary: i)
  case 0
  then show ?case by (simp add: palindrome_loop.simps [of _ _ i])
next
  case (Suc d)
  then have i: "i < cnt div 2" by simp
  then have e: "elem_at str i = Inr (str ! i)" "elem_at str (cnt - i - 1) = Inr (str ! (cnt - i - 1))" using assms by (auto simp: elem_at_def)
  have "(\<forall>j. i \<le> j \<and> j < cnt div 2 \<longrightarrow> str ! j = str ! (cnt - j - 1)) \<longleftrightarrow> str ! i = str ! (cnt - i - 1) \<and> (\<forall>j. Suc i \<le> j \<and> j < cnt div 2 \<longrightarrow> str ! j = str ! (cnt - j - 1))"
    using i by (metis Suc_leD Suc_leI le_neq_implies_less order_refl)
  moreover have "palindrome_loop str cnt (Suc i) = Inr (if \<forall>j. Suc i \<le> j \<and> j < cnt div 2 \<longrightarrow> str ! j = str ! (cnt - j - 1) then 1 else 0)"
    by (rule Suc.hyps(1)) (use Suc.hyps(2) in linarith)
  ultimately show ?case using i e by (simp add: palindrome_loop.simps [of _ _ i])
qed

lemma half_palindrome:
  "(\<forall>j. j < length xs div 2 \<longrightarrow> xs ! j = xs ! (length xs - j - 1)) \<longleftrightarrow> rev xs = xs"
proof
  assume half: "\<forall>j. j < length xs div 2 \<longrightarrow> xs ! j = xs ! (length xs - j - 1)"
  show "rev xs = xs"
  proof (rule nth_equalityI)
    fix j assume "j < length (rev xs)"
    then have j: "j < length xs" by simp
    consider "j < length xs div 2" | "length xs - j - 1 < length xs div 2" | "length xs - j - 1 = j" using j by linarith
    then have "xs ! (length xs - j - 1) = xs ! j"
    proof cases
      case 2
      then have "xs ! (length xs - j - 1) = xs ! (length xs - (length xs - j - 1) - 1)" using half by blast
      then show ?thesis using j by simp
    qed (use half in auto)
    then show "rev xs ! j = xs ! j" using j by (simp add: rev_nth)
  qed simp
next
  assume "rev xs = xs"
  then have "rev xs ! j = xs ! j" for j by simp
  then show "\<forall>j. j < length xs div 2 \<longrightarrow> xs ! j = xs ! (length xs - j - 1)" by (metis rev_nth Suc_diff_1 diff_diff_left add.commute plus_1_eq_Suc less_le_trans div_le_dividend)
qed

lemma is_palindrome_ok:
  assumes "cnt \<le> length str"
  shows "is_palindrome str cnt = Inr (if rev (take cnt str) = take cnt str then 1 else 0)"
proof -
  have "(\<forall>j. 0 \<le> j \<and> j < cnt div 2 \<longrightarrow> str ! j = str ! (cnt - j - 1)) \<longleftrightarrow>
      (\<forall>j. j < length (take cnt str) div 2 \<longrightarrow> take cnt str ! j = take cnt str ! (length (take cnt str) - j - 1))"
    using assms by (auto simp: min_def)
  then show ?thesis using palindrome_loop_run [OF assms, of 0] half_palindrome [of "take cnt str"] by (simp add: is_palindrome_def)
qed

section \<open>Properties\<close>

text \<open>
  \<^verbatim>\<open>removeElement\<close> leaves the elements other than the given one, in order, at the start of the
  array, returns their number, and changes nothing behind them.
\<close>

theorem removeElement_compacts:
  assumes "cnt \<le> length nums"
  shows "\<exists>ys. removeElement nums cnt val = Inr (length ys, ys @ drop (length ys) nums) \<and> ys = filter (\<lambda>x. x \<noteq> val) (take cnt nums)"
  using removeElement_ok [OF assms] by simp

theorem removeElement_compacts_witness: "removeElement [0, 1, 2, 2, 3, 0, 4, 2] 8 2 = Inr (5, [0, 1, 3, 0, 4, 0, 4, 2])"
  using removeElement_compacts [of 8 "[0, 1, 2, 2, 3, 0, 4, 2]" 2] by simp

text \<open>
  \<^verbatim>\<open>removeDuplicates\<close> leaves one element of each run of equal ones at the start of the array,
  returns their number, and changes nothing behind them, for arrays in any order and of any
  length.
\<close>

theorem removeDuplicates_compacts:
  assumes "cnt \<le> length nums"
  shows "\<exists>ys. removeDuplicates nums cnt = Inr (length ys, ys @ drop (length ys) nums) \<and> ys = remdups_adj (take cnt nums)"
  using removeDuplicates_ok [OF assms] by simp

theorem removeDuplicates_compacts_witness: "removeDuplicates [0, 0, 1, 1, 2, 2, 3, 3, 4] 9 = Inr (5, [0, 1, 2, 3, 4, 2, 3, 3, 4])"
  using removeDuplicates_compacts [of 9 "[0, 0, 1, 1, 2, 2, 3, 3, 4]"] by simp

text \<open>
  \<^verbatim>\<open>is_palindrome\<close> returns 1 if the string reads the same backwards and 0 if not, without leaving
  it.
\<close>

theorem is_palindrome_decides:
  assumes "cnt \<le> length str"
  shows "is_palindrome str cnt = Inr (if rev (take cnt str) = take cnt str then 1 else 0)"
  by (rule is_palindrome_ok [OF assms])

theorem is_palindrome_decides_witness: "is_palindrome ''abcba'' 5 = Inr 1 \<and> is_palindrome ''abbca'' 5 = Inr 0"
  using is_palindrome_decides [of 5 "''abcba''"] is_palindrome_decides [of 5 "''abbca''"] by simp

text \<open>
  The longest palindrome of the array of the program has five characters, one more than its block
  has room for; a shorter one does not help, because the last center reads behind the array.
\<close>

text \<open>
  \<^verbatim>\<open>longest_palindrome.c\<close> and \<^verbatim>\<open>is_palindrome.c\<close> leave their arrays: the block for a palindrome has
  room for four characters, \<^verbatim>\<open>longest_palindrome\<close> reads one past the last character, and \<^verbatim>\<open>%s\<close> prints an
  array without a terminator.
\<close>

theorem longest_palindrome_out_of_bounds:
  "find_palindrome True ''bababd'' 2 2 6 = Inl OutOfBounds" "spread ''bababd'' 6 2 2 = Inr (- 1, 5)"
  "longest_palindrome True ''ab'' 2 = Inl OutOfBounds" "longest_main True = Inl OutOfBounds" "palindrome_main = Inl OutOfBounds"
  by code_simp+

lemma last_center_out_of_bounds:
  assumes "0 < length str"
  shows "find_palindrome room str (length str - 1) (length str) (length str) = Inl OutOfBounds"
  using assms by (simp add: find_palindrome_def spread.simps [of str] elem_at_def)

end
