(* ===== verification/Sample_Trees.thy ===== *)
theory Sample_Trees
  imports Prelude "HOL-Library.Tree"
begin

text \<open>
  The binary trees of \<^verbatim>\<open>sample/data_structure\<close> (\<^verbatim>\<open>binary_tree.h\<close>, \<^verbatim>\<open>binary_tree.c\<close>, \<^verbatim>\<open>invert_tree.c\<close>,
  \<^verbatim>\<open>flat_tree.c\<close>, \<^verbatim>\<open>connect_tree.c\<close>, \<^verbatim>\<open>construct_maximum_binary_tree.c\<close>): nodes in memory, the recursive
  routines, and what they make of the tree a pointer is the root of.
\<close>

section \<open>Nodes in memory\<close>

text \<open>
  \<^verbatim>\<open>node_t\<close> and \<^verbatim>\<open>connect_node_t\<close> of \<^verbatim>\<open>binary_tree.h\<close>, and the memory for either of them. Addresses are
  numbers in the order of the calls of \<^verbatim>\<open>malloc\<close>, 0 is NULL, and \<open>full\<close> says which calls return NULL;
  the code does not test for it and stores through the pointer, which is a fault.
\<close>

record tree_node =
  node_value :: int
  node_left :: nat
  node_right :: nat

record connect_node = tree_node +
  node_link :: nat

record 'n forest =
  at :: "nat \<Rightarrow> 'n option"
  created :: nat
  full :: "nat \<Rightarrow> bool"
  written :: "piece list"

definition get_node :: "nat \<Rightarrow> 'n forest \<Rightarrow> 'n res" where
  "get_node a s = (case at s a of None \<Rightarrow> Inl OutOfBounds | Some n \<Rightarrow> Inr n)"

definition modify_node :: "nat \<Rightarrow> ('n \<Rightarrow> 'n) \<Rightarrow> 'n forest \<Rightarrow> 'n forest res" where
  "modify_node a f s = bindE (get_node a s) (\<lambda>n. Inr (s\<lparr>at := (at s)(a \<mapsto> f n)\<rparr>))"

definition allocate :: "'n \<Rightarrow> 'n forest \<Rightarrow> (nat \<times> 'n forest) res" where
  "allocate n s =
     (if full s (created s) then Inl OutOfBounds
      else Inr (Suc (created s), s\<lparr>created := Suc (created s), at := (at s)(Suc (created s) \<mapsto> n)\<rparr>))"

definition create :: "int \<Rightarrow> tree_node forest \<Rightarrow> (nat \<times> tree_node forest) res" where
  "create v = allocate \<lparr>node_value = v, node_left = 0, node_right = 0\<rparr>"

definition insert_left :: "nat \<Rightarrow> int \<Rightarrow> tree_node forest \<Rightarrow> (nat \<times> tree_node forest) res" where
  "insert_left root v s =
     bindE (create v s) (\<lambda>(a, s1). bindE (modify_node root (node_left_update (\<lambda>_. a)) s1) (\<lambda>s2. bindE (get_node root s2) (\<lambda>n. Inr (node_left n, s2))))"

definition insert_right :: "nat \<Rightarrow> int \<Rightarrow> tree_node forest \<Rightarrow> (nat \<times> tree_node forest) res" where
  "insert_right root v s =
     bindE (create v s) (\<lambda>(a, s1). bindE (modify_node root (node_right_update (\<lambda>_. a)) s1) (\<lambda>s2. bindE (get_node root s2) (\<lambda>n. Inr (node_right n, s2))))"

definition connect_create :: "int \<Rightarrow> connect_node forest \<Rightarrow> (nat \<times> connect_node forest) res" where
  "connect_create v = allocate \<lparr>node_value = v, node_left = 0, node_right = 0, node_link = 0\<rparr>"

definition connect_insert_left :: "nat \<Rightarrow> int \<Rightarrow> connect_node forest \<Rightarrow> (nat \<times> connect_node forest) res" where
  "connect_insert_left root v s =
     bindE (connect_create v s) (\<lambda>(a, s1). bindE (modify_node root (node_left_update (\<lambda>_. a)) s1) (\<lambda>s2. bindE (get_node root s2) (\<lambda>n. Inr (node_left n, s2))))"

definition connect_insert_right :: "nat \<Rightarrow> int \<Rightarrow> connect_node forest \<Rightarrow> (nat \<times> connect_node forest) res" where
  "connect_insert_right root v s =
     bindE (connect_create v s) (\<lambda>(a, s1). bindE (modify_node root (node_right_update (\<lambda>_. a)) s1) (\<lambda>s2. bindE (get_node root s2) (\<lambda>n. Inr (node_right n, s2))))"

section \<open>Recursion over a tree in memory\<close>

text \<open>
  Nothing in the code bounds the depth of the recursion, so the routines are partial functions.
\<close>

definition after :: "'a res option \<Rightarrow> ('a \<Rightarrow> 'b res option) \<Rightarrow> 'b res option" where
  "after x f = Option.bind x (\<lambda>r. case r of Inl e \<Rightarrow> Some (Inl e) | Inr y \<Rightarrow> f y)"

lemma after_simps [simp]: "after (Some (Inr y)) f = f y" "after (Some (Inl e)) f = Some (Inl e)" "after None f = None"
  by (simp_all add: after_def)

lemma after_mono [partial_function_mono]:
  assumes "mono_option x" and "\<And>y. mono_option (\<lambda>f. g y f)"
  shows "mono_option (\<lambda>f. after (x f) (\<lambda>y. g y f))"
  unfolding after_def using assms by (intro bind_mono) (auto split: sum.split intro: monotoneI option.leq_refl simp: monotone_def)

definition print_value :: "int \<Rightarrow> 'n forest \<Rightarrow> 'n forest" where
  "print_value v s = s\<lparr>written := written s @ [Dec v, Str '' '']\<rparr>"

partial_function (option) preorder_traversal :: "nat \<Rightarrow> tree_node forest \<Rightarrow> tree_node forest res option" where
  "preorder_traversal root s =
     (if root = 0 then Some (Inr s)
      else after (Some (get_node root s)) (\<lambda>n.
           after (preorder_traversal (node_left n) (print_value (node_value n) s)) (\<lambda>s1.
           after (Some (get_node root s1)) (\<lambda>n1. preorder_traversal (node_right n1) s1))))"

partial_function (option) inorder_traversal :: "nat \<Rightarrow> tree_node forest \<Rightarrow> tree_node forest res option" where
  "inorder_traversal root s =
     (if root = 0 then Some (Inr s)
      else after (Some (get_node root s)) (\<lambda>n.
           after (inorder_traversal (node_left n) s) (\<lambda>s1.
           after (Some (get_node root s1)) (\<lambda>n1. inorder_traversal (node_right n1) (print_value (node_value n1) s1)))))"

partial_function (option) postorder_traversal :: "nat \<Rightarrow> tree_node forest \<Rightarrow> tree_node forest res option" where
  "postorder_traversal root s =
     (if root = 0 then Some (Inr s)
      else after (Some (get_node root s)) (\<lambda>n.
           after (postorder_traversal (node_left n) s) (\<lambda>s1.
           after (Some (get_node root s1)) (\<lambda>n1.
           after (postorder_traversal (node_right n1) s1) (\<lambda>s2.
           after (Some (get_node root s2)) (\<lambda>n2. Some (Inr (print_value (node_value n2) s2))))))))"

partial_function (option) invert_tree :: "nat \<Rightarrow> tree_node forest \<Rightarrow> (nat \<times> tree_node forest) res option" where
  "invert_tree root s =
     (if root = 0 then Some (Inr (0, s))
      else after (Some (get_node root s)) (\<lambda>n.
           after (invert_tree (node_left n) s) (\<lambda>(left, s1).
           after (Some (get_node root s1)) (\<lambda>n1.
           after (invert_tree (node_right n1) s1) (\<lambda>(right, s2).
           after (Some (modify_node root (node_left_update (\<lambda>_. right)) s2)) (\<lambda>s3.
           after (Some (modify_node root (node_right_update (\<lambda>_. left)) s3)) (\<lambda>s4. Some (Inr (root, s4)))))))))"

definition right_end_step :: "tree_node forest \<Rightarrow> nat \<Rightarrow> (nat + nat) res" where
  "right_end_step s p = bindE (get_node p s) (\<lambda>n. if node_right n \<noteq> 0 then Inr (Inl (node_right n)) else Inr (Inr p))"

partial_function (option) flat_tree :: "nat \<Rightarrow> tree_node forest \<Rightarrow> tree_node forest res option" where
  "flat_tree root s =
     (if root = 0 then Some (Inr s)
      else after (Some (get_node root s)) (\<lambda>n.
           after (flat_tree (node_left n) s) (\<lambda>s1.
           after (Some (get_node root s1)) (\<lambda>n1.
           after (flat_tree (node_right n1) s1) (\<lambda>s2.
           after (Some (get_node root s2)) (\<lambda>n2.
           after (Some (modify_node root (\<lambda>m. m\<lparr>node_left := 0, node_right := node_left n2\<rparr>) s2)) (\<lambda>s3.
           after (loop (right_end_step s3) root) (\<lambda>p.
           Some (modify_node p (node_right_update (\<lambda>_. node_right n2)) s3)))))))))"

text \<open>The loop for the largest element: \<open>xs\<close> are the elements from the index \<open>i\<close> on.\<close>

fun scan_max :: "int list \<Rightarrow> nat \<Rightarrow> int \<Rightarrow> nat \<Rightarrow> nat" where
  "scan_max [] i m cursor = cursor"
| "scan_max (x # xs) i m cursor = (if x > m then scan_max xs (i + 1) x i else scan_max xs (i + 1) m cursor)"

lemma scan_max_less: "cursor < i + length xs \<Longrightarrow> scan_max xs i m cursor < i + length xs"
proof (induction xs arbitrary: i m cursor)
  case (Cons x xs)
  then show ?case using Cons.IH [of i "i + 1" x] Cons.IH [of cursor "i + 1" m] by simp
qed simp

text \<open>A pointer into the array and a length are the list of these elements.\<close>

function construct_maximum_binary_tree :: "int list \<Rightarrow> tree_node forest \<Rightarrow> (nat \<times> tree_node forest) res" where
  "construct_maximum_binary_tree arr s =
     (if arr = [] then Inr (0, s)
      else let cursor = scan_max arr 0 (arr ! 0) 0 in
           bindE (create (arr ! cursor) s) (\<lambda>(node, s1).
           bindE (construct_maximum_binary_tree (take cursor arr) s1) (\<lambda>(l, s2).
           bindE (modify_node node (node_left_update (\<lambda>_. l)) s2) (\<lambda>s3.
           bindE (construct_maximum_binary_tree (drop (cursor + 1) arr) s3) (\<lambda>(r, s4).
           bindE (modify_node node (node_right_update (\<lambda>_. r)) s4) (\<lambda>s5. Inr (node, s5)))))))"
  by pat_completeness auto
termination
proof (relation "measure (\<lambda>(arr, s). length arr)", goal_cases)
  case 1
  then show ?case by simp
next
  case (2 arr s cursor y node s1)
  then have "cursor < length arr" using scan_max_less [of 0 0 arr "arr ! 0"] by simp
  then show ?case by simp
next
  case (3 arr s cursor)
  then show ?case by simp
qed

declare construct_maximum_binary_tree.simps [simp del]

partial_function (option) traverse :: "nat \<Rightarrow> nat \<Rightarrow> connect_node forest \<Rightarrow> connect_node forest res option" where
  "traverse lt rt s =
     (if lt = 0 \<or> rt = 0 then Some (Inr s)
      else after (Some (modify_node lt (node_link_update (\<lambda>_. rt)) s)) (\<lambda>s1.
           after (Some (get_node lt s1)) (\<lambda>l1.
           after (traverse (node_left l1) (node_right l1) s1) (\<lambda>s2.
           after (Some (get_node lt s2)) (\<lambda>l2.
           after (Some (get_node rt s2)) (\<lambda>r2.
           after (traverse (node_right l2) (node_left r2) s2) (\<lambda>s3.
           after (Some (get_node rt s3)) (\<lambda>r3. traverse (node_left r3) (node_right r3) s3))))))))"

definition connect_tree :: "nat \<Rightarrow> connect_node forest \<Rightarrow> (nat \<times> connect_node forest) res" where
  "connect_tree root s =
     (if root = 0 then Inr (0, s)
      else bindE (get_node root s) (\<lambda>n. bindE (joined (traverse (node_left n) (node_right n) s)) (\<lambda>s1. Inr (root, s1))))"

declare preorder_traversal.simps [code] inorder_traversal.simps [code] postorder_traversal.simps [code]
  invert_tree.simps [code] flat_tree.simps [code] traverse.simps [code]

section \<open>Trees in memory\<close>

text \<open>The pointer \<open>p\<close> is the root of the tree, whose nodes carry their addresses and values.\<close>

fun in_memory :: "'a tree_node_scheme forest \<Rightarrow> nat \<Rightarrow> (nat \<times> int) tree \<Rightarrow> bool" where
  "in_memory s p \<langle>\<rangle> \<longleftrightarrow> p = 0"
| "in_memory s p \<langle>l, (a, v), r\<rangle> \<longleftrightarrow>
     p = a \<and> a \<noteq> 0 \<and> (\<exists>n. at s a = Some n \<and> node_value n = v \<and> in_memory s (node_left n) l \<and> in_memory s (node_right n) r)"

definition places :: "(nat \<times> int) tree \<Rightarrow> nat set" where
  "places t = fst ` set_tree t"

lemma places_simps [simp]: "places \<langle>\<rangle> = {}" "places \<langle>l, x, r\<rangle> = insert (fst x) (places l \<union> places r)"
  by (auto simp: places_def)

definition separate :: "(nat \<times> int) tree \<Rightarrow> bool" where
  "separate t \<longleftrightarrow> distinct (map fst (inorder t))"

lemma places_inorder: "fst ` set (inorder t) = places t"
  by (simp add: places_def)

lemma separate_simps [simp]:
  "separate \<langle>\<rangle>"
  "separate \<langle>l, x, r\<rangle> \<longleftrightarrow> separate l \<and> separate r \<and> fst x \<notin> places l \<and> fst x \<notin> places r \<and> places l \<inter> places r = {}"
  by (auto simp: separate_def places_def)

lemma in_memory_cong: "\<forall>a \<in> places t. at s' a = at s a \<Longrightarrow> in_memory s' p t = in_memory s p t"
  by (induction s' p t rule: in_memory.induct) auto

lemma in_memory_at: "in_memory s p t \<Longrightarrow> a \<in> places t \<Longrightarrow> a \<noteq> 0 \<and> at s a \<noteq> None"
  by (induction s p t rule: in_memory.induct) auto

lemma in_memory_null: "in_memory s 0 t \<longleftrightarrow> t = \<langle>\<rangle>"
  by (cases t) auto

lemma get_node_simp [simp]: "at s a = Some n \<Longrightarrow> get_node a s = Inr n"
  by (simp add: get_node_def)

lemma modify_node_simp [simp]: "at s a = Some n \<Longrightarrow> modify_node a f s = Inr (s\<lparr>at := (at s)(a \<mapsto> f n)\<rparr>)"
  by (simp add: modify_node_def)

lemma at_print [simp]: "at (print_value v s) = at s"
  by (simp add: print_value_def)

text \<open>What the values of some nodes look like in print.\<close>

definition print_nodes :: "(nat \<times> int) list \<Rightarrow> 'n forest \<Rightarrow> 'n forest" where
  "print_nodes xs s = fold (\<lambda>x. print_value (snd x)) xs s"

lemma print_nodes_simps [simp]:
  "print_nodes [] s = s" "print_nodes (x # xs) s = print_nodes xs (print_value (snd x) s)"
  "print_nodes (xs @ ys) s = print_nodes ys (print_nodes xs s)"
  by (simp_all add: print_nodes_def)

lemma at_print_nodes [simp]: "at (print_nodes xs s) = at s"
  by (induction xs arbitrary: s) simp_all

lemma written_print_nodes: "written (print_nodes xs s) = written s @ concat (map (\<lambda>x. [Dec (snd x), Str '' '']) xs)"
  by (induction xs arbitrary: s) (simp_all add: print_value_def)

lemma in_memory_print [simp]: "in_memory (print_value v s) p t = in_memory s p t" "in_memory (print_nodes xs s) p t = in_memory s p t"
  by (rule in_memory_cong, simp)+

lemma in_memory_Node:
  assumes "in_memory s p \<langle>l, x, r\<rangle>"
  obtains n where "fst x = p" "p \<noteq> 0" "at s p = Some n" "node_value n = snd x" "in_memory s (node_left n) l" "in_memory s (node_right n) r"
  using assms by (cases x) auto

lemma preorder_run: "in_memory s p t \<Longrightarrow> preorder_traversal p s = Some (Inr (print_nodes (preorder t) s))"
proof (induction t arbitrary: p s)
  case (Node l x r)
  from Node.prems show ?case by (rule in_memory_Node) (use Node.IH in \<open>simp add: preorder_traversal.simps [of p]\<close>)
qed (simp add: preorder_traversal.simps [of 0])

lemma inorder_run: "in_memory s p t \<Longrightarrow> inorder_traversal p s = Some (Inr (print_nodes (inorder t) s))"
proof (induction t arbitrary: p s)
  case (Node l x r)
  from Node.prems show ?case by (rule in_memory_Node) (use Node.IH in \<open>simp add: inorder_traversal.simps [of p]\<close>)
qed (simp add: inorder_traversal.simps [of 0])

lemma postorder_run: "in_memory s p t \<Longrightarrow> postorder_traversal p s = Some (Inr (print_nodes (postorder t) s))"
proof (induction t arbitrary: p s)
  case (Node l x r)
  from Node.prems show ?case by (rule in_memory_Node) (use Node.IH in \<open>simp add: postorder_traversal.simps [of p]\<close>)
qed (simp add: postorder_traversal.simps [of 0])

section \<open>Inverting\<close>

lemma places_mirror: "places (mirror t) = places t"
  by (induction t) auto

lemma invert_run:
  assumes "in_memory s p t" and "separate t"
  shows "\<exists>s'. invert_tree p s = Some (Inr (p, s')) \<and> in_memory s' p (mirror t) \<and> (\<forall>a. a \<notin> places t \<longrightarrow> at s' a = at s a)"
  using assms
proof (induction t arbitrary: p s)
  case Leaf
  then show ?case by (simp add: invert_tree.simps)
next
  case (Node l x r)
  obtain a v where x: "x = (a, v)" by (cases x)
  obtain n where n: "p = a" "a \<noteq> 0" "at s a = Some n" "node_value n = v" "in_memory s (node_left n) l" "in_memory s (node_right n) r"
    using Node.prems(1) x by auto
  have ap: "separate l" "separate r" "a \<notin> places l" "a \<notin> places r" "places l \<inter> places r = {}" using Node.prems(2) x by simp_all
  obtain s1 where s1: "invert_tree (node_left n) s = Some (Inr (node_left n, s1))" "in_memory s1 (node_left n) (mirror l)"
    "\<forall>a. a \<notin> places l \<longrightarrow> at s1 a = at s a" using Node.IH(1) [OF n(5) ap(1)] by blast
  have "\<forall>a \<in> places r. at s1 a = at s a" using s1(3) ap(5) by (auto simp: disjoint_iff)
  then have "in_memory s1 (node_right n) r" using in_memory_cong n(6) by blast
  then obtain s2 where s2: "invert_tree (node_right n) s1 = Some (Inr (node_right n, s2))" "in_memory s2 (node_right n) (mirror r)"
    "\<forall>a. a \<notin> places r \<longrightarrow> at s2 a = at s1 a" using Node.IH(2) [OF _ ap(2)] by blast
  have at: "at s1 a = Some n" "at s2 a = Some n" using n(3) s1(3) s2(3) ap by simp_all
  let ?s = "s2\<lparr>at := (at s2)(a \<mapsto> n\<lparr>node_left := node_right n, node_right := node_left n\<rparr>)\<rparr>"
  have "invert_tree p s = Some (Inr (p, ?s))"
    using n(1-3) s1(1) s2(1) at by (simp add: invert_tree.simps [of a])
  moreover have "places (mirror l) = places l" "places (mirror r) = places r" by (simp_all add: places_mirror)
  then have "in_memory ?s (node_left n) (mirror l) = in_memory s1 (node_left n) (mirror l)" "in_memory ?s (node_right n) (mirror r) = in_memory s2 (node_right n) (mirror r)"
    using in_memory_cong [of "mirror l" ?s s1] in_memory_cong [of "mirror r" ?s s2] s2(3) ap by (auto simp: disjoint_iff)
  then have "in_memory ?s p (mirror \<langle>l, x, r\<rangle>)" using n(1,2,4) s1(2) s2(2) x by simp
  moreover have "\<forall>b. b \<notin> places \<langle>l, x, r\<rangle> \<longrightarrow> at ?s b = at s b" using s1(3) s2(3) x by simp
  ultimately show ?case by blast
qed

section \<open>Flattening\<close>

text \<open>The tree that has the given nodes on its right edge and no others.\<close>

fun spine :: "(nat \<times> int) list \<Rightarrow> (nat \<times> int) tree" where
  "spine [] = \<langle>\<rangle>"
| "spine (x # xs) = \<langle>\<langle>\<rangle>, x, spine xs\<rangle>"

lemma places_spine: "places (spine xs) = fst ` set xs"
  by (induction xs) auto

lemma preorder_spine: "preorder (spine xs) = xs"
  by (induction xs) auto

lemma right_end:
  "in_memory s p (spine xs) \<Longrightarrow> xs \<noteq> [] \<Longrightarrow> loop (right_end_step s) p = Some (Inr (fst (last xs)))"
proof (induction xs arbitrary: p)
  case (Cons x xs)
  obtain a v where x: "x = (a, v)" by (cases x)
  obtain n where n: "p = a" "at s a = Some n" "in_memory s (node_right n) (spine xs)" using Cons.prems(1) x by auto
  show ?case
  proof (cases xs)
    case Nil
    then show ?thesis using n x by (simp add: loop_exits right_end_step_def)
  next
    case (Cons y ys)
    then have "node_right n \<noteq> 0" using n(3) by (cases y) auto
    then have "loop (right_end_step s) p = loop (right_end_step s) (node_right n)" using n by (intro loop_goes_on) (simp add: right_end_step_def)
    then show ?thesis using Cons.IH [OF n(3)] Cons by simp
  qed
qed simp

lemma spine_append:
  assumes "in_memory s p (spine xs)" and "xs \<noteq> []" and "in_memory s q (spine ys)" and "distinct (map fst (xs @ ys))"
  shows "\<exists>s'. modify_node (fst (last xs)) (node_right_update (\<lambda>_. q)) s = Inr s' \<and> in_memory s' p (spine (xs @ ys)) \<and>
    (\<forall>a. a \<notin> fst ` set xs \<longrightarrow> at s' a = at s a)"
  using assms
proof (induction xs arbitrary: p)
  case (Cons x xs)
  obtain a v where x: "x = (a, v)" by (cases x)
  obtain n where n: "p = a" "a \<noteq> 0" "at s a = Some n" "node_value n = v" "node_left n = 0" "in_memory s (node_right n) (spine xs)"
    using Cons.prems(1) x by auto
  show ?case
  proof (cases "xs = []")
    case True
    let ?s = "s\<lparr>at := (at s)(a \<mapsto> n\<lparr>node_right := q\<rparr>)\<rparr>"
    have "in_memory ?s q (spine ys) = in_memory s q (spine ys)"
      by (rule in_memory_cong) (use Cons.prems(4) x in \<open>auto simp: places_spine\<close>)
    then show ?thesis using True n x Cons.prems(3) by simp
  next
    case False
    obtain s' where s': "modify_node (fst (last xs)) (node_right_update (\<lambda>_. q)) s = Inr s'" "in_memory s' (node_right n) (spine (xs @ ys))"
      "\<forall>a. a \<notin> fst ` set xs \<longrightarrow> at s' a = at s a" using Cons.IH [OF n(6) False Cons.prems(3)] Cons.prems(4) by auto
    have "at s' a = Some n" using s'(3) Cons.prems(4) x n(3) by auto
    then show ?thesis using False s' n x by auto
  qed
qed simp

lemma flat_run:
  assumes "in_memory s p t" and "separate t"
  shows "\<exists>s'. flat_tree p s = Some (Inr s') \<and> in_memory s' p (spine (preorder t)) \<and> (\<forall>a. a \<notin> places t \<longrightarrow> at s' a = at s a)"
  using assms
proof (induction t arbitrary: p s)
  case Leaf
  then show ?case by (simp add: flat_tree.simps)
next
  case (Node l x r)
  obtain a v where x: "x = (a, v)" by (cases x)
  obtain n where n: "p = a" "a \<noteq> 0" "at s a = Some n" "node_value n = v" "in_memory s (node_left n) l" "in_memory s (node_right n) r"
    using Node.prems(1) x by auto
  have ap: "separate l" "separate r" "a \<notin> places l" "a \<notin> places r" "places l \<inter> places r = {}" using Node.prems(2) x by simp_all
  have pl: "places (spine (preorder t)) = places t" for t by (simp only: places_spine) (simp add: places_def)
  obtain s1 where s1: "flat_tree (node_left n) s = Some (Inr s1)" "in_memory s1 (node_left n) (spine (preorder l))"
    "\<forall>a. a \<notin> places l \<longrightarrow> at s1 a = at s a" using Node.IH(1) [OF n(5) ap(1)] by blast
  have "\<forall>a \<in> places r. at s1 a = at s a" using s1(3) ap(5) by (auto simp: disjoint_iff)
  then have "in_memory s1 (node_right n) r" using in_memory_cong n(6) by blast
  then obtain s2 where s2: "flat_tree (node_right n) s1 = Some (Inr s2)" "in_memory s2 (node_right n) (spine (preorder r))"
    "\<forall>a. a \<notin> places r \<longrightarrow> at s2 a = at s1 a" using Node.IH(2) [OF _ ap(2)] by blast
  have at: "at s1 a = Some n" "at s2 a = Some n" using n(3) s1(3) s2(3) ap by simp_all
  let ?s3 = "s2\<lparr>at := (at s2)(a \<mapsto> n\<lparr>node_left := 0, node_right := node_left n\<rparr>)\<rparr>"
  have "in_memory ?s3 (node_left n) (spine (preorder l)) = in_memory s1 (node_left n) (spine (preorder l))"
    "in_memory ?s3 (node_right n) (spine (preorder r)) = in_memory s2 (node_right n) (spine (preorder r))"
    using in_memory_cong [of "spine (preorder l)" ?s3 s1] in_memory_cong [of "spine (preorder r)" ?s3 s2] s2(3) ap by (auto simp: disjoint_iff pl)
  then have m: "in_memory ?s3 p (spine (x # preorder l))" "in_memory ?s3 (node_right n) (spine (preorder r))" using s1(2) s2(2) n x by simp_all
  have "distinct (map fst ((x # preorder l) @ preorder r))"
  proof -
    have "distinct (map fst (preorder t)) \<longleftrightarrow> separate t" for t :: "(nat \<times> int) tree"
      by (induction t) (auto simp: places_def)
    then show ?thesis using ap x by (auto simp: places_def)
  qed
  then obtain s4 where s4: "modify_node (fst (last (x # preorder l))) (node_right_update (\<lambda>_. node_right n)) ?s3 = Inr s4"
    "in_memory s4 p (spine ((x # preorder l) @ preorder r))" "\<forall>a. a \<notin> fst ` set (x # preorder l) \<longrightarrow> at s4 a = at ?s3 a"
    using spine_append [OF m(1) _ m(2)] by blast
  have "loop (right_end_step ?s3) p = Some (Inr (fst (last (x # preorder l))))" by (rule right_end [OF m(1)]) simp
  then have "flat_tree p s = Some (Inr s4)" using n(1-3) s1(1) s2(1) at s4(1) by (simp add: flat_tree.simps [of a])
  moreover have "\<forall>b. b \<notin> places \<langle>l, x, r\<rangle> \<longrightarrow> at s4 b = at s b" using s1(3) s2(3) s4(3) x by (auto simp: places_def image_Un)
  ultimately show ?case using s4(2) by auto
qed

section \<open>The tree of maxima\<close>

text \<open>The loop finds the first of the largest elements.\<close>

lemma scan_max_finds:
  assumes "drop i arr = xs" and "cursor < length arr" and "\<forall>j < i. arr ! j \<le> arr ! cursor" and "\<forall>j < cursor. arr ! j < arr ! cursor"
  shows "let c = scan_max xs i (arr ! cursor) cursor in c < length arr \<and> (\<forall>j < length arr. arr ! j \<le> arr ! c) \<and> (\<forall>j < c. arr ! j < arr ! c)"
  using assms
proof (induction xs arbitrary: i cursor)
  case Nil
  then show ?case by simp
next
  case (Cons x xs)
  have i: "i < length arr" using Cons.prems(1) by (metis drop_all list.distinct(1) not_le)
  then have x: "x = arr ! i" "drop (Suc i) arr = xs" using Cons.prems(1) by (auto simp flip: Cons_nth_drop_Suc)
  show ?case
  proof (cases "x > arr ! cursor")
    case True
    have "let c = scan_max xs (Suc i) (arr ! i) i in c < length arr \<and> (\<forall>j < length arr. arr ! j \<le> arr ! c) \<and> (\<forall>j < c. arr ! j < arr ! c)"
    proof (rule Cons.IH [OF x(2) i])
      show "\<forall>j < Suc i. arr ! j \<le> arr ! i" "\<forall>j < i. arr ! j < arr ! i" using Cons.prems(3) True x(1) by (auto simp: less_Suc_eq)
    qed
    then show ?thesis using True x(1) by simp
  next
    case False
    have "let c = scan_max xs (Suc i) (arr ! cursor) cursor in c < length arr \<and> (\<forall>j < length arr. arr ! j \<le> arr ! c) \<and> (\<forall>j < c. arr ! j < arr ! c)"
      by (rule Cons.IH [OF x(2) Cons.prems(2) _ Cons.prems(4)]) (use Cons.prems(3) False x(1) in \<open>auto simp: less_Suc_eq\<close>)
    then show ?thesis using False by simp
  qed
qed

fun maximum_tree :: "(nat \<times> int) tree \<Rightarrow> bool" where
  "maximum_tree \<langle>\<rangle> \<longleftrightarrow> True"
| "maximum_tree \<langle>l, x, r\<rangle> \<longleftrightarrow> (\<forall>y \<in> set_tree l. snd y < snd x) \<and> (\<forall>y \<in> set_tree r. snd y \<le> snd x) \<and> maximum_tree l \<and> maximum_tree r"

lemma allocate_ok:
  assumes "\<forall>i. \<not> full s i"
  obtains s1 where "allocate n s = Inr (Suc (created s), s1)" "created s1 = Suc (created s)" "full s1 = full s"
    "at s1 = (at s)(Suc (created s) \<mapsto> n)"
  using assms by (simp add: allocate_def)

lemma construct_run:
  assumes "\<forall>i. \<not> full s i"
  shows "\<exists>p t s'. construct_maximum_binary_tree arr s = Inr (p, s') \<and> in_memory s' p t \<and> separate t \<and> map snd (inorder t) = arr \<and> maximum_tree t \<and>
    full s' = full s \<and> created s \<le> created s' \<and> places t \<subseteq> {created s <.. created s'} \<and> (\<forall>a \<le> created s. at s' a = at s a)"
  using assms
proof (induction "length arr" arbitrary: arr s rule: less_induct)
  case less
  show ?case
  proof (cases "arr = []")
    case True
    then show ?thesis by (intro exI [of _ 0] exI [of _ "\<langle>\<rangle>"] exI [of _ s]) (simp add: construct_maximum_binary_tree.simps)
  next
    case False
    define c where "c = scan_max arr 0 (arr ! 0) 0"
    have c: "c < length arr" "\<forall>j < length arr. arr ! j \<le> arr ! c" "\<forall>j < c. arr ! j < arr ! c"
      using scan_max_finds [of 0 arr arr 0] False by (simp_all add: c_def Let_def)
    let ?a = "Suc (created s)"
    let ?n = "\<lparr>node_value = arr ! c, node_left = 0, node_right = 0\<rparr>"
    obtain s1 where s1: "create (arr ! c) s = Inr (?a, s1)" "created s1 = ?a" "full s1 = full s" "at s1 = (at s)(?a \<mapsto> ?n)"
      using allocate_ok [OF less.prems] by (metis create_def)
    have full: "\<forall>i. \<not> full s1 i" using s1(3) less.prems by simp
    have len: "length (take c arr) < length arr" "length (drop (c + 1) arr) < length arr" using c(1) by simp_all
    obtain p l s2 where s2: "construct_maximum_binary_tree (take c arr) s1 = Inr (p, s2)" "in_memory s2 p l" "separate l" "map snd (inorder l) = take c arr"
      "maximum_tree l" "full s2 = full s1" "created s1 \<le> created s2" "places l \<subseteq> {created s1 <.. created s2}" "\<forall>a \<le> created s1. at s2 a = at s1 a"
      using less.hyps [OF len(1) full] by blast
    let ?s3 = "s2\<lparr>at := (at s2)(?a \<mapsto> ?n\<lparr>node_left := p\<rparr>)\<rparr>"
    have at2: "at s2 ?a = Some ?n" using s2(9) s1(2,4) by simp
    have full3: "\<forall>i. \<not> full ?s3 i" using full s2(6) by simp
    obtain q r s4 where s4: "construct_maximum_binary_tree (drop (c + 1) arr) ?s3 = Inr (q, s4)" "in_memory s4 q r" "separate r" "map snd (inorder r) = drop (c + 1) arr"
      "maximum_tree r" "full s4 = full ?s3" "created ?s3 \<le> created s4" "places r \<subseteq> {created ?s3 <.. created s4}" "\<forall>a \<le> created ?s3. at s4 a = at ?s3 a"
      using less.hyps [OF len(2) full3] by blast
    have at4: "at s4 ?a = Some (?n\<lparr>node_left := p\<rparr>)" using s4(9) s2(7) s1(2) by simp
    let ?s5 = "s4\<lparr>at := (at s4)(?a \<mapsto> ?n\<lparr>node_left := p, node_right := q\<rparr>)\<rparr>"
    let ?t = "\<langle>l, (?a, arr ! c), r\<rangle>"
    have run: "construct_maximum_binary_tree arr s = Inr (?a, ?s5)"
      using False c_def s1(1) s2(1) s4(1) at2 at4 by (simp add: construct_maximum_binary_tree.simps [of arr] Let_def)
    have pl: "\<forall>x \<in> places l. ?a < x \<and> x \<le> created s2" "\<forall>x \<in> places r. created s2 < x \<and> x \<le> created s4" using s2(8) s4(8) s1(2) by auto
    have "in_memory ?s5 p l = in_memory s2 p l" "in_memory ?s5 q r = in_memory s4 q r"
      by (rule in_memory_cong, use pl s4(9) s2(7) s1(2) in fastforce)+
    then have mem: "in_memory ?s5 ?a ?t" using s2(2) s4(2) by simp
    have "separate ?t" using s2(3) s4(3) pl s2(7) s1(2) by fastforce
    moreover have "map snd (inorder ?t) = arr" using s2(4) s4(4) id_take_nth_drop [OF c(1)] by simp
    moreover have "maximum_tree ?t"
    proof -
      have vals: "snd ` set_tree l = set (take c arr)" "snd ` set_tree r = set (drop (c + 1) arr)"
        using s2(4) s4(4) by (metis list.set_map set_inorder)+
      have "\<forall>v \<in> set (take c arr). v < arr ! c" "\<forall>v \<in> set (drop (c + 1) arr). v \<le> arr ! c"
        using c by (auto simp: in_set_conv_nth)
      then show ?thesis using vals s2(5) s4(5) by auto
    qed
    moreover have "full ?s5 = full s" "created s \<le> created ?s5" using s1(2,3) s2(6,7) s4(6,7) by simp_all
    moreover have "places ?t \<subseteq> {created s <.. created ?s5}" using pl s1(2) s2(7) s4(7) by fastforce
    moreover have "\<forall>a \<le> created s. at ?s5 a = at s a" using s4(9) s2(9,7) s1(2,4) by simp
    ultimately show ?thesis using run mem by blast
  qed
qed

section \<open>Connecting the nodes of a level\<close>

text \<open>The nodes of a level from left to right, and the pairs of neighbors in a list.\<close>

fun level :: "nat \<Rightarrow> (nat \<times> int) tree \<Rightarrow> nat list" where
  "level k \<langle>\<rangle> = []"
| "level 0 \<langle>l, x, r\<rangle> = [fst x]"
| "level (Suc k) \<langle>l, x, r\<rangle> = level k l @ level k r"

definition neighbors_in :: "nat list \<Rightarrow> (nat \<times> nat) set" where
  "neighbors_in xs = set (zip xs (drop 1 xs))"

lemma neighbors_in_simps [simp]:
  "neighbors_in [] = {}" "neighbors_in [x] = {}" "neighbors_in (x # y # xs) = insert (x, y) (neighbors_in (y # xs))"
  by (simp_all add: neighbors_in_def)

lemma neighbors_in_append:
  "ys \<noteq> [] \<Longrightarrow> neighbors_in (xs @ ys @ zs) = neighbors_in (xs @ ys) \<union> neighbors_in (ys @ zs)"
proof (induction xs)
  case Nil
  then show ?case
  proof (induction ys)
    case (Cons y ys)
    then show ?case by (cases ys) auto
  qed simp
next
  case (Cons x xs)
  then show ?case by (cases xs; cases ys) auto
qed

lemma neighbors_in_nth: "Suc i < length xs \<Longrightarrow> (xs ! i, xs ! Suc i) \<in> neighbors_in xs"
  by (auto simp: neighbors_in_def in_set_zip intro: exI [of _ i])

lemma neighbors_in_fst: "(x, y) \<in> neighbors_in xs \<Longrightarrow> \<exists>i. Suc i < length xs \<and> x = xs ! i \<and> y = xs ! Suc i"
proof -
  assume "(x, y) \<in> neighbors_in xs"
  then obtain i where "x = xs ! i" "y = xs ! Suc i" "Suc i < length xs" by (auto simp: neighbors_in_def in_set_zip)
  then show ?thesis by blast
qed

text \<open>The links that \<^verbatim>\<open>traverse\<close> sets for two trees side by side.\<close>

function joins :: "(nat \<times> int) tree \<Rightarrow> (nat \<times> int) tree \<Rightarrow> (nat \<times> nat) set" where
  "joins \<langle>l1, x, r1\<rangle> \<langle>l2, y, r2\<rangle> = insert (fst x, fst y) (joins l1 r1 \<union> joins r1 l2 \<union> joins l2 r2)"
| "joins \<langle>\<rangle> t = {}"
| "joins \<langle>l, x, r\<rangle> \<langle>\<rangle> = {}"
  by pat_completeness auto
termination by (relation "measure (\<lambda>(t1, t2). size t1 + size t2)") auto

lemma level_empty: "complete t \<Longrightarrow> height t \<le> k \<Longrightarrow> level k t = []"
  by (induction k t rule: level.induct) auto

lemma level_nonempty: "complete t \<Longrightarrow> k < height t \<Longrightarrow> level k t \<noteq> []"
  by (induction k t rule: level.induct) auto

lemma joins_levels:
  assumes "complete t1" and "complete t2" and "height t1 = height t2"
  shows "joins t1 t2 = (\<Union>k < height t1. neighbors_in (level k t1 @ level k t2))"
  using assms
proof (induction t1 t2 rule: joins.induct)
  case (1 l1 x r1 l2 y r2)
  have c: "complete l1" "complete r1" "complete l2" "complete r2" "height r1 = height l1" "height l2 = height l1" "height r2 = height l1" using 1 by auto
  have "neighbors_in (level (Suc k) \<langle>l1, x, r1\<rangle> @ level (Suc k) \<langle>l2, y, r2\<rangle>) =
      neighbors_in (level k l1 @ level k r1) \<union> neighbors_in (level k r1 @ level k l2) \<union> neighbors_in (level k l2 @ level k r2)" if "k < height l1" for k
  proof -
    have "level k r1 \<noteq> []" "level k l2 \<noteq> []" using level_nonempty c that by simp_all
    then show ?thesis
      using neighbors_in_append [of "level k r1" "level k l1" "level k l2 @ level k r2"] neighbors_in_append [of "level k l2" "level k r1" "level k r2"] by (simp add: Un_assoc)
  qed
  then have "(\<Union>k < height l1. neighbors_in (level (Suc k) \<langle>l1, x, r1\<rangle> @ level (Suc k) \<langle>l2, y, r2\<rangle>)) = joins l1 r1 \<union> joins r1 l2 \<union> joins l2 r2"
    using 1 c by auto
  moreover have "(\<Union>k < height \<langle>l1, x, r1\<rangle>. neighbors_in (level k \<langle>l1, x, r1\<rangle> @ level k \<langle>l2, y, r2\<rangle>)) =
      neighbors_in (level 0 \<langle>l1, x, r1\<rangle> @ level 0 \<langle>l2, y, r2\<rangle>) \<union> (\<Union>k < height l1. neighbors_in (level (Suc k) \<langle>l1, x, r1\<rangle> @ level (Suc k) \<langle>l2, y, r2\<rangle>))"
    using c(5) by (simp add: lessThan_Suc_eq_insert_0 image_image)
  ultimately show ?case by simp
qed simp_all

text \<open>
  If the pairs agree with a function, the links end as its values; nothing else changes. The same
  link may be set several times.
\<close>

definition linked_by :: "(nat \<Rightarrow> nat) \<Rightarrow> nat set \<Rightarrow> connect_node forest \<Rightarrow> connect_node forest \<Rightarrow> bool" where
  "linked_by f A s s' \<longleftrightarrow> s' = s\<lparr>at := (\<lambda>a. if a \<in> A then map_option (node_link_update (\<lambda>_. f a)) (at s a) else at s a)\<rparr>"

lemma linked_by_trans: "linked_by f A s s1 \<Longrightarrow> linked_by f B s1 s2 \<Longrightarrow> linked_by f (A \<union> B) s s2"
  by (auto simp: linked_by_def fun_eq_iff map_option_case split: option.split)

lemma in_memory_linked_by:
  "linked_by f A s s' \<Longrightarrow> in_memory s p t \<Longrightarrow> in_memory s' p t"
  by (induction s p t rule: in_memory.induct) (auto simp: linked_by_def)

lemma linked_by_get: "linked_by f A s s' \<Longrightarrow> at s a = Some n \<Longrightarrow> \<exists>n'. at s' a = Some n' \<and> node_left n' = node_left n \<and> node_right n' = node_right n"
  by (auto simp: linked_by_def)

lemma traverse_run:
  assumes "in_memory s p t1" and "in_memory s q t2" and "\<forall>(x, y) \<in> joins t1 t2. f x = y"
  shows "\<exists>s'. traverse p q s = Some (Inr s') \<and> linked_by f (fst ` joins t1 t2) s s'"
  using assms
proof (induction t1 t2 arbitrary: p q s rule: joins.induct)
  case (1 l1 x r1 l2 y r2)
  obtain a v where x: "x = (a, v)" by (cases x)
  obtain b w where y: "y = (b, w)" by (cases y)
  obtain n where n: "p = a" "a \<noteq> 0" "at s a = Some n" "in_memory s (node_left n) l1" "in_memory s (node_right n) r1" using 1(4) x by auto
  obtain m where m: "q = b" "b \<noteq> 0" "at s b = Some m" "in_memory s (node_left m) l2" "in_memory s (node_right m) r2" using 1(5) y by auto
  have f: "f a = b" "\<forall>(x, y) \<in> joins l1 r1. f x = y" "\<forall>(x, y) \<in> joins r1 l2. f x = y" "\<forall>(x, y) \<in> joins l2 r2. f x = y" using 1(6) x y by auto
  let ?s1 = "s\<lparr>at := (at s)(a \<mapsto> n\<lparr>node_link := b\<rparr>)\<rparr>"
  have k1: "linked_by f {a} s ?s1" using n(3) f(1) by (auto simp: linked_by_def fun_eq_iff)
  note go = in_memory_linked_by [OF k1]
  obtain s2 where s2: "traverse (node_left n) (node_right n) ?s1 = Some (Inr s2)" "linked_by f (fst ` joins l1 r1) ?s1 s2"
    using 1(1) [OF go [OF n(4)] go [OF n(5)] f(2)] by blast
  have k2: "linked_by f ({a} \<union> fst ` joins l1 r1) s s2" by (rule linked_by_trans [OF k1 s2(2)])
  note go = in_memory_linked_by [OF k2]
  obtain n2 m2 where n2: "at s2 a = Some n2" "node_right n2 = node_right n" "at s2 b = Some m2" "node_left m2 = node_left m"
    using linked_by_get [OF k2 n(3)] linked_by_get [OF k2 m(3)] by auto
  obtain s3 where s3: "traverse (node_right n) (node_left m) s2 = Some (Inr s3)" "linked_by f (fst ` joins r1 l2) s2 s3"
    using 1(2) [OF go [OF n(5)] go [OF m(4)] f(3)] by blast
  have k3: "linked_by f (({a} \<union> fst ` joins l1 r1) \<union> fst ` joins r1 l2) s s3" by (rule linked_by_trans [OF k2 s3(2)])
  note go = in_memory_linked_by [OF k3]
  obtain m3 where m3: "at s3 b = Some m3" "node_left m3 = node_left m" "node_right m3 = node_right m" using linked_by_get [OF k3 m(3)] by auto
  obtain s4 where s4: "traverse (node_left m) (node_right m) s3 = Some (Inr s4)" "linked_by f (fst ` joins l2 r2) s3 s4"
    using 1(3) [OF go [OF m(4)] go [OF m(5)] f(4)] by blast
  have "linked_by f ((({a} \<union> fst ` joins l1 r1) \<union> fst ` joins r1 l2) \<union> fst ` joins l2 r2) s s4" by (rule linked_by_trans [OF k3 s4(2)])
  moreover have "(({a} \<union> fst ` joins l1 r1) \<union> fst ` joins r1 l2) \<union> fst ` joins l2 r2 = fst ` joins \<langle>l1, x, r1\<rangle> \<langle>l2, y, r2\<rangle>" using x y by auto
  moreover have "traverse a b s = Some (Inr s4)"
    using n(2,3) m(2) s2(1) n2 s3(1) m3 s4(1) by (simp add: traverse.simps [of a])
  ultimately show ?case using n(1) m(1) by auto
qed (auto simp: traverse.simps [of 0] traverse.simps [of _ 0] linked_by_def)

text \<open>The nodes of all levels together are the nodes of the tree.\<close>

lemma set_level: "set (level k t) \<subseteq> places t"
  by (induction k t rule: level.induct) auto

lemma level_distinct: "separate t \<Longrightarrow> distinct (level k t)"
proof (induction k t rule: level.induct)
  case (3 k l x r)
  then show ?case using set_level [of k l] set_level [of k r] by auto
qed simp_all

lemma level_unique: "separate t \<Longrightarrow> x \<in> set (level j t) \<Longrightarrow> x \<in> set (level k t) \<Longrightarrow> j = k"
proof (induction t arbitrary: j k)
  case (Node l y r)
  show ?case
  proof (cases j; cases k)
    fix j' k' assume jk: "j = Suc j'" "k = Suc k'"
    then have "x \<in> set (level j' l) \<union> set (level j' r)" "x \<in> set (level k' l) \<union> set (level k' r)" using Node.prems by simp_all
    moreover have "places l \<inter> places r = {}" using Node.prems(1) by simp
    ultimately have "x \<in> set (level j' l) \<and> x \<in> set (level k' l) \<or> x \<in> set (level j' r) \<and> x \<in> set (level k' r)"
      using set_level [of j' l] set_level [of j' r] set_level [of k' l] set_level [of k' r] by blast
    then show ?thesis using Node.IH Node.prems(1) jk by auto
  qed (use Node.prems set_level in \<open>auto dest!: subsetD [OF set_level]\<close>)
qed simp

lemma connect_run:
  assumes "in_memory s root t" and "separate t" and "complete t"
  shows "\<exists>s'. connect_tree root s = Inr (root, s') \<and> in_memory s' root t \<and>
    (\<forall>k i. Suc i < length (level k t) \<longrightarrow> (\<exists>n. at s' (level k t ! i) = Some n \<and> node_link n = level k t ! Suc i)) \<and>
    (\<forall>a. (\<forall>k. a \<notin> set (butlast (level k t))) \<longrightarrow> at s' a = at s a)"
proof (cases t)
  case Leaf
  then show ?thesis using assms(1) by (simp add: connect_tree_def)
next
  case (Node l x r)
  let ?J = "joins l r"
  have cl: "complete l" "complete r" "height l = height r" using assms(3) Node by simp_all
  have J: "?J = (\<Union>k < height l. neighbors_in (level (Suc k) t))" using joins_levels [OF cl] Node by simp
  define f where "f x = (THE y. (x, y) \<in> ?J)" for x
  have uniq: "y = z" if js: "(a, y) \<in> ?J" "(a, z) \<in> ?J" for a y z
  proof -
    obtain j k where jk: "(a, y) \<in> neighbors_in (level j t)" "(a, z) \<in> neighbors_in (level k t)" using js unfolding J by blast
    then obtain i i' where i: "Suc i < length (level j t)" "a = level j t ! i" "y = level j t ! Suc i" "Suc i' < length (level k t)" "a = level k t ! i'" "z = level k t ! Suc i'"
      using neighbors_in_fst by meson
    then have "a \<in> set (level j t)" "a \<in> set (level k t)" by (metis Suc_lessD nth_mem)+
    then have "j = k" by (rule level_unique [OF assms(2)])
    then show ?thesis using i level_distinct [OF assms(2), of j] by (metis Suc_lessD nth_eq_iff_index_eq)
  qed
  have f: "\<forall>(a, y) \<in> ?J. f a = y" using uniq by (auto simp: f_def intro!: the_equality)
  obtain n where n: "root \<noteq> 0" "at s root = Some n" "in_memory s (node_left n) l" "in_memory s (node_right n) r" using assms(1) Node by (cases x) auto
  obtain s' where s': "traverse (node_left n) (node_right n) s = Some (Inr s')" "linked_by f (fst ` ?J) s s'" using traverse_run [OF n(3,4) f] by blast
  have "connect_tree root s = Inr (root, s')" using n(1,2) s'(1) by (simp add: connect_tree_def)
  moreover have "in_memory s' root t" by (rule in_memory_linked_by [OF s'(2) assms(1)])
  moreover have "\<exists>n. at s' (level k t ! i) = Some n \<and> node_link n = level k t ! Suc i" if i: "Suc i < length (level k t)" for k i
  proof -
    have "k \<noteq> 0" using i Node by (cases k) auto
    then obtain k' where k': "k = Suc k'" by (cases k) auto
    moreover have "k' < height l" using i k' Node level_empty [OF cl(1), of k'] level_empty [OF cl(2), of k'] cl(3) by (cases "k' < height l") auto
    ultimately have j: "(level k t ! i, level k t ! Suc i) \<in> ?J" using J neighbors_in_nth [OF i] by auto
    have "level k t ! i \<in> places t" using set_level [of k t] i by (meson Suc_lessD nth_mem subsetD)
    then obtain m where "at s (level k t ! i) = Some m" using in_memory_at [OF assms(1)] by auto
    then show ?thesis using s'(2) j f by (force simp: linked_by_def)
  qed
  moreover have "at s' a = at s a" if "\<forall>k. a \<notin> set (butlast (level k t))" for a
  proof -
    have "a \<notin> fst ` ?J"
    proof
      assume "a \<in> fst ` ?J"
      then obtain y k where "(a, y) \<in> neighbors_in (level k t)" using J by auto
      then obtain i where "Suc i < length (level k t)" "a = level k t ! i" using neighbors_in_fst by meson
      then have "a \<in> set (butlast (level k t))" by (auto simp: in_set_conv_nth nth_butlast intro!: exI [of _ i])
      then show False using that by blast
    qed
    then show ?thesis using s'(2) by (simp add: linked_by_def)
  qed
  ultimately show ?thesis by blast
qed

section \<open>The programs\<close>

definition binary_tree_main :: "tree_node forest \<Rightarrow> tree_node forest res" where
  "binary_tree_main s =
     (let line = (\<lambda>x s. s\<lparr>written := written s @ [Str (x @ [CHR 0x0A])]\<rparr>) in
      bindE (create 1 s) (\<lambda>(root, s1).
      bindE (insert_left root 2 s1) (\<lambda>(l, s2). bindE (insert_right root 3 s2) (\<lambda>(r, s3).
      bindE (get_node root s3) (\<lambda>n. bindE (insert_left (node_left n) 4 s3) (\<lambda>(_, s4). bindE (insert_right (node_left n) 5 s4) (\<lambda>(_, s5).
      bindE (insert_left (node_right n) 6 s5) (\<lambda>(_, s6). bindE (insert_right (node_right n) 7 s6) (\<lambda>(_, s7).
      bindE (joined (inorder_traversal root (line ''Inorder traversal '' (line ''Traversal of the inserted binary tree '' s7)))) (\<lambda>s8.
      bindE (joined (preorder_traversal root (line ''Preorder traversal '' (line '''' s8)))) (\<lambda>s9.
      bindE (joined (postorder_traversal root (line ''Postorder traversal '' (line '''' s9)))) (\<lambda>s10.
        Inr (line '''' s10)))))))))))))"

definition invert_main :: "tree_node forest \<Rightarrow> tree_node forest res" where
  "invert_main s =
     bindE (create 4 s) (\<lambda>(root, s1).
     bindE (insert_left root 2 s1) (\<lambda>(l, s2). bindE (insert_right root 7 s2) (\<lambda>(r, s3).
     bindE (get_node root s3) (\<lambda>n. bindE (insert_left (node_left n) 1 s3) (\<lambda>(_, s4). bindE (insert_right (node_left n) 3 s4) (\<lambda>(_, s5).
     bindE (insert_left (node_right n) 6 s5) (\<lambda>(_, s6). bindE (insert_right (node_right n) 9 s6) (\<lambda>(_, s7).
     bindE (joined (invert_tree root s7)) (\<lambda>(_, s8).
     bindE (joined (preorder_traversal root s8)) (\<lambda>s9. Inr (s9\<lparr>written := written s9 @ [Str [CHR 0x0A]]\<rparr>)))))))))))"

definition flat_main :: "tree_node forest \<Rightarrow> tree_node forest res" where
  "flat_main s =
     bindE (create 1 s) (\<lambda>(root, s1).
     bindE (insert_left root 2 s1) (\<lambda>(l, s2). bindE (insert_right root 5 s2) (\<lambda>(r, s3).
     bindE (get_node root s3) (\<lambda>n. bindE (insert_left (node_left n) 3 s3) (\<lambda>(_, s4). bindE (insert_right (node_left n) 4 s4) (\<lambda>(_, s5).
     bindE (insert_left (node_right n) (- 1) s5) (\<lambda>(_, s6). bindE (insert_right (node_right n) 6 s6) (\<lambda>(_, s7).
     bindE (joined (flat_tree root s7)) (\<lambda>s8.
     bindE (joined (preorder_traversal root s8)) (\<lambda>s9. Inr (s9\<lparr>written := written s9 @ [Str [CHR 0x0A]]\<rparr>)))))))))))"

definition maximum_main :: "tree_node forest \<Rightarrow> tree_node forest res" where
  "maximum_main s =
     bindE (construct_maximum_binary_tree [3, 2, 1, 6, 0, 5] s) (\<lambda>(t, s1).
     bindE (joined (preorder_traversal t s1)) (\<lambda>s2. Inr (s2\<lparr>written := written s2 @ [Str [CHR 0x0A]]\<rparr>)))"

definition connect_main :: "connect_node forest \<Rightarrow> connect_node forest res" where
  "connect_main s =
     bindE (connect_create 4 s) (\<lambda>(root, s1).
     bindE (connect_insert_left root 2 s1) (\<lambda>(l, s2). bindE (connect_insert_right root 7 s2) (\<lambda>(r, s3).
     bindE (get_node root s3) (\<lambda>n. bindE (connect_insert_left (node_left n) 1 s3) (\<lambda>(_, s4). bindE (connect_insert_right (node_left n) 3 s4) (\<lambda>(_, s5).
     bindE (connect_insert_left (node_right n) 6 s5) (\<lambda>(_, s6). bindE (connect_insert_right (node_right n) 9 s6) (\<lambda>(_, s7).
     bindE (connect_tree root s7) (\<lambda>(_, s8). Inr s8)))))))))"

section \<open>Properties\<close>

definition bare :: "'n forest" where
  "bare = \<lparr>at = Map.empty, created = 0, full = (\<lambda>i. False), written = []\<rparr>"

text \<open>A memory with given nodes: address, value, left and right.\<close>

definition planted :: "(nat \<times> int \<times> nat \<times> nat) list \<Rightarrow> tree_node forest" where
  "planted xs = bare\<lparr>at := map_of (map (\<lambda>(a, v, l, r). (a, \<lparr>node_value = v, node_left = l, node_right = r\<rparr>)) xs)\<rparr>"

definition planted_connect :: "(nat \<times> int \<times> nat \<times> nat) list \<Rightarrow> connect_node forest" where
  "planted_connect xs = bare\<lparr>at := map_of (map (\<lambda>(a, v, l, r). (a, \<lparr>node_value = v, node_left = l, node_right = r, node_link = 0\<rparr>)) xs)\<rparr>"

text \<open>
  The three traversals of \<^verbatim>\<open>binary_tree.h\<close> print the values of the tree in preorder, inorder and
  postorder and change nothing else.
\<close>

theorem traversals_print_in_order:
  assumes "in_memory s p t"
  shows "preorder_traversal p s = Some (Inr (print_nodes (preorder t) s)) \<and> inorder_traversal p s = Some (Inr (print_nodes (inorder t) s)) \<and>
    postorder_traversal p s = Some (Inr (print_nodes (postorder t) s))"
  using preorder_run [OF assms] inorder_run [OF assms] postorder_run [OF assms] by simp

theorem traversals_print_in_order_witness:
  "bindE (joined (inorder_traversal 1 (planted [(1, 10, 2, 0), (2, 20, 0, 0)]))) (\<lambda>s. Inr (written s)) = Inr [Dec 20, Str '' '', Dec 10, Str '' '']"
proof -
  have "in_memory (planted [(1, 10, 2, 0), (2, 20, 0, 0)]) 1 \<langle>\<langle>\<langle>\<rangle>, (2, 20), \<langle>\<rangle>\<rangle>, (1, 10), \<langle>\<rangle>\<rangle>" by (simp add: planted_def bare_def)
  from traversals_print_in_order [OF this] show ?thesis by (simp add: print_nodes_def print_value_def planted_def bare_def)
qed

text \<open>
  \<^verbatim>\<open>invert_tree\<close> makes of the tree its mirror image, in place, and changes no other node.
\<close>

theorem invert_tree_mirrors:
  assumes "in_memory s p t" and "separate t"
  shows "\<exists>s'. invert_tree p s = Some (Inr (p, s')) \<and> in_memory s' p (mirror t) \<and> (\<forall>a. a \<notin> places t \<longrightarrow> at s' a = at s a)"
  by (rule invert_run [OF assms])

theorem invert_tree_mirrors_witness:
  "\<exists>s'. invert_tree 1 (planted [(1, 10, 2, 0), (2, 20, 0, 0)]) = Some (Inr (1, s')) \<and> in_memory s' 1 \<langle>\<langle>\<rangle>, (1, 10), \<langle>\<langle>\<rangle>, (2, 20), \<langle>\<rangle>\<rangle>\<rangle>"
proof -
  have "in_memory (planted [(1, 10, 2, 0), (2, 20, 0, 0)]) 1 \<langle>\<langle>\<langle>\<rangle>, (2, 20), \<langle>\<rangle>\<rangle>, (1, 10), \<langle>\<rangle>\<rangle>" by (simp add: planted_def bare_def)
  from invert_tree_mirrors [OF this] show ?thesis by simp blast
qed

text \<open>
  C39: \<^verbatim>\<open>flat_tree\<close> turns the tree, in place, into a list along the right pointers that has the nodes
  in preorder, with every left pointer NULL, and changes no other node.
\<close>

theorem flat_tree_flattens:
  assumes "in_memory s p t" and "separate t"
  shows "\<exists>s'. flat_tree p s = Some (Inr s') \<and> in_memory s' p (spine (preorder t)) \<and> (\<forall>a. a \<notin> places t \<longrightarrow> at s' a = at s a)"
  by (rule flat_run [OF assms])

theorem flat_tree_flattens_witness:
  "\<exists>s'. flat_tree 1 (planted [(1, 10, 2, 3), (2, 20, 0, 0), (3, 30, 0, 0)]) = Some (Inr s') \<and> in_memory s' 1 (spine [(1, 10), (2, 20), (3, 30)])"
proof -
  have "in_memory (planted [(1, 10, 2, 3), (2, 20, 0, 0), (3, 30, 0, 0)]) 1 \<langle>\<langle>\<langle>\<rangle>, (2, 20), \<langle>\<rangle>\<rangle>, (1, 10), \<langle>\<langle>\<rangle>, (3, 30), \<langle>\<rangle>\<rangle>\<rangle>"
    by (simp add: planted_def bare_def)
  from flat_tree_flattens [OF this] show ?thesis by (simp del: spine.simps in_memory.simps) blast
qed

text \<open>
  \<^verbatim>\<open>construct_maximum_binary_tree\<close> builds, of new nodes, a tree whose inorder is the array and in
  which every node is a largest element of its subtree, the first one where there are several.
\<close>

theorem construct_builds_maximum_tree:
  assumes "\<forall>i. \<not> full s i"
  shows "\<exists>p t s'. construct_maximum_binary_tree arr s = Inr (p, s') \<and> in_memory s' p t \<and> map snd (inorder t) = arr \<and> maximum_tree t \<and>
    separate t \<and> (\<forall>a \<in> places t. created s < a) \<and> (\<forall>a. a \<le> created s \<longrightarrow> at s' a = at s a)"
  using construct_run [OF assms, of arr] by fastforce

theorem construct_builds_maximum_tree_witness:
  "\<exists>p t s'. construct_maximum_binary_tree [3, 2, 1, 6, 0, 5] bare = Inr (p, s') \<and> in_memory s' p t \<and> map snd (inorder t) = [3, 2, 1, 6, 0, 5] \<and> maximum_tree t"
proof -
  have "\<forall>i. \<not> full (bare :: tree_node forest) i" by (simp add: bare_def)
  from construct_builds_maximum_tree [OF this] show ?thesis by blast
qed

text \<open>
  C40: \<^verbatim>\<open>connect_tree\<close> of a perfect binary tree links each node to its right neighbor on the same
  level, across subtrees too, and leaves the last node of a level and every other field and node
  as it was.
\<close>

theorem connect_tree_links_levels:
  assumes "in_memory s root t" and "separate t" and "complete t"
  shows "\<exists>s'. connect_tree root s = Inr (root, s') \<and> in_memory s' root t \<and>
    (\<forall>k i. Suc i < length (level k t) \<longrightarrow> (\<exists>n. at s' (level k t ! i) = Some n \<and> node_link n = level k t ! Suc i)) \<and>
    (\<forall>a. (\<forall>k. a \<notin> set (butlast (level k t))) \<longrightarrow> at s' a = at s a)"
  by (rule connect_run [OF assms])

theorem connect_tree_links_levels_witness:
  "\<exists>s' n. connect_tree 1 (planted_connect [(1, 10, 2, 3), (2, 20, 0, 0), (3, 30, 0, 0)]) = Inr (1, s') \<and> at s' 2 = Some n \<and> node_link n = 3"
proof -
  let ?t = "\<langle>\<langle>\<langle>\<rangle>, (2, 20), \<langle>\<rangle>\<rangle>, (1, 10), \<langle>\<langle>\<rangle>, (3, 30), \<langle>\<rangle>\<rangle>\<rangle> :: (nat \<times> int) tree"
  have "in_memory (planted_connect [(1, 10, 2, 3), (2, 20, 0, 0), (3, 30, 0, 0)]) 1 ?t" by (simp add: planted_connect_def bare_def)
  moreover have "separate ?t" "complete ?t" by simp_all
  ultimately obtain s' where s': "connect_tree 1 (planted_connect [(1, 10, 2, 3), (2, 20, 0, 0), (3, 30, 0, 0)]) = Inr (1, s')"
    "\<forall>k i. Suc i < length (level k ?t) \<longrightarrow> (\<exists>n. at s' (level k ?t ! i) = Some n \<and> node_link n = level k ?t ! Suc i)"
    using connect_tree_links_levels by blast
  have "level 1 ?t = [2, 3]" by (simp add: numeral_nat)
  then show ?thesis using s' s'(2) [rule_format, of 0 1] by auto
qed

lemma programs_print:
  "bindE (invert_main bare) (\<lambda>s. Inr (written s)) = Inr (concat (map (\<lambda>v. [Dec v, Str '' '']) [4, 7, 9, 6, 2, 3, 1]) @ [Str [CHR 0x0A]])"
  "bindE (flat_main bare) (\<lambda>s. Inr (written s)) = Inr (concat (map (\<lambda>v. [Dec v, Str '' '']) [1, 2, 3, 4, 5, - 1, 6]) @ [Str [CHR 0x0A]])"
  "bindE (maximum_main bare) (\<lambda>s. Inr (written s)) = Inr (concat (map (\<lambda>v. [Dec v, Str '' '']) [6, 3, 2, 1, 5, 0]) @ [Str [CHR 0x0A]])"
  by code_simp+

end
