(* ===== verification/Machine.thy ===== *)
theory Machine
  imports Prelude
begin

text \<open>
  The machine the kernel runs on, as far as the C code sees it: a byte-addressed memory
  over 32-bit linear addresses, the little-endian 16-bit and 32-bit accesses that the
  compiler emits for \<^verbatim>\<open>uint16_t\<close> and \<^verbatim>\<open>uint32_t\<close> objects, and the I/O ports of
  \<^verbatim>\<open>src/src/kernel/drivers/io.c\<close>. The devices behind the ports are not part of the
  repository: they are a parameter, a function from the accesses made so far and the port
  to the value the port delivers.

  The memory is one flat array: that the boot code maps the first four megabytes both
  at 0 and at 0xC0000000 is not part of this picture.
\<close>

section \<open>Memory\<close>

type_synonym mem = "u32 \<Rightarrow> u8"

definition load16 :: "mem \<Rightarrow> u32 \<Rightarrow> u16" where
  "load16 m a = ucast (m a) OR push_bit 8 (ucast (m (a + 1)))"

definition store16 :: "mem \<Rightarrow> u32 \<Rightarrow> u16 \<Rightarrow> mem" where
  "store16 m a v = m(a := ucast v, a + 1 := ucast (drop_bit 8 v))"

definition load32 :: "mem \<Rightarrow> u32 \<Rightarrow> u32" where
  "load32 m a =
     ucast (m a) OR push_bit 8 (ucast (m (a + 1))) OR
     push_bit 16 (ucast (m (a + 2))) OR push_bit 24 (ucast (m (a + 3)))"

definition store32 :: "mem \<Rightarrow> u32 \<Rightarrow> u32 \<Rightarrow> mem" where
  "store32 m a v =
     m(a := ucast v, a + 1 := ucast (drop_bit 8 v),
       a + 2 := ucast (drop_bit 16 v), a + 3 := ucast (drop_bit 24 v))"

section \<open>Ports\<close>

text \<open>One constructor per access; the log lists the accesses in the order they were made.\<close>

datatype io_event =
    Outb u16 u8 | Outw u16 u16 | Outl u16 u32
  | Inb u16 | Inw u16 | Inl_port u16

type_synonym iolog = "io_event list"

record device =
  dev8 :: "iolog \<Rightarrow> u16 \<Rightarrow> u8"
  dev16 :: "iolog \<Rightarrow> u16 \<Rightarrow> u16"
  dev32 :: "iolog \<Rightarrow> u16 \<Rightarrow> u32"

definition inb :: "device \<Rightarrow> u16 \<Rightarrow> iolog \<Rightarrow> u8 \<times> iolog" where
  "inb d port l = (dev8 d l port, l @ [Inb port])"

definition outb :: "u16 \<Rightarrow> u8 \<Rightarrow> iolog \<Rightarrow> iolog" where
  "outb port data l = l @ [Outb port data]"

definition inw :: "device \<Rightarrow> u16 \<Rightarrow> iolog \<Rightarrow> u16 \<times> iolog" where
  "inw d port l = (dev16 d l port, l @ [Inw port])"

definition outw :: "u16 \<Rightarrow> u16 \<Rightarrow> iolog \<Rightarrow> iolog" where
  "outw port data l = l @ [Outw port data]"

definition inl :: "device \<Rightarrow> u16 \<Rightarrow> iolog \<Rightarrow> u32 \<times> iolog" where
  "inl d port l = (dev32 d l port, l @ [Inl_port port])"

definition outl :: "u16 \<Rightarrow> u32 \<Rightarrow> iolog \<Rightarrow> iolog" where
  "outl port data l = l @ [Outl port data]"

section \<open>State\<close>

text \<open>
  The state every component sees. Each component with variables of its own extends this
  record; an operation of a component is polymorphic in the fields added after it, so that
  its type already says which variables it cannot touch.
\<close>

record machine =
  mem :: mem
  iolog :: iolog

section \<open>Facts about accesses\<close>

lemma word_less_4_cases: "(x::u32) < 4 \<longleftrightarrow> x = 0 \<or> x = 1 \<or> x = 2 \<or> x = 3"
proof -
  have "unat x < 4 \<longleftrightarrow> unat x = 0 \<or> unat x = 1 \<or> unat x = 2 \<or> unat x = 3" by auto
  then show ?thesis by (simp add: word_less_nat_alt word_unat_eq_iff)
qed

lemma add_offset_in_4:
  "(a::u32) - a < 4" "a + 1 - a < 4" "a + 2 - a < 4" "a + 3 - a < 4"
  by simp_all

lemma store32_outside: "\<not> b - a < 4 \<Longrightarrow> store32 m a v b = m b"
  by (auto simp: store32_def word_less_4_cases algebra_simps)

lemma load32_cong:
  "(\<And>b. b - a < 4 \<Longrightarrow> m b = m' b) \<Longrightarrow> load32 m a = load32 m' a"
  by (simp add: load32_def)

lemma load32_store32_same [simp]: "load32 (store32 m a v) a = v"
proof (rule bit_word_eqI)
  fix n assume "n < LENGTH(32)"
  then consider "n < 8" | "8 \<le> n" "n < 16" | "16 \<le> n" "n < 24" | "24 \<le> n" "n < 32"
    by force
  then show "bit (load32 (store32 m a v) a) n \<longleftrightarrow> bit v n"
    by cases (auto simp: load32_def store32_def bit_simps)
qed

lemma load32_store32_disj:
  assumes "disj_ivl a 4 b 4"
  shows "load32 (store32 m a v) b = load32 m b"
proof (rule load32_cong)
  fix c assume "c - b < 4"
  then have "\<not> c - a < 4"
    using assms by (metis disj_ivl_commute disj_ivl_not_both)
  then show "store32 m a v c = m c" by (rule store32_outside)
qed

lemma load32_upd_outside: "\<not> c - a < 4 \<Longrightarrow> load32 (m(c := x)) a = load32 m a"
  by (rule load32_cong) auto

lemma store16_outside: "\<not> b - a < 2 \<Longrightarrow> store16 m a v b = m b"
proof -
  have "b - a < 2 \<longleftrightarrow> b = a \<or> b = a + 1"
  proof -
    have "unat (b - a) < 2 \<longleftrightarrow> unat (b - a) = 0 \<or> unat (b - a) = 1" by auto
    then have "b - a < 2 \<longleftrightarrow> b - a = 0 \<or> b - a = 1"
      by (simp add: word_less_nat_alt word_unat_eq_iff)
    then show ?thesis by (auto simp: algebra_simps)
  qed
  then show "\<not> b - a < 2 \<Longrightarrow> store16 m a v b = m b" by (auto simp: store16_def)
qed

lemma load16_store16_same [simp]: "load16 (store16 m a v) a = v"
  by (rule bit_word_eqI) (auto simp: load16_def store16_def bit_simps)

lemma store16_apply:
  "store16 m t v a = (if unat (a - t) < 2 then (if even (unat (a - t)) then ucast v else ucast (drop_bit 8 v)) else m a)"
proof -
  have "unat (a - t) = 0 \<longleftrightarrow> a = t" "unat (a - t) = 1 \<longleftrightarrow> a = t + 1"
    using word_unat_eq_iff [of "a - t" 0] word_unat_eq_iff [of "a - t" 1]
    by (auto simp: algebra_simps)
  then show ?thesis by (auto simp: store16_def less_2_cases_iff)
qed

end
