(* ===== verification/Kstring.thy ===== *)
theory Kstring
  imports Machine "HOL-Library.Signed_Division"
begin

text \<open>
  The kernel's C library, \<^verbatim>\<open>src/src/lib/string.c\<close>, except for \<^verbatim>\<open>printf\<close>, which is in
  theory Console with the screen it writes to. A pointer is a 32-bit address and every
  routine maps the memory before the call to the memory after it; \<^verbatim>\<open>memset\<close>, \<^verbatim>\<open>memmove\<close>,
  \<^verbatim>\<open>memcpy\<close>, \<^verbatim>\<open>memsetw\<close>, \<^verbatim>\<open>memsetdw\<close>, \<^verbatim>\<open>itoa\<close> and \<^verbatim>\<open>uitoa\<close> return their first argument, which
  the model leaves out. Loops bounded by a counter are total functions; loops that stop only
  at a byte of the memory (or, in \<^verbatim>\<open>itoa\<close>, at a quotient of zero) are partial: \<open>None\<close> means
  that the call does not return.
\<close>

section \<open>Block operations\<close>

function memset_loop :: "mem \<Rightarrow> u32 \<Rightarrow> u8 \<Rightarrow> u32 \<Rightarrow> u32 \<Rightarrow> mem" where
  "memset_loop m s c n i = (if i < n then memset_loop (m(s + i := c)) s c n (i + 1) else m)"
  by pat_completeness auto
termination
  by (relation "measure (\<lambda>(m, s, c, n, i). unat (n - i))") (auto simp: word_less_imp_unat_diff_Suc)

definition memset :: "mem \<Rightarrow> u32 \<Rightarrow> u8 \<Rightarrow> u32 \<Rightarrow> mem" where
  "memset m s c n = memset_loop m s c n 0"

function memmove_loop :: "mem \<Rightarrow> u32 \<Rightarrow> u32 \<Rightarrow> u32 \<Rightarrow> u32 \<Rightarrow> mem" where
  "memmove_loop m dst src len i =
     (if i < len then memmove_loop (m(dst + i := m (src + i))) dst src len (i + 1) else m)"
  by pat_completeness auto
termination
  by (relation "measure (\<lambda>(m, d, s, n, i). unat (n - i))") (auto simp: word_less_imp_unat_diff_Suc)

definition memmove :: "mem \<Rightarrow> u32 \<Rightarrow> u32 \<Rightarrow> u32 \<Rightarrow> mem" where
  "memmove m dst src len = memmove_loop m dst src len 0"

text \<open>\<^verbatim>\<open>while (n--) *p++ = *q++;\<close> with the \<^verbatim>\<open>int\<close> counter kept at its 32 bits.\<close>

function memcpy :: "mem \<Rightarrow> u32 \<Rightarrow> u32 \<Rightarrow> u32 \<Rightarrow> mem" where
  "memcpy m p q n = (if n = 0 then m else memcpy (m(p := m q)) (p + 1) (q + 1) (n - 1))"
  by pat_completeness auto
termination
  by (relation "measure (\<lambda>(m, p, q, n). unat n)") (auto simp: measure_unat)

function memsetw :: "mem \<Rightarrow> u32 \<Rightarrow> u16 \<Rightarrow> u32 \<Rightarrow> mem" where
  "memsetw m temp val count =
     (if count \<noteq> 0 then memsetw (store16 m temp val) (temp + 2) val (count - 1) else m)"
  by pat_completeness auto
termination
  by (relation "measure (\<lambda>(m, t, v, n). unat n)") (auto simp: measure_unat)

function memsetdw :: "mem \<Rightarrow> u32 \<Rightarrow> u32 \<Rightarrow> u32 \<Rightarrow> mem" where
  "memsetdw m temp val count =
     (if count \<noteq> 0 then memsetdw (store32 m temp val) (temp + 4) val (count - 1) else m)"
  by pat_completeness auto
termination
  by (relation "measure (\<lambda>(m, t, v, n). unat n)") (auto simp: measure_unat)

declare memset_loop.simps [simp del] memmove_loop.simps [simp del] memcpy.simps [simp del]
  memsetw.simps [simp del] memsetdw.simps [simp del]

section \<open>Strings\<close>

partial_function (option) strlen_loop :: "mem \<Rightarrow> u32 \<Rightarrow> u32 \<Rightarrow> u32 option" where
  "strlen_loop m buf i = (if m (buf + i) \<noteq> 0 then strlen_loop m buf (i + 1) else Some i)"

definition strlen :: "mem \<Rightarrow> u32 \<Rightarrow> u32 option" where
  "strlen m buf = strlen_loop m buf 0"

partial_function (option) strcpy_loop :: "mem \<Rightarrow> u32 \<Rightarrow> u32 \<Rightarrow> u32 \<Rightarrow> (mem \<times> u32) option" where
  "strcpy_loop m dst src i =
     (let m' = m(dst := m src)
      in if m src \<noteq> 0 then strcpy_loop m' (dst + 1) (src + 1) (i + 1) else Some (m', i))"

definition strcpy :: "mem \<Rightarrow> u32 \<Rightarrow> u32 \<Rightarrow> (mem \<times> u32) option" where
  "strcpy m dst src = strcpy_loop m dst src 0"

partial_function (option) strcmp_loop :: "mem \<Rightarrow> u32 \<Rightarrow> u32 \<Rightarrow> u32 \<Rightarrow> u32 option" where
  "strcmp_loop m dst src i =
     (if m (dst + i) = m (src + i)
      then (if m (src + i) = 0 then Some 0 else strcmp_loop m dst src (i + 1))
      else Some 1)"

definition strcmp :: "mem \<Rightarrow> u32 \<Rightarrow> u32 \<Rightarrow> u32 option" where
  "strcmp m dst src = strcmp_loop m dst src 0"

text \<open>The difference of two \<^verbatim>\<open>char\<close>s is computed on \<^verbatim>\<open>int\<close>s; \<^verbatim>\<open>char\<close> is signed.\<close>

function strncmp_loop :: "mem \<Rightarrow> u32 \<Rightarrow> u32 \<Rightarrow> u32 \<Rightarrow> int \<Rightarrow> int" where
  "strncmp_loop m s1 s2 c result =
     (if c = 0 then result
      else let r = sint (m s1) - sint (m s2)
           in if r \<noteq> 0 \<or> m s1 = 0 then r else strncmp_loop m (s1 + 1) (s2 + 1) (c - 1) r)"
  by pat_completeness auto
termination
  by (relation "measure (\<lambda>(m, s1, s2, c, r). unat c)") (auto simp: measure_unat)

declare strncmp_loop.simps [simp del]

definition strncmp :: "mem \<Rightarrow> u32 \<Rightarrow> u32 \<Rightarrow> u32 \<Rightarrow> int" where
  "strncmp m s1 s2 c = strncmp_loop m s1 s2 c 0"

text \<open>
  The counter of \<^verbatim>\<open>strncpy\<close> runs up to the clamped length, which is at most 255; the pair is
  the memory and the counter at which the loop stopped.
\<close>

function strncpy_loop :: "mem \<Rightarrow> u32 \<Rightarrow> u32 \<Rightarrow> int \<Rightarrow> int \<Rightarrow> mem \<times> int" where
  "strncpy_loop m dest src maxLength count =
     (if count < maxLength
      then let m' = m(dest + word_of_int count := m (src + word_of_int count))
           in if m' (src + word_of_int count) = 0 then (m', count)
              else strncpy_loop m' dest src maxLength (count + 1)
      else (m, count))"
  by pat_completeness auto
termination
  by (relation "measure (\<lambda>(m, d, s, n, i). nat (n - i))") auto

declare strncpy_loop.simps [simp del]

definition strncpy :: "mem \<Rightarrow> u32 \<Rightarrow> u32 \<Rightarrow> u32 \<Rightarrow> mem \<times> u32" where
  "strncpy m destString sourceString maxLength =
     (if destString = 0 \<or> sourceString = 0 then (m, 0)
      else let maxLength' = (if sint maxLength > 255 then 255 else sint maxLength);
               (m', count) = strncpy_loop m destString sourceString maxLength' 0
           in if count \<ge> 255 then (m', 0) else (m', destString))"

text \<open>
  \<^verbatim>\<open>strstr\<close>: the inner loop looks for the first character, the outer one compares the rest;
  both advance the same pointer, so they are one loop. The result 0 is the null pointer.
\<close>

partial_function (option) strstr_loop :: "mem \<Rightarrow> u8 \<Rightarrow> u32 \<Rightarrow> u32 \<Rightarrow> u32 \<Rightarrow> u32 option" where
  "strstr_loop m c str len inp =
     (if m inp = 0 then Some 0
      else if m inp = c \<and> strncmp m (inp + 1) str len = 0 then Some inp
      else strstr_loop m c str len (inp + 1))"

definition strstr :: "mem \<Rightarrow> u32 \<Rightarrow> u32 \<Rightarrow> u32 option" where
  "strstr m inp str =
     (let c = m str; str' = str + 1
      in if c = 0 then Some inp
         else (case strlen m str' of None \<Rightarrow> None
               | Some len \<Rightarrow> strstr_loop m c str' len inp))"

definition strcat :: "mem \<Rightarrow> u32 \<Rightarrow> u32 \<Rightarrow> mem option" where
  "strcat m dest src =
     (case strlen m dest of None \<Rightarrow> None
      | Some d \<Rightarrow> (case strlen m src of None \<Rightarrow> None
      | Some n \<Rightarrow>
         (let end = dest + d; m' = memcpy m end src n
          in (case strlen m' src of None \<Rightarrow> None
              | Some n' \<Rightarrow> Some (m'(end + n' := 0))))))"

section \<open>Numbers\<close>

text \<open>The digit of a remainder: \<^verbatim>\<open>'0'\<close> is 48 and \<^verbatim>\<open>'a' - 10\<close> is 87.\<close>

definition udigit :: "u32 \<Rightarrow> u8" where
  "udigit a = (if a < 10 then ucast (a + 48) else ucast (a + 97 - 10))"

partial_function (option) uitoa_digits :: "mem \<Rightarrow> u32 \<Rightarrow> u32 \<Rightarrow> u32 \<Rightarrow> u32 \<Rightarrow> (mem \<times> u32) option" where
  "uitoa_digits m buf radix x i =
     (if radix = 0 then None
      else let m' = m(buf + i := udigit (x mod radix)); x' = x div radix
           in if x' \<noteq> 0 then uitoa_digits m' buf radix x' (i + 1) else Some (m', i + 1))"

function swap_loop :: "mem \<Rightarrow> u32 \<Rightarrow> u32 \<Rightarrow> mem" where
  "swap_loop m s e =
     (if s < e then swap_loop (m(s := m e, e := m s)) (s + 1) (e - 1) else m)"
  by pat_completeness auto
termination
proof (relation "measure (\<lambda>(m, s, e). if s < e then unat (e - s) else 0)")
  fix m :: mem and s e :: u32
  assume less: "s < e"
  then have "unat (e - s) = unat e - unat s" and "unat s < unat e"
    by (simp_all add: unat_sub word_less_nat_alt word_le_nat_alt)
  moreover have "e \<noteq> 0" using less by auto
  then have "unat (s + 1) = Suc (unat s)" and "unat (e - 1) = unat e - 1"
    using less by (simp_all add: unat_Suc_less unat_diff_1)
  ultimately show "((m(s := m e, e := m s), s + 1, e - 1), m, s, e)
      \<in> measure (\<lambda>(m, s, e). if s < e then unat (e - s) else 0)"
    using less by (auto simp: word_less_nat_alt unat_sub word_le_nat_alt)
qed simp

declare swap_loop.simps [simp del]

definition uitoa :: "mem \<Rightarrow> u32 \<Rightarrow> u32 \<Rightarrow> u32 \<Rightarrow> mem option" where
  "uitoa m val buf radix =
     (case uitoa_digits m buf radix val 0 of None \<Rightarrow> None
      | Some (m', i) \<Rightarrow>
          (let m'' = swap_loop m' buf (buf + (i - 1)) in Some (m''(buf + i := 0))))"

text \<open>
  \<^verbatim>\<open>itoa\<close> works on \<^verbatim>\<open>int32_t\<close>, whose \<^verbatim>\<open>%\<close> and \<^verbatim>\<open>/\<close> truncate towards zero: \<^verbatim>\<open>smod\<close> and \<^verbatim>\<open>sdiv\<close>
  on the signed values.
\<close>

definition idigit :: "int \<Rightarrow> u8" where
  "idigit a = (if a < 10 then word_of_int (a + 48) else word_of_int (a + 97 - 10))"

partial_function (option) itoa_digits :: "mem \<Rightarrow> u32 \<Rightarrow> int \<Rightarrow> int \<Rightarrow> u32 \<Rightarrow> (mem \<times> u32) option" where
  "itoa_digits m buf radix x i =
     (if radix = 0 then None
      else let m' = m(buf + i := idigit (x smod radix)); x' = x sdiv radix
           in if x' \<noteq> 0 then itoa_digits m' buf radix x' (i + 1) else Some (m', i + 1))"

definition itoa :: "mem \<Rightarrow> u32 \<Rightarrow> u32 \<Rightarrow> u32 \<Rightarrow> mem option" where
  "itoa m val buf radix =
     (let neg = sint val < 0 \<and> sint radix = 10;
          m0 = (if neg then m(buf := 45) else m);
          start = (if neg then 1 else 0)
      in (case itoa_digits m0 buf (sint radix) (sint val) start of None \<Rightarrow> None
          | Some (m', i) \<Rightarrow>
              (let m'' = swap_loop m' (buf + start) (buf + (i - 1)) in Some (m''(buf + i := 0)))))"

section \<open>Block operations in closed form\<close>

lemma memset_loop_apply:
  "i \<le> n \<Longrightarrow> memset_loop m s c n i a = (if i \<le> a - s \<and> a - s < n then c else m a)"
proof (induction m s c n i rule: memset_loop.induct)
  case (1 m s c n i)
  show ?case
  proof (cases "i < n")
    case True
    have "i + 1 \<le> n" using True by (simp add: inc_le)
    then have "memset_loop (m(s + i := c)) s c n (i + 1) a =
        (if i + 1 \<le> a - s \<and> a - s < n then c else (m(s + i := c)) a)"
      by (rule "1.IH" [OF True])
    moreover have "i \<le> a - s \<longleftrightarrow> i + 1 \<le> a - s \<or> a = s + i"
      using word_less_Suc_iff [OF True, of "a - s"]
      by (auto simp: not_less [symmetric] algebra_simps)
    ultimately show ?thesis
      using True by (auto simp: memset_loop.simps [of m s c n i])
  next
    case False
    with "1.prems" have "i = n" by simp
    then show ?thesis by (auto simp: memset_loop.simps [of m s c n n])
  qed
qed

lemma memset_apply: "memset m s c n a = (if a - s < n then c else m a)"
  by (simp add: memset_def memset_loop_apply)

lemma memcpy_apply:
  "n \<le> p - q \<Longrightarrow> memcpy m p q n a = (if a - p < n then m (q + (a - p)) else m a)"
proof (induction m p q n rule: memcpy.induct)
  case (1 m p q n)
  show ?case
  proof (cases "n = 0")
    case True
    then show ?thesis by (simp add: memcpy.simps)
  next
    case False
    let ?m = "m(p := m q)"
    have "n - 1 \<le> n" using False by (simp add: word_le_nat_alt unat_diff_1)
    then have "n - 1 \<le> p + 1 - (q + 1)" using "1.prems" by simp
    then have IH: "memcpy ?m (p + 1) (q + 1) (n - 1) a =
        (if a - (p + 1) < n - 1 then ?m (q + 1 + (a - (p + 1))) else ?m a)"
      by (rule "1.IH" [OF False])
    have "a - (p + 1) < n - 1 \<longleftrightarrow> a \<noteq> p \<and> a - p < n"
    proof (cases "a = p")
      case True
      with unat_u32_le [of "n - 1"] show ?thesis by (simp add: word_less_nat_alt)
    next
      case a: False
      then have "unat (a - p - 1) = unat (a - p) - 1" and "unat (a - p) > 0"
        by (simp_all add: unat_diff_1 unat_gt_0)
      then show ?thesis
        using a False by (auto simp: word_less_nat_alt unat_diff_1 diff_diff_eq [symmetric])
    qed
    moreover have "q + (a - p) \<noteq> p" if "a - p < n"
    proof
      assume "q + (a - p) = p"
      then have "a - p = p - q" by (metis add_diff_cancel_left')
      with that "1.prems" show False by simp
    qed
    moreover have "0 < n" using False by (simp add: word_neq_0_conv)
    ultimately show ?thesis
      using IH False by (auto simp: memcpy.simps [of m p q n] algebra_simps)
  qed
qed

lemma memmove_loop_memcpy:
  "i \<le> len \<Longrightarrow> memmove_loop m dst src len i = memcpy m (dst + i) (src + i) (len - i)"
proof (induction m dst src len i rule: memmove_loop.induct)
  case (1 m dst src len i)
  show ?case
  proof (cases "i < len")
    case True
    then have "i + 1 \<le> len" by (simp add: inc_le)
    then have "memmove_loop (m(dst + i := m (src + i))) dst src len (i + 1) =
        memcpy (m(dst + i := m (src + i))) (dst + (i + 1)) (src + (i + 1)) (len - (i + 1))"
      by (rule "1.IH" [OF True])
    moreover have "len \<noteq> i" using True by auto
    ultimately show ?thesis using True
      by (simp add: memmove_loop.simps [of m dst src len i]
          memcpy.simps [of m "dst + i" "src + i" "len - i"] add.assoc diff_diff_eq del: fun_upd_apply)
  next
    case False
    with 1 have "i = len" by simp
    then show ?thesis by (simp add: memmove_loop.simps [of m dst src len len] memcpy.simps)
  qed
qed

lemma memsetw_apply:
  "unat n < 2 ^ 31 \<Longrightarrow> memsetw m t v n a =
    (if unat (a - t) < 2 * unat n
     then (if even (unat (a - t)) then ucast v else ucast (drop_bit 8 v)) else m a)"
proof (induction m t v n rule: memsetw.induct)
  case (1 m t v n)
  show ?case
  proof (cases "n = 0")
    case True
    then show ?thesis by (simp add: memsetw.simps)
  next
    case False
    then have n: "unat (n - 1) = unat n - 1" "0 < unat n" by (simp_all add: unat_diff_1 unat_gt_0)
    have IH: "memsetw (store16 m t v) (t + 2) v (n - 1) a =
       (if unat (a - (t + 2)) < 2 * unat (n - 1)
        then (if even (unat (a - (t + 2))) then ucast v else ucast (drop_bit 8 v)) else store16 m t v a)"
      by (rule "1.IH") (use False n "1.prems" in simp_all)
    have d: "a - (t + 2) = a - t - 2" by simp
    show ?thesis
    proof (cases "unat (a - t) < 2")
      case True
      then show ?thesis using IH False n unat_sub_2 [of "a - t"] "1.prems"
        by (simp add: memsetw.simps [of m t v n] d store16_apply)
    next
      case far: False
      then show ?thesis using IH False n unat_sub_2(1) [of "a - t"]
        by (auto simp: memsetw.simps [of m t v n] d store16_apply)
    qed
  qed
qed

lemma memmove_eq_memcpy: "memmove m dst src len = memcpy m dst src len"
  by (simp add: memmove_def memmove_loop_memcpy)

section \<open>Bytes written in sequence\<close>

text \<open>The memory after the bytes of a list have been stored at consecutive addresses.\<close>

primrec write_bytes :: "mem \<Rightarrow> u32 \<Rightarrow> u8 list \<Rightarrow> mem" where
  "write_bytes m p [] = m"
| "write_bytes m p (b # bs) = write_bytes (m(p := b)) (p + 1) bs"

lemma write_bytes_apply:
  "length bs \<le> 2 ^ 32 \<Longrightarrow> write_bytes m p bs a =
     (if unat (a - p) < length bs then bs ! unat (a - p) else m a)"
proof (induction bs arbitrary: m p)
  case Nil
  then show ?case by simp
next
  case (Cons b bs)
  show ?case
  proof (cases "a = p")
    case True
    with True Cons show ?thesis by simp
  next
    case False
    then have "unat (a - (p + 1)) = unat (a - p) - 1" and "0 < unat (a - p)"
      by (simp_all add: diff_diff_eq [symmetric] unat_diff_1 unat_gt_0)
    with False Cons show ?thesis by (auto simp: nth_Cons')
  qed
qed

section \<open>Zero-terminated strings\<close>

text \<open>The memory at \<open>p\<close> holds the string \<open>s\<close>: its characters, none of them zero, and a zero.\<close>

primrec cstr :: "mem \<Rightarrow> u32 \<Rightarrow> u8 list \<Rightarrow> bool" where
  "cstr m p [] \<longleftrightarrow> m p = 0"
| "cstr m p (c # s) \<longleftrightarrow> c \<noteq> 0 \<and> m p = c \<and> cstr m (p + 1) s"

lemma cstr_nth: "cstr m p s \<longleftrightarrow>
    0 \<notin> set s \<and> (\<forall>i < length s. m (p + of_nat i) = s ! i) \<and> m (p + of_nat (length s)) = 0"
proof (induction s arbitrary: p)
  case Nil
  then show ?case by simp
next
  case (Cons c s)
  show ?case
    by (simp add: Cons All_less_Suc2 add.assoc) (auto simp: add.commute)
qed

lemma cstr_cong:
  assumes "\<And>a. unat (a - p) \<le> length s \<Longrightarrow> m a = m' a" and "length s < 2 ^ 32"
  shows "cstr m p s \<longleftrightarrow> cstr m' p s"
proof -
  have "m (p + of_nat i) = m' (p + of_nat i)" if "i \<le> length s" for i
    using assms that by (simp add: unat_of_nat_u32)
  then show ?thesis by (simp add: cstr_nth)
qed

lemma cstr_unique: "cstr m p s \<Longrightarrow> cstr m p t \<Longrightarrow> s = t"
proof (induction s arbitrary: p t)
  case Nil
  then show ?case by (cases t) auto
next
  case (Cons c s)
  then show ?case by (cases t) auto
qed

lemma strlen_loop_cstr:
  "cstr m (buf + i) s \<Longrightarrow> strlen_loop m buf i = Some (i + of_nat (length s))"
proof (induction s arbitrary: i)
  case Nil
  then show ?case by (simp add: strlen_loop.simps)
next
  case (Cons c s)
  then have "strlen_loop m buf (i + 1) = Some (i + 1 + of_nat (length s))"
    by (simp add: add.assoc)
  with Cons.prems show ?case by (subst strlen_loop.simps) (simp add: add.assoc)
qed

lemma strlen_cstr: "cstr m p s \<Longrightarrow> strlen m p = Some (of_nat (length s))"
  using strlen_loop_cstr [of m p 0 s] by (simp add: strlen_def)

lemma strcmp_loop_cstr:
  "cstr m (d + i) s \<Longrightarrow> cstr m (p + i) t \<Longrightarrow>
    strcmp_loop m d p i = Some (if s = t then 0 else 1)"
proof (induction s arbitrary: i t)
  case Nil
  then show ?case by (cases t) (simp_all add: strcmp_loop.simps)
next
  case (Cons c s)
  show ?case
  proof (cases t)
    case Nil
    with Cons.prems show ?thesis by (simp add: strcmp_loop.simps)
  next
    case t: (Cons c' t')
    with Cons.prems have "strcmp_loop m d p (i + 1) = Some (if s = t' then 0 else 1)"
      by (intro Cons.IH) (simp_all add: add.assoc)
    with Cons.prems t show ?thesis by (subst strcmp_loop.simps) auto
  qed
qed

lemma strncmp_loop_cstr:
  "cstr m p s \<Longrightarrow> cstr m q t \<Longrightarrow> n < 2 ^ 32 \<Longrightarrow>
    strncmp_loop m p q (of_nat n) 0 = 0 \<longleftrightarrow> take n s = take n t"
proof (induction n arbitrary: p q s t)
  case 0
  then show ?case by (simp add: strncmp_loop.simps)
next
  case (Suc n)
  have nz: "(1 + of_nat n :: u32) \<noteq> 0"
    using Suc.prems(3) by (rule of_nat_Suc_u32_neq_0)
  show ?case
    using Suc.prems nz Suc.IH [of "p + 1" "tl s" "q + 1" "tl t"]
    by (cases s; cases t) (auto simp: strncmp_loop.simps [of m p q "1 + of_nat n"]
        Let_def sint_eq_iff sint_eq_0_iff)
qed

lemma strncmp_cstr:
  assumes "cstr m p s" and "cstr m q t" and "n < 2 ^ 32"
  shows "strncmp m p q (of_nat n) = 0 \<longleftrightarrow> take n s = take n t"
  using strncmp_loop_cstr [OF assms] by (simp add: strncmp_def)

text \<open>The first position at which a non-empty pattern occurs in a text.\<close>

primrec find_sub :: "u8 list \<Rightarrow> u8 list \<Rightarrow> nat option" where
  "find_sub t [] = None"
| "find_sub t (x # xs) =
     (if take (length t) (x # xs) = t then Some 0 else map_option Suc (find_sub t xs))"

lemma find_sub_Some:
  "find_sub t s = Some k \<Longrightarrow>
    take (length t) (drop k s) = t \<and> k < length s \<and> (\<forall>j<k. take (length t) (drop j s) \<noteq> t)"
proof (induction s arbitrary: k)
  case Nil
  then show ?case by simp
next
  case (Cons x xs)
  then show ?case by (auto simp: less_Suc_eq_0_disj split: if_splits)
qed

lemma find_sub_None:
  "find_sub t s = None \<Longrightarrow> t \<noteq> [] \<Longrightarrow> take (length t) (drop k s) \<noteq> t"
proof (induction s arbitrary: k)
  case Nil
  then show ?case by simp
next
  case (Cons x xs)
  then show ?case by (cases k) (auto split: if_splits)
qed

lemma strstr_loop_cstr:
  assumes "cstr m str t" and "length t < 2 ^ 32" and "c \<noteq> 0"
  shows "cstr m inp s \<Longrightarrow>
    strstr_loop m c str (of_nat (length t)) inp =
      Some (case find_sub (c # t) s of None \<Rightarrow> 0 | Some k \<Rightarrow> inp + of_nat k)"
proof (induction s arbitrary: inp)
  case Nil
  then show ?case by (simp add: strstr_loop.simps)
next
  case (Cons x s)
  have "strncmp m (inp + 1) str (of_nat (length t)) = 0 \<longleftrightarrow> take (length t) s = t"
    using strncmp_cstr [OF _ assms(1,2), of "inp + 1" s] Cons.prems by simp
  with Cons show ?case
    by (subst strstr_loop.simps) (auto simp: add.assoc split: option.split)
qed

lemma strcpy_loop_cstr:
  "cstr m src s \<Longrightarrow> length s < 2 ^ 32 - 1 \<Longrightarrow> 1 + of_nat (length s) \<le> dst - src \<Longrightarrow>
    strcpy_loop m dst src i =
      Some (memcpy m dst src (1 + of_nat (length s)), i + of_nat (length s))"
proof (induction s arbitrary: m dst src i)
  case Nil
  then show ?case by (simp add: strcpy_loop.simps memcpy.simps fun_upd_def)
next
  case (Cons c s)
  let ?m = "m(dst := m src)" and ?n = "of_nat (length s) :: u32"
  have n: "unat (1 + ?n) = Suc (length s)"
    using unat_of_nat_u32 [of "Suc (length s)"] Cons.prems(2) by simp
  have n1: "unat (1 + (1 + ?n)) = Suc (Suc (length s))"
    using unat_of_nat_u32 [of "Suc (Suc (length s))"] Cons.prems(2) by simp
  have le: "1 + ?n \<le> dst + 1 - (src + 1)"
    using Cons.prems(3) n n1 by (simp add: word_le_nat_alt)
  have "cstr ?m (src + 1) s"
  proof (subst cstr_cong [where m' = m])
    fix a assume "unat (a - (src + 1)) \<le> length s"
    moreover have far: "Suc (Suc (length s)) \<le> unat (dst - src)"
      using Cons.prems(3) n1 by (simp add: word_le_nat_alt)
    then have "dst - src \<noteq> 0" by (metis not_less_eq_eq unat_0 zero_le)
    then have "unat (dst - (src + 1)) = unat (dst - src) - 1"
      by (simp add: diff_diff_eq [symmetric] unat_diff_1)
    ultimately show "?m a = m a" using far by auto
  qed (use Cons.prems in simp_all)
  then have "strcpy_loop ?m (dst + 1) (src + 1) (i + 1) =
      Some (memcpy ?m (dst + 1) (src + 1) (1 + ?n), i + 1 + ?n)"
    by (rule Cons.IH) (use Cons.prems(2) le in simp_all)
  moreover have "1 + (1 + ?n) \<noteq> 0" using n1 by (metis Zero_not_Suc unat_0)
  ultimately show ?case
    using Cons.prems(1)
    by (subst strcpy_loop.simps, subst memcpy.simps) (simp add: Let_def add.assoc)
qed

section \<open>Digits\<close>

text \<open>The digits of a number, least significant first, as \<^verbatim>\<open>uitoa\<close> produces them.\<close>

fun rdigits :: "nat \<Rightarrow> nat \<Rightarrow> nat list" where
  "rdigits r x = (if r < 2 \<or> x < r then [x mod r] else (x mod r) # rdigits r (x div r))"

declare rdigits.simps [simp del]

fun rvalue :: "nat \<Rightarrow> nat list \<Rightarrow> nat" where
  "rvalue r [] = 0"
| "rvalue r (d # ds) = d + r * rvalue r ds"

lemma rvalue_rdigits: "2 \<le> r \<Longrightarrow> rvalue r (rdigits r x) = x"
proof (induction r x rule: rdigits.induct)
  case (1 r x)
  then show ?case by (cases "x < r") (simp_all add: rdigits.simps [of r x])
qed

lemma rdigits_less: "2 \<le> r \<Longrightarrow> d \<in> set (rdigits r x) \<Longrightarrow> d < r"
proof (induction r x rule: rdigits.induct)
  case (1 r x)
  then show ?case by (cases "x < r") (auto simp: rdigits.simps [of r x])
qed

lemma rdigits_length: "2 \<le> r \<Longrightarrow> x < 2 ^ k \<Longrightarrow> length (rdigits r x) \<le> max 1 k"
proof (induction k arbitrary: x)
  case 0
  then show ?case by (simp add: rdigits.simps [of r 0])
next
  case (Suc k)
  show ?case
  proof (cases "x < r")
    case True
    then show ?thesis by (simp add: rdigits.simps [of r x])
  next
    case False
    have "x div r \<le> x div 2" using Suc.prems by (simp add: div_le_mono2)
    also have "\<dots> < 2 ^ k" using Suc.prems by auto
    finally have "length (rdigits r (x div r)) \<le> max 1 k" using Suc by simp
    moreover have "k \<noteq> 0" using False Suc.prems by (cases k) auto
    ultimately show ?thesis using False Suc.prems by (simp add: rdigits.simps [of r x])
  qed
qed

lemma uitoa_digits_eq:
  assumes "2 \<le> radix"
  shows "uitoa_digits m buf radix x i =
    Some (write_bytes m (buf + i) (map (udigit \<circ> of_nat) (rdigits (unat radix) (unat x))),
          i + of_nat (length (rdigits (unat radix) (unat x))))"
proof (induction "unat x" arbitrary: m x i rule: less_induct)
  case less
  have r: "radix \<noteq> 0" "2 \<le> unat radix" using assms by (auto simp: word_le_nat_alt)
  have mod: "of_nat (unat x mod unat radix) = x mod radix"
    by (simp flip: unat_mod_distrib)
  show ?case
  proof (cases "unat x < unat radix")
    case True
    then have "x div radix = 0" by (simp add: word_unat_eq_iff unat_div_distrib)
    then show ?thesis using True r mod
      by (subst uitoa_digits.simps)
         (simp add: Let_def rdigits.simps [of "unat radix" "unat x"] mod fun_upd_def)
  next
    case False
    then have "0 < unat x div unat radix" using r by (simp add: div_greater_zero_iff)
    then have "x div radix \<noteq> 0" by (auto simp: word_unat_eq_iff unat_div_distrib)
    moreover have "unat (x div radix) < unat x"
      using False r by (simp add: unat_div_distrib)
    ultimately show ?thesis using False r mod less [of "x div radix"]
      by (subst uitoa_digits.simps)
         (simp add: Let_def rdigits.simps [of "unat radix" "unat x"] unat_div_distrib add.assoc
           fun_upd_def)
  qed
qed

lemma swap_loop_apply:
  "s \<le> e \<Longrightarrow> swap_loop m s e a = (if s \<le> a \<and> a \<le> e then m (s + e - a) else m a)"
proof (induction m s e rule: swap_loop.induct)
  case (1 m s e)
  show ?case
  proof (cases "s < e")
    case True
    have "e \<noteq> 0" using True by auto
    with True have nats: "unat (s + 1) = Suc (unat s)" "unat (e - 1) = unat e - 1" "unat s < unat e"
      by (simp_all add: unat_Suc_less unat_diff_1 word_less_nat_alt)
    let ?m = "m(s := m e, e := m s)"
    have rec: "swap_loop m s e a = swap_loop ?m (s + 1) (e - 1) a"
      using True by (simp add: swap_loop.simps [of m s e])
    show ?thesis
    proof (cases "s + 1 \<le> e - 1")
      case le: True
      then have "swap_loop ?m (s + 1) (e - 1) a =
          (if s + 1 \<le> a \<and> a \<le> e - 1 then ?m (s + 1 + (e - 1) - a) else ?m a)"
        by (rule "1.IH" [OF True])
      moreover have "s + 1 \<le> a \<longleftrightarrow> s \<le> a \<and> a \<noteq> s" "a \<le> e - 1 \<longleftrightarrow> a \<le> e \<and> a \<noteq> e"
        using nats by (auto simp: word_le_nat_alt word_unat_eq_iff)
      moreover have "s + e - a \<noteq> s" "s + e - a \<noteq> e" if "a \<noteq> s" "a \<noteq> e"
        using that by (auto simp: algebra_simps)
      ultimately show ?thesis using rec True by auto
    next
      case False
      then have e: "e = s + 1" using nats by (auto simp: word_le_nat_alt word_unat_eq_iff)
      then have "swap_loop ?m (s + 1) (e - 1) = ?m"
        by (subst swap_loop.simps) (simp add: word_less_nat_alt nats(1))
      moreover have "s \<le> a \<and> a \<le> e \<longleftrightarrow> a = s \<or> a = e"
        using e nats by (auto simp: word_le_nat_alt word_unat_eq_iff)
      ultimately show ?thesis using rec e by auto
    qed
  next
    case False
    with "1.prems" have "s = e" by simp
    then show ?thesis by (auto simp: swap_loop.simps [of m e e])
  qed
qed

lemma unat_udigit:
  assumes "unat d < 36"
  shows "unat (udigit d) = (if unat d < 10 then unat d + 48 else unat d + 87)"
proof -
  have "unat (d + 48) = unat d + 48" and "unat (87 + d) = unat d + 87"
    using assms by (simp_all add: unat_word_ariths)
  moreover have "unat (ucast (x::u32) :: u8) = unat x" if "unat x < 256" for x
    using that by (simp add: unsigned_ucast_eq take_bit_nat_eq_self)
  moreover have "udigit d = (if unat d < 10 then ucast (d + 48) else ucast (87 + d))"
    by (simp add: udigit_def word_less_nat_alt)
  ultimately show ?thesis using assms by simp
qed

lemma udigit_nonzero: "d < 36 \<Longrightarrow> udigit (of_nat d) \<noteq> 0"
  using unat_udigit [of "of_nat d"] by (auto simp: unat_of_nat_u32 word_unat_eq_iff split: if_splits)

lemma unat_add_of_nat:
  "i < 2 ^ 32 \<Longrightarrow> unat (p :: u32) + i < 2 ^ 32 \<Longrightarrow> unat (p + of_nat i) = unat p + i"
  by (simp add: unat_word_ariths unat_of_nat_u32)

text \<open>Writing the digits and exchanging them end for end leaves the reversed string.\<close>

lemma reversed_block:
  fixes buf :: u32 and m :: mem
  assumes "ds \<noteq> []" and "unat buf + length ds < 2 ^ 32"
  defines "e \<equiv> buf + (of_nat (length ds) - 1)"
  defines "m' \<equiv> (swap_loop (write_bytes m buf ds) buf e)(buf + of_nat (length ds) := 0)"
  shows "i < length ds \<Longrightarrow> m' (buf + of_nat i) = rev ds ! i"
    and "length ds < unat (a - buf) \<Longrightarrow> m' a = m a"
proof -
  let ?n = "length ds" and ?w = "write_bytes m buf ds"
  have n: "?n < 2 ^ 32" using assms(2) by simp
  have e_alt: "e = buf + of_nat (?n - 1)" using assms(1) by (cases ds) (simp_all add: e_def)
  have e: "unat e = unat buf + (?n - 1)"
    using assms(2) n unfolding e_alt by (intro unat_add_of_nat) simp_all
  have le: "buf \<le> e" using e by (simp add: word_le_nat_alt)
  show "m' (buf + of_nat i) = rev ds ! i" if "i < ?n"
  proof -
    have bi: "unat (buf + of_nat i) = unat buf + i" "unat (buf + of_nat ?n) = unat buf + ?n"
      using assms(2) that n by (simp_all add: unat_add_of_nat)
    then have "buf + of_nat i \<noteq> buf + of_nat ?n" using that by (metis add_left_cancel less_irrefl)
    moreover have "buf \<le> buf + of_nat i \<and> buf + of_nat i \<le> e"
      using bi e that by (simp add: word_le_nat_alt)
    ultimately have "m' (buf + of_nat i) = ?w (buf + e - (buf + of_nat i))"
      using swap_loop_apply [OF le, of ?w "buf + of_nat i"] by (simp add: m'_def)
    also have "buf + e - (buf + of_nat i) = buf + of_nat (?n - 1 - i)"
      using that by (simp add: e_alt of_nat_diff)
    also have "?w (buf + of_nat (?n - 1 - i)) = ds ! (?n - 1 - i)"
    proof -
      have "unat (buf + of_nat (?n - 1 - i) - buf) = ?n - 1 - i"
        using n unat_of_nat_u32 [of "?n - 1 - i"] by simp
      moreover have "?n - 1 - i < ?n" using that by linarith
      ultimately show ?thesis using n by (simp only: write_bytes_apply less_imp_le if_True)
    qed
    finally show ?thesis using that by (simp add: rev_nth)
  qed
  show "m' a = m a" if "?n < unat (a - buf)"
  proof -
    have "\<not> (buf \<le> a \<and> a \<le> e)"
    proof
      assume h: "buf \<le> a \<and> a \<le> e"
      then have "unat (a - buf) = unat a - unat buf" by (simp add: unat_sub)
      with h that e show False by (auto simp: word_le_nat_alt)
    qed
    moreover have "a \<noteq> buf + of_nat ?n" using that n by (auto simp: unat_of_nat_u32)
    ultimately show ?thesis
      using swap_loop_apply [OF le, of ?w a] that n by (auto simp: m'_def write_bytes_apply)
  qed
qed

lemma uitoa_eq:
  fixes val :: u32
  assumes "2 \<le> radix" and "radix \<le> 36" and "unat buf + 33 < 2 ^ 32"
  defines "ds \<equiv> map (udigit \<circ> of_nat) (rdigits (unat radix) (unat val))"
  shows "\<exists>m'. uitoa m val buf radix = Some m' \<and> cstr m' buf (rev ds) \<and> length ds \<le> 32 \<and>
    (\<forall>a. 32 < unat (a - buf) \<longrightarrow> m' a = m a)"
proof -
  let ?n = "length ds"
  have r: "2 \<le> unat radix" "unat radix \<le> 36" using assms by (simp_all add: word_le_nat_alt)
  have n32: "?n \<le> 32"
    using rdigits_length [OF r(1), of "unat val" 32] unat_u32_le [of val] by (simp add: ds_def)
  have n0: "ds \<noteq> []" by (simp add: ds_def rdigits.simps [of "unat radix" "unat val"])
  let ?m = "(swap_loop (write_bytes m buf ds) buf (buf + (of_nat ?n - 1)))(buf + of_nat ?n := 0)"
  have eq: "uitoa m val buf radix = Some ?m"
    using uitoa_digits_eq [OF assms(1), of m buf val 0] by (simp add: uitoa_def ds_def comp_def)
  have bound: "unat buf + ?n < 2 ^ 32" using assms(3) n32 by simp
  have "0 \<notin> set ds"
    using rdigits_less [OF r(1)] r(2) udigit_nonzero by (fastforce simp: ds_def)
  then have "cstr ?m buf (rev ds)"
    using reversed_block(1) [OF n0 bound, of _ m] by (simp add: cstr_nth)
  moreover have "?m a = m a" if "32 < unat (a - buf)" for a
    using that n32 by (intro reversed_block(2) [OF n0 bound]) simp
  ultimately show ?thesis using eq n32 by blast
qed

section \<open>Properties\<close>

text \<open>The value of a digit character, the inverse of the digits \<^verbatim>\<open>uitoa\<close> writes.\<close>

definition digit_val :: "u8 \<Rightarrow> nat" where
  "digit_val c = (if c < 97 then unat c - 48 else unat c - 87)"

definition parse_num :: "nat \<Rightarrow> u8 list \<Rightarrow> nat" where
  "parse_num r s = rvalue r (map digit_val (rev s))"

lemma digit_val_udigit: "d < 36 \<Longrightarrow> digit_val (udigit (of_nat d)) = d"
  using unat_udigit [of "of_nat d"]
  by (simp add: digit_val_def unat_of_nat_u32 word_less_nat_alt split: if_splits)

lemma less_div: "2 \<le> (r::u32) \<Longrightarrow> x div r \<noteq> 0 \<Longrightarrow> unat (x div r) < unat x"
  by (simp add: word_le_nat_alt unat_div_distrib word_unat_eq_iff div_greater_zero_iff)

lemma signed_division_nonneg:
  fixes x r :: int
  assumes "0 \<le> x" and "0 < r"
  shows "x sdiv r = x div r" and "x smod r = x mod r"
  using assms by (cases "x = 0"; simp add: signed_divide_int_eq_divide_int signed_modulo_int_eq_modulo_int)+

lemma idigit_udigit: 
  fixes d :: u32 assumes "unat d < 36" shows "idigit (uint d) = udigit d"
proof -
  have "idigit (int n) = of_nat (if n < 10 then n + 48 else n + 87)" for n
    by (simp add: idigit_def)
  from this [of "unat d"] have "unat (idigit (uint d)) = unat (udigit d)"
    using assms by (simp add: unat_udigit [OF assms] unat_of_nat take_bit_nat_eq_self del: of_nat_add)
  then show ?thesis by (rule unsigned_word_eqI)
qed

lemma itoa_digits_nonneg:
  assumes "2 \<le> radix" and "radix \<le> 36"
  shows "itoa_digits m buf (uint radix) (uint x) i = uitoa_digits m buf radix x i"
proof (induction "unat x" arbitrary: m x i rule: less_induct)
  case less
  have r: "radix \<noteq> 0" "2 \<le> uint radix" using assms by (auto simp: word_le_def)
  then have eqs: "uint x smod uint radix = uint (x mod radix)" "uint x sdiv uint radix = uint (x div radix)"
    by (simp_all add: signed_division_nonneg uint_div_distrib uint_mod_distrib)
  have "unat (x mod radix) < 36"
    using r(1) assms(2) by (simp add: unat_mod_distrib word_le_nat_alt less_le_trans [OF mod_less_divisor] unat_gt_0)
  then have d: "idigit (uint (x mod radix)) = udigit (x mod radix)" by (rule idigit_udigit)
  show ?case 
  proof (cases "x div radix = 0")
    case True then show ?thesis using r d by (subst itoa_digits.simps, subst uitoa_digits.simps) (simp add: eqs Let_def)
  next
    case False
    have "uint (x div radix) \<noteq> 0" using False by (metis uint_0_iff)
    moreover have "itoa_digits m' buf (uint radix) (uint (x div radix)) i' = uitoa_digits m' buf radix (x div radix) i'" for m' i'
      by (rule less) (rule less_div [OF assms(1) False])
    ultimately show ?thesis using r d False by (subst itoa_digits.simps, subst uitoa_digits.simps) (simp add: eqs Let_def)
  qed
qed

lemma strcpy_cstr:
  assumes "cstr m src s" and "length s < 2 ^ 32 - 1" and "1 + of_nat (length s) \<le> dst - src"
  shows "strcpy m dst src = Some (memcpy m dst src (1 + of_nat (length s)), of_nat (length s))"
  using strcpy_loop_cstr [OF assms] by (simp add: strcpy_def)

text \<open>C21: for every radix from 2 to 36, \<^verbatim>\<open>uitoa\<close> returns, leaves a zero-terminated string of
  at most 32 characters at the buffer whose value in that radix is the number printed (so the
  number can be read back from the text), and changes no byte outside the 33 bytes of the
  buffer.\<close>

theorem uitoa_roundtrip:
  assumes "2 \<le> radix" and "radix \<le> 36" and "unat buf + 33 < 2 ^ 32"
  shows "\<exists>m' s. uitoa m val buf radix = Some m' \<and> cstr m' buf s \<and>
    parse_num (unat radix) s = unat val \<and> length s \<le> 32 \<and>
    (\<forall>a. 32 < unat (a - buf) \<longrightarrow> m' a = m a)"
proof -
  have r: "2 \<le> unat radix" "unat radix \<le> 36" using assms by (simp_all add: word_le_nat_alt)
  let ?ds = "rdigits (unat radix) (unat val)"
  have small: "d < 36" if "d \<in> set ?ds" for d
    using rdigits_less [OF r(1) that] r(2) by simp
  have "map digit_val (map (udigit \<circ> of_nat) ?ds) = ?ds"
    using small by (auto intro!: map_idI digit_val_udigit)
  then have "parse_num (unat radix) (rev (map (udigit \<circ> of_nat) ?ds)) = unat val"
    using rvalue_rdigits [OF r(1)] by (simp add: parse_num_def)
  with uitoa_eq [OF assms, of m val] show ?thesis by (metis length_rev)
qed

theorem uitoa_roundtrip_witness:
  "\<exists>m' s. uitoa (\<lambda>_. 0) 255 4096 16 = Some m' \<and> cstr m' 4096 s \<and>
    parse_num 16 s = 255 \<and> length s \<le> 32 \<and> (\<forall>a. 32 < unat (a - 4096) \<longrightarrow> m' a = 0)"
  using uitoa_roundtrip [of 16 4096 "\<lambda>_. 0" 255] by simp

text \<open>on zero-terminated strings, \<^verbatim>\<open>strstr\<close> returns and finds the first occurrence: for a
  non-empty pattern the result is the address of the first position of the text at which
  the pattern starts, and the null pointer if there is none; for the empty pattern it is the
  text itself.\<close>

theorem strstr_first_occurrence:
  assumes "cstr m inp s" and "cstr m str t" and "length t < 2 ^ 32"
  shows "(t = [] \<and> strstr m inp str = Some inp) \<or>
    (\<exists>k < length s. strstr m inp str = Some (inp + of_nat k) \<and>
       take (length t) (drop k s) = t \<and> (\<forall>j<k. take (length t) (drop j s) \<noteq> t)) \<or>
    (strstr m inp str = Some 0 \<and> (\<forall>j. take (length t) (drop j s) \<noteq> t))"
proof (cases t)
  case Nil
  with assms(2) show ?thesis by (simp add: strstr_def)
next
  case (Cons c t')
  with assms have "strstr m inp str =
      Some (case find_sub t s of None \<Rightarrow> 0 | Some k \<Rightarrow> inp + of_nat k)"
    using strlen_cstr [of m "str + 1" t'] strstr_loop_cstr [of m "str + 1" t' c inp s]
    by (simp add: strstr_def)
  then show ?thesis
    using find_sub_Some [of t s] find_sub_None [of t s] Cons
    by (cases "find_sub t s") auto
qed

theorem strstr_first_occurrence_witness:
  "strstr ((\<lambda>_. 0)(16 := 97, 17 := 98, 18 := 98, 32 := 98, 33 := 98)) 16 32 = Some 17"
proof -
  let ?m = "(\<lambda>_. 0)(16 := 97, 17 := 98, 18 := 98, 32 := 98, 33 := 98) :: mem"
  have s: "cstr ?m 16 [97, 98, 98]" and t: "cstr ?m 32 [98, 98]" by simp_all
  have "\<exists>j. take (length [98, 98 :: u8]) (drop j [97, 98, 98]) = [98, 98 :: u8]" by (rule exI [of _ 1]) simp
  moreover have "k = 1" if "k < length [97, 98, 98 :: u8]" "take (length [98, 98 :: u8]) (drop k [97, 98, 98]) = [98, 98 :: u8]" for k
    using that by (auto simp: less_Suc_eq)
  ultimately show ?thesis using strstr_first_occurrence [OF s t] by fastforce
qed

text \<open>on non-negative numbers \<^verbatim>\<open>itoa\<close> and \<^verbatim>\<open>uitoa\<close> are the same routine: they leave the same
  memory behind, for every radix from 2 to 36.\<close>

theorem itoa_nonneg_eq_uitoa:
  assumes "0 \<le> sint val" and "2 \<le> radix" and "radix \<le> 36"
  shows "itoa m val buf radix = uitoa m val buf radix"
proof -
  have "sint val = uint val" using assms(1) by (simp add: sint_eq_uint_if_nonneg)
  moreover have "sint radix = uint radix" using assms(3) by (simp add: sint_eq_uint_if_small)
  ultimately show ?thesis
    using assms(1) itoa_digits_nonneg [OF assms(2,3), of m buf val 0]
    by (simp add: itoa_def uitoa_def Let_def split: option.split)
qed

theorem itoa_nonneg_eq_uitoa_witness:
  "itoa (\<lambda>_. 0) 1234 4096 10 = uitoa (\<lambda>_. 0) 1234 4096 10"
  using itoa_nonneg_eq_uitoa [of 1234 10 "\<lambda>_. 0" 4096] by simp

text \<open>a negative number of one digit is printed in decimal as a minus sign followed by the
  character 48 + val, which is below the digit 0: \<^verbatim>\<open>itoa\<close> takes the remainder of the negative
  number without negating it first, so \<^verbatim>\<open>printf("%d", -5)\<close> shows \<^verbatim>\<open>-+\<close>.\<close>

theorem itoa_negative_digit:
  assumes "-10 < sint val" and "sint val < 0"
  shows "itoa m val buf 10 = Some (m(buf := 45, buf + 1 := word_of_int (sint val + 48), buf + 2 := 0))"
proof -
  have "sint val smod 10 = sint val" "sint val sdiv 10 = 0" using assms
    by (auto simp: signed_modulo_int_def signed_divide_int_def div_pos_pos_trivial)
  then show ?thesis using assms
    by (simp add: itoa_def itoa_digits.simps idigit_def Let_def swap_loop.simps)
qed

theorem itoa_negative_digit_witness:
  "itoa (\<lambda>_. 0) (- 5) 4096 10 = Some ((\<lambda>_. 0)(4096 := 45, 4097 := 43, 4098 := 0))"
  using itoa_negative_digit [of "- 5" "\<lambda>_. 0" 4096] by simp

text \<open>\<^verbatim>\<open>memmove\<close> copies the source interval to the destination and touches nothing else
  whenever the destination does not start inside the source behind its first byte, in
  particular for a destination below the source.\<close>

theorem memmove_copies:
  assumes "len \<le> dst - src"
  shows "memmove m dst src len a = (if a - dst < len then m (src + (a - dst)) else m a)"
  using memcpy_apply [OF assms] by (simp add: memmove_eq_memcpy)

theorem memmove_copies_witness:
  "memmove (\<lambda>a. ucast a) 16 18 4 17 = 19"
  using memmove_copies [of 4 16 18 "\<lambda>a. ucast a" 17] by simp

text \<open>when the destination does start inside the source, \<^verbatim>\<open>memmove\<close> overwrites bytes before
  it has read them: moving two bytes up by one writes the first byte twice.\<close>

theorem memmove_overlap_loses:
  "memmove m (p + 1) p 2 = m(p + 1 := m p, p + 2 := m p)"
  by (simp add: memmove_eq_memcpy memcpy.simps fun_upd_def algebra_simps fun_eq_iff)

text \<open>copying a zero-terminated string with \<^verbatim>\<open>strcpy\<close> to a place that does not overlap it
  returns its length, leaves the string at the destination and nothing else changed.\<close>

theorem strcpy_copies:
  assumes "cstr m src s" and "length s < 2 ^ 32 - 1" and "1 + of_nat (length s) \<le> dst - src"
  shows "\<exists>m'. strcpy m dst src = Some (m', of_nat (length s)) \<and> cstr m' dst s \<and>
    (\<forall>a. \<not> a - dst < 1 + of_nat (length s) \<longrightarrow> m' a = m a)"
proof -
  let ?m = "memcpy m dst src (1 + of_nat (length s))"
  have "?m (dst + of_nat i) = m (src + of_nat i)" if "i \<le> length s" for i
  proof -
    have "unat (of_nat i :: u32) < unat (1 + of_nat (length s) :: u32)"
      using that assms(2) unat_of_nat_u32 [of "Suc (length s)"] by (simp add: unat_of_nat_u32)
    then show ?thesis using memcpy_apply [OF assms(3)] by (simp add: word_less_nat_alt)
  qed
  then have "cstr ?m dst s" using assms(1) by (simp add: cstr_nth)
  then show ?thesis
    using strcpy_cstr [OF assms] memcpy_apply [OF assms(3), of m] by auto
qed

theorem strcpy_copies_witness:
  "\<exists>m'. strcpy ((\<lambda>_. 0)(16 := 97, 17 := 98)) 64 16 = Some (m', 2) \<and> cstr m' 64 [97, 98]"
  using strcpy_copies [of "(\<lambda>_. 0)(16 := 97, 17 := 98)" 16 "[97, 98]" 64] by auto

end
