(* ===== verification/Console.thy ===== *)
theory Console
  imports Kstring
begin

text \<open>
  The text screen: \<^verbatim>\<open>src/src/kernel/drivers/framebuffer.c\<close> and, on top of it, \<^verbatim>\<open>printf\<close> of
  \<^verbatim>\<open>src/src/lib/string.c\<close>. The screen is memory (80 by 25 cells of two bytes at
  \<^verbatim>\<open>framebuffer_addr\<close>) and the hardware cursor is two registers behind the ports 0x3D4 and
  0x3D5. Position, colours and the address of the buffer are the file's static variables.
\<close>

section \<open>State and constants\<close>

record console = machine +
  fb_pos_x :: u32
  fb_pos_y :: u32
  current_fg :: u8
  current_bg :: u8
  framebuffer_addr :: u32

abbreviation (input) FB_WIDTH :: u32 where "FB_WIDTH \<equiv> 80"
abbreviation (input) FB_HEIGHT :: u32 where "FB_HEIGHT \<equiv> 25"
abbreviation (input) FB_COMMAND_PORT :: u16 where "FB_COMMAND_PORT \<equiv> 0x3D4"
abbreviation (input) FB_DATA_PORT :: u16 where "FB_DATA_PORT \<equiv> 0x3D5"
abbreviation (input) FB_HIGH_BYTE_COMMAND :: u8 where "FB_HIGH_BYTE_COMMAND \<equiv> 14"
abbreviation (input) FB_LOW_BYTE_COMMAND :: u8 where "FB_LOW_BYTE_COMMAND \<equiv> 15"
abbreviation (input) FB_BLACK :: u8 where "FB_BLACK \<equiv> 0"
abbreviation (input) FB_WHITE :: u8 where "FB_WHITE \<equiv> 15"

section \<open>The frame buffer\<close>

definition fb_set_buffer :: "u32 \<Rightarrow> 's console_scheme \<Rightarrow> 's console_scheme" where
  "fb_set_buffer addr s = s\<lparr>framebuffer_addr := addr\<rparr>"

definition fb_set_color :: "u8 \<Rightarrow> u8 \<Rightarrow> 's console_scheme \<Rightarrow> 's console_scheme" where
  "fb_set_color fg bg s = s\<lparr>current_fg := fg, current_bg := bg\<rparr>"

definition fb_reset_color :: "'s console_scheme \<Rightarrow> 's console_scheme" where
  "fb_reset_color s = s\<lparr>current_fg := FB_WHITE, current_bg := FB_BLACK\<rparr>"

definition fb_get_text_attr :: "u8 \<Rightarrow> u8 \<Rightarrow> u8" where
  "fb_get_text_attr foreground background = push_bit 4 background OR (foreground AND 0x0F)"

definition fb_get_text_value :: "u8 \<Rightarrow> u8 \<Rightarrow> u8 \<Rightarrow> u16" where
  "fb_get_text_value c foreground background =
     ucast c OR push_bit 8 (ucast (fb_get_text_attr foreground background))"

text \<open>The index is an \<^verbatim>\<open>int16_t\<close>: the address is computed from its signed value.\<close>

definition fb_write_cell :: "u16 \<Rightarrow> u8 \<Rightarrow> 's console_scheme \<Rightarrow> 's console_scheme" where
  "fb_write_cell i c s =
     (let fb = framebuffer_addr s; k = scast i * 2 :: u32
      in s\<lparr>mem := (mem s)(fb + k := c,
             fb + (k + 1) := push_bit 4 (current_bg s AND 0x0f) OR (current_fg s AND 0x0f))\<rparr>)"

definition fb_move_cursor :: "u16 \<Rightarrow> 's console_scheme \<Rightarrow> 's console_scheme" where
  "fb_move_cursor pos s =
     s\<lparr>iolog :=
        outb FB_DATA_PORT (ucast (pos AND 0x00FF))
         (outb FB_COMMAND_PORT FB_LOW_BYTE_COMMAND
           (outb FB_DATA_PORT (ucast (drop_bit 8 pos AND 0x00FF))
             (outb FB_COMMAND_PORT FB_HIGH_BYTE_COMMAND (iolog s))))\<rparr>"

definition fb_pos :: "'s console_scheme \<Rightarrow> u16" where
  "fb_pos s = ucast (fb_pos_x s + fb_pos_y s * FB_WIDTH)"

definition fb_update_cursor :: "'s console_scheme \<Rightarrow> 's console_scheme" where
  "fb_update_cursor s = fb_move_cursor (fb_pos s) s"

text \<open>\<^verbatim>\<open>fb_write_char\<close>: the three branches, then the wrap at the end of the line.\<close>

definition fb_put :: "u8 \<Rightarrow> 's console_scheme \<Rightarrow> 's console_scheme" where
  "fb_put c s =
     (if c = 10 \<or> c = 13
      then (let s1 = s\<lparr>fb_pos_y := fb_pos_y s + 1, fb_pos_x := 0\<rparr> in fb_move_cursor (fb_pos s1) s1)
      else if c = 9
      then (let s1 = s\<lparr>fb_pos_x := fb_pos_x s + 4\<rparr> in fb_move_cursor (fb_pos s1) s1)
      else (let pos = fb_pos s;
                s2 = fb_move_cursor (pos + 1) (fb_write_cell pos c s)
            in s2\<lparr>fb_pos_x := fb_pos_x s2 + 1\<rparr>))"

definition fb_write_char :: "u8 \<Rightarrow> 's console_scheme \<Rightarrow> 's console_scheme" where
  "fb_write_char c s =
     (let s1 = fb_put c s
      in if fb_pos_x s1 = FB_WIDTH then s1\<lparr>fb_pos_y := fb_pos_y s1 + 1, fb_pos_x := 0\<rparr> else s1)"

function fb_write_loop :: "u32 \<Rightarrow> u32 \<Rightarrow> u32 \<Rightarrow> 's console_scheme \<Rightarrow> 's console_scheme" where
  "fb_write_loop buf len i s =
     (if i < len then fb_write_loop buf len (i + 1) (fb_write_char (mem s (buf + i)) s) else s)"
  by pat_completeness auto
termination
  by (relation "measure (\<lambda>(b, n, i, s). unat (n - i))") (auto simp: word_less_imp_unat_diff_Suc)

declare fb_write_loop.simps [simp del]

definition fb_write :: "u32 \<Rightarrow> u32 \<Rightarrow> 's console_scheme \<Rightarrow> 's console_scheme" where
  "fb_write buf len s = fb_write_loop buf len 0 s"

partial_function (option) fb_write_str :: "u32 \<Rightarrow> 's console_scheme \<Rightarrow> 's console_scheme option" where
  "fb_write_str buf s =
     (if mem s buf \<noteq> 0 then fb_write_str (buf + 1) (fb_write_char (mem s buf) s) else Some s)"

fun fb_clear_loop :: "nat \<Rightarrow> 's console_scheme \<Rightarrow> 's console_scheme" where
  "fb_clear_loop 0 s = s"
| "fb_clear_loop (Suc n) s = fb_clear_loop n (fb_write_cell (of_nat (2000 - Suc n)) 32 s)"

definition fb_clear :: "'s console_scheme \<Rightarrow> 's console_scheme" where
  "fb_clear s = fb_clear_loop 2000 (s\<lparr>fb_pos_x := 0, fb_pos_y := 0\<rparr>)"

definition scroll :: "'s console_scheme \<Rightarrow> 's console_scheme" where
  "scroll s =
     (let fb = framebuffer_addr s;
          start = fb + 1 * FB_WIDTH * 2;
          size = fb_pos_y s * FB_WIDTH * 2
      in if fb_pos_y s < FB_HEIGHT then s
         else let m1 = memcpy (mem s) fb start size;
                  m2 = memsetw m1 (fb + size) (fb_get_text_value 32 FB_WHITE FB_BLACK) FB_WIDTH
              in s\<lparr>mem := m2, fb_pos_y := fb_pos_y s - 1\<rparr>)"

section \<open>printf\<close>

text \<open>
  Every format in the kernel is a literal, so the format is given by its characters; the
  variable arguments are the 32-bit words that follow it on the stack. The numbers are
  printed into the local array \<^verbatim>\<open>buf\<close>, which is a memory of its own; a \<^verbatim>\<open>%s\<close> argument points
  into the machine's memory. Reading past the end of the format or of the arguments is
  \<open>OutOfBounds\<close>.
\<close>

definition lit :: "string \<Rightarrow> u8 list" where
  "lit = map of_char"

definition put_bytes :: "u8 list \<Rightarrow> 's console_scheme \<Rightarrow> 's console_scheme" where
  "put_bytes bs s = fold fb_write_char bs s"

text \<open>The characters after the percent sign: the two padding options and the conversion.\<close>

fun printf_pad :: "bool \<Rightarrow> u8 list \<Rightarrow> (bool \<times> nat \<times> u8 \<times> u8 list) option" where
  "printf_pad pad0 [] = None"
| "printf_pad pad0 (c # fmt) =
     (if 48 \<le> c \<and> c \<le> 57
      then (case fmt of [] \<Rightarrow> None | c' # fmt' \<Rightarrow> Some (pad0, unat c - 48, c', fmt'))
      else Some (pad0, 0, c, fmt))"

fun printf_spec :: "u8 list \<Rightarrow> (bool \<times> nat \<times> u8 \<times> u8 list) option" where
  "printf_spec [] = None"
| "printf_spec (c # fmt) = (if c = 48 then printf_pad True fmt else printf_pad False (c # fmt))"

lemma printf_pad_length: "printf_pad b fmt = Some (z, p, c, rest) \<Longrightarrow> length rest < length fmt"
  by (cases fmt) (auto split: if_splits list.splits)

lemma printf_spec_length: "printf_spec fmt = Some (z, p, c, rest) \<Longrightarrow> length rest < length fmt"
  by (cases fmt) (auto simp del: printf_pad.simps split: if_splits dest: printf_pad_length)

text \<open>The label \<^verbatim>\<open>string\<close>, for text in a local array or a literal, and for text in memory.\<close>

definition pad_char :: "bool \<Rightarrow> u8" where
  "pad_char pad0 = (if pad0 then 48 else 32)"

definition put_text :: "bool \<Rightarrow> nat \<Rightarrow> u8 list \<Rightarrow> 's console_scheme \<Rightarrow> 's console_scheme" where
  "put_text pad0 pad txt s =
     put_bytes txt (put_bytes (replicate (pad - length txt) (pad_char pad0)) s)"

definition put_pointer :: "bool \<Rightarrow> nat \<Rightarrow> u32 \<Rightarrow> 's console_scheme \<Rightarrow> 's console_scheme option" where
  "put_pointer pad0 pad p s =
     (case strlen (mem s) p of None \<Rightarrow> None
      | Some n \<Rightarrow>
          (let p2 = p + n; e = p + of_nat pad;
               k = (if p2 < e then unat (e - p2) else 0)
           in fb_write_str p (put_bytes (replicate k (pad_char pad0)) s)))"

text \<open>The text that a number conversion leaves in the local array.\<close>

partial_function (option) cstr_at :: "mem \<Rightarrow> u32 \<Rightarrow> u8 list option" where
  "cstr_at m p = (if m p = 0 then Some [] else Option.bind (cstr_at m (p + 1)) (\<lambda>s. Some (m p # s)))"

definition num_text :: "u8 \<Rightarrow> u32 \<Rightarrow> u8 list option" where
  "num_text c v =
     (case (if c = 120 then uitoa (\<lambda>_. 0) v 0 16 else itoa (\<lambda>_. 0) v 0 10) of
        None \<Rightarrow> None | Some m \<Rightarrow> cstr_at m 0)"

definition printf_conv :: "bool \<Rightarrow> nat \<Rightarrow> u8 \<Rightarrow> u32 \<Rightarrow> 's console_scheme \<Rightarrow> 's console_scheme option" where
  "printf_conv pad0 pad c v s =
     (if c = 100 \<or> c = 105 \<or> c = 117 \<or> c = 120
      then (case num_text c v of None \<Rightarrow> None | Some txt \<Rightarrow> Some (put_text pad0 pad txt s))
      else if c = 115
      then (if v = 0 then Some (put_text pad0 pad (lit ''(null)'') s) else put_pointer pad0 pad v s)
      else Some (fb_write_char (ucast v) s))"

function printf_loop :: "u8 list \<Rightarrow> u32 list \<Rightarrow> 's console_scheme \<Rightarrow> 's console_scheme res" where
  "printf_loop [] args s = Inr s"
| "printf_loop (c # fmt) args s =
     (if c \<noteq> 37 then printf_loop fmt args (fb_write_char c s)
      else (case printf_spec fmt of None \<Rightarrow> Inl OutOfBounds
            | Some (pad0, pad, c', rest) \<Rightarrow>
                (case args of [] \<Rightarrow> Inl OutOfBounds
                 | v # args' \<Rightarrow>
                     bindE (returns (printf_conv pad0 pad c' v s)) (printf_loop rest args'))))"
  by pat_completeness auto
termination
  by (relation "measure (\<lambda>(fmt, args, s). length fmt)") (auto dest: printf_spec_length)

definition printf :: "u8 list \<Rightarrow> u32 list \<Rightarrow> 's console_scheme \<Rightarrow> 's console_scheme res" where
  "printf format args s = printf_loop format args (scroll s)"

section \<open>What the console touches\<close>

text \<open>
  A cell index is an \<^verbatim>\<open>int16_t\<close>, so a cell lies at most 64 KB before or after the start of the
  buffer: \<open>in_window\<close> is that range of addresses. \<open>con_frame s s'\<close> says that going from \<open>s\<close> to
  \<open>s'\<close> only the position, the port log and the memory of the window have changed.
\<close>

lemma scast_window: "(scast (i :: u16) * 2 + 0x10000 :: u32) < 0x1FFFF"
proof -
  have b: "- 32768 \<le> sint i" "sint i < 32768" using sint_ge [of i] sint_lt [of i] by simp_all
  have "scast i * 2 + 0x10000 = (word_of_int (sint i * 2 + 65536) :: u32)" by simp
  moreover have "uint (word_of_int (sint i * 2 + 65536) :: u32) = sint i * 2 + 65536"
    using b by (intro uint_word_of_int_u32) simp_all
  ultimately show ?thesis using b by (simp only: word_less_def) simp
qed

definition in_window :: "u32 \<Rightarrow> u32 \<Rightarrow> bool" where
  "in_window fb a \<longleftrightarrow> a - (fb - 0x10000) < 0x20000"

definition con_frame :: "'s console_scheme \<Rightarrow> 's console_scheme \<Rightarrow> bool" where
  "con_frame s s' \<longleftrightarrow>
     (\<exists>m l x y. s' = s\<lparr>mem := m, iolog := l, fb_pos_x := x, fb_pos_y := y\<rparr> \<and>
        (\<forall>a. \<not> in_window (framebuffer_addr s) a \<longrightarrow> m a = mem s a))"

lemma con_frame_refl: "con_frame s s"
  unfolding con_frame_def
  by (rule exI [of _ "mem s"], rule exI [of _ "iolog s"], rule exI [of _ "fb_pos_x s"], rule exI [of _ "fb_pos_y s"]) simp

lemma con_frame_trans: "con_frame s t \<Longrightarrow> con_frame t u \<Longrightarrow> con_frame s u"
  unfolding con_frame_def by (elim exE conjE) force

lemma con_frame_console:
  fixes s :: "'s console_scheme"
  shows "(\<And>a. \<not> in_window (framebuffer_addr s) a \<Longrightarrow> m a = mem s a) \<Longrightarrow> con_frame s (s\<lparr>mem := m\<rparr>)"
    and "con_frame s (s\<lparr>iolog := l\<rparr>)" 
    and "con_frame s (s\<lparr>fb_pos_x := x\<rparr>)" and "con_frame s (s\<lparr>fb_pos_y := y\<rparr>)"
  unfolding con_frame_def
  by (cases s; force)+

lemma con_frame_write_cell: "con_frame s (fb_write_cell i c s)"
proof -
  let ?fb = "framebuffer_addr s" and ?k = "scast i * 2 :: u32"
  have "?fb + ?k - (?fb - 0x10000) = ?k + 0x10000" "?fb + (?k + 1) - (?fb - 0x10000) = ?k + 0x10000 + 1"
    by (simp_all add: algebra_simps)
  moreover have "?k + 0x10000 + 1 \<le> 0x1FFFF" using scast_window by (rule inc_le)
  then have "?k + 0x10000 + 1 < 0x20000" by (rule le_less_trans) simp
  moreover have "?k + 0x10000 < 0x20000" using scast_window [of i] by (rule less_trans) simp
  ultimately have "in_window ?fb (?fb + ?k)" "in_window ?fb (?fb + (?k + 1))"
    by (simp_all only: in_window_def)
  then show ?thesis
    unfolding fb_write_cell_def Let_def by (intro con_frame_console(1)) auto
qed

lemma con_frame_move_cursor: "con_frame s (fb_move_cursor p s)"
  unfolding fb_move_cursor_def by (rule con_frame_console(2))

lemma con_frame_steps:
  "con_frame s t \<Longrightarrow> con_frame s (t\<lparr>fb_pos_x := x\<rparr>)"
  "con_frame s t \<Longrightarrow> con_frame s (t\<lparr>fb_pos_y := y\<rparr>)"
  "con_frame s t \<Longrightarrow> con_frame s (fb_move_cursor p t)"
  "con_frame s t \<Longrightarrow> con_frame s (fb_write_cell i c t)"
  using con_frame_console(3,4) con_frame_move_cursor con_frame_write_cell con_frame_trans by metis+

lemma con_frame_put: "con_frame s (fb_put c s)"
  by (simp add: fb_put_def Let_def con_frame_steps con_frame_refl)

lemma con_frame_write_char: "con_frame s (fb_write_char c s)"
  by (simp add: fb_write_char_def Let_def con_frame_steps con_frame_put)

lemma con_frame_put_bytes: "con_frame s (put_bytes bs s)"
proof (induction bs arbitrary: s)
  case Nil
  then show ?case by (simp add: put_bytes_def con_frame_refl)
next
  case (Cons b bs)
  have "con_frame (fb_write_char b s) (put_bytes bs (fb_write_char b s))" by (rule Cons.IH)
  then show ?case using con_frame_trans [OF con_frame_write_char] by (simp add: put_bytes_def)
qed

lemma con_frame_put_text: "con_frame s (put_text z p txt s)"
  unfolding put_text_def by (rule con_frame_trans [OF con_frame_put_bytes con_frame_put_bytes])

section \<open>Scrolling in closed form\<close>

lemma unat_scroll_size:
  assumes "unat (y :: u32) \<le> 400"
  shows "unat (y * 80 * 2) = unat y * 160"
  using assms by (simp add: unat_word_ariths)

lemma scroll_mem:
  fixes s :: "'s console_scheme"
  assumes "25 \<le> unat (fb_pos_y s)" and "unat (fb_pos_y s) \<le> 400"
  shows "mem (scroll s) a =
    (let d = unat (a - framebuffer_addr s); n = unat (fb_pos_y s) * 160
     in if d < n then mem s (a + 160)
        else if d < n + 160 then (if even d then 32 else 15)
        else mem s a)"
proof -
  let ?fb = "framebuffer_addr s" and ?size = "fb_pos_y s * 80 * 2"
  note size = unat_scroll_size [OF assms(2)]
  have "unat (?fb - (?fb + 160)) = 4294967136" by simp
  then have le: "?size \<le> ?fb - (?fb + 160)"
    using size assms by (simp add: word_le_nat_alt del: diff_add_cancel)
  have sub: "unat (a - (?fb + ?size)) = unat (a - ?fb) - unat (fb_pos_y s) * 160"
    if "unat (fb_pos_y s) * 160 \<le> unat (a - ?fb)"
    using that unat_diff_add(1) [of ?size a ?fb] size by simp
  have sub2: "320 \<le> unat (a - (?fb + ?size))"
    if "\<not> unat (fb_pos_y s) * 160 \<le> unat (a - ?fb)"
    using that unat_diff_add(2) [of a ?fb ?size] size assms by simp
  have blank: "ucast (fb_get_text_value 32 15 0) = (32 :: u8)" "ucast (drop_bit 8 (fb_get_text_value 32 15 0)) = (15 :: u8)"
    by (simp_all add: fb_get_text_value_def fb_get_text_attr_def)
  have lt: "\<not> fb_pos_y s < 25" using assms by (simp add: word_less_nat_alt)
  have cpy: "memcpy (mem s) ?fb (?fb + 160) ?size a = (if unat (a - ?fb) < unat (fb_pos_y s) * 160 then mem s (a + 160) else mem s a)"
    using memcpy_apply [OF le, of "mem s" a] size by (simp add: word_less_nat_alt algebra_simps)
  have par: "even (unat (a - ?fb) - unat (fb_pos_y s) * 160) = even (unat (a - ?fb))" if "unat (fb_pos_y s) * 160 \<le> unat (a - ?fb)"
    using that by (simp add: even_diff_nat)
  show ?thesis
    using lt sub sub2 cpy par by (auto simp: scroll_def Let_def memsetw_apply blank)
qed

lemma con_frame_scroll:
  assumes "unat (fb_pos_y s) \<le> 400"
  shows "con_frame s (scroll s)"
proof (cases "fb_pos_y s < 25")
  case True
  then show ?thesis by (simp add: scroll_def Let_def con_frame_refl)
next
  case False
  then have y: "25 \<le> unat (fb_pos_y s)" by (simp add: word_less_nat_alt)
  have "mem (scroll s) a = mem s a" if "\<not> in_window (framebuffer_addr s) a" for a
  proof -
    have "unat (0x10000 :: u32) = 65536" by simp
    moreover have "0x20000 \<le> unat (a - (framebuffer_addr s - 0x10000))"
      using that by (simp add: in_window_def word_less_nat_alt)
    ultimately have "65536 \<le> unat (a - framebuffer_addr s)"
      using unat_diff_add(1) [of "0x10000" a "framebuffer_addr s - 0x10000"] by simp
    then show ?thesis using scroll_mem [OF y assms] assms by (simp add: Let_def)
  qed
  then have "con_frame s (s\<lparr>mem := mem (scroll s)\<rparr>)" by (rule con_frame_console(1))
  then have "con_frame s (s\<lparr>mem := mem (scroll s), fb_pos_y := fb_pos_y s - 1\<rparr>)"
    by (rule con_frame_steps)
  then show ?thesis using False by (simp add: scroll_def Let_def)
qed

section \<open>Numbers and formats\<close>

lemma cstr_at_cstr: "cstr m p s \<Longrightarrow> cstr_at m p = Some s"
proof (induction s arbitrary: p)
  case Nil
  then show ?case by (simp add: cstr_at.simps)
next
  case (Cons c s)
  then show ?case by (subst cstr_at.simps) simp
qed

lemma cstr_at_returns: "m (p + of_nat n) = 0 \<Longrightarrow> \<exists>s. cstr_at m p = Some s"
proof (induction n arbitrary: p)
  case 0
  then show ?case by (simp add: cstr_at.simps)
next
  case (Suc n)
  then have "\<exists>s. cstr_at m (p + 1) = Some s" by (simp add: add.assoc)
  then show ?case by (subst cstr_at.simps) auto
qed

lemma itoa_digits_returns: "\<exists>m' k. itoa_digits m buf 10 x i = Some (m', k)"
proof (induction "nat \<bar>x\<bar>" arbitrary: m x i rule: less_induct)
  case less
  have "nat \<bar>x sdiv 10\<bar> < nat \<bar>x\<bar>" if "x sdiv 10 \<noteq> 0"
    using that by (auto simp: signed_divide_int_def abs_mult sgn_if split: if_splits)
  with less show ?case by (subst itoa_digits.simps) (auto simp: Let_def)
qed

lemma num_text_x: "num_text 120 v = Some (rev (map (udigit \<circ> of_nat) (rdigits 16 (unat v))))"
  using uitoa_eq [of 16 0 "\<lambda>_. 0" v] by (auto simp: num_text_def cstr_at_cstr)

lemma num_text_returns: "\<exists>txt. num_text c v = Some txt"
proof (cases "c = 120")
  case True
  then show ?thesis by (simp add: num_text_x)
next
  case False
  obtain m' where m': "itoa (\<lambda>_. 0) v 0 10 = Some m'" "\<exists>k. m' k = 0"
    using itoa_digits_returns [of "if sint v < 0 then (\<lambda>_. 0)(0 := 45) else (\<lambda>_. 0)" 0 "sint v"
        "if sint v < 0 then 1 else 0"]
    by (auto simp: itoa_def Let_def split: if_splits) (meson fun_upd_same)+
  then obtain k where "m' k = 0" by blast
  then have "m' (0 + of_nat (unat k)) = 0" by simp
  then have "\<exists>s. cstr_at m' 0 = Some s" by (rule cstr_at_returns)
  then show ?thesis using False m'(1) by (simp add: num_text_def)
qed

text \<open>
  A call whose format is complete, whose arguments are there, and whose \<^verbatim>\<open>%s\<close> arguments
  are null.
\<close>

function printf_safe :: "u8 list \<Rightarrow> u32 list \<Rightarrow> bool" where
  "printf_safe [] args = True"
| "printf_safe (c # fmt) args =
     (if c \<noteq> 37 then printf_safe fmt args
      else (case printf_spec fmt of None \<Rightarrow> False
            | Some (pad0, pad, c', rest) \<Rightarrow>
                (case args of [] \<Rightarrow> False
                 | v # args' \<Rightarrow> (c' = 115 \<longrightarrow> v = 0) \<and> printf_safe rest args')))"
  by pat_completeness auto
termination
  by (relation "measure (\<lambda>(fmt, args). length fmt)") (auto dest: printf_spec_length)

lemma printf_conv_frame:
  "(c = 115 \<longrightarrow> v = 0) \<Longrightarrow> \<exists>s'. printf_conv z p c v s = Some s' \<and> con_frame s s'"
  using num_text_returns [of c v]
  by (auto simp: printf_conv_def con_frame_put_text con_frame_write_char)

lemma printf_loop_frame:
  "printf_safe fmt args \<Longrightarrow> \<exists>s'. printf_loop fmt args s = Inr s' \<and> con_frame s s'"
proof (induction fmt args arbitrary: s rule: printf_safe.induct)
  case (1 args)
  then show ?case by (simp add: con_frame_refl)
next
  case (2 c fmt args)
  show ?case
  proof (cases "c = 37")
    case False
    with 2 obtain s' where "printf_loop fmt args (fb_write_char c s) = Inr s'"
        "con_frame (fb_write_char c s) s'" by fastforce
    with False show ?thesis using con_frame_trans [OF con_frame_write_char] by auto
  next
    case True
    with "2.prems" obtain z p c' rest v args' where *: "printf_spec fmt = Some (z, p, c', rest)"
        "args = v # args'" "c' = 115 \<longrightarrow> v = 0" "printf_safe rest args'"
      by (cases args) (auto split: option.splits)
    from printf_conv_frame [OF *(3)] obtain t where t: "printf_conv z p c' v s = Some t" "con_frame s t"
      by blast
    from "2.IH"(2) [OF _ *(1) refl refl refl *(2) *(4)] True
    obtain s' where "printf_loop rest args' t = Inr s'" "con_frame t s'" by blast
    with True * t show ?thesis using con_frame_trans by fastforce
  qed
qed

lemma printf_total:
  fixes s :: "'s console_scheme"
  assumes "printf_safe fmt args"
  shows "\<exists>s'. printf fmt args s = Inr s'"
  using printf_loop_frame [OF assms, of "scroll s"] unfolding printf_def by blast

lemma printf_ok:
  fixes s :: "'s console_scheme"
  assumes "printf_safe fmt args" and "unat (fb_pos_y s) \<le> 400"
  shows "\<exists>s'. printf fmt args s = Inr s' \<and> con_frame s s'"
  using printf_loop_frame [OF assms(1), of "scroll s"] con_frame_trans [OF con_frame_scroll [OF assms(2)]]
  unfolding printf_def by blast

section \<open>Cells\<close>

definition empty_console :: console where
  "empty_console = \<lparr>mem = (\<lambda>_. 0), iolog = [], fb_pos_x = 0, fb_pos_y = 0, current_fg = 15, current_bg = 0,
      framebuffer_addr = 0xB8000\<rparr>"

definition cell_attr :: "'s console_scheme \<Rightarrow> u8" where
  "cell_attr s = push_bit 4 (current_bg s AND 0x0f) OR (current_fg s AND 0x0f)"

definition cell_addr :: "u32 \<Rightarrow> nat \<Rightarrow> u32" where
  "cell_addr fb k = fb + of_nat (2 * k)"

lemma sint_of_nat_u16: "n < 2 ^ 15 \<Longrightarrow> sint (of_nat n :: u16) = int n"
  by (simp add: signed_of_nat signed_take_bit_int_eq_self)

lemma scast_of_nat: "n < 2 ^ 15 \<Longrightarrow> (scast (of_nat n :: u16) :: u32) = of_nat n"
proof -
  assume "n < 2 ^ 15"
  then have "(word_of_int (sint (of_nat n :: u16)) :: u32) = word_of_int (int n)"
    by (simp only: sint_of_nat_u16)
  then show ?thesis by simp
qed

lemma fb_write_cell_at:
  assumes "k < 2 ^ 15"
  shows "fb_write_cell (of_nat k) c s = s\<lparr>mem := (mem s)(cell_addr (framebuffer_addr s) k := c,
     cell_addr (framebuffer_addr s) k + 1 := cell_attr s)\<rparr>"
  using scast_of_nat [OF assms] by (simp add: fb_write_cell_def Let_def cell_addr_def cell_attr_def algebra_simps)

lemma ucast_u16_of_nat: "(ucast (of_nat n :: u32) :: u16) = of_nat n"
  by (rule bit_word_eqI) (auto simp: bit_simps)

lemma ucast_u8_low: "(ucast ((of_nat n :: u16) AND 0xFF) :: u8) = of_nat n"
proof -
  have "ucast ((of_nat n :: u16) AND mask 8) = (of_nat n :: u8)"
    by (rule bit_word_eqI) (auto simp: bit_simps)
  then show ?thesis by (simp add: mask_eq_exp_minus_1)
qed

lemma ucast_u8_high: "(ucast (drop_bit 8 (of_nat n :: u16) AND 0xFF) :: u8) = of_nat (n div 256)"
proof -
  have "ucast (drop_bit 8 (of_nat n :: u16) AND mask 8) = (of_nat (drop_bit 8 n) :: u8)"
    by (rule bit_word_eqI) (auto simp: bit_simps)
  then show ?thesis by (simp add: mask_eq_exp_minus_1 drop_bit_eq_div)
qed

lemma fb_pos_of_nat: "fb_pos s = of_nat (unat (fb_pos_x s) + 80 * unat (fb_pos_y s))"
proof -
  have "fb_pos_x s + fb_pos_y s * 80 = of_nat (unat (fb_pos_x s) + 80 * unat (fb_pos_y s))" by simp
  then show ?thesis unfolding fb_pos_def by (simp only: ucast_u16_of_nat)
qed

text \<open>Memory in which the cells from number \<open>k\<close> on are blanks with attribute \<open>at\<close>.\<close>

definition blanked :: "u32 \<Rightarrow> u8 \<Rightarrow> nat \<Rightarrow> mem \<Rightarrow> mem" where
  "blanked fb at k m = (\<lambda>a. let d = unat (a - fb) in
     if 2 * k \<le> d \<and> d < 80 * 25 * 2 then (if even d then 32 else at) else m a)"

lemma blanked_end: "blanked fb at 2000 m = m"
  by (auto simp: blanked_def Let_def fun_eq_iff)

lemma blanked_step:
  assumes "k < 2000"
  shows "blanked fb at (Suc k) (m(cell_addr fb k := 32, cell_addr fb k + 1 := at)) = blanked fb at k m"
proof
  fix a
  have d: "unat (of_nat (2 * k) :: u32) = 2 * k" "unat (of_nat (2 * k + 1) :: u32) = 2 * k + 1"
    by (rule unat_of_nat_u32, use assms in simp)+
  then have "a = cell_addr fb k \<longleftrightarrow> unat (a - fb) = 2 * k" "a = cell_addr fb k + 1 \<longleftrightarrow> unat (a - fb) = 2 * k + 1"
    using word_unat_eq_iff [of "a - fb" "of_nat (2 * k)"] word_unat_eq_iff [of "a - fb" "of_nat (2 * k + 1)"]
    by (auto simp: cell_addr_def algebra_simps)
  then show "blanked fb at (Suc k) (m(cell_addr fb k := 32, cell_addr fb k + 1 := at)) a = blanked fb at k m a"
    using assms by (auto simp: blanked_def Let_def)
qed

lemma fb_clear_loop_eq:
  "n \<le> 2000 \<Longrightarrow> fb_clear_loop n s = s\<lparr>mem := blanked (framebuffer_addr s)
     (cell_attr s) (2000 - n) (mem s)\<rparr>"
proof (induction n arbitrary: s)
  case 0
  then show ?case by (simp add: blanked_end)
next
  case (Suc n)
  then have k: "2000 - n = Suc (2000 - Suc n)" by simp
  let ?s = "fb_write_cell (of_nat (2000 - Suc n)) 32 s"
  have s: "framebuffer_addr ?s = framebuffer_addr s" "cell_attr ?s = cell_attr s"
    by (simp_all add: fb_write_cell_def Let_def cell_attr_def)
  have m: "?s = s\<lparr>mem := (mem s)(cell_addr (framebuffer_addr s) (2000 - Suc n) := 32,
     cell_addr (framebuffer_addr s) (2000 - Suc n) + 1 := cell_attr s)\<rparr>"
    by (rule fb_write_cell_at) simp
  have "fb_clear_loop (Suc n) s = ?s\<lparr>mem := blanked (framebuffer_addr s) (cell_attr s)
      (Suc (2000 - Suc n)) (mem ?s)\<rparr>"
    unfolding fb_clear_loop.simps using Suc.IH [of ?s] Suc.prems s by (simp only: k)
  then show ?case
    using Suc.prems unfolding m by (simp add: blanked_step del: diff_Suc_Suc diff_Suc_1 fun_upd_apply)
qed

lemma cell_attr_pos [simp]:
  "cell_attr (s\<lparr>fb_pos_x := x\<rparr>) = cell_attr s" "cell_attr (s\<lparr>fb_pos_y := x\<rparr>) = cell_attr s"
  by (simp_all add: cell_attr_def)

section \<open>Properties\<close>

text \<open>
  Clearing the screen puts the position at the top left corner, makes each of the 80 * 25
  cells a blank in the current colours, and changes nothing else.
\<close>

theorem fb_clear_blank:
  fixes s :: "'s console_scheme"
  shows "fb_clear s = s\<lparr>fb_pos_x := 0, fb_pos_y := 0,
    mem := (\<lambda>a. let d = unat (a - framebuffer_addr s) in
       if d < 80 * 25 * 2 then (if even d then 32 else cell_attr s)
       else mem s a)\<rparr>"
  by (simp add: fb_clear_def fb_clear_loop_eq blanked_def)

lemma fb_write_char_plain:
  fixes s :: "'s console_scheme"
  assumes "c \<notin> {9, 10, 13}"
  shows "fb_write_char c s =
    (let s1 = fb_move_cursor (fb_pos s + 1) (fb_write_cell (fb_pos s) c s)
     in if fb_pos_x s + 1 = 80 then s1\<lparr>fb_pos_x := 0, fb_pos_y := fb_pos_y s + 1\<rparr>
        else s1\<lparr>fb_pos_x := fb_pos_x s + 1\<rparr>)"
  using assms by (simp add: fb_write_char_def fb_put_def Let_def fb_write_cell_def fb_move_cursor_def)

text \<open>
  Writing a printable character puts the character and the current colours into the cell at
  the position and into no other byte, moves the position to the next cell, with the wrap at the
  end of the line, and sends the number of that cell to the cursor registers, high byte first.
\<close>

theorem fb_write_char_prints:
  fixes s :: "'s console_scheme"
  assumes "c \<notin> {9, 10, 13}" and "unat (fb_pos_x s) < 80" and "unat (fb_pos_y s) < 400"
  shows "let k = unat (fb_pos_x s) + 80 * unat (fb_pos_y s); s' = fb_write_char c s in
    mem s' = (mem s)(cell_addr (framebuffer_addr s) k := c,
       cell_addr (framebuffer_addr s) k + 1 := cell_attr s) \<and>
    unat (fb_pos_x s') = Suc k mod 80 \<and> unat (fb_pos_y s') = Suc k div 80 \<and>
    iolog s' = iolog s @
       [Outb 0x3D4 14, Outb 0x3D5 (of_nat (Suc k div 256)), Outb 0x3D4 15, Outb 0x3D5 (of_nat (Suc k))]"
proof -
  define k where "k = unat (fb_pos_x s) + 80 * unat (fb_pos_y s)"
  have k: "k < 2 ^ 15" using assms by (simp add: k_def)
  have pos: "fb_pos s = of_nat k" by (simp only: fb_pos_of_nat k_def)
  have x: "unat (fb_pos_x s + 1) = Suc (unat (fb_pos_x s))" "unat (fb_pos_y s + 1) = Suc (unat (fb_pos_y s))"
    using assms(2,3) by (simp_all add: unat_word_ariths)
  have w: "fb_pos_x s + 1 = 80 \<longleftrightarrow> Suc (unat (fb_pos_x s)) = 80"
    using x(1) word_unat_eq_iff [of "fb_pos_x s + 1" 80] by simp
  have log: "ucast (drop_bit 8 (of_nat k + 1 :: u16) AND 0xFF) = (of_nat (Suc k div 256) :: u8)"
      "ucast ((of_nat k + 1 :: u16) AND 0xFF) = (of_nat (Suc k) :: u8)"
    using ucast_u8_high [of "Suc k"] ucast_u8_low [of "Suc k"] by (simp_all add: add.commute)
  note eq = fb_write_char_plain [OF assms(1)] fb_write_cell_at [OF k] pos
  have "mem (fb_write_char c s) = (mem s)(cell_addr (framebuffer_addr s) k := c,
       cell_addr (framebuffer_addr s) k + 1 := cell_attr s)"
    by (simp add: eq fb_move_cursor_def Let_def)
  moreover have "unat (fb_pos_x (fb_write_char c s)) = Suc k mod 80 \<and>
      unat (fb_pos_y (fb_write_char c s)) = Suc k div 80"
    using assms(2) x by (simp add: eq w fb_move_cursor_def Let_def k_def [symmetric]) (auto simp: k_def)
  moreover have "iolog (fb_write_char c s) = iolog s @
       [Outb 0x3D4 14, Outb 0x3D5 (of_nat (Suc k div 256)), Outb 0x3D4 15, Outb 0x3D5 (of_nat (Suc k))]"
    by (simp add: eq fb_move_cursor_def Let_def outb_def log del: of_nat_Suc)
  ultimately show ?thesis by (simp only: Let_def k_def [symmetric])
qed

theorem fb_write_char_prints_witness:
  "let s = (empty_console\<lparr>fb_pos_x := 79, fb_pos_y := 2\<rparr>); s' = fb_write_char 65 s
   in mem s' 0xB81DE = 65 \<and> mem s' 0xB81DF = 15 \<and> fb_pos_x s' = 0 \<and> fb_pos_y s' = 3"
  using fb_write_char_prints [of 65 "(empty_console\<lparr>fb_pos_x := 79, fb_pos_y := 2\<rparr>)"]
  by (simp add: Let_def cell_addr_def word_unat_eq_iff empty_console_def cell_attr_def)

text \<open>
  Below the last line, \<^verbatim>\<open>scroll\<close> moves every line up by one, line 0
  excepted, blanks the line after the last one and takes one from the line number; nothing else
  changes.
\<close>

theorem scroll_shifts:
  fixes s :: "'s console_scheme"
  assumes "25 \<le> unat (fb_pos_y s)" and "unat (fb_pos_y s) \<le> 400"
  shows "let n = unat (fb_pos_y s) in scroll s = s\<lparr>fb_pos_y := of_nat (n - 1),
    mem := (\<lambda>a. let d = unat (a - framebuffer_addr s) in
      if d < n * 160 then mem s (a + 160)
      else if d < n * 160 + 160 then (if even d then 32 else 15)
      else mem s a)\<rparr>"
proof -
  have y: "\<not> fb_pos_y s < 25" using assms(1) by (simp add: word_less_nat_alt)
  have "fb_pos_y s - 1 = of_nat (unat (fb_pos_y s) - 1)" using assms(1) by (simp add: of_nat_diff)
  then have "scroll s = s\<lparr>fb_pos_y := of_nat (unat (fb_pos_y s) - 1), mem := mem (scroll s)\<rparr>"
    using y by (simp add: scroll_def Let_def)
  moreover have "mem (scroll s) = (\<lambda>a. let d = unat (a - framebuffer_addr s) in
      if d < unat (fb_pos_y s) * 160 then mem s (a + 160)
      else if d < unat (fb_pos_y s) * 160 + 160 then (if even d then 32 else 15)
      else mem s a)"
    using scroll_mem [OF assms] by (simp add: Let_def fun_eq_iff)
  ultimately show ?thesis by (simp only: Let_def)
qed

theorem scroll_shifts_witness:
  "let s = (empty_console\<lparr>mem := (\<lambda>a. if a = 0xB80A0 then 65 else 0), fb_pos_y := 25\<rparr>)
   in mem (scroll s) 0xB8000 = 65 \<and> mem (scroll s) 0xB8FA0 = 32 \<and> fb_pos_y (scroll s) = 24"
  using scroll_shifts [of "(empty_console\<lparr>mem := (\<lambda>a. if a = 0xB80A0 then 65 else 0), fb_pos_y := 25\<rparr>)"]
  by (simp add: Let_def empty_console_def)



lemma printf_loop_plain:
  "37 \<notin> set bs \<Longrightarrow> printf_loop (bs @ fmt) args s = printf_loop fmt args (put_bytes bs s)"
  by (induction bs arbitrary: s) (auto simp: put_bytes_def)

text \<open>
  \<^verbatim>\<open>printf\<close> of a text with one \<^verbatim>\<open>%x\<close> writes
  the text with the hexadecimal digits of the argument in the place of the conversion, after at
  most one line of scrolling.
\<close>

theorem printf_hex:
  fixes s :: "'s console_scheme"
  assumes "37 \<notin> set p" and "37 \<notin> set q"
  shows "printf (p @ lit ''%x'' @ q) [v] s =
    Inr (put_bytes (p @ rev (map (udigit \<circ> of_nat) (rdigits 16 (unat v))) @ q) (scroll s))"
  using printf_loop_plain [OF assms(2), of "[]"]
  by (simp add: printf_loop_plain [OF assms(1)] printf_def lit_def of_char_def printf_conv_def num_text_x put_text_def put_bytes_def)

theorem printf_hex_witness:
  "printf (lit ''cr3 %x'') [0xC0DE] empty_console = Inr (put_bytes (lit ''cr3 c0de'') (scroll empty_console))"
  using printf_hex [of "lit ''cr3 ''" "[]" "0xC0DE" empty_console]
  by (simp add: lit_def of_char_def rdigits.simps udigit_def)

text \<open>
  \<^verbatim>\<open>printf\<close> scrolls by one line whatever it prints: below the last
  line, a text with two line feeds leaves the position one line lower than it was, outside the 25
  lines of the screen.
\<close>

theorem printf_two_newlines_drift:
  fixes s :: "'s console_scheme"
  assumes "25 \<le> unat (fb_pos_y s)" and "unat (fb_pos_y s) \<le> 400"
  shows "\<exists>s'. printf [10, 10] [] s = Inr s' \<and> unat (fb_pos_y s') = Suc (unat (fb_pos_y s))"
proof -
  have "\<not> fb_pos_y s < 25" using assms(1) by (simp add: word_less_nat_alt)
  moreover have "unat (fb_pos_y s + 1) = Suc (unat (fb_pos_y s))"
    using assms(2) by (simp add: unat_word_ariths)
  ultimately show ?thesis
    by (simp add: printf_def scroll_def Let_def fb_write_char_def fb_put_def fb_move_cursor_def)
qed

theorem printf_two_newlines_drift_witness:
  "\<exists>s'. printf [10, 10] [] (empty_console\<lparr>fb_pos_x := 0, fb_pos_y := 25\<rparr>) = Inr s' \<and> unat (fb_pos_y s') = 26"
  using printf_two_newlines_drift [of "(empty_console\<lparr>fb_pos_x := 0, fb_pos_y := 25\<rparr>)"] by (simp add: empty_console_def)

section \<open>What printf can change at all\<close>

text \<open>Without any condition on the text or the position: only memory, port log and position.\<close>

definition con_vars :: "'s console_scheme \<Rightarrow> 's console_scheme \<Rightarrow> bool" where
  "con_vars s s' \<longleftrightarrow> (\<exists>m l x y. s' = s\<lparr>mem := m, iolog := l, fb_pos_x := x, fb_pos_y := y\<rparr>)"

lemma con_frame_vars: "con_frame s s' \<Longrightarrow> con_vars s s'"
  unfolding con_frame_def con_vars_def by blast

lemma con_vars_trans: "con_vars s t \<Longrightarrow> con_vars t u \<Longrightarrow> con_vars s u"
  unfolding con_vars_def by (elim exE) force

lemma con_vars_scroll: "con_vars s (scroll s)"
proof -
  have "con_vars s s" "con_vars s (s\<lparr>mem := m, fb_pos_y := y\<rparr>)" for m y
    unfolding con_vars_def by (cases s; force)+
  then show ?thesis by (simp add: scroll_def Let_def)
qed

lemma con_vars_write_str: "fb_write_str p s = Some s' \<Longrightarrow> con_vars s s'"
proof (erule fb_write_str.raw_induct [rotated])
  fix f and buf :: u32 and s s' :: "'s console_scheme"
  assume IH: "\<And>buf s s'. f buf s = Some s' \<Longrightarrow> con_vars s s'"
    and "(if mem s buf \<noteq> 0 then f (buf + 1) (fb_write_char (mem s buf) s) else Some s) = Some s'"
  then show "con_vars s s'"
    using con_frame_vars [OF con_frame_write_char [of s "mem s buf"]] con_frame_vars [OF con_frame_refl [of s]]
    by (auto split: if_splits dest: IH intro: con_vars_trans)
qed

lemma con_vars_put: "con_vars s (put_text z pad txt s)" "con_vars s (put_bytes bs s)" "con_vars s (fb_write_char c s)"
  by (rule con_frame_vars, rule con_frame_put_text con_frame_put_bytes con_frame_write_char)+

lemma con_vars_pointer: "put_pointer z pad p s = Some s' \<Longrightarrow> con_vars s s'"
  unfolding put_pointer_def Let_def
  by (auto split: option.splits dest!: con_vars_write_str intro: con_vars_trans [OF con_vars_put(2)])

lemma con_vars_conv: "printf_conv z pad c v s = Some s' \<Longrightarrow> con_vars s s'"
  unfolding printf_conv_def using con_vars_put con_vars_pointer by (auto split: if_splits option.splits)

lemma con_vars_loop: "printf_loop fmt args s = Inr s' \<Longrightarrow> con_vars s s'"
proof (induction fmt args s rule: printf_loop.induct)
  case (1 args s)
  then show ?case using con_frame_vars [OF con_frame_refl] by simp
next
  case (2 c fmt args s)
  show ?case
  proof (cases "c = 37")
    case False
    then show ?thesis using 2 con_vars_trans [OF con_frame_vars [OF con_frame_write_char]] by simp
  next
    case True
    then obtain z pad c' rest v args' s1 where "printf_spec fmt = Some (z, pad, c', rest)" "args = v # args'"
      "printf_conv z pad c' v s = Some s1" "printf_loop rest args' s1 = Inr s'"
      using "2.prems" by (auto simp: bindE_eq_Inr returns_def split: option.splits list.splits prod.splits)
    then show ?thesis using True "2.IH"(2) con_vars_conv con_vars_trans by fastforce
  qed
qed

lemma printf_vars: "printf fmt args s = Inr s' \<Longrightarrow> con_vars s s'"
  unfolding printf_def using con_vars_trans [OF con_vars_scroll con_vars_loop] .

end
