(* ===== verification/Pmm.thy ===== *)
theory Pmm
  imports Console
begin

text \<open>
  The physical memory manager, \<^verbatim>\<open>src/src/kernel/mm/pmm.c\<close>: one bit per frame of 4096 bytes, 1
  for a frame in use, in an array of 32768 words of 32 bits, and three counters. The array
  is a function on indices; an access at index 32768 or beyond, or through
  \<^verbatim>\<open>_pmm_memory_map\<close> before \<^verbatim>\<open>init_pmm\<close> has set it (\<open>pmm_memory_map\<close> is False), is
  \<open>OutOfBounds\<close>, and so is \<^verbatim>\<open>mmap_test\<close> of a negative bit number, whose shift count C leaves
  undefined. Frame numbers are \<^verbatim>\<open>int\<close> in the code; they stay below \<open>2 ^ 20\<close>, so the words
  below are the same numbers, with \<open>- 1\<close> for \<open>not found\<close>.
\<close>

section \<open>State\<close>

record pmm = console +
  pmm_memory_size :: u32
  pmm_used_blocks :: u32
  pmm_max_blocks :: u32
  pmm_memory_map :: bool
  bitmap_addr :: "u32 \<Rightarrow> u32"

abbreviation (input) PMM_BLOCKS_PER_BYTE :: u32 where "PMM_BLOCKS_PER_BYTE \<equiv> 8"
abbreviation (input) PMM_BLOCK_SIZE :: u32 where "PMM_BLOCK_SIZE \<equiv> 4096"
abbreviation (input) PMM_BITMAP_SIZE :: u32 where "PMM_BITMAP_SIZE \<equiv> 32768"

section \<open>Operations\<close>

definition map_get :: "u32 \<Rightarrow> 's pmm_scheme \<Rightarrow> u32 res" where
  "map_get i s = (if pmm_memory_map s \<and> i < PMM_BITMAP_SIZE then Inr (bitmap_addr s i) else Inl OutOfBounds)"

definition map_put :: "u32 \<Rightarrow> u32 \<Rightarrow> 's pmm_scheme \<Rightarrow> 's pmm_scheme res" where
  "map_put i w s =
     (if pmm_memory_map s \<and> i < PMM_BITMAP_SIZE
      then Inr (s\<lparr>bitmap_addr := (bitmap_addr s)(i := w)\<rparr>) else Inl OutOfBounds)"

definition mmap_set :: "u32 \<Rightarrow> 's pmm_scheme \<Rightarrow> 's pmm_scheme res" where
  "mmap_set b s =
     bindE (map_get (b div 32) s) (\<lambda>w. map_put (b div 32) (w OR push_bit (unat (b mod 32)) 1) s)"

definition mmap_unset :: "u32 \<Rightarrow> 's pmm_scheme \<Rightarrow> 's pmm_scheme res" where
  "mmap_unset b s =
     bindE (map_get (b div 32) s) (\<lambda>w. map_put (b div 32) (w AND NOT (push_bit (unat (b mod 32)) 1)) s)"

definition mmap_test :: "u32 \<Rightarrow> 's pmm_scheme \<Rightarrow> bool res" where
  "mmap_test b s =
     (if sint b < 0 then Inl OutOfBounds
      else bindE (map_get (b div 32) s) (\<lambda>w. Inr (w AND push_bit (unat (b mod 32)) 1 \<noteq> 0)))"

definition pmm_get_memory_size :: "'s pmm_scheme \<Rightarrow> u32" where
  "pmm_get_memory_size s = pmm_memory_size s"

definition pmm_get_block_size :: u32 where
  "pmm_get_block_size = PMM_BLOCK_SIZE"

definition pmm_get_free_block_count :: "'s pmm_scheme \<Rightarrow> u32" where
  "pmm_get_free_block_count s = pmm_max_blocks s - pmm_used_blocks s"

definition pmm_get_used_block_count :: "'s pmm_scheme \<Rightarrow> u32" where
  "pmm_get_used_block_count s = pmm_used_blocks s"

definition pmm_get_block_count :: "'s pmm_scheme \<Rightarrow> u32" where
  "pmm_get_block_count s = pmm_max_blocks s"

function scan_dword :: "u32 \<Rightarrow> nat \<Rightarrow> nat option" where
  "scan_dword w j =
     (if j < 32 then (if w AND push_bit j 1 = 0 then Some j else scan_dword w (j + 1)) else None)"
  by pat_completeness auto
termination by (relation "measure (\<lambda>(w, j). 32 - j)") auto

declare scan_dword.simps [simp del]

function first_free_loop :: "u32 \<Rightarrow> 's pmm_scheme \<Rightarrow> u32 res" where
  "first_free_loop i s =
     (if i < pmm_get_block_count s div 32
      then bindE (map_get i s) (\<lambda>w.
        if w \<noteq> 0xffffffff
        then (case scan_dword w 0 of Some j \<Rightarrow> Inr (i * 4 * 8 + of_nat j) | None \<Rightarrow> first_free_loop (i + 1) s)
        else first_free_loop (i + 1) s)
      else Inr (- 1))"
  by pat_completeness auto
termination
  by (relation "measure (\<lambda>(i, s). unat (pmm_max_blocks s div 32 - i))")
     (auto simp: word_less_imp_unat_diff_Suc pmm_get_block_count_def)

declare first_free_loop.simps [simp del]

definition mmap_first_free :: "'s pmm_scheme \<Rightarrow> u32 res" where
  "mmap_first_free s = first_free_loop 0 s"

fun free_run :: "nat \<Rightarrow> u32 \<Rightarrow> u32 \<Rightarrow> u32 \<Rightarrow> 's pmm_scheme \<Rightarrow> bool res" where
  "free_run 0 free sz b s = Inr False"
| "free_run (Suc n) free sz b s =
     bindE (mmap_test b s) (\<lambda>used.
       let free' = (if used then free else free + 1)
       in if free' = sz then Inr True else free_run n free' sz (b + 1) s)"

function scan_dword_s :: "u32 \<Rightarrow> u32 \<Rightarrow> nat \<Rightarrow> u32 \<Rightarrow> 's pmm_scheme \<Rightarrow> nat option res" where
  "scan_dword_s i w j sz s =
     (if j < 32
      then (if w AND push_bit j 1 = 0
            then bindE (free_run (Suc (unat sz)) 0 sz (i * 32 + push_bit j 1) s) (\<lambda>found.
                   if found then Inr (Some j) else scan_dword_s i w (j + 1) sz s)
            else scan_dword_s i w (j + 1) sz s)
      else Inr None)"
  by pat_completeness auto
termination by (relation "measure (\<lambda>(i, w, j, sz, s). 32 - j)") auto

declare scan_dword_s.simps [simp del]

function first_free_s_loop :: "u32 \<Rightarrow> u32 \<Rightarrow> 's pmm_scheme \<Rightarrow> u32 res" where
  "first_free_s_loop sz i s =
     (if i < pmm_get_block_count s
      then bindE (map_get i s) (\<lambda>w.
        if w \<noteq> 0xffffffff
        then bindE (scan_dword_s i w 0 sz s) (\<lambda>r.
               case r of Some j \<Rightarrow> Inr (i * 4 * 8 + of_nat j) | None \<Rightarrow> first_free_s_loop sz (i + 1) s)
        else first_free_s_loop sz (i + 1) s)
      else Inr (- 1))"
  by pat_completeness auto
termination
  by (relation "measure (\<lambda>(sz, i, s). unat (pmm_max_blocks s - i))")
     (auto simp: word_less_imp_unat_diff_Suc pmm_get_block_count_def)

declare first_free_s_loop.simps [simp del]

definition mmap_first_free_s :: "u32 \<Rightarrow> 's pmm_scheme \<Rightarrow> u32 res" where
  "mmap_first_free_s sz s =
     (if sz = 0 then Inr (- 1)
      else if sz = 1 then mmap_first_free s
      else first_free_s_loop sz 0 s)"

text \<open>\<^verbatim>\<open>memset\<close> of the first \<open>n\<close> bytes of the bitmap with 0xff, seen through its 32-bit elements.\<close>

definition fill_ff :: "nat \<Rightarrow> (u32 \<Rightarrow> u32) \<Rightarrow> u32 \<Rightarrow> u32" where
  "fill_ff n f i = f i OR mask (8 * min 4 (n - 4 * unat i))"

definition init_pmm :: "u32 \<Rightarrow> 's pmm_scheme \<Rightarrow> 's pmm_scheme" where
  "init_pmm mem_size s =
     (let s1 = s\<lparr>pmm_memory_size := mem_size, pmm_memory_map := True\<rparr>;
          s2 = s1\<lparr>pmm_max_blocks := pmm_get_memory_size s1 div PMM_BLOCK_SIZE\<rparr>;
          s3 = s2\<lparr>pmm_used_blocks := pmm_get_block_count s2\<rparr>
      in s3\<lparr>bitmap_addr := fill_ff (unat (pmm_get_block_count s3 div PMM_BLOCKS_PER_BYTE)) (bitmap_addr s3)\<rparr>)"

fun init_region_loop :: "nat \<Rightarrow> u32 \<Rightarrow> 's pmm_scheme \<Rightarrow> 's pmm_scheme res" where
  "init_region_loop 0 align s = Inr s"
| "init_region_loop (Suc blocks) align s =
     bindE (mmap_unset align s) (\<lambda>s1.
       init_region_loop blocks (align + 1) (s1\<lparr>pmm_used_blocks := pmm_used_blocks s1 - 1\<rparr>))"

definition pmm_init_region :: "u32 \<Rightarrow> u32 \<Rightarrow> 's pmm_scheme \<Rightarrow> 's pmm_scheme res" where
  "pmm_init_region base sz s =
     bindE (init_region_loop (unat (sz div PMM_BLOCK_SIZE)) (base div PMM_BLOCK_SIZE) s) (mmap_set 0)"

fun deinit_region_loop :: "nat \<Rightarrow> u32 \<Rightarrow> 's pmm_scheme \<Rightarrow> 's pmm_scheme res" where
  "deinit_region_loop 0 align s = Inr s"
| "deinit_region_loop (Suc blocks) align s =
     bindE (mmap_set align s) (\<lambda>s1.
       deinit_region_loop blocks (align + 1) (s1\<lparr>pmm_used_blocks := pmm_used_blocks s1 + 1\<rparr>))"

definition pmm_deinit_region :: "u32 \<Rightarrow> u32 \<Rightarrow> 's pmm_scheme \<Rightarrow> 's pmm_scheme res" where
  "pmm_deinit_region base sz s =
     deinit_region_loop (unat (sz div PMM_BLOCK_SIZE)) (base div PMM_BLOCK_SIZE) s"

definition pmm_alloc_block :: "'s pmm_scheme \<Rightarrow> (u32 \<times> 's pmm_scheme) res" where
  "pmm_alloc_block s =
     (if pmm_get_free_block_count s \<le> 0 then Inr (0, s)
      else bindE (mmap_first_free s) (\<lambda>frame.
        if frame = - 1 then Inr (0, s)
        else bindE (mmap_set frame s) (\<lambda>s1.
          Inr (frame * PMM_BLOCK_SIZE, s1\<lparr>pmm_used_blocks := pmm_used_blocks s1 + 1\<rparr>))))"

definition pmm_free_block :: "u32 \<Rightarrow> 's pmm_scheme \<Rightarrow> 's pmm_scheme res" where
  "pmm_free_block p s =
     bindE (mmap_unset (p div PMM_BLOCK_SIZE) s) (\<lambda>s1.
       Inr (s1\<lparr>pmm_used_blocks := pmm_used_blocks s1 - 1\<rparr>))"

fun set_run :: "nat \<Rightarrow> u32 \<Rightarrow> 's pmm_scheme \<Rightarrow> 's pmm_scheme res" where
  "set_run 0 frame s = Inr s"
| "set_run (Suc n) frame s = bindE (mmap_set frame s) (set_run n (frame + 1))"

fun unset_run :: "nat \<Rightarrow> u32 \<Rightarrow> 's pmm_scheme \<Rightarrow> 's pmm_scheme res" where
  "unset_run 0 frame s = Inr s"
| "unset_run (Suc n) frame s = bindE (mmap_unset frame s) (unset_run n (frame + 1))"

definition pmm_alloc_blocks :: "u32 \<Rightarrow> 's pmm_scheme \<Rightarrow> (u32 \<times> 's pmm_scheme) res" where
  "pmm_alloc_blocks sz s =
     (if pmm_get_free_block_count s \<le> sz then Inr (0, s)
      else bindE (mmap_first_free_s sz s) (\<lambda>frame.
        if frame = - 1 then Inr (0, s)
        else bindE (set_run (unat sz) frame s) (\<lambda>s1.
          Inr (frame * PMM_BLOCK_SIZE, s1\<lparr>pmm_used_blocks := pmm_used_blocks s1 + sz\<rparr>))))"

definition pmm_free_blocks :: "u32 \<Rightarrow> u32 \<Rightarrow> 's pmm_scheme \<Rightarrow> 's pmm_scheme res" where
  "pmm_free_blocks p sz s =
     bindE (unset_run (unat sz) (p div PMM_BLOCK_SIZE) s) (\<lambda>s1.
       Inr (s1\<lparr>pmm_used_blocks := pmm_used_blocks s1 - sz\<rparr>))"

section \<open>Frames\<close>

definition taken :: "'s pmm_scheme \<Rightarrow> nat \<Rightarrow> bool" where
  "taken s f = bit (bitmap_addr s (of_nat (f div 32))) (f mod 32)"

lemma frame_index:
  assumes "f < 2 ^ 20"
  shows "(of_nat f :: u32) div 32 = of_nat (f div 32)" "unat ((of_nat f :: u32) mod 32) = f mod 32"
    "(of_nat (f div 32) :: u32) < 32768"
proof -
  have u: "unat (of_nat f :: u32) = f" "unat (of_nat (f div 32) :: u32) = f div 32"
    using assms by (auto intro!: unat_of_nat_u32)
  then show "(of_nat f :: u32) div 32 = of_nat (f div 32)" "unat ((of_nat f :: u32) mod 32) = f mod 32"
    "(of_nat (f div 32) :: u32) < 32768"
    using assms by (simp_all add: word_unat_eq_iff unat_div unat_mod word_less_nat_alt)
qed

lemma taken_upd:
  assumes "f < 2 ^ 20" "g < 2 ^ 20"
  shows "taken (s\<lparr>bitmap_addr := (bitmap_addr s)(of_nat (f div 32) := w)\<rparr>) g =
    (if g div 32 = f div 32 then bit w (g mod 32) else taken s g)"
proof -
  have "(of_nat (g div 32) :: u32) = of_nat (f div 32) \<longleftrightarrow> g div 32 = f div 32"
    using assms unat_of_nat_u32 [of "g div 32"] unat_of_nat_u32 [of "f div 32"] by (simp add: word_unat_eq_iff)
  then show ?thesis by (simp add: taken_def)
qed

lemma same_frame: "g div 32 = f div 32 \<Longrightarrow> g mod 32 = f mod 32 \<longleftrightarrow> g = (f :: nat)"
  by (metis div_mult_mod_eq)

lemma mmap_set_ok:
  assumes "pmm_memory_map s" and "f < 2 ^ 20"
  obtains s' where "mmap_set (of_nat f) s = Inr s'"
    and "\<exists>b. s' = s\<lparr>bitmap_addr := b\<rparr>" and "\<And>g. g < 2 ^ 20 \<Longrightarrow> taken s' g \<longleftrightarrow> taken s g \<or> g = f"
proof -
  let ?w = "bitmap_addr s (of_nat (f div 32)) OR push_bit (f mod 32) 1"
  let ?s = "s\<lparr>bitmap_addr := (bitmap_addr s)(of_nat (f div 32) := ?w)\<rparr>"
  have "mmap_set (of_nat f) s = Inr ?s"
    using frame_index [OF assms(2)] assms(1) by (simp add: mmap_set_def map_get_def map_put_def)
  moreover have "taken ?s g \<longleftrightarrow> taken s g \<or> g = f" if "g < 2 ^ 20" for g
    using same_frame [of g f] taken_upd [OF assms(2) that, of s]
    by (cases "g div 32 = f div 32") (auto simp: bit_simps taken_def)
  ultimately show ?thesis using that [of ?s] by blast
qed

lemma mmap_unset_ok:
  assumes "pmm_memory_map s" and "f < 2 ^ 20"
  obtains s' where "mmap_unset (of_nat f) s = Inr s'"
    and "\<exists>b. s' = s\<lparr>bitmap_addr := b\<rparr>" and "\<And>g. g < 2 ^ 20 \<Longrightarrow> taken s' g \<longleftrightarrow> taken s g \<and> g \<noteq> f"
proof -
  let ?w = "bitmap_addr s (of_nat (f div 32)) AND NOT (push_bit (f mod 32) 1)"
  let ?s = "s\<lparr>bitmap_addr := (bitmap_addr s)(of_nat (f div 32) := ?w)\<rparr>"
  have "mmap_unset (of_nat f) s = Inr ?s"
    using frame_index [OF assms(2)] assms(1) by (simp add: mmap_unset_def map_get_def map_put_def)
  moreover have "taken ?s g \<longleftrightarrow> taken s g \<and> g \<noteq> f" if "g < 2 ^ 20" for g
    using same_frame [of g f] taken_upd [OF assms(2) that, of s]
    by (cases "g div 32 = f div 32") (auto simp: bit_simps taken_def)
  ultimately show ?thesis using that [of ?s] by blast
qed

lemma dword_test: "(w :: u32) AND 2 ^ j = 0 \<longleftrightarrow> \<not> bit w j"
  by (rule and_exp_eq_0_iff_not_bit)

lemma scan_dword_Some:
  "scan_dword w j = Some k \<Longrightarrow> j \<le> k \<and> k < 32 \<and> \<not> bit w k \<and> (\<forall>i. j \<le> i \<and> i < k \<longrightarrow> bit w i)"
proof (induction w j rule: scan_dword.induct)
  case (1 w j)
  show ?case
  proof (cases "j < 32 \<and> bit w j")
    case True
    with 1 have "Suc j \<le> k \<and> k < 32 \<and> \<not> bit w k \<and> (\<forall>i. Suc j \<le> i \<and> i < k \<longrightarrow> bit w i)"
      by (simp add: scan_dword.simps [of w j] dword_test)
    with True show ?thesis by (metis Suc_leI Suc_le_lessD le_eq_less_or_eq)
  next
    case False
    with "1.prems" show ?thesis by (auto simp: scan_dword.simps [of w j] dword_test split: if_splits)
  qed
qed

lemma scan_dword_None: "scan_dword w j = None \<Longrightarrow> j \<le> i \<Longrightarrow> i < 32 \<Longrightarrow> bit w i"
proof (induction w j rule: scan_dword.induct)
  case (1 w j)
  then show ?case
    by (cases "i = j") (auto simp: scan_dword.simps [of w j] dword_test split: if_splits)
qed

lemma scan_dword_full: "w = 0xffffffff \<longleftrightarrow> scan_dword w 0 = None"
proof
  assume "w = 0xffffffff"
  then have "w = - 1" by simp
  then show "scan_dword w 0 = None"
    using scan_dword_Some [of w 0] by (cases "scan_dword w 0") auto
next
  assume "scan_dword w 0 = None"
  then have "w = - 1" by (intro bit_word_eqI) (simp add: scan_dword_None)
  then show "w = 0xffffffff" by simp
qed

text \<open>The frames the search sees: those of the dwords that lie wholly below the block count.\<close>

definition searched :: "'s pmm_scheme \<Rightarrow> nat" where
  "searched s = 32 * (unat (pmm_max_blocks s) div 32)"

definition pmm_sized :: "'s pmm_scheme \<Rightarrow> bool" where
  "pmm_sized s \<longleftrightarrow> pmm_memory_map s \<and> unat (pmm_max_blocks s) \<le> 2 ^ 20"

definition least_free :: "'s pmm_scheme \<Rightarrow> nat \<Rightarrow> bool" where
  "least_free s f \<longleftrightarrow> f < searched s \<and> \<not> taken s f \<and> (\<forall>g < f. taken s g)"

lemma first_free_loop_ok:
  assumes "pmm_sized s" and "\<forall>g < 32 * unat i. taken s g" and "unat i \<le> unat (pmm_max_blocks s) div 32"
  shows "(\<exists>f. first_free_loop i s = Inr (of_nat f) \<and> least_free s f) \<or>
         first_free_loop i s = Inr (- 1) \<and> (\<forall>g < searched s. taken s g)"
  using assms
proof (induction i s rule: first_free_loop.induct)
  case (1 i s)
  let ?w = "bitmap_addr s i"
  have n: "unat (pmm_max_blocks s div 32) = unat (pmm_max_blocks s) div 32" by (simp add: unat_div)
  show ?case
  proof (cases "i < pmm_max_blocks s div 32")
    case False
    then have "unat i = unat (pmm_max_blocks s) div 32"
      using "1.prems"(3) n by (simp add: word_less_nat_alt)
    then have "\<forall>g < searched s. taken s g" using "1.prems"(2) by (simp add: searched_def)
    then show ?thesis using False by (simp add: first_free_loop.simps [of i s] pmm_get_block_count_def)
  next
    case True
    have i: "unat i < unat (pmm_max_blocks s) div 32" using True n by (simp add: word_less_nat_alt)
    have get: "map_get i s = Inr ?w"
      using "1.prems"(1) i div_le_mono [of "unat (pmm_max_blocks s)" "2 ^ 20" 32]
      by (simp add: map_get_def pmm_sized_def word_less_nat_alt)
    have tk: "taken s (32 * unat i + k) = bit ?w k" if "k < 32" for k
      using that by (simp add: taken_def)
    show ?thesis
    proof (cases "scan_dword ?w 0")
      case (Some k)
      note k = scan_dword_Some [OF Some]
      have "least_free s (32 * unat i + k)"
        unfolding least_free_def
      proof (intro conjI allI impI)
        show "32 * unat i + k < searched s" using i k by (simp add: searched_def)
        show "\<not> taken s (32 * unat i + k)" using k by (simp add: tk)
        fix g assume g: "g < 32 * unat i + k"
        show "taken s g"
        proof (cases "g < 32 * unat i")
          case False
          then have "g = 32 * unat i + (g - 32 * unat i)" "g - 32 * unat i < k" using g by auto
          then show ?thesis using k tk [of "g - 32 * unat i"] by simp
        qed (use "1.prems"(2) in simp)
      qed
      moreover have "first_free_loop i s = Inr (of_nat (32 * unat i + k))"
        using True get Some scan_dword_full [of ?w]
        by (simp add: first_free_loop.simps [of i s] pmm_get_block_count_def)
      ultimately show ?thesis by blast
    next
      case None
      then have w: "?w = 0xffffffff" using scan_dword_full by metis
      have s: "unat (i + 1) = Suc (unat i)" using unat_Suc_less [OF True] .
      have "taken s g" if "g < 32 * unat (i + 1)" for g
      proof (cases "g < 32 * unat i")
        case False
        then have "g = 32 * unat i + (g - 32 * unat i)" "g - 32 * unat i < 32" using that s by auto
        then show ?thesis using tk [of "g - 32 * unat i"] scan_dword_None [OF None] by simp
      qed (use "1.prems"(2) in simp)
      moreover have "first_free_loop i s = first_free_loop (i + 1) s"
        using True get w by (simp add: first_free_loop.simps [of i s] pmm_get_block_count_def)
      ultimately show ?thesis
        using "1.IH"(2) [of ?w] True get w "1.prems"(1) i s by (simp add: pmm_get_block_count_def)
    qed
  qed
qed

lemma mmap_first_free_ok:
  assumes "pmm_sized s"
  shows "(\<exists>f. mmap_first_free s = Inr (of_nat f) \<and> least_free s f) \<or>
         mmap_first_free s = Inr (- 1) \<and> (\<forall>g < searched s. taken s g)"
  using first_free_loop_ok [OF assms, of 0] by (simp add: mmap_first_free_def)

section \<open>Counting\<close>

definition taken_set :: "'s pmm_scheme \<Rightarrow> nat set" where
  "taken_set s = {f. f < unat (pmm_max_blocks s) \<and> taken s f}"

definition pmm_counts :: "nat \<Rightarrow> 's pmm_scheme \<Rightarrow> bool" where
  "pmm_counts d s \<longleftrightarrow> pmm_sized s \<and> card (taken_set s) = unat (pmm_used_blocks s) + d"

definition pmm_inv :: "'s pmm_scheme \<Rightarrow> bool" where
  "pmm_inv s \<longleftrightarrow> taken s 0 \<and> 0 < pmm_max_blocks s \<and> (pmm_counts 0 s \<or> pmm_counts 1 s)"

lemma finite_taken_set [simp]: "finite (taken_set s)"
  by (simp add: taken_set_def)

lemma taken_set_subset: "taken_set s \<subseteq> {..<unat (pmm_max_blocks s)}"
  by (auto simp: taken_set_def)

lemma card_taken_set_le: "card (taken_set s) \<le> unat (pmm_max_blocks s)"
  using card_mono [OF _ taken_set_subset, of s] by simp

lemma card_taken_set_full:
  assumes "card (taken_set s) = unat (pmm_max_blocks s)" and "f < unat (pmm_max_blocks s)"
  shows "taken s f"
  using card_subset_eq [OF _ taken_set_subset, of s] assms by (auto simp: taken_set_def)

lemma searched_le: "searched s \<le> unat (pmm_max_blocks s)"
  by (simp add: searched_def)

lemma pmm_sized_upd [simp]:
  "pmm_sized (s\<lparr>bitmap_addr := b\<rparr>) = pmm_sized s"
  "pmm_sized (s\<lparr>pmm_used_blocks := u\<rparr>) = pmm_sized s"
  by (simp_all add: pmm_sized_def)

lemma taken_used_blocks [simp]: "taken (s\<lparr>pmm_used_blocks := u\<rparr>) f = taken s f"
  by (simp add: taken_def)

lemma taken_setD: "f \<in> taken_set s \<Longrightarrow> f < unat (pmm_max_blocks s) \<and> taken s f"
  by (simp add: taken_set_def)

lemma alloc_block_cases:
  fixes s :: "'s pmm_scheme"
  assumes "pmm_inv s"
  shows "pmm_alloc_block s = Inr (0, s) \<and> (\<forall>f < searched s. taken s f) \<or>
    (\<exists>f s'. pmm_alloc_block s = Inr (of_nat f * 4096, s') \<and> least_free s f \<and> 0 < f \<and> f < 2 ^ 20 \<and>
       (\<exists>b. s' = s\<lparr>bitmap_addr := b, pmm_used_blocks := pmm_used_blocks s + 1\<rparr>) \<and>
       (\<forall>g < 2 ^ 20. taken s' g \<longleftrightarrow> taken s g \<or> g = f))"
proof -
  have sz: "pmm_sized s" and z: "taken s 0" using assms by (auto simp: pmm_inv_def pmm_counts_def)
  have full: "\<forall>f < searched s. taken s f" if "pmm_get_free_block_count s \<le> 0"
  proof -
    have "pmm_used_blocks s = pmm_max_blocks s" using that by (simp add: pmm_get_free_block_count_def)
    then have "card (taken_set s) = unat (pmm_max_blocks s)"
      using assms card_taken_set_le [of s] by (auto simp: pmm_inv_def pmm_counts_def)
    then show ?thesis using card_taken_set_full [of s] searched_le [of s] by auto
  qed
  show ?thesis
  proof (cases "pmm_get_free_block_count s \<le> 0")
    case True
    then show ?thesis using full by (simp add: pmm_alloc_block_def)
  next
    case False
    from mmap_first_free_ok [OF sz] show ?thesis
    proof (elim disjE exE conjE)
      fix f assume f: "mmap_first_free s = Inr (of_nat f)" "least_free s f"
      then have lt: "f < 2 ^ 20" using sz searched_le [of s] by (simp add: least_free_def pmm_sized_def)
      have "0 < f" using f(2) z by (cases "f = 0") (auto simp: least_free_def)
      have ne: "of_nat f \<noteq> (- 1 :: u32)"
        using lt unat_of_nat_u32 [of f] by (auto simp: word_unat_eq_iff)
      from mmap_set_ok [OF _ lt, of s] sz obtain b where
        b: "mmap_set (of_nat f) s = Inr (s\<lparr>bitmap_addr := b\<rparr>)"
          "\<And>g. g < 2 ^ 20 \<Longrightarrow> taken (s\<lparr>bitmap_addr := b\<rparr>) g \<longleftrightarrow> taken s g \<or> g = f"
        by (auto simp: pmm_sized_def)
      let ?s = "s\<lparr>bitmap_addr := b, pmm_used_blocks := pmm_used_blocks s + 1\<rparr>"
      have "pmm_alloc_block s = Inr (of_nat f * 4096, ?s)"
        using False ne f(1) b(1) by (simp add: pmm_alloc_block_def)
      with f(2) lt \<open>0 < f\<close> b(2) show ?thesis by fastforce
    next
      assume "mmap_first_free s = Inr (- 1)" "\<forall>g < searched s. taken s g"
      then show ?thesis using False by (simp add: pmm_alloc_block_def)
    qed
  qed
qed

lemma taken_set_insert:
  assumes "pmm_sized s" "f < unat (pmm_max_blocks s)" "pmm_max_blocks s' = pmm_max_blocks s"
    and "\<forall>g < 2 ^ 20. taken s' g \<longleftrightarrow> taken s g \<or> g = f"
  shows "taken_set s' = insert f (taken_set s)"
  using assms by (auto simp: taken_set_def pmm_sized_def)

lemma taken_set_remove:
  assumes "pmm_sized s" "pmm_max_blocks s' = pmm_max_blocks s"
    and "\<forall>g < 2 ^ 20. taken s' g \<longleftrightarrow> taken s g \<and> g \<noteq> f"
  shows "taken_set s' = taken_set s - {f}"
  using assms by (auto simp: taken_set_def pmm_sized_def)

lemma alloc_block_inv:
  fixes s :: "'s pmm_scheme"
  assumes "pmm_inv s" and "pmm_alloc_block s = Inr (p, s')"
  shows "pmm_inv s'"
  using alloc_block_cases [OF assms(1)]
proof (elim disjE exE conjE)
  fix f t b
  assume a: "pmm_alloc_block s = Inr (of_nat f * 4096, t)" "least_free s f" "f < 2 ^ 20"
    "t = s\<lparr>bitmap_addr := b, pmm_used_blocks := pmm_used_blocks s + 1\<rparr>"
    "\<forall>g < 2 ^ 20. taken t g \<longleftrightarrow> taken s g \<or> g = f"
  have s': "s' = t" using a(1) assms(2) by simp
  have sz: "pmm_sized s" using assms(1) by (auto simp: pmm_inv_def pmm_counts_def)
  have f: "f < unat (pmm_max_blocks s)" "f \<notin> taken_set s"
    using a(2) searched_le [of s] by (auto simp: least_free_def taken_set_def)
  then have c: "card (taken_set t) = Suc (card (taken_set s))"
    using taken_set_insert [OF sz f(1) _ a(5)] a(4) by simp
  then have "unat (pmm_used_blocks s) < 2 ^ 20"
    using assms(1) card_taken_set_le [of t] a(4) by (auto simp: pmm_inv_def pmm_counts_def pmm_sized_def)
  then have "unat (pmm_used_blocks s + 1) = Suc (unat (pmm_used_blocks s))" by (simp add: unat_word_ariths)
  with c show ?thesis using assms(1) a(4,5) unfolding s' by (auto simp: pmm_inv_def pmm_counts_def)
qed (use assms in simp)

lemma frame_of_address: "f < 2 ^ 20 \<Longrightarrow> (of_nat f * 4096 :: u32) div 4096 = of_nat f"
proof -
  assume f: "f < 2 ^ 20"
  then have "unat (of_nat f * 4096 :: u32) = f * 4096"
    using unat_of_nat_u32 [of "f * 4096"] by simp
  then show ?thesis using f unat_of_nat_u32 [of f] by (simp add: word_unat_eq_iff unat_div)
qed

lemma free_block_ok:
  fixes s :: "'s pmm_scheme"
  assumes "pmm_inv s" and "f \<in> taken_set s" and "0 < f"
  obtains s' where "pmm_free_block (of_nat f * 4096) s = Inr s'" and "pmm_inv s'"
    and "\<exists>b. s' = s\<lparr>bitmap_addr := b, pmm_used_blocks := pmm_used_blocks s - 1\<rparr>"
    and "taken_set s' = taken_set s - {f}"
proof -
  have sz: "pmm_sized s" using assms(1) by (auto simp: pmm_inv_def pmm_counts_def)
  have f: "f < 2 ^ 20" using sz taken_setD [OF assms(2)] by (simp add: pmm_sized_def)
  from mmap_unset_ok [OF _ f, of s] sz obtain b where
    b: "mmap_unset (of_nat f) s = Inr (s\<lparr>bitmap_addr := b\<rparr>)"
      "\<And>g. g < 2 ^ 20 \<Longrightarrow> taken (s\<lparr>bitmap_addr := b\<rparr>) g \<longleftrightarrow> taken s g \<and> g \<noteq> f"
    by (auto simp: pmm_sized_def)
  let ?s = "s\<lparr>bitmap_addr := b, pmm_used_blocks := pmm_used_blocks s - 1\<rparr>"
  have t: "taken_set ?s = taken_set s - {f}" using b(2) by (intro taken_set_remove [OF sz]) simp_all
  have "{0, f} \<subseteq> taken_set s" using assms by (auto simp: taken_set_def pmm_inv_def word_greater_zero_iff unat_gt_0)
  then have "card {0, f} \<le> card (taken_set s)" by (rule card_mono [OF finite_taken_set])
  then have "0 < unat (pmm_used_blocks s)" using assms(1,3) by (auto simp: pmm_inv_def pmm_counts_def)
  then have "unat (pmm_used_blocks s - 1) = unat (pmm_used_blocks s) - 1" "0 < unat (pmm_used_blocks s)"
    by (auto simp: unat_diff_1 unat_gt_0)
  moreover have "card (taken_set ?s) = card (taken_set s) - 1" using t assms(2) by simp
  moreover have "taken ?s 0" using b(2) [of 0] assms by (simp add: pmm_inv_def)
  ultimately have "pmm_inv ?s"
    using assms(1) by (simp add: pmm_inv_def pmm_counts_def) linarith
  moreover have "pmm_free_block (of_nat f * 4096) s = Inr ?s"
    using b(1) by (simp add: pmm_free_block_def frame_of_address [OF f])
  ultimately show ?thesis using that [of ?s] t by blast
qed

section \<open>The allocator as an interface\<close>

fun alloc_seq :: "('s \<Rightarrow> (u32 \<times> 's) res) \<Rightarrow> nat \<Rightarrow> 's \<Rightarrow> (u32 list \<times> 's) res" where
  "alloc_seq alloc 0 s = Inr ([], s)"
| "alloc_seq alloc (Suc n) s =
     bindE (alloc s) (\<lambda>(p, s1). bindE (alloc_seq alloc n s1) (\<lambda>(ps, s2). Inr (p # ps, s2)))"

fun release_seq :: "(u32 \<Rightarrow> 's \<Rightarrow> 's res) \<Rightarrow> u32 list \<Rightarrow> 's \<Rightarrow> 's res" where
  "release_seq release [] s = Inr s"
| "release_seq release (p # ps) s = bindE (release p s) (release_seq release ps)"

locale block_allocator =
  fixes alloc :: "'s \<Rightarrow> (u32 \<times> 's) res"
    and release :: "u32 \<Rightarrow> 's \<Rightarrow> 's res"
    and inv :: "'s \<Rightarrow> bool"
    and held :: "'s \<Rightarrow> u32 set"
  assumes alloc: "inv s \<Longrightarrow> \<exists>p s'. alloc s = Inr (p, s') \<and> inv s' \<and>
      (if p = 0 then s' = s else p \<notin> held s \<and> held s' = insert p (held s))"
    and release: "inv s \<Longrightarrow> p \<in> held s \<Longrightarrow> p \<noteq> 0 \<Longrightarrow>
      \<exists>s'. release p s = Inr s' \<and> inv s' \<and> held s' = held s - {p}"
begin

lemma alloc_seq_ok:
  "inv s \<Longrightarrow> \<exists>ps s'. alloc_seq alloc n s = Inr (ps, s') \<and> inv s' \<and> length ps = n \<and>
     distinct (filter (\<lambda>p. p \<noteq> 0) ps) \<and> (set ps - {0}) \<inter> held s = {} \<and> held s' = held s \<union> (set ps - {0})"
proof (induction n arbitrary: s)
  case 0
  then show ?case by simp
next
  case (Suc n)
  from alloc [OF Suc.prems] obtain p s1 where a: "alloc s = Inr (p, s1)" "inv s1"
    "if p = 0 then s1 = s else p \<notin> held s \<and> held s1 = insert p (held s)" by blast
  from Suc.IH [OF a(2)] obtain ps s2 where b: "alloc_seq alloc n s1 = Inr (ps, s2)" "inv s2" "length ps = n"
    "distinct (filter (\<lambda>p. p \<noteq> 0) ps)" "(set ps - {0}) \<inter> held s1 = {}" "held s2 = held s1 \<union> (set ps - {0})"
    by blast
  have "alloc_seq alloc (Suc n) s = Inr (p # ps, s2)" using a(1) b(1) by simp
  moreover have "distinct (filter (\<lambda>p. p \<noteq> 0) (p # ps)) \<and> (set (p # ps) - {0}) \<inter> held s = {} \<and>
      held s2 = held s \<union> (set (p # ps) - {0})"
    using a(3) b(4-6) by (auto split: if_splits)
  ultimately show ?case using b(2,3) by auto
qed

lemma release_seq_ok:
  "inv s \<Longrightarrow> distinct ps \<Longrightarrow> set ps \<subseteq> held s - {0} \<Longrightarrow>
    \<exists>s'. release_seq release ps s = Inr s' \<and> inv s' \<and> held s' = held s - set ps"
proof (induction ps arbitrary: s)
  case Nil
  then show ?case by simp
next
  case (Cons p ps)
  from release [of s p] Cons.prems obtain s1 where r: "release p s = Inr s1" "inv s1" "held s1 = held s - {p}"
    by auto
  from Cons.IH [OF r(2)] Cons.prems r(3) obtain s2 where
    "release_seq release ps s1 = Inr s2" "inv s2" "held s2 = held s1 - set ps" by auto
  then show ?case using r by auto
qed

lemma alloc_release_seq:
  assumes "inv s"
  shows "\<exists>ps s' s''. alloc_seq alloc n s = Inr (ps, s') \<and>
     release_seq release (filter (\<lambda>p. p \<noteq> 0) ps) s' = Inr s'' \<and> inv s'' \<and> held s'' = held s"
proof -
  from alloc_seq_ok [OF assms] obtain ps s' where a: "alloc_seq alloc n s = Inr (ps, s')" "inv s'"
    "distinct (filter (\<lambda>p. p \<noteq> 0) ps)" "(set ps - {0}) \<inter> held s = {}" "held s' = held s \<union> (set ps - {0})"
    by blast
  from release_seq_ok [OF a(2,3)] a(5) obtain s'' where
    "release_seq release (filter (\<lambda>p. p \<noteq> 0) ps) s' = Inr s''" "inv s''"
    "held s'' = held s' - set (filter (\<lambda>p. p \<noteq> 0) ps)" by auto
  moreover have "held s' - set (filter (\<lambda>p. p \<noteq> 0) ps) = held s" using a(4,5) by auto
  ultimately show ?thesis using a(1) by metis
qed

end

definition held_blocks :: "'s pmm_scheme \<Rightarrow> u32 set" where
  "held_blocks s = (\<lambda>f. of_nat f * 4096) ` taken_set s"

lemma frame_address_inj:
  assumes "f < 2 ^ 20" and "g < 2 ^ 20"
  shows "(of_nat f * 4096 :: u32) = of_nat g * 4096 \<longleftrightarrow> f = g"
proof
  assume "(of_nat f * 4096 :: u32) = of_nat g * 4096"
  then have "(of_nat f :: u32) = of_nat g"
    by (subst frame_of_address [OF assms(1), symmetric], subst frame_of_address [OF assms(2), symmetric])
       (rule arg_cong [where f = "\<lambda>x. x div 4096"])
  then have "unat (of_nat f :: u32) = unat (of_nat g :: u32)" by simp
  then show "f = g" using assms by (simp add: unat_of_nat_u32)
qed simp

lemma taken_set_bound: "pmm_sized s \<Longrightarrow> f \<in> taken_set s \<Longrightarrow> f < 2 ^ 20"
  using taken_setD [of f s] by (simp add: pmm_sized_def)

lemma held_blocks_iff:
  assumes "pmm_sized s" and "f < 2 ^ 20"
  shows "of_nat f * 4096 \<in> held_blocks s \<longleftrightarrow> f \<in> taken_set s"
proof
  assume "of_nat f * 4096 \<in> held_blocks s"
  then obtain g where g: "g \<in> taken_set s" "(of_nat f * 4096 :: u32) = of_nat g * 4096"
    by (auto simp: held_blocks_def)
  then have "f = g" using frame_address_inj [OF assms(2) taken_set_bound [OF assms(1) g(1)]] by simp
  then show "f \<in> taken_set s" using g(1) by simp
qed (auto simp: held_blocks_def)

interpretation frames: block_allocator pmm_alloc_block pmm_free_block pmm_inv held_blocks
proof
  fix s :: "'a pmm_scheme"
  assume inv: "pmm_inv s"
  then have sz: "pmm_sized s" by (auto simp: pmm_inv_def pmm_counts_def)
  from alloc_block_cases [OF inv]
  show "\<exists>p s'. pmm_alloc_block s = Inr (p, s') \<and> pmm_inv s' \<and>
      (if p = 0 then s' = s else p \<notin> held_blocks s \<and> held_blocks s' = insert p (held_blocks s))"
  proof (elim disjE exE conjE)
    fix f t b
    assume a: "pmm_alloc_block s = Inr (of_nat f * 4096, t)" "least_free s f" "f < 2 ^ 20" "0 < f"
      "t = s\<lparr>bitmap_addr := b, pmm_used_blocks := pmm_used_blocks s + 1\<rparr>"
      "\<forall>g < 2 ^ 20. taken t g \<longleftrightarrow> taken s g \<or> g = f"
    have f: "f < unat (pmm_max_blocks s)" "f \<notin> taken_set s"
      using a(2) searched_le [of s] by (auto simp: least_free_def taken_set_def)
    have "taken_set t = insert f (taken_set s)" using a(5,6) f(1) by (intro taken_set_insert [OF sz]) auto
    moreover have "of_nat f * 4096 \<noteq> (0 :: u32)" using frame_address_inj [of f 0] a(3,4) by simp
    moreover have "pmm_inv t" using alloc_block_inv [OF inv a(1)] .
    ultimately show ?thesis using a(1) f(2) held_blocks_iff [OF sz a(3)] by (auto simp: held_blocks_def)
  qed (use inv in simp)
next
  fix s :: "'a pmm_scheme" and p
  assume inv: "pmm_inv s" and p: "p \<in> held_blocks s" "p \<noteq> 0"
  from p(1) obtain f where f: "p = of_nat f * 4096" "f \<in> taken_set s"
    by (auto simp: held_blocks_def)
  have f0: "0 < f" using p(2) f(1) by (cases f) auto
  have sz: "pmm_sized s" using inv by (auto simp: pmm_inv_def pmm_counts_def)
  note lt = taken_set_bound [OF sz]
  from free_block_ok [OF inv f(2) f0] obtain t where t: "pmm_free_block p s = Inr t" "pmm_inv t"
    "taken_set t = taken_set s - {f}" unfolding f(1) by blast
  have "held_blocks t = held_blocks s - {p}"
    using frame_address_inj [OF lt lt [OF f(2)]] unfolding held_blocks_def t(3) f(1) by auto
  then show "\<exists>s'. pmm_free_block p s = Inr s' \<and> pmm_inv s' \<and> held_blocks s' = held_blocks s - {p}"
    using t by blast
qed

section \<open>Regions\<close>

lemma init_region_loop_ok:
  fixes s :: "'s pmm_scheme"
  assumes "pmm_memory_map s" and "a + n \<le> 2 ^ 20"
  shows "\<exists>s' b. init_region_loop n (of_nat a) s = Inr s' \<and>
    s' = s\<lparr>bitmap_addr := b, pmm_used_blocks := pmm_used_blocks s - of_nat n\<rparr> \<and>
    (\<forall>g < 2 ^ 20. taken s' g \<longleftrightarrow> taken s g \<and> \<not> (a \<le> g \<and> g < a + n))"
  using assms
proof (induction n arbitrary: a s)
  case 0
  have "s = s\<lparr>bitmap_addr := bitmap_addr s, pmm_used_blocks := pmm_used_blocks s - of_nat 0\<rparr>" by simp
  then show ?case by (metis init_region_loop.simps(1) add_0_right not_less)
next
  case (Suc n)
  then have a: "a < 2 ^ 20" by simp
  from mmap_unset_ok [OF Suc.prems(1) a] obtain b where
    b: "mmap_unset (of_nat a) s = Inr (s\<lparr>bitmap_addr := b\<rparr>)"
      "\<And>g. g < 2 ^ 20 \<Longrightarrow> taken (s\<lparr>bitmap_addr := b\<rparr>) g \<longleftrightarrow> taken s g \<and> g \<noteq> a" by blast
  let ?s1 = "s\<lparr>bitmap_addr := b, pmm_used_blocks := pmm_used_blocks s - 1\<rparr>"
  from Suc.IH [of ?s1 "Suc a"] Suc.prems obtain c where
    c: "init_region_loop n (of_nat (Suc a)) ?s1 = Inr (?s1\<lparr>bitmap_addr := c, pmm_used_blocks := pmm_used_blocks ?s1 - of_nat n\<rparr>)"
      "\<forall>g < 2 ^ 20. taken (?s1\<lparr>bitmap_addr := c, pmm_used_blocks := pmm_used_blocks ?s1 - of_nat n\<rparr>) g \<longleftrightarrow>
         taken ?s1 g \<and> \<not> (Suc a \<le> g \<and> g < Suc a + n)" by auto
  let ?s2 = "s\<lparr>bitmap_addr := c, pmm_used_blocks := pmm_used_blocks s - of_nat (Suc n)\<rparr>"
  have e: "?s1\<lparr>bitmap_addr := c, pmm_used_blocks := pmm_used_blocks ?s1 - of_nat n\<rparr> = ?s2" by simp
  have "init_region_loop (Suc n) (of_nat a) s = Inr ?s2"
    using b(1) c(1) unfolding e by (simp add: add.commute)
  moreover have "\<forall>g < 2 ^ 20. taken ?s2 g \<longleftrightarrow> taken s g \<and> \<not> (a \<le> g \<and> g < a + Suc n)"
    using c(2) b(2) unfolding e by auto
  ultimately show ?case by blast
qed

lemma deinit_region_loop_ok:
  fixes s :: "'s pmm_scheme"
  assumes "pmm_memory_map s" and "a + n \<le> 2 ^ 20"
  shows "\<exists>s' b. deinit_region_loop n (of_nat a) s = Inr s' \<and>
    s' = s\<lparr>bitmap_addr := b, pmm_used_blocks := pmm_used_blocks s + of_nat n\<rparr> \<and>
    (\<forall>g < 2 ^ 20. taken s' g \<longleftrightarrow> taken s g \<or> a \<le> g \<and> g < a + n)"
  using assms
proof (induction n arbitrary: a s)
  case 0
  have "s = s\<lparr>bitmap_addr := bitmap_addr s, pmm_used_blocks := pmm_used_blocks s + of_nat 0\<rparr>" by simp
  then show ?case by (metis deinit_region_loop.simps(1) add_0_right not_less)
next
  case (Suc n)
  then have a: "a < 2 ^ 20" by simp
  from mmap_set_ok [OF Suc.prems(1) a] obtain b where
    b: "mmap_set (of_nat a) s = Inr (s\<lparr>bitmap_addr := b\<rparr>)"
      "\<And>g. g < 2 ^ 20 \<Longrightarrow> taken (s\<lparr>bitmap_addr := b\<rparr>) g \<longleftrightarrow> taken s g \<or> g = a" by blast
  let ?s1 = "s\<lparr>bitmap_addr := b, pmm_used_blocks := pmm_used_blocks s + 1\<rparr>"
  from Suc.IH [of ?s1 "Suc a"] Suc.prems obtain c where
    c: "deinit_region_loop n (of_nat (Suc a)) ?s1 = Inr (?s1\<lparr>bitmap_addr := c, pmm_used_blocks := pmm_used_blocks ?s1 + of_nat n\<rparr>)"
      "\<forall>g < 2 ^ 20. taken (?s1\<lparr>bitmap_addr := c, pmm_used_blocks := pmm_used_blocks ?s1 + of_nat n\<rparr>) g \<longleftrightarrow>
         taken ?s1 g \<or> Suc a \<le> g \<and> g < Suc a + n" by auto
  let ?s2 = "s\<lparr>bitmap_addr := c, pmm_used_blocks := pmm_used_blocks s + of_nat (Suc n)\<rparr>"
  have e: "?s1\<lparr>bitmap_addr := c, pmm_used_blocks := pmm_used_blocks ?s1 + of_nat n\<rparr> = ?s2" by simp
  have "deinit_region_loop (Suc n) (of_nat a) s = Inr ?s2"
    using b(1) c(1) unfolding e by (simp add: add.commute)
  moreover have "\<forall>g < 2 ^ 20. taken ?s2 g \<longleftrightarrow> taken s g \<or> a \<le> g \<and> g < a + Suc n"
    using c(2) b(2) unfolding e by auto
  ultimately show ?case by blast
qed

lemma mmap_set_high: "2 ^ 20 \<le> f \<Longrightarrow> f < 2 ^ 32 \<Longrightarrow> mmap_set (of_nat f) s = Inl OutOfBounds"
  using unat_of_nat_u32 [of f] div_le_mono [of "2 ^ 20" f 32]
  by (simp add: mmap_set_def map_get_def word_less_nat_alt unat_div)

lemma deinit_region_loop_high:
  fixes s :: "'s pmm_scheme"
  assumes "2 ^ 20 < a + n" and "a \<le> 2 ^ 20"
  shows "deinit_region_loop n (of_nat a) s = Inl OutOfBounds"
  using assms
proof (induction n arbitrary: a s)
  case (Suc n)
  show ?case
  proof (cases "a = 2 ^ 20 \<or> \<not> pmm_memory_map s")
    case True
    then have "mmap_set (of_nat a) s = Inl OutOfBounds"
      using mmap_set_high [of a s] by (auto simp: mmap_set_def map_get_def)
    then show ?thesis by simp
  next
    case False
    then have "a < 2 ^ 20" "pmm_memory_map s" using Suc.prems by simp_all
    from mmap_set_ok [OF this(2,1)] obtain t where "mmap_set (of_nat a) s = Inr t" by blast
    then show ?thesis using Suc.IH [of "Suc a"] Suc.prems False by (simp add: add.commute)
  qed
qed simp

section \<open>Properties\<close>

lemma region_frames: "unat ((x::u32) div 4096) = unat x div 4096" "x div 4096 = of_nat (unat x div 4096)"
  using word_unat_eq_iff [of "x div 4096" "of_nat (unat x div 4096)"] unat_of_nat_u32 [of "unat x div 4096"] unat_u32_le [of x]
  by (simp_all add: unat_div)

definition region :: "u32 \<Rightarrow> u32 \<Rightarrow> nat set" where
  "region base sz = {unat base div 4096 ..< unat base div 4096 + unat sz div 4096}"

definition small_pmm :: "pmm" where
  "small_pmm = console.extend empty_console
     \<lparr>pmm_memory_size = 0x20000, pmm_used_blocks = 1, pmm_max_blocks = 32, pmm_memory_map = True,
      bitmap_addr = (\<lambda>i. if i = 0 then 1 else 0)\<rparr>"

lemma small_pmm_fields:
  "pmm_max_blocks small_pmm = 32" "pmm_used_blocks small_pmm = 1" "pmm_memory_map small_pmm"
  "bitmap_addr small_pmm = (\<lambda>i. if i = 0 then 1 else 0)"
  by (simp_all add: small_pmm_def console.defs)

lemma small_pmm_taken: "f < 32 \<Longrightarrow> taken small_pmm f \<longleftrightarrow> f = 0"
  by (simp add: taken_def small_pmm_fields bit_1_iff)

lemma small_pmm_taken_set: "taken_set small_pmm = {0}"
  by (auto simp: taken_set_def small_pmm_fields small_pmm_taken)

lemma small_pmm_counts: "pmm_counts 0 small_pmm"
  by (simp add: pmm_counts_def pmm_sized_def small_pmm_fields small_pmm_taken_set)

lemma small_pmm_inv: "pmm_inv small_pmm"
  by (simp add: pmm_inv_def small_pmm_counts small_pmm_fields small_pmm_taken)

text \<open>
  While some frame of the searched dwords is free, \<^verbatim>\<open>pmm_alloc_block\<close> returns the address of the
  lowest free frame, marks that frame and no other as taken, and counts it; the invariant is kept.
\<close>

theorem pmm_alloc_block_least:
  fixes s :: "'s pmm_scheme"
  assumes "pmm_inv s" and "f < 32 * (unat (pmm_max_blocks s) div 32)" and "\<not> taken s f"
    and "\<forall>g < f. taken s g"
  shows "\<exists>s' b. pmm_alloc_block s = Inr (of_nat (4096 * f), s') \<and> pmm_inv s' \<and>
    s' = s\<lparr>bitmap_addr := b, pmm_used_blocks := pmm_used_blocks s + 1\<rparr> \<and>
    (\<forall>g < 2 ^ 20. taken s' g \<longleftrightarrow> taken s g \<or> g = f)"
  using alloc_block_cases [OF assms(1)]
proof (elim disjE exE conjE)
  fix h t b
  assume a: "pmm_alloc_block s = Inr (of_nat h * 4096, t)" "least_free s h"
    "t = s\<lparr>bitmap_addr := b, pmm_used_blocks := pmm_used_blocks s + 1\<rparr>"
    "\<forall>g < 2 ^ 20. taken t g \<longleftrightarrow> taken s g \<or> g = h"
  have "h = f" using a(2) assms(3,4) by (meson least_free_def linorder_neqE_nat)
  then show ?thesis using a alloc_block_inv [OF assms(1) a(1)] by (auto simp: mult.commute)
qed (use assms(2,3) in \<open>auto simp: searched_def\<close>)

theorem pmm_alloc_block_least_witness:
  "\<exists>s'. pmm_alloc_block small_pmm = Inr (4096, s') \<and> pmm_inv s' \<and> taken s' 1"
  using pmm_alloc_block_least [of small_pmm 1] small_pmm_inv small_pmm_taken
  by (fastforce simp: small_pmm_fields)

text \<open>
  \<^verbatim>\<open>pmm_alloc_block\<close> returns 0 exactly when every frame of the searched dwords is taken: those
  below the block count rounded down to a multiple of 32.
\<close>

theorem pmm_alloc_block_exhausted:
  fixes s :: "'s pmm_scheme"
  assumes "pmm_inv s"
  shows "(\<exists>s'. pmm_alloc_block s = Inr (0, s')) \<longleftrightarrow> (\<forall>f < 32 * (unat (pmm_max_blocks s) div 32). taken s f)"
  using alloc_block_cases [OF assms]
proof (elim disjE exE conjE)
  fix h t b
  assume a: "pmm_alloc_block s = Inr (of_nat h * 4096, t)" "least_free s h" "0 < h" "h < 2 ^ 20"
  then have "of_nat h * 4096 \<noteq> (0 :: u32)" using frame_address_inj [of h 0] by simp
  then show ?thesis using a by (auto simp: least_free_def searched_def)
qed (auto simp: searched_def)

lemma mmap_unset_set:
  fixes s :: "'s pmm_scheme"
  assumes "f < 2 ^ 20" and "\<not> taken s f" and "mmap_set (of_nat f) s = Inr t"
  shows "mmap_unset (of_nat f) (t\<lparr>pmm_used_blocks := u\<rparr>) = Inr (s\<lparr>pmm_used_blocks := u\<rparr>)"
proof -
  let ?i = "of_nat (f div 32) :: u32"
  have map: "pmm_memory_map s" using assms(3) by (auto simp: mmap_set_def map_get_def split: if_splits)
  have t: "t = s\<lparr>bitmap_addr := (bitmap_addr s)(?i := bitmap_addr s ?i OR 2 ^ (f mod 32))\<rparr>"
    using assms(3) frame_index [OF assms(1)] map by (simp add: mmap_set_def map_get_def map_put_def)
  have "(bitmap_addr s ?i OR 2 ^ (f mod 32)) AND NOT (2 ^ (f mod 32)) = bitmap_addr s ?i"
    using assms(2) by (intro bit_word_eqI) (auto simp: taken_def bit_simps)
  then show ?thesis
    using frame_index [OF assms(1)] map by (simp add: t mmap_unset_def map_get_def map_put_def)
qed

text \<open>
  C24: Freeing the block just allocated gives back the very state before the allocation, bitmap and
  counters included.
\<close>

theorem pmm_alloc_free_roundtrip:
  fixes s :: "'s pmm_scheme"
  assumes "pmm_inv s" and "pmm_alloc_block s = Inr (p, s')" and "p \<noteq> 0"
  shows "pmm_free_block p s' = Inr s"
proof -
  have sz: "pmm_sized s" using assms(1) by (auto simp: pmm_inv_def pmm_counts_def)
  from mmap_first_free_ok [OF sz] assms(2,3) obtain f where
    f: "mmap_first_free s = Inr (of_nat f)" "least_free s f"
    by (auto simp: pmm_alloc_block_def split: if_splits)
  then have lt: "f < 2 ^ 20" using sz searched_le [of s] by (simp add: least_free_def pmm_sized_def)
  from f(1) assms(2,3) obtain t where t: "mmap_set (of_nat f) s = Inr t" "p = of_nat f * 4096"
      "s' = t\<lparr>pmm_used_blocks := pmm_used_blocks t + 1\<rparr>"
    by (auto simp: pmm_alloc_block_def bindE_eq_Inr split: if_splits)
  moreover have "pmm_used_blocks t = pmm_used_blocks s"
    using t(1) by (auto simp: mmap_set_def map_get_def map_put_def bindE_eq_Inr split: if_splits)
  ultimately show ?thesis
    using mmap_unset_set [OF lt _ t(1)] f(2)
    by (simp add: pmm_free_block_def frame_of_address [OF lt] least_free_def)
qed

theorem pmm_alloc_free_roundtrip_witness:
  "\<exists>s'. pmm_alloc_block small_pmm = Inr (4096, s') \<and> pmm_free_block 4096 s' = Inr small_pmm"
proof -
  have "first_free_loop 0 small_pmm = Inr 1"
    by (simp add: first_free_loop.simps pmm_get_block_count_def small_pmm_fields map_get_def scan_dword.simps)
  then obtain s' where "pmm_alloc_block small_pmm = Inr (4096, s')"
    by (simp add: pmm_alloc_block_def mmap_first_free_def pmm_get_free_block_count_def small_pmm_fields
        mmap_set_def map_get_def map_put_def)
  then show ?thesis using pmm_alloc_free_roundtrip [OF small_pmm_inv] by fastforce
qed

text \<open>
  C23: Any number of allocations in a row return blocks that are pairwise different and different
  from every block held before, 0 for those that fail, and the blocks held afterwards are exactly
  these and the old ones.
\<close>

theorem pmm_alloc_seq_distinct:
  fixes s :: "'s pmm_scheme"
  assumes "pmm_inv s"
  shows "\<exists>ps s'. alloc_seq pmm_alloc_block n s = Inr (ps, s') \<and> pmm_inv s' \<and> length ps = n \<and>
     distinct (filter (\<lambda>p. p \<noteq> 0) ps) \<and> (set ps - {0}) \<inter> held_blocks s = {} \<and>
     held_blocks s' = held_blocks s \<union> (set ps - {0})"
  using assms by (rule frames.alloc_seq_ok)

lemma init_region_ok:
  fixes s :: "'s pmm_scheme"
  assumes "pmm_memory_map s" and "unat base div 4096 + unat sz div 4096 \<le> 2 ^ 20"
  obtains b s' where "pmm_init_region base sz s = Inr s'"
    and "s' = s\<lparr>bitmap_addr := b, pmm_used_blocks := pmm_used_blocks s - sz div 4096\<rparr>"
    and "\<And>g. g < 2 ^ 20 \<Longrightarrow> taken s' g \<longleftrightarrow> g = 0 \<or> taken s g \<and> g \<notin> region base sz"
proof -
  from init_region_loop_ok [OF assms] obtain b s1 where
    l: "init_region_loop (unat sz div 4096) (of_nat (unat base div 4096)) s = Inr s1"
    "s1 = s\<lparr>bitmap_addr := b, pmm_used_blocks := pmm_used_blocks s - of_nat (unat sz div 4096)\<rparr>"
    "\<forall>g < 2 ^ 20. taken s1 g \<longleftrightarrow> taken s g \<and> \<not> (unat base div 4096 \<le> g \<and> g < unat base div 4096 + unat sz div 4096)"
    by blast
  from mmap_set_ok [of s1 0] assms(1) l(2) obtain c where
    c: "mmap_set 0 s1 = Inr (s1\<lparr>bitmap_addr := c\<rparr>)"
      "\<And>g. g < 2 ^ 20 \<Longrightarrow> taken (s1\<lparr>bitmap_addr := c\<rparr>) g \<longleftrightarrow> taken s1 g \<or> g = 0" by auto
  have "pmm_init_region base sz s = Inr (s1\<lparr>bitmap_addr := c\<rparr>)"
    unfolding pmm_init_region_def region_frames(1) using l(1) c(1) by (simp add: region_frames(2) [symmetric])
  moreover have "s1\<lparr>bitmap_addr := c\<rparr> = s\<lparr>bitmap_addr := c, pmm_used_blocks := pmm_used_blocks s - sz div 4096\<rparr>"
    unfolding l(2) by (simp add: region_frames(2) [symmetric])
  moreover have "taken (s1\<lparr>bitmap_addr := c\<rparr>) g \<longleftrightarrow> g = 0 \<or> taken s g \<and> g \<notin> region base sz" if "g < 2 ^ 20" for g
    using c(2) [OF that] l(3) that by (auto simp: region_def)
  ultimately show ?thesis using that [of "s1\<lparr>bitmap_addr := c\<rparr>" c] by blast
qed

text \<open>
  \<^verbatim>\<open>pmm_init_region\<close> makes exactly the whole frames of the region free, keeps frame 0 taken, and
  takes the number of frames of the region off the used count.
\<close>

theorem pmm_init_region_marks:
  fixes s :: "'s pmm_scheme"
  assumes "pmm_memory_map s" and "unat base div 4096 + unat sz div 4096 \<le> 2 ^ 20"
  shows "\<exists>s'. pmm_init_region base sz s = Inr s' \<and>
    (\<forall>g < 2 ^ 20. taken s' g \<longleftrightarrow> g = 0 \<or> taken s g \<and> g \<notin> region base sz) \<and>
    pmm_used_blocks s' = pmm_used_blocks s - sz div 4096"
  by (rule init_region_ok [OF assms]) auto

theorem pmm_init_region_marks_witness:
  "\<exists>s'. pmm_init_region 0x1000 0x2000 small_pmm = Inr s' \<and> \<not> taken s' 2 \<and> taken s' 0"
  using pmm_init_region_marks [of small_pmm "0x1000" "0x2000"]
  by (auto simp: small_pmm_fields region_def)

theorem pmm_alloc_block_exhausted_witness:
  "\<not> (\<exists>s'. pmm_alloc_block small_pmm = Inr (0, s'))"
proof -
  have "1 < 32 * (unat (pmm_max_blocks small_pmm) div 32)" "\<not> taken small_pmm 1"
    by (simp_all add: small_pmm_fields small_pmm_taken)
  then show ?thesis unfolding pmm_alloc_block_exhausted [OF small_pmm_inv] by blast
qed

theorem pmm_alloc_seq_distinct_witness:
  "\<exists>ps s'. alloc_seq pmm_alloc_block 3 small_pmm = Inr (ps, s') \<and> length ps = 3 \<and>
     distinct (filter (\<lambda>p. p \<noteq> 0) ps)"
  using pmm_alloc_seq_distinct [OF small_pmm_inv, of 3] by blast


lemma card_region: "card (region base sz) = unat sz div 4096" "finite (region base sz)"
  by (simp_all add: region_def)

lemma init_region_used:
  fixes s :: "'s pmm_scheme"
  assumes "pmm_sized s" and "taken s 0" and "region base sz \<subseteq> taken_set s"
  obtains s' b where "pmm_init_region base sz s = Inr s'" and "taken_set s' = taken_set s - (region base sz - {0})"
    and "s' = s\<lparr>bitmap_addr := b, pmm_used_blocks := pmm_used_blocks s - sz div 4096\<rparr>"
proof -
  let ?a = "unat base div 4096" and ?n = "unat sz div 4096"
  have "?a + ?n \<le> 2 ^ 20"
  proof (cases "?n = 0")
    case True
    then show ?thesis using unat_u32_le [of base] by simp
  next
    case False
    then have "?a + ?n - 1 \<in> region base sz" by (auto simp: region_def)
    then show ?thesis using taken_set_bound [OF assms(1)] assms(3) by fastforce
  qed
  moreover have "pmm_memory_map s" using assms(1) by (simp add: pmm_sized_def)
  ultimately obtain b s' where s': "pmm_init_region base sz s = Inr s'"
      "s' = s\<lparr>bitmap_addr := b, pmm_used_blocks := pmm_used_blocks s - sz div 4096\<rparr>"
      "\<And>g. g < 2 ^ 20 \<Longrightarrow> taken s' g \<longleftrightarrow> g = 0 \<or> taken s g \<and> g \<notin> region base sz"
    using init_region_ok by blast
  have "taken_set s' = taken_set s - (region base sz - {0})"
    using s'(2,3) assms by (auto simp: taken_set_def pmm_sized_def)
  then show ?thesis using that s'(1,2) by blast
qed

text \<open>
  C25: If the used count is right before, it is right after \<^verbatim>\<open>pmm_init_region\<close> of taken frames, unless
  the region contains frame 0: then the final \<^verbatim>\<open>mmap_set(0)\<close> is not counted and the used count is one
  too small.
\<close>

theorem pmm_init_region_counts:
  fixes s :: "'s pmm_scheme"
  assumes "pmm_counts d s" and "taken s 0" and "0 < pmm_max_blocks s" and "region base sz \<subseteq> taken_set s"
    and "d = 0 \<or> d = 1 \<and> 0 \<notin> region base sz"
  shows "\<exists>s'. pmm_init_region base sz s = Inr s' \<and> pmm_counts (if 0 \<in> region base sz then 1 else d) s'"
proof -
  let ?R = "region base sz" and ?n = "unat sz div 4096"
  have sz: "pmm_sized s" using assms(1) by (simp add: pmm_counts_def)
  from init_region_used [OF sz assms(2,4)] obtain s' b where
    s': "pmm_init_region base sz s = Inr s'" "taken_set s' = taken_set s - (?R - {0})"
    "s' = s\<lparr>bitmap_addr := b, pmm_used_blocks := pmm_used_blocks s - sz div 4096\<rparr>" by blast
  have z: "0 \<in> taken_set s" using assms(2,3) by (simp add: taken_set_def word_less_nat_alt)
  have sub: "?R - {0} \<subseteq> taken_set s" "insert 0 ?R \<subseteq> taken_set s" using assms(4) z by auto
  have c: "card (taken_set s') = card (taken_set s) - card (?R - {0})"
    using s'(2) card_Diff_subset [OF _ sub(1)] card_region by simp
  have r: "card (?R - {0}) = (if 0 \<in> ?R then ?n - 1 else ?n)" "0 \<in> ?R \<Longrightarrow> 0 < ?n"
    using card_region [of base sz] card_gt_0_iff [of ?R] by auto
  have le: "card (insert 0 ?R) \<le> card (taken_set s)" by (rule card_mono [OF finite_taken_set sub(2)])
  then have le: "(if 0 \<in> ?R then ?n else Suc ?n) \<le> unat (pmm_used_blocks s) + d"
    using assms(1) card_region [of base sz] by (auto simp: pmm_counts_def insert_absorb)
  then have n: "?n \<le> unat (pmm_used_blocks s)" using assms(5) by (auto split: if_splits)
  then have "unat (pmm_used_blocks s') = unat (pmm_used_blocks s) - ?n"
    using s'(3) region_frames(1) [of sz] by (simp add: unat_sub word_le_nat_alt)
  then have "pmm_counts (if 0 \<in> ?R then 1 else d) s'"
    using c r n assms(1,5) s'(3) by (auto simp: pmm_counts_def split: if_splits)
  then show ?thesis using s'(1) by blast
qed

theorem pmm_init_region_counts_witness:
  "\<exists>s'. pmm_init_region 0 0x1000 small_pmm = Inr s' \<and> pmm_counts 1 s'"
  using pmm_init_region_counts [OF small_pmm_counts, of 0 "0x1000"] small_pmm_taken [of 0]
  by (simp add: region_def small_pmm_fields small_pmm_taken_set)

lemma taken_init_pmm:
  assumes "g < 8 * (unat m div 4096 div 8)"
  shows "taken (init_pmm m s) g"
proof -
  let ?n = "unat m div 4096 div 8"
  have "g < 2 ^ 32" using assms unat_u32_le [of m] by simp
  then have i: "unat (of_nat (g div 32) :: u32) = g div 32" by (intro unat_of_nat_u32) simp
  have "g = 32 * (g div 32) + g mod 32" by simp
  then have "g mod 32 < 8 * (?n - 4 * (g div 32))" using assms by linarith
  moreover have "g mod 32 < 32" by simp
  ultimately have "g mod 32 < 8 * min 4 (?n - 4 * (g div 32))" by (simp add: min_def)
  then show ?thesis
    using i by (simp add: taken_def init_pmm_def Let_def fill_ff_def bit_simps pmm_get_block_count_def pmm_get_memory_size_def unat_div)
qed

text \<open>
  After \<^verbatim>\<open>init_pmm\<close>, for a memory of a multiple of 8 frames, every frame is taken, none is
  counted as free and the invariant of the manager holds.
\<close>

theorem init_pmm_all_taken:
  fixes s :: "'s pmm_scheme"
  assumes "8 dvd unat m div 4096" and "4096 \<le> m"
  shows "pmm_inv (init_pmm m s) \<and> (\<forall>f < unat m div 4096. taken (init_pmm m s) f) \<and>
    pmm_get_free_block_count (init_pmm m s) = 0"
proof -
  let ?s = "init_pmm m s" and ?n = "unat m div 4096"
  have f: "pmm_max_blocks ?s = m div 4096" "pmm_used_blocks ?s = m div 4096" "pmm_memory_map ?s"
    by (simp_all add: init_pmm_def Let_def pmm_get_block_count_def pmm_get_memory_size_def)
  have t: "taken ?s g" if "g < ?n" for g using that assms(1) by (intro taken_init_pmm) simp
  have n: "0 < ?n" using assms(2) by (simp add: word_le_nat_alt div_greater_zero_iff)
  have "taken_set ?s = {..<?n}" using t f(1) by (auto simp: taken_set_def unat_div)
  moreover have "?n \<le> 2 ^ 20" using unat_u32_le [of m] by simp
  moreover have "0 < m div 4096" using n by (simp add: word_less_nat_alt unat_div)
  ultimately show ?thesis
    using f t n by (simp add: pmm_inv_def pmm_counts_def pmm_sized_def unat_div pmm_get_free_block_count_def)
qed

theorem init_pmm_all_taken_witness:
  "pmm_inv (init_pmm 0x8000000 small_pmm) \<and> taken (init_pmm 0x8000000 small_pmm) 32767"
  using init_pmm_all_taken [of "0x8000000" small_pmm] by simp

text \<open>
  The second \<^verbatim>\<open>pmm_deinit_region\<close> call of \<^verbatim>\<open>kmain\<close>, on the virtual address of the end of the kernel,
  leaves the bitmap: for every kernel end from 0xC0100000 below 0xC0400000 the size wraps around
  and the loop runs past frame 2 ^ 20.
\<close>

lemma pmm_deinit_heap_out_of_bounds:
  fixes s :: "'s pmm_scheme"
  assumes "0xC0100000 \<le> kernel_end" and "kernel_end < 0xC0400000"
  shows "pmm_deinit_region kernel_end (0x400000 - kernel_end) s = Inl OutOfBounds"
proof -
  have k: "0xC0100000 \<le> unat kernel_end" "unat kernel_end < 0xC0400000"
    using assms by (simp_all add: word_le_nat_alt word_less_nat_alt)
  have d: "unat (0x400000 - kernel_end) = 2 ^ 32 + 0x400000 - unat kernel_end"
    using k by (simp add: unat_sub_if_size word_size)
  show ?thesis
    unfolding pmm_deinit_region_def region_frames(1) region_frames(2) [of kernel_end] d
  proof (rule deinit_region_loop_high)
    define q where "q = unat kernel_end div 4096"
    have q: "unat kernel_end = 4096 * q + unat kernel_end mod 4096" "unat kernel_end mod 4096 < 4096"
      by (simp_all add: q_def)
    have "(1049599 - q) * 4096 \<le> 2 ^ 32 + 4194304 - unat kernel_end" using q k by simp
    then have "1049599 - q \<le> (2 ^ 32 + 4194304 - unat kernel_end) div 4096"
      by (simp add: less_eq_div_iff_mult_less_eq)
    moreover have "q \<le> 1000000" using q k by simp
    ultimately show "2 ^ 20 < unat kernel_end div 4096 + (2 ^ 32 + 4194304 - unat kernel_end) div 4096"
      "unat kernel_end div 4096 \<le> 2 ^ 20" unfolding q_def [symmetric] by simp_all
  qed
qed

lemma pmm_deinit_heap_out_of_bounds_witness:
  "pmm_deinit_region 0xC0150000 (0x400000 - 0xC0150000) small_pmm = Inl OutOfBounds"
  using pmm_deinit_heap_out_of_bounds [of "0xC0150000" small_pmm] by simp

definition fragmented_pmm :: pmm where
  "fragmented_pmm = small_pmm\<lparr>pmm_max_blocks := 64, pmm_used_blocks := 31,
     bitmap_addr := (\<lambda>i. if i = 0 then 0xFFFFFFDF else 0)\<rparr>"

text \<open>
  \<^verbatim>\<open>pmm_alloc_blocks\<close> may return a run that is in use: with frame 5 free and frame 6 taken, a
  request for two frames gets frames 5 and 6, because the frames tested are those from number 2 ^
  5 on.
\<close>

theorem pmm_alloc_blocks_overlaps:
  "taken fragmented_pmm 6 \<and> (\<exists>s'. pmm_alloc_blocks 2 fragmented_pmm = Inr (5 * 4096, s'))"
proof -
  note defs = fragmented_pmm_def small_pmm_fields
  have test: "mmap_test b fragmented_pmm = Inr (bitmap_addr fragmented_pmm (b div 32) AND 2 ^ unat (b mod 32) \<noteq> 0)"
    if "uint b < 64" for b
    using that by (simp add: mmap_test_def sint_u32_if map_get_def defs word_less_def uint_div)
  have run: "free_run 3 0 2 32 fragmented_pmm = Inr True"
    by (simp add: numeral_3_eq_3 test) (simp add: defs)
  have bits: "(0xFFFFFFDF :: u32) AND 2 ^ j = 0 \<longleftrightarrow> j = 5" if "j < 6" for j
    using that by (auto simp: dword_test less_Suc_eq numeral_eq_Suc)
  have scan: "scan_dword_s 0 0xFFFFFFDF j 2 fragmented_pmm = scan_dword_s 0 0xFFFFFFDF (Suc j) 2 fragmented_pmm"
    if "j < 5" for j
    using that bits [of j] by (simp add: scan_dword_s.simps [of _ _ j])
  have "scan_dword_s 0 0xFFFFFFDF 5 2 fragmented_pmm = Inr (Some 5)"
    using run bits [of 5] by (simp add: scan_dword_s.simps)
  then have "scan_dword_s 0 0xFFFFFFDF 0 2 fragmented_pmm = Inr (Some 5)"
    using scan [of 0] scan [of 1] scan [of 2] scan [of 3] scan [of 4] by (simp add: eval_nat_numeral)
  then have "first_free_s_loop 2 0 fragmented_pmm = Inr 5"
    by (simp add: first_free_s_loop.simps pmm_get_block_count_def map_get_def defs)
  moreover have "set_run 2 f s = bindE (mmap_set f s) (\<lambda>s1. bindE (mmap_set (f + 1) s1) Inr)" for f and s :: pmm
    by (cases "mmap_set f s") (simp_all add: numeral_2_eq_2 bindE_def split: sum.split)
  ultimately show ?thesis
    by (simp add: taken_def pmm_alloc_blocks_def mmap_first_free_s_def pmm_get_free_block_count_def
        mmap_set_def map_get_def map_put_def defs)
qed

end
