(* ===== verification/Interrupts.thy ===== *)
theory Interrupts
  imports Pmm
begin

text \<open>
  Interrupts: the two 8259 controllers (\<^verbatim>\<open>src/src/kernel/drivers/pic.c\<close>) and the table of
  handlers (\<^verbatim>\<open>src/src/kernel/isr.c\<close>). A handler is the address of a function; the call
  through the table is an argument of the two dispatch functions, which maps the address,
  the saved registers and the state to the result of the call. The saved registers are
  passed by value here: a handler that writes to them changes what the stub restores on
  return, which is outside this model.

  The last part gives the port accesses their meaning: \<open>pic\<close> is the documented
  initialisation protocol of one 8259 (ICW1 to ICW4, then the mask register and the
  end-of-interrupt command), and \<open>pic_after\<close> runs it over a log of accesses.
\<close>

section \<open>The interrupt controllers\<close>

abbreviation (input) PIC1 :: u16 where "PIC1 \<equiv> 0x20"
abbreviation (input) PIC2 :: u16 where "PIC2 \<equiv> 0xA0"
abbreviation (input) PIC1_COMMAND :: u16 where "PIC1_COMMAND \<equiv> PIC1"
abbreviation (input) PIC1_DATA :: u16 where "PIC1_DATA \<equiv> PIC1 + 1"
abbreviation (input) PIC2_COMMAND :: u16 where "PIC2_COMMAND \<equiv> PIC2"
abbreviation (input) PIC2_DATA :: u16 where "PIC2_DATA \<equiv> PIC2 + 1"
abbreviation (input) PIC_EOI :: u8 where "PIC_EOI \<equiv> 0x20"
abbreviation (input) ICW1_ICW4 :: u8 where "ICW1_ICW4 \<equiv> 0x01"
abbreviation (input) ICW1_INIT :: u8 where "ICW1_INIT \<equiv> 0x10"
abbreviation (input) ICW4_8086 :: u8 where "ICW4_8086 \<equiv> 0x01"

definition pic_init :: "u8 \<Rightarrow> u8 \<Rightarrow> iolog \<Rightarrow> iolog" where
  "pic_init offset1 offset2 l0 =
     (let l1 = outb PIC1_COMMAND (ICW1_INIT + ICW1_ICW4) l0;
          l2 = outb PIC2_COMMAND (ICW1_INIT + ICW1_ICW4) l1;
          l3 = outb PIC1_DATA offset1 l2;
          l4 = outb PIC2_DATA offset2 l3;
          l5 = outb PIC1_DATA 4 l4;
          l6 = outb PIC2_DATA 2 l5;
          l7 = outb PIC1_DATA ICW4_8086 l6;
          l8 = outb PIC2_DATA ICW4_8086 l7;
          l9 = outb PIC1_DATA 0 l8
      in outb PIC2_DATA 0 l9)"

definition ack_irq :: "u8 \<Rightarrow> iolog \<Rightarrow> iolog" where
  "ack_irq irq l = outb PIC1 PIC_EOI (if 0x28 \<le> irq then outb PIC2 PIC_EOI l else l)"

text \<open>
  The port and the line number that \<^verbatim>\<open>enable_irq\<close> and \<^verbatim>\<open>disable_irq\<close> compute from their signed
  argument. A negative line number is a negative shift count, which C leaves undefined; the
  model has no bit for it.
\<close>

definition irq_line :: "u8 \<Rightarrow> u16 \<times> u8" where
  "irq_line irq_port = (if sint irq_port < 8 then (PIC1_DATA, irq_port) else (PIC2_DATA, irq_port - 8))"

definition enable_irq :: "device \<Rightarrow> u8 \<Rightarrow> iolog \<Rightarrow> iolog" where
  "enable_irq d irq_port l =
     (let (port, line) = irq_line irq_port;
          (v, l1) = inb d port l;
          value = ucast ((ucast v :: u32) AND NOT (push_bit (unat line) 1)) :: u8
      in outb port value l1)"

definition disable_irq :: "device \<Rightarrow> u8 \<Rightarrow> iolog \<Rightarrow> iolog" where
  "disable_irq d irq_port l =
     (let (port, line) = irq_line irq_port;
          (v, l1) = inb d port l;
          value = ucast ((ucast v :: u32) OR push_bit (unat line) 1) :: u8
      in outb port value l1)"

section \<open>Handlers\<close>

record registers =
  r_ds :: u32
  r_edi :: u32
  r_esi :: u32
  r_ebp :: u32
  r_esp :: u32
  r_ebx :: u32
  r_edx :: u32
  r_ecx :: u32
  r_eax :: u32
  r_int_no :: u32
  r_err_code :: u32
  r_eip :: u32
  r_cs :: u32
  r_eflags :: u32
  r_useresp :: u32
  r_ss :: u32

record isr = pmm +
  interrupt_handlers :: "u32 \<Rightarrow> u32"

type_synonym 's call = "u32 \<Rightarrow> registers \<Rightarrow> 's \<Rightarrow> 's res"

definition isr_handler :: "('s isr_scheme) call \<Rightarrow> registers \<Rightarrow> 's isr_scheme \<Rightarrow> 's isr_scheme res" where
  "isr_handler call regs s =
     (if 256 \<le> r_int_no regs then Inl OutOfBounds
      else if interrupt_handlers s (r_int_no regs) \<noteq> 0
      then call (interrupt_handlers s (r_int_no regs)) regs s
      else bindE (printf (lit ''[ISR HANDLER] unhandled interrupt: %d, error_code: %d'' @ [10])
                    [r_int_no regs, r_err_code regs] s) (\<lambda>_. Inl Panic))"

definition irq_handler :: "('s isr_scheme) call \<Rightarrow> registers \<Rightarrow> 's isr_scheme \<Rightarrow> 's isr_scheme res" where
  "irq_handler call regs s =
     (let s1 = s\<lparr>iolog := ack_irq (ucast (r_int_no regs)) (iolog s)\<rparr>
      in if 256 \<le> r_int_no regs then Inl OutOfBounds
         else if interrupt_handlers s1 (r_int_no regs) \<noteq> 0
         then call (interrupt_handlers s1 (r_int_no regs)) regs s1
         else Inr s1)"

definition register_interrupt_handler :: "u32 \<Rightarrow> u32 \<Rightarrow> 's isr_scheme \<Rightarrow> 's isr_scheme" where
  "register_interrupt_handler n handler s =
     (if n < 256 then s\<lparr>interrupt_handlers := (interrupt_handlers s)(n := handler)\<rparr> else s)"

section \<open>What the controllers make of the port accesses\<close>

datatype pic_phase = Ready | ICW2 | ICW3 | ICW4

record pic =
  phase :: pic_phase
  vec :: u8
  cascade :: u8
  mode8086 :: bool
  pmask :: u8
  eois :: nat

definition pic_write :: "bool \<Rightarrow> u8 \<Rightarrow> pic \<Rightarrow> pic" where
  "pic_write data v p =
     (if \<not> data then (if bit v 4 then p\<lparr>phase := ICW2, pmask := 0\<rparr>
                        else if v = 0x20 then p\<lparr>eois := Suc (eois p)\<rparr> else p)
      else case phase p of
          ICW2 \<Rightarrow> p\<lparr>phase := ICW3, vec := v\<rparr>
        | ICW3 \<Rightarrow> p\<lparr>phase := ICW4, cascade := v\<rparr>
        | ICW4 \<Rightarrow> p\<lparr>phase := Ready, mode8086 := bit v 0\<rparr>
        | Ready \<Rightarrow> p\<lparr>pmask := v\<rparr>)"

fun pic_event :: "u16 \<Rightarrow> pic \<Rightarrow> io_event \<Rightarrow> pic" where
  "pic_event base p (Outb port v) =
     (if port = base then pic_write False v p else if port = base + 1 then pic_write True v p else p)"
| "pic_event base p _ = p"

definition pic_after :: "u16 \<Rightarrow> pic \<Rightarrow> iolog \<Rightarrow> pic" where
  "pic_after base p l = foldl (pic_event base) p l"

text \<open>
  \<^verbatim>\<open>pic_init\<close> programs both controllers completely, whatever state they were in: each gets its
  vector offset, its place in the cascade (slave on line 2), the 8086 mode and an empty mask, and
  is ready for operation.
\<close>

theorem pic_init_programs:
  "pic_after 0x20 p1 (pic_init o1 o2 []) = p1\<lparr>phase := Ready, vec := o1, cascade := 4, mode8086 := True, pmask := 0\<rparr> \<and>
   pic_after 0xA0 p2 (pic_init o1 o2 []) = p2\<lparr>phase := Ready, vec := o2, cascade := 2, mode8086 := True, pmask := 0\<rparr>"
  by (simp add: pic_after_def pic_init_def outb_def pic_write_def)


lemma pic_after_outb:
  "pic_after base p (outb port v l) =
    (if port = base then pic_write False v (pic_after base p l)
     else if port = base + 1 then pic_write True v (pic_after base p l) else pic_after base p l)"
  by (simp add: pic_after_def outb_def)

lemma pic_after_Inb: "pic_after base p (l @ [Inb port]) = pic_after base p l"
  by (simp add: pic_after_def)

definition small_isr :: isr where
  "small_isr = pmm.extend small_pmm \<lparr>interrupt_handlers = (\<lambda>_. 0)\<rparr>"

definition reset_pic :: pic where
  "reset_pic = \<lparr>phase = Ready, vec = 0, cascade = 0, mode8086 = True, pmask = 0xFF, eois = 0\<rparr>"

definition trap_frame :: "u32 \<Rightarrow> registers" where
  "trap_frame n = \<lparr>r_ds = 0x10, r_edi = 0, r_esi = 0, r_ebp = 0, r_esp = 0, r_ebx = 0, r_edx = 0, r_ecx = 0,
     r_eax = 0, r_int_no = n, r_err_code = 0, r_eip = 0, r_cs = 8, r_eflags = 0, r_useresp = 0, r_ss = 0\<rparr>"

lemma small_isr_fields:
  "iolog small_isr = []" "interrupt_handlers small_isr = (\<lambda>_. 0)" "fb_pos_y small_isr = 0"
  by (simp_all add: small_isr_def small_pmm_def empty_console_def pmm.defs console.defs)

text \<open>
  For each of the 16 hardware interrupts, \<^verbatim>\<open>irq_handler\<close> sends exactly one end-of-interrupt to
  the master, and one to the slave for the lines 8 to 15, changes nothing else, and only then runs
  the registered handler, if there is one.
\<close>

theorem irq_handler_acknowledges:
  fixes s :: "'s isr_scheme"
  assumes "r_int_no regs = 32 + of_nat k" and "k < 16"
  shows "\<exists>s1. irq_handler call regs s =
      (if interrupt_handlers s (r_int_no regs) = 0 then Inr s1
       else call (interrupt_handlers s (r_int_no regs)) regs s1) \<and>
    s1 = s\<lparr>iolog := iolog s1\<rparr> \<and>
    pic_after 0x20 p1 (iolog s1) = (let p = pic_after 0x20 p1 (iolog s) in p\<lparr>eois := Suc (eois p)\<rparr>) \<and>
    pic_after 0xA0 p2 (iolog s1) =
      (let p = pic_after 0xA0 p2 (iolog s) in if 8 \<le> k then p\<lparr>eois := Suc (eois p)\<rparr> else p)"
proof -
  have k: "unat (of_nat k :: u32) = k" using assms(2) by (intro unat_of_nat_u32) simp
  have n: "unat (r_int_no regs) = 32 + k" using assms(2) k by (simp add: assms(1) unat_word_ariths)
  then have lt: "\<not> 256 \<le> r_int_no regs" using assms(2) by (simp add: word_le_nat_alt)
  have "unat (ucast (r_int_no regs) :: u8) = 32 + k"
    using n assms(2) by (simp add: unsigned_ucast_eq unsigned_take_bit_eq take_bit_nat_eq_self)
  then have "0x28 \<le> (ucast (r_int_no regs) :: u8) \<longleftrightarrow> 8 \<le> k" by (simp add: word_le_nat_alt)
  then show ?thesis
    using lt by (intro exI [of _ "s\<lparr>iolog := ack_irq (ucast (r_int_no regs)) (iolog s)\<rparr>"])
      (simp add: irq_handler_def Let_def ack_irq_def pic_after_outb pic_write_def)
qed

theorem irq_handler_acknowledges_witness:
  "\<exists>s1. irq_handler (\<lambda>h r s. Inr s) (trap_frame 44) small_isr = Inr s1 \<and>
     eois (pic_after 0x20 reset_pic (iolog s1)) = 1 \<and> eois (pic_after 0xA0 reset_pic (iolog s1)) = 1"
  using irq_handler_acknowledges [of "trap_frame 44" 12 "\<lambda>h r s. Inr s" small_isr reset_pic reset_pic]
  by (auto simp: trap_frame_def small_isr_fields pic_after_def reset_pic_def)

definition pic_read_mask :: "device \<Rightarrow> pic \<Rightarrow> pic \<Rightarrow> iolog \<Rightarrow> bool" where
  "pic_read_mask d p1 p2 l \<longleftrightarrow>
     phase (pic_after 0x20 p1 l) = Ready \<and> dev8 d l 0x21 = pmask (pic_after 0x20 p1 l) \<and>
     phase (pic_after 0xA0 p2 l) = Ready \<and> dev8 d l 0xA1 = pmask (pic_after 0xA0 p2 l)"

lemma clear_line:
  assumes "k < 8"
  shows "ucast ((ucast v :: u32) AND NOT (2 ^ k)) = (unset_bit k v :: u8)"
  by (rule bit_word_eqI) (use assms in \<open>auto simp: bit_simps\<close>)

lemma set_line:
  assumes "k < 8"
  shows "ucast ((ucast v :: u32) OR 2 ^ k) = (set_bit k v :: u8)"
  by (rule bit_word_eqI) (use assms in \<open>auto simp: bit_simps\<close>)

lemma irq_line_of_nat:
  "k < 8 \<Longrightarrow> irq_line (of_nat k) = (0x21, of_nat k)"
  "8 \<le> k \<Longrightarrow> k < 16 \<Longrightarrow> irq_line (of_nat k) = (0xA1, of_nat (k - 8))"
  by (simp_all add: irq_line_def signed_of_nat signed_take_bit_int_eq_self of_nat_diff)

lemma unat_of_nat_u8: "k < 256 \<Longrightarrow> unat (of_nat k :: u8) = k"
  by (simp add: unat_of_nat take_bit_nat_eq_self)

lemma unat_slave_line: "8 \<le> k \<Longrightarrow> k < 16 \<Longrightarrow> unat (of_nat k - 8 :: u8) = k - 8"
  by (simp add: unat_sub word_le_nat_alt unat_of_nat_u8)

text \<open>
  With controllers that deliver their mask when it is read, \<^verbatim>\<open>enable_irq\<close> clears exactly the bit
  of its line in the mask of the right controller and \<^verbatim>\<open>disable_irq\<close> sets exactly that bit.
\<close>

theorem enable_irq_unmasks:
  assumes "k < 16" and "pic_read_mask d p1 p2 l"
  shows "pic_after 0x20 p1 (enable_irq d (of_nat k) l) =
      (let p = pic_after 0x20 p1 l in if k < 8 then p\<lparr>pmask := unset_bit k (pmask p)\<rparr> else p) \<and>
    pic_after 0xA0 p2 (enable_irq d (of_nat k) l) =
      (let p = pic_after 0xA0 p2 l in if k < 8 then p else p\<lparr>pmask := unset_bit (k - 8) (pmask p)\<rparr>) \<and>
    pic_after 0x20 p1 (disable_irq d (of_nat k) l) =
      (let p = pic_after 0x20 p1 l in if k < 8 then p\<lparr>pmask := set_bit k (pmask p)\<rparr> else p) \<and>
    pic_after 0xA0 p2 (disable_irq d (of_nat k) l) =
      (let p = pic_after 0xA0 p2 l in if k < 8 then p else p\<lparr>pmask := set_bit (k - 8) (pmask p)\<rparr>)"
  using assms
  by (cases "k < 8")
     (simp_all add: enable_irq_def disable_irq_def irq_line_of_nat inb_def pic_after_outb pic_after_Inb pic_read_mask_def
        pic_write_def clear_line set_line unat_of_nat_u8 unat_slave_line Let_def)

theorem enable_irq_unmasks_witness:
  "pmask (pic_after 0x20 reset_pic (enable_irq \<lparr>dev8 = \<lambda>l p. 0xFF, dev16 = \<lambda>l p. 0, dev32 = \<lambda>l p. 0\<rparr> 1 [])) = 0xFD"
  using enable_irq_unmasks [of 1 "\<lparr>dev8 = \<lambda>l p. 0xFF, dev16 = \<lambda>l p. 0, dev32 = \<lambda>l p. 0\<rparr>" reset_pic reset_pic "[]"]
  by (simp add: pic_read_mask_def pic_after_def reset_pic_def unset_bit_eq_and_not)

text \<open>
  An interrupt with no registered handler ends in a panic, after the message has been printed:
  \<^verbatim>\<open>isr_handler\<close> neither returns nor hangs in \<^verbatim>\<open>printf\<close>.
\<close>

theorem isr_handler_unhandled_panics:
  fixes s :: "'s isr_scheme"
  assumes "r_int_no regs < 256" and "interrupt_handlers s (r_int_no regs) = 0"
  shows "isr_handler call regs s = Inl Panic"
proof -
  have "printf_safe (lit ''[ISR HANDLER] unhandled interrupt: %d, error_code: %d'' @ [10]) [r_int_no regs, r_err_code regs]"
    by (simp add: lit_def of_char_def)
  from printf_total [OF this, of s] show ?thesis
    using assms(1,2) by (auto simp: isr_handler_def)
qed

theorem isr_handler_unhandled_panics_witness:
  "isr_handler (\<lambda>h r s. Inr s) (trap_frame 6) small_isr = Inl Panic"
  using isr_handler_unhandled_panics [of "trap_frame 6" small_isr "\<lambda>h r s. Inr s"]
  by (simp add: trap_frame_def small_isr_fields)

text \<open>
  After a registration the interrupt reaches the registered handler, a number of 256 or more
  registers nothing, and no other entry of the table changes.
\<close>

theorem register_interrupt_handler_dispatch:
  fixes s :: "'s isr_scheme"
  assumes "h \<noteq> 0"
  shows "isr_handler call regs (register_interrupt_handler (r_int_no regs) h s) =
    (if r_int_no regs < 256
     then call h regs (s\<lparr>interrupt_handlers := (interrupt_handlers s)(r_int_no regs := h)\<rparr>)
     else Inl OutOfBounds) \<and>
   (n \<noteq> m \<longrightarrow> interrupt_handlers (register_interrupt_handler n h s) m = interrupt_handlers s m)"
  using assms by (auto simp: isr_handler_def register_interrupt_handler_def not_less)
theorem register_interrupt_handler_dispatch_witness:
  "isr_handler (\<lambda>h r s. if h = 0xC0101000 then Inr s else Inl Panic) (trap_frame 14)
     (register_interrupt_handler 14 0xC0101000 small_isr) =
   Inr (small_isr\<lparr>interrupt_handlers := (\<lambda>_. 0)(14 := 0xC0101000)\<rparr>)"
  using register_interrupt_handler_dispatch [of "0xC0101000" "\<lambda>h r s. if h = 0xC0101000 then Inr s else Inl Panic"
      "trap_frame 14" small_isr 14 15]
  by (simp add: trap_frame_def small_isr_fields)

end
