(* ===== verification/Descriptors.thy ===== *)
theory Descriptors
  imports Interrupts
begin

text \<open>
  The tables of the processor: \<^verbatim>\<open>src/src/kernel/gdt.c\<close>, \<^verbatim>\<open>src/src/kernel/tss.c\<close> and
  \<^verbatim>\<open>src/src/kernel/idt.c\<close>. The packed bit fields are words of their width, so that an
  assignment truncates as it does in C. \<^verbatim>\<open>gdt_flush\<close>, \<^verbatim>\<open>tss_flush\<close>, \<^verbatim>\<open>idt_flush\<close> and \<^verbatim>\<open>sti\<close>
  load processor registers; the registers are fields of the state. The addresses of the
  tables and of the interrupt stubs come from the linker and are arguments.

  \<open>gdt_bits\<close> and \<open>gate_bits\<close> are the 64 bits the packed structures occupy; the functions
  after them are the processor's reading of a descriptor.
\<close>

section \<open>Segment descriptors\<close>

abbreviation (input) GDT_ENTRY_SIZE :: nat where "GDT_ENTRY_SIZE \<equiv> 6"
abbreviation (input) GDT_GRANULARITY_BYTE :: u8 where "GDT_GRANULARITY_BYTE \<equiv> 0"
abbreviation (input) GDT_GRANULARITY_4KILOBYTE :: u8 where "GDT_GRANULARITY_4KILOBYTE \<equiv> 1"
abbreviation (input) GDT_DEFAULT_OPERAND_SIZE_16 :: u8 where "GDT_DEFAULT_OPERAND_SIZE_16 \<equiv> 0"
abbreviation (input) GDT_DEFAULT_OPERAND_SIZE_32 :: u8 where "GDT_DEFAULT_OPERAND_SIZE_32 \<equiv> 1"
abbreviation (input) GDT_DPL_RING0 :: "2 word" where "GDT_DPL_RING0 \<equiv> 0"
abbreviation (input) GDT_DPL_RING3 :: "2 word" where "GDT_DPL_RING3 \<equiv> 3"
abbreviation (input) GDT_SEGMENT_TYPE_DATA :: "4 word" where "GDT_SEGMENT_TYPE_DATA \<equiv> 0"
abbreviation (input) GDT_SEGMENT_TYPE_CODE :: "4 word" where "GDT_SEGMENT_TYPE_CODE \<equiv> 0x8"
abbreviation (input) GDT_SEGMENT_TYPE_READ_WRITE :: "4 word" where "GDT_SEGMENT_TYPE_READ_WRITE \<equiv> 0x2"
abbreviation (input) GDT_SEGMENT_TYPE_EXECUTE_READ :: "4 word" where "GDT_SEGMENT_TYPE_EXECUTE_READ \<equiv> 0x2"
abbreviation (input) GDT_SEGMENT_PRESENT :: "1 word" where "GDT_SEGMENT_PRESENT \<equiv> 1"
abbreviation (input) GDT_SEGMENT_DT_SYSTEM :: "1 word" where "GDT_SEGMENT_DT_SYSTEM \<equiv> 0"
abbreviation (input) GDT_SEGMENT_DT_CODE :: "1 word" where "GDT_SEGMENT_DT_CODE \<equiv> 1"
abbreviation (input) GDT_SYSTEM_TSS :: "4 word" where "GDT_SYSTEM_TSS \<equiv> 9"

record gdt_access =
  ga_type :: "4 word"
  ga_dt :: "1 word"
  ga_dpl :: "2 word"
  ga_p :: "1 word"

record gdt_entry =
  limit_low :: "16 word"
  base_low :: "24 word"
  access :: gdt_access
  limit_high :: "4 word"
  ge_a :: "1 word"
  ge_unused :: "1 word"
  ge_d :: "1 word"
  ge_g :: "1 word"
  base_high :: "8 word"

record tss_entry =
  prevTss :: u32
  esp0 :: u32
  ss0 :: u32
  esp1 :: u32
  ss1 :: u32
  esp2 :: u32
  ss2 :: u32
  tss_cr3 :: u32
  tss_eip :: u32
  tss_eflags :: u32
  tss_eax :: u32
  tss_ecx :: u32
  tss_edx :: u32
  tss_ebx :: u32
  tss_esp :: u32
  tss_ebp :: u32
  tss_esi :: u32
  tss_edi :: u32
  tss_es :: u32
  tss_cs :: u32
  tss_ss :: u32
  tss_ds :: u32
  tss_fs :: u32
  tss_gs :: u32
  tss_ldt :: u32
  tss_trap :: u16
  tss_iomap :: u16

record idt_flags =
  gate_type :: "3 word"
  if_d :: "1 word"
  if_zero :: "1 word"
  if_dpl :: "2 word"
  if_p :: "1 word"

record idt_entry =
  ie_base_low :: u16
  segment_selector :: u16
  reserved :: u8
  flags :: idt_flags
  ie_base_high :: u16

record descr = isr +
  gdt_entries :: "nat \<Rightarrow> gdt_entry"
  gdt_ptr :: "u16 \<times> u32"
  idt_entries :: "u8 \<Rightarrow> idt_entry"
  idt_ptr :: "u16 \<times> u32"
  kernel_tss :: tss_entry
  gdtr :: "u16 \<times> u32"
  idtr :: "u16 \<times> u32"
  tr_loaded :: bool
  int_flag :: bool

definition gdt_descriptor :: "u32 \<Rightarrow> u32 \<Rightarrow> gdt_access \<Rightarrow> u8 \<Rightarrow> u8 \<Rightarrow> gdt_entry" where
  "gdt_descriptor base limit acc d g =
     \<lparr>limit_low = ucast (limit AND 0xffff),
      base_low = ucast (base AND 0xffffff),
      access = acc,
      limit_high = ucast (drop_bit 16 limit AND 0xf),
      ge_a = 0, ge_unused = 0, ge_d = ucast d, ge_g = ucast g,
      base_high = ucast (drop_bit 24 base AND 0xffff)\<rparr>"

definition gdt_set_entry ::
  "int \<Rightarrow> u32 \<Rightarrow> u32 \<Rightarrow> gdt_access \<Rightarrow> u8 \<Rightarrow> u8 \<Rightarrow> 's descr_scheme \<Rightarrow> 's descr_scheme res" where
  "gdt_set_entry idx base limit acc d g s =
     (if 0 \<le> idx \<and> idx < int GDT_ENTRY_SIZE
      then Inr (s\<lparr>gdt_entries := (gdt_entries s)(nat idx := gdt_descriptor base limit acc d g)\<rparr>)
      else Inl OutOfBounds)"

definition gdt_flush :: "'s descr_scheme \<Rightarrow> 's descr_scheme" where
  "gdt_flush s = s\<lparr>gdtr := gdt_ptr s\<rparr>"

definition init_gdt :: "u32 \<Rightarrow> 's descr_scheme \<Rightarrow> 's descr_scheme res" where
  "init_gdt gdt_addr s =
     (let acc = (\<lambda>t dpl. \<lparr>ga_type = t, ga_dt = GDT_SEGMENT_DT_CODE, ga_dpl = dpl, ga_p = GDT_SEGMENT_PRESENT\<rparr>);
          code = GDT_SEGMENT_TYPE_CODE OR GDT_SEGMENT_TYPE_EXECUTE_READ;
          data = GDT_SEGMENT_TYPE_DATA OR GDT_SEGMENT_TYPE_READ_WRITE;
          d32 = GDT_DEFAULT_OPERAND_SIZE_32; g4k = GDT_GRANULARITY_4KILOBYTE;
          s0 = s\<lparr>gdt_ptr := (8 * 6 - 1, gdt_addr)\<rparr>
      in bindE (gdt_set_entry 0 0 0 \<lparr>ga_type = 0, ga_dt = 0, ga_dpl = 0, ga_p = 0\<rparr> 0 0 s0) (\<lambda>s1.
         bindE (gdt_set_entry 1 0 0xffffffff (acc code GDT_DPL_RING0) d32 g4k s1) (\<lambda>s2.
         bindE (gdt_set_entry 2 0 0xffffffff (acc data GDT_DPL_RING0) d32 g4k s2) (\<lambda>s3.
         bindE (gdt_set_entry 3 0 0xffffffff (acc code GDT_DPL_RING3) d32 g4k s3) (\<lambda>s4.
         bindE (gdt_set_entry 4 0 0xffffffff (acc data GDT_DPL_RING3) d32 g4k s4) (\<lambda>s5.
         Inr (gdt_flush s5)))))))"

section \<open>Task state segment\<close>

definition zero_tss :: tss_entry where
  "zero_tss = \<lparr>prevTss = 0, esp0 = 0, ss0 = 0, esp1 = 0, ss1 = 0, esp2 = 0, ss2 = 0, tss_cr3 = 0, tss_eip = 0,
     tss_eflags = 0, tss_eax = 0, tss_ecx = 0, tss_edx = 0, tss_ebx = 0, tss_esp = 0, tss_ebp = 0, tss_esi = 0,
     tss_edi = 0, tss_es = 0, tss_cs = 0, tss_ss = 0, tss_ds = 0, tss_fs = 0, tss_gs = 0, tss_ldt = 0,
     tss_trap = 0, tss_iomap = 0\<rparr>"

definition tss_init :: "u32 \<Rightarrow> u32 \<Rightarrow> u32 \<Rightarrow> u32 \<Rightarrow> 's descr_scheme \<Rightarrow> 's descr_scheme res" where
  "tss_init tss_addr idx kss kesp s =
     (let base = tss_addr
      in bindE (gdt_set_entry (sint idx) base (base + 104)
           \<lparr>ga_type = GDT_SYSTEM_TSS, ga_dt = GDT_SEGMENT_DT_SYSTEM, ga_dpl = GDT_DPL_RING3, ga_p = GDT_SEGMENT_PRESENT\<rparr>
           GDT_DEFAULT_OPERAND_SIZE_16 GDT_GRANULARITY_BYTE s) (\<lambda>s1.
         Inr (s1\<lparr>kernel_tss := zero_tss\<lparr>ss0 := kss, esp0 := kesp, tss_cs := 0x0b, tss_ds := 0x13, tss_es := 0x13,
                 tss_fs := 0x13, tss_gs := 0x13, tss_ss := 0x13\<rparr>, tr_loaded := True\<rparr>)))"

definition tss_set_stack :: "u32 \<Rightarrow> u32 \<Rightarrow> 's descr_scheme \<Rightarrow> 's descr_scheme" where
  "tss_set_stack kss kesp s = s\<lparr>kernel_tss := (kernel_tss s)\<lparr>ss0 := kss, esp0 := kesp\<rparr>\<rparr>"

section \<open>Interrupt descriptors\<close>

abbreviation (input) IDT_SELECTOR :: u16 where "IDT_SELECTOR \<equiv> 0x08"
abbreviation (input) IDT_GATE_TYPE_INTERRUPT :: "3 word" where "IDT_GATE_TYPE_INTERRUPT \<equiv> 0x6"
abbreviation (input) IDT_GATE_32BIT :: "1 word" where "IDT_GATE_32BIT \<equiv> 1"
abbreviation (input) IDT_SEGMENT_PRESENT :: "1 word" where "IDT_SEGMENT_PRESENT \<equiv> 1"
abbreviation (input) IDT_DPL_RING3 :: "2 word" where "IDT_DPL_RING3 \<equiv> 3"

definition are_interrupts_enabled :: "'s descr_scheme \<Rightarrow> bool" where
  "are_interrupts_enabled s = int_flag s"

definition idt_set_gate :: "u8 \<Rightarrow> u32 \<Rightarrow> u16 \<Rightarrow> idt_flags \<Rightarrow> 's descr_scheme \<Rightarrow> 's descr_scheme" where
  "idt_set_gate idx base selector fl s =
     s\<lparr>idt_entries := (idt_entries s)(idx :=
        \<lparr>ie_base_low = ucast (base AND 0xffff), segment_selector = selector, reserved = 0, flags = fl,
         ie_base_high = ucast (drop_bit 16 base AND 0xffff)\<rparr>)\<rparr>"

definition zero_gate :: idt_entry where
  "zero_gate = \<lparr>ie_base_low = 0, segment_selector = 0, reserved = 0,
     flags = \<lparr>gate_type = 0, if_d = 0, if_zero = 0, if_dpl = 0, if_p = 0\<rparr>, ie_base_high = 0\<rparr>"

definition idt_flush :: "'s descr_scheme \<Rightarrow> 's descr_scheme" where
  "idt_flush s = s\<lparr>idtr := idt_ptr s\<rparr>"

definition gate_flags :: idt_flags where
  "gate_flags = \<lparr>gate_type = IDT_GATE_TYPE_INTERRUPT, if_d = IDT_GATE_32BIT, if_zero = 0, if_dpl = IDT_DPL_RING3,
     if_p = IDT_SEGMENT_PRESENT\<rparr>"

definition set_gates :: "(nat \<Rightarrow> u32) \<Rightarrow> nat list \<Rightarrow> 's descr_scheme \<Rightarrow> 's descr_scheme" where
  "set_gates stub ns s = fold (\<lambda>n. idt_set_gate (of_nat n) (stub n) IDT_SELECTOR gate_flags) ns s"

definition init_idt :: "u32 \<Rightarrow> (nat \<Rightarrow> u32) \<Rightarrow> 's descr_scheme \<Rightarrow> 's descr_scheme res" where
  "init_idt idt_addr stub s =
     (let s1 = s\<lparr>idt_ptr := (8 * 256 - 1, idt_addr), idt_entries := (\<lambda>_. zero_gate)\<rparr>;
          s2 = s1\<lparr>iolog := pic_init 0x20 0x28 (iolog s1)\<rparr>;
          s3 = set_gates stub ([0..<32] @ [32..<48] @ [128]) s2;
          s4 = (idt_flush s3)\<lparr>int_flag := True\<rparr>
      in if \<not> are_interrupts_enabled s4 then Inl Panic else Inr s4)"

section \<open>The descriptors as the processor reads them\<close>

definition gdt_bits :: "gdt_entry \<Rightarrow> 64 word" where
  "gdt_bits e =
     ucast (limit_low e) OR push_bit 16 (ucast (base_low e)) OR
     push_bit 40 (ucast (ga_type (access e))) OR push_bit 44 (ucast (ga_dt (access e))) OR
     push_bit 45 (ucast (ga_dpl (access e))) OR push_bit 47 (ucast (ga_p (access e))) OR
     push_bit 48 (ucast (limit_high e)) OR push_bit 52 (ucast (ge_a e)) OR push_bit 53 (ucast (ge_unused e)) OR
     push_bit 54 (ucast (ge_d e)) OR push_bit 55 (ucast (ge_g e)) OR push_bit 56 (ucast (base_high e))"

definition seg_base :: "64 word \<Rightarrow> u32" where
  "seg_base q = ucast (take_bit 24 (drop_bit 16 q)) OR push_bit 24 (ucast (drop_bit 56 q))"

definition seg_raw_limit :: "64 word \<Rightarrow> u32" where
  "seg_raw_limit q = ucast (take_bit 16 q) OR push_bit 16 (ucast (take_bit 4 (drop_bit 48 q)))"

definition seg_limit :: "64 word \<Rightarrow> u32" where
  "seg_limit q = (if bit q 55 then push_bit 12 (seg_raw_limit q) OR 0xfff else seg_raw_limit q)"

definition seg_dpl :: "64 word \<Rightarrow> 2 word" where
  "seg_dpl q = ucast (drop_bit 45 q)"

definition gate_bits :: "idt_entry \<Rightarrow> 64 word" where
  "gate_bits e =
     ucast (ie_base_low e) OR push_bit 16 (ucast (segment_selector e)) OR push_bit 32 (ucast (reserved e)) OR
     push_bit 40 (ucast (gate_type (flags e))) OR push_bit 43 (ucast (if_d (flags e))) OR
     push_bit 44 (ucast (if_zero (flags e))) OR push_bit 45 (ucast (if_dpl (flags e))) OR
     push_bit 47 (ucast (if_p (flags e))) OR push_bit 48 (ucast (ie_base_high e))"

definition gate_offset :: "64 word \<Rightarrow> u32" where
  "gate_offset q = ucast (take_bit 16 q) OR push_bit 16 (ucast (drop_bit 48 q))"

definition gate_attr :: "64 word \<Rightarrow> u8" where
  "gate_attr q = ucast (drop_bit 40 q)"

lemma bit_beyond: "LENGTH('a::len) \<le> n \<Longrightarrow> bit (w :: 'a word) n \<longleftrightarrow> False"
  using bit_imp_le_length [of w n] by auto

lemma gdt_bits_fields:
  "n < 16 \<Longrightarrow> bit (gdt_bits e) n = bit (limit_low e) n"
  "n < 24 \<Longrightarrow> bit (gdt_bits e) (16 + n) = bit (base_low e) n"
  "n < 2 \<Longrightarrow> bit (gdt_bits e) (45 + n) = bit (ga_dpl (access e)) n"
  "n < 4 \<Longrightarrow> bit (gdt_bits e) (48 + n) = bit (limit_high e) n"
  "bit (gdt_bits e) 55 = bit (ge_g e) 0"
  "n < 8 \<Longrightarrow> bit (gdt_bits e) (56 + n) = bit (base_high e) n"
  by (simp_all add: gdt_bits_def bit_simps bit_beyond)


lemma seg_base_descriptor: "seg_base (gdt_bits (gdt_descriptor base limit acc d g)) = base"
proof (rule bit_word_eqI)
  have m: "base AND 0xffffff = take_bit 24 base" "drop_bit 24 base AND 0xffff = take_bit 16 (drop_bit 24 base)"
    by (simp_all add: take_bit_eq_mask mask_eq_exp_minus_1)
  fix n assume "n < LENGTH(32)"
  then consider "n < 24" | k where "n = 24 + k" "k < 8"
    by (cases "n < 24") (auto simp: le_iff_add not_less)
  then show "bit (seg_base (gdt_bits (gdt_descriptor base limit acc d g))) n = bit base n"
    by cases (simp_all add: seg_base_def bit_simps gdt_bits_fields gdt_descriptor_def m bit_beyond add.assoc [symmetric])
qed

lemma seg_raw_limit_descriptor: "seg_raw_limit (gdt_bits (gdt_descriptor base limit acc d g)) = take_bit 20 limit"
proof (rule bit_word_eqI)
  have m: "limit AND 0xffff = take_bit 16 limit" "drop_bit 16 limit AND 0xf = take_bit 4 (drop_bit 16 limit)"
    by (simp_all add: take_bit_eq_mask mask_eq_exp_minus_1)
  fix n assume "n < LENGTH(32)"
  then consider "n < 16" | k where "n = 16 + k" "k < 16"
    by (cases "n < 16") (auto simp: le_iff_add not_less)
  then show "bit (seg_raw_limit (gdt_bits (gdt_descriptor base limit acc d g))) n = bit (take_bit 20 limit) n"
    by cases (auto simp: seg_raw_limit_def bit_simps gdt_bits_fields gdt_descriptor_def m bit_beyond add.assoc [symmetric])
qed

lemma seg_limit_descriptor:
  "seg_limit (gdt_bits (gdt_descriptor base limit acc d g)) =
     (if bit g 0 then push_bit 12 (take_bit 20 limit) OR 0xfff else take_bit 20 limit)"
  by (simp add: seg_limit_def seg_raw_limit_descriptor gdt_bits_fields) (simp add: gdt_descriptor_def bit_simps)

lemma seg_dpl_descriptor: "seg_dpl (gdt_bits (gdt_descriptor base limit acc d g)) = ga_dpl acc"
proof (rule bit_word_eqI)
  fix n assume "n < LENGTH(2)"
  then have "n < 2" by simp
  then show "bit (seg_dpl (gdt_bits (gdt_descriptor base limit acc d g))) n = bit (ga_dpl acc) n"
    by (simp add: seg_dpl_def bit_simps gdt_bits_fields gdt_descriptor_def)
qed

lemma gate_bits_fields:
  "n < 16 \<Longrightarrow> bit (gate_bits e) n = bit (ie_base_low e) n"
  "n < 16 \<Longrightarrow> bit (gate_bits e) (48 + n) = bit (ie_base_high e) n"
  by (simp_all add: gate_bits_def bit_simps bit_beyond)

lemma gate_offset_gate:
  "gate_offset (gate_bits \<lparr>ie_base_low = ucast (base AND 0xffff), segment_selector = sel, reserved = r, flags = fl,
      ie_base_high = ucast (drop_bit 16 base AND 0xffff)\<rparr>) = base"
proof (rule bit_word_eqI)
  have m: "base AND 0xffff = take_bit 16 base" "drop_bit 16 base AND 0xffff = take_bit 16 (drop_bit 16 base)"
    by (simp_all add: take_bit_eq_mask mask_eq_exp_minus_1)
  fix n assume "n < LENGTH(32)"
  then consider "n < 16" | k where "n = 16 + k" "k < 16"
    by (cases "n < 16") (auto simp: le_iff_add not_less)
  then show "bit (gate_offset (gate_bits \<lparr>ie_base_low = ucast (base AND 0xffff), segment_selector = sel, reserved = r,
      flags = fl, ie_base_high = ucast (drop_bit 16 base AND 0xffff)\<rparr>)) n = bit base n"
    by cases (simp_all add: gate_offset_def bit_simps gate_bits_fields m bit_beyond)
qed

lemma gate_attr_gate:
  "gate_attr (gate_bits e) = ucast (gate_type (flags e)) OR push_bit 3 (ucast (if_d (flags e))) OR
     push_bit 4 (ucast (if_zero (flags e))) OR push_bit 5 (ucast (if_dpl (flags e))) OR push_bit 7 (ucast (if_p (flags e)))"
proof (rule bit_word_eqI)
  fix n assume "n < LENGTH(8)"
  then have "n < 8" by simp
  then show "bit (gate_attr (gate_bits e)) n = bit (ucast (gate_type (flags e)) OR push_bit 3 (ucast (if_d (flags e))) OR
     push_bit 4 (ucast (if_zero (flags e))) OR push_bit 5 (ucast (if_dpl (flags e))) OR
     push_bit 7 (ucast (if_p (flags e))) :: u8) n"
    by (simp add: gate_attr_def gate_bits_def bit_simps bit_beyond) (auto dest: bit_imp_le_length)
qed

lemma set_gates_entry:
  assumes "\<forall>n \<in> set ns. n < 256" and "distinct ns" and "m < 256"
  shows "idt_entries (set_gates stub ns s) (of_nat m) =
    (if m \<in> set ns then idt_entries (idt_set_gate (of_nat m) (stub m) 8 gate_flags s) (of_nat m)
     else idt_entries s (of_nat m))"
  using assms
proof (induction ns arbitrary: s)
  case Nil
  then show ?case by (simp add: set_gates_def)
next
  case (Cons k ns)
  have "(of_nat m :: u8) = of_nat k \<longleftrightarrow> m = k"
    using Cons.prems unat_of_nat_u8 [of m] unat_of_nat_u8 [of k] by (auto simp: word_unat_eq_iff)
  moreover have "set_gates stub (k # ns) s = set_gates stub ns (idt_set_gate (of_nat k) (stub k) 8 gate_flags s)"
    by (simp add: set_gates_def)
  ultimately show ?case using Cons by (auto simp: idt_set_gate_def)
qed

lemma set_gates_frame:
  "\<exists>e. set_gates stub ns s = s\<lparr>idt_entries := e\<rparr>"
proof (induction ns arbitrary: s)
  case Nil
  show ?case by (rule exI [of _ "idt_entries s"]) (simp add: set_gates_def)
next
  case (Cons k ns)
  from Cons [of "idt_set_gate (of_nat k) (stub k) 8 gate_flags s"] show ?case
    by (auto simp: set_gates_def idt_set_gate_def)
qed

section \<open>Properties\<close>

text \<open>
  After \<^verbatim>\<open>init_gdt\<close> the processor finds a null descriptor followed by four flat segments: base 0,
  limit 0xffffffff, the first two for ring 0 and the last two for ring 3; the table register
  points at the six entries.
\<close>

theorem init_gdt_flat:
  fixes s :: "'s descr_scheme"
  shows "\<exists>s'. init_gdt addr s = Inr s' \<and> gdtr s' = (47, addr) \<and> gdt_bits (gdt_entries s' 0) = 0 \<and>
    (\<forall>k \<in> {1, 2, 3, 4}. seg_base (gdt_bits (gdt_entries s' k)) = 0 \<and>
       seg_limit (gdt_bits (gdt_entries s' k)) = 0xffffffff \<and>
       seg_dpl (gdt_bits (gdt_entries s' k)) = (if k \<le> 2 then 0 else 3))"
proof -
  have l: "push_bit 12 (take_bit 20 (0xffffffff :: u32)) OR 0xfff = 0xffffffff" by simp
  have z: "gdt_bits (gdt_descriptor 0 0 \<lparr>ga_type = 0, ga_dt = 0, ga_dpl = 0, ga_p = 0\<rparr> 0 0) = 0"
    by (simp add: gdt_bits_def gdt_descriptor_def)
  show ?thesis
    by (simp add: init_gdt_def Let_def gdt_set_entry_def gdt_flush_def seg_base_descriptor seg_limit_descriptor
        seg_dpl_descriptor l z)
qed

text \<open>
  \<^verbatim>\<open>tss_init\<close> writes a descriptor whose base is the address of the task state segment, fills in
  the kernel stack and leaves the other descriptors alone; the limit is the low 20 bits of the
  address of the end of the segment, not the size of the segment.
\<close>

theorem tss_init_descriptor:
  fixes s :: "'s descr_scheme"
  assumes "idx < 6"
  shows "\<exists>s'. tss_init tss_addr idx kss kesp s = Inr s' \<and>
    seg_base (gdt_bits (gdt_entries s' (unat idx))) = tss_addr \<and>
    seg_limit (gdt_bits (gdt_entries s' (unat idx))) = take_bit 20 (tss_addr + 104) \<and>
    ss0 (kernel_tss s') = kss \<and> esp0 (kernel_tss s') = kesp \<and>
    (\<forall>k. k \<noteq> unat idx \<longrightarrow> gdt_entries s' k = gdt_entries s k)"
proof -
  have "uint idx < uint (6 :: u32)" using assms unfolding word_less_def .
  moreover have "unat idx < 6" using assms by (simp add: word_less_nat_alt)
  ultimately have i: "sint idx = int (unat idx)" "uint idx < 6" by (simp_all add: sint_u32_if)
  show ?thesis
    by (simp add: tss_init_def Let_def gdt_set_entry_def i seg_base_descriptor seg_limit_descriptor)
qed

text \<open>
  After \<^verbatim>\<open>init_idt\<close> the gates 0 to 47 and 128 are present 32-bit interrupt gates of ring 3 whose
  offset is the stub of that number, every other gate is absent, the controllers have been
  programmed with the offsets 0x20 and 0x28, the table register is loaded and interrupts are on.
\<close>

theorem init_idt_gates:
  fixes s :: "'s descr_scheme"
  shows "\<exists>s'. init_idt idt_addr stub s = Inr s' \<and> idtr s' = (2047, idt_addr) \<and> int_flag s' \<and>
    (\<forall>n < 256. let q = gate_bits (idt_entries s' (of_nat n)) in
       if n < 48 \<or> n = 128 then gate_offset q = stub n \<and> gate_attr q = 0xEE else \<not> bit (gate_attr q) 7) \<and>
    iolog s' = pic_init 0x20 0x28 (iolog s)"
proof -
  let ?s2 = "s\<lparr>idt_ptr := (2047, idt_addr), idt_entries := (\<lambda>_. zero_gate), iolog := pic_init 0x20 0x28 (iolog s)\<rparr>"
  let ?ns = "[0..<32] @ [32..<48] @ [128]"
  from set_gates_frame [of stub ?ns ?s2] obtain e where e: "set_gates stub ?ns ?s2 = ?s2\<lparr>idt_entries := e\<rparr>"
    by blast
  let ?s' = "?s2\<lparr>idt_entries := e, idtr := (2047, idt_addr), int_flag := True\<rparr>"
  have ent: "e (of_nat n) = (if n < 48 \<or> n = 128 then
      idt_entries (idt_set_gate (of_nat n) (stub n) 8 gate_flags ?s2) (of_nat n) else zero_gate)" if "n < 256" for n
  proof -
    have m: "k \<in> set ?ns \<longleftrightarrow> k < 48 \<or> k = 128" for k by (auto simp del: upt_rec_numeral)
    have "distinct ?ns" "\<forall>k \<in> set ?ns. k < 256" by (auto simp del: upt_rec_numeral)
    from set_gates_entry [OF this(2,1) that, of stub ?s2] show ?thesis
      unfolding e by (simp only: m) simp
  qed
  have attr: "gate_attr (gate_bits \<lparr>ie_base_low = b, segment_selector = 8, reserved = 0, flags = gate_flags,
      ie_base_high = c\<rparr>) = 0xEE" for b c
    by (simp add: gate_attr_gate gate_flags_def)
  have zero: "gate_attr (gate_bits zero_gate) = 0" by (simp add: gate_attr_gate zero_gate_def)
  have "init_idt idt_addr stub s = Inr ?s'"
    using e by (simp add: init_idt_def Let_def idt_flush_def are_interrupts_enabled_def)
  then show ?thesis
    by (auto simp: Let_def ent idt_set_gate_def gate_offset_gate attr zero)
qed

definition small_descr :: descr where
  "small_descr = isr.extend small_isr
     \<lparr>gdt_entries = (\<lambda>_. gdt_descriptor 0 0 \<lparr>ga_type = 0, ga_dt = 0, ga_dpl = 0, ga_p = 0\<rparr> 0 0), gdt_ptr = (0, 0),
      idt_entries = (\<lambda>_. zero_gate), idt_ptr = (0, 0), kernel_tss = zero_tss, gdtr = (0, 0), idtr = (0, 0),
      tr_loaded = False, int_flag = False\<rparr>"

theorem init_gdt_flat_witness:
  "\<exists>s'. init_gdt 0xC0104000 small_descr = Inr s' \<and> seg_limit (gdt_bits (gdt_entries s' 3)) = 0xffffffff"
  using init_gdt_flat [of "0xC0104000" small_descr] by auto

theorem tss_init_descriptor_witness:
  "\<exists>s'. tss_init 0xC0108000 5 0x10 0 small_descr = Inr s' \<and> seg_base (gdt_bits (gdt_entries s' 5)) = 0xC0108000 \<and>
     seg_limit (gdt_bits (gdt_entries s' 5)) = 0x08068"
  using tss_init_descriptor [of 5 "0xC0108000" "0x10" 0 small_descr] by auto

theorem init_idt_gates_witness:
  "\<exists>s'. init_idt 0xC0105000 (\<lambda>n. 0xC0101000 + of_nat n) small_descr = Inr s' \<and>
     gate_offset (gate_bits (idt_entries s' 33)) = 0xC0101021"
  using init_idt_gates [of "0xC0105000" "\<lambda>n. 0xC0101000 + of_nat n" small_descr]
  by (auto simp: Let_def dest!: spec [of _ 33])

end
