(* ===== verification/Vmm.thy ===== *)
theory Vmm
  imports Descriptors
begin

text \<open>
  Paging, \<^verbatim>\<open>src/src/kernel/mm/vmm.c\<close>. A page directory and a page table are 1024 little-endian
  words in memory; the code reaches them through their physical addresses, which the
  identity mapping of the first four megabytes makes valid pointers. The control registers
  are fields of the state. The constant \<^verbatim>\<open>0xFFFFFF000\<close> of the source has 36 bits; a 32-bit
  operand meets its low 32 bits, \<open>0xFFFFF000\<close>.

  \<open>mmu_walk\<close> is the processor's two-level translation, and the theorems compare what the
  operations do with it.
\<close>

section \<open>State and constants\<close>

record vmm = descr +
  cur_dir :: u32
  kpage_dir :: u32
  cr0 :: u32
  cr2 :: u32
  cr3 :: u32

abbreviation (input) PTE_PRESENT :: u32 where "PTE_PRESENT \<equiv> 0x1"
abbreviation (input) PTE_WRITABLE :: u32 where "PTE_WRITABLE \<equiv> 0x2"
abbreviation (input) PTE_USER :: u32 where "PTE_USER \<equiv> 0x4"
abbreviation (input) PDE_PRESENT :: u32 where "PDE_PRESENT \<equiv> 0x1"
abbreviation (input) PDE_WRITABLE :: u32 where "PDE_WRITABLE \<equiv> 0x2"

definition PAGE_DIRECTORY_INDEX :: "u32 \<Rightarrow> u32" where
  "PAGE_DIRECTORY_INDEX x = drop_bit 22 x AND 0x3ff"

definition PAGE_TABLE_INDEX :: "u32 \<Rightarrow> u32" where
  "PAGE_TABLE_INDEX x = drop_bit 12 x AND 0x3ff"

definition PAGE_FRAME_INDEX :: "u32 \<Rightarrow> u32" where
  "PAGE_FRAME_INDEX x = drop_bit 20 (push_bit 20 x AND 0xfff00000)"

definition PAGE_GET_PHYSICAL_ADDRESS :: "u32 \<Rightarrow> u32" where
  "PAGE_GET_PHYSICAL_ADDRESS x = x AND NOT 0xfff"

text \<open>The entry of a table or directory at \<open>p\<close> with index \<open>i\<close>.\<close>

definition entry_addr :: "u32 \<Rightarrow> u32 \<Rightarrow> u32" where
  "entry_addr p i = p + 4 * i"

section \<open>Operations\<close>

definition virt2phys :: "u32 \<Rightarrow> u32 \<Rightarrow> 's vmm_scheme \<Rightarrow> u32" where
  "virt2phys dir virt_addr s =
     (if dir = 0 then virt_addr - 0xC0000000
      else let page_dir_idx = PAGE_DIRECTORY_INDEX virt_addr;
               page_tbl_idx = PAGE_TABLE_INDEX virt_addr;
               page_frame_offset = PAGE_FRAME_INDEX virt_addr;
               table = load32 (mem s) (entry_addr dir page_dir_idx)
           in if table \<noteq> 0
              then let frame = load32 (mem s) (entry_addr (table AND 0xFFFFF000) page_tbl_idx)
                   in if frame \<noteq> 0 then (frame AND 0xFFFFF000) OR page_frame_offset else 0
              else 0)"

definition vmm_pt_lookup_entry :: "u32 \<Rightarrow> u32 \<Rightarrow> u32" where
  "vmm_pt_lookup_entry p virt_addr = (if p \<noteq> 0 then entry_addr p (PAGE_TABLE_INDEX virt_addr) else 0)"

definition vmm_pd_lookup_entry :: "u32 \<Rightarrow> u32 \<Rightarrow> u32" where
  "vmm_pd_lookup_entry p virt_addr = (if p \<noteq> 0 then entry_addr p (PAGE_DIRECTORY_INDEX virt_addr) else 0)"

definition vmm_set_page :: "u32 \<Rightarrow> u32 \<Rightarrow> u32 \<Rightarrow> u32 \<Rightarrow> 's vmm_scheme \<Rightarrow> 's vmm_scheme" where
  "vmm_set_page e phys virt attr s =
     (let table = PAGE_GET_PHYSICAL_ADDRESS (load32 (mem s) e)
      in s\<lparr>mem := store32 (mem s) (entry_addr table (PAGE_TABLE_INDEX virt)) ((phys AND 0xFFFFF000) OR attr)\<rparr>)"

definition vmm_map_page :: "u32 \<Rightarrow> u32 \<Rightarrow> u32 \<Rightarrow> u32 \<Rightarrow> 's vmm_scheme \<Rightarrow> 's vmm_scheme res" where
  "vmm_map_page dir phys virt attr s =
     (let e = entry_addr dir (PAGE_DIRECTORY_INDEX virt)
      in if load32 (mem s) e AND PTE_PRESENT \<noteq> PTE_PRESENT
         then bindE (pmm_alloc_block s) (\<lambda>(table, s1).
                if table = 0 then Inr s1
                else let m1 = memset (mem s1) table 0 4096;
                         m2 = store32 m1 e ((table AND 0xFFFFF000) OR attr)
                     in Inr (vmm_set_page e phys virt attr (s1\<lparr>mem := m2\<rparr>)))
         else Inr (vmm_set_page e phys virt attr s))"

partial_function (option) vmm_alloc_loop ::
  "u32 \<Rightarrow> u32 \<Rightarrow> u32 \<Rightarrow> u32 \<Rightarrow> u32 \<Rightarrow> u32 \<Rightarrow> 's vmm_scheme \<Rightarrow> 's vmm_scheme res option" where
  "vmm_alloc_loop dir p va attr i page_count s =
     (if i \<le> page_count
      then (case vmm_map_page dir (p + i * PMM_BLOCK_SIZE) (va + i * PMM_BLOCK_SIZE) attr s of
              Inl e \<Rightarrow> Some (Inl e)
            | Inr s1 \<Rightarrow> vmm_alloc_loop dir p va attr i (page_count + 1) s1)
      else Some (Inr s))"

definition vmm_alloc_page :: "u32 \<Rightarrow> u32 \<Rightarrow> u32 \<Rightarrow> u16 \<Rightarrow> 's vmm_scheme \<Rightarrow> (bool \<times> 's vmm_scheme) res" where
  "vmm_alloc_page dir va sz attr s =
     (if dir = 0 then Inl Panic
      else let page_count = sz - 1
           in bindE (pmm_alloc_blocks (page_count + 1) s) (\<lambda>(p, s1).
              bindE (returns (vmm_alloc_loop dir p va (ucast attr) 0 page_count s1)) (\<lambda>r.
              bindE r (\<lambda>s2. Inr (True, s2)))))"

definition vmm_free_page :: "u32 \<Rightarrow> 's vmm_scheme \<Rightarrow> 's vmm_scheme res" where
  "vmm_free_page e s =
     (let p = load32 (mem s) e AND 0xFFFFF000
      in bindE (if p \<noteq> 0 then pmm_free_block p s else Inr s) (\<lambda>s1.
         Inr (s1\<lparr>mem := store32 (mem s1) e (load32 (mem s1) e AND NOT PTE_PRESENT)\<rparr>)))"

definition print_if :: "bool \<Rightarrow> string \<Rightarrow> 's console_scheme \<Rightarrow> 's console_scheme res" where
  "print_if b msg s = (if b then printf (lit msg) [] s else Inr s)"

definition page_fault_handler :: "registers \<Rightarrow> 's vmm_scheme \<Rightarrow> 's vmm_scheme res" where
  "page_fault_handler regs s =
     (let faulting_address = cr2 s;
          present = \<not> (r_err_code regs AND 0x1 \<noteq> 0);
          rw = r_err_code regs AND 0x2 \<noteq> 0;
          us = r_err_code regs AND 0x4 \<noteq> 0;
          reserved = r_err_code regs AND 0x8 \<noteq> 0
      in bindE (printf (lit ''Page fault! ( '') [] s) (\<lambda>s1.
         bindE (print_if present ''present '' s1) (\<lambda>s2.
         bindE (print_if rw ''read-only '' s2) (\<lambda>s3.
         bindE (print_if us ''user-mode '' s3) (\<lambda>s4.
         bindE (print_if reserved ''reserved '' s4) (\<lambda>s5.
         bindE (printf (lit '') at 0x%x'' @ [10]) [faulting_address] s5) (\<lambda>_. Inl Panic)))))))"

definition switch_page_directory :: "u32 \<Rightarrow> 's vmm_scheme \<Rightarrow> bool \<times> 's vmm_scheme" where
  "switch_page_directory dir s =
     (if dir = 0 then (False, s) else (True, s\<lparr>cur_dir := dir, cr3 := dir\<rparr>))"

definition enable_paging :: "bool \<Rightarrow> 's vmm_scheme \<Rightarrow> 's vmm_scheme" where
  "enable_paging b s = s\<lparr>cr0 := (if b then cr0 s OR 0x80000000 else cr0 s AND 0x7FFFFFFF)\<rparr>"

definition vmm_get_directory :: "'s vmm_scheme \<Rightarrow> u32" where
  "vmm_get_directory s = cur_dir s"

text \<open>The two loops of \<^verbatim>\<open>init_paging\<close>: \<open>n\<close> iterations remain.\<close>

fun fill_table :: "nat \<Rightarrow> u32 \<Rightarrow> u32 \<Rightarrow> u32 \<Rightarrow> mem \<Rightarrow> mem" where
  "fill_table 0 table frame virt m = m"
| "fill_table (Suc n) table frame virt m =
     fill_table n table (frame + 4096) (virt + 4096)
       (store32 m (entry_addr table (PAGE_TABLE_INDEX virt))
          ((frame AND 0xFFFFF000) OR PTE_PRESENT OR PTE_WRITABLE OR PTE_USER))"

definition init_paging :: "u32 \<Rightarrow> 's vmm_scheme \<Rightarrow> 's vmm_scheme res" where
  "init_paging handler s =
     bindE (pmm_alloc_block s) (\<lambda>(identity_table, s1).
     if identity_table = 0 then Inr s1 else
     let s2 = s1\<lparr>mem := memset (mem s1) identity_table 0 4096\<rparr> in
     bindE (pmm_alloc_block s2) (\<lambda>(kernel_table, s3).
     if kernel_table = 0 then Inr s3 else
     let s4 = s3\<lparr>mem := memset (mem s3) kernel_table 0 4096\<rparr>;
         s5 = s4\<lparr>mem := fill_table 1024 identity_table 0 0 (mem s4)\<rparr>;
         s6 = s5\<lparr>mem := fill_table 1024 kernel_table 0 0xC0000000 (mem s5)\<rparr> in
     bindE (pmm_alloc_block s6) (\<lambda>(dir, s7).
     let s8 = s7\<lparr>kpage_dir := dir\<rparr> in
     if dir = 0 then Inr s8 else
     let m1 = memset (mem s8) dir 0 4096;
         m2 = store32 m1 (entry_addr dir (PAGE_DIRECTORY_INDEX 0))
                ((identity_table AND 0xFFFFF000) OR PDE_PRESENT OR PDE_WRITABLE OR PTE_USER);
         m3 = store32 m2 (entry_addr dir (PAGE_DIRECTORY_INDEX 0xC0000000))
                ((kernel_table AND 0xFFFFF000) OR PDE_PRESENT OR PDE_WRITABLE OR PTE_USER);
         s9 = register_interrupt_handler 14 handler (s8\<lparr>mem := m3\<rparr>);
         s10 = snd (switch_page_directory (kpage_dir s9) s9)
     in Inr (enable_paging True s10))))"

section \<open>Entries\<close>

definition entry :: "mem \<Rightarrow> u32 \<Rightarrow> u32 \<Rightarrow> u32" where
  "entry m p i = load32 m (entry_addr p i)"

definition page_aligned :: "u32 \<Rightarrow> bool" where
  "page_aligned p \<longleftrightarrow> unat p mod 4096 = 0"

lemma page_alignedE:
  assumes "page_aligned p"
  obtains k where "unat p = 4096 * k" and "k < 2 ^ 20"
proof -
  obtain k where k: "unat p = 4096 * k" using assms by (auto simp: page_aligned_def elim: dvdE)
  then have "k < 2 ^ 20" using unat_u32_le [of p] by simp
  then show ?thesis using k that by blast
qed

lemma unat_entry_addr:
  assumes "page_aligned p" and "i < 1024"
  shows "unat (entry_addr p i) = unat p + 4 * unat i"
proof -
  have i: "unat i < 1024" using assms(2) by (simp add: word_less_nat_alt)
  obtain k where "unat p = 4096 * k" "k < 2 ^ 20" using assms(1) by (rule page_alignedE)
  then show ?thesis using i by (simp add: entry_addr_def unat_word_ariths)
qed

lemma disj_words:
  fixes a b :: u32
  assumes "4 dvd unat a" and "4 dvd unat b" and "a \<noteq> b"
  shows "disj_ivl a 4 b 4"
proof -
  have ne: "unat a \<noteq> unat b" using assms(3) by (simp add: word_unat_eq_iff)
  obtain x y where xy: "unat a = 4 * x" "unat b = 4 * y" using assms(1,2) by (auto elim!: dvdE)
  then have "x \<le> 1073741823" "y \<le> 1073741823" using unat_u32_le [of a] unat_u32_le [of b] by simp_all
  then show ?thesis using ne xy
    by (auto simp: disj_ivl_def word_le_nat_alt unat_sub_if_size word_size)
qed

lemma entry_addr_mod:
  assumes "page_aligned p" and "i < 1024"
  shows "4 dvd unat (entry_addr p i)"
proof -
  obtain k where "unat p = 4096 * k" using assms(1) by (rule page_alignedE)
  then have "unat (entry_addr p i) = 4 * (1024 * k + unat i)" using unat_entry_addr [OF assms] by simp
  then show ?thesis by simp
qed

lemma entry_addr_eq:
  assumes "page_aligned p" "page_aligned q" "i < 1024" "j < 1024"
  shows "entry_addr p i = entry_addr q j \<longleftrightarrow> p = q \<and> i = j"
proof
  assume "entry_addr p i = entry_addr q j"
  then have e: "unat p + 4 * unat i = unat q + 4 * unat j"
    using unat_entry_addr [OF assms(1,3)] unat_entry_addr [OF assms(2,4)] by simp
  obtain x y where xy: "unat p = 4096 * x" "unat q = 4096 * y" using assms(1,2) by (auto elim!: page_alignedE)
  have "unat i < 1024" "unat j < 1024" using assms(3,4) by (simp_all add: word_less_nat_alt)
  moreover have "1024 * x + unat i = 1024 * y + unat j" using e xy by simp
  then have "(1024 * x + unat i) div 1024 = (1024 * y + unat j) div 1024" by simp
  ultimately have "x = y" by simp
  then have "unat p = unat q" "unat i = unat j" using e xy by simp_all
  then show "p = q \<and> i = j" by (simp add: word_unat_eq_iff)
qed simp

lemma entry_store:
  assumes "page_aligned p" "page_aligned q" "i < 1024" "j < 1024"
  shows "entry (store32 m (entry_addr p i) v) q j = (if p = q \<and> i = j then v else entry m q j)"
proof (cases "p = q \<and> i = j")
  case False
  then have "disj_ivl (entry_addr p i) 4 (entry_addr q j) 4"
    using assms by (intro disj_words) (simp_all add: entry_addr_mod entry_addr_eq)
  then show ?thesis using False by (auto simp: entry_def load32_store32_disj)
qed (auto simp: entry_def)

lemma entry_in_page:
  assumes "page_aligned p" "page_aligned q" "j < 1024" "b - entry_addr q j < 4"
  shows "b - p < 4096 \<longleftrightarrow> p = q"
proof -
  obtain x where x: "unat p = 4096 * x" "x < 2 ^ 20" using assms(1) by (rule page_alignedE)
  obtain y where y: "unat q = 4096 * y" "y < 2 ^ 20" using assms(2) by (rule page_alignedE)
  define k where "k = unat (b - entry_addr q j)"
  have k: "k < 4" using assms(4) by (simp add: k_def word_less_nat_alt)
  have j: "unat j < 1024" using assms(3) by (simp add: word_less_nat_alt)
  have "unat b = unat (entry_addr q j + (b - entry_addr q j))" by simp
  also have "\<dots> = (unat (entry_addr q j) + k) mod 2 ^ 32" unfolding k_def by (simp only: unat_word_ariths) simp
  finally have b: "unat b = 4096 * y + (4 * unat j + k)"
    using unat_entry_addr [OF assms(2,3)] y k j by simp
  have pq: "p = q \<longleftrightarrow> x = y" using x y by (simp add: word_unat_eq_iff)
  show ?thesis
  proof (cases "x \<le> y")
    case True
    then have "unat (b - p) = 4096 * (y - x) + (4 * unat j + k)"
      using b x by (simp add: unat_sub_if_size word_size diff_mult_distrib2)
    then show ?thesis using pq True k j by (cases "x = y") (simp_all add: word_less_nat_alt)
  next
    case False
    then have "unat (b - p) = 2 ^ 32 + 4096 * y + (4 * unat j + k) - 4096 * x"
      using b x k j by (simp add: unat_sub_if_size word_size)
    then show ?thesis using pq False x y by (simp add: word_less_nat_alt)
  qed
qed

lemma load32_zero: "(\<And>b. b - a < 4 \<Longrightarrow> m b = 0) \<Longrightarrow> load32 m a = 0"
  by (simp add: load32_def)

lemma entry_memset:
  assumes "page_aligned p" "page_aligned q" "j < 1024"
  shows "entry (memset m p 0 4096) q j = (if p = q then 0 else entry m q j)"
proof (cases "p = q")
  case True
  then show ?thesis using entry_in_page [OF assms]
    by (auto simp: entry_def memset_apply intro!: load32_zero)
next
  case False
  then show ?thesis using entry_in_page [OF assms]
    by (auto simp: entry_def memset_apply intro!: load32_cong)
qed

section \<open>Translation\<close>

definition mmu_walk :: "mem \<Rightarrow> u32 \<Rightarrow> u32 \<Rightarrow> u32 option" where
  "mmu_walk m dir v =
     (let pde = entry m dir (PAGE_DIRECTORY_INDEX v)
      in if pde AND 1 = 0 then None
         else let pte = entry m (pde AND 0xFFFFF000) (PAGE_TABLE_INDEX v)
              in if pte AND 1 = 0 then None else Some ((pte AND 0xFFFFF000) OR (v AND 0xfff)))"

definition table_of :: "mem \<Rightarrow> u32 \<Rightarrow> u32 \<Rightarrow> u32" where
  "table_of m dir i = entry m dir i AND 0xFFFFF000"

definition has_table :: "mem \<Rightarrow> u32 \<Rightarrow> u32 \<Rightarrow> bool" where
  "has_table m dir i \<longleftrightarrow> i < 1024 \<and> entry m dir i AND 1 \<noteq> 0"

definition pd_ok :: "u32 \<Rightarrow> 's vmm_scheme \<Rightarrow> bool" where
  "pd_ok dir s \<longleftrightarrow>
     dir \<in> held_blocks s \<and>
     (\<forall>i. has_table (mem s) dir i \<longrightarrow> table_of (mem s) dir i \<in> held_blocks s - {dir}) \<and>
     (\<forall>i j. has_table (mem s) dir i \<and> has_table (mem s) dir j \<and> table_of (mem s) dir i = table_of (mem s) dir j \<longrightarrow> i = j)"

lemma frame_mask: "(0xFFFFF000 :: u32) = NOT (mask 12)" "(0xfff :: u32) = mask 12" "(0x3ff :: u32) = mask 10"
  by (simp_all add: mask_eq_exp_minus_1)

text \<open>The library reads a bit of a word literal as a bit of the integer of the same digits.\<close>

lemma bit_frame_mask: "bit (0xFFFFF000 :: int) n \<longleftrightarrow> 12 \<le> n \<and> n < 32"
proof -
  have "(0xFFFFF000 :: int) = push_bit 12 (mask 20)" by (simp add: mask_eq_exp_minus_1 push_bit_eq_mult)
  then show ?thesis by (auto simp only: bit_push_bit_iff_int bit_mask_iff) auto
qed

lemma bit_offset_mask: "bit (0xfff :: int) n \<longleftrightarrow> n < 12"
proof -
  have "(0xfff :: int) = mask 12" by (simp add: mask_eq_exp_minus_1)
  then show ?thesis by (simp only: bit_mask_iff) simp
qed

lemma index_less: "PAGE_DIRECTORY_INDEX v < 1024" "PAGE_TABLE_INDEX v < 1024"
proof -
  have "unat (x AND 0x3ff) < 1024" for x :: u32
  proof -
    have "x AND 0x3ff = take_bit 10 x" unfolding frame_mask by (simp add: take_bit_eq_mask)
    then show ?thesis using take_bit_nat_less_exp [of 10 "unat x"] by (simp add: unsigned_take_bit_eq)
  qed
  then show "PAGE_DIRECTORY_INDEX v < 1024" "PAGE_TABLE_INDEX v < 1024"
    by (simp_all add: PAGE_DIRECTORY_INDEX_def PAGE_TABLE_INDEX_def word_less_nat_alt)
qed

lemma bit_index:
  "bit (PAGE_DIRECTORY_INDEX v) n \<longleftrightarrow> n < 10 \<and> bit v (22 + n)"
  "bit (PAGE_TABLE_INDEX v) n \<longleftrightarrow> n < 10 \<and> bit v (12 + n)"
  unfolding PAGE_DIRECTORY_INDEX_def PAGE_TABLE_INDEX_def frame_mask by (auto simp: bit_simps add.commute)

lemma same_page_iff:
  "v AND 0xFFFFF000 = w AND 0xFFFFF000 \<longleftrightarrow>
     PAGE_DIRECTORY_INDEX v = PAGE_DIRECTORY_INDEX w \<and> PAGE_TABLE_INDEX v = PAGE_TABLE_INDEX w"
proof
  assume *: "v AND 0xFFFFF000 = w AND 0xFFFFF000"
  have b: "bit v n = bit w n" if "12 \<le> n" "n < 32" for n
  proof -
    have "bit (v AND 0xFFFFF000) n = bit (w AND 0xFFFFF000) n" by (simp only: *)
    then show ?thesis using that by (simp add: bit_and_iff bit_frame_mask)
  qed
  show "PAGE_DIRECTORY_INDEX v = PAGE_DIRECTORY_INDEX w \<and> PAGE_TABLE_INDEX v = PAGE_TABLE_INDEX w"
    by (auto intro!: bit_word_eqI simp: bit_index b)
next
  assume *: "PAGE_DIRECTORY_INDEX v = PAGE_DIRECTORY_INDEX w \<and> PAGE_TABLE_INDEX v = PAGE_TABLE_INDEX w"
  have d: "bit v (22 + n) = bit w (22 + n)" if "n < 10" for n
    using * that bit_index(1) [of v n] bit_index(1) [of w n] by simp
  have t: "bit v (12 + n) = bit w (12 + n)" if "n < 10" for n
    using * that bit_index(2) [of v n] bit_index(2) [of w n] by simp
  show "v AND 0xFFFFF000 = w AND 0xFFFFF000"
  proof (rule bit_word_eqI)
    fix n assume "n < LENGTH(32)"
    then have n: "n < 32" by simp
    then consider "n < 12" | k where "n = 12 + k" "k < 10" | k where "n = 22 + k" "k < 10"
    proof -
      have "n < 12 \<or> (\<exists>k. n = 12 + k \<and> k < 10) \<or> (\<exists>k. n = 22 + k \<and> k < 10)"
        using n by (cases "n < 12"; cases "n < 22") (auto simp: le_iff_add not_less)
      then show thesis using that by blast
    qed
    then show "bit (v AND 0xFFFFF000) n = bit (w AND 0xFFFFF000) n"
      by cases (auto simp: bit_simps bit_frame_mask d t)
  qed
qed

lemma page_aligned_bits: "page_aligned p \<longleftrightarrow> p AND 0xFFFFF000 = p"
proof -
  have "unat (take_bit 12 p) = unat p mod 4096" by (simp add: take_bit_eq_mod unat_mod)
  then have "page_aligned p \<longleftrightarrow> take_bit 12 p = 0"
    by (simp only: page_aligned_def word_unat_eq_iff unat_0)
  also have "\<dots> \<longleftrightarrow> (\<forall>n < 12. \<not> bit p n)"
    by (auto simp: bit_eq_iff bit_simps)
  also have "\<dots> \<longleftrightarrow> p AND 0xFFFFF000 = p"
  proof
    assume "\<forall>n < 12. \<not> bit p n"
    then show "p AND 0xFFFFF000 = p"
      by (intro bit_word_eqI) (auto simp: bit_and_iff bit_frame_mask intro: leI)
  next
    assume *: "p AND 0xFFFFF000 = p"
    show "\<forall>n < 12. \<not> bit p n"
    proof (intro allI impI notI)
      fix n assume n: "n < 12" "bit p n"
      then have "bit (p AND 0xFFFFF000) n" by (simp only: *)
      then show False using n(1) by (simp add: bit_and_iff bit_frame_mask)
    qed
  qed
  finally show ?thesis .
qed

lemma page_aligned_mask [simp]: "page_aligned (x AND 0xFFFFF000)"
  by (simp add: page_aligned_bits and.assoc)

lemma entry_value:
  assumes "page_aligned t" and "attr < 0x1000"
  shows "(t OR attr) AND 0xFFFFF000 = t" and "(t OR attr) AND 1 = attr AND 1"
proof -
  have a: "n < 12" if "bit attr n" for n
  proof -
    have "unat attr < 2 ^ 12" using assms(2) by (simp add: word_less_nat_alt)
    then have "take_bit 12 attr = attr"
      by (simp add: word_unat_eq_iff unsigned_take_bit_eq take_bit_nat_eq_self)
    then have "bit (take_bit 12 attr) n = bit attr n" by simp
    then show ?thesis using that by (auto simp: bit_simps)
  qed
  have t: "12 \<le> n \<and> n < 32" if "bit t n" for n
  proof -
    have "bit (t AND 0xFFFFF000) n = bit t n" using assms(1) by (simp only: page_aligned_bits)
    then show ?thesis using that by (auto simp: bit_and_iff bit_frame_mask)
  qed
  show "(t OR attr) AND 0xFFFFF000 = t"
    by (rule bit_word_eqI) (use a t in \<open>force simp: bit_and_iff bit_or_iff bit_frame_mask\<close>)
  show "(t OR attr) AND 1 = attr AND 1"
    by (rule bit_word_eqI) (use t in \<open>fastforce simp: bit_simps\<close>)
qed

lemma walk_eq:
  "mmu_walk m dir v =
     (if has_table m dir (PAGE_DIRECTORY_INDEX v)
      then let pte = entry m (table_of m dir (PAGE_DIRECTORY_INDEX v)) (PAGE_TABLE_INDEX v)
           in if pte AND 1 = 0 then None else Some ((pte AND 0xFFFFF000) OR (v AND 0xfff))
      else None)"
  by (simp add: mmu_walk_def has_table_def table_of_def index_less Let_def)

lemma pmm_inv_mem [simp]:
  "pmm_inv (s\<lparr>mem := m\<rparr>) = pmm_inv s" "held_blocks (s\<lparr>mem := m\<rparr>) = held_blocks s"
  by (simp_all add: pmm_inv_def pmm_counts_def pmm_sized_def held_blocks_def taken_set_def taken_def)

lemma held_aligned: 
  assumes "pmm_inv s" "p \<in> held_blocks s"
  shows "page_aligned p"
proof -
  obtain f where f: "p = of_nat f * 4096" "f \<in> taken_set s" using assms(2) by (auto simp: held_blocks_def)
  have "f < 2 ^ 20" using taken_set_bound [OF _ f(2)] assms(1) by (auto simp: pmm_inv_def pmm_counts_def)
  then have "unat p = f * 4096" using unat_of_nat_u32 [of "f * 4096"] f(1) by simp
  then show ?thesis by (simp add: page_aligned_def)
qed

lemma alloc_block_spec:
  fixes s :: "'s pmm_scheme"
  assumes "pmm_inv s"
  obtains "pmm_alloc_block s = Inr (0, s)" and "\<forall>f < searched s. taken s f"
  | p b where "pmm_alloc_block s = Inr (p, s\<lparr>bitmap_addr := b, pmm_used_blocks := pmm_used_blocks s + 1\<rparr>)"
      and "pmm_inv (s\<lparr>bitmap_addr := b, pmm_used_blocks := pmm_used_blocks s + 1\<rparr>)"
      and "p \<noteq> 0" and "p \<notin> held_blocks s" and "page_aligned p"
      and "held_blocks (s\<lparr>bitmap_addr := b, pmm_used_blocks := pmm_used_blocks s + 1\<rparr>) = insert p (held_blocks s)"
proof -
  from frames.alloc [OF assms] obtain p s' where a: "pmm_alloc_block s = Inr (p, s')" "pmm_inv s'"
    "if p = 0 then s' = s else p \<notin> held_blocks s \<and> held_blocks s' = insert p (held_blocks s)" by blast
  from alloc_block_cases [OF assms] show ?thesis
  proof (elim disjE exE conjE)
    fix f t b
    assume b: "pmm_alloc_block s = Inr (of_nat f * 4096, t)" "0 < f" "f < 2 ^ 20"
      "t = s\<lparr>bitmap_addr := b, pmm_used_blocks := pmm_used_blocks s + 1\<rparr>"
    have "p \<noteq> 0" using b a(1) frame_address_inj [of f 0] by simp
    moreover have "page_aligned p" using held_aligned [OF a(2), of p] a(3) \<open>p \<noteq> 0\<close> by simp
    ultimately show ?thesis using that(2) [of p b] a b by simp
  qed (use that(1) in blast)
qed

definition tables_ok :: "mem \<Rightarrow> u32 \<Rightarrow> bool" where
  "tables_ok m dir \<longleftrightarrow>
     page_aligned dir \<and>
     (\<forall>i. has_table m dir i \<longrightarrow> table_of m dir i \<noteq> dir) \<and>
     (\<forall>i j. has_table m dir i \<and> has_table m dir j \<and> table_of m dir i = table_of m dir j \<longrightarrow> i = j)"

lemma pd_ok_tables: "pmm_inv s \<Longrightarrow> pd_ok dir s \<Longrightarrow> tables_ok (mem s) dir"
  by (auto simp: pd_ok_def tables_ok_def held_aligned)

lemma pd_okI:
  assumes "tables_ok (mem s) dir" and "dir \<in> held_blocks s"
    and "\<And>i. has_table (mem s) dir i \<Longrightarrow> table_of (mem s) dir i \<in> held_blocks s"
  shows "pd_ok dir s"
  using assms unfolding pd_ok_def tables_ok_def by blast

lemma has_table_less: "has_table m dir i \<Longrightarrow> i < 1024"
  by (simp add: has_table_def)

lemma table_of_aligned [simp]: "page_aligned (table_of m dir i)"
  by (simp add: table_of_def)

lemma walk_set_page:
  assumes ok: "tables_ok m dir" and t: "has_table m dir (PAGE_DIRECTORY_INDEX virt)"
    and attr: "attr AND 1 = 1" "attr < 0x1000"
    and m'_def: "m' = store32 m (entry_addr (table_of m dir (PAGE_DIRECTORY_INDEX virt)) (PAGE_TABLE_INDEX virt))
             ((phys AND 0xFFFFF000) OR attr)"
  shows "i < 1024 \<Longrightarrow> entry m' dir i = entry m dir i"
    and "mmu_walk m' dir v =
      (if v AND 0xFFFFF000 = virt AND 0xFFFFF000 then Some ((phys AND 0xFFFFF000) OR (v AND 0xfff))
       else mmu_walk m dir v)"
proof -
  let ?T = "table_of m dir (PAGE_DIRECTORY_INDEX virt)"
  have dir: "page_aligned dir" "?T \<noteq> dir" using ok t by (auto simp: tables_ok_def)
  have e: "entry m' dir i = entry m dir i" if "i < 1024" for i
    using that dir by (simp add: m'_def entry_store index_less)
  then show "i < 1024 \<Longrightarrow> entry m' dir i = entry m dir i" .
  have h: "has_table m' dir j = has_table m dir j" "j < 1024 \<Longrightarrow> table_of m' dir j = table_of m dir j" for j
    by (auto simp: has_table_def table_of_def e)
  have v: "entry m' (table_of m dir j) k =
      (if ?T = table_of m dir j \<and> PAGE_TABLE_INDEX virt = k then (phys AND 0xFFFFF000) OR attr
       else entry m (table_of m dir j) k)" if "k < 1024" for j k
    using that by (simp add: m'_def entry_store index_less)
  have inj: "?T = table_of m dir (PAGE_DIRECTORY_INDEX v) \<longleftrightarrow> PAGE_DIRECTORY_INDEX v = PAGE_DIRECTORY_INDEX virt"
    if "has_table m dir (PAGE_DIRECTORY_INDEX v)"
    using ok t that by (auto simp: tables_ok_def)
  show "mmu_walk m' dir v =
      (if v AND 0xFFFFF000 = virt AND 0xFFFFF000 then Some ((phys AND 0xFFFFF000) OR (v AND 0xfff))
       else mmu_walk m dir v)"
    using t inj entry_value [OF page_aligned_mask attr(2), of phys] attr(1)
    by (auto simp: walk_eq h index_less v same_page_iff [of v virt] Let_def)
qed

lemma walk_new_table:
  assumes ok: "tables_ok m dir" and t: "\<not> has_table m dir i" "i < 1024"
    and p: "page_aligned p" "p \<noteq> dir" "\<forall>j. has_table m dir j \<longrightarrow> table_of m dir j \<noteq> p"
    and attr: "attr AND 1 = 1" "attr < 0x1000"
    and m'_def: "m' = store32 (memset m p 0 4096) (entry_addr dir i) (p OR attr)"
  shows "has_table m' dir j \<longleftrightarrow> has_table m dir j \<or> j = i"
    and "j < 1024 \<Longrightarrow> table_of m' dir j = (if j = i then p else table_of m dir j)"
    and "mmu_walk m' dir v = mmu_walk m dir v"
    and "tables_ok m' dir"
proof -
  have dir: "page_aligned dir" using ok by (simp add: tables_ok_def)
  have e: "entry m' dir j = (if j = i then p OR attr else entry m dir j)" if "j < 1024" for j
    using that t(2) dir p by (simp add: m'_def entry_store entry_memset)
  have q: "entry m' q k = (if q = p then 0 else entry m q k)" if "page_aligned q" "q \<noteq> dir" "k < 1024" for q k
    using that t(2) dir p by (auto simp: m'_def entry_store entry_memset)
  note val = entry_value [OF p(1) attr(2)]
  have h: "has_table m' dir j \<longleftrightarrow> has_table m dir j \<or> j = i" for j
    using t(2) attr(1) val by (auto simp: has_table_def e split: if_splits)
  have o: "table_of m' dir j = (if j = i then p else table_of m dir j)" if "j < 1024" for j
    using that val by (simp add: table_of_def e)
  show "has_table m' dir j \<longleftrightarrow> has_table m dir j \<or> j = i" by (rule h)
  show "j < 1024 \<Longrightarrow> table_of m' dir j = (if j = i then p else table_of m dir j)" by (rule o)
  have lt: "has_table m dir j \<Longrightarrow> j < 1024" for j by (simp add: has_table_def)
  show "tables_ok m' dir"
    unfolding tables_ok_def
  proof (intro conjI allI impI)
    fix j assume j: "has_table m' dir j"
    then show "table_of m' dir j \<noteq> dir"
      using ok p(2) t(2) lt o by (cases "j = i") (auto simp: h tables_ok_def)
  next
    fix j k assume jk: "has_table m' dir j \<and> has_table m' dir k \<and> table_of m' dir j = table_of m' dir k"
    then have b: "j < 1024" "k < 1024" by (auto simp: has_table_def)
    have u: "j = k" if "has_table m dir j" "has_table m dir k" "table_of m dir j = table_of m dir k"
      using ok that by (auto simp: tables_ok_def)
    show "j = k"
      using jk p(3) u unfolding h o [OF b(1)] o [OF b(2)] by (metis)
  qed (rule dir)
  show "mmu_walk m' dir v = mmu_walk m dir v"
  proof (cases "has_table m dir (PAGE_DIRECTORY_INDEX v)")
    case True
    then have "PAGE_DIRECTORY_INDEX v \<noteq> i" "table_of m dir (PAGE_DIRECTORY_INDEX v) \<noteq> dir"
        "table_of m dir (PAGE_DIRECTORY_INDEX v) \<noteq> p"
      using t(1) ok p(3) by (auto simp: tables_ok_def)
    then show ?thesis using True by (simp add: walk_eq h o index_less q)
  next
    case False
    then show ?thesis using p by (auto simp: walk_eq h o index_less q Let_def)
  qed
qed

lemma phys_mask: "PAGE_GET_PHYSICAL_ADDRESS x = x AND 0xFFFFF000"
proof -
  have "NOT 0xfff = (0xFFFFF000 :: u32)" by simp
  then show ?thesis by (simp only: PAGE_GET_PHYSICAL_ADDRESS_def)
qed

lemma present_iff: "(x :: u32) AND 1 \<noteq> 1 \<longleftrightarrow> x AND 1 = 0"
  by (simp add: and_one_eq odd_iff_mod_2_eq_one)

lemma vmm_set_page_eq:
  "vmm_set_page (entry_addr dir (PAGE_DIRECTORY_INDEX virt)) phys virt attr s =
     s\<lparr>mem := store32 (mem s) (entry_addr (table_of (mem s) dir (PAGE_DIRECTORY_INDEX virt)) (PAGE_TABLE_INDEX virt))
        ((phys AND 0xFFFFF000) OR attr)\<rparr>"
  by (simp add: vmm_set_page_def phys_mask table_of_def entry_def Let_def)

lemma pd_ok_cong:
  assumes "pd_ok dir s" and "held_blocks s \<subseteq> held_blocks s'" and "\<And>i. i < 1024 \<Longrightarrow> entry (mem s') dir i = entry (mem s) dir i"
  shows "pd_ok dir s'"
proof -
  have h: "has_table (mem s') dir i = has_table (mem s) dir i" for i
    using assms(3) by (auto simp: has_table_def)
  have t: "table_of (mem s') dir i = table_of (mem s) dir i" if "has_table (mem s) dir i" for i
    using that assms(3) by (simp add: has_table_def table_of_def)
  show ?thesis using assms(1,2) unfolding pd_ok_def h by (simp add: t cong: conj_cong imp_cong) blast
qed

lemma map_page_ok:
  fixes s :: "'s vmm_scheme"
  assumes inv: "pmm_inv s" and ok: "pd_ok dir s" and attr: "attr AND 1 = 1" "attr < 0x1000"
  shows "\<exists>s'. vmm_map_page dir phys virt attr s = Inr s' \<and> pmm_inv s' \<and> pd_ok dir s' \<and>
    (s' = s \<and> (\<forall>f < searched s. taken s f) \<or>
     (\<forall>v. mmu_walk (mem s') dir v =
        (if v AND 0xFFFFF000 = virt AND 0xFFFFF000 then Some ((phys AND 0xFFFFF000) OR (v AND 0xfff))
         else mmu_walk (mem s) dir v)))"
proof (cases "has_table (mem s) dir (PAGE_DIRECTORY_INDEX virt)")
  case True
  let ?s = "vmm_set_page (entry_addr dir (PAGE_DIRECTORY_INDEX virt)) phys virt attr s"
  note w = walk_set_page [where phys = phys, OF pd_ok_tables [OF inv ok] True attr refl]
  have "vmm_map_page dir phys virt attr s = Inr ?s"
    using True by (simp add: vmm_map_page_def has_table_def entry_def present_iff Let_def)
  moreover have "pd_ok dir ?s"
    by (rule pd_ok_cong [OF ok]) (simp_all add: vmm_set_page_eq w)
  moreover have "pmm_inv ?s" using inv by (simp add: vmm_set_page_eq)
  ultimately show ?thesis using w(2) by (auto simp: vmm_set_page_eq)
next
  case False
  let ?e = "entry_addr dir (PAGE_DIRECTORY_INDEX virt)"
  have unf: "vmm_map_page dir phys virt attr s = bindE (pmm_alloc_block s) (\<lambda>(table, s1).
      if table = 0 then Inr s1
      else Inr (vmm_set_page ?e phys virt attr
        (s1\<lparr>mem := store32 (memset (mem s1) table 0 4096) ?e ((table AND 0xFFFFF000) OR attr)\<rparr>)))"
    unfolding vmm_map_page_def Let_def
    using False by (simp add: has_table_def entry_def index_less present_iff)
  show ?thesis
  proof (cases rule: alloc_block_spec [OF inv])
    case 1
    then show ?thesis using inv ok unf by simp
  next
    case (2 p b)
    let ?s1 = "s\<lparr>bitmap_addr := b, pmm_used_blocks := pmm_used_blocks s + 1\<rparr>"
    let ?m2 = "store32 (memset (mem s) p 0 4096) ?e (p OR attr)"
    let ?s2 = "?s1\<lparr>mem := ?m2\<rparr>"
    have p: "p AND 0xFFFFF000 = p" using 2(5) by (simp add: page_aligned_bits)
    have ne: "p \<noteq> dir" "\<forall>j. has_table (mem s) dir j \<longrightarrow> table_of (mem s) dir j \<noteq> p"
      using ok 2(4) by (auto simp: pd_ok_def)
    note n = walk_new_table [OF pd_ok_tables [OF inv ok] False index_less(1) 2(5) ne attr refl]
    have h: "has_table ?m2 dir (PAGE_DIRECTORY_INDEX virt)" by (simp add: n)
    note w = walk_set_page [where phys = phys, OF n(4) h attr refl]
    let ?s3 = "vmm_set_page ?e phys virt attr ?s2"
    have "vmm_map_page dir phys virt attr s = Inr ?s3" using unf 2(1,3) p by simp
    moreover have "pmm_inv ?s2" using 2(2) by simp
    then have "pmm_inv ?s3" by (simp add: vmm_set_page_eq)
    moreover have held: "table_of ?m2 dir i \<in> insert p (held_blocks s)" if "has_table ?m2 dir i" for i
    proof (cases "i = PAGE_DIRECTORY_INDEX virt")
      case True
      then show ?thesis using n(2) [OF has_table_less [OF that]] by simp
    next
      case False
      then have "has_table (mem s) dir i" using that n(1) by simp
      then show ?thesis using False n(2) [OF has_table_less [OF that]] ok by (simp add: pd_ok_def)
    qed
    have "pd_ok dir ?s2"
      using n(4) ok 2(6) held by (intro pd_okI) (simp_all add: pd_ok_def)
    then have "pd_ok dir ?s3" by (rule pd_ok_cong) (simp_all add: vmm_set_page_eq w)
    moreover have "mmu_walk (mem ?s3) dir v =
        (if v AND 0xFFFFF000 = virt AND 0xFFFFF000 then Some ((phys AND 0xFFFFF000) OR (v AND 0xfff))
         else mmu_walk (mem s) dir v)" for v
      using w(2) n(3) by (simp add: vmm_set_page_eq)
    ultimately show ?thesis by blast
  qed
qed

lemma unat_index:
  "unat (PAGE_DIRECTORY_INDEX v) = unat v div 2 ^ 22"
  "unat (PAGE_TABLE_INDEX v) = unat v div 4096 mod 1024"
proof -
  have m: "x AND 0x3ff = take_bit 10 x" for x :: u32 unfolding frame_mask by (simp add: take_bit_eq_mask)
  have "unat v div 2 ^ 22 < 1024" using unat_u32_le [of v] by simp
  then show "unat (PAGE_DIRECTORY_INDEX v) = unat v div 2 ^ 22"
    unfolding PAGE_DIRECTORY_INDEX_def m
    by (simp add: unsigned_take_bit_eq drop_bit_eq_div unat_div take_bit_nat_eq_self)
  show "unat (PAGE_TABLE_INDEX v) = unat v div 4096 mod 1024"
    unfolding PAGE_TABLE_INDEX_def m
    by (simp add: drop_bit_eq_div take_bit_eq_mod unat_div unat_mod)
qed

lemma table_index_run:
  assumes "unat base = 2 ^ 22 * b" and "a < 1024"
  shows "PAGE_TABLE_INDEX (base + of_nat a * 4096) = of_nat a"
proof -
  have "b < 1024" using assms(1) unat_u32_le [of base] by simp
  then have "unat (base + of_nat a * 4096) = 2 ^ 22 * b + a * 4096"
    using assms unat_of_nat_u32 [of "a * 4096"] by (simp add: unat_word_ariths)
  also have "(2 ^ 22 * b + a * 4096) div 4096 = 1024 * b + a"
    by (simp add: div_mult2_eq)
  finally have "unat (PAGE_TABLE_INDEX (base + of_nat a * 4096)) = a"
    using assms(2) by (simp add: unat_index)
  then show ?thesis using assms(2) unat_of_nat_u32 [of a] by (simp add: word_unat_eq_iff)
qed

lemma page_aligned_mult: "page_aligned (of_nat a * 4096)"
proof -
  have "unat (of_nat a * 4096 :: u32) = (a * 4096) mod 2 ^ 32"
    using unat_of_nat [of "a * 4096", where 'a = 32] by (simp add: take_bit_eq_mod)
  moreover have "4096 dvd (a * 4096) mod 2 ^ 32" by (simp add: dvd_mod_iff)
  ultimately show ?thesis by (simp add: page_aligned_def)
qed

lemma fill_table_entry:
  assumes base: "unat base = 2 ^ 22 * b" and table: "page_aligned table"
    and an: "a + n \<le> 1024" and q: "page_aligned q" "j < 1024"
  shows "entry (fill_table n table (of_nat a * 4096) (base + of_nat a * 4096) m) q j =
    (if q = table \<and> a \<le> unat j \<and> unat j < a + n then (j * 4096) OR 7 else entry m q j)"
  using an
proof (induction n arbitrary: a m)
  case 0
  then show ?case by auto
next
  case (Suc n)
  let ?v = "(of_nat a * 4096 AND 0xFFFFF000) OR 1 OR 2 OR 4 :: u32"
  let ?m = "store32 m (entry_addr table (of_nat a)) ?v"
  have a: "a < 1024" "unat (of_nat a :: u32) = a" using Suc.prems unat_of_nat_u32 [of a] by simp_all
  then have al: "of_nat a < (1024 :: u32)" by (simp add: word_less_nat_alt)
  have v: "?v = of_nat a * 4096 OR 7"
    using page_aligned_mult [of a] by (simp add: page_aligned_bits or.assoc)
  have step: "of_nat a * 4096 + 4096 = (of_nat (Suc a) * 4096 :: u32)"
    "base + of_nat a * 4096 + 4096 = base + of_nat (Suc a) * 4096" by (simp_all add: algebra_simps)
  have "fill_table (Suc n) table (of_nat a * 4096) (base + of_nat a * 4096) m =
      fill_table n table (of_nat (Suc a) * 4096) (base + of_nat (Suc a) * 4096) ?m"
    unfolding fill_table.simps table_index_run [OF base a(1)] step ..
  then have "entry (fill_table (Suc n) table (of_nat a * 4096) (base + of_nat a * 4096) m) q j =
     (if q = table \<and> Suc a \<le> unat j \<and> unat j < Suc a + n then (j * 4096) OR 7 else entry ?m q j)"
    using Suc.IH [of "Suc a" ?m] Suc.prems by simp
  also have "entry ?m q j = (if table = q \<and> of_nat a = j then of_nat a * 4096 OR 7 else entry m q j)"
    unfolding v by (rule entry_store [OF table q(1) al q(2)])
  also have "of_nat a = j \<longleftrightarrow> unat j = a" using a by (auto simp: word_unat_eq_iff)
  finally show ?case by auto
qed

lemma walk_offset: "(PAGE_TABLE_INDEX v * 4096) OR (v AND 0xfff) = take_bit 22 v"
proof -
  have "PAGE_TABLE_INDEX v * 4096 = push_bit 12 (PAGE_TABLE_INDEX v)" by (simp add: push_bit_eq_mult)
  then show ?thesis
    by (intro bit_word_eqI) (auto simp: bit_simps bit_index bit_offset_mask)
qed

definition free_frames :: "'s pmm_scheme \<Rightarrow> nat set" where
  "free_frames s = {f. f < searched s \<and> \<not> taken s f}"

lemma free_frames_mem [simp]: "free_frames (s\<lparr>mem := m\<rparr>) = free_frames s"
  by (simp add: free_frames_def searched_def taken_def)

lemma alloc_block_free:
  fixes s :: "'s pmm_scheme"
  assumes "pmm_inv s" and "0 < card (free_frames s)"
  obtains p b where "pmm_alloc_block s = Inr (p, s\<lparr>bitmap_addr := b, pmm_used_blocks := pmm_used_blocks s + 1\<rparr>)"
    and "pmm_inv (s\<lparr>bitmap_addr := b, pmm_used_blocks := pmm_used_blocks s + 1\<rparr>)"
    and "p \<noteq> 0" and "p \<notin> held_blocks s" and "page_aligned p"
    and "held_blocks (s\<lparr>bitmap_addr := b, pmm_used_blocks := pmm_used_blocks s + 1\<rparr>) = insert p (held_blocks s)"
    and "card (free_frames s) = Suc (card (free_frames (s\<lparr>bitmap_addr := b, pmm_used_blocks := pmm_used_blocks s + 1\<rparr>)))"
proof (cases rule: alloc_block_spec [OF assms(1)])
  case 1
  then have "free_frames s = {}" by (auto simp: free_frames_def)
  then show ?thesis using assms(2) by simp
next
  case (2 p b)
  let ?t = "s\<lparr>bitmap_addr := b, pmm_used_blocks := pmm_used_blocks s + 1\<rparr>"
  have sz: "searched s \<le> 2 ^ 20"
    using assms(1) searched_le [of s] by (auto simp: pmm_inv_def pmm_counts_def pmm_sized_def)
  from alloc_block_cases [OF assms(1)] obtain f where f: "least_free s f" "\<forall>g < 2 ^ 20. taken ?t g \<longleftrightarrow> taken s g \<or> g = f"
    using 2(1,3) by auto
  have "free_frames ?t = free_frames s - {f}"
    using f sz by (auto simp: free_frames_def searched_def)
  moreover have "f \<in> free_frames s" using f(1) by (auto simp: free_frames_def least_free_def)
  moreover have "finite (free_frames s)" by (simp add: free_frames_def)
  ultimately have "card (free_frames s) = Suc (card (free_frames ?t))"
    using card_Suc_Diff1 [of "free_frames s" f] by simp
  then show ?thesis using that [of p b] 2 by blast
qed

lemma init_paging_memory:
  assumes t1: "page_aligned t1" and t2: "page_aligned t2" and d: "page_aligned d"
    and ne: "t1 \<noteq> t2" "t1 \<noteq> d" "t2 \<noteq> d"
  shows "let m1 = memset m t1 0 4096; m2 = memset m1 t2 0 4096;
             m3 = fill_table 1024 t1 0 0 m2; m4 = fill_table 1024 t2 0 0xC0000000 m3;
             m5 = memset m4 d 0 4096;
             m6 = store32 m5 (entry_addr d (PAGE_DIRECTORY_INDEX 0)) ((t1 AND 0xFFFFF000) OR 1 OR 2 OR 4);
             m7 = store32 m6 (entry_addr d (PAGE_DIRECTORY_INDEX 0xC0000000)) ((t2 AND 0xFFFFF000) OR 1 OR 2 OR 4)
         in (\<forall>j < 1024. entry m7 d j = (if j = 0 then t1 OR 7 else if j = 768 then t2 OR 7 else 0) \<and>
              entry m7 t1 j = (j * 4096) OR 7 \<and> entry m7 t2 j = (j * 4096) OR 7)"
proof -
  define m4 where "m4 = fill_table 1024 t2 0 0xC0000000 (fill_table 1024 t1 0 0 (memset (memset m t1 0 4096) t2 0 4096))"
  have i: "PAGE_DIRECTORY_INDEX 0 = 0" "PAGE_DIRECTORY_INDEX 0xC0000000 = 768"
    by (simp_all add: PAGE_DIRECTORY_INDEX_def)
  have v: "(t1 AND 0xFFFFF000) OR 1 OR 2 OR 4 = t1 OR 7" "(t2 AND 0xFFFFF000) OR 1 OR 2 OR 4 = t2 OR 7"
    using t1 t2 by (simp_all add: page_aligned_bits or.assoc)
  have j: "unat j < 1024" if "j < 1024" for j :: u32 using that by (simp add: word_less_nat_alt)
  have f1: "entry (fill_table 1024 t1 0 0 m) q j = (if q = t1 then (j * 4096) OR 7 else entry m q j)"
    if "page_aligned q" "j < 1024" for q j m
    using fill_table_entry [of 0 0 t1 0 1024 q j m] t1 that j by simp
  have f2: "entry (fill_table 1024 t2 0 0xC0000000 m) q j = (if q = t2 then (j * 4096) OR 7 else entry m q j)"
    if "page_aligned q" "j < 1024" for q j m
    using fill_table_entry [of "0xC0000000" 768 t2 0 1024 q j m] t2 that j by simp
  have e4: "entry m4 t1 j = (j * 4096) OR 7" "entry m4 t2 j = (j * 4096) OR 7" if "j < 1024" for j
    using that t1 t2 ne by (simp_all add: m4_def f1 f2)
  show ?thesis
    unfolding Let_def i v m4_def [symmetric]
    using t1 t2 d ne by (auto simp: entry_store entry_memset e4)
qed

lemma init_paging_walk:
  assumes d: "page_aligned d" and t: "page_aligned t1" "page_aligned t2"
    and e: "\<forall>j < 1024. entry m d j = (if j = 0 then t1 OR 7 else if j = 768 then t2 OR 7 else 0) \<and>
              entry m t1 j = (j * 4096) OR 7 \<and> entry m t2 j = (j * 4096) OR 7"
  shows "mmu_walk m d v =
    (if v < 0x400000 then Some v
     else if 0xC0000000 \<le> v \<and> v < 0xC0400000 then Some (v - 0xC0000000) else None)"
proof -
  let ?i = "PAGE_DIRECTORY_INDEX v" and ?j = "PAGE_TABLE_INDEX v"
  have i0: "?i = 0 \<longleftrightarrow> v < 0x400000"
    by (simp add: word_unat_eq_iff unat_index word_less_nat_alt div_eq_0_iff)
  have "unat v div 4194304 = 768 \<longleftrightarrow> 768 \<le> unat v div 4194304 \<and> unat v div 4194304 < 769" by auto
  then have "unat v div 4194304 = 768 \<longleftrightarrow> 0xC0000000 \<le> unat v \<and> unat v < 0xC0400000"
    by (simp add: less_eq_div_iff_mult_less_eq div_less_iff_less_mult)
  then have i1: "?i = 768 \<longleftrightarrow> 0xC0000000 \<le> v \<and> v < 0xC0400000"
    by (simp add: word_unat_eq_iff unat_index word_less_nat_alt word_le_nat_alt)
  have al: "page_aligned (?j * 4096)" using page_aligned_mult [of "unat ?j"] by simp
  note val = entry_value [OF t(1), of 7] entry_value [OF t(2), of 7] entry_value [OF al, of 7]
  have w: "mmu_walk m d v = (if ?i = 0 \<or> ?i = 768 then Some (take_bit 22 v) else None)"
    using e index_less [of v] val by (auto simp: mmu_walk_def Let_def walk_offset)
  have r: "unat (take_bit 22 v) = unat v mod 2 ^ 22" by (simp add: take_bit_eq_mod unat_mod)
  have "take_bit 22 v = v" if "v < 0x400000"
    using that r by (simp add: word_unat_eq_iff word_less_nat_alt)
  moreover have "take_bit 22 v = v - 0xC0000000" if "0xC0000000 \<le> v" "v < 0xC0400000"
  proof -
    have "unat v div 2 ^ 22 = 768" using that i1 unat_index(1) [of v] by simp
    then have "unat v mod 2 ^ 22 = unat v - 0xC0000000" using div_mult_mod_eq [of "unat v" "2 ^ 22"] by simp
    then show ?thesis using r that(1) by (simp add: word_unat_eq_iff unat_sub)
  qed
  ultimately show ?thesis using w i0 i1 by auto
qed

definition allocated :: "u32 \<Rightarrow> 's pmm_scheme \<Rightarrow> 's pmm_scheme \<Rightarrow> bool" where
  "allocated p s s' \<longleftrightarrow>
     (\<exists>b. s' = s\<lparr>bitmap_addr := b, pmm_used_blocks := pmm_used_blocks s + 1\<rparr>) \<and> pmm_inv s' \<and>
     p \<noteq> 0 \<and> p \<notin> held_blocks s \<and> page_aligned p \<and> held_blocks s' = insert p (held_blocks s) \<and>
     card (free_frames s) = Suc (card (free_frames s'))"

lemma alloc_block_allocated:
  fixes s :: "'s pmm_scheme"
  assumes "pmm_inv s" and "0 < card (free_frames s)"
  shows "\<exists>p s'. pmm_alloc_block s = Inr (p, s') \<and> allocated p s s'"
  by (rule alloc_block_free [OF assms]) (auto simp: allocated_def)

lemma allocated_vmm:
  fixes s :: "'s vmm_scheme"
  assumes "allocated p s s'"
  shows "mem s' = mem s" "cr0 s' = cr0 s" "interrupt_handlers s' = interrupt_handlers s"
  using assms by (auto simp: allocated_def)

lemma pmm_cong:
  assumes "pmm_memory_map s' = pmm_memory_map s" "pmm_max_blocks s' = pmm_max_blocks s"
    "pmm_used_blocks s' = pmm_used_blocks s" "bitmap_addr s' = bitmap_addr s"
  shows "pmm_inv s' = pmm_inv s" "held_blocks s' = held_blocks s" "free_frames s' = free_frames s"
  using assms by (simp_all add: pmm_inv_def pmm_counts_def pmm_sized_def held_blocks_def taken_set_def taken_def
      free_frames_def searched_def)

lemma two_tables_ok:
  assumes al: "page_aligned t1" "page_aligned t2" "page_aligned d" "t1 \<noteq> t2" "t1 \<noteq> d" "t2 \<noteq> d"
    and e: "\<forall>j < 1024. entry m d j = (if j = 0 then t1 OR 7 else if j = 768 then t2 OR 7 else 0)"
  shows "tables_ok m d" and "has_table m d i \<Longrightarrow> table_of m d i = t1 \<or> table_of m d i = t2"
proof -
  have v: "(t1 OR 7) AND 0xFFFFF000 = t1" "(t2 OR 7) AND 0xFFFFF000 = t2"
    using entry_value(1) [OF al(1), of 7] entry_value(1) [OF al(2), of 7] by simp_all
  have h: "i = 0 \<or> i = 768" if "has_table m d i" for i
  proof (rule ccontr)
    assume n: "\<not> (i = 0 \<or> i = 768)"
    have "entry m d i = 0" using e has_table_less [OF that] n by simp
    then show False using that by (simp add: has_table_def)
  qed
  have t: "table_of m d 0 = t1" "table_of m d 768 = t2" using e v by (simp_all add: table_of_def)
  show "tables_ok m d" unfolding tables_ok_def using h t al by metis
  show "has_table m d i \<Longrightarrow> table_of m d i = t1 \<or> table_of m d i = t2" using h t by blast
qed

lemma init_paging_ok:
  fixes s :: "'s vmm_scheme"
  assumes inv: "pmm_inv s" and free: "3 \<le> card (free_frames s)"
  shows "\<exists>s'. init_paging handler s = Inr s' \<and> pmm_inv s' \<and> pd_ok (kpage_dir s') s' \<and>
    cr3 s' = kpage_dir s' \<and> cur_dir s' = kpage_dir s' \<and> cr0 s' = cr0 s OR 0x80000000 \<and>
    interrupt_handlers s' = (interrupt_handlers s)(14 := handler) \<and>
    (\<forall>v. mmu_walk (mem s') (kpage_dir s') v =
      (if v < 0x400000 then Some v
       else if 0xC0000000 \<le> v \<and> v < 0xC0400000 then Some (v - 0xC0000000) else None))"
proof -
  from alloc_block_allocated [OF inv] free obtain t1 s1 where
    a1: "pmm_alloc_block s = Inr (t1, s1)" "allocated t1 s s1" by fastforce
  define s2 where "s2 = s1\<lparr>mem := memset (mem s1) t1 0 4096\<rparr>"
  have i2: "pmm_inv s2" "2 \<le> card (free_frames s2)" "held_blocks s2 = insert t1 (held_blocks s)"
    using a1(2) free by (simp_all add: s2_def allocated_def)
  from alloc_block_allocated [OF i2(1)] i2(2) obtain t2 s3 where
    a2: "pmm_alloc_block s2 = Inr (t2, s3)" "allocated t2 s2 s3" by fastforce
  define s6 where "s6 = s3\<lparr>mem := fill_table 1024 t2 0 0xC0000000 (fill_table 1024 t1 0 0 (memset (mem s3) t2 0 4096))\<rparr>"
  have i6: "pmm_inv s6" "0 < card (free_frames s6)" "held_blocks s6 = insert t2 (held_blocks s2)"
    using a2(2) i2(2) by (simp_all add: s6_def allocated_def)
  from alloc_block_allocated [OF i6(1,2)] obtain d s7 where
    a3: "pmm_alloc_block s6 = Inr (d, s7)" "allocated d s6 s7" by blast
  have al: "page_aligned t1" "page_aligned t2" "page_aligned d" "t1 \<noteq> t2" "t1 \<noteq> d" "t2 \<noteq> d" "t1 \<noteq> 0" "t2 \<noteq> 0" "d \<noteq> 0"
    using a1(2) a2(2) a3(2) i2(3) i6(3) by (auto simp: allocated_def)
  define m7 where "m7 = store32 (store32 (memset (mem s7) d 0 4096) (entry_addr d (PAGE_DIRECTORY_INDEX 0))
      ((t1 AND 0xFFFFF000) OR 1 OR 2 OR 4)) (entry_addr d (PAGE_DIRECTORY_INDEX 0xC0000000))
      ((t2 AND 0xFFFFF000) OR 1 OR 2 OR 4)"
  define s' where "s' = s7\<lparr>kpage_dir := d, mem := m7, interrupt_handlers := (interrupt_handlers s7)(14 := handler),
      cur_dir := d, cr3 := d, cr0 := cr0 s7 OR 0x80000000\<rparr>"
  have run: "init_paging handler s = Inr s'"
    using a1(1) a2(1) a3(1) al
    by (simp add: init_paging_def s2_def s6_def m7_def s'_def Let_def register_interrupt_handler_def
        switch_page_directory_def enable_paging_def)
  have mem: "mem s7 = fill_table 1024 t2 0 0xC0000000 (fill_table 1024 t1 0 0 (memset (memset (mem s) t1 0 4096) t2 0 4096))"
    using allocated_vmm [OF a1(2)] allocated_vmm [OF a2(2)] allocated_vmm [OF a3(2)] by (simp add: s6_def s2_def)
  have e: "\<forall>j < 1024. entry m7 d j = (if j = 0 then t1 OR 7 else if j = 768 then t2 OR 7 else 0) \<and>
       entry m7 t1 j = (j * 4096) OR 7 \<and> entry m7 t2 j = (j * 4096) OR 7"
    using init_paging_memory [OF al(1-6), of "mem s"] unfolding m7_def mem Let_def .
  have s': "pmm_inv s'" "held_blocks s' = held_blocks s7" "mem s' = m7"
    using a3(2) pmm_cong [of s' s7] by (simp_all add: s'_def allocated_def)
  have held: "t1 \<in> held_blocks s'" "t2 \<in> held_blocks s'" "d \<in> held_blocks s'"
    using a3(2) i6(3) i2(3) s'(2) by (auto simp: allocated_def)
  note tt = two_tables_ok [OF al(1-6), of m7]
  have "pd_ok d s'"
    using e held s'(3) tt by (intro pd_okI) auto
  then show ?thesis
    using run s' init_paging_walk [OF al(3,1,2) e] allocated_vmm [OF a1(2)] allocated_vmm [OF a2(2)] allocated_vmm [OF a3(2)]
    by (intro exI [of _ s']) (simp add: s'_def s6_def s2_def)
qed

section \<open>Properties\<close>

lemma alloc_loop_no_return:
  fixes s :: "'s vmm_scheme"
  assumes "vmm_alloc_loop dir p va attr 0 n s = Some r"
  shows "\<exists>e. r = Inl e"
proof -
  have "i = 0 \<longrightarrow> (\<exists>e. r = Inl e)" if "vmm_alloc_loop dir p va attr i n s = Some r" for i n r and s :: "'s vmm_scheme"
    by (rule vmm_alloc_loop.raw_induct [where P = "\<lambda>dir p va attr i n s r. i = 0 \<longrightarrow> (\<exists>e. r = Inl e)", OF _ that])
       (auto split: if_splits sum.splits dest: sym)
  then show ?thesis using assms by blast
qed


text \<open>
  C28: With three free frames, \<^verbatim>\<open>init_paging\<close> builds a well-formed directory that maps the first four
  megabytes to themselves, the four megabytes at 0xC0000000 to the same frames, and nothing else,
  makes it the current one, turns paging on and registers the page fault handler.
\<close>

theorem init_paging_maps:
  fixes s :: "'s vmm_scheme"
  assumes "pmm_inv s" and "3 \<le> card (free_frames s)"
  shows "\<exists>s'. init_paging handler s = Inr s' \<and> pmm_inv s' \<and> pd_ok (kpage_dir s') s' \<and>
    cr3 s' = kpage_dir s' \<and> cur_dir s' = kpage_dir s' \<and> cr0 s' = cr0 s OR 0x80000000 \<and>
    interrupt_handlers s' = (interrupt_handlers s)(14 := handler) \<and>
    (\<forall>v. mmu_walk (mem s') (kpage_dir s') v =
      (if v < 0x400000 then Some v
       else if 0xC0000000 \<le> v \<and> v < 0xC0400000 then Some (v - 0xC0000000) else None))"
  by (rule init_paging_ok [OF assms])

text \<open>
  The loop of \<^verbatim>\<open>vmm_alloc_page\<close> increments the bound instead of the counter, so the call never
  returns: for no arguments and no state is there a result.
\<close>

theorem vmm_alloc_page_never_returns:
  fixes s :: "'s vmm_scheme"
  shows "\<exists>e. vmm_alloc_page dir va sz attr s = Inl e"
proof (cases "pmm_alloc_blocks sz s")
  case (Inr q)
  obtain p s1 where q: "q = (p, s1)" by (cases q)
  show ?thesis
  proof (cases "vmm_alloc_loop dir p va (ucast attr) 0 (sz - 1) s1")
    case (Some r)
    then show ?thesis using alloc_loop_no_return [OF Some] Inr q by (auto simp: vmm_alloc_page_def)
  qed (use Inr q in \<open>auto simp: vmm_alloc_page_def\<close>)
qed (auto simp: vmm_alloc_page_def)

lemma frame_offset: "PAGE_FRAME_INDEX v = v AND 0xfff"
proof -
  have "(0xfff00000 :: u32) = push_bit 20 (mask 12)" by (simp add: mask_eq_exp_minus_1 push_bit_eq_mult)
  then have "PAGE_FRAME_INDEX v = drop_bit 20 (push_bit 20 v AND push_bit 20 (mask 12))"
    by (simp only: PAGE_FRAME_INDEX_def)
  also have "\<dots> = v AND mask 12" by (rule bit_word_eqI) (auto simp: bit_simps)
  finally show ?thesis by (simp add: frame_mask(2))
qed

text \<open>
  C29: Where the processor finds a translation, \<^verbatim>\<open>virt2phys\<close> returns the same physical address.
\<close>

theorem virt2phys_translates:
  fixes s :: "'s vmm_scheme"
  assumes "dir \<noteq> 0" and "mmu_walk (mem s) dir v = Some p"
  shows "virt2phys dir v s = p"
proof -
  have ne: "x AND 1 \<noteq> 0 \<Longrightarrow> x \<noteq> 0" for x :: u32 by auto
  show ?thesis
    using assms ne by (auto simp: virt2phys_def mmu_walk_def entry_def Let_def frame_offset split: if_splits)
qed

text \<open>
  The page fault handler prints its report and panics, in every state and for every error
  code.
\<close>

theorem page_fault_handler_panics:
  fixes s :: "'s vmm_scheme"
  shows "page_fault_handler regs s = Inl Panic"
proof -
  have p: "\<exists>t. print_if b msg s = Inr t" if "printf_safe (lit msg) []" for b msg and s :: "'s vmm_scheme"
    using printf_total [OF that, of s] by (simp add: print_if_def)
  have l: "printf_safe (lit ''Page fault! ( '') []" "printf_safe (lit ''present '') []" "printf_safe (lit ''read-only '') []"
    "printf_safe (lit ''user-mode '') []" "printf_safe (lit ''reserved '') []"
    "printf_safe (lit '') at 0x%x'' @ [10]) [cr2 s]"
    by (simp_all add: lit_def of_char_def)
  from printf_total [OF l(1), of s] obtain s1 where 1: "printf (lit ''Page fault! ( '') [] s = Inr s1" by blast
  from p [OF l(2)] obtain s2 where 2: "print_if (\<not> (r_err_code regs AND 0x1 \<noteq> 0)) ''present '' s1 = Inr s2" by blast
  from p [OF l(3)] obtain s3 where 3: "print_if (r_err_code regs AND 0x2 \<noteq> 0) ''read-only '' s2 = Inr s3" by blast
  from p [OF l(4)] obtain s4 where 4: "print_if (r_err_code regs AND 0x4 \<noteq> 0) ''user-mode '' s3 = Inr s4" by blast
  from p [OF l(5)] obtain s5 where 5: "print_if (r_err_code regs AND 0x8 \<noteq> 0) ''reserved '' s4 = Inr s5" by blast
  from printf_total [OF l(6), of s5] obtain s6 where
    "printf (lit '') at 0x%x'' @ [10]) [cr2 s] s5 = Inr s6" by blast
  with 1 2 3 4 5 show ?thesis unfolding page_fault_handler_def Let_def by (simp only: bindE_simps)
qed

definition small_vmm :: vmm where
  "small_vmm = descr.extend small_descr \<lparr>cur_dir = 0, kpage_dir = 0, cr0 = 1, cr2 = 0, cr3 = 0\<rparr>"

lemma small_vmm_fields:
  "pmm_max_blocks small_vmm = 32" "pmm_used_blocks small_vmm = 1" "pmm_memory_map small_vmm"
  "bitmap_addr small_vmm = (\<lambda>i. if i = 0 then 1 else 0)" "mem small_vmm = (\<lambda>_. 0)"
  by (simp_all add: small_vmm_def small_descr_def small_isr_def small_pmm_def empty_console_def
      descr.defs isr.defs pmm.defs console.defs)

lemma small_vmm_pmm:
  "pmm_inv small_vmm" "held_blocks small_vmm = {0}" "free_frames small_vmm = {1..<32}"
proof -
  note c = pmm_cong [of small_vmm small_pmm]
  show "pmm_inv small_vmm" using c small_pmm_inv by (simp add: small_vmm_fields small_pmm_fields)
  show "held_blocks small_vmm = {0}"
    using c by (simp add: small_vmm_fields small_pmm_fields held_blocks_def small_pmm_taken_set)
  have "free_frames small_pmm = {1..<32}"
    by (auto simp: free_frames_def searched_def small_pmm_fields small_pmm_taken Suc_le_eq)
  then show "free_frames small_vmm = {1..<32}" using c by (simp add: small_vmm_fields small_pmm_fields)
qed

lemma small_vmm_pd_ok: "pd_ok 0 small_vmm"
  by (simp add: pd_ok_def small_vmm_pmm has_table_def entry_def small_vmm_fields load32_def)


theorem init_paging_maps_witness:
  "\<exists>s'. init_paging 0xC0102000 small_vmm = Inr s' \<and> mmu_walk (mem s') (kpage_dir s') 0xC0101234 = Some 0x101234"
  using init_paging_maps [OF small_vmm_pmm(1), of "0xC0102000"] by (auto simp: small_vmm_pmm)

definition mapped_mem :: mem where
  "mapped_mem = store32 (store32 (\<lambda>_. 0) 0x1000 0x2007) 0x2000 0xB8007"

theorem virt2phys_translates_witness:
  "virt2phys 0x1000 0x123 (small_vmm\<lparr>mem := mapped_mem\<rparr>) = 0xB8123"
proof -
  have "mmu_walk mapped_mem 0x1000 0x123 = Some 0xB8123"
    by (simp add: mmu_walk_def entry_def entry_addr_def PAGE_DIRECTORY_INDEX_def PAGE_TABLE_INDEX_def
        mapped_mem_def load32_def store32_def)
  then show ?thesis using virt2phys_translates [of "0x1000" "small_vmm\<lparr>mem := mapped_mem\<rparr>" "0x123"] by simp
qed

section \<open>Mapping as an interface\<close>

definition upd_walk :: "u32 \<times> u32 \<Rightarrow> (u32 \<Rightarrow> u32 option) \<Rightarrow> u32 \<Rightarrow> u32 option" where
  "upd_walk = (\<lambda>(p, v) f x. if x AND 0xFFFFF000 = v AND 0xFFFFF000 then Some ((p AND 0xFFFFF000) OR (x AND 0xfff)) else f x)"

fun map_seq :: "(u32 \<Rightarrow> u32 \<Rightarrow> 's \<Rightarrow> 's res) \<Rightarrow> (u32 \<times> u32) list \<Rightarrow> 's \<Rightarrow> 's res" where
  "map_seq f [] s = Inr s"
| "map_seq f ((p, v) # ms) s = bindE (f p v s) (map_seq f ms)"

locale page_mapper =
  fixes map_page :: "u32 \<Rightarrow> u32 \<Rightarrow> 's \<Rightarrow> 's res"
    and walk :: "'s \<Rightarrow> u32 \<Rightarrow> u32 option"
    and inv :: "'s \<Rightarrow> bool"
    and full :: "'s \<Rightarrow> bool"
  assumes map_page: "inv s \<Longrightarrow> \<exists>s'. map_page p v s = Inr s' \<and> inv s' \<and>
      (s' = s \<and> full s \<or> walk s' = upd_walk (p, v) (walk s))"
begin

lemma map_seq_ok:
  "inv s \<Longrightarrow> \<exists>s'. map_seq map_page ms s = Inr s' \<and> inv s' \<and>
     (walk s' = fold upd_walk ms (walk s) \<or> (\<exists>ms1 s1. map_seq map_page ms1 s = Inr s1 \<and> inv s1 \<and> full s1 \<and>
        (\<exists>ms2. ms = ms1 @ ms2)))"
proof (induction ms arbitrary: s)
  case Nil
  then show ?case by simp
next
  case (Cons m ms)
  obtain p v where m: "m = (p, v)" by (cases m)
  from map_page [OF Cons.prems, of p v] obtain s1 where
    s1: "map_page p v s = Inr s1" "inv s1" "s1 = s \<and> full s \<or> walk s1 = upd_walk (p, v) (walk s)" by blast
  from Cons.IH [OF s1(2)] obtain s2 where s2: "map_seq map_page ms s1 = Inr s2" "inv s2"
    "walk s2 = fold upd_walk ms (walk s1) \<or> (\<exists>ms1 t. map_seq map_page ms1 s1 = Inr t \<and> inv t \<and> full t \<and>
        (\<exists>ms2. ms = ms1 @ ms2))" by blast
  have run: "map_seq map_page (m # ms) s = Inr s2" using s1(1) s2(1) m by simp
  have "walk s2 = fold upd_walk (m # ms) (walk s) \<or> (\<exists>ms1 t. map_seq map_page ms1 s = Inr t \<and> inv t \<and> full t \<and>
        (\<exists>ms2. m # ms = ms1 @ ms2))"
  proof (cases "full s")
    case True
    then have "map_seq map_page [] s = Inr s \<and> inv s \<and> full s" using Cons.prems by simp
    then show ?thesis by blast
  next
    case False
    then have w: "walk s1 = upd_walk (p, v) (walk s)" using s1(3) by blast
    from s2(3) show ?thesis
    proof (elim disjE exE conjE)
      fix ms1 t ms2 assume "map_seq map_page ms1 s1 = Inr t" "inv t" "full t" "ms = ms1 @ ms2"
      then have "map_seq map_page (m # ms1) s = Inr t \<and> inv t \<and> full t \<and> m # ms = (m # ms1) @ ms2"
        using s1(1) m by simp
      then show ?thesis by blast
    qed (simp add: w m)
  qed
  then show ?case using run s2(2) by blast
qed

end

definition map_present :: "u32 \<Rightarrow> u32 \<Rightarrow> u32 \<Rightarrow> u32 \<Rightarrow> 's vmm_scheme \<Rightarrow> 's vmm_scheme res" where
  "map_present dir attr phys virt s = vmm_map_page dir phys virt (PTE_PRESENT OR (attr AND 0xfff)) s"

interpretation pages: page_mapper "map_present dir attr" "\<lambda>s. mmu_walk (mem s) dir"
    "\<lambda>s. pmm_inv s \<and> pd_ok dir s" "\<lambda>s. \<forall>f < searched s. taken s f" for dir attr
proof
  fix s :: "'a vmm_scheme" and p v
  assume s: "pmm_inv s \<and> pd_ok dir s"
  have a: "unat (x AND 0xfff) < 4096" for x :: u32
  proof -
    have "x AND 0xfff = take_bit 12 x" unfolding frame_mask by (simp add: take_bit_eq_mask)
    then show ?thesis using take_bit_nat_less_exp [of 12 "unat x"] by (simp add: unsigned_take_bit_eq)
  qed
  have e: "1 OR (attr AND 0xfff) = (1 OR attr) AND (0xfff :: u32)" by (simp add: bit.conj_disj_distrib2)
  have "(1 OR (attr AND 0xfff)) AND 1 = (1 :: u32)" "1 OR (attr AND 0xfff) < (0x1000 :: u32)"
    using a [of "1 OR attr"] unfolding e by (simp_all add: word_less_nat_alt and.assoc)
  from map_page_ok [OF _ _ this, of s dir p v] s
  show "\<exists>s'. map_present dir attr p v s = Inr s' \<and> (pmm_inv s' \<and> pd_ok dir s') \<and>
      (s' = s \<and> (\<forall>f < searched s. taken s f) \<or> mmu_walk (mem s') dir = upd_walk (p, v) (mmu_walk (mem s) dir))"
    by (auto simp: map_present_def upd_walk_def fun_eq_iff)
qed

text \<open>
  C7: A sequence of mappings implements the corresponding updates of the translation function one
  after the other, the later mapping of a page replacing the earlier, unless the physical memory
  runs out on the way.
\<close>

theorem vmm_map_seq_refines:
  fixes s :: "'s vmm_scheme"
  assumes "pmm_inv s" and "pd_ok dir s"
  shows "\<exists>s'. map_seq (map_present dir attr) ms s = Inr s' \<and> pmm_inv s' \<and> pd_ok dir s' \<and>
     (mmu_walk (mem s') dir = fold upd_walk ms (mmu_walk (mem s) dir) \<or>
      (\<exists>ms1 ms2 s1. ms = ms1 @ ms2 \<and> map_seq (map_present dir attr) ms1 s = Inr s1 \<and> (\<forall>f < searched s1. taken s1 f)))"
  using pages.map_seq_ok [of s dir attr ms] assms by blast

theorem vmm_map_seq_refines_witness:
  "\<exists>s'. map_seq (map_present 0 6) [(0xB8000, 0xB0000000), (0xB9000, 0xB0001000)] small_vmm = Inr s' \<and> pmm_inv s' \<and> pd_ok 0 s'"
  using vmm_map_seq_refines [OF small_vmm_pmm(1) small_vmm_pd_ok] by blast

end
