(* ===== verification/Malloc.thy ===== *)
theory Malloc
  imports Vmm
begin

text \<open>
  The kernel heap, \<^verbatim>\<open>src/src/kernel/mm/malloc.c\<close>. A block is a header of eight bytes (the status
  byte, three bytes of padding, the size), the payload and four more bytes; blocks follow one
  another from \<^verbatim>\<open>heap_begin\<close> to \<^verbatim>\<open>last_alloc\<close>. The heap lives in the machine's memory, byte by
  byte, so a write through a stale pointer or a screen that overlaps the heap would be seen.

  \<open>blocks_at\<close> reads that memory as a list of blocks, and the operations are shown to
  implement first fit on the list.
\<close>

section \<open>State and operations\<close>

record heap = vmm +
  last_alloc :: u32
  heap_end :: u32
  heap_begin :: u32
  pheap_begin :: u32
  pheap_end :: u32
  pheap_desc :: u32
  memory_used :: u32

abbreviation (input) MAX_PAGE_ALIGNED_ALLOCS :: u32 where "MAX_PAGE_ALIGNED_ALLOCS \<equiv> 32"
abbreviation (input) sizeof_alloc_t :: u32 where "sizeof_alloc_t \<equiv> 8"

definition alloc_status :: "mem \<Rightarrow> u32 \<Rightarrow> u8" where
  "alloc_status m a = m a"

definition alloc_size :: "mem \<Rightarrow> u32 \<Rightarrow> u32" where
  "alloc_size m a = load32 m (a + 4)"

text \<open>
  The search loop of \<^verbatim>\<open>malloc\<close>: \<open>Some (Some p)\<close> is the header of a free block that is large
  enough, \<open>Some None\<close> is the jump to \<^verbatim>\<open>nalloc\<close> or the end of the loop.
\<close>

partial_function (option) malloc_scan :: "mem \<Rightarrow> u32 \<Rightarrow> u32 \<Rightarrow> u32 \<Rightarrow> u32 option option" where
  "malloc_scan m la sz p =
     (if p < la
      then (if alloc_size m p = 0 then Some None
            else if alloc_status m p \<noteq> 0 then malloc_scan m la sz (p + alloc_size m p + sizeof_alloc_t + 4)
            else if sz \<le> alloc_size m p then Some (Some p)
            else malloc_scan m la sz (p + alloc_size m p + sizeof_alloc_t + 4))
      else Some None)"

definition malloc_reuse :: "u32 \<Rightarrow> u32 \<Rightarrow> 's heap_scheme \<Rightarrow> (u32 \<times> 's heap_scheme) res" where
  "malloc_reuse sz p s =
     (let s1 = s\<lparr>mem := (mem s)(p := 1)\<rparr>
      in bindE (printf (lit ''RE:Allocated %d bytes from 0x%x to 0x%x'' @ [10])
                  [sz, p + sizeof_alloc_t, p + sizeof_alloc_t + sz] s1) (\<lambda>s2.
         Inr (p + sizeof_alloc_t,
              s2\<lparr>mem := memset (mem s2) (p + sizeof_alloc_t) 0 sz,
                 memory_used := memory_used s2 + (sz + sizeof_alloc_t)\<rparr>)))"

definition malloc_new :: "u32 \<Rightarrow> 's heap_scheme \<Rightarrow> (u32 \<times> 's heap_scheme) res" where
  "malloc_new sz s =
     (if heap_end s \<le> last_alloc s + sz + sizeof_alloc_t then Inl Panic
      else let a = last_alloc s;
               m1 = store32 ((mem s)(a := 1)) (a + 4) sz
           in Inr (a + sizeof_alloc_t,
                s\<lparr>last_alloc := last_alloc s + sz + sizeof_alloc_t + 4,
                  memory_used := memory_used s + (sz + 4 + sizeof_alloc_t),
                  mem := memset m1 (a + sizeof_alloc_t) 0 sz\<rparr>))"

definition malloc :: "u32 \<Rightarrow> 's heap_scheme \<Rightarrow> (u32 \<times> 's heap_scheme) res" where
  "malloc sz s =
     (if sz = 0 then Inr (0, s)
      else bindE (returns (malloc_scan (mem s) (last_alloc s) sz (heap_begin s))) (\<lambda>r.
        case r of Some p \<Rightarrow> malloc_reuse sz p s | None \<Rightarrow> malloc_new sz s))"

definition free :: "u32 \<Rightarrow> 's heap_scheme \<Rightarrow> 's heap_scheme res" where
  "free p s =
     (let a = p - sizeof_alloc_t;
          s1 = s\<lparr>memory_used := memory_used s - (alloc_size (mem s) a + sizeof_alloc_t), mem := (mem s)(a := 0)\<rparr>
      in printf (lit ''Free memeory: %x, size: %d'' @ [10]) [p, alloc_size (mem s1) a + sizeof_alloc_t] s1)"

definition init_mm :: "u32 \<Rightarrow> u32 \<Rightarrow> 's heap_scheme \<Rightarrow> 's heap_scheme res" where
  "init_mm start end s =
     (let s1 = s\<lparr>last_alloc := start, heap_begin := start, pheap_end := end\<rparr>;
          s2 = s1\<lparr>pheap_begin := pheap_end s1 - MAX_PAGE_ALIGNED_ALLOCS * 4096\<rparr>;
          s3 = s2\<lparr>heap_end := pheap_begin s2\<rparr>;
          s4 = s3\<lparr>mem := memset (mem s3) (heap_begin s3) 0 (heap_end s3 - heap_begin s3)\<rparr>
      in bindE (malloc MAX_PAGE_ALIGNED_ALLOCS s4) (\<lambda>(p, s5). Inr (s5\<lparr>pheap_desc := p\<rparr>)))"

definition mm_print_info :: "'s heap_scheme \<Rightarrow> 's heap_scheme res" where
  "mm_print_info s =
     bindE (printf (lit ''Memory used: %d bytes'' @ [10]) [memory_used s] s) (\<lambda>s1.
     bindE (printf (lit ''Memory free: %d bytes'' @ [10]) [heap_end s1 - heap_begin s1 - memory_used s1] s1) (\<lambda>s2.
     bindE (printf (lit ''Heap size: %d bytes'' @ [10]) [heap_end s2 - heap_begin s2] s2) (\<lambda>s3.
     bindE (printf (lit ''Heap start: 0x%x'' @ [10]) [heap_begin s3] s3) (\<lambda>s4.
     bindE (printf (lit ''Heap end: 0x%x'' @ [10]) [heap_end s4] s4) (\<lambda>s5.
     printf (lit ''PHeap start: 0x%x'' @ [10] @ lit ''PHeap end: 0x%x'' @ [10]) [pheap_begin s5, pheap_end s5] s5)))))"

definition kcalloc :: "u32 \<Rightarrow> u32 \<Rightarrow> 's heap_scheme \<Rightarrow> (u32 \<times> 's heap_scheme) res" where
  "kcalloc num sz s =
     bindE (malloc (num * sz) s) (\<lambda>(ptr, s1). Inr (ptr, s1\<lparr>mem := memset (mem s1) ptr 0 (num * sz)\<rparr>))"

definition kfree :: "u32 \<Rightarrow> 's heap_scheme \<Rightarrow> 's heap_scheme res" where
  "kfree ptr s = free ptr s"

section \<open>The heap as a list of blocks\<close>

text \<open>A block is its payload size and whether it is in use.\<close>

type_synonym block = "nat \<times> bool"

fun blen :: "block list \<Rightarrow> nat" where
  "blen [] = 0"
| "blen (b # bs) = fst b + 12 + blen bs"

fun blocks_at :: "mem \<Rightarrow> nat \<Rightarrow> block list \<Rightarrow> bool" where
  "blocks_at m a [] = True"
| "blocks_at m a (b # bs) =
     (0 < fst b \<and> unat (alloc_size m (of_nat a)) = fst b \<and> (alloc_status m (of_nat a) \<noteq> 0) = snd b \<and>
      blocks_at m (a + fst b + 12) bs)"

definition block_addr :: "nat \<Rightarrow> block list \<Rightarrow> nat \<Rightarrow> nat" where
  "block_addr a bs i = a + blen (take i bs)"

fun first_fit :: "nat \<Rightarrow> block list \<Rightarrow> nat option" where
  "first_fit n [] = None"
| "first_fit n (b # bs) = (if \<not> snd b \<and> n \<le> fst b then Some 0 else map_option Suc (first_fit n bs))"

fun headers :: "nat \<Rightarrow> block list \<Rightarrow> nat set" where
  "headers a [] = {}"
| "headers a (b # bs) = {a..<a + 8} \<union> headers (a + fst b + 12) bs"

lemma block_addr_simps [simp]:
  "block_addr a bs 0 = a"
  "block_addr a (b # bs) (Suc i) = block_addr (a + fst b + 12) bs i"
  by (simp_all add: block_addr_def)

lemma blen_append [simp]: "blen (xs @ ys) = blen xs + blen ys"
  by (induction xs) auto

lemma blen_update [simp]: "i < length bs \<Longrightarrow> blen (bs[i := (fst (bs ! i), u)]) = blen bs"
  by (induction bs arbitrary: i) (auto split: nat.splits)

lemma block_addr_le: "i < length bs \<Longrightarrow> block_addr a bs i + fst (bs ! i) + 12 \<le> a + blen bs"
proof (induction bs arbitrary: a i)
  case (Cons b bs)
  show ?case
  proof (cases i)
    case (Suc k)
    then show ?thesis using Cons.IH [of k "a + fst b + 12"] Cons.prems by (simp add: add.assoc)
  qed simp
qed simp

lemma block_addr_ge: "a \<le> block_addr a bs i"
  by (simp add: block_addr_def)

lemma headers_range: "x \<in> headers a bs \<Longrightarrow> a \<le> x \<and> x < a + blen bs"
proof (induction bs arbitrary: a)
  case (Cons b bs)
  then show ?case by (fastforce simp: add.assoc)
qed simp

lemma first_fit_Some:
  "first_fit n bs = Some i \<Longrightarrow> i < length bs \<and> \<not> snd (bs ! i) \<and> n \<le> fst (bs ! i)"
proof (induction bs arbitrary: i)
  case (Cons b bs)
  then show ?case by (cases i) (auto split: if_splits)
qed simp

lemma unat_add_small: "unat (of_nat a + of_nat b :: u32) = a + b" if "a + b < 2 ^ 32"
  using that unat_of_nat_u32 [of "a + b"] by simp

lemma malloc_scan_ok:
  assumes "blocks_at m a bs" and "unat la = a + blen bs" 
  shows "malloc_scan m la sz (of_nat a) = Some (map_option (\<lambda>i. of_nat (block_addr a bs i)) (first_fit (unat sz) bs))"
  using assms
proof (induction bs arbitrary: a)
  case Nil
  then have "\<not> of_nat a < la" using unat_u32_le [of la] by (simp add: word_less_nat_alt unat_of_nat_u32)
  then show ?case by (simp add: malloc_scan.simps)
next
  case (Cons b bs)
  let ?p = "of_nat a :: u32"
  have bound: "a + fst b + 12 + blen bs < 2 ^ 32" using Cons.prems(2) unat_u32_le [of la] by simp
  then have lt: "?p < la" using Cons.prems by (simp add: word_less_nat_alt unat_of_nat_u32)
  have sz: "alloc_size m ?p = of_nat (fst b)" using Cons.prems(1) by (metis blocks_at.simps(2) of_nat_unat ucast_id)
  have ne: "alloc_size m ?p \<noteq> 0" using Cons.prems(1) by auto
  have nxt: "?p + alloc_size m ?p + 8 + 4 = of_nat (a + fst b + 12)" by (simp add: sz)
  have IH: "malloc_scan m la sz (of_nat (a + fst b + 12)) =
     Some (map_option (\<lambda>i. of_nat (block_addr (a + fst b + 12) bs i)) (first_fit (unat sz) bs))"
    using Cons.prems by (intro Cons.IH) (simp_all add: add.assoc)
  have le: "sz \<le> alloc_size m ?p \<longleftrightarrow> unat sz \<le> fst b" using Cons.prems(1) by (simp add: word_le_nat_alt)
  show ?case
    using lt ne le IH Cons.prems(1) unfolding nxt [symmetric]
    by (subst malloc_scan.simps) (simp add: option.map_comp comp_def)
qed

section \<open>Frames\<close>

lemma header_bytes:
  assumes "\<And>x. x \<in> {a..<a + 8} \<Longrightarrow> m' (of_nat x :: u32) = m (of_nat x)"
  shows "alloc_status m' (of_nat a) = alloc_status m (of_nat a)" "alloc_size m' (of_nat a) = alloc_size m (of_nat a)"
proof -
  have "m' (of_nat (a + k)) = m (of_nat (a + k))" if "k < 8" for k using assms [of "a + k"] that by simp
  from this [of 0] this [of 4] this [of 5] this [of 6] this [of 7]
  show "alloc_status m' (of_nat a) = alloc_status m (of_nat a)" "alloc_size m' (of_nat a) = alloc_size m (of_nat a)"
    by (simp_all add: alloc_status_def alloc_size_def load32_def add.assoc)
qed

lemma blocks_at_cong:
  "(\<And>x. x \<in> headers a bs \<Longrightarrow> m' (of_nat x) = m (of_nat x)) \<Longrightarrow> blocks_at m' a bs = blocks_at m a bs"
proof (induction bs arbitrary: a)
  case (Cons b bs)
  have "alloc_status m' (of_nat a) = alloc_status m (of_nat a)" "alloc_size m' (of_nat a) = alloc_size m (of_nat a)"
    by (rule header_bytes; use Cons.prems in simp)+
  then show ?case using Cons by simp
qed simp

lemma of_nat_u32_eq: "x < 2 ^ 32 \<Longrightarrow> y < 2 ^ 32 \<Longrightarrow> (of_nat x :: u32) = of_nat y \<longleftrightarrow> x = y"
  using unat_of_nat_u32 [of x] unat_of_nat_u32 [of y] by (auto simp: word_unat_eq_iff)

lemma blocks_at_status:
  assumes "blocks_at m a bs" and "i < length bs" and "a + blen bs < 2 ^ 32"
  shows "blocks_at (m(of_nat (block_addr a bs i) := v)) a (bs[i := (fst (bs ! i), v \<noteq> 0)])"
  using assms
proof (induction bs arbitrary: a i)
  case (Cons b bs)
  show ?case
  proof (cases i)
    case 0
    have sz: "alloc_size (m(of_nat a := v)) (of_nat a) = alloc_size m (of_nat a)"
      by (simp add: alloc_size_def load32_def add.assoc)
    have "blocks_at (m(of_nat a := v)) (a + fst b + 12) bs = blocks_at m (a + fst b + 12) bs"
    proof (rule blocks_at_cong)
      fix x assume "x \<in> headers (a + fst b + 12) bs"
      then have "a < x" "x < 2 ^ 32" using headers_range [of x "a + fst b + 12" bs] Cons.prems(3) by auto
      then show "(m(of_nat a := v)) (of_nat x) = m (of_nat x)" using of_nat_u32_eq [of x a] by simp
    qed
    moreover have "alloc_status (m(of_nat a := v)) (of_nat a) = v" by (simp add: alloc_status_def)
    ultimately show ?thesis using 0 Cons.prems(1) sz by (simp del: fun_upd_apply)
  next
    case (Suc k)
    let ?x = "block_addr (a + fst b + 12) bs k"
    have k: "k < length bs" using Suc Cons.prems(2) by simp
    have x: "a + 12 < ?x" "?x < 2 ^ 32"
      using block_addr_ge [of "a + fst b + 12" bs k] block_addr_le [OF k, of "a + fst b + 12"] Cons.prems by auto
    have "alloc_status (m(of_nat ?x := v)) (of_nat a) = alloc_status m (of_nat a)"
         "alloc_size (m(of_nat ?x := v)) (of_nat a) = alloc_size m (of_nat a)"
      by (rule header_bytes; use x of_nat_u32_eq [of _ ?x] in auto)+
    moreover have "blocks_at (m(of_nat ?x := v)) (a + fst b + 12) (bs[k := (fst (bs ! k), v \<noteq> 0)])"
      using Cons.prems k by (intro Cons.IH) (simp_all add: add.assoc)
    ultimately show ?thesis using Suc Cons.prems(1) by (simp del: fun_upd_apply)
  qed
qed simp

lemma payload_not_header:
  assumes "i < length bs" and "block_addr a bs i + 8 \<le> x" and "x < block_addr a bs i + 12 + fst (bs ! i)"
  shows "x \<notin> headers a bs"
  using assms
proof (induction bs arbitrary: a i)
  case (Cons b bs)
  show ?case
  proof (cases i)
    case 0
    then show ?thesis using Cons.prems headers_range [of x "a + fst b + 12" bs] by auto
  next
    case (Suc k)
    then show ?thesis
      using Cons.IH [of k "a + fst b + 12"] Cons.prems block_addr_ge [of "a + fst b + 12" bs k] by auto
  qed
qed simp

section \<open>Invariant\<close>

text \<open>
  \<open>heap_ok s bs\<close>: the blocks \<open>bs\<close> lie one after the other from \<^verbatim>\<open>heap_begin\<close> to \<^verbatim>\<open>last_alloc\<close>, the
  heap is bounded away from the end of the address space, and the screen is elsewhere.
\<close>

definition heap_ok :: "'s heap_scheme \<Rightarrow> block list \<Rightarrow> bool" where
  "heap_ok s bs \<longleftrightarrow>
     blocks_at (mem s) (unat (heap_begin s)) bs \<and>
     unat (heap_begin s) + blen bs = unat (last_alloc s) \<and>
     unat (last_alloc s) \<le> unat (heap_end s) + 3 \<and> unat (heap_end s) + 16 \<le> 2 ^ 32 \<and>
     (\<forall>a. unat (heap_begin s) \<le> unat a \<and> unat a < unat (heap_end s) + 16 \<longrightarrow> \<not> in_window (framebuffer_addr s) a)"

definition calm :: "'s console_scheme \<Rightarrow> bool" where
  "calm s \<longleftrightarrow> unat (fb_pos_y s) \<le> 400"

lemma heap_bytes_nat:
  assumes "heap_ok s bs" and "x \<in> headers (unat (heap_begin s)) bs"
  shows "x < 2 ^ 32" and "\<not> in_window (framebuffer_addr s) (of_nat x)"
proof -
  have x: "unat (heap_begin s) \<le> x" "x < unat (heap_begin s) + blen bs" using headers_range [OF assms(2)] by auto
  then show "x < 2 ^ 32" using assms(1) by (simp add: heap_ok_def)
  then have "unat (of_nat x :: u32) = x" by (rule unat_of_nat_u32)
  then show "\<not> in_window (framebuffer_addr s) (of_nat x)" using x assms(1) by (simp add: heap_ok_def)
qed

lemma printf_heap:
  fixes s :: "'s heap_scheme"
  assumes "printf_safe fmt args" and "calm s"
  shows "\<exists>s'. printf fmt args s = Inr s' \<and>
    (\<exists>m l x y. s' = s\<lparr>mem := m, iolog := l, fb_pos_x := x, fb_pos_y := y\<rparr>) \<and>
    (\<forall>a. \<not> in_window (framebuffer_addr s) a \<longrightarrow> mem s' a = mem s a)"
  using printf_ok [OF assms(1), of s] assms(2) by (fastforce simp: calm_def con_frame_def)

lemma heap_ok_frame:
  assumes "heap_ok s bs" and "\<And>a. \<not> in_window (framebuffer_addr s) a \<Longrightarrow> mem s' a = mem s a"
    and "heap_begin s' = heap_begin s" "last_alloc s' = last_alloc s" "heap_end s' = heap_end s"
      "framebuffer_addr s' = framebuffer_addr s"
  shows "heap_ok s' bs"
proof -
  have "blocks_at (mem s') (unat (heap_begin s)) bs = blocks_at (mem s) (unat (heap_begin s)) bs"
    using assms(2) heap_bytes_nat [OF assms(1)] by (intro blocks_at_cong) blast
  then show ?thesis using assms by (simp add: heap_ok_def)
qed

lemma heap_ok_payload:
  assumes "heap_ok s bs" and "i < length bs" and "n \<le> fst (bs ! i)"
  shows "heap_ok (s\<lparr>mem := memset (mem s) (of_nat (block_addr (unat (heap_begin s)) bs i) + 8) 0 (of_nat n)\<rparr>) bs"
proof -
  let ?a = "unat (heap_begin s)" and ?b = "block_addr (unat (heap_begin s)) bs i"
  have le: "?b + fst (bs ! i) + 12 \<le> ?a + blen bs" by (rule block_addr_le [OF assms(2)])
  then have b: "?b + fst (bs ! i) + 12 < 2 ^ 32" using assms(1) by (simp add: heap_ok_def)
  have "blocks_at (memset (mem s) (of_nat ?b + 8) 0 (of_nat n)) ?a bs = blocks_at (mem s) ?a bs"
  proof (rule blocks_at_cong)
    fix x assume x: "x \<in> headers ?a bs"
    have x32: "x < 2 ^ 32" using heap_bytes_nat(1) [OF assms(1) x] .
    have "\<not> (of_nat x - (of_nat ?b + 8) < (of_nat n :: u32))"
    proof
      assume "of_nat x - (of_nat ?b + 8) < (of_nat n :: u32)"
      then have lt: "unat (of_nat x - (of_nat ?b + 8) :: u32) < n"
        using b assms(3) by (simp add: word_less_nat_alt unat_of_nat_u32)
      have u: "unat (of_nat ?b + 8 :: u32) = ?b + 8" "unat (of_nat x :: u32) = x"
        using b x32 unat_of_nat_u32 [of "?b + 8"] unat_of_nat_u32 [of x] by simp_all
      have "?b + 8 \<le> x \<and> x < ?b + 12 + fst (bs ! i)"
        using lt u b x32 assms(3) by (auto simp: unat_sub_if_size word_size split: if_splits)
      then show False using payload_not_header [OF assms(2), of ?a x] x by simp
    qed
    then show "memset (mem s) (of_nat ?b + 8) 0 (of_nat n) (of_nat x) = mem s (of_nat x)"
      by (simp add: memset_apply)
  qed
  then show ?thesis using assms(1) by (simp add: heap_ok_def)
qed

definition zeroed :: "u32 \<Rightarrow> u32 \<Rightarrow> 's machine_scheme \<Rightarrow> bool" where
  "zeroed p n s \<longleftrightarrow> (\<forall>a. a - p < n \<longrightarrow> mem s a = 0)"

definition only_changed :: "u32 \<Rightarrow> u32 \<Rightarrow> 's console_scheme \<Rightarrow> 's console_scheme \<Rightarrow> bool" where
  "only_changed p n s s' \<longleftrightarrow>
     (\<forall>a. \<not> in_window (framebuffer_addr s) a \<and> \<not> a - p < n \<longrightarrow> mem s' a = mem s a)"

definition heap_vars_same :: "'s heap_scheme \<Rightarrow> 's heap_scheme \<Rightarrow> bool" where
  "heap_vars_same s s' \<longleftrightarrow> heap_begin s' = heap_begin s \<and> heap_end s' = heap_end s \<and>
     framebuffer_addr s' = framebuffer_addr s"

lemma unat_block_addr:
  assumes "heap_ok s bs" and "i < length bs"
  shows "unat (of_nat (block_addr (unat (heap_begin s)) bs i) :: u32) = block_addr (unat (heap_begin s)) bs i"
    and "block_addr (unat (heap_begin s)) bs i + fst (bs ! i) + 12 \<le> unat (last_alloc s)"
proof -
  show le: "block_addr (unat (heap_begin s)) bs i + fst (bs ! i) + 12 \<le> unat (last_alloc s)"
    using block_addr_le [OF assms(2), of "unat (heap_begin s)"] assms(1) by (simp add: heap_ok_def)
  then show "unat (of_nat (block_addr (unat (heap_begin s)) bs i) :: u32) = block_addr (unat (heap_begin s)) bs i"
    using unat_u32_le [of "last_alloc s"] by (intro unat_of_nat_u32) simp
qed

lemma heap_ok_status:
  assumes "heap_ok s bs" and "i < length bs"
  shows "heap_ok (s\<lparr>mem := (mem s)(of_nat (block_addr (unat (heap_begin s)) bs i) := v)\<rparr>) (bs[i := (fst (bs ! i), v \<noteq> 0)])"
  using assms blocks_at_status [of "mem s" "unat (heap_begin s)" bs i v] unat_u32_le [of "last_alloc s"]
  by (simp add: heap_ok_def)

lemma sub_outside:
  fixes a p n :: u32
  assumes "unat n + 8 < 2 ^ 32" and "\<not> a - p < n + 8"
  shows "\<not> a - (p + 8) < n" and "a \<noteq> p"
proof -
  have n: "unat (n + 8) = unat n + 8" using assms(1) by (simp add: unat_word_ariths)
  then have "unat n + 8 \<le> unat (a - p)" using assms(2) by (simp add: word_less_nat_alt)
  moreover from this have "unat (a - (p + 8)) = unat (a - p) - 8" using unat_diff_add(1) [of 8 a p] by simp
  ultimately show "\<not> a - (p + 8) < n" "a \<noteq> p" by (auto simp: word_less_nat_alt)
qed

lemma payload_clear:
  assumes "heap_ok s bs" and "unat (heap_begin s) \<le> unat p" and "unat p + unat n \<le> unat (heap_end s) + 16" and "a - p < n"
  shows "\<not> in_window (framebuffer_addr s) a"
proof -
  have b: "unat (heap_end s) + 16 \<le> 2 ^ 32" using assms(1) by (simp add: heap_ok_def)
  have "unat a = unat (p + (a - p))" by simp
  also have "\<dots> = unat p + unat (a - p)"
    using assms(3,4) b by (simp only: unat_word_ariths) (simp add: word_less_nat_alt)
  finally have "unat (heap_begin s) \<le> unat a" "unat a < unat (heap_end s) + 16"
    using assms(2-4) by (auto simp: word_less_nat_alt)
  then show ?thesis using assms(1) unfolding heap_ok_def by blast
qed

lemma malloc_reuse_ok:
  fixes s :: "'s heap_scheme"
  assumes ok: "heap_ok s bs" and calm: "calm s" and i: "i < length bs" and n: "unat sz \<le> fst (bs ! i)"
  defines "p \<equiv> of_nat (block_addr (unat (heap_begin s)) bs i) :: u32"
  shows "\<exists>s'. malloc_reuse sz p s = Inr (p + 8, s') \<and> heap_ok s' (bs[i := (fst (bs ! i), True)]) \<and>
     zeroed (p + 8) sz s' \<and> only_changed p (sz + 8) s s' \<and> heap_vars_same s s' \<and> last_alloc s' = last_alloc s \<and>
     memory_used s' = memory_used s + (sz + 8)"
proof -
  let ?a = "unat (heap_begin s)" and ?bs = "bs[i := (fst (bs ! i), True)]"
  let ?s1 = "s\<lparr>mem := (mem s)(p := 1)\<rparr>"
  note u = unat_block_addr [OF ok i]
  have ok1: "heap_ok ?s1 ?bs" using heap_ok_status [OF ok i, of 1] by (simp add: p_def)
  have "printf_safe (lit ''RE:Allocated %d bytes from 0x%x to 0x%x'' @ [10]) [sz, p + 8, p + 8 + sz]"
    by (simp add: lit_def of_char_def)
  moreover have "calm ?s1" using calm by (simp add: calm_def)
  ultimately obtain s2 where s2: "printf (lit ''RE:Allocated %d bytes from 0x%x to 0x%x'' @ [10]) [sz, p + 8, p + 8 + sz] ?s1 = Inr s2"
      "\<exists>m l x y. s2 = ?s1\<lparr>mem := m, iolog := l, fb_pos_x := x, fb_pos_y := y\<rparr>"
      "\<forall>a. \<not> in_window (framebuffer_addr ?s1) a \<longrightarrow> mem s2 a = mem ?s1 a"
    using printf_heap by blast
  then have ok2: "heap_ok s2 ?bs" by (intro heap_ok_frame [OF ok1]) auto
  have hb: "heap_begin s2 = heap_begin s" "heap_end s2 = heap_end s" "framebuffer_addr s2 = framebuffer_addr s"
    "last_alloc s2 = last_alloc s" "memory_used s2 = memory_used s" using s2(2) by auto
  let ?s3 = "s2\<lparr>mem := memset (mem s2) (p + 8) 0 sz, memory_used := memory_used s2 + (sz + 8)\<rparr>"
  have "block_addr ?a ?bs i = block_addr ?a bs i" by (simp add: block_addr_def)
  then have "heap_ok (s2\<lparr>mem := memset (mem s2) (p + 8) 0 sz\<rparr>) ?bs"
    using heap_ok_payload [OF ok2, of i "unat sz"] i n hb by (simp add: p_def)
  then have ok3: "heap_ok ?s3 ?bs" by (simp add: heap_ok_def)
  have "only_changed p (sz + 8) s ?s3"
  proof -
    have "unat sz + 8 < 2 ^ 32" using n u(2) unat_u32_le [of "last_alloc s"] by simp
    then show ?thesis
      using sub_outside [of sz _ p] s2(3) by (auto simp: only_changed_def memset_apply)
  qed
  moreover have "zeroed (p + 8) sz ?s3" by (simp add: zeroed_def memset_apply)
  moreover have "malloc_reuse sz p s = Inr (p + 8, ?s3)" using s2(1) by (simp add: malloc_reuse_def Let_def)
  ultimately show ?thesis using ok3 hb by (auto simp: heap_vars_same_def)
qed

lemma blocks_at_append:
  "blocks_at m a (xs @ ys) \<longleftrightarrow> blocks_at m a xs \<and> blocks_at m (a + blen xs) ys"
  by (induction xs arbitrary: a) (auto simp: add.assoc)

lemma malloc_new_ok:
  fixes s :: "'s heap_scheme"
  assumes ok: "heap_ok s bs" and sz: "sz \<noteq> 0"
    and room: "unat (last_alloc s) + unat sz + 8 < unat (heap_end s)"
  shows "\<exists>s'. malloc_new sz s = Inr (last_alloc s + 8, s') \<and> heap_ok s' (bs @ [(unat sz, True)]) \<and>
     zeroed (last_alloc s + 8) sz s' \<and> only_changed (last_alloc s) (sz + 8) s s' \<and> heap_vars_same s s' \<and>
     last_alloc s' = last_alloc s + sz + 12 \<and> memory_used s' = memory_used s + (sz + 12)"
proof -
  let ?p = "last_alloc s" and ?a = "unat (heap_begin s)"
  let ?m1 = "store32 ((mem s)(?p := 1)) (?p + 4) sz"
  let ?m2 = "memset ?m1 (?p + 8) 0 sz"
  let ?s' = "s\<lparr>last_alloc := ?p + sz + 12, memory_used := memory_used s + (sz + 12), mem := ?m2\<rparr>"
  have b: "unat (heap_end s) + 16 \<le> 2 ^ 32" and e: "?a + blen bs = unat ?p" using ok by (simp_all add: heap_ok_def)
  have small: "unat sz + 8 < 2 ^ 32" using room b by simp
  have add: "unat (?p + sz + 8) = unat ?p + unat sz + 8" "unat (?p + sz + 12) = unat ?p + unat sz + 12"
    using room b by (simp_all add: unat_word_ariths)
  have run: "malloc_new sz s = Inr (?p + 8, ?s')"
    using add(1) room by (simp add: malloc_new_def Let_def word_le_nat_alt add.commute add.left_commute)
  have far: "4 \<le> unat (a - (?p + 4))" if "unat (sz + 8) \<le> unat (a - ?p)" for a
    using that unat_diff_add(1) [of 4 a ?p] small by (simp add: unat_word_ariths)
  have out: "?m2 a = mem s a" if "\<not> a - ?p < sz + 8" for a
  proof -
    have "4 \<le> unat (a - (?p + 4))" using that by (intro far) (simp add: word_less_nat_alt)
    then have "\<not> a - (?p + 4) < 4" by (simp add: word_less_nat_alt)
    then show ?thesis using sub_outside [OF small that] by (simp add: memset_apply store32_outside)
  qed
  have near: "\<not> b - (?p + 8) < sz" if "unat (b - ?p) < 8" for b
    using that unat_diff_add(2) [of b ?p 8] small by (simp add: word_less_nat_alt)
  have hdr: "alloc_status ?m2 ?p = 1" "alloc_size ?m2 ?p = sz"
  proof -
    have "\<not> ?p - (?p + 8) < sz" by (rule near) simp
    moreover have "\<not> ?p - (?p + 4) < 4" by simp
    ultimately show "alloc_status ?m2 ?p = 1" by (simp add: alloc_status_def memset_apply store32_outside)
    have "load32 ?m2 (?p + 4) = load32 ?m1 (?p + 4)"
    proof (rule load32_cong)
      fix b assume b: "b - (?p + 4) < 4"
      have k: "unat (k + 4) < 8" if "unat k < 4" for k :: u32 using that by (simp add: unat_word_ariths)
      have "unat (b - ?p) = unat (b - (?p + 4) + 4)" by simp
      also have "\<dots> < 8" using b by (intro k) (simp add: word_less_nat_alt)
      finally show "?m2 b = ?m1 b" using near by (simp add: memset_apply)
    qed
    then show "alloc_size ?m2 ?p = sz" by (simp add: alloc_size_def)
  qed
  have "blocks_at ?m2 ?a bs = blocks_at (mem s) ?a bs"
  proof (rule blocks_at_cong)
    fix x assume "x \<in> headers ?a bs"
    then have x: "x < unat ?p" "unat (of_nat x :: u32) = x"
      using headers_range [of x ?a bs] e unat_u32_le [of ?p] by (auto intro!: unat_of_nat_u32)
    then have "unat (of_nat x - ?p) = 2 ^ 32 + x - unat ?p" by (simp add: unat_sub_if_size word_size)
    then have "\<not> of_nat x - ?p < sz + 8" using room b small by (simp add: word_less_nat_alt unat_word_ariths)
    then show "?m2 (of_nat x) = mem s (of_nat x)" by (rule out)
  qed
  then have "blocks_at ?m2 ?a (bs @ [(unat sz, True)])"
    using blocks_at_append [of ?m2 ?a bs] ok hdr sz e by (simp add: heap_ok_def unat_gt_0)
  then have "heap_ok ?s' (bs @ [(unat sz, True)])"
    using ok room add(2) e by (simp add: heap_ok_def)
  moreover have "zeroed (?p + 8) sz ?s'" by (simp add: zeroed_def memset_apply)
  moreover have "only_changed ?p (sz + 8) s ?s'" using out by (simp add: only_changed_def)
  ultimately show ?thesis using run by (auto simp: heap_vars_same_def)
qed

definition malloc_spec :: "u32 \<Rightarrow> block list \<Rightarrow> 's heap_scheme \<Rightarrow> (nat \<times> block list) option" where
  "malloc_spec sz bs s =
     (case first_fit (unat sz) bs of
        Some i \<Rightarrow> Some (block_addr (unat (heap_begin s)) bs i, bs[i := (fst (bs ! i), True)])
      | None \<Rightarrow> if unat (heap_end s) \<le> unat (last_alloc s) + unat sz + 8 then None
                else Some (unat (last_alloc s), bs @ [(unat sz, True)]))"

lemma malloc_ok:
  fixes s :: "'s heap_scheme"
  assumes ok: "heap_ok s bs" and calm: "calm s" and sz: "sz \<noteq> 0"
    and small: "unat (last_alloc s) + unat sz + 8 < 2 ^ 32"
  shows "case malloc_spec sz bs s of
      None \<Rightarrow> malloc sz s = Inl Panic
    | Some (a, bs') \<Rightarrow> \<exists>s'. malloc sz s = Inr (of_nat a + 8, s') \<and> heap_ok s' bs' \<and>
        zeroed (of_nat a + 8) sz s' \<and> only_changed (of_nat a) (sz + 8) s s' \<and> heap_vars_same s s'"
proof -
  have scan: "malloc_scan (mem s) (last_alloc s) sz (heap_begin s) =
     Some (map_option (\<lambda>i. of_nat (block_addr (unat (heap_begin s)) bs i)) (first_fit (unat sz) bs))"
    using malloc_scan_ok [of "mem s" "unat (heap_begin s)" bs "last_alloc s" sz] ok by (simp add: heap_ok_def)
  show ?thesis
  proof (cases "first_fit (unat sz) bs")
    case (Some i)
    note f = first_fit_Some [OF Some]
    let ?p = "of_nat (block_addr (unat (heap_begin s)) bs i) :: u32"
    have "malloc sz s = malloc_reuse sz ?p s" using scan Some sz by (simp add: malloc_def)
    moreover from malloc_reuse_ok [OF ok calm, of i sz] f obtain s' where
      "malloc_reuse sz ?p s = Inr (?p + 8, s')" "heap_ok s' (bs[i := (fst (bs ! i), True)])"
      "zeroed (?p + 8) sz s'" "only_changed ?p (sz + 8) s s'" "heap_vars_same s s'" by blast
    ultimately show ?thesis using Some by (simp add: malloc_spec_def)
  next
    case None
    have run: "malloc sz s = malloc_new sz s" using scan None sz by (simp add: malloc_def)
    have add: "unat (last_alloc s + sz + 8) = unat (last_alloc s) + unat sz + 8"
      using small by (simp add: unat_word_ariths)
    show ?thesis
    proof (cases "unat (heap_end s) \<le> unat (last_alloc s) + unat sz + 8")
      case True
      then have "malloc_new sz s = Inl Panic" using add by (simp add: malloc_new_def word_le_nat_alt)
      then show ?thesis using None True run by (simp add: malloc_spec_def)
    next
      case False
      from malloc_new_ok [OF ok sz] False obtain s' where
        "malloc_new sz s = Inr (last_alloc s + 8, s')" "heap_ok s' (bs @ [(unat sz, True)])"
        "zeroed (last_alloc s + 8) sz s'" "only_changed (last_alloc s) (sz + 8) s s'" "heap_vars_same s s'" by auto
      then show ?thesis using None False run by (simp add: malloc_spec_def)
    qed
  qed
qed

lemma free_ok:
  fixes s :: "'s heap_scheme"
  assumes ok: "heap_ok s bs" and calm: "calm s" and i: "i < length bs"
  shows "\<exists>s'. free (of_nat (block_addr (unat (heap_begin s)) bs i) + 8) s = Inr s' \<and>
     heap_ok s' (bs[i := (fst (bs ! i), False)]) \<and>
     only_changed (of_nat (block_addr (unat (heap_begin s)) bs i)) 1 s s' \<and> heap_vars_same s s' \<and> last_alloc s' = last_alloc s \<and>
     memory_used s' = memory_used s - (alloc_size (mem s) (of_nat (block_addr (unat (heap_begin s)) bs i)) + 8)"
proof -
  let ?p = "of_nat (block_addr (unat (heap_begin s)) bs i) :: u32" and ?bs = "bs[i := (fst (bs ! i), False)]"
  let ?s1 = "s\<lparr>memory_used := memory_used s - (alloc_size (mem s) ?p + 8), mem := (mem s)(?p := 0)\<rparr>"
  have ok1: "heap_ok ?s1 ?bs" using heap_ok_status [OF ok i, of 0] by (simp add: heap_ok_def)
  have "printf_safe (lit ''Free memeory: %x, size: %d'' @ [10]) [?p + 8, alloc_size (mem ?s1) ?p + 8]"
    by (simp add: lit_def of_char_def)
  moreover have "calm ?s1" using calm by (simp add: calm_def)
  ultimately obtain s2 where s2:
      "printf (lit ''Free memeory: %x, size: %d'' @ [10]) [?p + 8, alloc_size (mem ?s1) ?p + 8] ?s1 = Inr s2"
      "\<exists>m l x y. s2 = ?s1\<lparr>mem := m, iolog := l, fb_pos_x := x, fb_pos_y := y\<rparr>"
      "\<forall>a. \<not> in_window (framebuffer_addr ?s1) a \<longrightarrow> mem s2 a = mem ?s1 a"
    using printf_heap by blast
  then have "heap_ok s2 ?bs" by (intro heap_ok_frame [OF ok1]) auto
  moreover have "free (?p + 8) s = Inr s2" using s2(1) by (simp add: free_def Let_def)
  moreover have "only_changed ?p 1 s s2"
  proof -
    have "a \<noteq> ?p" if "\<not> a - ?p < 1" for a using that by auto
    then show ?thesis using s2(3) by (auto simp: only_changed_def)
  qed
  ultimately show ?thesis using s2(2) by (auto simp: heap_vars_same_def)
qed

section \<open>The heap as an interface\<close>

inductive alloc_trace ::
  "(u32 \<Rightarrow> 's \<Rightarrow> (u32 \<times> 's) res) \<Rightarrow> (u32 \<Rightarrow> 's \<Rightarrow> 's res) \<Rightarrow> (u32 \<Rightarrow> 's \<Rightarrow> bool) \<Rightarrow> 's \<Rightarrow> 's \<Rightarrow> (u32 \<times> u32) list \<Rightarrow> bool"
  for alloc release admissible s0 where
  start: "alloc_trace alloc release admissible s0 s0 []"
| alloc: "alloc_trace alloc release admissible s0 s L \<Longrightarrow> admissible sz s \<Longrightarrow> alloc sz s = Inr (p, s') \<Longrightarrow>
    alloc_trace alloc release admissible s0 s' ((p, sz) # L)"
| release: "alloc_trace alloc release admissible s0 s L \<Longrightarrow> admissible 1 s \<Longrightarrow> (p, sz) \<in> set L \<Longrightarrow> release p s = Inr s' \<Longrightarrow>
    alloc_trace alloc release admissible s0 s' (filter (\<lambda>(q, n). q \<noteq> p) L)"

definition apart :: "u32 \<times> u32 \<Rightarrow> u32 \<times> u32 \<Rightarrow> bool" where
  "apart = (\<lambda>(p, n) (q, k). unat p + unat n \<le> unat q \<or> unat q + unat k \<le> unat p)"

locale region_allocator =
  fixes alloc :: "u32 \<Rightarrow> 's \<Rightarrow> (u32 \<times> 's) res"
    and release :: "u32 \<Rightarrow> 's \<Rightarrow> 's res"
    and admissible :: "u32 \<Rightarrow> 's \<Rightarrow> bool"
    and inv :: "'s \<Rightarrow> bool"
    and live :: "'s \<Rightarrow> (u32 \<times> nat) set"
  assumes alloc_law: "inv s \<Longrightarrow> admissible sz s \<Longrightarrow> alloc sz s = Inr (p, s') \<Longrightarrow>
      inv s' \<and> (\<forall>k. (p, k) \<notin> live s) \<and> (\<exists>n. unat sz \<le> n \<and> live s' = insert (p, n) (live s))"
    and release_law: "inv s \<Longrightarrow> admissible 1 s \<Longrightarrow> (p, n) \<in> live s \<Longrightarrow> release p s = Inr s' \<Longrightarrow>
      inv s' \<and> live s' = live s - {(p, n)}"
    and functional: "inv s \<Longrightarrow> (p, n) \<in> live s \<Longrightarrow> (p, k) \<in> live s \<Longrightarrow> n = k"
    and disjoint: "inv s \<Longrightarrow> (p, n) \<in> live s \<Longrightarrow> (q, k) \<in> live s \<Longrightarrow> p \<noteq> q \<Longrightarrow>
      unat p + n \<le> unat q \<or> unat q + k \<le> unat p"
begin

lemma trace_live:
  assumes "alloc_trace alloc release admissible s0 s L" and "inv s0"
  shows "inv s \<and> distinct (map fst L) \<and> (\<forall>(p, n) \<in> set L. \<exists>k. unat n \<le> k \<and> (p, k) \<in> live s)"
  using assms
proof (induction rule: alloc_trace.induct)
  case start
  then show ?case by simp
next
  case (alloc s L sz p s')
  then have IH: "inv s" "distinct (map fst L)" "\<forall>(p, n) \<in> set L. \<exists>k. unat n \<le> k \<and> (p, k) \<in> live s" by auto
  from alloc_law [OF IH(1) alloc.hyps(2,3)]
  obtain n where n: "inv s'" "\<forall>k. (p, k) \<notin> live s" "unat sz \<le> n" "live s' = insert (p, n) (live s)" by blast
  have "p \<notin> set (map fst L)" using IH(3) n(2) by fastforce
  then show ?case using IH n by fastforce
next
  case (release s L p sz s')
  then have IH: "inv s" "distinct (map fst L)" "\<forall>(p, n) \<in> set L. \<exists>k. unat n \<le> k \<and> (p, k) \<in> live s" by auto
  from release.hyps(3) IH(3) obtain k where k: "(p, k) \<in> live s" by fastforce
  from release_law [OF IH(1) release.hyps(2) k release.hyps(4)] have s': "inv s'" "live s' = live s - {(p, k)}" by auto
  have "distinct (map fst (filter (\<lambda>(q, n). q \<noteq> p) L))" using IH(2) by (simp add: distinct_map_filter)
  then show ?case using s' IH(3) by fastforce
qed

lemma trace_apart:
  assumes "alloc_trace alloc release admissible s0 s L" and "inv s0"
    and "i < length L" "j < length L" "i \<noteq> j"
  shows "apart (L ! i) (L ! j)"
proof -
  obtain p n q k where e: "L ! i = (p, n)" "L ! j = (q, k)" by (cases "L ! i", cases "L ! j")
  note t = trace_live [OF assms(1,2)]
  have "p \<noteq> q" 
    using t assms(3-5) e nth_eq_iff_index_eq [of "map fst L" i j] by auto
  moreover have "(p, n) \<in> set L" "(q, k) \<in> set L"
    using nth_mem [OF assms(3)] nth_mem [OF assms(4)] by (simp_all only: e)
  then have "\<exists>n'. unat n \<le> n' \<and> (p, n') \<in> live s" "\<exists>k'. unat k \<le> k' \<and> (q, k') \<in> live s" using t by auto
  then obtain n' k' where "unat n \<le> n'" "(p, n') \<in> live s" "unat k \<le> k'" "(q, k') \<in> live s" by blast
  ultimately show ?thesis using disjoint [of s p n' q k'] t e by (auto simp: apart_def)
qed

end

definition heap_inv :: "'s heap_scheme \<Rightarrow> bool" where
  "heap_inv s \<longleftrightarrow> (\<exists>bs. heap_ok s bs)"

definition request_ok :: "u32 \<Rightarrow> 's heap_scheme \<Rightarrow> bool" where
  "request_ok sz s \<longleftrightarrow> calm s \<and> sz \<noteq> 0 \<and> unat (last_alloc s) + unat sz + 8 < 2 ^ 32"

definition used :: "block list \<Rightarrow> nat set" where
  "used bs = {i. i < length bs \<and> snd (bs ! i)}"

definition payload :: "nat \<Rightarrow> block list \<Rightarrow> nat \<Rightarrow> u32 \<times> nat" where
  "payload a bs i = (of_nat (block_addr a bs i) + 8, fst (bs ! i))"

definition payloads :: "nat \<Rightarrow> block list \<Rightarrow> (u32 \<times> nat) set" where
  "payloads a bs = payload a bs ` used bs"

definition live_blocks :: "'s heap_scheme \<Rightarrow> (u32 \<times> nat) set" where
  "live_blocks s = \<Union> {payloads (unat (heap_begin s)) bs | bs. heap_ok s bs}"

lemma blocks_at_unique:
  "blocks_at m a xs \<Longrightarrow> blocks_at m a ys \<Longrightarrow> blen xs = blen ys \<Longrightarrow> xs = ys"
proof (induction xs arbitrary: a ys)
  case Nil
  then show ?case by (cases ys) auto
next
  case (Cons x xs)
  then obtain y ys' where ys: "ys = y # ys'" by (cases ys) auto
  have "x = y" using Cons.prems ys by (auto simp: prod_eq_iff)
  then show ?case using Cons.IH [of "a + fst y + 12" ys'] Cons.prems ys by simp
qed

lemma heap_ok_unique: "heap_ok s xs \<Longrightarrow> heap_ok s ys \<Longrightarrow> xs = ys"
  by (rule blocks_at_unique [of "mem s" "unat (heap_begin s)"]) (simp_all add: heap_ok_def)

lemma live_blocks_eq:
  assumes "heap_ok s bs"
  shows "live_blocks s = payloads (unat (heap_begin s)) bs"
proof -
  have "heap_ok s xs \<longleftrightarrow> xs = bs" for xs using heap_ok_unique [OF assms] assms by metis
  then show ?thesis by (simp add: live_blocks_def)
qed

lemma block_addr_update: "block_addr a (bs[i := (fst (bs ! i), u)]) j = block_addr a bs j"
proof (induction bs arbitrary: a i j)
  case (Cons b bs)
  then show ?case by (cases i; cases j) auto
qed (simp add: block_addr_def)

lemma block_addr_append: "j \<le> length bs \<Longrightarrow> block_addr a (bs @ cs) j = block_addr a bs j"
  by (simp add: block_addr_def)

lemma block_addr_less: "i < j \<Longrightarrow> j \<le> length bs \<Longrightarrow> block_addr a bs i + fst (bs ! i) + 12 \<le> block_addr a bs j"
proof (induction bs arbitrary: a i j)
  case (Cons b bs)
  then obtain j' where j: "j = Suc j'" by (cases j) auto
  show ?case
  proof (cases i)
    case 0
    then show ?thesis using j block_addr_ge [of "a + fst b + 12" bs j'] by simp
  next
    case (Suc i')
    then show ?thesis using j Cons.IH [of i' j' "a + fst b + 12"] Cons.prems by simp
  qed
qed simp

lemma payload_update [simp]: "payload a (bs[i := (fst (bs ! i), u)]) = payload a bs"
proof
  fix j
  have "fst (bs[i := (fst (bs ! i), u)] ! j) = fst (bs ! j)"
    by (cases "i < length bs"; cases "i = j") (simp_all add: list_update_beyond)
  then show "payload a (bs[i := (fst (bs ! i), u)]) j = payload a bs j"
    by (simp add: payload_def block_addr_update)
qed

lemma used_update:
  "i < length bs \<Longrightarrow> used (bs[i := (n, u)]) = (if u then insert i (used bs) else used bs - {i})"
  by (auto simp: used_def nth_list_update)

lemma payloads_set:
  "i < length bs \<Longrightarrow> payloads a (bs[i := (fst (bs ! i), True)]) = insert (payload a bs i) (payloads a bs)"
  by (simp add: payloads_def used_update)

lemma payloads_append:
  "payloads a (bs @ [(n, True)]) = insert (of_nat (a + blen bs) + 8, n) (payloads a bs)"
proof -
  have "used (bs @ [(n, True)]) = insert (length bs) (used bs)"
    by (auto simp: used_def nth_append less_Suc_eq)
  moreover have "payload a (bs @ [(n, True)]) i = payload a bs i" if "i \<in> used bs" for i
    using that by (simp add: used_def payload_def block_addr_append nth_append)
  moreover have "payload a (bs @ [(n, True)]) (length bs) = (of_nat (a + blen bs) + 8, n)"
    by (simp add: payload_def block_addr_def)
  ultimately show ?thesis by (simp add: payloads_def)
qed

lemma unat_payload:
  assumes "heap_ok s bs" and "i < length bs"
  shows "unat (of_nat (block_addr (unat (heap_begin s)) bs i) + 8 :: u32) = block_addr (unat (heap_begin s)) bs i + 8"
proof -
  have "block_addr (unat (heap_begin s)) bs i + 8 < 2 ^ 32"
    using unat_block_addr(2) [OF assms] unat_u32_le [of "last_alloc s"] by simp
  then show ?thesis using unat_of_nat_u32 [of "block_addr (unat (heap_begin s)) bs i + 8"] by simp
qed

lemma payload_addr_inj:
  assumes "heap_ok s bs" and "i < length bs" "j < length bs"
    and "(of_nat (block_addr (unat (heap_begin s)) bs i) + 8 :: u32) = of_nat (block_addr (unat (heap_begin s)) bs j) + 8"
  shows "i = j"
proof (rule ccontr)
  assume "i \<noteq> j"
  then have "block_addr (unat (heap_begin s)) bs i \<noteq> block_addr (unat (heap_begin s)) bs j"
    using assms(2,3) block_addr_less [of i j bs "unat (heap_begin s)"] block_addr_less [of j i bs "unat (heap_begin s)"]
    by (cases "i < j") auto
  then show False using unat_payload [OF assms(1,2)] unat_payload [OF assms(1,3)] assms(4) by simp
qed

lemma payload_inj:
  assumes "heap_ok s bs" and "i < length bs" "j < length bs"
    and "fst (payload (unat (heap_begin s)) bs i) = fst (payload (unat (heap_begin s)) bs j)"
  shows "i = j"
  using payload_addr_inj [OF assms(1-3)] assms(4) by (simp add: payload_def)

lemma payloads_unset:
  assumes "heap_ok s bs" and "i < length bs"
  shows "payloads (unat (heap_begin s)) (bs[i := (fst (bs ! i), False)]) =
    payloads (unat (heap_begin s)) bs - {payload (unat (heap_begin s)) bs i}"
proof -
  have "inj_on (payload (unat (heap_begin s)) bs) (insert i (used bs))"
    using payload_inj [OF assms(1)] assms(2) by (auto intro!: inj_onI simp: used_def)
  then have "payload (unat (heap_begin s)) bs ` (used bs - {i}) =
      payload (unat (heap_begin s)) bs ` used bs - {payload (unat (heap_begin s)) bs i}"
    by (auto simp: inj_on_def)
  then show ?thesis using assms(2) by (simp add: payloads_def used_update)
qed

interpretation heap: region_allocator malloc free request_ok heap_inv live_blocks
proof
  fix s s' :: "'a heap_scheme" and sz p
  assume "heap_inv s" and r: "request_ok sz s" and run: "malloc sz s = Inr (p, s')"
  then obtain bs where ok: "heap_ok s bs" by (auto simp: heap_inv_def)
  let ?a = "unat (heap_begin s)"
  have req: "calm s" "sz \<noteq> 0" "unat (last_alloc s) + unat sz + 8 < 2 ^ 32" using r by (auto simp: request_ok_def)
  note m = malloc_ok [OF ok req]
  have la: "?a + blen bs = unat (last_alloc s)" using ok by (simp add: heap_ok_def)
  show "heap_inv s' \<and> (\<forall>k. (p, k) \<notin> live_blocks s) \<and> (\<exists>n. unat sz \<le> n \<and> live_blocks s' = insert (p, n) (live_blocks s))"
  proof (cases "first_fit (unat sz) bs")
    case (Some i)
    note f = first_fit_Some [OF Some]
    from m Some run have s': "p = of_nat (block_addr ?a bs i) + 8" "heap_ok s' (bs[i := (fst (bs ! i), True)])"
        "heap_vars_same s s'" by (auto simp: malloc_spec_def)
    have "fst (payload ?a bs i) = p" by (simp add: payload_def s'(1))
    moreover have "(p, k) \<notin> payloads ?a bs" for k
    proof
      assume "(p, k) \<in> payloads ?a bs"
      then obtain j where j: "j \<in> used bs" "payload ?a bs j = (p, k)" by (auto simp: payloads_def)
      then have "i = j" using payload_inj [OF ok, of i j] f \<open>fst (payload ?a bs i) = p\<close> by (simp add: used_def)
      then show False using j(1) f by (simp add: used_def)
    qed
    moreover have "live_blocks s' = insert (payload ?a bs i) (payloads ?a bs)"
      using live_blocks_eq [OF s'(2)] payloads_set [of i bs ?a] f s'(3) by (simp add: heap_vars_same_def)
    ultimately show ?thesis
      using s' f live_blocks_eq [OF ok] by (auto simp: heap_inv_def payload_def)
  next
    case None
    from m None run have s': "p = last_alloc s + 8" "heap_ok s' (bs @ [(unat sz, True)])" "heap_vars_same s s'"
      by (auto simp: malloc_spec_def split: if_splits)
    have "(p, k) \<notin> payloads ?a bs" for k
    proof
      assume "(p, k) \<in> payloads ?a bs"
      then obtain j where j: "j < length bs" "of_nat (block_addr ?a bs j) + 8 = p"
        by (auto simp: payloads_def payload_def used_def)
      then have "block_addr ?a bs j + 8 = unat (last_alloc s) + 8"
        using unat_payload [OF ok j(1)] s'(1) req(3) by (simp add: unat_word_ariths)
      then show False using unat_block_addr(2) [OF ok j(1)] by simp
    qed
    moreover have "live_blocks s' = insert (p, unat sz) (payloads ?a bs)"
      using live_blocks_eq [OF s'(2)] payloads_append [of ?a bs "unat sz"] s'(1,3) la by (simp add: heap_vars_same_def)
    ultimately show ?thesis using s'(2) live_blocks_eq [OF ok] by (auto simp: heap_inv_def)
  qed
next
  fix s s' :: "'a heap_scheme" and p n
  assume "heap_inv s" and r: "request_ok 1 s" and live: "(p, n) \<in> live_blocks s" and run: "free p s = Inr s'"
  then obtain bs where ok: "heap_ok s bs" by (auto simp: heap_inv_def)
  let ?a = "unat (heap_begin s)"
  from live live_blocks_eq [OF ok] obtain i where i: "i < length bs" "payload ?a bs i = (p, n)"
    by (auto simp: payloads_def used_def)
  then have p: "p = of_nat (block_addr ?a bs i) + 8" by (simp add: payload_def)
  from free_ok [OF ok _ i(1)] r run p have s': "heap_ok s' (bs[i := (fst (bs ! i), False)])" "heap_vars_same s s'"
    by (auto simp: request_ok_def)
  then show "heap_inv s' \<and> live_blocks s' = live_blocks s - {(p, n)}"
    using live_blocks_eq [OF s'(1)] live_blocks_eq [OF ok] payloads_unset [OF ok i(1)] i(2)
    by (auto simp: heap_inv_def heap_vars_same_def)
next
  fix s :: "'a heap_scheme" and p n k
  assume "heap_inv s" "(p, n) \<in> live_blocks s" "(p, k) \<in> live_blocks s"
  then obtain bs i j where ok: "heap_ok s bs" and "i < length bs" "j < length bs"
    "payload (unat (heap_begin s)) bs i = (p, n)" "payload (unat (heap_begin s)) bs j = (p, k)"
    by (auto simp: heap_inv_def live_blocks_eq payloads_def used_def)
  then show "n = k" using payload_inj [OF ok, of i j] by simp
next
  fix s :: "'a heap_scheme" and p n q k
  assume "heap_inv s" "(p, n) \<in> live_blocks s" "(q, k) \<in> live_blocks s" and pq: "p \<noteq> q"
  then obtain bs i j where ok: "heap_ok s bs" and ij: "i < length bs" "j < length bs"
    "payload (unat (heap_begin s)) bs i = (p, n)" "payload (unat (heap_begin s)) bs j = (q, k)"
    by (auto simp: heap_inv_def live_blocks_eq payloads_def used_def)
  have "i \<noteq> j" using ij pq by auto
  then show "unat p + n \<le> unat q \<or> unat q + k \<le> unat p"
    using block_addr_less [of i j bs "unat (heap_begin s)"] block_addr_less [of j i bs "unat (heap_begin s)"] ij
      unat_payload [OF ok ij(1)] unat_payload [OF ok ij(2)]
    by (cases "i < j") (auto simp: payload_def)
qed

section \<open>Properties\<close>

definition small_heap :: heap where
  "small_heap = vmm.extend (small_vmm\<lparr>framebuffer_addr := 0xB0000000\<rparr>)
     \<lparr>last_alloc = 0xC0200000, heap_end = 0xC0300000, heap_begin = 0xC0200000, pheap_begin = 0xC0300000,
      pheap_end = 0xC0320000, pheap_desc = 0, memory_used = 0\<rparr>"

lemma small_heap_fields:
  "last_alloc small_heap = 0xC0200000" "heap_end small_heap = 0xC0300000" "heap_begin small_heap = 0xC0200000"
  "framebuffer_addr small_heap = 0xB0000000" "fb_pos_y small_heap = 0" "memory_used small_heap = 0"
  by (simp_all add: small_heap_def small_vmm_def small_descr_def small_isr_def small_pmm_def empty_console_def
      vmm.defs descr.defs isr.defs pmm.defs console.defs)

lemma small_heap_ok: "heap_ok small_heap []"
proof -
  have "\<not> in_window 0xB0000000 a" if "0xC0200000 \<le> unat a" for a
    using that unat_u32_le [of a] by (simp add: in_window_def word_less_nat_alt unat_sub_if_size word_size)
  then show ?thesis by (simp add: heap_ok_def small_heap_fields)
qed

lemma small_heap_calm: "calm small_heap"
  by (simp add: calm_def small_heap_fields)



text \<open>
  C10: \<^verbatim>\<open>free\<close> of the payload of block \<^verbatim>\<open>i\<close> of a well-formed heap returns, marks exactly that block as
  free in the list of blocks, and changes no byte but its status byte (outside the text screen).
\<close>

theorem free_refines:
  fixes s :: "'s heap_scheme"
  assumes "heap_ok s bs" and "calm s" and "i < length bs"
  shows "\<exists>s'. free (of_nat (block_addr (unat (heap_begin s)) bs i) + 8) s = Inr s' \<and>
     heap_ok s' (bs[i := (fst (bs ! i), False)]) \<and>
     only_changed (of_nat (block_addr (unat (heap_begin s)) bs i)) 1 s s'"
  using free_ok [OF assms] by blast

definition one_block_heap :: heap where
  "one_block_heap = small_heap\<lparr>last_alloc := 0xC0200014,
     mem := store32 ((\<lambda>_. 0)(0xC0200000 := 1)) 0xC0200004 8\<rparr>"

lemma one_block_heap_ok: "heap_ok one_block_heap [(8, True)]"
proof -
  have "\<not> in_window 0xB0000000 a" if "0xC0200000 \<le> unat a" for a
    using that unat_u32_le [of a] by (simp add: in_window_def word_less_nat_alt unat_sub_if_size word_size)
  moreover have "alloc_size (mem one_block_heap) 0xC0200000 = 8" "alloc_status (mem one_block_heap) 0xC0200000 = 1"
    by (simp_all add: one_block_heap_def alloc_size_def alloc_status_def store32_def)
       (simp_all add: load32_def)
  ultimately show ?thesis by (simp add: heap_ok_def one_block_heap_def small_heap_fields)
qed

theorem free_refines_witness:
  "\<exists>s'. free 0xC0200008 one_block_heap = Inr s' \<and> heap_ok s' [(8, False)]"
  using free_refines [OF one_block_heap_ok, of 0]
  by (auto simp: one_block_heap_def calm_def small_heap_fields)

lemma malloc_fresh:
  fixes s :: "'s heap_scheme"
  assumes "heap_ok s bs" and "calm s" and "sz \<noteq> 0" and "first_fit (unat sz) bs = None"
    and "unat (last_alloc s) + unat sz + 8 < unat (heap_end s)"
  shows "\<exists>s'. malloc sz s = Inr (last_alloc s + 8, s') \<and> heap_ok s' (bs @ [(unat sz, True)]) \<and> calm s' \<and>
     last_alloc s' = last_alloc s + sz + 12 \<and> heap_vars_same s s' \<and> memory_used s' = memory_used s + sz + 12"
proof -
  have b: "unat (last_alloc s) + unat sz + 8 < 2 ^ 32" using assms(5) unat_u32_le [of "heap_end s"] by simp
  have scan: "malloc_scan (mem s) (last_alloc s) sz (heap_begin s) = Some None"
    using malloc_scan_ok [of "mem s" "unat (heap_begin s)" bs "last_alloc s" sz] assms(1,4) by (simp add: heap_ok_def)
  obtain s' where s': "malloc sz s = Inr (last_alloc s + 8, s')" "heap_ok s' (bs @ [(unat sz, True)])" "heap_vars_same s s'"
    using malloc_ok [OF assms(1-3) b] assms(4,5) by (auto simp: malloc_spec_def)
  have "fb_pos_y s' = fb_pos_y s \<and> last_alloc s' = last_alloc s + sz + 12 \<and> memory_used s' = memory_used s + sz + 12"
    using s'(1) scan assms(3) by (auto simp: malloc_def malloc_new_def Let_def split: if_splits)
  then show ?thesis using s' assms(2) by (simp add: calm_def)
qed


lemma small_heap_twice:
  "\<exists>s1 s2. malloc 100 small_heap = Inr (0xC0200008, s1) \<and> malloc 40 s1 = Inr (0xC0200078, s2) \<and>
     heap_ok s1 [(100, True)] \<and> request_ok 40 s1 \<and> heap_begin s1 = 0xC0200000"
proof -
  from malloc_fresh [OF small_heap_ok small_heap_calm, of 100] obtain s1 where
    1: "malloc 100 small_heap = Inr (0xC0200008, s1)" "heap_ok s1 [(100, True)]" "calm s1"
      "last_alloc s1 = 0xC0200070" "heap_vars_same small_heap s1"
    by (auto simp: small_heap_fields)
  moreover from malloc_fresh [OF 1(2,3), of 40] 1(4,5) obtain s2 where "malloc 40 s1 = Inr (0xC0200078, s2)"
    by (auto simp: small_heap_fields heap_vars_same_def)
  ultimately show ?thesis by (auto simp: request_ok_def heap_vars_same_def small_heap_fields)
qed


lemma outside_ivl:
  fixes a p n :: u32
  assumes "unat a < unat p \<or> unat p + unat n \<le> unat a" and "unat p + unat n \<le> 2 ^ 32"
  shows "\<not> a - p < n"
  using assms unat_u32_le [of p] by (auto simp: word_less_nat_alt unat_sub_if_size word_size)

lemma malloc_live_bytes:
  fixes s :: "'s heap_scheme"
  assumes "heap_inv s" and "request_ok sz s" and "malloc sz s = Inr (p, s')"
    and "(q, n) \<in> live_blocks s" and "unat q \<le> unat a" and "unat a < unat q + n"
  shows "mem s' a = mem s a"
proof -
  obtain bs where ok: "heap_ok s bs" using assms(1) by (auto simp: heap_inv_def)
  let ?a = "unat (heap_begin s)"
  have req: "calm s" "sz \<noteq> 0" "unat (last_alloc s) + unat sz + 8 < 2 ^ 32" using assms(2) by (auto simp: request_ok_def)
  from assms(4) live_blocks_eq [OF ok] obtain j where j: "j < length bs" "snd (bs ! j)" "payload ?a bs j = (q, n)"
    by (auto simp: payloads_def used_def)
  then have q: "unat q = block_addr ?a bs j + 8" "n = fst (bs ! j)" using unat_payload [OF ok j(1)] by (auto simp: payload_def)
  have la: "block_addr ?a bs j + n + 12 \<le> unat (last_alloc s)" using unat_block_addr(2) [OF ok j(1)] q(2) by simp
  have "?a \<le> unat a" "unat a < unat (heap_end s) + 16"
    using assms(5,6) q(1) la ok block_addr_ge [of ?a bs j] by (auto simp: heap_ok_def)
  then have win: "\<not> in_window (framebuffer_addr s) a" using ok unfolding heap_ok_def by blast
  have sz8: "unat (sz + 8) = unat sz + 8" using req(3) by (simp add: unat_word_ariths)
  note m = malloc_ok [OF ok req]
  show ?thesis
  proof (cases "first_fit (unat sz) bs")
    case (Some i)
    note f = first_fit_Some [OF Some]
    let ?p = "of_nat (block_addr ?a bs i) :: u32"
    have "only_changed ?p (sz + 8) s s'" using m Some assms(3) by (auto simp: malloc_spec_def)
    moreover have u: "unat ?p = block_addr ?a bs i" "block_addr ?a bs i + fst (bs ! i) + 12 \<le> unat (last_alloc s)"
      using unat_block_addr [OF ok] f by auto
    have "i \<noteq> j" using f j(2) by auto
    then have "block_addr ?a bs i + fst (bs ! i) + 12 \<le> block_addr ?a bs j \<or> block_addr ?a bs j + n + 12 \<le> block_addr ?a bs i"
      using block_addr_less [of i j bs ?a] block_addr_less [of j i bs ?a] f j(1) q(2) by (cases "i < j") auto
    then have "\<not> a - ?p < sz + 8"
      using u sz8 f assms(5,6) q(1) unat_u32_le [of "last_alloc s"] by (intro outside_ivl) auto
    ultimately show ?thesis using win by (simp add: only_changed_def)
  next
    case None
    have "only_changed (last_alloc s) (sz + 8) s s'"
      using m None assms(3) by (auto simp: malloc_spec_def split: if_splits)
    moreover have "\<not> a - last_alloc s < sz + 8"
      using la assms(6) q(1) sz8 req(3) by (intro outside_ivl) auto
    ultimately show ?thesis using win by (simp add: only_changed_def)
  qed
qed



text \<open>
  The bound check of \<^verbatim>\<open>malloc\<close> is computed modulo 2^32: when \<^verbatim>\<open>last_alloc + size + 8\<close> wraps around,
  a request larger than the whole heap is granted and a block of that size is appended.
\<close>

theorem malloc_size_wraps:
  fixes s :: "'s heap_scheme"
  assumes "heap_ok s bs" and "first_fit (unat sz) bs = None"
    and "2 ^ 32 \<le> unat (last_alloc s) + unat sz + 8" and "unat (last_alloc s) + 8 \<le> unat (heap_end s)"
  shows "\<exists>s'. malloc sz s = Inr (last_alloc s + 8, s')"
proof -
  have scan: "malloc_scan (mem s) (last_alloc s) sz (heap_begin s) = Some None"
    using malloc_scan_ok [of "mem s" "unat (heap_begin s)" bs "last_alloc s" sz] assms(1,2) by (simp add: heap_ok_def)
  have lt: "unat (last_alloc s) + unat sz + 8 - 2 ^ 32 < unat (heap_end s)" "unat (last_alloc s) + unat sz + 8 - 2 ^ 32 < 2 ^ 32"
    using assms(3,4) unat_u32_le [of sz] unat_u32_le [of "heap_end s"] by auto
  have "unat (last_alloc s + sz + 8) = unat (last_alloc s) + unat sz + 8 - 2 ^ 32"
  proof -
    have "unat (last_alloc s + sz + 8) = (unat (last_alloc s) + unat sz + 8) mod 2 ^ 32"
      by (simp add: unat_word_ariths mod_simps)
    also have "\<dots> = (unat (last_alloc s) + unat sz + 8 - 2 ^ 32) mod 2 ^ 32" using assms(3) by (metis le_mod_geq)
    finally show ?thesis using lt(2) by simp
  qed
  with lt have "\<not> heap_end s \<le> last_alloc s + sz + 8" by (simp add: word_le_nat_alt)
  moreover have "sz \<noteq> 0" using assms(3,4) unat_u32_le [of "heap_end s"] by auto
  ultimately show ?thesis using scan by (simp add: malloc_def malloc_new_def Let_def)
qed

theorem malloc_size_wraps_witness:
  "\<exists>s'. malloc 0xFFFFFFF0 small_heap = Inr (0xC0200008, s')"
  using malloc_size_wraps [OF small_heap_ok, of "0xFFFFFFF0"] by (simp add: small_heap_fields)

text \<open>
  \<^verbatim>\<open>init_mm\<close> reserves the last 32 pages of the region, clears the rest and establishes a
  well-formed heap whose one block is the 32-byte page descriptor.
\<close>

theorem init_mm_establishes:
  fixes s :: "'s heap_scheme"
  assumes "unat start + 44 < unat hend - 0x20000" and "unat hend \<le> 2 ^ 32 - 16"
    and "\<And>a. start \<le> a \<Longrightarrow> unat a < unat hend \<Longrightarrow> \<not> in_window (framebuffer_addr s) a"
    and "calm s"
  shows "\<exists>s'. init_mm start hend s = Inr s' \<and> heap_ok s' [(32, True)] \<and> pheap_desc s' = start + 8 \<and>
    heap_begin s' = start \<and> heap_end s' = hend - 0x20000"
proof -
  let ?s4 = "s\<lparr>last_alloc := start, heap_begin := start, pheap_end := hend, pheap_begin := hend - 0x20000,
     heap_end := hend - 0x20000, mem := memset (mem s) start 0 (hend - 0x20000 - start)\<rparr>"
  have e: "unat (hend - 0x20000) = unat hend - 0x20000" using assms(1) by (simp add: unat_sub word_le_nat_alt)
  have ok: "heap_ok ?s4 []"
    using assms(1-3) e by (auto simp: heap_ok_def word_le_nat_alt)
  have "calm ?s4" using assms(4) by (simp add: calm_def)
  moreover have "unat start < 4294967256" using assms(1,2) by simp
  ultimately obtain s5 where
    m: "malloc 32 ?s4 = Inr (start + 8, s5)" "heap_ok s5 [(32, True)]" "heap_vars_same ?s4 s5"
    using malloc_ok [OF ok, of 32] assms(1,2) e by (auto simp: malloc_spec_def)
  have "init_mm start hend s = Inr (s5\<lparr>pheap_desc := start + 8\<rparr>)"
    using m(1) by (simp add: init_mm_def Let_def)
  moreover have "heap_ok (s5\<lparr>pheap_desc := start + 8\<rparr>) [(32, True)]" using m(2) by (simp add: heap_ok_def)
  ultimately show ?thesis using m(3) by (simp add: heap_vars_same_def)
qed

theorem init_mm_establishes_witness:
  "\<exists>s'. init_mm 0xC0200000 0xC0300000 small_heap = Inr s' \<and> heap_ok s' [(32, True)]"
proof -
  have "\<not> in_window (framebuffer_addr small_heap) a" if "0xC0200000 \<le> a" for a :: u32
    using that unat_u32_le [of a]
    by (simp add: in_window_def word_less_nat_alt word_le_nat_alt unat_sub_if_size word_size small_heap_fields)
  then show ?thesis
    using init_mm_establishes [of "0xC0200000" "0xC0300000" small_heap] small_heap_calm by auto
qed

lemma blocks_at_nth:
  "i < length bs \<Longrightarrow> blocks_at m a bs \<Longrightarrow> unat (alloc_size m (of_nat (block_addr a bs i))) = fst (bs ! i)"
proof (induction bs arbitrary: a i)
  case (Cons b bs)
  then show ?case by (cases i) auto
qed simp

text \<open>
  Allocating a fresh block and freeing it leaves \<^verbatim>\<open>memory_used\<close> four bytes larger: \<^verbatim>\<open>malloc\<close> counts
  the 4 bytes of padding that \<^verbatim>\<open>free\<close> does not.
\<close>

theorem free_leaks_accounting:
  fixes s :: "'s heap_scheme"
  assumes "heap_ok s bs" and "calm s" and "sz \<noteq> 0" and "first_fit (unat sz) bs = None"
    and "unat (last_alloc s) + unat sz + 8 < unat (heap_end s)"
  shows "\<exists>s' s''. malloc sz s = Inr (last_alloc s + 8, s') \<and> free (last_alloc s + 8) s' = Inr s'' \<and>
     memory_used s'' = memory_used s + 4"
proof -
  from malloc_fresh [OF assms] obtain s' where
    m: "malloc sz s = Inr (last_alloc s + 8, s')" "heap_ok s' (bs @ [(unat sz, True)])" "calm s'"
      "last_alloc s' = last_alloc s + sz + 12" "heap_vars_same s s'" "memory_used s' = memory_used s + sz + 12" by blast
  let ?a = "block_addr (unat (heap_begin s')) (bs @ [(unat sz, True)]) (length bs)"
  have a: "?a = unat (last_alloc s)" using assms(1) m(5)
    by (simp add: block_addr_append heap_ok_def heap_vars_same_def block_addr_def)
  have "unat (alloc_size (mem s') (of_nat ?a)) = unat sz"
    using blocks_at_nth [of "length bs" "bs @ [(unat sz, True)]"] m(2) unfolding heap_ok_def by fastforce
  then have "alloc_size (mem s') (last_alloc s) = sz" unfolding a by (simp add: word_unat_eq_iff)
  then show ?thesis using m(1,6) free_ok [OF m(2,3), of "length bs"] a by (force simp: algebra_simps)
qed

theorem free_leaks_accounting_witness:
  "\<exists>s' s''. malloc 100 small_heap = Inr (0xC0200008, s') \<and> free 0xC0200008 s' = Inr s'' \<and> memory_used s'' = 4"
  using free_leaks_accounting [OF small_heap_ok small_heap_calm, of 100] by (simp add: small_heap_fields)

end
