(* ===== verification/Objects.thy ===== *)
theory Objects
  imports Malloc
begin

text \<open>
  Objects on the kernel heap: 32-bit fields at an offset of a live block. \<open>object_heap\<close> extends
  the \<open>region_allocator\<close> interface by reading and writing such fields: a write changes one field
  of one object, an allocation delivers a cleared object and keeps the fields of the others, a
  release keeps the fields of the others. \<^verbatim>\<open>malloc\<close>, \<^verbatim>\<open>free\<close> and the loads and stores of memory
  interpret it, so that the linked structures of the kernel are reasoned about field by field.
\<close>

section \<open>Fields of objects in memory\<close>

definition field :: "'s machine_scheme \<Rightarrow> u32 \<Rightarrow> nat \<Rightarrow> u32" where
  "field s q k = load32 (mem s) (q + of_nat k)"

definition set_field :: "u32 \<Rightarrow> nat \<Rightarrow> u32 \<Rightarrow> 's machine_scheme \<Rightarrow> 's machine_scheme" where
  "set_field q k v s = s\<lparr>mem := store32 (mem s) (q + of_nat k) v\<rparr>"

section \<open>The interface\<close>

locale object_heap = region_allocator alloc release admissible inv live
  for alloc :: "u32 \<Rightarrow> 's \<Rightarrow> (u32 \<times> 's) res"
    and release :: "u32 \<Rightarrow> 's \<Rightarrow> 's res"
    and admissible :: "u32 \<Rightarrow> 's \<Rightarrow> bool"
    and inv :: "'s \<Rightarrow> bool"
    and live :: "'s \<Rightarrow> (u32 \<times> nat) set" +
  fixes peek :: "'s \<Rightarrow> u32 \<Rightarrow> nat \<Rightarrow> u32"
    and poke :: "u32 \<Rightarrow> nat \<Rightarrow> u32 \<Rightarrow> 's \<Rightarrow> 's"
  assumes live_nonnull: "inv s \<Longrightarrow> (q, n) \<in> live s \<Longrightarrow> q \<noteq> 0"
    and poke_law: "inv s \<Longrightarrow> (q, n) \<in> live s \<Longrightarrow> k + 4 \<le> n \<Longrightarrow>
      inv (poke q k v s) \<and> live (poke q k v s) = live s"
    and peek_poke_same: "peek (poke q k v s) q k = v"
    and peek_poke_other: "inv s \<Longrightarrow> (q, n) \<in> live s \<Longrightarrow> k + 4 \<le> n \<Longrightarrow> (p, m) \<in> live s \<Longrightarrow> j + 4 \<le> m \<Longrightarrow>
      p \<noteq> q \<or> k + 4 \<le> j \<or> j + 4 \<le> k \<Longrightarrow> peek (poke q k v s) p j = peek s p j"
    and poke_null_law: "inv s \<Longrightarrow> inv (poke 0 0 v s) \<and> live (poke 0 0 v s) = live s"
    and peek_poke_null: "inv s \<Longrightarrow> (p, m) \<in> live s \<Longrightarrow> j + 4 \<le> m \<Longrightarrow> peek (poke 0 0 v s) p j = peek s p j"
    and peek_alloc: "inv s \<Longrightarrow> admissible sz s \<Longrightarrow> alloc sz s = Inr (p, s') \<Longrightarrow> (q, n) \<in> live s \<Longrightarrow> k + 4 \<le> n \<Longrightarrow>
      peek s' q k = peek s q k"
    and peek_fresh: "inv s \<Longrightarrow> admissible sz s \<Longrightarrow> alloc sz s = Inr (p, s') \<Longrightarrow> k + 4 \<le> unat sz \<Longrightarrow> peek s' p k = 0"
    and peek_release: "inv s \<Longrightarrow> admissible 1 s \<Longrightarrow> (p, m) \<in> live s \<Longrightarrow> release p s = Inr s' \<Longrightarrow>
      (q, n) \<in> live s \<Longrightarrow> k + 4 \<le> n \<Longrightarrow> p \<noteq> q \<Longrightarrow> peek s' q k = peek s q k"

section \<open>The kernel heap provides it\<close>

definition obj_inv :: "'s heap_scheme \<Rightarrow> bool" where
  "obj_inv s \<longleftrightarrow> heap_inv s \<and> 4 \<le> unat (heap_begin s)"

lemma live_block:
  assumes "heap_inv s" and "(q, n) \<in> live_blocks s"
  obtains bs i where "heap_ok s bs" "i < length bs" "snd (bs ! i)" "n = fst (bs ! i)"
    "unat q = block_addr (unat (heap_begin s)) bs i + 8" "q = of_nat (block_addr (unat (heap_begin s)) bs i) + 8"
    "unat q + n + 4 \<le> unat (last_alloc s)"
proof -
  obtain bs where ok: "heap_ok s bs" using assms(1) by (auto simp: heap_inv_def)
  from assms(2) live_blocks_eq [OF ok] obtain i where
    i: "i < length bs" "snd (bs ! i)" "payload (unat (heap_begin s)) bs i = (q, n)"
    by (auto simp: payloads_def used_def)
  then have q: "q = of_nat (block_addr (unat (heap_begin s)) bs i) + 8" "n = fst (bs ! i)" by (simp_all add: payload_def)
  show thesis
  proof (rule that [OF ok i(1,2) q(2) _ q(1)])
    show "unat q = block_addr (unat (heap_begin s)) bs i + 8" using unat_payload [OF ok i(1)] q(1) by simp
    then show "unat q + n + 4 \<le> unat (last_alloc s)" using unat_block_addr(2) [OF ok i(1)] q(2) by simp
  qed
qed

lemma live_range:
  assumes "heap_inv s" and "(q, n) \<in> live_blocks s" and "unat q \<le> unat a" and "unat a < unat q + n"
  shows "\<not> in_window (framebuffer_addr s) a" and "unat q + n < 2 ^ 32" and "unat (heap_begin s) + 8 \<le> unat q"
proof -
  from live_block [OF assms(1,2)] obtain bs i where b: "heap_ok s bs"
    "unat q = block_addr (unat (heap_begin s)) bs i + 8" "unat q + n + 4 \<le> unat (last_alloc s)" by metis
  then show "unat (heap_begin s) + 8 \<le> unat q" using block_addr_ge [of "unat (heap_begin s)" bs i] by simp
  then show "\<not> in_window (framebuffer_addr s) a" "unat q + n < 2 ^ 32"
    using b assms(3,4) unat_u32_le [of "last_alloc s"] by (simp_all add: heap_ok_def)
qed

lemma field_offset:
  fixes q a :: u32
  assumes "unat q + n < 2 ^ 32" and "k + 4 \<le> n" and "a - (q + of_nat k) < 4"
  shows "unat q + k \<le> unat a" and "unat a < unat q + k + 4"
proof -
  have "unat (of_nat k :: u32) = k" using assms(1,2) by (intro unat_of_nat_u32) simp
  then have qk: "unat (q + of_nat k) = unat q + k" using assms(1,2) by (simp add: unat_word_ariths)
  have "unat (a - (q + of_nat k)) < 4" using assms(3) by (simp add: word_less_nat_alt)
  then show "unat q + k \<le> unat a" "unat a < unat q + k + 4"
    using qk assms(1,2) by (auto simp: unat_sub_if_size word_size split: if_splits)
qed

lemma heap_ok_write:
  assumes "heap_ok s bs" and "\<And>x. x \<in> headers (unat (heap_begin s)) bs \<Longrightarrow> m (of_nat x) = mem s (of_nat x)"
  shows "heap_ok (s\<lparr>mem := m\<rparr>) bs"
proof -
  have "blocks_at m (unat (heap_begin s)) bs = blocks_at (mem s) (unat (heap_begin s)) bs"
    using assms(2) by (rule blocks_at_cong)
  then show ?thesis using assms(1) by (simp add: heap_ok_def)
qed

lemma live_blocks_write:
  assumes "heap_ok s bs" and "heap_ok (s\<lparr>mem := m\<rparr>) bs"
  shows "heap_inv (s\<lparr>mem := m\<rparr>) \<and> live_blocks (s\<lparr>mem := m\<rparr>) = live_blocks s"
  using live_blocks_eq [OF assms(1)] live_blocks_eq [OF assms(2)] assms(2) by (auto simp: heap_inv_def)

lemma set_field_live:
  fixes s :: "'s heap_scheme"
  assumes "heap_inv s" and "(q, n) \<in> live_blocks s" and "k + 4 \<le> n"
  shows "heap_inv (set_field q k v s) \<and> live_blocks (set_field q k v s) = live_blocks s"
proof -
  from live_block [OF assms(1,2)] obtain bs i where b: "heap_ok s bs" "i < length bs" "n = fst (bs ! i)"
    "unat q = block_addr (unat (heap_begin s)) bs i + 8" "unat q + n + 4 \<le> unat (last_alloc s)" by metis
  have "heap_ok (s\<lparr>mem := store32 (mem s) (q + of_nat k) v\<rparr>) bs"
  proof (rule heap_ok_write [OF b(1)], rule store32_outside, rule notI)
    fix x assume x: "x \<in> headers (unat (heap_begin s)) bs" and "of_nat x - (q + of_nat k) < (4 :: u32)"
    moreover have "unat (of_nat x :: u32) = x" using heap_bytes_nat(1) [OF b(1) x] by (rule unat_of_nat_u32)
    ultimately have "unat q + k \<le> x" "x < unat q + k + 4"
      using field_offset [of q n k "of_nat x"] assms(3) b(5) unat_u32_le [of "last_alloc s"] by auto
    then show False using payload_not_header [OF b(2), of "unat (heap_begin s)" x] x b(3,4) assms(3) by simp
  qed
  then show ?thesis using live_blocks_write [OF b(1)] by (simp add: set_field_def)
qed

lemma block_addr_header: "i < length bs \<Longrightarrow> block_addr a bs i \<in> headers a bs"
proof (induction bs arbitrary: a i)
  case (Cons b bs)
  then show ?case by (cases i) auto
qed simp

lemma blocks_at_pos: "blocks_at m a bs \<Longrightarrow> i < length bs \<Longrightarrow> 0 < fst (bs ! i)"
proof (induction bs arbitrary: a i)
  case (Cons b bs)
  then show ?case by (cases i) fastforce+
qed simp

lemma field_cong:
  assumes "unat q + n < 2 ^ 32" and "k + 4 \<le> n"
    and "\<And>a. unat q + k \<le> unat a \<Longrightarrow> unat a < unat q + k + 4 \<Longrightarrow> mem s' a = mem s a"
  shows "field s' q k = field s q k"
  unfolding field_def using field_offset [OF assms(1,2)] assms(3) by (intro load32_cong) auto

lemma malloc_result:
  fixes s :: "'s heap_scheme"
  assumes "heap_inv s" and "request_ok sz s" and "malloc sz s = Inr (p, s')"
  shows "zeroed p sz s'" and "heap_begin s' = heap_begin s"
proof -
  obtain bs where ok: "heap_ok s bs" using assms(1) by (auto simp: heap_inv_def)
  have req: "calm s" "sz \<noteq> 0" "unat (last_alloc s) + unat sz + 8 < 2 ^ 32" using assms(2) by (auto simp: request_ok_def)
  from malloc_ok [OF ok req] assms(3) show "zeroed p sz s'" "heap_begin s' = heap_begin s"
    by (auto simp: heap_vars_same_def split: option.splits)
qed

lemma free_bytes:
  fixes s :: "'s heap_scheme"
  assumes "heap_inv s" and "request_ok 1 s" and "(p, m) \<in> live_blocks s" and "free p s = Inr s'"
    and "(q, n) \<in> live_blocks s" and "unat q \<le> unat a" and "unat a < unat q + n"
  shows "mem s' a = mem s a" and "heap_begin s' = heap_begin s"
proof -
  from live_block [OF assms(1,3)] obtain bs i where b: "heap_ok s bs" "i < length bs" "snd (bs ! i)"
    "p = of_nat (block_addr (unat (heap_begin s)) bs i) + 8" by metis
  let ?h = "of_nat (block_addr (unat (heap_begin s)) bs i) :: u32"
  from free_ok [OF b(1) _ b(2)] assms(2,4) b(4)
  have s': "only_changed ?h 1 s s'" "heap_begin s' = heap_begin s" by (auto simp: request_ok_def heap_vars_same_def)
  then show "heap_begin s' = heap_begin s" by simp
  from live_block [OF assms(1,5)] obtain cs j where c: "heap_ok s cs" "j < length cs" "n = fst (cs ! j)"
    "unat q = block_addr (unat (heap_begin s)) cs j + 8" by metis
  have cs: "cs = bs" by (rule heap_ok_unique [OF c(1) b(1)])
  have "block_addr (unat (heap_begin s)) bs i \<in> headers (unat (heap_begin s)) bs" using b(2) by (rule block_addr_header)
  then have "unat a \<noteq> unat ?h"
    using payload_not_header [OF c(2), of "unat (heap_begin s)" "unat a"] cs c(3,4) assms(6,7) unat_block_addr(1) [OF b(1,2)] by auto
  then have "\<not> a - ?h < 1" by auto
  then show "mem s' a = mem s a" using s'(1) live_range(1) [OF assms(1,5-7)] by (simp add: only_changed_def)
qed

lemma field_set_field_same: "field (set_field q k v s) q k = v"
  by (simp add: field_def set_field_def)

lemma field_set_field_far:
  assumes "unat p + m < 2 ^ 32" and "j + 4 \<le> m"
    and "\<And>a. unat p + j \<le> unat a \<Longrightarrow> unat a < unat p + j + 4 \<Longrightarrow> \<not> a - (q + of_nat k) < 4"
  shows "field (set_field q k v s) p j = field s p j"
  by (rule field_cong [OF assms(1,2)]) (use assms(3) in \<open>simp add: set_field_def store32_outside\<close>)

lemma set_field_null:
  assumes "obj_inv (s :: 's heap_scheme)"
  shows "heap_inv (set_field 0 0 v s) \<and> live_blocks (set_field 0 0 v s) = live_blocks s"
proof -
  obtain bs where ok: "heap_ok s bs" using assms by (auto simp: obj_inv_def heap_inv_def)
  have "heap_ok (s\<lparr>mem := store32 (mem s) 0 v\<rparr>) bs"
  proof (rule heap_ok_write [OF ok], rule store32_outside, rule notI)
    fix x assume x: "x \<in> headers (unat (heap_begin s)) bs" and "of_nat x - 0 < (4 :: u32)"
    then have "x < 4" using heap_bytes_nat(1) [OF ok x] by (simp add: word_less_nat_alt unat_of_nat_u32)
    then show False using headers_range [OF x] assms by (simp add: obj_inv_def)
  qed
  then show ?thesis using live_blocks_write [OF ok] by (simp add: set_field_def)
qed

lemma live_pos:
  assumes "heap_inv s" and "(q, n) \<in> live_blocks s"
  shows "0 < n"
  using live_block [OF assms] by (metis heap_ok_def blocks_at_pos)

interpretation objs: object_heap malloc free request_ok obj_inv live_blocks field set_field
proof
  fix s s' :: "'a heap_scheme" and sz p
  assume "obj_inv s" "request_ok sz s" "malloc sz s = Inr (p, s')"
  then show "obj_inv s' \<and> (\<forall>k. (p, k) \<notin> live_blocks s) \<and> (\<exists>n. unat sz \<le> n \<and> live_blocks s' = insert (p, n) (live_blocks s))"
    using heap.alloc_law [of s sz p s'] malloc_result(2) [of s sz p s'] by (simp add: obj_inv_def)
next
  fix s s' :: "'a heap_scheme" and p n
  assume a: "obj_inv s" "request_ok 1 s" "(p, n) \<in> live_blocks s" "free p s = Inr s'"
  have h: "heap_inv s" using a(1) by (simp add: obj_inv_def)
  have "0 < n" by (rule live_pos [OF h a(3)])
  then have "heap_begin s' = heap_begin s" using free_bytes(2) [OF h a(2-4) a(3), of p] by simp
  then show "obj_inv s' \<and> live_blocks s' = live_blocks s - {(p, n)}"
    using heap.release_law [OF h a(2-4)] a(1) by (simp add: obj_inv_def)
next
  fix s :: "'a heap_scheme" and p n k
  assume "obj_inv s" "(p, n) \<in> live_blocks s" "(p, k) \<in> live_blocks s"
  then show "n = k" using heap.functional by (auto simp: obj_inv_def)
next
  fix s :: "'a heap_scheme" and p n q k
  assume "obj_inv s" "(p, n) \<in> live_blocks s" "(q, k) \<in> live_blocks s" "p \<noteq> q"
  then show "unat p + n \<le> unat q \<or> unat q + k \<le> unat p" using heap.disjoint [of s p n q k] by (simp add: obj_inv_def)
next
  fix s :: "'a heap_scheme" and q n
  assume "obj_inv s" and live: "(q, n) \<in> live_blocks s"
  then have h: "heap_inv s" by (simp add: obj_inv_def)
  show "q \<noteq> 0" using live_range(3) [OF h live, of q] live_pos [OF h live] by auto
next
  fix s :: "'a heap_scheme" and q n k v
  assume "obj_inv s" "(q, n) \<in> live_blocks s" "k + 4 \<le> n"
  then show "obj_inv (set_field q k v s) \<and> live_blocks (set_field q k v s) = live_blocks s"
    using set_field_live [of s q n k v] by (simp add: obj_inv_def set_field_def)
next
  fix s :: "'a heap_scheme" and q k v
  show "field (set_field q k v s) q k = v" by (rule field_set_field_same)
next
  fix s :: "'a heap_scheme" and q n k p m j v
  assume a: "obj_inv s" "(q, n) \<in> live_blocks s" "k + 4 \<le> n" "(p, m) \<in> live_blocks s" "j + 4 \<le> m"
    "p \<noteq> q \<or> k + 4 \<le> j \<or> j + 4 \<le> k"
  have h: "heap_inv s" using a(1) by (simp add: obj_inv_def)
  have q: "unat q + n < 2 ^ 32" and p: "unat p + m < 2 ^ 32"
    using live_range(2) [OF h a(2), of q] live_range(2) [OF h a(4), of p] a(3,5) by simp_all
  show "field (set_field q k v s) p j = field s p j"
  proof (rule field_set_field_far [OF p a(5)], rule notI)
    fix x :: u32 assume x: "unat p + j \<le> unat x" "unat x < unat p + j + 4" and y: "x - (q + of_nat k) < 4"
    note y = field_offset [OF q a(3) y]
    show False
    proof (cases "p = q")
      case True
      then have "m = n" using heap.functional [OF h a(4)] a(2) by blast
      then show ?thesis using True x y a(6) by auto
    next
      case False
      then show ?thesis using heap.disjoint [OF h a(4,2) False] x y a(3,5) by auto
    qed
  qed
next
  fix s :: "'a heap_scheme" and v
  assume "obj_inv s"
  then show "obj_inv (set_field 0 0 v s) \<and> live_blocks (set_field 0 0 v s) = live_blocks s"
    using set_field_null [of s v] by (simp add: obj_inv_def set_field_def)
next
  fix s :: "'a heap_scheme" and p m j v
  assume a: "obj_inv s" "(p, m) \<in> live_blocks s" "j + 4 \<le> m"
  have h: "heap_inv s" using a(1) by (simp add: obj_inv_def)
  have p: "unat p + m < 2 ^ 32" "8 \<le> unat p" using live_range(2,3) [OF h a(2), of p] a(3) by simp_all
  show "field (set_field 0 0 v s) p j = field s p j"
    by (rule field_set_field_far [OF p(1) a(3)]) (use p(2) in \<open>simp add: word_less_nat_alt\<close>)
next
  fix s s' :: "'a heap_scheme" and sz p q n k
  assume a: "obj_inv s" "request_ok sz s" "malloc sz s = Inr (p, s')" "(q, n) \<in> live_blocks s" "k + 4 \<le> n"
  have h: "heap_inv s" using a(1) by (simp add: obj_inv_def)
  have "unat q + n < 2 ^ 32" using live_range(2) [OF h a(4), of q] a(5) by simp
  then show "field s' q k = field s q k"
    by (rule field_cong [OF _ a(5)]) (use malloc_live_bytes [OF h a(2-4)] a(5) in simp)
next
  fix s s' :: "'a heap_scheme" and sz p k
  assume a: "obj_inv s" "request_ok sz s" "malloc sz s = Inr (p, s')" "k + 4 \<le> unat sz"
  have h: "heap_inv s" using a(1) by (simp add: obj_inv_def)
  have z: "zeroed p sz s'" by (rule malloc_result(1) [OF h a(2,3)])
  have "mem s' (p + of_nat j) = 0" if "j < k + 4" for j
  proof -
    have "unat (of_nat j :: u32) = j" using that a(4) unat_u32_le [of sz] by (intro unat_of_nat_u32) simp
    then have "p + of_nat j - p < sz" using that a(4) by (simp add: word_less_nat_alt)
    then show ?thesis using z by (simp add: zeroed_def)
  qed
  from this [of k] this [of "k + 1"] this [of "k + 2"] this [of "k + 3"]
  show "field s' p k = 0" by (simp add: field_def load32_def add.commute add.left_commute)
next
  fix s s' :: "'a heap_scheme" and p m q n k
  assume a: "obj_inv s" "request_ok 1 s" "(p, m) \<in> live_blocks s" "free p s = Inr s'" "(q, n) \<in> live_blocks s"
    "k + 4 \<le> n" "p \<noteq> q"
  have h: "heap_inv s" using a(1) by (simp add: obj_inv_def)
  have "unat q + n < 2 ^ 32" using live_range(2) [OF h a(5), of q] a(6) by simp
  then show "field s' q k = field s q k"
    by (rule field_cong [OF _ a(6)]) (use free_bytes(1) [OF h a(2-5)] a(6) in simp)
qed

section \<open>Objects of any size\<close>

definition sized :: "nat \<Rightarrow> (u32 \<times> nat) set \<Rightarrow> u32 \<Rightarrow> bool" where
  "sized N L a \<longleftrightarrow> (\<exists>n \<ge> N. (a, n) \<in> L)"

definition slot :: "nat \<Rightarrow> nat \<Rightarrow> bool" where
  "slot N k \<longleftrightarrow> 4 dvd k \<and> k + 4 \<le> N"

lemma slot_numeral [simp]: "slot (numeral n) (numeral k) \<longleftrightarrow> (4::nat) dvd numeral k \<and> numeral k + 4 \<le> (numeral n :: nat)"
  "slot (numeral n) 0 \<longleftrightarrow> 4 \<le> (numeral n :: nat)"
  by (simp_all add: slot_def)

context object_heap
begin

lemma sized_poke:
  assumes "inv s" and "sized N (live s) q" and "slot N k"
  shows "inv (poke q k v s)" and "live (poke q k v s) = live s"
  using assms poke_law [of s q _ k v] unfolding sized_def slot_def by (fastforce, fastforce)

lemma sized_peek_poke:
  assumes "inv s" and "sized N (live s) q" and "sized M (live s) p" and "slot N k" and "slot M j"
  shows "peek (poke q k v s) p j = (if p = q \<and> j = k then v else peek s p j)"
proof (cases "p = q \<and> j = k")
  case False
  obtain n m where "(q, n) \<in> live s" "N \<le> n" "(p, m) \<in> live s" "M \<le> m"
    using assms(2,3) by (auto simp: sized_def)
  moreover have "p \<noteq> q \<or> k + 4 \<le> j \<or> j + 4 \<le> k"
  proof (cases "p = q")
    case True
    then have "j \<noteq> k" using False by simp
    then show ?thesis using assms(4,5) by (auto simp: slot_def dvd_def)
  qed simp
  ultimately show ?thesis using peek_poke_other [OF assms(1), of q n k p m j v] False assms(4,5) by (auto simp: slot_def)
qed (simp add: peek_poke_same)

lemma sized_alloc:
  assumes "inv s" and "admissible sz s" and "alloc sz s = Inr (p, s')"
  shows "inv s'" and "sized (unat sz) (live s') p" and "\<not> sized N (live s) p"
    and "sized N (live s) a \<Longrightarrow> sized N (live s') a"
    and "sized N (live s) a \<Longrightarrow> slot N k \<Longrightarrow> peek s' a k = peek s a k"
    and "slot (unat sz) k \<Longrightarrow> peek s' p k = 0"
proof -
  from alloc_law [OF assms] obtain n where n: "inv s'" "\<forall>k. (p, k) \<notin> live s" "unat sz \<le> n" "live s' = insert (p, n) (live s)"
    by auto
  then show "inv s'" "sized (unat sz) (live s') p" "\<not> sized N (live s) p" "sized N (live s) a \<Longrightarrow> sized N (live s') a"
    by (auto simp: sized_def)
  show "peek s' a k = peek s a k" if "sized N (live s) a" "slot N k"
    using that peek_alloc [OF assms] by (fastforce simp: sized_def slot_def)
  show "peek s' p k = 0" if "slot (unat sz) k"
    using that peek_fresh [OF assms, of k] by (auto simp: slot_def)
qed

lemma sized_nonnull: "inv s \<Longrightarrow> sized N (live s) a \<Longrightarrow> a \<noteq> 0"
  using live_nonnull by (auto simp: sized_def)

end

end
