(* ===== verification/Klist.thy ===== *)
theory Klist
  imports Objects
begin

text \<open>
  The generic doubly linked list, \<^verbatim>\<open>src/src/lib/list.c\<close>, whose header and nodes are heap
  objects. \<open>list_ok s l xs\<close> says that the list object \<open>l\<close> holds the nodes and values \<open>xs\<close>; the
  theorems give each operation as an operation on that list, and the case where the code
  leaves a list that is none: removing the last element through the front.
\<close>

section \<open>Layout\<close>

text \<open>The fields of \<^verbatim>\<open>listnode_t\<close> and of \<^verbatim>\<open>list_t\<close>, both of 12 bytes.\<close>

abbreviation (input) node_prev :: "'s machine_scheme \<Rightarrow> u32 \<Rightarrow> u32" where "node_prev s t \<equiv> field s t 0"
abbreviation (input) node_next :: "'s machine_scheme \<Rightarrow> u32 \<Rightarrow> u32" where "node_next s t \<equiv> field s t 4"
abbreviation (input) node_val :: "'s machine_scheme \<Rightarrow> u32 \<Rightarrow> u32" where "node_val s t \<equiv> field s t 8"
abbreviation (input) list_head :: "'s machine_scheme \<Rightarrow> u32 \<Rightarrow> u32" where "list_head s l \<equiv> field s l 0"
abbreviation (input) list_tail :: "'s machine_scheme \<Rightarrow> u32 \<Rightarrow> u32" where "list_tail s l \<equiv> field s l 4"
abbreviation (input) sizeof_listnode :: u32 where "sizeof_listnode \<equiv> 12"
abbreviation (input) sizeof_list :: u32 where "sizeof_list \<equiv> 12"

section \<open>Operations\<close>

definition list_create :: "'s heap_scheme \<Rightarrow> (u32 \<times> 's heap_scheme) res" where
  "list_create s = kcalloc sizeof_list 1 s"

definition list_size :: "u32 \<Rightarrow> 's machine_scheme \<Rightarrow> u32" where
  "list_size l s = (if l = 0 then 0 else field s l 8)"

definition list_remove_front :: "u32 \<Rightarrow> 's heap_scheme \<Rightarrow> (u32 \<times> 's heap_scheme) res" where
  "list_remove_front l s =
     (if list_head s l = 0 then Inr (0, s)
      else let t = list_head s l;
               v = node_val s t;
               s1 = set_field l 0 (node_next s t) s;
               s2 = (if list_head s1 l \<noteq> 0 then set_field (list_head s1 l) 0 0 s1 else s1)
           in bindE (kfree t s2) (\<lambda>s3. Inr (v, set_field l 8 (field s3 l 8 - 1) s3)))"

definition list_remove_back :: "u32 \<Rightarrow> 's heap_scheme \<Rightarrow> (u32 \<times> 's heap_scheme) res" where
  "list_remove_back l s =
     (if list_head s l = 0 then Inr (0, s)
      else let t = list_tail s l;
               v = node_val s t;
               s1 = set_field l 4 (node_prev s t) s;
               s2 = (if list_tail s1 l \<noteq> 0 then set_field (list_tail s1 l) 4 0 s1 else s1)
           in bindE (kfree t s2) (\<lambda>s3. Inr (v, set_field l 8 (field s3 l 8 - 1) s3)))"

definition list_remove_node :: "u32 \<Rightarrow> u32 \<Rightarrow> 's heap_scheme \<Rightarrow> (u32 \<times> 's heap_scheme) res" where
  "list_remove_node l node s =
     (let v = node_val s node
      in if list_head s l = node then list_remove_front l s
         else if list_tail s l = node then list_remove_back l s
         else let s1 = set_field (node_next s node) 0 (node_prev s node) s;
                  s2 = set_field (node_prev s1 node) 4 (node_next s1 node) s1;
                  s3 = set_field l 8 (field s2 l 8 - 1) s2
              in bindE (kfree node s3) (\<lambda>s4. Inr (v, s4)))"

definition list_insert_front :: "u32 \<Rightarrow> u32 \<Rightarrow> 's heap_scheme \<Rightarrow> (u32 \<times> 's heap_scheme) res" where
  "list_insert_front l v s =
     bindE (kcalloc sizeof_listnode 1 s) (\<lambda>(t, s0).
       let s1 = set_field (list_head s0 l) 0 t s0;
           s2 = set_field t 4 (list_head s1 l) s1;
           s3 = set_field t 8 v s2;
           s4 = (if list_head s3 l = 0 then set_field l 4 t s3 else s3);
           s5 = set_field l 0 t s4
       in Inr (t, set_field l 8 (field s5 l 8 + 1) s5))"

definition list_insert_back :: "u32 \<Rightarrow> u32 \<Rightarrow> 's heap_scheme \<Rightarrow> 's heap_scheme res" where
  "list_insert_back l v s =
     bindE (kcalloc sizeof_listnode 1 s) (\<lambda>(t, s0).
       let s1 = set_field t 0 (list_tail s0 l) s0;
           s2 = (if list_tail s1 l \<noteq> 0 then set_field (list_tail s1 l) 4 t s1 else s1);
           s3 = set_field t 8 v s2;
           s4 = (if list_head s3 l = 0 then set_field l 0 t s3 else s3);
           s5 = set_field l 4 t s4
       in Inr (set_field l 8 (field s5 l 8 + 1) s5))"

definition list_push :: "u32 \<Rightarrow> u32 \<Rightarrow> 's heap_scheme \<Rightarrow> 's heap_scheme res" where
  "list_push l v s = list_insert_back l v s"

definition list_pop :: "u32 \<Rightarrow> 's machine_scheme \<Rightarrow> u32 \<times> 's machine_scheme" where
  "list_pop l s =
     (if list_head s l = 0 then (0, s)
      else let t = list_tail s l;
               s1 = set_field l 4 (node_prev s t) s;
               s2 = (if list_tail s1 l \<noteq> 0 then set_field (list_tail s1 l) 4 0 s1 else s1)
           in (t, set_field l 8 (field s2 l 8 - 1) s2))"

definition list_enqueue :: "u32 \<Rightarrow> u32 \<Rightarrow> 's heap_scheme \<Rightarrow> 's heap_scheme res" where
  "list_enqueue l v s = bindE (list_insert_front l v s) (\<lambda>(_, s1). Inr s1)"

definition list_dequeue :: "u32 \<Rightarrow> 's machine_scheme \<Rightarrow> u32 \<times> 's machine_scheme" where
  "list_dequeue l s = list_pop l s"

definition list_peek_front :: "u32 \<Rightarrow> 's machine_scheme \<Rightarrow> u32" where
  "list_peek_front l s = (if list_head s l = 0 then 0 else node_val s (list_head s l))"

definition list_peek_back :: "u32 \<Rightarrow> 's machine_scheme \<Rightarrow> u32" where
  "list_peek_back l s = (if list_tail s l = 0 then 0 else node_val s (list_tail s l))"

text \<open>The two \<^verbatim>\<open>foreach\<close> loops follow the \<^verbatim>\<open>next\<close> links until NULL; on a cyclic list they do not return.\<close>

partial_function (option) contain_loop :: "'s machine_scheme \<Rightarrow> u32 \<Rightarrow> u32 \<Rightarrow> u32 \<Rightarrow> u32 option" where
  "contain_loop s v t idx =
     (if t = 0 then Some (- 1)
      else if node_val s t = v then Some idx
      else contain_loop s v (node_next s t) (idx + 1))"

definition list_contain :: "u32 \<Rightarrow> u32 \<Rightarrow> 's machine_scheme \<Rightarrow> u32 option" where
  "list_contain l v s = contain_loop s v (list_head s l) 0"

partial_function (option) node_loop :: "'s machine_scheme \<Rightarrow> u32 \<Rightarrow> u32 \<Rightarrow> u32 \<Rightarrow> u32 option" where
  "node_loop s index t cur =
     (if t = 0 then Some 0
      else if index = cur then Some t
      else node_loop s index (node_next s t) (cur + 1))"

definition list_get_node_by_index :: "u32 \<Rightarrow> u32 \<Rightarrow> 's machine_scheme \<Rightarrow> u32 option" where
  "list_get_node_by_index l index s =
     (if sint index < 0 \<or> sint (list_size l s) \<le> sint index then Some 0
      else node_loop s index (list_head s l) 0)"

definition list_remove_by_index :: "u32 \<Rightarrow> u32 \<Rightarrow> 's heap_scheme \<Rightarrow> (u32 \<times> 's heap_scheme) res" where
  "list_remove_by_index l index s =
     bindE (returns (list_get_node_by_index l index s)) (\<lambda>node. list_remove_node l node s)"

partial_function (option) destroy_loop :: "u32 \<Rightarrow> 's heap_scheme \<Rightarrow> 's heap_scheme res option" where
  "destroy_loop node s =
     (if node = 0 then Some (Inr s)
      else (case kfree node s of
              Inl e \<Rightarrow> Some (Inl e)
            | Inr s1 \<Rightarrow> destroy_loop (node_next s node) s1))"

definition list_destroy :: "u32 \<Rightarrow> 's heap_scheme \<Rightarrow> 's heap_scheme res" where
  "list_destroy l s = bindE (returns (destroy_loop (list_head s l) s)) (\<lambda>r. bindE r (kfree l))"

definition listnode_destroy :: "u32 \<Rightarrow> 's heap_scheme \<Rightarrow> 's heap_scheme res" where
  "listnode_destroy node s = kfree node s"

section \<open>Doubly linked lists\<close>

text \<open>
  \<open>links f p ns z\<close>: read through \<open>f\<close>, the nodes \<open>ns\<close> are linked in both directions, the first
  one back to \<open>p\<close> and the last one on to \<open>z\<close>. \<open>dlist f l xs\<close>: the list object \<open>l\<close> holds the
  nodes and values \<open>xs\<close>.
\<close>

fun links :: "(u32 \<Rightarrow> nat \<Rightarrow> u32) \<Rightarrow> u32 \<Rightarrow> u32 list \<Rightarrow> u32 \<Rightarrow> bool" where
  "links f p [] z = True"
| "links f p (x # xs) z = (f x 0 = p \<and> f x 4 = (case xs of [] \<Rightarrow> z | y # _ \<Rightarrow> y) \<and> links f x xs z)"

definition first_node :: "(u32 \<times> u32) list \<Rightarrow> u32" where
  "first_node xs = (case xs of [] \<Rightarrow> 0 | x # _ \<Rightarrow> fst x)"

definition last_node :: "(u32 \<times> u32) list \<Rightarrow> u32" where
  "last_node xs = first_node (rev xs)"

definition dlist :: "(u32 \<Rightarrow> nat \<Rightarrow> u32) \<Rightarrow> u32 \<Rightarrow> (u32 \<times> u32) list \<Rightarrow> bool" where
  "dlist f l xs \<longleftrightarrow>
     f l 0 = first_node xs \<and> f l 4 = last_node xs \<and> f l 8 = of_nat (length xs) \<and>
     links f 0 (map fst xs) 0 \<and> (\<forall>x \<in> set xs. f (fst x) 8 = snd x) \<and>
     distinct (l # map fst xs) \<and> 0 \<notin> set (map fst xs)"

lemma first_node_simps [simp]: "first_node [] = 0" "first_node (x # xs) = fst x"
  by (simp_all add: first_node_def)

lemma last_node_simps [simp]: "last_node [] = 0" "last_node (xs @ [x]) = fst x" "last_node [x] = fst x"
  by (simp_all add: last_node_def)

lemma links_append:
  "links f p (xs @ ys) z \<longleftrightarrow> links f p xs (case ys of [] \<Rightarrow> z | y # _ \<Rightarrow> y) \<and> links f (last (p # xs)) ys z"
proof (induction xs arbitrary: p)
  case (Cons x xs)
  then show ?case by (cases xs; cases ys) auto
qed simp

lemma links_cong:
  "(\<And>x. x \<in> set ns \<Longrightarrow> f x 0 = g x 0 \<and> f x 4 = g x 4) \<Longrightarrow> links f p ns z = links g p ns z"
  by (induction ns arbitrary: p) auto

lemma dlist_append:
  assumes "dlist f l xs" and "p \<noteq> 0" "p \<noteq> l" "p \<notin> set (map fst xs)"
    and p: "g p 0 = last_node xs" "g p 4 = 0" "g p 8 = v"
    and l: "g l 0 = (if xs = [] then p else f l 0)" "g l 4 = p" "g l 8 = f l 8 + 1"
    and ns: "\<And>a. a \<in> set (map fst xs) \<Longrightarrow>
      g a 0 = f a 0 \<and> g a 4 = (if a = last_node xs then p else f a 4) \<and> g a 8 = f a 8"
  shows "dlist g l (xs @ [(p, v)])"
proof (cases xs rule: rev_cases)
  case Nil
  then show ?thesis using assms by (simp add: dlist_def)
next
  case (snoc ys y)
  have nys: "fst y \<notin> set (map fst ys)" using assms(1) snoc by (auto simp: dlist_def)
  have "links f 0 (map fst ys) (fst y)" "links f (last (0 # map fst ys)) [fst y] 0"
    using assms(1) snoc links_append [of f 0 "map fst ys" "[fst y]" 0] by (simp_all add: dlist_def)
  moreover have "links g 0 (map fst ys) (fst y) = links f 0 (map fst ys) (fst y)"
    by (rule links_cong) (use ns nys snoc in \<open>force simp: image_iff\<close>)
  ultimately have "links g 0 (map fst ys @ [fst y, p]) 0"
    using ns [of "fst y"] p snoc by (simp add: links_append)
  moreover have "first_node (ys @ [y, (p, v)]) = first_node xs" using snoc by (cases ys) auto
  moreover have "last_node (ys @ [y, (p, v)]) = p" by (simp add: last_node_def)
  moreover have "g (fst x) 8 = snd x" if "x \<in> set xs" for x
    using assms(1) ns [of "fst x"] that by (simp add: dlist_def)
  ultimately show ?thesis using assms(1-4) p(3) l snoc unfolding dlist_def by auto
qed

lemma dlist_prepend:
  assumes "dlist f l xs" and "p \<noteq> 0" "p \<noteq> l" "p \<notin> set (map fst xs)"
    and p: "g p 0 = 0" "g p 4 = first_node xs" "g p 8 = v"
    and l: "g l 0 = p" "g l 4 = (if xs = [] then p else f l 4)" "g l 8 = f l 8 + 1"
    and ns: "\<And>a. a \<in> set (map fst xs) \<Longrightarrow>
      g a 0 = (if a = first_node xs then p else f a 0) \<and> g a 4 = f a 4 \<and> g a 8 = f a 8"
  shows "dlist g l ((p, v) # xs)"
proof (cases xs)
  case Nil
  then show ?thesis using assms by (simp add: dlist_def)
next
  case (Cons y ys)
  have nys: "fst y \<notin> set (map fst ys)" using assms(1) Cons by (auto simp: dlist_def)
  have "links f (fst y) (map fst ys) 0" "f (fst y) 4 = (case map fst ys of [] \<Rightarrow> 0 | a # _ \<Rightarrow> a)"
    using assms(1) Cons by (simp_all add: dlist_def)
  moreover have "links g (fst y) (map fst ys) 0 = links f (fst y) (map fst ys) 0"
    by (rule links_cong) (use ns nys Cons in \<open>force simp: image_iff\<close>)
  ultimately have "links g 0 (p # map fst xs) 0"
    using ns [of "fst y"] p Cons by simp
  moreover have "last_node ((p, v) # xs) = last_node xs" using Cons by (cases ys rule: rev_cases) (auto simp: last_node_def)
  moreover have "g (fst x) 8 = snd x" if "x \<in> set xs" for x
    using assms(1) ns [of "fst x"] that by (simp add: dlist_def)
  ultimately show ?thesis using assms(1-4) p(3) l Cons unfolding dlist_def by auto
qed

lemma last_last_node: "xs \<noteq> [] \<Longrightarrow> last (p # map fst xs) = last_node xs"
  by (cases xs rule: rev_cases) auto

lemma first_node_append: "first_node (xs @ ys) = (if xs = [] then first_node ys else first_node xs)"
  by (cases xs) auto

lemma last_node_append: "last_node (xs @ ys) = (if ys = [] then last_node xs else last_node ys)"
  by (simp add: last_node_def first_node_append)

lemma first_node_in: "xs \<noteq> [] \<Longrightarrow> first_node xs \<in> set (map fst xs)"
  by (cases xs) auto

lemma last_node_in: "xs \<noteq> [] \<Longrightarrow> last_node xs \<in> set (map fst xs)"
  by (cases xs rule: rev_cases) auto

lemma last_map_fst: "last (0 # map fst xs) = last_node xs"
  by (cases xs rule: rev_cases) auto

lemma case_first_node: "(case map fst xs of [] \<Rightarrow> 0 | y # _ \<Rightarrow> y) = first_node xs"
  by (cases xs) auto

lemma links_relink_back:
  "links f p ns z \<Longrightarrow> distinct ns \<Longrightarrow> (\<And>a. a \<in> set ns \<Longrightarrow> g a 0 = f a 0) \<Longrightarrow>
   (\<And>a. a \<in> set ns \<Longrightarrow> g a 4 = (if a = last ns then z' else f a 4)) \<Longrightarrow> links g p ns z'"
proof (induction ns arbitrary: p)
  case (Cons x xs)
  then have IH: "links g x xs z'" by (cases xs) auto
  show ?case using IH Cons.prems by (cases xs) auto
qed simp

lemma links_relink_front:
  "links f p ns z \<Longrightarrow> distinct ns \<Longrightarrow> (\<And>a. a \<in> set ns \<Longrightarrow> g a 4 = f a 4) \<Longrightarrow>
   (\<And>a. a \<in> set ns \<Longrightarrow> g a 0 = (if a = hd ns then p' else f a 0)) \<Longrightarrow> links g p' ns z"
proof (cases ns)
  case (Cons x xs)
  assume a: "links f p ns z" "distinct ns" "\<And>a. a \<in> set ns \<Longrightarrow> g a 4 = f a 4"
    "\<And>a. a \<in> set ns \<Longrightarrow> g a 0 = (if a = hd ns then p' else f a 0)"
  have "links g x xs z = links f x xs z" by (rule links_cong) (use a Cons in auto)
  then show ?thesis using a Cons by simp
qed simp

lemma dlist_remove:
  assumes "dlist f l (ys @ x # zs)"
    and l: "g l 0 = (if ys = [] then first_node zs else f l 0)" "g l 4 = (if zs = [] then last_node ys else f l 4)"
      "g l 8 = f l 8 - 1"
    and ns: "\<And>a. a \<in> set (map fst ys) \<union> set (map fst zs) \<Longrightarrow>
      g a 0 = (if zs \<noteq> [] \<and> a = first_node zs then last_node ys else f a 0) \<and>
      g a 4 = (if ys \<noteq> [] \<and> a = last_node ys then first_node zs else f a 4) \<and> g a 8 = f a 8"
  shows "dlist g l (ys @ zs)"
proof -
  have dist: "distinct (map fst ys)" "distinct (map fst zs)" "set (map fst ys) \<inter> set (map fst zs) = {}"
    using assms(1) by (auto simp: dlist_def)
  have lf: "links f 0 (map fst ys) (fst x)" "links f (fst x) (map fst zs) 0"
    using assms(1) links_append [of f 0 "map fst ys" "fst x # map fst zs" 0] by (auto simp: dlist_def)
  have "links g 0 (map fst ys) (first_node zs)"
  proof (rule links_relink_back [OF lf(1) dist(1)])
    fix a assume a: "a \<in> set (map fst ys)"
    then have "ys \<noteq> []" "zs = [] \<or> a \<noteq> first_node zs" using dist(3) first_node_in [of zs] by (auto simp del: set_map)
    then show "g a 0 = f a 0" "g a 4 = (if a = last (map fst ys) then first_node zs else f a 4)"
      using ns [of a] a last_last_node [of ys 0] by auto
  qed
  moreover have "links g (last_node ys) (map fst zs) 0"
  proof (rule links_relink_front [OF lf(2) dist(2)])
    fix a assume a: "a \<in> set (map fst zs)"
    then have z: "zs \<noteq> []" "ys = [] \<or> a \<noteq> last_node ys" using dist(3) last_node_in [of ys] by (auto simp del: set_map)
    then have "hd (map fst zs) = first_node zs" by (cases zs) auto
    then show "g a 4 = f a 4" "g a 0 = (if a = hd (map fst zs) then last_node ys else f a 0)"
      using ns [of a] a z by auto
  qed
  ultimately have "links g 0 (map fst ys @ map fst zs) 0"
    by (simp add: links_append last_map_fst case_first_node del: last.simps)
  moreover have "g (fst y) 8 = snd y" if "y \<in> set (ys @ zs)" for y
    using assms(1) ns [of "fst y"] that by (auto simp: dlist_def)
  ultimately show ?thesis
    using assms(1) l last_node_append [of "[x]" zs] by (auto simp: dlist_def first_node_append last_node_append)
qed

section \<open>Lists in an object heap\<close>

definition object :: "(u32 \<times> nat) set \<Rightarrow> u32 \<Rightarrow> bool" where
  "object L a \<longleftrightarrow> (\<exists>n \<ge> 12. (a, n) \<in> L)"

definition offset_ok :: "nat \<Rightarrow> bool" where
  "offset_ok k \<longleftrightarrow> k = 0 \<or> k = 4 \<or> k = 8"

lemma offset_ok_simps [simp]: "offset_ok 0" "offset_ok 4" "offset_ok 8"
  by (simp_all add: offset_ok_def)

text \<open>A list whose header and nodes are live objects of an object heap.\<close>

definition list_rep ::
  "('s \<Rightarrow> bool) \<Rightarrow> ('s \<Rightarrow> (u32 \<times> nat) set) \<Rightarrow> ('s \<Rightarrow> u32 \<Rightarrow> nat \<Rightarrow> u32) \<Rightarrow> 's \<Rightarrow> u32 \<Rightarrow> (u32 \<times> u32) list \<Rightarrow> bool" where
  "list_rep I live peek s l xs \<longleftrightarrow>
     I s \<and> dlist (peek s) l xs \<and> (\<forall>a \<in> set (l # map fst xs). object (live s) a)"

context object_heap
begin

lemma poke_object:
  assumes "inv s" and "object (live s) q" and "offset_ok k"
  shows "inv (poke q k v s)" and "live (poke q k v s) = live s"
  using assms poke_law [of s q _ k v] unfolding object_def offset_ok_def by (fastforce, fastforce)

lemma peek_poke_object:
  assumes "inv s" and "object (live s) q" and "object (live s) p" and "offset_ok k" and "offset_ok j"
  shows "peek (poke q k v s) p j = (if p = q \<and> j = k then v else peek s p j)"
proof (cases "p = q \<and> j = k")
  case False
  obtain n m where "(q, n) \<in> live s" "12 \<le> n" "(p, m) \<in> live s" "12 \<le> m"
    using assms(2,3) by (auto simp: object_def)
  moreover have "k + 4 \<le> 12" "j + 4 \<le> 12" "p \<noteq> q \<or> k + 4 \<le> j \<or> j + 4 \<le> k"
    using False assms(4,5) by (auto simp: offset_ok_def)
  ultimately show ?thesis using peek_poke_other [OF assms(1), of q n k p m j v] False by auto
qed (simp add: peek_poke_same)

lemma object_nonnull: "inv s \<Longrightarrow> object (live s) a \<Longrightarrow> a \<noteq> 0"
  using live_nonnull by (auto simp: object_def)

lemma alloc_object:
  assumes "inv s" and "admissible 12 s" and "alloc 12 s = Inr (p, s')"
  shows "inv s'" and "object (live s') p" and "\<not> object (live s) p"
    and "object (live s) a \<Longrightarrow> object (live s') a"
    and "object (live s) a \<Longrightarrow> offset_ok k \<Longrightarrow> peek s' a k = peek s a k"
    and "offset_ok k \<Longrightarrow> peek s' p k = 0"
proof -
  from alloc_law [OF assms] obtain n where n: "inv s'" "\<forall>k. (p, k) \<notin> live s" "12 \<le> n" "live s' = insert (p, n) (live s)"
    by auto
  then show "inv s'" "object (live s') p" "\<not> object (live s) p" "object (live s) a \<Longrightarrow> object (live s') a"
    by (auto simp: object_def)
  show "peek s' a k = peek s a k" if "object (live s) a" "offset_ok k"
    using that peek_alloc [OF assms] by (fastforce simp: object_def offset_ok_def)
  show "peek s' p k = 0" if "offset_ok k"
    using that peek_fresh [OF assms, of k] by (auto simp: offset_ok_def)
qed

lemma release_object:
  assumes "inv s" and "admissible 1 s" and "object (live s) p" and "release p s = Inr s'"
  shows "inv s'" and "object (live s) a \<Longrightarrow> a \<noteq> p \<Longrightarrow> object (live s') a" and "\<not> object (live s') p"
    and "object (live s) a \<Longrightarrow> a \<noteq> p \<Longrightarrow> offset_ok k \<Longrightarrow> peek s' a k = peek s a k"
proof -
  obtain n where n: "12 \<le> n" "(p, n) \<in> live s" using assms(3) by (auto simp: object_def)
  note r = release_law [OF assms(1,2) n(2) assms(4)]
  then show "inv s'" "object (live s) a \<Longrightarrow> a \<noteq> p \<Longrightarrow> object (live s') a" by (auto simp: object_def)
  show "\<not> object (live s') p" using r functional [OF assms(1) n(2)] by (auto simp: object_def)
  show "peek s' a k = peek s a k" if "object (live s) a" "a \<noteq> p" "offset_ok k"
    using that peek_release [OF assms(1,2) n(2) assms(4)] by (fastforce simp: object_def offset_ok_def)
qed

lemmas step_simps = poke_object peek_poke_object

lemma null_poke:
  assumes "inv s"
  shows "inv (poke 0 0 v s)" and "live (poke 0 0 v s) = live s"
    and "object (live s) a \<Longrightarrow> offset_ok k \<Longrightarrow> peek (poke 0 0 v s) a k = peek s a k"
  using assms poke_null_law [of s v] peek_poke_null [of s a _ k v]
  by (auto simp: object_def offset_ok_def)

lemma insert_back_rep:
  assumes rep: "list_rep inv live peek s l xs" and "admissible 12 s" and "alloc 12 s = Inr (t, s0)"
    and s1: "s1 = poke t 0 (peek s0 l 4) s0"
    and s2: "s2 = (if peek s1 l 4 \<noteq> 0 then poke (peek s1 l 4) 4 t s1 else s1)"
    and s3: "s3 = poke t 8 v s2"
    and s4: "s4 = (if peek s3 l 0 = 0 then poke l 0 t s3 else s3)"
    and s5: "s5 = poke l 4 t s4"
    and s6: "s6 = poke l 8 (peek s5 l 8 + 1) s5"
  shows "list_rep inv live peek s6 l (xs @ [(t, v)])"
proof -
  let ?T = "last_node xs"
  have inv: "inv s" and d: "dlist (peek s) l xs" and obj: "\<And>a. a \<in> set (l # map fst xs) \<Longrightarrow> object (live s) a"
    using rep by (auto simp: list_rep_def)
  note a = alloc_object [OF inv assms(2,3)]
  have tl: "t \<noteq> l" "t \<notin> set (map fst xs)" "t \<noteq> 0" using a(3) obj object_nonnull [OF a(1,2)] by auto
  have tail: "xs \<noteq> [] \<Longrightarrow> object (live s0) ?T \<and> ?T \<noteq> t \<and> ?T \<noteq> l \<and> ?T \<noteq> 0" "xs = [] \<Longrightarrow> ?T = 0"
    using last_node_in [of xs] obj tl a(4) object_nonnull [OF a(1)] d by (auto simp: dlist_def simp del: set_map)
  have head: "first_node xs = 0 \<longleftrightarrow> xs = []" using d first_node_in [of xs] by (cases xs) (auto simp: dlist_def)
  have l: "object (live s0) l" "peek s0 l 0 = first_node xs" "peek s0 l 4 = ?T" "peek s0 l 8 = peek s l 8"
    using obj [of l] a(4,5) d by (auto simp: dlist_def)
  note st = a(1,2) l tl tl(1) [symmetric] step_simps
  have i1: "inv s1" "live s1 = live s0" by (simp_all add: s1 st)
  have p1: "object (live s0) x \<Longrightarrow> offset_ok k \<Longrightarrow> peek s1 x k = (if x = t \<and> k = 0 then ?T else peek s0 x k)" for x k
    by (simp add: s1 st)
  have i2: "inv s2" "live s2 = live s0" using tail by (cases "xs = []"; simp add: s2 i1 p1 st)+
  have p2: "object (live s0) x \<Longrightarrow> offset_ok k \<Longrightarrow> peek s2 x k =
      (if xs \<noteq> [] \<and> x = ?T \<and> k = 4 then t else if x = t \<and> k = 0 then ?T else peek s0 x k)" for x k
    using tail by (cases "xs = []") (simp_all add: s2 i1 p1 st)
  have i3: "inv s3" "live s3 = live s0" by (simp_all add: s3 i2 st)
  have p3: "object (live s0) x \<Longrightarrow> offset_ok k \<Longrightarrow> peek s3 x k = (if x = t \<and> k = 8 then v else peek s2 x k)" for x k
    by (simp add: s3 i2 st)
  have i4: "inv s4" "live s4 = live s0" by (simp_all add: s4 i3 st)
  have "peek s3 l 0 = first_node xs" using tail tl(1) by (auto simp: p3 p2 st)
  then have p4: "object (live s0) x \<Longrightarrow> offset_ok k \<Longrightarrow> peek s4 x k = (if xs = [] \<and> x = l \<and> k = 0 then t else peek s3 x k)" for x k
    by (simp add: s4 i3 st head)
  have i6: "inv s6" "live s6 = live s0" by (simp_all add: s5 s6 i4 st)
  have p6: "object (live s0) x \<Longrightarrow> offset_ok k \<Longrightarrow> peek s6 x k =
     (if x = l \<and> k = 8 then peek s4 l 8 + 1 else if x = l \<and> k = 4 then t else peek s4 x k)" for x k
    by (simp add: s5 s6 i4 st)
  note p = p6 p4 p3 p2
  have "dlist (peek s6) l (xs @ [(t, v)])"
  proof (rule dlist_append [OF d tl(3,1,2)])
    show "peek s6 t 0 = ?T" "peek s6 t 4 = 0" "peek s6 t 8 = v" using tail tl a(2,6) by (auto simp: p)
    show "peek s6 l 0 = (if xs = [] then t else peek s l 0)" "peek s6 l 4 = t" "peek s6 l 8 = peek s l 8 + 1"
      using tail tl l d by (auto simp: p dlist_def)
    fix x assume x: "x \<in> set (map fst xs)"
    then have "object (live s) x" "x \<noteq> t" "x \<noteq> l" "xs \<noteq> []" using obj tl d by (auto simp: dlist_def)
    then show "peek s6 x 0 = peek s x 0 \<and> peek s6 x 4 = (if x = ?T then t else peek s x 4) \<and> peek s6 x 8 = peek s x 8"
      using a(4,5) by (simp add: p)
  qed
  then show ?thesis using i6 a(2,4) obj by (auto simp: list_rep_def)
qed

lemma insert_front_rep:
  assumes rep: "list_rep inv live peek s l xs" and "admissible 12 s" and "alloc 12 s = Inr (t, s0)"
    and s1: "s1 = poke (peek s0 l 0) 0 t s0"
    and s2: "s2 = poke t 4 (peek s1 l 0) s1"
    and s3: "s3 = poke t 8 v s2"
    and s4: "s4 = (if peek s3 l 0 = 0 then poke l 4 t s3 else s3)"
    and s5: "s5 = poke l 0 t s4"
    and s6: "s6 = poke l 8 (peek s5 l 8 + 1) s5"
  shows "list_rep inv live peek s6 l ((t, v) # xs)"
proof -
  let ?H = "first_node xs"
  have inv: "inv s" and d: "dlist (peek s) l xs" and obj: "\<And>a. a \<in> set (l # map fst xs) \<Longrightarrow> object (live s) a"
    using rep by (auto simp: list_rep_def)
  note a = alloc_object [OF inv assms(2,3)]
  have tl: "t \<noteq> l" "t \<notin> set (map fst xs)" "t \<noteq> 0" using a(3) obj object_nonnull [OF a(1,2)] by auto
  have hd: "xs \<noteq> [] \<Longrightarrow> object (live s0) ?H \<and> ?H \<noteq> t \<and> ?H \<noteq> l \<and> ?H \<noteq> 0" "xs = [] \<Longrightarrow> ?H = 0"
    using first_node_in [of xs] obj tl a(4) object_nonnull [OF a(1)] d by (auto simp: dlist_def simp del: set_map)
  have l: "object (live s0) l" "peek s0 l 0 = ?H" "peek s0 l 8 = peek s l 8"
    using obj [of l] a(4,5) d by (auto simp: dlist_def)
  note st = a(1,2) l tl tl(1) [symmetric] step_simps
  have i1: "inv s1" "live s1 = live s0" using hd null_poke(1,2) [OF a(1)] by (cases "xs = []"; simp add: s1 st)+
  have p1: "object (live s0) x \<Longrightarrow> offset_ok k \<Longrightarrow> peek s1 x k = (if xs \<noteq> [] \<and> x = ?H \<and> k = 0 then t else peek s0 x k)" for x k
    using hd null_poke(3) [OF a(1)] by (cases "xs = []") (simp_all add: s1 st)
  have i3: "inv s3" "live s3 = live s0" by (simp_all add: s2 s3 i1 st)
  have "peek s1 l 0 = ?H" using hd by (auto simp: p1 st)
  then have p3: "object (live s0) x \<Longrightarrow> offset_ok k \<Longrightarrow> peek s3 x k =
      (if x = t \<and> k = 8 then v else if x = t \<and> k = 4 then ?H else peek s1 x k)" for x k
    by (simp add: s2 s3 i1 st)
  have h3: "peek s3 l 0 = ?H" using \<open>peek s1 l 0 = ?H\<close> by (simp add: p3 st)
  have i6: "inv s6" "live s6 = live s0" by (simp_all add: s4 s5 s6 i3 st)
  have p6: "object (live s0) x \<Longrightarrow> offset_ok k \<Longrightarrow> peek s6 x k =
     (if x = l \<and> k = 8 then peek s3 l 8 + 1 else if x = l \<and> k = 0 then t
      else if xs = [] \<and> x = l \<and> k = 4 then t else peek s3 x k)" for x k
    using h3 hd by (cases "xs = []") (simp_all add: s4 s5 s6 i3 st)
  note p = p6 p3 p1
  have "dlist (peek s6) l ((t, v) # xs)"
  proof (rule dlist_prepend [OF d tl(3,1,2)])
    show "peek s6 t 0 = 0" "peek s6 t 4 = ?H" "peek s6 t 8 = v" using hd tl a(2,6) by (auto simp: p)
    show "peek s6 l 0 = t" "peek s6 l 4 = (if xs = [] then t else peek s l 4)" "peek s6 l 8 = peek s l 8 + 1"
      using hd tl l obj [of l] a(5) by (auto simp: p)
    fix x assume x: "x \<in> set (map fst xs)"
    then have "object (live s) x" "x \<noteq> t" "x \<noteq> l" "xs \<noteq> []" using obj tl d by (auto simp: dlist_def)
    then show "peek s6 x 0 = (if x = ?H then t else peek s x 0) \<and> peek s6 x 4 = peek s x 4 \<and> peek s6 x 8 = peek s x 8"
      using a(4,5) by (simp add: p)
  qed
  then show ?thesis using i6 a(2,4) obj by (auto simp: list_rep_def)
qed

lemma release_rep:
  assumes rep: "list_rep inv live peek s l (ys @ x # zs)"
    and s1: "inv s1" "live s1 = live s" and "admissible 1 s1" and "release (fst x) s1 = Inr s2"
    and l: "peek s1 l 0 = (if ys = [] then first_node zs else peek s l 0)"
      "peek s1 l 4 = (if zs = [] then last_node ys else peek s l 4)"
    and ns: "\<And>a. a \<in> set (map fst ys) \<union> set (map fst zs) \<Longrightarrow>
      peek s1 a 0 = (if zs \<noteq> [] \<and> a = first_node zs then last_node ys else peek s a 0) \<and>
      peek s1 a 4 = (if ys \<noteq> [] \<and> a = last_node ys then first_node zs else peek s a 4) \<and> peek s1 a 8 = peek s a 8"
    and s3: "inv s3" "live s3 = live s2" "peek s3 l 8 = peek s l 8 - 1"
      "\<And>a k. object (live s2) a \<Longrightarrow> offset_ok k \<Longrightarrow> a \<noteq> l \<or> k \<noteq> 8 \<Longrightarrow> peek s3 a k = peek s2 a k"
  shows "list_rep inv live peek s3 l (ys @ zs)"
proof -
  have d: "dlist (peek s) l (ys @ x # zs)" and obj: "\<And>a. a \<in> set (l # map fst (ys @ x # zs)) \<Longrightarrow> object (live s) a"
    using rep by (auto simp: list_rep_def)
  have ox: "object (live s1) (fst x)" using obj [of "fst x"] s1(2) by simp
  note r = release_object [OF s1(1) assms(4) ox assms(5)]
  have ne: "a \<noteq> fst x \<and> object (live s1) a" if "a = l \<or> a \<in> set (map fst ys) \<union> set (map fst zs)" for a
    using d obj [of a] that s1(2) by (auto simp: dlist_def simp del: set_map)
  have p: "peek s3 a k = peek s1 a k"
    if "a = l \<or> a \<in> set (map fst ys) \<union> set (map fst zs)" "offset_ok k" "a \<noteq> l \<or> k \<noteq> 8" for a k
    using that r(2,4) s3(4) ne [of a] by simp
  have nl: "a \<noteq> l" if "a \<in> set (map fst ys) \<union> set (map fst zs)" for a
    using d that by (auto simp: dlist_def simp del: set_map)
  have "dlist (peek s3) l (ys @ zs)"
  proof (rule dlist_remove [OF d])
    show "peek s3 l 0 = (if ys = [] then first_node zs else peek s l 0)"
      "peek s3 l 4 = (if zs = [] then last_node ys else peek s l 4)" "peek s3 l 8 = peek s l 8 - 1"
      using l s3(3) by (simp_all add: p)
    fix a assume "a \<in> set (map fst ys) \<union> set (map fst zs)"
    then show "peek s3 a 0 = (if zs \<noteq> [] \<and> a = first_node zs then last_node ys else peek s a 0) \<and>
      peek s3 a 4 = (if ys \<noteq> [] \<and> a = last_node ys then first_node zs else peek s a 4) \<and> peek s3 a 8 = peek s a 8"
      using ns [of a] nl [of a] by (simp add: p del: set_map)
  qed
  then show ?thesis using r(1,2) ne s3(1,2) by (auto simp: list_rep_def)
qed

end

abbreviation list_ok :: "'s heap_scheme \<Rightarrow> u32 \<Rightarrow> (u32 \<times> u32) list \<Rightarrow> bool" where
  "list_ok \<equiv> list_rep obj_inv live_blocks field"

section \<open>What the operations do\<close>

lemma request_ok_set_field [simp]: "request_ok sz (set_field q k v s) = request_ok sz s"
  by (simp add: request_ok_def calm_def set_field_def)

lemma request_ok_less:
  assumes "request_ok sz s" shows "request_ok 1 s"
proof -
  have "sz \<noteq> 0" using assms by (simp add: request_ok_def)
  then have "1 \<le> unat sz" using unat_gt_0 [of sz] by linarith
  then show ?thesis using assms by (simp add: request_ok_def)
qed

lemma malloc_outcome:
  fixes s :: "'s heap_scheme"
  assumes "heap_inv s" and "request_ok sz s"
  shows "malloc sz s = Inl Panic \<or> (\<exists>p s'. malloc sz s = Inr (p, s'))"
proof -
  obtain bs where "heap_ok s bs" using assms(1) by (auto simp: heap_inv_def)
  from malloc_ok [OF this, of sz] assms(2) show ?thesis by (auto simp: request_ok_def split: option.splits)
qed

lemma kcalloc_malloc:
  fixes s :: "'s heap_scheme"
  assumes "obj_inv s" and "request_ok sz s"
  shows "kcalloc sz 1 s = malloc sz s"
proof -
  have h: "heap_inv s" using assms(1) by (simp add: obj_inv_def)
  have "memset (mem s') p 0 sz = mem s'" if "malloc sz s = Inr (p, s')" for p s'
    using malloc_result(1) [OF h assms(2) that] by (auto simp: memset_apply zeroed_def)
  then show ?thesis using malloc_outcome [OF h assms(2)] by (auto simp: kcalloc_def)
qed

lemma free_outcome:
  fixes s :: "'s heap_scheme"
  assumes "obj_inv s" and "request_ok 1 s" and "object (live_blocks s) p"
  shows "\<exists>s'. kfree p s = Inr s'"
proof -
  obtain n where n: "(p, n) \<in> live_blocks s" using assms(3) by (auto simp: object_def)
  have h: "heap_inv s" using assms(1) by (simp add: obj_inv_def)
  from live_block [OF h n] obtain bs i where "heap_ok s bs" "i < length bs"
    "p = of_nat (block_addr (unat (heap_begin s)) bs i) + 8" by metis
  then show ?thesis using free_ok [of s bs i] assms(2) by (auto simp: kfree_def request_ok_def)
qed

lemma list_insert_back_ok:
  fixes s :: "'s heap_scheme"
  assumes "list_ok s l xs" and "request_ok 12 s"
  shows "if malloc 12 s = Inl Panic then list_insert_back l v s = Inl Panic
     else \<exists>p s'. list_insert_back l v s = Inr s' \<and> list_ok s' l (xs @ [(p, v)])"
proof -
  have o: "obj_inv s" using assms(1) by (simp add: list_rep_def)
  then have h: "heap_inv s" by (simp add: obj_inv_def)
  note k = kcalloc_malloc [OF o assms(2)]
  from malloc_outcome [OF h assms(2)] show ?thesis
  proof
    assume "\<exists>p s'. malloc 12 s = Inr (p, s')"
    then obtain p s0 where m: "malloc 12 s = Inr (p, s0)" by blast
    show ?thesis
      using objs.insert_back_rep [OF assms m refl refl refl refl refl refl, of v] k m
      by (auto simp: list_insert_back_def Let_def)
  qed (use k in \<open>simp add: list_insert_back_def\<close>)
qed

lemma list_insert_front_ok:
  fixes s :: "'s heap_scheme"
  assumes "list_ok s l xs" and "request_ok 12 s"
  shows "if malloc 12 s = Inl Panic then list_insert_front l v s = Inl Panic
     else \<exists>p s'. list_insert_front l v s = Inr (p, s') \<and> list_ok s' l ((p, v) # xs)"
proof -
  have o: "obj_inv s" using assms(1) by (simp add: list_rep_def)
  then have h: "heap_inv s" by (simp add: obj_inv_def)
  note k = kcalloc_malloc [OF o assms(2)]
  from malloc_outcome [OF h assms(2)] show ?thesis
  proof
    assume "\<exists>p s'. malloc 12 s = Inr (p, s')"
    then obtain p s0 where m: "malloc 12 s = Inr (p, s0)" by blast
    show ?thesis
      using objs.insert_front_rep [OF assms m refl refl refl refl refl refl, of v] k m
      by (auto simp: list_insert_front_def Let_def)
  qed (use k in \<open>simp add: list_insert_front_def\<close>)
qed

text \<open>The two loops, on the node list.\<close>

lemma list_node_facts:
  assumes "list_ok s l xs"
  shows "i < length xs \<Longrightarrow> field s (fst (xs ! i)) 8 = snd (xs ! i)" "i < length xs \<Longrightarrow> fst (xs ! i) \<noteq> 0"
    "list_head s l = first_node xs"
  using assms by (auto simp: list_rep_def dlist_def)

fun index_of :: "u32 \<Rightarrow> (u32 \<times> u32) list \<Rightarrow> nat option" where
  "index_of v [] = None"
| "index_of v (x # xs) = (if snd x = v then Some 0 else map_option Suc (index_of v xs))"

lemma links_next: "links f p (x # ns) 0 \<Longrightarrow> f x 4 = (case ns of [] \<Rightarrow> 0 | y # _ \<Rightarrow> y)"
  by simp

lemma contain_loop_ok:
  assumes "links (field s) p (map fst xs) 0" and "\<forall>x \<in> set xs. field s (fst x) 8 = snd x" and "0 \<notin> set (map fst xs)"
  shows "contain_loop s v (first_node xs) idx =
     Some (case index_of v xs of None \<Rightarrow> - 1 | Some i \<Rightarrow> idx + of_nat i)"
  using assms
proof (induction xs arbitrary: p idx)
  case Nil
  then show ?case by (simp add: contain_loop.simps)
next
  case (Cons x xs)
  have IH: "contain_loop s v (first_node xs) (idx + 1) = Some (case index_of v xs of None \<Rightarrow> - 1 | Some i \<Rightarrow> idx + 1 + of_nat i)"
    using Cons.prems by (intro Cons.IH [of "fst x"]) auto
  have "field s (fst x) 4 = first_node xs" using Cons.prems(1) by (cases xs) auto
  then show ?case
    using Cons.prems IH by (subst contain_loop.simps) (auto split: option.splits)
qed

lemma node_loop_ok:
  assumes "links (field s) p (map fst xs) 0" and "0 \<notin> set (map fst xs)" and "i < length xs"
    and "k + length xs < 2 ^ 32"
  shows "node_loop s (of_nat (k + i)) (first_node xs) (of_nat k) = Some (fst (xs ! i))"
  using assms
proof (induction xs arbitrary: p i k)
  case (Cons x xs)
  have nx: "field s (fst x) 4 = first_node xs" using Cons.prems(1) by (cases xs) auto
  show ?case
  proof (cases i)
    case 0
    then show ?thesis using Cons.prems by (simp add: node_loop.simps)
  next
    case (Suc j)
    have "(of_nat (k + i) :: u32) \<noteq> of_nat k" using Suc Cons.prems of_nat_u32_eq [of "k + i" k] by simp
    moreover have "node_loop s (of_nat (Suc k + j)) (first_node xs) (of_nat (Suc k)) = Some (fst (xs ! j))"
      using Cons.prems Suc by (intro Cons.IH [of "fst x"]) auto
    ultimately show ?thesis
      using Cons.prems Suc nx by (subst node_loop.simps) (auto simp: add.commute)
  qed
qed simp

lemma list_facts:
  fixes s :: "'s heap_scheme"
  assumes "list_ok s l (ys @ x # zs)"
  shows "obj_inv s" "object (live_blocks s) l" "object (live_blocks s) (fst x)" "fst x \<noteq> 0" "fst x \<noteq> l"
    "field s (fst x) 8 = snd x" "field s (fst x) 0 = last_node ys" "field s (fst x) 4 = first_node zs"
    "field s l 0 = first_node (ys @ x # zs)" "field s l 4 = last_node (ys @ x # zs)"
    "\<And>a. a \<in> set (map fst ys) \<union> set (map fst zs) \<Longrightarrow> object (live_blocks s) a \<and> a \<noteq> 0 \<and> a \<noteq> l \<and> a \<noteq> fst x"
    "set (map fst ys) \<inter> set (map fst zs) = {}"
proof -
  have d: "dlist (field s) l (ys @ x # zs)" and o: "\<forall>a \<in> set (l # map fst (ys @ x # zs)). object (live_blocks s) a"
    and i: "obj_inv s" using assms by (simp_all add: list_rep_def)
  have "links (field s) (last (0 # map fst ys)) (fst x # map fst zs) 0"
    using d by (simp add: dlist_def links_append)
  then show "field s (fst x) 0 = last_node ys" "field s (fst x) 4 = first_node zs"
    by (simp_all add: last_map_fst case_first_node del: last.simps)
  show "obj_inv s" "object (live_blocks s) l" "object (live_blocks s) (fst x)" "fst x \<noteq> 0" "fst x \<noteq> l"
    "field s (fst x) 8 = snd x" "field s l 0 = first_node (ys @ x # zs)" "field s l 4 = last_node (ys @ x # zs)"
    "set (map fst ys) \<inter> set (map fst zs) = {}"
    using d o i by (auto simp: dlist_def)
  show "\<And>a. a \<in> set (map fst ys) \<union> set (map fst zs) \<Longrightarrow> object (live_blocks s) a \<and> a \<noteq> 0 \<and> a \<noteq> l \<and> a \<noteq> fst x"
    using d o by (auto simp: dlist_def simp del: set_map)
qed

lemma list_remove_front_ok:
  fixes s :: "'s heap_scheme"
  assumes ok: "list_ok s l (x # zs)" and "zs \<noteq> []" and "request_ok 1 s"
  shows "\<exists>s'. list_remove_front l s = Inr (snd x, s') \<and> list_ok s' l zs"
proof -
  let ?h = "first_node zs"
  have ok': "list_ok s l ([] @ x # zs)" using ok by simp
  note f = list_facts [OF ok', unfolded append_Nil]
  have h: "object (live_blocks s) ?h" "?h \<noteq> 0" "?h \<noteq> l"
    using f(11) [of ?h] first_node_in [OF assms(2)] by auto
  note st = f(1-10) h objs.step_simps
  define s2 where "s2 = set_field ?h 0 0 (set_field l 0 ?h s)"
  have s2: "obj_inv s2" "live_blocks s2 = live_blocks s" "request_ok 1 s2"
    by (simp_all add: s2_def st assms(3))
  have p: "object (live_blocks s) a \<Longrightarrow> offset_ok k \<Longrightarrow>
      field s2 a k = (if a = ?h \<and> k = 0 then 0 else if a = l \<and> k = 0 then ?h else field s a k)" for a k
    by (simp add: s2_def st)
  obtain s3 where s3: "kfree (fst x) s2 = Inr s3" using free_outcome [OF s2(1,3)] f(3) s2(2) by auto
  let ?s4 = "set_field l 8 (field s3 l 8 - 1) s3"
  note r = objs.release_object [OF s2(1,3), unfolded s2(2), OF f(3) s3 [unfolded kfree_def]]
  have l3: "object (live_blocks s3) l" "field s3 l 8 = field s l 8" using r(2,4) [of l] f(2,5) h by (auto simp: p)
  have "list_ok ?s4 l ([] @ zs)"
  proof (rule objs.release_rep [OF ok' s2 s3 [unfolded kfree_def]])
    show "field s2 l 0 = (if [] = [] then ?h else field s l 0)" "field s2 l 4 = (if zs = [] then last_node [] else field s l 4)"
      using assms(2) h f(2) by (simp_all add: p)
    show "obj_inv ?s4" "live_blocks ?s4 = live_blocks s3" "field ?s4 l 8 = field s l 8 - 1"
      "\<And>a k. object (live_blocks s3) a \<Longrightarrow> offset_ok k \<Longrightarrow> a \<noteq> l \<or> k \<noteq> 8 \<Longrightarrow> field ?s4 a k = field s3 a k"
      using r(1) l3 by (auto simp: objs.step_simps)
    fix a assume "a \<in> set (map fst []) \<union> set (map fst zs)"
    then show "field s2 a 0 = (if zs \<noteq> [] \<and> a = ?h then last_node [] else field s a 0) \<and>
      field s2 a 4 = (if [] \<noteq> [] \<and> a = last_node [] then ?h else field s a 4) \<and> field s2 a 8 = field s a 8"
      using f(11) [of a] assms(2) by (auto simp: p)
  qed
  moreover have "list_remove_front l s = Inr (snd x, ?s4)"
  proof -
    have "field (set_field l 0 ?h s) l 0 = ?h" by (simp add: st)
    then show ?thesis using s3 h f by (simp add: list_remove_front_def Let_def s2_def)
  qed
  ultimately show ?thesis by simp
qed

lemma list_remove_back_ok:
  fixes s :: "'s heap_scheme"
  assumes ok: "list_ok s l (ys @ [x])" and "ys \<noteq> []" and "request_ok 1 s"
  shows "\<exists>s'. list_remove_back l s = Inr (snd x, s') \<and> list_ok s' l ys"
proof -
  let ?t = "last_node ys"
  note f = list_facts [OF ok]
  have h: "object (live_blocks s) ?t" "?t \<noteq> 0" "?t \<noteq> l"
    using f(11) [of ?t] last_node_in [OF assms(2)] by auto
  note st = f(1-10) h objs.step_simps
  define s2 where "s2 = set_field ?t 4 0 (set_field l 4 ?t s)"
  have s2: "obj_inv s2" "live_blocks s2 = live_blocks s" "request_ok 1 s2"
    by (simp_all add: s2_def st assms(3))
  have p: "object (live_blocks s) a \<Longrightarrow> offset_ok k \<Longrightarrow>
      field s2 a k = (if a = ?t \<and> k = 4 then 0 else if a = l \<and> k = 4 then ?t else field s a k)" for a k
    by (simp add: s2_def st)
  obtain s3 where s3: "kfree (fst x) s2 = Inr s3" using free_outcome [OF s2(1,3)] f(3) s2(2) by auto
  let ?s4 = "set_field l 8 (field s3 l 8 - 1) s3"
  note r = objs.release_object [OF s2(1,3), unfolded s2(2), OF f(3) s3 [unfolded kfree_def]]
  have l3: "object (live_blocks s3) l" "field s3 l 8 = field s l 8" using r(2,4) [of l] f(2,5) h by (auto simp: p)
  have "list_ok ?s4 l (ys @ [])"
  proof (rule objs.release_rep [OF ok s2 s3 [unfolded kfree_def]])
    show "field s2 l 0 = (if ys = [] then first_node [] else field s l 0)" "field s2 l 4 = (if [] = [] then ?t else field s l 4)"
      using assms(2) h f(2) by (simp_all add: p)
    show "obj_inv ?s4" "live_blocks ?s4 = live_blocks s3" "field ?s4 l 8 = field s l 8 - 1"
      "\<And>a k. object (live_blocks s3) a \<Longrightarrow> offset_ok k \<Longrightarrow> a \<noteq> l \<or> k \<noteq> 8 \<Longrightarrow> field ?s4 a k = field s3 a k"
      using r(1) l3 by (auto simp: objs.step_simps)
    fix a assume "a \<in> set (map fst ys) \<union> set (map fst [])"
    then show "field s2 a 0 = (if [] \<noteq> [] \<and> a = first_node [] then ?t else field s a 0) \<and>
      field s2 a 4 = (if ys \<noteq> [] \<and> a = ?t then first_node [] else field s a 4) \<and> field s2 a 8 = field s a 8"
      using f(11) [of a] assms(2) by (auto simp: p)
  qed
  moreover have "list_remove_back l s = Inr (snd x, ?s4)"
  proof -
    have "field (set_field l 4 ?t s) l 4 = ?t" by (simp add: st)
    moreover have "first_node (ys @ [x]) \<noteq> 0" using assms(2) f(11) [of "first_node ys"] first_node_in [OF assms(2)]
      by (simp add: first_node_append)
    ultimately show ?thesis using s3 h f by (simp add: list_remove_back_def Let_def s2_def)
  qed
  ultimately show ?thesis by simp
qed

lemma list_remove_node_ok:
  fixes s :: "'s heap_scheme"
  assumes ok: "list_ok s l (ys @ x # zs)" and "ys \<noteq> [] \<or> zs \<noteq> []" and req: "request_ok 1 s"
  shows "\<exists>s'. list_remove_node l (fst x) s = Inr (snd x, s') \<and> list_ok s' l (ys @ zs)"
proof -
  note f = list_facts [OF ok]
  consider "ys = []" "zs \<noteq> []" | "ys \<noteq> []" "zs = []" | "ys \<noteq> []" "zs \<noteq> []" using assms(2) by blast
  then show ?thesis
  proof cases
    case 1
    have ok1: "list_ok s l (x # zs)" using ok 1(1) by simp
    have "field s l 0 = fst x" using f(9) 1(1) by simp
    then have "list_remove_node l (fst x) s = list_remove_front l s" by (simp add: list_remove_node_def)
    then show ?thesis using list_remove_front_ok [OF ok1 1(2) req] 1(1) by simp
  next
    case 2
    have ok1: "list_ok s l (ys @ [x])" using ok 2(2) by simp
    have "first_node ys \<noteq> fst x" using f(11) first_node_in [OF 2(1)] by blast
    then have "field s l 0 \<noteq> fst x" by (simp add: f(9) first_node_append 2(1))
    moreover have "field s l 4 = fst x" by (simp add: f(10) 2(2))
    ultimately have "list_remove_node l (fst x) s = list_remove_back l s" by (simp add: list_remove_node_def)
    then show ?thesis using list_remove_back_ok [OF ok1 2(1) req] 2(2) by simp
  next
    case 3
    let ?p = "last_node ys" and ?n = "first_node zs"
    have pn: "?p \<in> set (map fst ys)" "?n \<in> set (map fst zs)" by (rule last_node_in [OF 3(1)], rule first_node_in [OF 3(2)])
    have ne: "?p \<noteq> ?n" using f(12) pn unfolding disjoint_iff by metis
    note fp = f(11) [of ?p] and fn = f(11) [of ?n]
    have o: "object (live_blocks s) ?p" "object (live_blocks s) ?n" "?p \<noteq> l" "?n \<noteq> l" "?p \<noteq> fst x" "?n \<noteq> fst x"
      using fp fn pn by (simp_all del: set_map)
    note st = f(1-8) o ne ne [symmetric] o(5,6) [symmetric] objs.step_simps
    define s3 where "s3 = set_field l 8 (field s l 8 - 1) (set_field ?p 4 ?n (set_field ?n 0 ?p s))"
    have s3: "obj_inv s3" "live_blocks s3 = live_blocks s" "request_ok 1 s3" by (simp_all add: s3_def st req)
    have p: "object (live_blocks s) a \<Longrightarrow> offset_ok k \<Longrightarrow> field s3 a k =
      (if a = l \<and> k = 8 then field s l 8 - 1 else if a = ?p \<and> k = 4 then ?n else if a = ?n \<and> k = 0 then ?p else field s a k)" for a k
      by (simp add: s3_def st)
    obtain s4 where s4: "kfree (fst x) s3 = Inr s4" using free_outcome [OF s3(1,3)] f(3) s3(2) by auto
    note r = objs.release_object [OF s3(1,3), unfolded s3(2), OF f(3) s4 [unfolded kfree_def]]
    have "list_ok s4 l (ys @ zs)"
    proof (rule objs.release_rep [OF ok s3 s4 [unfolded kfree_def]])
      show "field s3 l 0 = (if ys = [] then ?n else field s l 0)" "field s3 l 4 = (if zs = [] then ?p else field s l 4)"
        using 3 o f(2) by (simp_all add: p)
      show "field s4 l 8 = field s l 8 - 1" using r(4) [of l] f(2,5) by (simp add: p)
      fix a assume "a \<in> set (map fst ys) \<union> set (map fst zs)"
      then show "field s3 a 0 = (if zs \<noteq> [] \<and> a = ?n then ?p else field s a 0) \<and>
        field s3 a 4 = (if ys \<noteq> [] \<and> a = ?p then ?n else field s a 4) \<and> field s3 a 8 = field s a 8"
        using f(11) [of a] 3 by (auto simp: p)
    qed (use r(1) in auto)
    moreover have "list_remove_node l (fst x) s = Inr (snd x, s4)"
    proof -
      have "field s l 0 \<noteq> fst x" "field s l 4 \<noteq> fst x"
        using f(9,10) 3 f(11) [of "first_node ys"] f(11) [of "last_node zs"] first_node_in [OF 3(1)] last_node_in [OF 3(2)]
          last_node_append [of "[x]" zs] by (auto simp: first_node_append last_node_append simp del: set_map)
      then show ?thesis using s4 by (simp add: list_remove_node_def Let_def s3_def st)
    qed
    ultimately show ?thesis by blast
  qed
qed

lemma list_create_ok:
  fixes s :: "'s heap_scheme"
  assumes "obj_inv s" and "request_ok 12 s"
  shows "list_create s = Inl Panic \<and> malloc 12 s = Inl Panic \<or> (\<exists>l s'. list_create s = Inr (l, s') \<and> list_ok s' l [])"
proof -
  have h: "heap_inv s" using assms(1) by (simp add: obj_inv_def)
  from malloc_outcome [OF h assms(2)] show ?thesis
  proof
    assume "\<exists>p s'. malloc 12 s = Inr (p, s')"
    then obtain p s' where m: "malloc 12 s = Inr (p, s')" by blast
    note a = objs.alloc_object [OF assms m]
    then have "list_ok s' p []" by (simp add: list_rep_def dlist_def)
    then show ?thesis using m kcalloc_malloc [OF assms] by (auto simp: list_create_def)
  qed (use kcalloc_malloc [OF assms] in \<open>simp add: list_create_def\<close>)
qed

section \<open>Properties\<close>

lemma list_remove_front_last:
  fixes s :: "'s heap_scheme"
  assumes ok: "list_ok s l [x]" and req: "request_ok 1 s"
  shows "\<exists>s'. list_remove_front l s = Inr (snd x, s') \<and> obj_inv s' \<and> field s' l 0 = 0 \<and> field s' l 4 = fst x \<and>
     \<not> object (live_blocks s') (fst x)"
proof -
  have ok': "list_ok s l ([] @ x # [])" using ok by simp
  note f = list_facts [OF ok', unfolded append_Nil]
  note st = f(1-8) objs.step_simps
  define s2 where "s2 = set_field l 0 0 s"
  have s2: "obj_inv s2" "live_blocks s2 = live_blocks s" "request_ok 1 s2" by (simp_all add: s2_def st req)
  have p: "object (live_blocks s) a \<Longrightarrow> offset_ok k \<Longrightarrow> field s2 a k = (if a = l \<and> k = 0 then 0 else field s a k)" for a k
    by (simp add: s2_def st)
  obtain s3 where s3: "kfree (fst x) s2 = Inr s3" using free_outcome [OF s2(1,3)] f(3) s2(2) by auto
  note r = objs.release_object [OF s2(1,3), unfolded s2(2), OF f(3) s3 [unfolded kfree_def]]
  have l3: "object (live_blocks s3) l" "field s3 l 0 = 0" "field s3 l 4 = fst x"
    using r(2,4) [of l] f(2,5,10) by (auto simp: p)
  have "list_remove_front l s = Inr (snd x, set_field l 8 (field s3 l 8 - 1) s3)"
    using s3 f by (simp add: list_remove_front_def Let_def s2_def objs.step_simps)
  then show ?thesis using r(1,3) l3 by (auto simp: objs.step_simps)
qed

definition two_list :: heap where
  "two_list = small_heap\<lparr>last_alloc := 0xC0200048, mem :=
     (let a = 0xC0200000; l = a + 8; t = a + 32; u = a + 56;
          m = store32 (store32 (store32 ((\<lambda>_. 0)(a := 1, a + 24 := 1, a + 48 := 1)) (a + 4) 12) (a + 28) 12) (a + 52) 12
      in store32 (store32 (store32 (store32 (store32 (store32 (store32 m l t) (l + 4) u) (l + 8) 2) (t + 4) u)
           (t + 8) 7) u t) (u + 8) 9)\<rparr>"

lemma two_list_bytes:
  "mem two_list 0xC0200000 = 1" "mem two_list 0xC0200018 = 1" "mem two_list 0xC0200030 = 1"
  "load32 (mem two_list) 0xC0200004 = 12" "load32 (mem two_list) 0xC020001C = 12" "load32 (mem two_list) 0xC0200034 = 12"
  "load32 (mem two_list) 0xC0200008 = 0xC0200020" "load32 (mem two_list) 0xC020000C = 0xC0200038"
  "load32 (mem two_list) 0xC0200010 = 2" "load32 (mem two_list) 0xC0200020 = 0" "load32 (mem two_list) 0xC0200024 = 0xC0200038"
  "load32 (mem two_list) 0xC0200028 = 7" "load32 (mem two_list) 0xC0200038 = 0xC0200020"
  "load32 (mem two_list) 0xC020003C = 0" "load32 (mem two_list) 0xC0200040 = 9"
  by (simp_all add: two_list_def Let_def store32_def load32_def)

lemma two_list_heap: "heap_ok two_list [(12, True), (12, True), (12, True)]"
proof -
  have "\<not> in_window 0xB0000000 a" if "0xC0200000 \<le> unat a" for a
    using that unat_u32_le [of a] by (simp add: in_window_def word_less_nat_alt unat_sub_if_size word_size)
  then show ?thesis
    using two_list_bytes by (simp add: heap_ok_def alloc_size_def alloc_status_def) (simp add: two_list_def small_heap_fields)
qed

lemma two_list_live:
  "object (live_blocks two_list) 0xC0200008" "object (live_blocks two_list) 0xC0200020" "object (live_blocks two_list) 0xC0200038"
proof -
  have b: "heap_begin two_list = 0xC0200000" by (simp add: two_list_def small_heap_fields)
  let ?bs = "[(12, True), (12, True), (12, True)]"
  have "i \<in> used ?bs" if "i < 3" for i
    using that by (cases i rule: nat.exhaust; simp add: used_def nth_Cons' split: if_splits)
  then have "payload (unat (heap_begin two_list)) ?bs i \<in> live_blocks two_list" if "i < 3" for i
    using that unfolding live_blocks_eq [OF two_list_heap] payloads_def by (intro imageI) simp
  from this [of 0] this [of "Suc 0"] this [of "Suc (Suc 0)"]
  have "(0xC0200008, 12) \<in> live_blocks two_list" "(0xC0200020, 12) \<in> live_blocks two_list" "(0xC0200038, 12) \<in> live_blocks two_list"
    by (simp_all add: payload_def b block_addr_def)
  then show "object (live_blocks two_list) 0xC0200008" "object (live_blocks two_list) 0xC0200020"
    "object (live_blocks two_list) 0xC0200038"
    unfolding object_def by blast+
qed

lemma two_list_ok: "list_ok two_list 0xC0200008 [(0xC0200020, 7), (0xC0200038, 9)]"
proof -
  have "obj_inv two_list" using two_list_heap by (auto simp: obj_inv_def heap_inv_def two_list_def small_heap_fields)
  moreover have "dlist (field two_list) 0xC0200008 [(0xC0200020, 7), (0xC0200038, 9)]"
    by (simp add: dlist_def field_def two_list_bytes last_node_def)
  ultimately show ?thesis using two_list_live by (simp add: list_rep_def)
qed

lemma two_list_requests: "request_ok 12 two_list" "request_ok 1 two_list"
  by (simp_all add: request_ok_def calm_def two_list_def small_heap_fields)

lemma two_list_room: "\<exists>p s'. malloc 12 two_list = Inr (p, s')"
proof -
  have "calm two_list" "unat (last_alloc two_list) + 20 < unat (heap_end two_list)"
    by (simp_all add: calm_def two_list_def small_heap_fields)
  then show ?thesis using malloc_fresh [OF two_list_heap, of 12] by auto
qed

text \<open>
  C11: \<^verbatim>\<open>list_insert_back\<close> appends the value in a fresh node: the links in both directions, head, tail
  and size all describe the longer list; it panics exactly when \<^verbatim>\<open>malloc\<close> does.
\<close>

theorem list_insert_back_appends:
  fixes s :: "'s heap_scheme"
  assumes "list_ok s l xs" and "request_ok 12 s"
  shows "if malloc 12 s = Inl Panic then list_insert_back l v s = Inl Panic
     else \<exists>p s'. list_insert_back l v s = Inr s' \<and> list_ok s' l (xs @ [(p, v)])"
  by (rule list_insert_back_ok [OF assms])

theorem list_insert_back_appends_witness:
  "\<exists>p s'. list_insert_back 0xC0200008 5 two_list = Inr s' \<and>
     list_ok s' 0xC0200008 [(0xC0200020, 7), (0xC0200038, 9), (p, 5)]"
  using list_insert_back_appends [OF two_list_ok two_list_requests(1), of 5] two_list_room by auto

text \<open>
  \<^verbatim>\<open>list_insert_front\<close> prepends the value in a fresh node, also on an empty list, where its write
  through the NULL head goes to address 0 and leaves the list intact; it panics exactly when
  \<^verbatim>\<open>malloc\<close> does.
\<close>

theorem list_insert_front_prepends:
  fixes s :: "'s heap_scheme"
  assumes "list_ok s l xs" and "request_ok 12 s"
  shows "if malloc 12 s = Inl Panic then list_insert_front l v s = Inl Panic
     else \<exists>p s'. list_insert_front l v s = Inr (p, s') \<and> list_ok s' l ((p, v) # xs)"
  by (rule list_insert_front_ok [OF assms])

theorem list_insert_front_prepends_witness:
  "\<exists>p s'. list_insert_front 0xC0200008 5 two_list = Inr (p, s') \<and>
     list_ok s' 0xC0200008 [(p, 5), (0xC0200020, 7), (0xC0200038, 9)]"
  using list_insert_front_prepends [OF two_list_ok two_list_requests(1), of 5] two_list_room by auto

text \<open>
  C30: \<^verbatim>\<open>list_remove_node\<close> of a node at the front, at the back or inside a list of at least two
  elements returns its value and leaves exactly the list without it.
\<close>

theorem list_remove_node_removes:
  fixes s :: "'s heap_scheme"
  assumes "list_ok s l (ys @ x # zs)" and "ys \<noteq> [] \<or> zs \<noteq> []" and "request_ok 1 s"
  shows "\<exists>s'. list_remove_node l (fst x) s = Inr (snd x, s') \<and> list_ok s' l (ys @ zs)"
  by (rule list_remove_node_ok [OF assms])

theorem list_remove_node_removes_witness:
  "\<exists>s'. list_remove_node 0xC0200008 0xC0200038 two_list = Inr (9, s') \<and> list_ok s' 0xC0200008 [(0xC0200020, 7)]"
  using list_remove_node_removes [of two_list "0xC0200008" "[(0xC0200020, 7)]" "(0xC0200038, 9)" "[]"]
    two_list_ok two_list_requests(2) by simp

text \<open>
  \<^verbatim>\<open>list_contain\<close> ends and returns the position of the first node with the value, or -1;
  \<^verbatim>\<open>list_get_node_by_index\<close> ends and returns the node at each position of the list.
\<close>

theorem list_search_correct:
  assumes "list_ok s l xs" and "length xs < 2 ^ 31"
  shows "list_contain l v s = Some (case index_of v xs of None \<Rightarrow> - 1 | Some i \<Rightarrow> of_nat i) \<and>
     (\<forall>i < length xs. list_get_node_by_index l (of_nat i) s = Some (fst (xs ! i)))"
proof -
  have d: "dlist (field s) l xs" and "object (live_blocks s) l" and "obj_inv s" using assms(1) by (auto simp: list_rep_def)
  then have l: "l \<noteq> 0" using objs.object_nonnull by blast
  have "list_get_node_by_index l (of_nat i) s = Some (fst (xs ! i))" if "i < length xs" for i
  proof -
    have "sint (of_nat n :: u32) = int n" if "n < 2 ^ 31" for n
      using that by (simp add: sint_u32_if unat_of_nat_u32 uint_nat)
    from this [of i] this [of "length xs"]
    have "\<not> sint (of_nat i :: u32) < 0" "\<not> sint (list_size l s) \<le> sint (of_nat i :: u32)"
      using that assms(2) d l by (simp_all add: list_size_def dlist_def)
    then show ?thesis
      using node_loop_ok [of s 0 xs i 0] d that assms(2) by (simp add: list_get_node_by_index_def dlist_def)
  qed
  then show ?thesis
    using contain_loop_ok [of s 0 xs v 0] d by (simp add: list_contain_def dlist_def cong: option.case_cong)
qed

theorem list_search_correct_witness:
  "list_contain 0xC0200008 9 two_list = Some 1 \<and> list_contain 0xC0200008 4 two_list = Some (- 1) \<and>
     list_get_node_by_index 0xC0200008 1 two_list = Some 0xC0200038"
proof -
  let ?xs = "[(0xC0200020, 7), (0xC0200038, 9)] :: (u32 \<times> u32) list"
  have "length ?xs < 2 ^ 31" "index_of 9 ?xs = Some 1" "index_of 4 ?xs = None" "?xs ! 1 = (0xC0200038, 9)" "1 < length ?xs"
    by simp_all
  then show ?thesis
    using list_search_correct [OF two_list_ok, of 9] list_search_correct [OF two_list_ok, of 4]
    by (metis (no_types, lifting) fst_conv of_nat_1 option.simps(4) option.simps(5))
qed

text \<open>
  Removing the only element with \<^verbatim>\<open>list_remove_front\<close> clears the head but leaves the tail
  pointing to the freed node, so the result is not the empty list.
\<close>

theorem list_remove_front_dangles:
  fixes s :: "'s heap_scheme"
  assumes "list_ok s l [x]" and "request_ok 1 s"
  shows "\<exists>s'. list_remove_front l s = Inr (snd x, s') \<and> list_head s' l = 0 \<and> list_tail s' l = fst x \<and>
     \<not> object (live_blocks s') (fst x) \<and> \<not> list_ok s' l []"
proof -
  have "fst x \<noteq> 0" using assms(1) by (auto simp: list_rep_def dlist_def)
  then show ?thesis using list_remove_front_last [OF assms] by (auto simp: list_rep_def dlist_def)
qed

definition one_list :: heap where
  "one_list = set_field 0xC0200008 8 1 (set_field 0xC0200008 4 0xC0200020 (set_field 0xC0200020 4 0 two_list))"

lemma one_list_ok: "list_ok one_list 0xC0200008 [(0xC0200020, 7)]"
proof -
  have "obj_inv two_list" using two_list_ok by (simp add: list_rep_def)
  note st = this two_list_live objs.step_simps
  have "dlist (field one_list) 0xC0200008 [(0xC0200020, 7)]"
    by (simp add: dlist_def one_list_def st) (simp add: field_def two_list_bytes)
  moreover have "obj_inv one_list" "live_blocks one_list = live_blocks two_list" by (simp_all add: one_list_def st)
  ultimately show ?thesis using two_list_live by (simp add: list_rep_def)
qed

theorem list_remove_front_dangles_witness:
  "\<exists>s'. list_remove_front 0xC0200008 one_list = Inr (7, s') \<and> list_head s' 0xC0200008 = 0 \<and>
     list_tail s' 0xC0200008 = 0xC0200020 \<and> \<not> list_ok s' 0xC0200008 []"
  using list_remove_front_dangles [OF one_list_ok] two_list_requests(2) by (auto simp: one_list_def)

end
