(* ===== verification/Keyboard.thy ===== *)
theory Keyboard
  imports Klist
begin

text \<open>
  The keyboard driver, \<^verbatim>\<open>src/src/kernel/drivers/keyboard.c\<close>: the enumeration of the keys, the
  table of characters and key states, and the interrupt handler. \<open>kstep\<close> is the driver as a
  machine over scan codes (pressed keys, locks, prefix), and the handler refines it.
\<close>

section \<open>Keys\<close>

abbreviation (input) KEY_NONE :: u16 where "KEY_NONE \<equiv> 0"
abbreviation (input) KEY_ESC :: u16 where "KEY_ESC \<equiv> 1"
abbreviation (input) KEY_1 :: u16 where "KEY_1 \<equiv> 2"
abbreviation (input) KEY_2 :: u16 where "KEY_2 \<equiv> 3"
abbreviation (input) KEY_3 :: u16 where "KEY_3 \<equiv> 4"
abbreviation (input) KEY_4 :: u16 where "KEY_4 \<equiv> 5"
abbreviation (input) KEY_5 :: u16 where "KEY_5 \<equiv> 6"
abbreviation (input) KEY_6 :: u16 where "KEY_6 \<equiv> 7"
abbreviation (input) KEY_7 :: u16 where "KEY_7 \<equiv> 8"
abbreviation (input) KEY_8 :: u16 where "KEY_8 \<equiv> 9"
abbreviation (input) KEY_9 :: u16 where "KEY_9 \<equiv> 0xa"
abbreviation (input) KEY_0 :: u16 where "KEY_0 \<equiv> 0xb"
abbreviation (input) KEY_MINUS :: u16 where "KEY_MINUS \<equiv> 0xc"
abbreviation (input) KEY_EQUAL :: u16 where "KEY_EQUAL \<equiv> 0xd"
abbreviation (input) KEY_BACKSPACE :: u16 where "KEY_BACKSPACE \<equiv> 0xe"
abbreviation (input) KEY_TAB :: u16 where "KEY_TAB \<equiv> 0xf"
abbreviation (input) KEY_Q :: u16 where "KEY_Q \<equiv> 0x10"
abbreviation (input) KEY_W :: u16 where "KEY_W \<equiv> 0x11"
abbreviation (input) KEY_E :: u16 where "KEY_E \<equiv> 0x12"
abbreviation (input) KEY_R :: u16 where "KEY_R \<equiv> 0x13"
abbreviation (input) KEY_T :: u16 where "KEY_T \<equiv> 0x14"
abbreviation (input) KEY_Y :: u16 where "KEY_Y \<equiv> 0x15"
abbreviation (input) KEY_U :: u16 where "KEY_U \<equiv> 0x16"
abbreviation (input) KEY_I :: u16 where "KEY_I \<equiv> 0x17"
abbreviation (input) KEY_O :: u16 where "KEY_O \<equiv> 0x18"
abbreviation (input) KEY_P :: u16 where "KEY_P \<equiv> 0x19"
abbreviation (input) KEY_BRACKET_L :: u16 where "KEY_BRACKET_L \<equiv> 0x1a"
abbreviation (input) KEY_BRACKET_R :: u16 where "KEY_BRACKET_R \<equiv> 0x1b"
abbreviation (input) KEY_ENTER :: u16 where "KEY_ENTER \<equiv> 0x1c"
abbreviation (input) KEY_CTRL_L :: u16 where "KEY_CTRL_L \<equiv> 0x1d"
abbreviation (input) KEY_A :: u16 where "KEY_A \<equiv> 0x1e"
abbreviation (input) KEY_S :: u16 where "KEY_S \<equiv> 0x1f"
abbreviation (input) KEY_D :: u16 where "KEY_D \<equiv> 0x20"
abbreviation (input) KEY_F :: u16 where "KEY_F \<equiv> 0x21"
abbreviation (input) KEY_G :: u16 where "KEY_G \<equiv> 0x22"
abbreviation (input) KEY_H :: u16 where "KEY_H \<equiv> 0x23"
abbreviation (input) KEY_J :: u16 where "KEY_J \<equiv> 0x24"
abbreviation (input) KEY_K :: u16 where "KEY_K \<equiv> 0x25"
abbreviation (input) KEY_L :: u16 where "KEY_L \<equiv> 0x26"
abbreviation (input) KEY_SEMICOLON :: u16 where "KEY_SEMICOLON \<equiv> 0x27"
abbreviation (input) KEY_QUOTE :: u16 where "KEY_QUOTE \<equiv> 0x28"
abbreviation (input) KEY_BACKQUOTE :: u16 where "KEY_BACKQUOTE \<equiv> 0x29"
abbreviation (input) KEY_SHIFT_L :: u16 where "KEY_SHIFT_L \<equiv> 0x2a"
abbreviation (input) KEY_BACKSLASH :: u16 where "KEY_BACKSLASH \<equiv> 0x2b"
abbreviation (input) KEY_Z :: u16 where "KEY_Z \<equiv> 0x2c"
abbreviation (input) KEY_X :: u16 where "KEY_X \<equiv> 0x2d"
abbreviation (input) KEY_C :: u16 where "KEY_C \<equiv> 0x2e"
abbreviation (input) KEY_V :: u16 where "KEY_V \<equiv> 0x2f"
abbreviation (input) KEY_B :: u16 where "KEY_B \<equiv> 0x30"
abbreviation (input) KEY_N :: u16 where "KEY_N \<equiv> 0x31"
abbreviation (input) KEY_M :: u16 where "KEY_M \<equiv> 0x32"
abbreviation (input) KEY_COMMA :: u16 where "KEY_COMMA \<equiv> 0x33"
abbreviation (input) KEY_POINT :: u16 where "KEY_POINT \<equiv> 0x34"
abbreviation (input) KEY_SLASH :: u16 where "KEY_SLASH \<equiv> 0x35"
abbreviation (input) KEY_SHIFT_R :: u16 where "KEY_SHIFT_R \<equiv> 0x36"
abbreviation (input) KEY_STAR :: u16 where "KEY_STAR \<equiv> 0x37"
abbreviation (input) KEY_ALT_L :: u16 where "KEY_ALT_L \<equiv> 0x38"
abbreviation (input) KEY_SPACE :: u16 where "KEY_SPACE \<equiv> 0x39"
abbreviation (input) KEY_CAPSLOCK :: u16 where "KEY_CAPSLOCK \<equiv> 0x3a"
abbreviation (input) KEY_F1 :: u16 where "KEY_F1 \<equiv> 0x3b"
abbreviation (input) KEY_F2 :: u16 where "KEY_F2 \<equiv> 0x3c"
abbreviation (input) KEY_F3 :: u16 where "KEY_F3 \<equiv> 0x3d"
abbreviation (input) KEY_F4 :: u16 where "KEY_F4 \<equiv> 0x3e"
abbreviation (input) KEY_F5 :: u16 where "KEY_F5 \<equiv> 0x3f"
abbreviation (input) KEY_F6 :: u16 where "KEY_F6 \<equiv> 0x40"
abbreviation (input) KEY_F7 :: u16 where "KEY_F7 \<equiv> 0x41"
abbreviation (input) KEY_F8 :: u16 where "KEY_F8 \<equiv> 0x42"
abbreviation (input) KEY_F9 :: u16 where "KEY_F9 \<equiv> 0x43"
abbreviation (input) KEY_F10 :: u16 where "KEY_F10 \<equiv> 0x44"
abbreviation (input) KEY_NUMLOCK :: u16 where "KEY_NUMLOCK \<equiv> 0x45"
abbreviation (input) KEY_SCRLOCK :: u16 where "KEY_SCRLOCK \<equiv> 0x46"
abbreviation (input) KEY_PAD_7 :: u16 where "KEY_PAD_7 \<equiv> 0x47"
abbreviation (input) KEY_PAD_8 :: u16 where "KEY_PAD_8 \<equiv> 0x48"
abbreviation (input) KEY_PAD_9 :: u16 where "KEY_PAD_9 \<equiv> 0x49"
abbreviation (input) KEY_PAD_MINUS :: u16 where "KEY_PAD_MINUS \<equiv> 0x4a"
abbreviation (input) KEY_PAD_4 :: u16 where "KEY_PAD_4 \<equiv> 0x4b"
abbreviation (input) KEY_PAD_5 :: u16 where "KEY_PAD_5 \<equiv> 0x4c"
abbreviation (input) KEY_PAD_6 :: u16 where "KEY_PAD_6 \<equiv> 0x4d"
abbreviation (input) KEY_PAD_PLUS :: u16 where "KEY_PAD_PLUS \<equiv> 0x4e"
abbreviation (input) KEY_PAD_1 :: u16 where "KEY_PAD_1 \<equiv> 0x4f"
abbreviation (input) KEY_PAD_2 :: u16 where "KEY_PAD_2 \<equiv> 0x50"
abbreviation (input) KEY_PAD_3 :: u16 where "KEY_PAD_3 \<equiv> 0x51"
abbreviation (input) KEY_PAD_0 :: u16 where "KEY_PAD_0 \<equiv> 0x52"
abbreviation (input) KEY_PAD_POINT :: u16 where "KEY_PAD_POINT \<equiv> 0x53"
abbreviation (input) KEY_54 :: u16 where "KEY_54 \<equiv> 0x54"
abbreviation (input) KEY_55 :: u16 where "KEY_55 \<equiv> 0x55"
abbreviation (input) KEY_56 :: u16 where "KEY_56 \<equiv> 0x56"
abbreviation (input) KEY_F11 :: u16 where "KEY_F11 \<equiv> 0x57"
abbreviation (input) KEY_F12 :: u16 where "KEY_F12 \<equiv> 0x58"
abbreviation (input) KEY_59 :: u16 where "KEY_59 \<equiv> 0x59"
abbreviation (input) KEY_WIN_L :: u16 where "KEY_WIN_L \<equiv> 0x5a"
abbreviation (input) KEY_WIN_R :: u16 where "KEY_WIN_R \<equiv> 0x5b"
abbreviation (input) KEY_CLIPBOARD :: u16 where "KEY_CLIPBOARD \<equiv> 0x5c"
abbreviation (input) KEY_5D :: u16 where "KEY_5D \<equiv> 0x5d"
abbreviation (input) KEY_5E :: u16 where "KEY_5E \<equiv> 0x5e"
abbreviation (input) KEY_PRINT_SCREEN :: u16 where "KEY_PRINT_SCREEN \<equiv> 0x5f"

abbreviation (input) INV :: u8 where "INV \<equiv> 0"
abbreviation (input) KBD_DATA_PORT :: u16 where "KBD_DATA_PORT \<equiv> 0x60"
abbreviation (input) CODE_PRINT_SCREEN_DOWN :: u16 where "CODE_PRINT_SCREEN_DOWN \<equiv> 0xB7"

text \<open>A row is the character without and with shift, and whether the key and its extended twin are down.\<close>

definition keymap_init :: "u8 list list" where
  "keymap_init =
     [[INV, INV, 0, 0], [0x1b, 0x1b, 0, 0], [0x31, 0x21, 0, 0], [0x32, 0x40, 0, 0], [0x33, 0x23, 0, 0],
      [0x34, 0x24, 0, 0], [0x35, 0x25, 0, 0], [0x36, 0x5E, 0, 0], [0x37, 0x26, 0, 0], [0x38, 0x2A, 0, 0],
      [0x39, 0x28, 0, 0], [0x30, 0x29, 0, 0], [0x2D, 0x5F, 0, 0], [0x3D, 0x2B, 0, 0], [0x08, 0x08, 0, 0],
      [0x09, 0x09, 0, 0], [0x71, 0x51, 0, 0], [0x77, 0x57, 0, 0], [0x65, 0x45, 0, 0], [0x72, 0x52, 0, 0],
      [0x74, 0x54, 0, 0], [0x79, 0x59, 0, 0], [0x75, 0x55, 0, 0], [0x69, 0x49, 0, 0], [0x6F, 0x4F, 0, 0],
      [0x70, 0x50, 0, 0], [0x5B, 0x7B, 0, 0], [0x5D, 0x7D, 0, 0], [0x0A, 0x0A, 0, 0], [INV, INV, 0, 0],
      [0x61, 0x41, 0, 0], [0x73, 0x53, 0, 0], [0x64, 0x44, 0, 0], [0x66, 0x46, 0, 0], [0x67, 0x47, 0, 0],
      [0x68, 0x48, 0, 0], [0x6A, 0x4A, 0, 0], [0x6B, 0x4B, 0, 0], [0x6C, 0x4C, 0, 0], [0x3B, 0x3A, 0, 0],
      [0x27, 0x22, 0, 0], [0x60, 0x7E, 0, 0], [INV, INV, 0, 0], [0x5C, 0x7C, 0, 0], [0x7A, 0x5A, 0, 0],
      [0x78, 0x58, 0, 0], [0x63, 0x43, 0, 0], [0x76, 0x56, 0, 0], [0x62, 0x42, 0, 0], [0x6E, 0x4E, 0, 0],
      [0x6D, 0x4D, 0, 0], [0x2C, 0x3C, 0, 0], [0x2E, 0x3E, 0, 0], [0x2F, 0x3F, 0, 0], [INV, INV, 0, 0],
      [0x2A, 0x2A, 0, 0], [INV, INV, 0, 0], [0x20, 0x20, 0, 0], [INV, INV, 0, 0], [INV, INV, 0, 0],
      [INV, INV, 0, 0], [INV, INV, 0, 0], [INV, INV, 0, 0], [INV, INV, 0, 0], [INV, INV, 0, 0],
      [INV, INV, 0, 0], [INV, INV, 0, 0], [INV, INV, 0, 0], [INV, INV, 0, 0], [INV, INV, 0, 0],
      [INV, INV, 0, 0], [0x37, INV, 0, 0], [0x38, INV, 0, 0], [0x39, INV, 0, 0], [0x2D, 0x2D, 0, 0],
      [0x34, INV, 0, 0], [0x35, INV, 0, 0], [0x36, INV, 0, 0], [0x2B, 0x2B, 0, 0], [0x31, INV, 0, 0],
      [0x32, INV, 0, 0], [0x33, INV, 0, 0], [0x30, INV, 0, 0], [0x2E, 0x7F, 0, 0], [INV, INV, 0, 0],
      [INV, INV, 0, 0], [INV, INV, 0, 0], [INV, INV, 0, 0], [INV, INV, 0, 0], [INV, INV, 0, 0],
      [INV, INV, 0, 0], [INV, INV, 0, 0], [INV, INV, 0, 0], [INV, INV, 0, 0], [INV, INV, 0, 0],
      [INV, INV, 0, 0]]"

section \<open>State\<close>

record kbd = heap +
  keymap :: "u8 list list"
  capslock_state :: bool
  scrlock_state :: bool
  numlock_state :: bool
  extcode_state :: bool

definition keymap_get :: "'s kbd_scheme \<Rightarrow> u16 \<Rightarrow> nat \<Rightarrow> u8" where
  "keymap_get s k j = keymap s ! unat k ! j"

definition keymap_set :: "u16 \<Rightarrow> nat \<Rightarrow> u8 \<Rightarrow> 's kbd_scheme \<Rightarrow> 's kbd_scheme" where
  "keymap_set k j v s = s\<lparr>keymap := (keymap s)[unat k := (keymap s ! unat k)[j := v]]\<rparr>"

definition shift_state :: "'s kbd_scheme \<Rightarrow> bool" where
  "shift_state s \<longleftrightarrow> keymap_get s KEY_SHIFT_L 2 \<noteq> 0 \<or> keymap_get s KEY_SHIFT_R 2 \<noteq> 0"

definition ctrl_state :: "'s kbd_scheme \<Rightarrow> bool" where
  "ctrl_state s \<longleftrightarrow> keymap_get s KEY_CTRL_L 2 \<noteq> 0 \<or> keymap_get s KEY_CTRL_L 3 \<noteq> 0"

definition alt_state :: "'s kbd_scheme \<Rightarrow> bool" where
  "alt_state s \<longleftrightarrow> keymap_get s KEY_ALT_L 2 \<noteq> 0 \<or> keymap_get s KEY_ALT_L 3 \<noteq> 0"

section \<open>The interrupt handler\<close>

text \<open>
  \<^verbatim>\<open>scancode\<close> is an \<^verbatim>\<open>unsigned char\<close>, so \<^verbatim>\<open>scancode |= 0xe000\<close> keeps its low 8 bits. \<open>key_down\<close> is the part
  of \<^verbatim>\<open>keyboard_cb\<close> after the release of a key has been handled.
\<close>

definition key_down :: "u16 \<Rightarrow> nat \<Rightarrow> 's kbd_scheme \<Rightarrow> 's kbd_scheme" where
  "key_down makecode ext s =
     (let s1 = keymap_set makecode ext 1 s;
          s2 = (if makecode = KEY_NUMLOCK then s1\<lparr>numlock_state := \<not> numlock_state s1\<rparr>
                else if makecode = KEY_CAPSLOCK then s1\<lparr>capslock_state := \<not> capslock_state s1\<rparr>
                else if makecode = KEY_SCRLOCK then s1\<lparr>scrlock_state := \<not> scrlock_state s1\<rparr>
                else s1);
          c = keymap_get s2 makecode 0;
          shift = (if capslock_state s2 \<and> 0x61 \<le> c \<and> c \<le> 0x7A then True else False);
          shift' = (if shift_state s2 then \<not> shift else shift);
          ch = (if ext = 3 \<and> makecode \<noteq> KEY_SLASH then keymap_get s2 makecode 1
                else keymap_get s2 makecode (if shift' then 1 else 0))
      in if ch = INV then s2 else fb_write_char ch s2)"

definition keyboard_cb :: "device \<Rightarrow> 's kbd_scheme \<Rightarrow> 's kbd_scheme" where
  "keyboard_cb d s =
     (let (scancode, l) = inb d KBD_DATA_PORT (iolog s);
          s0 = s\<lparr>iolog := l\<rparr>
      in if scancode = 0xe0 then s0\<lparr>extcode_state := True\<rparr>
         else let ext = (if extcode_state s0 then 3 else 2);
                  scancode1 = (if extcode_state s0 then ucast (ucast scancode OR 0xe000 :: u32) else scancode) :: u8;
                  s1 = (if extcode_state s0 then s0\<lparr>extcode_state := False\<rparr> else s0);
                  m0 = ucast (scancode1 AND 0x7f) :: u16;
                  makecode = (if m0 = CODE_PRINT_SCREEN_DOWN then KEY_PRINT_SCREEN else m0)
              in if KEY_PRINT_SCREEN < makecode then s1
                 else if scancode1 AND 0x80 \<noteq> 0 then keymap_set makecode ext 0 s1
                 else key_down makecode ext s1)"

definition init_keyboard :: "u32 \<Rightarrow> 's isr_scheme \<Rightarrow> 's isr_scheme" where
  "init_keyboard keyboard_cb_addr s = register_interrupt_handler 33 keyboard_cb_addr s"

section \<open>The keyboard as a machine\<close>

text \<open>
  What the keyboard driver is to do with the stream of scan codes: \<open>kstep\<close> gives the next state
  and the character typed, if any. A key is its code and whether it is the extended twin.
\<close>

record kspec =
  pressed :: "(nat \<times> bool) set"
  caps :: bool
  num :: bool
  scr :: bool
  pre :: bool

definition legend :: "nat \<Rightarrow> u8 \<times> u8" where
  "legend code = (keymap_init ! code ! 0, keymap_init ! code ! 1)"

definition toggle_locks :: "nat \<Rightarrow> kspec \<Rightarrow> kspec" where
  "toggle_locks code k =
     k\<lparr>num := (num k \<noteq> (code = 0x45)), caps := (caps k \<noteq> (code = 0x3A)), scr := (scr k \<noteq> (code = 0x46))\<rparr>"

definition glyph :: "nat \<Rightarrow> bool \<Rightarrow> kspec \<Rightarrow> u8 option" where
  "glyph code e k =
     (let lo = fst (legend code); up = snd (legend code);
          letter = (lo \<in> {0x61..0x7A});
          shifted = ((0x2A, False) \<in> pressed k \<or> (0x36, False) \<in> pressed k);
          ch = (if e \<and> code \<noteq> 0x35 \<or> (\<not> e \<or> code = 0x35) \<and> (caps k \<and> letter) \<noteq> shifted then up else lo)
      in if ch = 0 then None else Some ch)"

definition kstep :: "u8 \<Rightarrow> kspec \<Rightarrow> kspec \<times> u8 option" where
  "kstep c k =
     (if c = 0xE0 then (k\<lparr>pre := True\<rparr>, None)
      else let e = pre k; k1 = k\<lparr>pre := False\<rparr>; code = unat c mod 128
           in if 95 < code then (k1, None)
              else if 128 \<le> unat c then (k1\<lparr>pressed := pressed k1 - {(code, e)}\<rparr>, None)
              else let k2 = toggle_locks code (k1\<lparr>pressed := insert (code, e) (pressed k1)\<rparr>)
                   in (k2, glyph code e k2))"

definition kbd_ok :: "'s kbd_scheme \<Rightarrow> bool" where
  "kbd_ok s \<longleftrightarrow> length (keymap s) = 96 \<and>
     (\<forall>k < 96. length (keymap s ! k) = 4 \<and> keymap s ! k ! 0 = keymap_init ! k ! 0 \<and> keymap s ! k ! 1 = keymap_init ! k ! 1)"

definition kbd_abs :: "'s kbd_scheme \<Rightarrow> kspec" where
  "kbd_abs s = \<lparr>pressed = {(k, e). k < 96 \<and> keymap s ! k ! (if e then 3 else 2) \<noteq> 0},
     caps = capslock_state s, num = numlock_state s, scr = scrlock_state s, pre = extcode_state s\<rparr>"

lemma fb_write_char_kbd [simp]:
  fixes s :: "'s kbd_scheme"
  shows "keymap (fb_write_char c s) = keymap s" "capslock_state (fb_write_char c s) = capslock_state s"
    "numlock_state (fb_write_char c s) = numlock_state s" "scrlock_state (fb_write_char c s) = scrlock_state s"
    "extcode_state (fb_write_char c s) = extcode_state s"
  by (simp_all add: fb_write_char_def fb_put_def fb_move_cursor_def fb_write_cell_def Let_def)

lemma kbd_write_char: "kbd_ok (fb_write_char c s) = kbd_ok s" "kbd_abs (fb_write_char c s) = kbd_abs s"
  by (simp_all add: kbd_ok_def kbd_abs_def)

lemma keymap_set_ok:
  assumes "kbd_ok s" and "unat k < 96" and "j = 2 \<or> j = 3"
  shows "kbd_ok (keymap_set k j v s)"
    and "kbd_abs (keymap_set k j v s) = (kbd_abs s)\<lparr>pressed :=
      (if v = 0 then pressed (kbd_abs s) - {(unat k, j = 3)} else insert (unat k, j = 3) (pressed (kbd_abs s)))\<rparr>"
  using assms by (auto simp: kbd_ok_def kbd_abs_def keymap_set_def nth_list_update split: if_splits)

lemma scancode_mask: "(ucast (ucast (c :: u8) OR 0xe000 :: u32) :: u8) = c"
proof -
  have "(ucast (ucast c OR 0xe000 :: u32) :: u8) = c OR 57344"
    by (rule bit_word_eqI) (auto simp: bit_simps)
  moreover have "(57344 :: u8) = 0" by simp
  ultimately show ?thesis by (metis or.right_neutral)
qed

lemma makecode_bits:
  fixes c :: u8
  shows "unat (ucast (c AND 0x7f) :: u16) = unat c mod 128"
    and "c AND 0x80 \<noteq> 0 \<longleftrightarrow> 128 \<le> unat c"
proof -
  have lt: "unat c < 256" using unsigned_less [of c] by simp
  have "c AND 0x7f = take_bit 7 c" by (simp add: take_bit_eq_mask mask_eq_exp_minus_1)
  then show "unat (ucast (c AND 0x7f) :: u16) = unat c mod 128"
    by (simp add: unsigned_ucast_eq unsigned_take_bit_eq take_bit_eq_mod unat_mod)
  have "c AND 0x80 \<noteq> 0 \<longleftrightarrow> bit c 7" using and_exp_eq_0_iff_not_bit [of c 7] by simp
  also have "\<dots> \<longleftrightarrow> bit (unat c) 7" by (simp add: bit_unsigned_iff)
  also have "\<dots> \<longleftrightarrow> odd (unat c div 128)" by (simp add: bit_iff_odd)
  also have "\<dots> \<longleftrightarrow> 128 \<le> unat c" 
  proof -
    have "unat c div 128 = (if unat c < 128 then 0 else 1)" using lt by (auto intro: div_nat_eqI)
    then show ?thesis by simp
  qed
  finally show "c AND 0x80 \<noteq> 0 \<longleftrightarrow> 128 \<le> unat c" .
qed

definition heap_part :: "'s heap_scheme \<Rightarrow> heap" where
  "heap_part s = heap.truncate s"

lemma heap_part_kbd [simp]:
  fixes s :: "'s kbd_scheme"
  shows "heap_part (s\<lparr>keymap := km\<rparr>) = heap_part s" "heap_part (s\<lparr>capslock_state := b\<rparr>) = heap_part s"
    "heap_part (s\<lparr>numlock_state := b\<rparr>) = heap_part s" "heap_part (s\<lparr>scrlock_state := b\<rparr>) = heap_part s"
    "heap_part (s\<lparr>extcode_state := b\<rparr>) = heap_part s"
  by (simp_all add: heap_part_def heap.truncate_def)

lemma u16_code: "makecode = (k :: u16) \<longleftrightarrow> unat makecode = unat k"
  by (simp add: word_unat_eq_iff)

lemma key_down_ok:
  fixes s :: "'s kbd_scheme"
  assumes ok: "kbd_ok s" and k: "unat makecode < 96" and ext: "ext = (if e then 3 else 2)"
  defines "k2 \<equiv> toggle_locks (unat makecode) ((kbd_abs s)\<lparr>pressed := insert (unat makecode, e) (pressed (kbd_abs s))\<rparr>)"
  shows "\<exists>s2. key_down makecode ext s = (case glyph (unat makecode) e k2 of None \<Rightarrow> s2 | Some ch \<Rightarrow> fb_write_char ch s2) \<and>
     kbd_ok s2 \<and> kbd_abs s2 = k2 \<and> heap_part s2 = heap_part s"
proof -
  let ?s1 = "keymap_set makecode ext 1 s"
  define s2 where "s2 = (if makecode = KEY_NUMLOCK then ?s1\<lparr>numlock_state := \<not> numlock_state ?s1\<rparr>
                else if makecode = KEY_CAPSLOCK then ?s1\<lparr>capslock_state := \<not> capslock_state ?s1\<rparr>
                else if makecode = KEY_SCRLOCK then ?s1\<lparr>scrlock_state := \<not> scrlock_state ?s1\<rparr>
                else ?s1)"
  have s1: "kbd_ok ?s1" "kbd_abs ?s1 = (kbd_abs s)\<lparr>pressed := insert (unat makecode, e) (pressed (kbd_abs s))\<rparr>"
    using keymap_set_ok [OF ok k, of ext 1] ext by (auto split: if_splits)
  have "keymap s2 = keymap ?s1" by (simp add: s2_def)
  then have ok2: "kbd_ok s2" using s1(1) by (simp add: kbd_ok_def)
  have abs2: "kbd_abs s2 = k2"
    unfolding k2_def s1(2) [symmetric]
    by (auto simp: s2_def kbd_abs_def toggle_locks_def u16_code)
  have sh: "shift_state s2 \<longleftrightarrow> (0x2A, False) \<in> pressed k2 \<or> (0x36, False) \<in> pressed k2"
    unfolding abs2 [symmetric] by (simp add: shift_state_def keymap_get_def kbd_abs_def)
  have cp: "capslock_state s2 = caps k2" unfolding abs2 [symmetric] by (simp add: kbd_abs_def)
  have lg: "keymap_get s2 makecode 0 = fst (legend (unat makecode))" "keymap_get s2 makecode 1 = snd (legend (unat makecode))"
    using ok2 k by (simp_all add: kbd_ok_def keymap_get_def legend_def)
  have "key_down makecode ext s = (case glyph (unat makecode) e k2 of None \<Rightarrow> s2 | Some ch \<Rightarrow> fb_write_char ch s2)"
    unfolding key_down_def Let_def s2_def [symmetric] sh cp glyph_def
    using lg ext by (auto simp: u16_code)
  moreover have "heap_part s2 = heap_part s" by (simp add: s2_def keymap_set_def)
  ultimately show ?thesis using ok2 abs2 by blast
qed

definition typed :: "u8 option \<Rightarrow> 's kbd_scheme \<Rightarrow> 's kbd_scheme" where
  "typed out s = (case out of None \<Rightarrow> s | Some ch \<Rightarrow> fb_write_char ch s)"

lemma keyboard_cb_ok:
  fixes s :: "'s kbd_scheme"
  assumes ok: "kbd_ok s" and c: "dev8 d (iolog s) 0x60 = c"
  shows "\<exists>s2. keyboard_cb d s = typed (snd (kstep c (kbd_abs s))) s2 \<and> kbd_ok s2 \<and>
     kbd_abs s2 = fst (kstep c (kbd_abs s)) \<and> heap_part s2 = heap_part (s\<lparr>iolog := iolog s @ [Inb 0x60]\<rparr>)"
proof -
  let ?l = "iolog s @ [Inb 0x60]" and ?code = "unat c mod 128" and ?e = "extcode_state s"
  let ?s1 = "s\<lparr>iolog := ?l, extcode_state := False\<rparr>"
  let ?m = "ucast (c AND 0x7f) :: u16"
  let ?ext = "if ?e then 3 else 2 :: nat"
  have m: "unat ?m = ?code" "?m \<noteq> 0xB7" using makecode_bits(1) [of c] by (auto simp: u16_code)
  have s1: "kbd_ok ?s1" "kbd_abs ?s1 = (kbd_abs s)\<lparr>pre := False\<rparr>" "pre (kbd_abs s) = ?e"
    using ok by (simp_all add: kbd_ok_def kbd_abs_def)
  have run: "keyboard_cb d s = (if c = 0xe0 then s\<lparr>iolog := ?l, extcode_state := True\<rparr>
      else if 95 < ?code then ?s1
      else if 128 \<le> unat c then keymap_set ?m ?ext 0 ?s1 else key_down ?m ?ext ?s1)"
  proof -
    have s0: "\<not> ?e \<Longrightarrow> s\<lparr>iolog := ?l\<rparr> = ?s1" by simp
    have "0x5F < ?m \<longleftrightarrow> 95 < ?code" using m(1) by (simp add: word_less_nat_alt)
    then show ?thesis
      using c m(2) makecode_bits(2) [of c]
      by (cases ?e) (simp_all add: keyboard_cb_def inb_def Let_def scancode_mask s0 [symmetric])
  qed
  have hp: "heap_part ?s1 = heap_part (s\<lparr>iolog := ?l\<rparr>)" by simp
  consider "c = 0xe0" | "c \<noteq> 0xe0" "95 < ?code" | "c \<noteq> 0xe0" "?code \<le> 95" "128 \<le> unat c"
    | "c \<noteq> 0xe0" "?code \<le> 95" "\<not> 128 \<le> unat c" by linarith
  then show ?thesis
  proof cases
    case 1
    then show ?thesis using run ok by (intro exI [of _ "s\<lparr>iolog := ?l, extcode_state := True\<rparr>"])
      (simp add: kstep_def typed_def kbd_ok_def kbd_abs_def)
  next
    case 2
    then show ?thesis using run s1 hp by (intro exI [of _ ?s1]) (simp add: kstep_def typed_def Let_def)
  next
    case 3
    let ?s2 = "keymap_set ?m ?ext 0 ?s1"
    have "kbd_ok ?s2" "kbd_abs ?s2 = (kbd_abs ?s1)\<lparr>pressed := pressed (kbd_abs ?s1) - {(?code, ?e)}\<rparr>"
      using keymap_set_ok [OF s1(1), of ?m ?ext 0] 3 m(1) by auto
    moreover have "heap_part ?s2 = heap_part ?s1" by (simp add: keymap_set_def)
    ultimately show ?thesis using run 3 s1 hp by (intro exI [of _ ?s2]) (simp add: kstep_def typed_def Let_def)
  next
    case 4
    from key_down_ok [OF s1(1), of ?m ?ext ?e] m(1) 4 obtain s2 where
      "key_down ?m ?ext ?s1 = typed (snd (kstep c (kbd_abs s))) s2" "kbd_ok s2" "kbd_abs s2 = fst (kstep c (kbd_abs s))"
      "heap_part s2 = heap_part ?s1"
      using s1 by (auto simp: kstep_def typed_def Let_def)
    then show ?thesis using run 4 hp by auto
  qed
qed

text \<open>
  C16: \<^verbatim>\<open>keyboard_cb\<close> refines the keyboard machine \<^verbatim>\<open>kstep\<close>: with the scan code \<^verbatim>\<open>c\<close> at the data port, the
  table stays well formed, the pressed keys, the locks and the prefix state change as the machine
  says, exactly the character it types is written to the screen, and nothing else of the kernel
  changes.
\<close>

theorem keyboard_cb_refines:
  fixes s :: "'s kbd_scheme"
  assumes "kbd_ok s" and "dev8 d (iolog s) 0x60 = c"
  shows "kbd_ok (keyboard_cb d s) \<and> kbd_abs (keyboard_cb d s) = fst (kstep c (kbd_abs s)) \<and>
     (\<exists>s2. heap_part s2 = heap_part (s\<lparr>iolog := iolog s @ [Inb 0x60]\<rparr>) \<and> keyboard_cb d s = typed (snd (kstep c (kbd_abs s))) s2)"
  using keyboard_cb_ok [OF assms] by (auto simp: typed_def kbd_write_char split: option.splits)

section \<open>Instances and the PrintScreen key\<close>

definition small_kbd :: kbd where
  "small_kbd = heap.extend small_heap \<lparr>keymap = keymap_init, capslock_state = False, scrlock_state = False,
     numlock_state = False, extcode_state = False\<rparr>"

lemma small_kbd_ok: "kbd_ok small_kbd"
proof -
  have "\<forall>r \<in> set keymap_init. length r = 4" "length keymap_init = 96" by (simp_all add: keymap_init_def)
  then show ?thesis by (simp add: kbd_ok_def small_kbd_def heap.defs)
qed

lemma small_kbd_abs: "kbd_abs small_kbd = \<lparr>pressed = {}, caps = False, num = False, scr = False, pre = False\<rparr>"
proof -
  have z: "\<forall>r \<in> set keymap_init. r ! 2 = 0 \<and> r ! 3 = 0" "length keymap_init = 96" by (simp_all add: keymap_init_def)
  then have "keymap_init ! k ! (if e then 3 else 2) = 0" if "k < 96" for k e using that by auto
  then show ?thesis by (auto simp: kbd_abs_def small_kbd_def heap.defs)
qed

theorem keyboard_cb_refines_witness:
  "\<exists>s2. keyboard_cb \<lparr>dev8 = \<lambda>_ _. 0x1E, dev16 = \<lambda>_ _. 0, dev32 = \<lambda>_ _. 0\<rparr> small_kbd = fb_write_char 0x61 s2"
proof -
  have "keymap_init ! 30 = [0x61, 0x41, 0, 0]" by (simp add: keymap_init_def)
  then have "snd (kstep 0x1E (kbd_abs small_kbd)) = Some 0x61"
    by (simp add: kstep_def small_kbd_abs toggle_locks_def glyph_def legend_def Let_def)
  then show ?thesis
    using keyboard_cb_refines [OF small_kbd_ok, of "\<lparr>dev8 = \<lambda>_ _. 0x1E, dev16 = \<lambda>_ _. 0, dev32 = \<lambda>_ _. 0\<rparr>" "0x1E"]
    by (auto simp: typed_def)
qed

text \<open>
  The PrintScreen key, whose scan code is 0xe0 0x37, types an asterisk and is not recorded as
  pressed: the byte variable \<^verbatim>\<open>scancode\<close> loses the prefix, and the make code has 7 bits and is never
  0xB7.
\<close>

theorem print_screen_types_star:
  fixes s :: "'s kbd_scheme"
  assumes "kbd_ok s" and "extcode_state s" and "dev8 d (iolog s) 0x60 = 0x37"
  shows "\<exists>s2. keyboard_cb d s = fb_write_char 0x2A s2 \<and> (0x5F, True) \<in> pressed (kbd_abs s2) = ((0x5F, True) \<in> pressed (kbd_abs s))"
proof -
  have "keymap_init ! 55 = [0x2A, 0x2A, 0, 0]" by (simp add: keymap_init_def)
  then have "snd (kstep 0x37 (kbd_abs s)) = Some 0x2A" "pressed (fst (kstep 0x37 (kbd_abs s))) = insert (0x37, True) (pressed (kbd_abs s))"
    using assms(2) by (simp_all add: kstep_def toggle_locks_def glyph_def legend_def Let_def kbd_abs_def)
  then show ?thesis using keyboard_cb_ok [OF assms(1,3)] by (auto simp: typed_def)
qed

theorem print_screen_types_star_witness:
  "\<exists>s2. keyboard_cb \<lparr>dev8 = \<lambda>_ _. 0x37, dev16 = \<lambda>_ _. 0, dev32 = \<lambda>_ _. 0\<rparr> (small_kbd\<lparr>extcode_state := True\<rparr>) = fb_write_char 0x2A s2"
proof -
  have "kbd_ok (small_kbd\<lparr>extcode_state := True\<rparr>)" using small_kbd_ok by (simp add: kbd_ok_def)
  then show ?thesis
    using print_screen_types_star [of "small_kbd\<lparr>extcode_state := True\<rparr>" "\<lparr>dev8 = \<lambda>_ _. 0x37, dev16 = \<lambda>_ _. 0, dev32 = \<lambda>_ _. 0\<rparr>"]
    by auto
qed

end
