(* ===== verification/Timer.thy ===== *)
theory Timer
  imports Klist
begin

text \<open>
  The programmable interval timer and the list of timer callbacks,
  \<^verbatim>\<open>src/src/kernel/drivers/timer.c\<close>. \<open>tchain\<close> is the singly linked list of callbacks in memory,
  \<open>timers_ok\<close> its invariant on the heap. \<^verbatim>\<open>sleep\<close>, which nothing calls, waits for interrupts that
  change \<^verbatim>\<open>jiffies\<close> behind its back and is not modelled.
\<close>

section \<open>State\<close>

text \<open>
  \<open>timer_head\<close> is the variable \<^verbatim>\<open>head\<close>; \<^verbatim>\<open>saved_context\<close>, which the handler fills for the scheduler, is
  declared in \<^verbatim>\<open>process.c\<close>. A \<^verbatim>\<open>time_list_node_t\<close> has 24 bytes: the callback at 0, the \<^verbatim>\<open>double\<close> at 4,
  offset at 12, t at 16 and the next node at 20.
\<close>

record timer = heap +
  jiffies :: u32
  frequency_g :: u16
  timer_head :: u32
  saved_context :: registers

abbreviation (input) PIT_TIMER_MAX_HZ :: u32 where "PIT_TIMER_MAX_HZ \<equiv> 1193180"
abbreviation (input) PIT_DATA_PORT0 :: u16 where "PIT_DATA_PORT0 \<equiv> 0x40"
abbreviation (input) PIT_COMMAND_PORT :: u16 where "PIT_COMMAND_PORT \<equiv> 0x43"
abbreviation (input) PIT_REPEAT :: u8 where "PIT_REPEAT \<equiv> 0x36"

abbreviation (input) sizeof_time_list_node :: u32 where "sizeof_time_list_node \<equiv> 24"
abbreviation (input) t_callback :: "'s machine_scheme \<Rightarrow> u32 \<Rightarrow> u32" where "t_callback s p \<equiv> field s p 0"
abbreviation (input) t_offset :: "'s machine_scheme \<Rightarrow> u32 \<Rightarrow> u32" where "t_offset s p \<equiv> field s p 12"
abbreviation (input) t_next :: "'s machine_scheme \<Rightarrow> u32 \<Rightarrow> u32" where "t_next s p \<equiv> field s p 20"

text \<open>
  A callback may return, or leave the kernel for a user context and never come back (the
  scheduler does).
\<close>

datatype ('c, 's) outcome = Returns 's | Enters 'c 's

section \<open>Operations\<close>

text \<open>
  A \<^verbatim>\<open>double\<close> is given by its 64 bits, and the conversion of its product with the frequency to
  \<^verbatim>\<open>uint32_t\<close>, which the floating-point unit computes, is the parameter \<open>scale\<close>.
\<close>

definition register_timer_callback ::
  "(64 word \<Rightarrow> u16 \<Rightarrow> u32) \<Rightarrow> u32 \<Rightarrow> 64 word \<Rightarrow> 's timer_scheme \<Rightarrow> 's timer_scheme res" where
  "register_timer_callback scale callback sec s =
     (let offset = scale sec (frequency_g s);
          jiffy = jiffies s + offset
      in bindE (malloc sizeof_time_list_node s) (\<lambda>(node, s0).
           let s1 = set_field node 0 callback s0;
               s2 = set_field node 8 (ucast (drop_bit 32 sec)) (set_field node 4 (ucast sec) s1);
               s3 = set_field node 12 offset s2;
               s4 = set_field node 16 jiffy s3;
               s5 = set_field node 20 (timer_head s4) s4
           in Inr (s5\<lparr>timer_head := node\<rparr>)))"

text \<open>
  The \<^verbatim>\<open>do\<close> loop. A remainder by zero raises the divide error, whose handler panics. \<open>call\<close> is what
  the function at an address does.
\<close>

partial_function (option) timer_loop ::
  "(u32 \<Rightarrow> 's timer_scheme \<Rightarrow> ('c, 's timer_scheme) outcome res) \<Rightarrow> u32 \<Rightarrow> 's timer_scheme \<Rightarrow>
     ('c, 's timer_scheme) outcome res option" where
  "timer_loop call current s =
     (if t_offset s current = 0 then Some (Inl Panic)
      else case (if jiffies s mod t_offset s current = 0 then call (t_callback s current) s else Inr (Returns s)) of
             Inl e \<Rightarrow> Some (Inl e)
           | Inr (Enters c s1) \<Rightarrow> Some (Inr (Enters c s1))
           | Inr (Returns s1) \<Rightarrow>
               (let current1 = t_next s1 current
                in if current1 \<noteq> 0 \<and> t_next s1 current1 \<noteq> 0 then timer_loop call current1 s1
                   else Some (Inr (Returns s1))))"

definition timer_handler ::
  "(u32 \<Rightarrow> 's timer_scheme \<Rightarrow> ('c, 's timer_scheme) outcome res) \<Rightarrow> registers \<Rightarrow> 's timer_scheme \<Rightarrow>
     ('c, 's timer_scheme) outcome res" where
  "timer_handler call regs s =
     (let s1 = s\<lparr>jiffies := jiffies s + 1, saved_context := regs\<rparr>
      in if timer_head s1 \<noteq> 0
         then bindE (returns (timer_loop call (timer_head s1) s1)) (\<lambda>r. r)
         else Inr (Returns s1))"

definition init_timer :: "u32 \<Rightarrow> u16 \<Rightarrow> 's timer_scheme \<Rightarrow> 's timer_scheme res" where
  "init_timer timer_handler_addr frequency s =
     (let s1 = register_interrupt_handler 32 timer_handler_addr (s\<lparr>frequency_g := frequency\<rparr>)
      in if frequency = 0 then Inl Panic
         else let divisor = PIT_TIMER_MAX_HZ div ucast frequency;
                  low = ucast (divisor AND 0xff) :: u16;
                  high = ucast (drop_bit 8 divisor AND 0xff) :: u16;
                  l1 = outb PIT_COMMAND_PORT PIT_REPEAT (iolog s1);
                  l2 = outb PIT_DATA_PORT0 (ucast low) l1
              in Inr (s1\<lparr>iolog := outb PIT_DATA_PORT0 (ucast high) l2\<rparr>))"

section \<open>The list of callbacks\<close>

fun tchain :: "(u32 \<Rightarrow> nat \<Rightarrow> u32) \<Rightarrow> u32 list \<Rightarrow> bool" where
  "tchain f [] = True"
| "tchain f (x # xs) = (x \<noteq> 0 \<and> f x 20 = (case xs of [] \<Rightarrow> 0 | y # _ \<Rightarrow> y) \<and> tchain f xs)"

text \<open>The nodes a tick looks at: all of a list of one, all but the last of a longer one.\<close>

definition ticked :: "u32 list \<Rightarrow> u32 list" where
  "ticked ns = (if length ns = 1 then ns else butlast ns)"

text \<open>Callbacks that return and leave the list alone: \<open>act\<close> is what they do.\<close>

definition tame :: "(u32 \<Rightarrow> 's timer_scheme \<Rightarrow> ('c, 's timer_scheme) outcome res) \<Rightarrow>
    (u32 \<Rightarrow> 's timer_scheme \<Rightarrow> 's timer_scheme) \<Rightarrow> u32 list \<Rightarrow> bool" where
  "tame call act ns \<longleftrightarrow> (\<forall>h s. call h s = Inr (Returns (act h s)) \<and> jiffies (act h s) = jiffies s \<and>
     (\<forall>x \<in> set ns. \<forall>k. field (act h s) x k = field s x k))"

definition tick_node :: "(u32 \<Rightarrow> 's timer_scheme \<Rightarrow> 's timer_scheme) \<Rightarrow> u32 \<Rightarrow> 's timer_scheme \<Rightarrow> 's timer_scheme" where
  "tick_node act x s = (if jiffies s mod t_offset s x = 0 then act (t_callback s x) s else s)"

lemma tick_node_keeps:
  assumes "tame call act ns"
  shows "x \<in> set ns \<Longrightarrow> field (tick_node act y s) x k = field s x k" "jiffies (tick_node act y s) = jiffies s"
  using assms by (auto simp: tame_def tick_node_def)

lemma tchain_cong: "(\<And>x. x \<in> set xs \<Longrightarrow> f x 20 = g x 20) \<Longrightarrow> tchain f xs = tchain g xs"
  by (induction xs) auto

lemma timer_loop_step:
  assumes "tame call act ns" and "t_offset s x \<noteq> 0"
  shows "timer_loop call x s =
    (let s1 = tick_node act x s; y = t_next s1 x
     in if y \<noteq> 0 \<and> t_next s1 y \<noteq> 0 then timer_loop call y s1 else Some (Inr (Returns s1)))"
proof -
  have "(if jiffies s mod t_offset s x = 0 then call (t_callback s x) s else Inr (Returns s)) = Inr (Returns (tick_node act x s))"
    using assms(1) by (simp add: tame_def tick_node_def)
  then show ?thesis using assms(2) by (subst timer_loop.simps) (simp only: if_False sum.case outcome.case Let_def simp_thms)
qed

lemma timer_loop_tame:
  assumes "tame call act ns" and "set (x # xs) \<subseteq> set ns" and "tchain (field s) (x # xs)"
    and "\<forall>y \<in> set (x # xs). t_offset s y \<noteq> 0"
  shows "timer_loop call x s = Some (Inr (Returns (fold (tick_node act) (ticked (x # xs)) s)))"
  using assms
proof (induction xs arbitrary: x s)
  case Nil
  have "t_next (tick_node act x s) x = 0" using Nil.prems tick_node_keeps(1) [OF Nil.prems(1), of x] by simp
  then show ?case using timer_loop_step [OF Nil.prems(1), of s x] Nil.prems(4) by (simp add: ticked_def Let_def)
next
  case (Cons y ys)
  let ?s1 = "tick_node act x s"
  have k: "field ?s1 z j = field s z j" if "z \<in> set (x # y # ys)" for z j
    using that Cons.prems(2) tick_node_keeps(1) [OF Cons.prems(1)] by blast
  have chain: "tchain (field ?s1) (y # ys)" and nz: "\<forall>z \<in> set (y # ys). t_offset ?s1 z \<noteq> 0"
    using Cons.prems(3,4) k tchain_cong [of "y # ys" "field ?s1" "field s"] by auto
  have nx: "t_next ?s1 x = y" "y \<noteq> 0" "t_next ?s1 y = (case ys of [] \<Rightarrow> 0 | z # _ \<Rightarrow> z)"
    using Cons.prems(3) k [of x 20] k [of y 20] by simp_all
  have IH: "timer_loop call y ?s1 = Some (Inr (Returns (fold (tick_node act) (ticked (y # ys)) ?s1)))"
    using Cons.IH [OF Cons.prems(1) _ chain nz] Cons.prems(2) by simp
  show ?case
    using timer_loop_step [OF Cons.prems(1), of s x] Cons.prems(3,4) nx IH
    by (cases ys) (simp_all add: ticked_def Let_def)
qed

lemma field_timer_vars [simp]:
  "field ((s :: 's timer_scheme)\<lparr>jiffies := j\<rparr>) = field s" "field (s\<lparr>saved_context := r\<rparr>) = field s"
  "field (s\<lparr>timer_head := p\<rparr>) = field s"
  by (simp_all add: field_def fun_eq_iff)

section \<open>Properties\<close>

text \<open>
  A timer interrupt counts the tick, saves the interrupted registers and runs, in list order,
  every callback whose period divides the tick count, except that of the last node of a list of
  two or more, which is never looked at (for callbacks that return and leave the list alone, with
  nonzero periods).
\<close>

theorem timer_handler_ticks:
  fixes s :: "'s timer_scheme"
  assumes "tame call act ns" and "tchain (field s) ns" and "timer_head s = (case ns of [] \<Rightarrow> 0 | x # _ \<Rightarrow> x)"
    and "\<forall>x \<in> set ns. t_offset s x \<noteq> 0"
  shows "timer_handler call regs s =
     Inr (Returns (fold (tick_node act) (ticked ns) (s\<lparr>jiffies := jiffies s + 1, saved_context := regs\<rparr>)))"
proof (cases ns)
  case Nil
  then show ?thesis using assms(3) by (simp add: timer_handler_def ticked_def Let_def)
next
  case (Cons x xs)
  let ?s1 = "s\<lparr>jiffies := jiffies s + 1, saved_context := regs\<rparr>"
  have f: "field ?s1 = field s" by simp
  have "timer_loop call x ?s1 = Some (Inr (Returns (fold (tick_node act) (ticked ns) ?s1)))"
    using timer_loop_tame [OF assms(1), of x xs ?s1] assms(2,4) Cons f by simp
  then show ?thesis using assms(2,3) Cons by (simp add: timer_handler_def Let_def)
qed

definition small_timer :: timer where
  "small_timer = heap.extend small_heap \<lparr>jiffies = 29, frequency_g = 100, timer_head = 0x1000, saved_context = trap_frame 32\<rparr>
     \<lparr>mem := store32 (store32 (store32 (store32 (store32 (\<lambda>_. 0) 0x1000 0xA0) 0x100C 30) 0x1014 0x2000) 0x2000 0xB0) 0x200C 15\<rparr>"

lemma small_timer_fields:
  "field small_timer 0x1000 0 = 0xA0" "field small_timer 0x1000 12 = 30" "field small_timer 0x1000 20 = 0x2000"
  "field small_timer 0x2000 0 = 0xB0" "field small_timer 0x2000 12 = 15" "field small_timer 0x2000 20 = 0"
  "timer_head small_timer = 0x1000" "jiffies small_timer = 29"
  by (simp_all add: small_timer_def field_def load32_def store32_def heap.defs)

text \<open>Both callbacks are due at tick 30, and only the first runs.\<close>

theorem timer_handler_ticks_witness:
  "timer_handler (\<lambda>h s. Inr (Returns (s\<lparr>iolog := iolog s @ [Outl 0 h]\<rparr>))) (trap_frame 32) small_timer =
   Inr (Returns (small_timer\<lparr>jiffies := 30, saved_context := trap_frame 32, iolog := iolog small_timer @ [Outl 0 0xA0]\<rparr>))"
proof -
  have "tame (\<lambda>h s. Inr (Returns (s\<lparr>iolog := iolog s @ [Outl 0 h]\<rparr>))) (\<lambda>h (s :: timer). s\<lparr>iolog := iolog s @ [Outl 0 h]\<rparr>) [0x1000, 0x2000]"
    by (simp add: tame_def field_def)
  from timer_handler_ticks [OF this, of small_timer "trap_frame 32"] show ?thesis
    by (simp add: small_timer_fields ticked_def tick_node_def)
qed

definition timers_ok :: "'s timer_scheme \<Rightarrow> u32 list \<Rightarrow> bool" where
  "timers_ok s ns \<longleftrightarrow> obj_inv s \<and> tchain (field s) ns \<and> timer_head s = (case ns of [] \<Rightarrow> 0 | x # _ \<Rightarrow> x) \<and>
     (\<forall>x \<in> set ns. sized 24 (live_blocks s) x)"

lemma malloc_more:
  fixes s :: "'s heap_scheme"
  assumes "calm s" and "malloc sz s = Inr (p, s')"
  shows "heap.more s' = heap.more s"
proof -
  have "heap.more s' = heap.more s" if "malloc_reuse sz q s = Inr (p, s')" for q
  proof -
    have "printf_safe (lit ''RE:Allocated %d bytes from 0x%x to 0x%x'' @ [10]) [sz, q + 8, q + 8 + sz]"
      by (simp add: lit_def of_char_def)
    moreover have "calm (s\<lparr>mem := (mem s)(q := 1)\<rparr>)" using assms(1) by (simp add: calm_def)
    ultimately show ?thesis
      using that printf_heap [of "lit ''RE:Allocated %d bytes from 0x%x to 0x%x'' @ [10]" "[sz, q + 8, q + 8 + sz]" "s\<lparr>mem := (mem s)(q := 1)\<rparr>"]
      by (auto simp: malloc_reuse_def Let_def bindE_eq_Inr)
  qed
  moreover have "heap.more s' = heap.more s" if "malloc_new sz s = Inr (p, s')"
    using that by (auto simp: malloc_new_def Let_def split: if_splits)
  ultimately show ?thesis
    using assms(2) by (auto simp: malloc_def bindE_eq_Inr split: if_splits option.splits)
qed

lemma malloc_timer_head:
  fixes s :: "'s timer_scheme"
  assumes "calm s" and "malloc sz s = Inr (p, s')"
  shows "timer_head s' = timer_head s"
  using malloc_more [OF assms] by (cases s, cases s') simp

lemma timer_vars_heap [simp]:
  fixes s :: "'s timer_scheme"
  shows "obj_inv (s\<lparr>timer_head := p\<rparr>) = obj_inv s" "live_blocks (s\<lparr>timer_head := p\<rparr>) = live_blocks s"
  by (simp_all add: obj_inv_def heap_inv_def live_blocks_def heap_ok_def)

text \<open>
  \<^verbatim>\<open>register_timer_callback\<close> puts a new node with the callback and its period in front of the
  list of timers and leaves the other nodes unchanged.
\<close>

theorem register_timer_callback_prepends:
  fixes s :: "'s timer_scheme"
  assumes "timers_ok s ns" and "request_ok 24 s" and "malloc 24 s = Inr (p, s0)"
  shows "\<exists>s'. register_timer_callback scale callback sec s = Inr s' \<and> timers_ok s' (p # ns) \<and>
     t_callback s' p = callback \<and> t_offset s' p = scale sec (frequency_g s) \<and>
     (\<forall>x \<in> set ns. \<forall>k. slot 24 k \<longrightarrow> field s' x k = field s x k)"
proof -
  have inv: "obj_inv s" and ns: "\<forall>x \<in> set ns. sized 24 (live_blocks s) x" and ch: "tchain (field s) ns"
    and hd: "timer_head s = (case ns of [] \<Rightarrow> 0 | x # _ \<Rightarrow> x)"
    using assms(1) by (auto simp: timers_ok_def)
  note a = objs.sized_alloc [OF inv assms(2,3)]
  have p: "sized 24 (live_blocks s0) p" using a(2) by simp
  have pn: "p \<noteq> 0" using objs.sized_nonnull [OF a(1) p] .
  have th: "timer_head s0 = timer_head s" using malloc_timer_head [OF _ assms(3)] assms(2) by (simp add: request_ok_def)
  note st = a(1) p objs.sized_poke [where N = 24] objs.sized_peek_poke [where N = 24 and M = 24]
  let ?off = "scale sec (frequency_g s)"
  let ?s5 = "set_field p 20 (timer_head s0) (set_field p 16 (jiffies s + ?off) (set_field p 12 ?off
     (set_field p 8 (ucast (drop_bit 32 sec)) (set_field p 4 (ucast sec) (set_field p 0 callback s0)))))"
  let ?s' = "?s5\<lparr>timer_head := p\<rparr>"
  have run: "register_timer_callback scale callback sec s = Inr ?s'"
    using assms(3) by (simp add: register_timer_callback_def Let_def) (simp add: set_field_def)
  have "obj_inv ?s5" "live_blocks ?s5 = live_blocks s0" by (simp_all add: st)
  then have i: "obj_inv ?s'" "live_blocks ?s' = live_blocks s0" by simp_all
  have pf: "t_callback ?s' p = callback" "t_offset ?s' p = ?off" "t_next ?s' p = timer_head s"
    by (simp_all add: st th)
  have old: "field ?s' x k = field s x k" if "x \<in> set ns" "slot 24 k" for x k
  proof -
    have "sized 24 (live_blocks s) x" "x \<noteq> p" using ns that a(3) [of 24] by auto
    then show ?thesis using that a(4,5) by (simp add: st)
  qed
  have "tchain (field ?s') ns = tchain (field s) ns" by (rule tchain_cong, rule old) simp_all
  then have "timers_ok ?s' (p # ns)"
    using i pf hd ch pn p ns a(4) by (auto simp: timers_ok_def split: list.splits)
  then show ?thesis using run pf old by blast
qed

definition fresh_timer :: timer where
  "fresh_timer = heap.extend small_heap \<lparr>jiffies = 0, frequency_g = 100, timer_head = 0, saved_context = trap_frame 32\<rparr>"

lemma fresh_timer_ok: "timers_ok fresh_timer []" "request_ok 24 fresh_timer" "\<exists>p s0. malloc 24 fresh_timer = Inr (p, s0)"
proof -
  have h: "heap_ok fresh_timer []" using small_heap_ok by (simp add: heap_ok_def fresh_timer_def heap.defs)
  then show "timers_ok fresh_timer []"
    by (auto simp: timers_ok_def obj_inv_def heap_inv_def) (simp_all add: fresh_timer_def heap.defs small_heap_fields)
  have c: "calm fresh_timer" using small_heap_calm by (simp add: calm_def fresh_timer_def heap.defs)
  then show "request_ok 24 fresh_timer"
    by (simp add: request_ok_def) (simp add: fresh_timer_def heap.defs small_heap_fields)
  have "last_alloc fresh_timer = 0xC0200000" "heap_end fresh_timer = 0xC0300000"
    by (simp_all add: fresh_timer_def heap.defs small_heap_fields)
  then show "\<exists>p s0. malloc 24 fresh_timer = Inr (p, s0)" using malloc_fresh [OF h c, of 24] by auto
qed

theorem register_timer_callback_prepends_witness:
  "\<exists>p s'. register_timer_callback (\<lambda>_ f. 3 * ucast f) 0xC0101000 0x4008000000000000 fresh_timer = Inr s' \<and>
     timers_ok s' [p] \<and> t_callback s' p = 0xC0101000 \<and> t_offset s' p = 300"
proof -
  obtain p s0 where "malloc 24 fresh_timer = Inr (p, s0)" using fresh_timer_ok(3) by blast
  moreover have "frequency_g fresh_timer = 100" by (simp add: fresh_timer_def heap.defs)
  ultimately show ?thesis
    using register_timer_callback_prepends [OF fresh_timer_ok(1,2), of p s0 "\<lambda>_ f. 3 * ucast f" "0xC0101000" "0x4008000000000000"]
    by auto
qed

end
