(* ===== verification/Process.thy ===== *)
theory Process
  imports Timer
begin

text \<open>
  Processes and system calls: \<^verbatim>\<open>src/src/kernel/scheduler/process.c\<close>, \<^verbatim>\<open>_exit.c\<close> and \<^verbatim>\<open>syscall.c\<close> of
  \<^verbatim>\<open>src/src/kernel/syscall\<close>. A process is a control block in memory; the process list is the
  linked list of \<open>Klist\<close>. The switch to a process ends in an \<^verbatim>\<open>iret\<close> and does not return: its
  outcome is the user context entered.
\<close>

section \<open>State and layout\<close>

text \<open>
  A \<^verbatim>\<open>pcb_t\<close> has 580 bytes: the name at 0, the saved registers (\<^verbatim>\<open>context_t\<close>) at 512, then pid, list
  node, stack, state, time slice and page directory.
\<close>

record proc = timer +
  process_list :: u32
  current_process :: u32
  last_process :: u32
  prev_jiffies :: u32
  curr_pid :: u32

abbreviation (input) TASK_ZOMBIE :: u32 where "TASK_ZOMBIE \<equiv> 4"
abbreviation (input) TASK_CREATED :: u32 where "TASK_CREATED \<equiv> 64"

abbreviation (input) ctx_eax :: nat where "ctx_eax \<equiv> 0"
abbreviation (input) ctx_ecx :: nat where "ctx_ecx \<equiv> 4"
abbreviation (input) ctx_edx :: nat where "ctx_edx \<equiv> 8"
abbreviation (input) ctx_ebx :: nat where "ctx_ebx \<equiv> 12"
abbreviation (input) ctx_esp :: nat where "ctx_esp \<equiv> 16"
abbreviation (input) ctx_ebp :: nat where "ctx_ebp \<equiv> 20"
abbreviation (input) ctx_esi :: nat where "ctx_esi \<equiv> 24"
abbreviation (input) ctx_edi :: nat where "ctx_edi \<equiv> 28"
abbreviation (input) ctx_eflags :: nat where "ctx_eflags \<equiv> 32"
abbreviation (input) ctx_cr3 :: nat where "ctx_cr3 \<equiv> 36"
abbreviation (input) ctx_eip :: nat where "ctx_eip \<equiv> 40"

abbreviation (input) sizeof_pcb :: u32 where "sizeof_pcb \<equiv> 580"
abbreviation (input) pcb_regs :: "u32 \<Rightarrow> u32" where "pcb_regs p \<equiv> p + 512"
abbreviation (input) pcb_pid :: nat where "pcb_pid \<equiv> 556"
abbreviation (input) pcb_self :: nat where "pcb_self \<equiv> 560"
abbreviation (input) pcb_state :: nat where "pcb_state \<equiv> 568"
abbreviation (input) pcb_page_dir :: nat where "pcb_page_dir \<equiv> 576"

text \<open>
  What \<^verbatim>\<open>user_regs_switch\<close> (\<^verbatim>\<open>context_switch.s\<close>) loads into the processor before its \<^verbatim>\<open>iret\<close> leaves
  the kernel: nothing after a call of it runs.
\<close>

record user_context =
  u_eax :: u32
  u_ecx :: u32
  u_edx :: u32
  u_ebx :: u32
  u_esp :: u32
  u_ebp :: u32
  u_esi :: u32
  u_edi :: u32
  u_eflags :: u32
  u_eip :: u32

definition user_regs_switch :: "u32 \<Rightarrow> 's machine_scheme \<Rightarrow> user_context" where
  "user_regs_switch regs s =
     \<lparr>u_eax = field s regs ctx_eax, u_ecx = field s regs ctx_ecx, u_edx = field s regs ctx_edx, u_ebx = field s regs ctx_ebx,
      u_esp = field s regs ctx_esp, u_ebp = field s regs ctx_ebp, u_esi = field s regs ctx_esi, u_edi = field s regs ctx_edi,
      u_eflags = field s regs ctx_eflags, u_eip = field s regs ctx_eip\<rparr>"

type_synonym 's run = "(user_context, 's) outcome res"

section \<open>Operations\<close>

definition allocate_pid :: "'s proc_scheme \<Rightarrow> u32 \<times> 's proc_scheme" where
  "allocate_pid s = (curr_pid s, s\<lparr>curr_pid := curr_pid s + 1\<rparr>)"

text \<open>The registers to save are a pointer that may be NULL.\<close>

definition save_context :: "registers \<Rightarrow> u32 \<Rightarrow> 's proc_scheme \<Rightarrow> 's proc_scheme" where
  "save_context r regs s =
     (let s1 = set_field regs ctx_eax (r_eax r) s;
          s2 = set_field regs ctx_ebx (r_ebx r) s1;
          s3 = set_field regs ctx_ecx (r_ecx r) s2;
          s4 = set_field regs ctx_edx (r_edx r) s3;
          s5 = set_field regs ctx_esi (r_esi r) s4;
          s6 = set_field regs ctx_edi (r_edi r) s5;
          s7 = set_field regs ctx_ebp (r_ebp r) s6;
          s8 = set_field regs ctx_esp (r_useresp r) s7;
          s9 = set_field regs ctx_eflags (r_eflags r) s8;
          s10 = set_field regs ctx_eip (r_eip r) s9
      in set_field regs ctx_cr3 (cr3 s10) s10)"

definition context_switch :: "registers option \<Rightarrow> u32 \<Rightarrow> 's proc_scheme \<Rightarrow> 's proc_scheme run" where
  "context_switch p_regs n_regs s =
     bindE (if last_process s \<noteq> 0
            then (case p_regs of None \<Rightarrow> Inl OutOfBounds | Some r \<Rightarrow> Inr (save_context r (pcb_regs (last_process s)) s))
            else Inr s) (\<lambda>s1.
       let s2 = s1\<lparr>iolog := ack_irq 0 (iolog s1)\<rparr>;
           s3 = s2\<lparr>last_process := current_process s2\<rparr>
       in Inr (Enters (user_regs_switch n_regs s3) s3))"

definition schedule :: "'s proc_scheme \<Rightarrow> 's proc_scheme run" where
  "schedule s =
     (if list_size (process_list s) s = 0 then Inr (Returns s)
      else if current_process s = 0
      then (let s1 = s\<lparr>prev_jiffies := jiffies s\<rparr>;
                s2 = s1\<lparr>current_process := list_peek_front (process_list s1) s1\<rparr>;
                s3 = s2\<lparr>last_process := 0\<rparr>
            in context_switch None (pcb_regs (current_process s3)) s3)
      else let self = field s (current_process s) pcb_self;
               nextnode = node_next s self
           in bindE (if field s (current_process s) pcb_state = TASK_ZOMBIE
                     then bindE (list_remove_node (process_list s) self s) (\<lambda>(_, s1). Inr (s1\<lparr>last_process := 0\<rparr>))
                     else Inr s) (\<lambda>s1.
                let nxt = (if nextnode = 0 then list_peek_front (process_list s1) s1 else node_val s1 nextnode);
                    s2 = s1\<lparr>current_process := nxt\<rparr>
                in if current_process s2 = 0 then Inl Panic
                   else bindE (printf (lit ''Scheduler chose %s to run at 0x%08x'' @ [10])
                                 [current_process s2, field s2 (pcb_regs (current_process s2)) ctx_eip] s2) (\<lambda>s3.
                        context_switch (Some (saved_context s3)) (pcb_regs nxt) s3)))"

definition create_process_from_routine :: "u32 \<Rightarrow> u32 \<Rightarrow> 's proc_scheme \<Rightarrow> 's proc_scheme res" where
  "create_process_from_routine routine name s =
     bindE (kcalloc sizeof_pcb 1 s) (\<lambda>(p1, s0).
       let (pid, s1) = allocate_pid s0;
           s2 = set_field p1 pcb_pid pid s1;
           s3 = set_field (pcb_regs p1) ctx_eip routine s2;
           s4 = set_field (pcb_regs p1) ctx_eflags 0x206 s3
       in bindE (returns (strcpy (mem s4) p1 name)) (\<lambda>(m, _).
            let s5 = s4\<lparr>mem := m\<rparr>;
                s6 = set_field (pcb_regs p1) ctx_esp 0xC0400000 s5;
                s7 = set_field p1 pcb_page_dir (cur_dir s6) s6;
                s8 = set_field (pcb_regs p1) ctx_cr3 (virt2phys (cur_dir s7) (field s7 p1 pcb_page_dir) s7) s7;
                s9 = set_field p1 pcb_state TASK_CREATED s8;
                s10 = (if current_process s9 = 0 then s9\<lparr>current_process := p1\<rparr> else s9)
            in bindE (list_insert_front (process_list s10) p1 s10) (\<lambda>(node, s11).
                 printf (lit ''%s created'' @ [10]) [name] (set_field p1 pcb_self node s11))))"

text \<open>\<open>period\<close> is the floating-point quotient \<^verbatim>\<open>30.0/frequency_g\<close>.\<close>

definition process_init ::
  "(64 word \<Rightarrow> u16 \<Rightarrow> u32) \<Rightarrow> (u16 \<Rightarrow> 64 word) \<Rightarrow> u32 \<Rightarrow> 's proc_scheme \<Rightarrow> 's proc_scheme res" where
  "process_init scale period schedule_addr s =
     bindE (list_create s) (\<lambda>(l, s1).
       let s2 = s1\<lparr>process_list := l\<rparr>
       in register_timer_callback scale schedule_addr (period (frequency_g s2)) s2)"

definition exit_process :: "'s proc_scheme \<Rightarrow> 's proc_scheme run" where
  "exit_process s = schedule (set_field (current_process s) pcb_state TASK_ZOMBIE s)"

section \<open>System calls\<close>

datatype api = Null | Schedule | Printf | Create_process_from_routine | Exit

abbreviation (input) NUM_SYSCALLS :: u32 where "NUM_SYSCALLS \<equiv> 5"

definition syscall_table :: "api list" where
  "syscall_table = [Null, Schedule, Printf, Create_process_from_routine, Exit]"

text \<open>
  The five words pushed are the arguments. The format of \<^verbatim>\<open>printf\<close> is a string in memory; a call
  through the NULL entry runs whatever is at address 0.
\<close>

definition call_api :: "api \<Rightarrow> u32 list \<Rightarrow> 's proc_scheme \<Rightarrow> 's proc_scheme run" where
  "call_api f args s =
     (case f of
        Null \<Rightarrow> Inl OutOfBounds
      | Schedule \<Rightarrow> schedule s
      | Printf \<Rightarrow> bindE (returns (cstr_at (mem s) (args ! 0))) (\<lambda>fmt. bindE (printf fmt (tl args) s) (\<lambda>s1. Inr (Returns s1)))
      | Create_process_from_routine \<Rightarrow> bindE (create_process_from_routine (args ! 0) (args ! 1) s) (\<lambda>s1. Inr (Returns s1))
      | Exit \<Rightarrow> exit_process s)"

text \<open>\<open>ret\<close> is what the called function leaves in \<^verbatim>\<open>eax\<close>.\<close>

definition syscall_dispatcher :: "u32 \<Rightarrow> registers \<Rightarrow> 's proc_scheme \<Rightarrow> (user_context, registers \<times> 's proc_scheme) outcome res" where
  "syscall_dispatcher ret regs s =
     (if NUM_SYSCALLS \<le> r_eax regs then Inr (Returns (regs, s))
      else let system_api = syscall_table ! unat (r_eax regs);
               s1 = s\<lparr>saved_context := regs\<rparr>
           in bindE (call_api system_api [r_ebx regs, r_ecx regs, r_edx regs, r_esi regs, r_edi regs] s1) (\<lambda>r.
                case r of Returns s2 \<Rightarrow> Inr (Returns (regs\<lparr>r_eax := ret\<rparr>, s2))
                        | Enters c s2 \<Rightarrow> Inr (Enters c (regs, s2))))"

definition syscall_init :: "u32 \<Rightarrow> 's isr_scheme \<Rightarrow> 's isr_scheme" where
  "syscall_init dispatcher_addr s = register_interrupt_handler 0x80 dispatcher_addr s"

section \<open>Saving and restoring registers\<close>

lemma field_same_object:
  assumes "i + 4 \<le> j \<or> j + 4 \<le> i" and "i < 65536" "j < 65536"
  shows "field (set_field q i v s) q j = field s q j"
proof -
  have ij: "unat (of_nat i :: u32) = i" "unat (of_nat j :: u32) = j" using assms(2,3) by (simp_all add: unat_of_nat_u32)
  have "4 \<le> unat (of_nat j - of_nat i :: u32)" "4 \<le> unat (of_nat i - of_nat j :: u32)"
    using assms ij by (auto simp: unat_sub_if_size word_size)
  then have "disj_ivl (q + of_nat i) 4 (q + of_nat j) 4" by (simp add: disj_ivl_def word_le_nat_alt)
  then show ?thesis by (simp add: field_def set_field_def load32_store32_disj)
qed

lemmas same_object = field_same_object field_set_field_same

definition saved :: "registers \<Rightarrow> user_context" where
  "saved r = \<lparr>u_eax = r_eax r, u_ecx = r_ecx r, u_edx = r_edx r, u_ebx = r_ebx r, u_esp = r_useresp r, u_ebp = r_ebp r,
     u_esi = r_esi r, u_edi = r_edi r, u_eflags = r_eflags r, u_eip = r_eip r\<rparr>"

lemma restore_saved: "user_regs_switch p (save_context r p s) = saved r"
  by (simp add: user_regs_switch_def save_context_def saved_def Let_def same_object)

lemma user_regs_switch_vars [simp]:
  "user_regs_switch p ((s :: 's proc_scheme)\<lparr>iolog := l\<rparr>) = user_regs_switch p s"
  "user_regs_switch p (s\<lparr>last_process := q\<rparr>) = user_regs_switch p s"
  by (simp_all add: user_regs_switch_def field_def)

text \<open>
  C14: \<^verbatim>\<open>context_switch\<close> leaves the kernel for the context at its second argument, and what it stored
  in the control block of the process that ran before is exactly the interrupted register set: a
  later switch to that block restores eax to edi, the user stack pointer, eflags and eip as they
  were.
\<close>

theorem context_switch_roundtrip:
  fixes s :: "'s proc_scheme"
  assumes "last_process s \<noteq> 0"
  shows "\<exists>s'. context_switch (Some r) n s = Inr (Enters (user_regs_switch n s') s') \<and> last_process s' = current_process s \<and>
     user_regs_switch (pcb_regs (last_process s)) s' = saved r"
  using assms by (simp add: context_switch_def Let_def restore_saved) (simp add: save_context_def Let_def set_field_def)

section \<open>printf with strings\<close>

function printf_with :: "(u32 \<Rightarrow> bool) \<Rightarrow> u8 list \<Rightarrow> u32 list \<Rightarrow> bool" where
  "printf_with P [] args = True"
| "printf_with P (c # fmt) args =
     (if c \<noteq> 37 then printf_with P fmt args
      else (case printf_spec fmt of None \<Rightarrow> False
            | Some (pad0, pad, c', rest) \<Rightarrow>
                (case args of [] \<Rightarrow> False
                 | v # args' \<Rightarrow> (c' = 115 \<longrightarrow> P v) \<and> printf_with P rest args')))"
  by pat_completeness auto
termination
  by (relation "measure (\<lambda>(P, fmt, args). length fmt)") (auto dest: printf_spec_length)

text \<open>A string that the screen does not overlap.\<close>

definition text_at :: "u32 \<Rightarrow> mem \<Rightarrow> u32 \<Rightarrow> bool" where
  "text_at fb m p \<longleftrightarrow> (\<exists>t. cstr m p t \<and> (\<forall>i \<le> length t. \<not> in_window fb (p + of_nat i)))"

lemma cstr_agree: "cstr m p t \<Longrightarrow> (\<And>i. i \<le> length t \<Longrightarrow> m' (p + of_nat i) = m (p + of_nat i)) \<Longrightarrow> cstr m' p t"
  by (simp add: cstr_nth)

lemma con_frame_fields:
  assumes "con_frame s s'"
  shows "framebuffer_addr s' = framebuffer_addr s" "\<not> in_window (framebuffer_addr s) a \<Longrightarrow> mem s' a = mem s a"
  using assms by (auto simp: con_frame_def)

lemma text_at_frame: "text_at (framebuffer_addr s) (mem s) p \<Longrightarrow> con_frame s s' \<Longrightarrow> text_at (framebuffer_addr s') (mem s') p"
  unfolding text_at_def using con_frame_fields [of s s'] by (auto intro: cstr_agree)

lemma fb_write_str_frame:
  "cstr (mem s) p t \<Longrightarrow> \<forall>i \<le> length t. \<not> in_window (framebuffer_addr s) (p + of_nat i) \<Longrightarrow>
   \<exists>s'. fb_write_str p s = Some s' \<and> con_frame s s'"
proof (induction t arbitrary: p s)
  case Nil
  then show ?case by (subst fb_write_str.simps) (simp add: con_frame_refl)
next
  case (Cons c t)
  let ?s1 = "fb_write_char c s"
  note f = con_frame_fields [OF con_frame_write_char [of s c]]
  have out: "\<not> in_window (framebuffer_addr s) (p + 1 + of_nat i)" if "i \<le> length t" for i
    using Cons.prems(2) [rule_format, of "Suc i"] that by (simp add: add.assoc)
  have "cstr (mem ?s1) (p + 1) t" by (rule cstr_agree [of "mem s"]) (use Cons.prems(1) f(2) out in auto)
  with Cons.IH [of ?s1 "p + 1"] f(1) out obtain s' where "fb_write_str (p + 1) ?s1 = Some s'" "con_frame ?s1 s'" by auto
  moreover have "mem s p = c" "c \<noteq> 0" using Cons.prems(1) by auto
  ultimately show ?case using con_frame_trans [OF con_frame_write_char] by (subst fb_write_str.simps) auto
qed

lemma put_pointer_frame:
  assumes "text_at (framebuffer_addr s) (mem s) p"
  shows "\<exists>s'. put_pointer z n p s = Some s' \<and> con_frame s s'"
proof -
  let ?k = "\<lambda>l. if p + l < p + of_nat n then unat (p + of_nat n - (p + l)) else 0"
  obtain t where t: "cstr (mem s) p t" using assms by (auto simp: text_at_def)
  let ?s1 = "put_bytes (replicate (?k (of_nat (length t))) (pad_char z)) s"
  have f1: "con_frame s ?s1" by (rule con_frame_put_bytes)
  have "text_at (framebuffer_addr ?s1) (mem ?s1) p" by (rule text_at_frame [OF assms f1])
  then obtain s' where "fb_write_str p ?s1 = Some s'" "con_frame ?s1 s'"
    unfolding text_at_def using fb_write_str_frame by blast
  then show ?thesis using strlen_cstr [OF t] con_frame_trans [OF f1] by (auto simp: put_pointer_def Let_def)
qed

lemma printf_conv_with:
  "(c = 115 \<longrightarrow> text_at (framebuffer_addr s) (mem s) v \<and> v \<noteq> 0) \<Longrightarrow> \<exists>s'. printf_conv z n c v s = Some s' \<and> con_frame s s'"
  using num_text_returns [of c v] put_pointer_frame [of s v z n]
  by (cases "c = 115") (auto simp: printf_conv_def con_frame_put_text con_frame_write_char)

lemma printf_loop_with:
  "printf_with (\<lambda>v. text_at fb m v \<and> v \<noteq> 0) fmt args \<Longrightarrow> framebuffer_addr s = fb \<Longrightarrow>
   (\<And>a. \<not> in_window fb a \<Longrightarrow> mem s a = m a) \<Longrightarrow> \<exists>s'. printf_loop fmt args s = Inr s' \<and> con_frame s s'"
proof (induction fmt arbitrary: args s rule: length_induct)
  case (1 fmt)
  have ta: "text_at (framebuffer_addr s) (mem s) v" if "text_at fb m v" for v
    using that "1.prems"(2,3) unfolding text_at_def by (auto intro: cstr_agree)
  show ?case
  proof (cases fmt)
    case Nil
    then show ?thesis by (simp add: con_frame_refl)
  next
    case (Cons c rest0)
    show ?thesis
    proof (cases "c = 37")
      case False
      note f = con_frame_fields [OF con_frame_write_char [of s c]]
      from "1.IH" [rule_format, of rest0 args "fb_write_char c s"] Cons False "1.prems" f
      obtain s' where "printf_loop rest0 args (fb_write_char c s) = Inr s'" "con_frame (fb_write_char c s) s'" by auto
      then show ?thesis using Cons False con_frame_trans [OF con_frame_write_char] by auto
    next
      case True
      with "1.prems"(1) Cons obtain z n c' rest v args' where *: "printf_spec rest0 = Some (z, n, c', rest)"
          "args = v # args'" "c' = 115 \<longrightarrow> text_at fb m v \<and> v \<noteq> 0" "printf_with (\<lambda>v. text_at fb m v \<and> v \<noteq> 0) rest args'"
        by (cases args) (auto split: option.splits)
      obtain t where t: "printf_conv z n c' v s = Some t" "con_frame s t"
        using printf_conv_with [of c' s v z n] *(3) ta by blast
      have "length rest < length fmt" using printf_spec_length [OF *(1)] Cons by simp
      with "1.IH" [rule_format, of rest args' t] *(4) con_frame_fields [OF t(2)] "1.prems"(2,3)
      obtain s' where "printf_loop rest args' t = Inr s'" "con_frame t s'" by auto
      then show ?thesis using True Cons * t con_frame_trans by fastforce
    qed
  qed
qed

lemma printf_text_ok:
  fixes s :: "'s console_scheme"
  assumes "printf_with (\<lambda>v. text_at (framebuffer_addr s) (mem s) v \<and> v \<noteq> 0) fmt args" and "unat (fb_pos_y s) \<le> 400"
  shows "\<exists>s'. printf fmt args s = Inr s' \<and> con_frame s s'"
proof -
  have f: "con_frame s (scroll s)" by (rule con_frame_scroll [OF assms(2)])
  show ?thesis
    using printf_loop_with [OF assms(1), of "scroll s"] con_frame_fields [OF f] con_frame_trans [OF f] unfolding printf_def by blast
qed

section \<open>The scheduler\<close>

definition next_process :: "(u32 \<times> u32) list \<Rightarrow> u32 \<times> u32 \<Rightarrow> (u32 \<times> u32) list \<Rightarrow> u32" where
  "next_process ys x zs = (case zs of [] \<Rightarrow> snd (hd (ys @ [x])) | z # _ \<Rightarrow> snd z)"

lemma list_ok_front:
  fixes s :: "'s heap_scheme"
  assumes "list_ok s l (x # xs)"
  shows "list_peek_front l s = snd x"
  using assms by (auto simp: list_rep_def dlist_def list_peek_front_def)

lemma scheduled_next:
  fixes s :: "'s heap_scheme"
  assumes ok: "list_ok s l (ys @ x # zs)"
  shows "(if node_next s (fst x) = 0 then list_peek_front l s else node_val s (node_next s (fst x))) = next_process ys x zs"
proof -
  note f = list_facts [OF ok]
  have front: "list_peek_front l s = snd (hd (ys @ [x]))"
    using list_ok_front [of s l "hd (ys @ [x])" "tl (ys @ x # zs)"] ok by (cases ys) auto
  show ?thesis
  proof (cases zs)
    case Nil
    then show ?thesis using f(8) front by (simp add: next_process_def)
  next
    case (Cons z zs')
    have "list_ok s l ((ys @ [x]) @ z # zs')" using ok Cons by simp
    note g = list_facts [OF this]
    show ?thesis using f(8) g(4,6) Cons by (simp add: next_process_def)
  qed
qed

definition sched_ok :: "'s proc_scheme \<Rightarrow> (u32 \<times> u32) list \<Rightarrow> u32 \<times> u32 \<Rightarrow> (u32 \<times> u32) list \<Rightarrow> bool" where
  "sched_ok s ys x zs \<longleftrightarrow> list_ok s (process_list s) (ys @ x # zs) \<and> length (ys @ x # zs) < 2 ^ 32 \<and> calm s \<and>
     current_process s = snd x \<and> snd x \<noteq> 0 \<and> field s (snd x) pcb_self = fst x \<and> field s (snd x) pcb_state \<noteq> TASK_ZOMBIE \<and>
     next_process ys x zs \<noteq> 0 \<and> text_at (framebuffer_addr s) (mem s) (next_process ys x zs)"

lemma sched_format: "P v \<Longrightarrow> printf_with P (lit ''Scheduler chose %s to run at 0x%08x'' @ [10]) [v, e]"
  by (simp add: lit_def of_char_def)

lemma schedule_next:
  fixes s :: "'s proc_scheme"
  assumes ok: "sched_ok s ys x zs"
  defines "n \<equiv> next_process ys x zs"
  shows "\<exists>s3. con_frame (s\<lparr>current_process := n\<rparr>) s3 \<and> schedule s = context_switch (Some (saved_context s)) (pcb_regs n) s3"
proof -
  have l: "list_ok s (process_list s) (ys @ x # zs)" and len: "length (ys @ x # zs) < 2 ^ 32"
    using ok by (auto simp: sched_ok_def)
  note f = list_facts [OF l]
  have size: "list_size (process_list s) s \<noteq> 0"
  proof -
    have "process_list s \<noteq> 0" using objs.object_nonnull [OF f(1,2)] .
    moreover have "field s (process_list s) 8 = of_nat (length (ys @ x # zs))" using l by (simp add: list_rep_def dlist_def)
    moreover have "unat (of_nat (length (ys @ x # zs)) :: u32) = length (ys @ x # zs)" using len by (rule unat_of_nat_u32)
    then have "of_nat (length (ys @ x # zs)) \<noteq> (0 :: u32)" by auto
    ultimately show ?thesis by (simp add: list_size_def del: of_nat_add of_nat_Suc length_append list.size)
  qed
  let ?s2 = "s\<lparr>current_process := n\<rparr>"
  have "printf_with (\<lambda>v. text_at (framebuffer_addr ?s2) (mem ?s2) v \<and> v \<noteq> 0) (lit ''Scheduler chose %s to run at 0x%08x'' @ [10])
      [n, field ?s2 (pcb_regs n) ctx_eip]"
    by (rule sched_format) (use ok in \<open>simp add: sched_ok_def n_def\<close>)
  moreover have "unat (fb_pos_y ?s2) \<le> 400" using ok by (simp add: sched_ok_def calm_def)
  ultimately obtain s3 where s3: "printf (lit ''Scheduler chose %s to run at 0x%08x'' @ [10]) [n, field ?s2 (pcb_regs n) ctx_eip] ?s2 = Inr s3"
    "con_frame ?s2 s3" using printf_text_ok by blast
  have "saved_context s3 = saved_context s" using s3(2) by (auto simp: con_frame_def)
  then have "schedule s = context_switch (Some (saved_context s)) (pcb_regs n) s3"
    using ok size scheduled_next [OF l] s3(1)
    by (simp add: schedule_def sched_ok_def Let_def n_def [symmetric] del: bindE_simps) simp
  then show ?thesis using s3(2) by blast
qed

text \<open>
  C15: When the current process is in the process list and not a zombie, \<^verbatim>\<open>schedule\<close> enters the
  process after it in the list, and the first one after the last, makes it the current one, and
  has saved the registers of the process that ran before.
\<close>

theorem schedule_round_robin:
  fixes s :: "'s proc_scheme"
  assumes "sched_ok s ys x zs"
  shows "\<exists>s'. schedule s = Inr (Enters (user_regs_switch (pcb_regs (next_process ys x zs)) s') s') \<and>
     current_process s' = next_process ys x zs \<and> last_process s' = next_process ys x zs \<and>
     (last_process s \<noteq> 0 \<longrightarrow> user_regs_switch (pcb_regs (last_process s)) s' = saved (saved_context s))"
proof -
  obtain s3 where s3: "con_frame (s\<lparr>current_process := next_process ys x zs\<rparr>) s3"
    "schedule s = context_switch (Some (saved_context s)) (pcb_regs (next_process ys x zs)) s3"
    using schedule_next [OF assms] by blast
  have v: "current_process s3 = next_process ys x zs" "last_process s3 = last_process s" using s3(1) by (auto simp: con_frame_def)
  show ?thesis
    using s3(2) v
    by (cases "last_process s = 0") (auto simp: context_switch_def Let_def restore_saved, simp_all add: save_context_def Let_def set_field_def)
qed

section \<open>Instances\<close>

lemma list_ok_extend: "list_ok (heap.extend h m) l xs = list_ok h l xs"
proof -
  have "field (heap.extend h m) = field h" by (simp add: field_def heap.defs fun_eq_iff)
  moreover have "heap_ok (heap.extend h m) bs = heap_ok h bs" for bs by (simp add: heap_ok_def heap.defs)
  ultimately show ?thesis
    by (simp add: list_rep_def obj_inv_def heap_inv_def live_blocks_def) (simp add: heap.defs)
qed

text \<open>Two processes: the first node's value is chosen so that its control block overlaps the list header.\<close>

definition two_procs_heap :: heap where
  "two_procs_heap = set_field 0xC0200020 8 0xC01FFDD8 two_list"

definition two_procs :: proc where
  "two_procs = timer.extend (heap.extend two_procs_heap
       \<lparr>jiffies = 30, frequency_g = 100, timer_head = 0, saved_context = trap_frame 32\<rparr>)
     \<lparr>process_list = 0xC0200008, current_process = 0xC01FFDD8, last_process = 0, prev_jiffies = 0, curr_pid = 2\<rparr>"

lemma two_procs_list: "list_ok two_procs 0xC0200008 [(0xC0200020, 0xC01FFDD8), (0xC0200038, 9)]"
proof -
  have "obj_inv two_list" using two_list_ok by (simp add: list_rep_def)
  note st = this two_list_live objs.step_simps
  have "dlist (field two_procs_heap) 0xC0200008 [(0xC0200020, 0xC01FFDD8), (0xC0200038, 9)]"
    by (simp add: dlist_def two_procs_heap_def st last_node_def) (simp add: field_def two_list_bytes)
  moreover have "obj_inv two_procs_heap" "live_blocks two_procs_heap = live_blocks two_list" by (simp_all add: two_procs_heap_def st)
  ultimately have ok: "list_ok two_procs_heap 0xC0200008 [(0xC0200020, 0xC01FFDD8), (0xC0200038, 9)]"
    using two_list_live by (simp add: list_rep_def)
  have ext: "timer.extend (heap.extend h \<lparr>jiffies = j, frequency_g = f, timer_head = t, saved_context = c\<rparr>) m =
      heap.extend h \<lparr>jiffies = j, frequency_g = f, timer_head = t, saved_context = c, \<dots> = m\<rparr>" for h j f t c m
    by (simp add: timer.defs heap.defs)
  show ?thesis using ok by (simp add: two_procs_def ext list_ok_extend)
qed

lemma two_procs_fields:
  "process_list two_procs = 0xC0200008" "current_process two_procs = 0xC01FFDD8" "last_process two_procs = 0"
  "framebuffer_addr two_procs = 0xB0000000" "fb_pos_y two_procs = 0"
  "mem two_procs = store32 (mem two_list) 0xC0200028 0xC01FFDD8"
  by (simp_all add: two_procs_def timer.defs heap.defs two_procs_heap_def set_field_def)
     (simp_all add: two_list_def small_heap_fields)

lemma two_procs_ok: "sched_ok two_procs [] (0xC0200020, 0xC01FFDD8) [(0xC0200038, 9)]"
proof -
  have "field two_procs 0xC01FFDD8 pcb_self = 0xC0200020" "field two_procs 0xC01FFDD8 pcb_state = 2"
    using two_list_bytes(7,9) by (simp_all add: field_def two_procs_fields load32_store32_disj disj_ivl_def)
  moreover have "mem two_procs 9 = 0"
    by (simp add: two_procs_fields two_list_def Let_def store32_def)
  then have "text_at 0xB0000000 (mem two_procs) 9" unfolding text_at_def
    by (intro exI [of _ "[]"]) (simp add: in_window_def)
  ultimately show ?thesis
    using two_procs_list by (simp add: sched_ok_def two_procs_fields calm_def next_process_def)
qed

theorem schedule_round_robin_witness:
  "\<exists>s'. schedule two_procs = Inr (Enters (user_regs_switch (9 + 512) s') s') \<and> current_process s' = 9"
  using schedule_round_robin [OF two_procs_ok] by (auto simp: next_process_def)

theorem context_switch_roundtrip_witness:
  "\<exists>s'. context_switch (Some (trap_frame 32)) 0x3000 (two_procs\<lparr>last_process := 0x5000\<rparr>) = Inr (Enters (user_regs_switch 0x3000 s') s') \<and>
     user_regs_switch 0x5200 s' = saved (trap_frame 32)"
  using context_switch_roundtrip [of "two_procs\<lparr>last_process := 0x5000\<rparr>" "trap_frame 32" "0x3000"] by auto

end
