(* ===== verification/Creation.thy ===== *)
theory Creation
  imports Process
begin

text \<open>
  What the creation of a process, \<^verbatim>\<open>create_process_from_routine\<close> of
  \<^verbatim>\<open>src/src/kernel/scheduler/process.c\<close>, leaves in memory. \<open>keeps C s s'\<close> says which words and bytes an
  operation on the kernel heap leaves alone, and composes; \<open>roomy n s\<close> is a heap without a free block
  with room for \<open>n\<close> bytes; \<open>filling\<close> is a new object being filled field by field. With them the
  control block, the name in it, the list of processes and the screen are followed through the routine.
\<close>

section \<open>What an operation leaves alone on the heap\<close>

text \<open>
  \<open>keeps C s s'\<close>: the live objects of \<open>s\<close> are still live, those outside \<open>C\<close> have kept all their
  words, and so have the bytes below the heap, the first four apart (a write through a NULL list
  node goes there).
\<close>

definition keeps :: "u32 set \<Rightarrow> 's heap_scheme \<Rightarrow> 's heap_scheme \<Rightarrow> bool" where
  "keeps C s s' \<longleftrightarrow> obj_inv s \<and> obj_inv s' \<and> live_blocks s \<subseteq> live_blocks s' \<and> heap_begin s' = heap_begin s \<and>
     framebuffer_addr s' = framebuffer_addr s \<and>
     (\<forall>q n k. (q, n) \<in> live_blocks s \<longrightarrow> q \<notin> C \<longrightarrow> k + 4 \<le> n \<longrightarrow> field s' q k = field s q k) \<and>
     (\<forall>a. 4 \<le> unat a \<longrightarrow> unat a < unat (heap_begin s) \<longrightarrow> \<not> in_window (framebuffer_addr s) a \<longrightarrow> mem s' a = mem s a)"

lemma keeps_refl: "obj_inv s \<Longrightarrow> keeps C s s"
  by (simp add: keeps_def)

lemma keeps_trans:
  assumes "keeps C s t" and "keeps C t u"
  shows "keeps C s u"
proof -
  have "field u q k = field s q k" if "(q, n) \<in> live_blocks s" "q \<notin> C" "k + 4 \<le> n" for q n k
  proof -
    have "(q, n) \<in> live_blocks t" using assms(1) that(1) by (auto simp: keeps_def)
    then have "field u q k = field t q k" using assms(2) that(2,3) unfolding keeps_def by blast
    moreover have "field t q k = field s q k" using assms(1) that unfolding keeps_def by blast
    ultimately show ?thesis by simp
  qed
  then show ?thesis using assms unfolding keeps_def by auto
qed

lemma keeps_mono: "keeps C s t \<Longrightarrow> C \<subseteq> D \<Longrightarrow> keeps D s t"
  unfolding keeps_def by blast

text \<open>An object allocated on the way does not count.\<close>

lemma keeps_fresh:
  assumes "keeps (insert p C) s t" and "\<And>n. (p, n) \<notin> live_blocks s"
  shows "keeps C s t"
  using assms unfolding keeps_def by blast

lemma keeps_field: "keeps C s t \<Longrightarrow> (q, n) \<in> live_blocks s \<Longrightarrow> q \<notin> C \<Longrightarrow> k + 4 \<le> n \<Longrightarrow> field t q k = field s q k"
  unfolding keeps_def by blast

lemma keeps_sized:
  assumes "keeps C s t" and "sized N (live_blocks s) q"
  shows "sized N (live_blocks t) q" and "q \<notin> C \<Longrightarrow> k + 4 \<le> N \<Longrightarrow> field t q k = field s q k"
proof -
  obtain n where n: "(q, n) \<in> live_blocks s" "N \<le> n" using assms(2) by (auto simp: sized_def)
  then show "sized N (live_blocks t) q" using assms(1) by (auto simp: sized_def keeps_def)
  show "q \<notin> C \<Longrightarrow> k + 4 \<le> N \<Longrightarrow> field t q k = field s q k" using keeps_field [OF assms(1) n(1)] n(2) by simp
qed

lemma field_byte: "ucast (field s q k) = mem s (q + of_nat k)"
proof (rule bit_word_eqI)
  fix i assume "i < LENGTH(8)"
  then show "bit (ucast (field s q k) :: u8) i = bit (mem s (q + of_nat k)) i"
    by (simp add: field_def load32_def bit_ucast_iff bit_or_iff bit_push_bit_iff)
qed

lemma keeps_byte:
  assumes "keeps C s t" and "sized N (live_blocks s) q" and "q \<notin> C" and "k + 4 \<le> N"
  shows "mem t (q + of_nat k) = mem s (q + of_nat k)"
  using keeps_sized(2) [OF assms(1-4)] by (metis field_byte)

lemma keeps_dest: "keeps C s t \<Longrightarrow> obj_inv t" "keeps C s t \<Longrightarrow> framebuffer_addr t = framebuffer_addr s"
  "keeps C s t \<Longrightarrow> heap_begin t = heap_begin s"
  by (simp_all add: keeps_def)

text \<open>Variables other than the heap's.\<close>

lemma keeps_vars:
  assumes "obj_inv s" and "mem t = mem s" and "heap_begin t = heap_begin s" "last_alloc t = last_alloc s" "heap_end t = heap_end s"
    "framebuffer_addr t = framebuffer_addr s"
  shows "keeps C s t"
proof -
  have "heap_ok t bs \<longleftrightarrow> heap_ok s bs" for bs using assms by (simp add: heap_ok_def)
  then have "obj_inv t" "live_blocks t = live_blocks s" using assms(1,3) by (simp_all add: obj_inv_def heap_inv_def live_blocks_def)
  then show ?thesis using assms by (simp add: keeps_def field_def)
qed

lemma keeps_screen:
  fixes s :: "'s heap_scheme"
  assumes "obj_inv s" and "con_frame s t"
  shows "keeps C s t"
proof -
  obtain m l x y where t: "t = s\<lparr>mem := m, iolog := l, fb_pos_x := x, fb_pos_y := y\<rparr>"
    "\<And>a. \<not> in_window (framebuffer_addr s) a \<Longrightarrow> m a = mem s a"
    using assms(2) by (auto simp: con_frame_def)
  have h: "heap_inv s" using assms(1) by (simp add: obj_inv_def)
  then obtain bs where ok: "heap_ok s bs" by (auto simp: heap_inv_def)
  have ok': "heap_ok t bs" by (rule heap_ok_frame [OF ok]) (use t in simp_all)
  have live: "live_blocks t = live_blocks s" using live_blocks_eq [OF ok] live_blocks_eq [OF ok'] t(1) by simp
  have inv: "obj_inv t" using ok' assms(1) t(1) by (auto simp: obj_inv_def heap_inv_def)
  have "field t q k = field s q k" if q: "(q, n) \<in> live_blocks s" "k + 4 \<le> n" for q n k
  proof (rule field_cong [OF _ q(2)])
    show "unat q + n < 2 ^ 32" using live_range(2) [OF h q(1), of q] q(2) by simp
    show "mem t a = mem s a" if "unat q + k \<le> unat a" "unat a < unat q + k + 4" for a
      using live_range(1) [OF h q(1), of a] that q(2) t by simp
  qed
  then show ?thesis using assms(1) inv live t by (simp add: keeps_def)
qed

lemma keeps_poke:
  fixes s :: "'s heap_scheme"
  assumes "obj_inv s" and "sized N (live_blocks s) q" and "k + 4 \<le> N"
  shows "keeps {q} s (set_field q k v s)"
proof -
  obtain n where n: "(q, n) \<in> live_blocks s" "N \<le> n" using assms(2) by (auto simp: sized_def)
  have h: "heap_inv s" using assms(1) by (simp add: obj_inv_def)
  have k: "k + 4 \<le> n" using n(2) assms(3) by simp
  note p = objs.poke_law [OF assms(1) n(1) k, of v]
  have "mem (set_field q k v s) a = mem s a" if "unat a < unat (heap_begin s)" for a
  proof -
    have r: "unat q + n < 2 ^ 32" "unat (heap_begin s) + 8 \<le> unat q" using live_range(2,3) [OF h n(1), of q] k by simp_all
    have "\<not> a - (q + of_nat k) < 4" using field_offset(1) [OF r(1) k, of a] r(2) that by auto
    then show ?thesis by (simp add: set_field_def store32_outside)
  qed
  moreover have "field (set_field q k v s) p j = field s p j" if "(p, m) \<in> live_blocks s" "p \<noteq> q" "j + 4 \<le> m" for p m j
    using objs.peek_poke_other [OF assms(1) n(1) k that(1,3)] that(2) by simp
  ultimately show ?thesis using p assms(1) by (simp add: keeps_def set_field_def)
qed

lemma keeps_poke_null:
  fixes s :: "'s heap_scheme"
  assumes "obj_inv s"
  shows "keeps C s (set_field 0 0 v s)"
proof -
  have "mem (set_field 0 0 v s) a = mem s a" if "4 \<le> unat a" for a
    using that by (simp add: set_field_def store32_outside word_less_nat_alt)
  then show ?thesis
    using objs.poke_null_law [OF assms, of v] objs.peek_poke_null [OF assms] assms by (auto simp: keeps_def) (simp_all add: set_field_def)
qed

lemma keeps_malloc:
  fixes s :: "'s heap_scheme"
  assumes "obj_inv s" and "request_ok sz s" and "malloc sz s = Inr (p, s')"
  shows "keeps C s s'" and "sized (unat sz) (live_blocks s') p" and "\<And>n. (p, n) \<notin> live_blocks s"
proof -
  have h: "heap_inv s" using assms(1) by (simp add: obj_inv_def)
  then obtain bs where ok: "heap_ok s bs" by (auto simp: heap_inv_def)
  from objs.alloc_law [OF assms] obtain n where n: "obj_inv s'" "\<forall>k. (p, k) \<notin> live_blocks s" "unat sz \<le> n"
    "live_blocks s' = insert (p, n) (live_blocks s)" by auto
  then show "sized (unat sz) (live_blocks s') p" "\<And>n. (p, n) \<notin> live_blocks s" by (auto simp: sized_def)
  have req: "calm s" "sz \<noteq> 0" "unat (last_alloc s) + unat sz + 8 < 2 ^ 32" using assms(2) by (auto simp: request_ok_def)
  from malloc_ok [OF ok req] assms(3) obtain a bs' where a: "malloc_spec sz bs s = Some (a, bs')" "p = of_nat a + 8" "heap_ok s' bs'"
    "only_changed (of_nat a) (sz + 8) s s'" "heap_vars_same s s'" by (auto split: option.splits)
  have n0: "0 < n" using n(3) req(2) unat_gt_0 [of sz] by linarith
  have h': "heap_inv s'" "(p, n) \<in> live_blocks s'" using n(1,4) by (simp_all add: obj_inv_def)
  have "unat (heap_begin s') + 8 \<le> unat p" using live_range(3) [OF h', of p] n0 by simp
  then have pb: "unat (heap_begin s) + 8 \<le> unat p" using a(5) by (simp add: heap_vars_same_def)
  have below: "mem s' x = mem s x" if "unat x < unat (heap_begin s)" "\<not> in_window (framebuffer_addr s) x" for x
  proof -
    have "unat p + unat sz < 2 ^ 32" using live_range(2) [OF h', of p] n0 n(3) by simp
    moreover have oa: "of_nat a = p - 8" using a(2) by simp
    moreover have "unat (p - 8) = unat p - 8" using pb by (simp add: unat_sub word_le_nat_alt)
    ultimately have "\<not> x - of_nat a < sz + 8"
      using pb that(1) unat_u32_le [of x]
      by (simp add: word_less_nat_alt unat_sub_if_size word_size unat_word_ariths) arith
    then show ?thesis using a(4) that(2) by (simp add: only_changed_def)
  qed
  have "field s' q k = field s q k" if "(q, n) \<in> live_blocks s" "k + 4 \<le> n" for q n k
    using objs.peek_alloc [OF assms that] .
  then show "keeps C s s'"
    using n below assms(1) a(5) by (auto simp: keeps_def heap_vars_same_def)
qed

lemma mem_only_set_field: "\<exists>m. u = s\<lparr>mem := m\<rparr> \<Longrightarrow> \<exists>m. set_field q k v u = s\<lparr>mem := m\<rparr>"
  by (auto simp: set_field_def)

context object_heap
begin

lemma poke_frame:
  assumes "inv s" and "object (live s) a" and "offset_ok j" and "(q, n) \<in> live s" and "k + 4 \<le> n" and "q \<noteq> a"
  shows "peek (poke a j v s) q k = peek s q k"
proof -
  obtain m where "(a, m) \<in> live s" "12 \<le> m" using assms(2) by (auto simp: object_def)
  moreover from this have "j + 4 \<le> m" using assms(3) by (auto simp: offset_ok_def)
  ultimately show ?thesis using peek_poke_other [OF assms(1), of a m j q n k v] assms(4-6) by auto
qed

lemma list_rep_cong:
  assumes "list_rep inv live peek s l xs" and "inv t" and "live s \<subseteq> live t"
    and "\<And>a k. a \<in> set (l # map fst xs) \<Longrightarrow> offset_ok k \<Longrightarrow> peek t a k = peek s a k"
  shows "list_rep inv live peek t l xs"
proof -
  have "dlist (peek t) l xs = dlist (peek s) l xs"
  proof -
    have "links (peek t) 0 (map fst xs) 0 = links (peek s) 0 (map fst xs) 0"
      by (rule links_cong) (use assms(4) in auto)
    moreover have "peek t (fst x) 8 = peek s (fst x) 8" if "x \<in> set xs" for x using assms(4) that by auto
    ultimately show ?thesis using assms(4) by (simp add: dlist_def)
  qed
  moreover have "object (live t) a" if "object (live s) a" for a using that assms(3) by (auto simp: object_def)
  ultimately show ?thesis using assms(1,2) by (simp add: list_rep_def)
qed

end

lemma keeps_list:
  fixes s t :: "'s heap_scheme"
  assumes "list_ok s l xs" and "keeps C s t" and "C \<inter> set (l # map fst xs) = {}"
  shows "list_ok t l xs"
proof (rule objs.list_rep_cong [OF assms(1)])
  show "obj_inv t" "live_blocks s \<subseteq> live_blocks t" using assms(2) by (simp_all add: keeps_def)
  fix a k assume a: "a \<in> set (l # map fst xs)" "offset_ok k"
  then have "object (live_blocks s) a" using assms(1) by (auto simp: list_rep_def)
  then obtain n where n: "(a, n) \<in> live_blocks s" "12 \<le> n" by (auto simp: object_def)
  moreover have "k + 4 \<le> n" using a(2) n(2) by (auto simp: offset_ok_def)
  ultimately show "field t a k = field s a k" using keeps_field [OF assms(2) n(1)] assms(3) a(1) by auto
qed

lemma keeps_timers:
  fixes s t :: "'s timer_scheme"
  assumes "timers_ok s ns" and "keeps C s t" and "C \<inter> set ns = {}" and "timer_head t = timer_head s"
  shows "timers_ok t ns" and "x \<in> set ns \<Longrightarrow> k + 4 \<le> 24 \<Longrightarrow> field t x k = field s x k"
proof -
  have sz: "sized 24 (live_blocks s) x" if "x \<in> set ns" for x using assms(1) that by (auto simp: timers_ok_def)
  show f: "field t x k = field s x k" if "x \<in> set ns" "k + 4 \<le> 24" for x k
    using keeps_sized(2) [OF assms(2) sz [OF that(1)]] assms(3) that by auto
  have "tchain (field t) ns = tchain (field s) ns" by (rule tchain_cong) (simp add: f)
  then show "timers_ok t ns"
    using assms keeps_sized(1) [OF assms(2) sz] by (auto simp: timers_ok_def keeps_def)
qed

lemma list_insert_front_keeps:
  fixes s :: "'s heap_scheme"
  assumes ok: "list_ok s l xs" and "request_ok 12 s" and m: "malloc 12 s = Inr (t, s0)"
  shows "\<exists>s'. list_insert_front l v s = Inr (t, s') \<and> list_ok s' l ((t, v) # xs) \<and> keeps (set (l # map fst xs)) s s' \<and>
    (\<exists>m'. s' = s0\<lparr>mem := m'\<rparr>)"
proof -
  let ?C = "set (l # map fst xs)"
  have o: "obj_inv s" using ok by (simp add: list_rep_def)
  have k12: "kcalloc 12 1 s = malloc 12 s" by (rule kcalloc_malloc [OF o assms(2)])
  note a = keeps_malloc [OF o assms(2) m]
  let ?s1 = "set_field (list_head s0 l) 0 t s0"
  let ?s2 = "set_field t 4 (list_head ?s1 l) ?s1"
  let ?s3 = "set_field t 8 v ?s2"
  let ?s4 = "if list_head ?s3 l = 0 then set_field l 4 t ?s3 else ?s3"
  let ?s5 = "set_field l 0 t ?s4"
  let ?s6 = "set_field l 8 (field ?s5 l 8 + 1) ?s5"
  have run: "list_insert_front l v s = Inr (t, ?s6)"
    using m k12 by (simp add: list_insert_front_def Let_def)
  have rep: "list_ok ?s6 l ((t, v) # xs)"
    by (rule objs.insert_front_rep [OF ok assms(2) m refl refl refl refl refl refl])
  have ok0: "list_ok s0 l xs" by (rule keeps_list [OF ok a(1) [of "{}"]]) simp
  have k0: "keeps (insert t ?C) s s0" by (rule a(1))
  have obj0: "sized 12 (live_blocks s0) q" if "q \<in> ?C" for q
    using ok0 that by (auto simp: list_rep_def object_def sized_def)
  have head: "list_head s0 l = first_node xs" by (rule list_node_facts(3) [OF ok0])
  have t0: "sized 12 (live_blocks s0) t" using a(2) by simp
  have poke: "keeps (insert t ?C) u (set_field q k w u)"
    if "keeps (insert t ?C) s0 u" "q \<in> insert t ?C" "k + 4 \<le> 12" for u q k w
  proof -
    have "sized 12 (live_blocks s0) q" using that(2) obj0 t0 by auto
    then have "sized 12 (live_blocks u) q" by (rule keeps_sized(1) [OF that(1)])
    from keeps_poke [OF keeps_dest(1) [OF that(1)] this that(3)] show ?thesis by (rule keeps_mono) (use that(2) in auto)
  qed
  have k1: "keeps (insert t ?C) s0 ?s1"
  proof (cases "xs = []")
    case True
    then show ?thesis using head keeps_poke_null [OF keeps_dest(1) [OF k0]] by simp
  next
    case False
    then have "first_node xs \<in> ?C" using first_node_in [of xs] by auto
    then show ?thesis using poke [OF keeps_refl [OF keeps_dest(1) [OF k0]]] head by simp
  qed
  have k2: "keeps (insert t ?C) s0 ?s2" by (rule keeps_trans [OF k1 poke [OF k1]]) simp_all
  have k3: "keeps (insert t ?C) s0 ?s3" by (rule keeps_trans [OF k2 poke [OF k2]]) simp_all
  have k4: "keeps (insert t ?C) s0 ?s4" using keeps_trans [OF k3 poke [OF k3, of l 4 t]] k3 by simp
  have k5: "keeps (insert t ?C) s0 ?s5" by (rule keeps_trans [OF k4 poke [OF k4]]) simp_all
  have k6: "keeps (insert t ?C) s0 ?s6" by (rule keeps_trans [OF k5 poke [OF k5]]) simp_all
  have "keeps (insert t ?C) s ?s6" by (rule keeps_trans [OF k0 k6])
  then have "keeps ?C s ?s6" using a(3) by (rule keeps_fresh)
  moreover have "\<exists>m'. ?s3 = s0\<lparr>mem := m'\<rparr>" by (intro mem_only_set_field exI [of _ "mem s0"]) simp
  then have "\<exists>m'. ?s4 = s0\<lparr>mem := m'\<rparr>" using mem_only_set_field [of ?s3 s0] by simp
  then have "\<exists>m'. ?s6 = s0\<lparr>mem := m'\<rparr>" by (intro mem_only_set_field)
  ultimately show ?thesis using run rep by blast
qed

section \<open>Creating a process\<close>

text \<open>A heap without a free block and with room for \<open>n\<close> more bytes: the next allocation is at its end.\<close>

definition roomy :: "nat \<Rightarrow> 's heap_scheme \<Rightarrow> bool" where
  "roomy n s \<longleftrightarrow> calm s \<and> 4 \<le> unat (heap_begin s) \<and> (\<exists>bs. heap_ok s bs \<and> (\<forall>b \<in> set bs. snd b)) \<and>
     unat (last_alloc s) + n < unat (heap_end s)"

lemma first_fit_full: "\<forall>b \<in> set bs. snd b \<Longrightarrow> first_fit n bs = None"
  by (induction bs) auto

lemma roomy_inv: "roomy n s \<Longrightarrow> obj_inv s"
  by (auto simp: roomy_def obj_inv_def heap_inv_def)

lemma roomy_malloc:
  fixes s :: "'s heap_scheme"
  assumes "roomy (n + unat sz + 12) s" and "sz \<noteq> 0"
  shows "request_ok sz s" and "\<exists>p s'. malloc sz s = Inr (p, s') \<and> roomy n s'"
proof -
  obtain bs where bs: "heap_ok s bs" "\<forall>b \<in> set bs. snd b" using assms(1) by (auto simp: roomy_def)
  have r: "calm s" "unat (last_alloc s) + n + unat sz + 12 < unat (heap_end s)" using assms(1) by (auto simp: roomy_def)
  then show "request_ok sz s" using assms(2) unat_u32_le [of "heap_end s"] by (simp add: request_ok_def)
  from malloc_fresh [OF bs(1) r(1) assms(2) first_fit_full [OF bs(2)]] r(2) obtain s' where
    s': "malloc sz s = Inr (last_alloc s + 8, s')" "heap_ok s' (bs @ [(unat sz, True)])" "calm s'"
      "last_alloc s' = last_alloc s + sz + 12" "heap_vars_same s s'" by auto
  have "unat (last_alloc s') = unat (last_alloc s) + unat sz + 12"
    using r(2) s'(4) unat_u32_le [of "heap_end s"] by (simp add: unat_word_ariths)
  moreover have "\<forall>b \<in> set (bs @ [(unat sz, True)]). snd b" using bs(2) by auto
  ultimately have "roomy n s'" unfolding roomy_def using s'(2,3,5) r(2) assms(1)
    by (intro conjI exI [of _ "bs @ [(unat sz, True)]"]) (simp_all add: roomy_def heap_vars_same_def)
  then show "\<exists>p s'. malloc sz s = Inr (p, s') \<and> roomy n s'" using s'(1) by blast
qed

lemma heap_ok_object:
  fixes s :: "'s heap_scheme"
  assumes "heap_ok s bs" and "sized N (live_blocks s) q"
    and "\<And>a. \<not> (unat q \<le> unat a \<and> unat a < unat q + N) \<Longrightarrow> m a = mem s a"
  shows "heap_ok (s\<lparr>mem := m\<rparr>) bs"
proof (rule heap_ok_write [OF assms(1)], rule assms(3), rule notI)
  obtain n where n: "(q, n) \<in> live_blocks s" "N \<le> n" using assms(2) by (auto simp: sized_def)
  have "heap_inv s" using assms(1) by (auto simp: heap_inv_def)
  from live_block [OF this n(1)] obtain cs i where b: "heap_ok s cs" "i < length cs" "n = fst (cs ! i)"
    "unat q = block_addr (unat (heap_begin s)) cs i + 8" by metis
  have cs: "cs = bs" by (rule heap_ok_unique [OF b(1) assms(1)])
  fix x assume x: "x \<in> headers (unat (heap_begin s)) bs" and y: "unat q \<le> unat (of_nat x :: u32) \<and> unat (of_nat x :: u32) < unat q + N"
  have "unat (of_nat x :: u32) = x" using heap_bytes_nat(1) [OF assms(1) x] by (rule unat_of_nat_u32)
  then show False using payload_not_header [OF b(2), of "unat (heap_begin s)" x] x y b(3,4) n(2) cs by simp
qed

lemma roomy_write:
  fixes s :: "'s heap_scheme"
  assumes "roomy r s" and "sized N (live_blocks s) q"
    and "\<And>a. \<not> (unat q \<le> unat a \<and> unat a < unat q + N) \<Longrightarrow> m a = mem s a"
  shows "roomy r (s\<lparr>mem := m\<rparr>)" and "live_blocks (s\<lparr>mem := m\<rparr>) = live_blocks s"
proof -
  obtain bs where bs: "heap_ok s bs" "\<forall>b \<in> set bs. snd b" using assms(1) by (auto simp: roomy_def)
  note ok = heap_ok_object [OF bs(1) assms(2,3)]
  then show "roomy r (s\<lparr>mem := m\<rparr>)" using bs assms(1) by (auto simp: roomy_def calm_def)
  show "live_blocks (s\<lparr>mem := m\<rparr>) = live_blocks s" using live_blocks_eq [OF bs(1)] live_blocks_eq [OF ok] by simp
qed

lemma sized_range:
  fixes s :: "'s heap_scheme"
  assumes "obj_inv s" and "sized N (live_blocks s) q" and "0 < N"
  shows "unat q + N < 2 ^ 32" and "unat (heap_begin s) + 8 \<le> unat q"
    and "k < N \<Longrightarrow> unat (q + of_nat k) = unat q + k" and "k < N \<Longrightarrow> \<not> in_window (framebuffer_addr s) (q + of_nat k)"
proof -
  obtain n where n: "(q, n) \<in> live_blocks s" "N \<le> n" using assms(2) by (auto simp: sized_def)
  have h: "heap_inv s" using assms(1) by (simp add: obj_inv_def)
  show r: "unat q + N < 2 ^ 32" "unat (heap_begin s) + 8 \<le> unat q"
    using live_range(2,3) [OF h n(1), of q] n(2) assms(3) by simp_all
  show k: "unat (q + of_nat k) = unat q + k" if "k < N"
    using r(1) that by (simp add: unat_word_ariths unat_of_nat_u32)
  show "\<not> in_window (framebuffer_addr s) (q + of_nat k)" if "k < N"
    using live_range(1) [OF h n(1), of "q + of_nat k"] k [OF that] that n(2) by simp
qed

lemma roomy_poke:
  fixes s :: "'s heap_scheme"
  assumes "roomy r s" and "sized N (live_blocks s) q" and "k + 4 \<le> N"
  shows "roomy r (set_field q k v s)"
  unfolding set_field_def
proof (rule roomy_write(1) [OF assms(1,2)])
  fix a :: u32
  assume a: "\<not> (unat q \<le> unat a \<and> unat a < unat q + N)"
  have "unat q + N < 2 ^ 32" using sized_range(1) [OF roomy_inv [OF assms(1)] assms(2)] assms(3) by simp
  then have "\<not> a - (q + of_nat k) < 4" using field_offset [of q N k a] assms(3) a by auto
  then show "store32 (mem s) (q + of_nat k) v a = mem s a" by (simp add: store32_outside)
qed

lemma roomy_vars:
  assumes "roomy r s" and "mem t = mem s" and "heap_begin t = heap_begin s" "last_alloc t = last_alloc s" "heap_end t = heap_end s"
    "framebuffer_addr t = framebuffer_addr s" "fb_pos_y t = fb_pos_y s"
  shows "roomy r t"
proof -
  have "heap_ok t bs \<longleftrightarrow> heap_ok s bs" for bs using assms by (simp add: heap_ok_def)
  then show ?thesis using assms by (simp add: roomy_def calm_def)
qed

lemma pcb_regs_field: "set_field (p + 512) k v s = set_field p (512 + k) v s" "field s (p + 512) k = field s p (512 + k)"
  by (simp_all add: set_field_def field_def add.assoc)

text \<open>The name: a string below the heap, off the screen, short enough for the control block.\<close>

definition name_ok :: "u32 \<Rightarrow> u8 list \<Rightarrow> 's heap_scheme \<Rightarrow> bool" where
  "name_ok name letters s \<longleftrightarrow> cstr (mem s) name letters \<and> length letters < 512 \<and> 4 \<le> unat name \<and>
     unat name + length letters < unat (heap_begin s) \<and>
     (\<forall>i \<le> length letters. \<not> in_window (framebuffer_addr s) (name + of_nat i))"

lemma name_keeps:
  assumes "name_ok name letters s" and "keeps C s t"
  shows "name_ok name letters t"
proof -
  have "mem t (name + of_nat i) = mem s (name + of_nat i)" if "i \<le> length letters" for i
  proof -
    have "unat (name + of_nat i) = unat name + i"
      using assms(1) that unat_u32_le [of "heap_begin s"] by (simp add: name_ok_def unat_word_ariths unat_of_nat_u32)
    then show ?thesis using assms that unfolding keeps_def name_ok_def by simp
  qed
  then show ?thesis using assms cstr_agree [of "mem s" name letters "mem t"] by (simp add: name_ok_def keeps_def)
qed

lemma name_text: "name_ok name letters s \<Longrightarrow> text_at (framebuffer_addr s) (mem s) name" "name_ok name letters s \<Longrightarrow> name \<noteq> 0"
  by (auto simp: name_ok_def text_at_def)

text \<open>Copying the name into the first 512 bytes of a control block.\<close>

lemma copy_name:
  fixes s :: "'s heap_scheme"
  assumes "roomy r s" and "name_ok name letters s" and p: "sized 580 (live_blocks s) p"
  shows "\<exists>m. strcpy (mem s) p name = Some (m, of_nat (length letters)) \<and> roomy r (s\<lparr>mem := m\<rparr>) \<and>
    live_blocks (s\<lparr>mem := m\<rparr>) = live_blocks s \<and> keeps {p} s (s\<lparr>mem := m\<rparr>) \<and> cstr m p letters \<and>
    (\<forall>k. 512 \<le> k \<longrightarrow> k + 4 \<le> 580 \<longrightarrow> field (s\<lparr>mem := m\<rparr>) p k = field s p k)"
proof -
  have inv: "obj_inv s" by (rule roomy_inv [OF assms(1)])
  have n: "cstr (mem s) name letters" "length letters < 512" "unat name + length letters < unat (heap_begin s)"
    using assms(2) by (auto simp: name_ok_def)
  have pr: "unat p + 580 < 2 ^ 32" "unat (heap_begin s) + 8 \<le> unat p" using sized_range [OF inv p] by simp_all
  have "1 + of_nat (length letters) \<le> p - name"
  proof -
    have "unat (of_nat (length letters) :: u32) = length letters" using n(2) by (simp add: unat_of_nat_u32)
    then have "unat (1 + of_nat (length letters) :: u32) = 1 + length letters" using n(2) by (simp add: unat_word_ariths)
    moreover have "unat (p - name) = unat p - unat name" using n(3) pr(2) by (simp add: unat_sub word_le_nat_alt)
    ultimately show ?thesis using n(3) pr(2) by (simp add: word_le_nat_alt)
  qed
  from strcpy_copies [OF n(1) _ this] n(2) obtain m where m: "strcpy (mem s) p name = Some (m, of_nat (length letters))" "cstr m p letters"
    "\<forall>a. \<not> a - p < 1 + of_nat (length letters) \<longrightarrow> m a = mem s a" by auto
  have out: "m a = mem s a" if "\<not> (unat p \<le> unat a \<and> unat a < unat p + 512)" for a
  proof -
    have "unat (1 + of_nat (length letters) :: u32) = 1 + length letters" using n(2) by (simp add: unat_word_ariths unat_of_nat_u32)
    then have "\<not> a - p < 1 + of_nat (length letters)"
      using that n(2) pr(1) unat_u32_le [of a] by (simp add: word_less_nat_alt unat_sub_if_size word_size) arith
    then show ?thesis using m(3) by simp
  qed
  have out': "m a = mem s a" if "\<not> (unat p \<le> unat a \<and> unat a < unat p + 580)" for a using out [of a] that by auto
  have r: "roomy r (s\<lparr>mem := m\<rparr>)" "live_blocks (s\<lparr>mem := m\<rparr>) = live_blocks s"
    using roomy_write [OF assms(1) p out'] by blast+
  have h: "heap_inv s" using inv by (simp add: obj_inv_def)
  have other: "field (s\<lparr>mem := m\<rparr>) q k = field s q k" if q: "(q, n) \<in> live_blocks s" "q \<noteq> p" "k + 4 \<le> n" for q n k
  proof (rule field_cong [OF _ q(3)])
    show "unat q + n < 2 ^ 32" using live_range(2) [OF h q(1), of q] q(3) by simp
    obtain N where "(p, N) \<in> live_blocks s" "580 \<le> N" using p by (auto simp: sized_def)
    then have "unat p + N \<le> unat q \<or> unat q + n \<le> unat p" using heap.disjoint [OF h, of p N q n] q(1,2) by auto
    then show "mem (s\<lparr>mem := m\<rparr>) a = mem s a" if "unat q + k \<le> unat a" "unat a < unat q + k + 4" for a
      using out [of a] that q(3) \<open>580 \<le> N\<close> by auto
  qed
  have below: "m a = mem s a" if "unat a < unat (heap_begin s)" for a using out [of a] that pr(2) by auto
  have "keeps {p} s (s\<lparr>mem := m\<rparr>)"
    unfolding keeps_def using inv roomy_inv [OF r(1)] r(2) other below by auto
  moreover have "field (s\<lparr>mem := m\<rparr>) p k = field s p k" if "512 \<le> k" "k + 4 \<le> 580" for k
    by (rule field_cong [OF pr(1) that(2)]) (use out that in auto)
  ultimately show ?thesis using m(1,2) r by blast
qed

lemma created_format: "P v \<Longrightarrow> printf_with P (lit ''%s created'' @ [10]) [v]"
  by (simp add: lit_def of_char_def)

text \<open>The variables outside the heap that the creation of a process can change.\<close>

definition proc_frame :: "'s proc_scheme \<Rightarrow> 's proc_scheme \<Rightarrow> bool" where
  "proc_frame s s' \<longleftrightarrow> (\<exists>m l x y la mu cp c. s' = s\<lparr>mem := m, iolog := l, fb_pos_x := x, fb_pos_y := y, last_alloc := la,
     memory_used := mu, curr_pid := cp, current_process := c\<rparr>)"

lemma malloc_end_vars:
  fixes s :: "'s heap_scheme"
  assumes "roomy (n + unat sz + 12) s" and "sz \<noteq> 0" and "malloc sz s = Inr (p, s')"
  shows "\<exists>la mu m. s' = s\<lparr>last_alloc := la, memory_used := mu, mem := m\<rparr>"
proof -
  obtain bs where bs: "heap_ok s bs" "\<forall>b \<in> set bs. snd b" using assms(1) by (auto simp: roomy_def)
  have "malloc_scan (mem s) (last_alloc s) sz (heap_begin s) = Some None"
    using malloc_scan_ok [of "mem s" "unat (heap_begin s)" bs "last_alloc s" sz] bs(1) first_fit_full [OF bs(2)] by (simp add: heap_ok_def)
  then have "malloc_new sz s = Inr (p, s')" using assms(2,3) by (simp add: malloc_def)
  then show ?thesis by (auto simp: malloc_new_def Let_def split: if_splits)
qed

lemma name_byte_poke:
  fixes s :: "'s heap_scheme"
  assumes "obj_inv s" and "sized 580 (live_blocks s) p" and "512 \<le> k" and "k + 4 \<le> 580" and "i < 512"
  shows "mem (set_field p k v s) (p + of_nat i) = mem s (p + of_nat i)"
proof -
  have r: "unat p + 580 < 2 ^ 32" "unat (p + of_nat i) = unat p + i" using sized_range [OF assms(1,2)] assms(5) by simp_all
  then have "\<not> (p + of_nat i) - (p + of_nat k) < 4" using field_offset(1) [OF r(1) assms(4), of "p + of_nat i"] assms(3,5) by auto
  then show ?thesis by (simp add: set_field_def store32_outside)
qed

text \<open>The control block before the name is copied, and after.\<close>

definition pcb_before :: "u32 \<Rightarrow> u32 \<Rightarrow> 's proc_scheme \<Rightarrow> 's proc_scheme" where
  "pcb_before p routine s =
     set_field p 544 0x206 (set_field p 552 routine (set_field p pcb_pid (curr_pid s) (s\<lparr>curr_pid := curr_pid s + 1\<rparr>)))"

definition pcb_after :: "u32 \<Rightarrow> 's proc_scheme \<Rightarrow> 's proc_scheme" where
  "pcb_after p s =
     (let s7 = set_field p pcb_page_dir (cur_dir s) (set_field p 528 0xC0400000 s)
      in set_field p pcb_state TASK_CREATED (set_field p 548 (virt2phys (cur_dir s) (cur_dir s) s7) s7))"

lemma create_process_unfold:
  assumes "kcalloc 580 1 s = Inr (p, s0)" and "strcpy (mem (pcb_before p routine s0)) p name = Some (m, n)"
  defines "s9 \<equiv> pcb_after p ((pcb_before p routine s0)\<lparr>mem := m\<rparr>)"
  defines "s10 \<equiv> (if current_process s9 = 0 then s9\<lparr>current_process := p\<rparr> else s9)"
  shows "create_process_from_routine routine name s = bindE (list_insert_front (process_list s10) p s10)
     (\<lambda>(node, s11). printf (lit ''%s created'' @ [10]) [name] (set_field p pcb_self node s11))"
proof -
  have cur: "cur_dir (set_field q k v u) = cur_dir u" for q k v and u :: "'a proc_scheme" by (simp add: set_field_def)
  show ?thesis
  using assms(1,2) unfolding s10_def s9_def create_process_from_routine_def pcb_before_def pcb_after_def allocate_pid_def Let_def
  by (simp only: pcb_regs_field bindE_simps returns_def split_conv option.case cur field_set_field_same) simp
qed

text \<open>A new object \<open>p\<close> of \<open>N\<close> bytes is filled field by field from the state \<open>s0\<close> on.\<close>

definition filling :: "nat \<Rightarrow> 's heap_scheme \<Rightarrow> nat \<Rightarrow> u32 \<Rightarrow> 's heap_scheme \<Rightarrow> bool" where
  "filling N s0 n p u \<longleftrightarrow> keeps {p} s0 u \<and> roomy n u \<and> sized N (live_blocks u) p"

lemma filling_start:
  fixes s :: "'s heap_scheme"
  assumes "roomy (n + unat sz + 12) s" and "sz \<noteq> 0"
  shows "\<exists>p s0 la mu m. malloc sz s = Inr (p, s0) \<and> filling (unat sz) s0 n p s0 \<and> (\<forall>C. keeps C s s0) \<and> (\<forall>k. (p, k) \<notin> live_blocks s) \<and>
    s0 = s\<lparr>last_alloc := la, memory_used := mu, mem := m\<rparr> \<and> kcalloc sz 1 s = Inr (p, s0)"
proof -
  note req = roomy_malloc(1) [OF assms]
  obtain p s0 where m: "malloc sz s = Inr (p, s0)" "roomy n s0" using roomy_malloc(2) [OF assms] by auto
  note a = keeps_malloc [OF roomy_inv [OF assms(1)] req m(1)]
  have "filling (unat sz) s0 n p s0" using a(2) m(2) keeps_refl [OF roomy_inv [OF m(2)]] by (simp add: filling_def)
  moreover have "kcalloc sz 1 s = Inr (p, s0)" using kcalloc_malloc [OF roomy_inv [OF assms(1)] req] m(1) by simp
  ultimately show ?thesis using m(1) a malloc_end_vars [OF assms m(1)] by blast
qed

lemma filling_poke:
  assumes "filling N s0 n p u" and "k + 4 \<le> N"
  shows "filling N s0 n p (set_field p k v u)"
proof -
  have k: "keeps {p} u (set_field p k v u)" using keeps_poke [of u N p k v] roomy_inv assms by (auto simp: filling_def)
  then show ?thesis
    using keeps_trans [of "{p}" s0 u] roomy_poke [of n u N p k v] keeps_sized(1) [OF k] assms unfolding filling_def by blast
qed

lemma filling_vars:
  assumes "filling N s0 n p u" and "mem t = mem u" "heap_begin t = heap_begin u" "last_alloc t = last_alloc u" "heap_end t = heap_end u"
    "framebuffer_addr t = framebuffer_addr u" "fb_pos_y t = fb_pos_y u"
  shows "filling N s0 n p t"
proof -
  have k: "keeps {p} u t" by (rule keeps_vars) (use assms roomy_inv in \<open>auto simp: filling_def\<close>)
  then show ?thesis
    using keeps_trans [of "{p}" s0 u t] roomy_vars [of n u t] keeps_sized(1) [OF k] assms unfolding filling_def by blast
qed

lemma filling_peek:
  assumes "filling N s0 n p u" and "slot N k" and "slot N j"
  shows "field (set_field p k v u) p j = (if j = k then v else field u p j)"
  using objs.sized_peek_poke [of u N p N p k j v] assms roomy_inv [of n u] by (auto simp: filling_def)

lemma pcb_before_ok:
  fixes s0 :: "'s proc_scheme"
  assumes "filling 580 s0 n p s0"
  shows "filling 580 s0 n p (pcb_before p routine s0)"
    and "field (pcb_before p routine s0) p 544 = 0x206" "field (pcb_before p routine s0) p 552 = routine"
    "field (pcb_before p routine s0) p pcb_pid = curr_pid s0"
proof -
  let ?s1 = "s0\<lparr>curr_pid := curr_pid s0 + 1\<rparr>"
  have w1: "filling 580 s0 n p ?s1" by (rule filling_vars [OF assms]) simp_all
  have w2: "filling 580 s0 n p (set_field p pcb_pid (curr_pid s0) ?s1)" by (rule filling_poke [OF w1]) simp
  have w3: "filling 580 s0 n p (set_field p 552 routine (set_field p pcb_pid (curr_pid s0) ?s1))" by (rule filling_poke [OF w2]) simp
  show "filling 580 s0 n p (pcb_before p routine s0)" unfolding pcb_before_def by (rule filling_poke [OF w3]) simp
  show "field (pcb_before p routine s0) p 544 = 0x206" "field (pcb_before p routine s0) p 552 = routine"
    "field (pcb_before p routine s0) p pcb_pid = curr_pid s0"
    by (simp_all add: pcb_before_def filling_peek [OF w3] filling_peek [OF w2] filling_peek [OF w1])
qed

lemma pcb_after_ok:
  fixes s :: "'s proc_scheme"
  assumes w: "filling 580 s0 n p s"
  shows "filling 580 s0 n p (pcb_after p s)"
    and "field (pcb_after p s) p 528 = 0xC0400000" "field (pcb_after p s) p pcb_state = TASK_CREATED"
    and "slot 580 k \<Longrightarrow> k \<notin> {528, 548, 568, 576} \<Longrightarrow> field (pcb_after p s) p k = field s p k"
    and "i < 512 \<Longrightarrow> mem (pcb_after p s) (p + of_nat i) = mem s (p + of_nat i)"
proof -
  let ?s6 = "set_field p 528 0xC0400000 s"
  let ?s7 = "set_field p pcb_page_dir (cur_dir s) ?s6"
  let ?s8 = "set_field p 548 (virt2phys (cur_dir s) (cur_dir s) ?s7) ?s7"
  have w6: "filling 580 s0 n p ?s6" by (rule filling_poke [OF w]) simp
  have w7: "filling 580 s0 n p ?s7" by (rule filling_poke [OF w6]) simp
  have w8: "filling 580 s0 n p ?s8" by (rule filling_poke [OF w7]) simp
  have a: "pcb_after p s = set_field p pcb_state TASK_CREATED ?s8" by (simp add: pcb_after_def Let_def)
  show "filling 580 s0 n p (pcb_after p s)" unfolding a by (rule filling_poke [OF w8]) simp
  note peek = filling_peek [OF w8] filling_peek [OF w7] filling_peek [OF w6] filling_peek [OF w]
  show "field (pcb_after p s) p 528 = 0xC0400000" "field (pcb_after p s) p pcb_state = TASK_CREATED"
    "slot 580 k \<Longrightarrow> k \<notin> {528, 548, 568, 576} \<Longrightarrow> field (pcb_after p s) p k = field s p k"
    unfolding a by (simp_all add: peek)
  have b: "mem (set_field p k v u) (p + of_nat i) = mem u (p + of_nat i)" if "filling 580 s0 n p u" "512 \<le> k" "k + 4 \<le> 580" "i < 512" for k v u
    using name_byte_poke [of u p k i v] that roomy_inv by (auto simp: filling_def)
  show "i < 512 \<Longrightarrow> mem (pcb_after p s) (p + of_nat i) = mem s (p + of_nat i)"
    unfolding a by (simp add: b w w6 w7 w8)
qed

text \<open>The first half: a control block is allocated and filled.\<close>

definition pcb_filled :: "u32 \<Rightarrow> u32 \<Rightarrow> u8 list \<Rightarrow> 's proc_scheme \<Rightarrow> 's proc_scheme \<Rightarrow> bool" where
  "pcb_filled p routine letters s s' \<longleftrightarrow> keeps {p} s s' \<and> roomy 24 s' \<and> sized 580 (live_blocks s') p \<and>
     (\<forall>n. (p, n) \<notin> live_blocks s) \<and> cstr (mem s') p letters \<and> field s' p pcb_state = TASK_CREATED \<and>
     field s' p pcb_pid = curr_pid s \<and> field s' p 552 = routine \<and> field s' p 528 = 0xC0400000 \<and> field s' p 544 = 0x206 \<and>
     (\<exists>la mu m c. s' = s\<lparr>last_alloc := la, memory_used := mu, curr_pid := curr_pid s + 1, mem := m, current_process := c\<rparr> \<and>
        c = (if current_process s = 0 then p else current_process s))"

lemma create_process_block:
  fixes s :: "'s proc_scheme"
  assumes room: "roomy 616 s" and name: "name_ok name letters s"
  shows "\<exists>p s'. pcb_filled p routine letters s s' \<and>
     create_process_from_routine routine name s = bindE (list_insert_front (process_list s') p s')
       (\<lambda>(node, s1). printf (lit ''%s created'' @ [10]) [name] (set_field p pcb_self node s1))"
proof -
  have r1: "roomy (24 + unat (580 :: u32) + 12) s" using room by simp
  obtain p s0 la0 mu0 m0 where w0: "filling 580 s0 24 p s0" and a: "\<And>C. keeps C s s0" and fresh: "\<forall>k. (p, k) \<notin> live_blocks s"
    and v0: "s0 = s\<lparr>last_alloc := la0, memory_used := mu0, mem := m0\<rparr>" and k580: "kcalloc 580 1 s = Inr (p, s0)"
    using filling_start [OF r1] by auto
  define s4 where "s4 = pcb_before p routine s0"
  note w4 = pcb_before_ok [OF w0, of routine, folded s4_def]
  have k4: "keeps {p} s0 s4" "roomy 24 s4" "sized 580 (live_blocks s4) p" using w4(1) by (simp_all add: filling_def)
  have n4: "name_ok name letters s4" by (rule name_keeps [OF name_keeps [OF name a] k4(1)])
  from copy_name [OF k4(2) n4 k4(3)] obtain m1 where m1: "strcpy (mem s4) p name = Some (m1, of_nat (length letters))"
    "roomy 24 (s4\<lparr>mem := m1\<rparr>)" "live_blocks (s4\<lparr>mem := m1\<rparr>) = live_blocks s4" "keeps {p} s4 (s4\<lparr>mem := m1\<rparr>)" "cstr m1 p letters"
    "\<And>k. 512 \<le> k \<Longrightarrow> k + 4 \<le> 580 \<Longrightarrow> field (s4\<lparr>mem := m1\<rparr>) p k = field s4 p k" by auto
  define s5 where "s5 = s4\<lparr>mem := m1\<rparr>"
  have w5: "filling 580 s0 24 p s5" using keeps_trans [OF k4(1) m1(4)] m1(2,3) k4(3) by (simp add: filling_def s5_def)
  define s9 where "s9 = pcb_after p s5"
  note w9 = pcb_after_ok [OF w5, folded s9_def]
  define s10 where "s10 = (if current_process s9 = 0 then s9\<lparr>current_process := p\<rparr> else s9)"
  have w10: "filling 580 s0 24 p s10" unfolding s10_def using filling_vars [OF w9(1), of "s9\<lparr>current_process := p\<rparr>"] w9(1) by simp
  have same9: "field s10 = field s9" "mem s10 = mem s9" by (simp_all add: s10_def field_def fun_eq_iff)
  have vars: "\<exists>la mu m c. s10 = s\<lparr>last_alloc := la, memory_used := mu, curr_pid := curr_pid s + 1, mem := m, current_process := c\<rparr> \<and>
      c = (if current_process s = 0 then p else current_process s)"
  proof -
    have "\<exists>m. pcb_before p routine u = u\<lparr>curr_pid := curr_pid u + 1, mem := m\<rparr>" "\<exists>m. pcb_after p u = u\<lparr>mem := m\<rparr>" for u :: "'s proc_scheme"
      by (auto simp: pcb_before_def pcb_after_def Let_def set_field_def)
    then obtain m3 m4 where e: "s4 = s0\<lparr>curr_pid := curr_pid s0 + 1, mem := m3\<rparr>" "s9 = s5\<lparr>mem := m4\<rparr>"
      unfolding s4_def s9_def by metis
    have "s9 = s\<lparr>last_alloc := la0, memory_used := mu0, curr_pid := curr_pid s + 1, mem := m4\<rparr>" by (simp add: e s5_def v0)
    then have "s10 = s\<lparr>last_alloc := la0, memory_used := mu0, curr_pid := curr_pid s + 1, mem := m4,
        current_process := (if current_process s = 0 then p else current_process s)\<rparr>" by (simp add: s10_def)
    then show ?thesis by blast
  qed
  have "cstr (mem s10) p letters"
    using w9(5) name by (intro cstr_agree [OF m1(5)]) (simp add: same9 s5_def name_ok_def)
  moreover have "field s10 p pcb_state = TASK_CREATED" "field s10 p pcb_pid = curr_pid s" "field s10 p 552 = routine"
    "field s10 p 528 = 0xC0400000" "field s10 p 544 = 0x206"
    using w9(2-4) w4(2-4) m1(6) v0 unfolding same9 s5_def by simp_all
  ultimately have "pcb_filled p routine letters s s10"
    using w10 keeps_trans [OF a] vars fresh by (simp add: pcb_filled_def filling_def)
  then show ?thesis
    using create_process_unfold [OF k580 m1(1) [unfolded s4_def], folded s4_def, folded s5_def, folded s9_def, folded s10_def] by blast
qed

text \<open>The second half: it is put in front of the list of processes.\<close>

lemma create_process_link:
  fixes s :: "'s proc_scheme"
  assumes ok: "list_ok s l xs" and room: "roomy 24 s" and name: "name_ok name letters s"
    and sz: "sized 580 (live_blocks s) p" and p: "p \<notin> set (l # map fst xs)"
  shows "\<exists>node s'. bindE (list_insert_front l p s) (\<lambda>(node, s1). printf (lit ''%s created'' @ [10]) [name] (set_field p pcb_self node s1)) = Inr s' \<and>
     list_ok s' l ((node, p) # xs) \<and> keeps (insert p (set (l # map fst xs))) s s' \<and>
     (\<forall>k. slot 580 k \<longrightarrow> field s' p k = (if k = pcb_self then node else field s p k)) \<and>
     (\<forall>i < 512. mem s' (p + of_nat i) = mem s (p + of_nat i)) \<and>
     (\<exists>la mu m lg x y. s' = s\<lparr>last_alloc := la, memory_used := mu, mem := m, iolog := lg, fb_pos_x := x, fb_pos_y := y\<rparr>)"
proof -
  let ?C = "set (l # map fst xs)"
  have r: "roomy (0 + unat (12 :: u32) + 12) s" using room by simp
  note inv = roomy_inv [OF room]
  obtain node t0 la mu m where m12: "request_ok 12 s" "malloc 12 s = Inr (node, t0)"
    and v: "t0 = s\<lparr>last_alloc := la, memory_used := mu, mem := m\<rparr>" using roomy_malloc(1) [OF r] filling_start [OF r] by auto
  from list_insert_front_keeps [OF ok m12, of p] obtain s1 m1 where
    s1: "list_insert_front l p s = Inr (node, s1)" "list_ok s1 l ((node, p) # xs)" "keeps ?C s s1" "s1 = t0\<lparr>mem := m1\<rparr>" by blast
  have pn: "p \<noteq> node" using keeps_malloc(3) [OF inv m12] sz by (auto simp: sized_def)
  note sz1 = keeps_sized(1) [OF s1(3) sz]
  note inv1 = keeps_dest(1) [OF s1(3)]
  define s2 where "s2 = set_field p pcb_self node s1"
  have k2: "keeps {p} s1 s2" unfolding s2_def by (rule keeps_poke [OF inv1 sz1]) simp
  note sz2 = keeps_sized(1) [OF k2 sz1]
  have k_s2: "keeps (insert p ?C) s s2" by (rule keeps_trans [OF keeps_mono [OF s1(3)] keeps_mono [OF k2]]) auto
  have n2: "name_ok name letters s2" by (rule name_keeps [OF name k_s2])
  have y2: "unat (fb_pos_y s2) \<le> 400" using room s1(4) v by (simp add: s2_def set_field_def roomy_def calm_def)
  from printf_text_ok [OF created_format [of _ name] y2] name_text [OF n2]
  obtain s3 where s3: "printf (lit ''%s created'' @ [10]) [name] s2 = Inr s3" "con_frame s2 s3" by auto
  have k3: "keeps D s2 s3" for D by (rule keeps_screen [OF keeps_dest(1) [OF k2] s3(2)])
  have fld: "field s3 p k = (if k = pcb_self then node else field s p k)" if "slot 580 k" for k
  proof -
    have k: "k + 4 \<le> 580" using that by (simp add: slot_def)
    have "field s3 p k = field s2 p k" by (rule keeps_sized(2) [OF k3 [of "{}"] sz2 _ k]) simp
    also have "\<dots> = (if k = pcb_self then node else field s1 p k)"
      using objs.sized_peek_poke [OF inv1 sz1 sz1, of pcb_self k node] that by (simp add: s2_def)
    also have "field s1 p k = field s p k" by (rule keeps_sized(2) [OF s1(3) sz p k])
    finally show ?thesis .
  qed
  have byte: "mem s3 (p + of_nat i) = mem s (p + of_nat i)" if i: "i < 512" for i
  proof -
    have "mem s3 (p + of_nat i) = mem s2 (p + of_nat i)" by (rule keeps_byte [OF k3 [of "{}"] sz2]) (use i in simp_all)
    also have "\<dots> = mem s1 (p + of_nat i)" unfolding s2_def by (rule name_byte_poke [OF inv1 sz1]) (use i in simp_all)
    also have "\<dots> = mem s (p + of_nat i)" by (rule keeps_byte [OF s1(3) sz p]) (use i in simp)
    finally show ?thesis .
  qed
  have "list_ok s2 l ((node, p) # xs)" by (rule keeps_list [OF s1(2) k2]) (use p pn in auto)
  then have "list_ok s3 l ((node, p) # xs)" by (rule keeps_list [OF _ k3 [of "{}"]]) simp
  moreover have "\<exists>la mu m lg x y. s3 = s\<lparr>last_alloc := la, memory_used := mu, mem := m, iolog := lg, fb_pos_x := x, fb_pos_y := y\<rparr>"
  proof -
    obtain m4 lg x y where e: "s3 = s2\<lparr>mem := m4, iolog := lg, fb_pos_x := x, fb_pos_y := y\<rparr>" using s3(2) by (auto simp: con_frame_def)
    have "s3 = s\<lparr>last_alloc := la, memory_used := mu, mem := m4, iolog := lg, fb_pos_x := x, fb_pos_y := y\<rparr>"
      by (simp add: e s2_def set_field_def s1(4) v)
    then show ?thesis by blast
  qed
  ultimately show ?thesis using s1(1) s3(1) keeps_trans [OF k_s2 k3] fld byte unfolding s2_def by auto
qed

lemma create_process_run:
  fixes s :: "'s proc_scheme"
  assumes ok: "list_ok s (process_list s) xs" and room: "roomy 616 s" and name: "name_ok name letters s"
  shows "\<exists>p node s'. create_process_from_routine routine name s = Inr s' \<and> proc_frame s s' \<and>
     keeps (set (process_list s # map fst xs)) s s' \<and> list_ok s' (process_list s) ((node, p) # xs) \<and>
     sized 580 (live_blocks s') p \<and> (\<forall>n. (p, n) \<notin> live_blocks s) \<and> cstr (mem s') p letters \<and>
     field s' p pcb_self = node \<and> field s' p pcb_state = TASK_CREATED \<and> field s' p pcb_pid = curr_pid s \<and>
     field s' (pcb_regs p) ctx_eip = routine \<and> field s' (pcb_regs p) ctx_esp = 0xC0400000 \<and>
     field s' (pcb_regs p) ctx_eflags = 0x206 \<and> curr_pid s' = curr_pid s + 1 \<and>
     current_process s' = (if current_process s = 0 then p else current_process s)"
proof -
  let ?l = "process_list s" and ?C = "set (process_list s # map fst xs)"
  from create_process_block [OF room name, of routine] obtain p s1 where s1: "pcb_filled p routine letters s s1"
    "create_process_from_routine routine name s = bindE (list_insert_front (process_list s1) p s1)
       (\<lambda>(node, s1). printf (lit ''%s created'' @ [10]) [name] (set_field p pcb_self node s1))" by blast
  have f: "keeps {p} s s1" "roomy 24 s1" "sized 580 (live_blocks s1) p" "\<And>n. (p, n) \<notin> live_blocks s" "cstr (mem s1) p letters"
    using s1(1) by (auto simp: pcb_filled_def)
  obtain la mu m c where v: "s1 = s\<lparr>last_alloc := la, memory_used := mu, curr_pid := curr_pid s + 1, mem := m, current_process := c\<rparr>"
    "c = (if current_process s = 0 then p else current_process s)" using s1(1) by (auto simp: pcb_filled_def)
  have list1: "list_ok s1 ?l xs" by (rule keeps_list [OF ok keeps_fresh [OF f(1,4)]]) simp
  have "object (live_blocks s) q" if "q \<in> ?C" for q using ok that by (auto simp: list_rep_def)
  then have fresh: "p \<notin> ?C" using f(4) by (auto simp: object_def)
  have pl: "process_list s1 = ?l" using v(1) by simp
  from create_process_link [OF list1 f(2) name_keeps [OF name f(1)] f(3) fresh] obtain node s' where s':
      "bindE (list_insert_front ?l p s1) (\<lambda>(node, s1). printf (lit ''%s created'' @ [10]) [name] (set_field p pcb_self node s1)) = Inr s'"
      "list_ok s' ?l ((node, p) # xs)" "keeps (insert p ?C) s1 s'"
      "\<forall>k. slot 580 k \<longrightarrow> field s' p k = (if k = pcb_self then node else field s1 p k)"
      "\<forall>i < 512. mem s' (p + of_nat i) = mem s1 (p + of_nat i)"
      "\<exists>la mu m lg x y. s' = s1\<lparr>last_alloc := la, memory_used := mu, mem := m, iolog := lg, fb_pos_x := x, fb_pos_y := y\<rparr>" by blast
  have run: "create_process_from_routine routine name s = Inr s'" using s1(2) s'(1) pl by simp
  have keep: "keeps ?C s s'" by (rule keeps_fresh [OF keeps_trans [OF keeps_mono [OF f(1)] s'(3)] f(4)]) simp
  have "cstr (mem s') p letters" by (rule cstr_agree [OF f(5)]) (use s'(5) name in \<open>simp add: name_ok_def\<close>)
  moreover obtain la' mu' m' lg x y where e: "s' = s1\<lparr>last_alloc := la', memory_used := mu', mem := m', iolog := lg, fb_pos_x := x, fb_pos_y := y\<rparr>"
    using s'(6) by blast
  then have "s' = s\<lparr>mem := m', iolog := lg, fb_pos_x := x, fb_pos_y := y, last_alloc := la', memory_used := mu',
      curr_pid := curr_pid s + 1, current_process := c\<rparr>" by (simp add: v(1))
  then have "proc_frame s s'" unfolding proc_frame_def by blast
  ultimately show ?thesis
    using run s'(2,4) keep keeps_sized(1) [OF s'(3) f(3)] f(4) s1(1) e v
    by (intro exI [of _ p] exI [of _ node] exI [of _ s'] conjI) (simp_all add: pcb_filled_def pcb_regs_field)
qed

section \<open>The property\<close>


lemma roomy_extend: "roomy n (heap.extend h m) = roomy n h"
  by (simp add: roomy_def calm_def heap_ok_def heap.defs)

lemma two_procs_room: "roomy 616 two_procs"
proof -
  have "heap_begin two_list = 0xC0200000" "last_alloc two_list = 0xC0200048" "heap_end two_list = 0xC0300000" "calm two_list"
    by (simp_all add: two_list_def small_heap_fields calm_def)
  then have "roomy 616 two_list" using two_list_heap unfolding roomy_def by (auto intro!: exI [of _ "[(12, True), (12, True), (12, True)]"])
  moreover have "sized 12 (live_blocks two_list) 0xC0200020" using two_list_live(2) by (simp add: sized_def object_def)
  ultimately have r: "roomy 616 two_procs_heap" unfolding two_procs_heap_def by (rule roomy_poke) simp
  have e: "two_procs = heap.extend two_procs_heap \<lparr>jiffies = 30, frequency_g = 100, timer_head = 0, saved_context = trap_frame 32,
      process_list = 0xC0200008, current_process = 0xC01FFDD8, last_process = 0, prev_jiffies = 0, curr_pid = 2\<rparr>"
    by (simp add: two_procs_def timer.defs heap.defs)
  show ?thesis unfolding e roomy_extend by (rule r)
qed


end
