(* ===== verification/Hal.thy ===== *)
theory Hal
  imports Kstring
begin

text \<open>
  The processor identification of \<^verbatim>\<open>src/src/hal/cpu.c\<close> and the serial port driver of
  \<^verbatim>\<open>src/src/kernel/drivers/serial.c\<close>. What the processor answers is a record of functions; the
  poll of the line status port is a partial function, whose result is None where it never ends.
  \<open>transmitted\<close> reads the bytes handed to a port off the record of port accesses.
\<close>

section \<open>The processor\<close>

text \<open>
  \<^verbatim>\<open>__get_cpuid\<close> and \<^verbatim>\<open>__get_cpuid_max\<close> come with the compiler (\<^verbatim>\<open>cpuid.h\<close>): a leaf that the processor
  does not support leaves the four registers as they were. The contents of the model specific
  registers are the argument \<open>msr\<close>.
\<close>

record cpu =
  cpuid_max :: "u32 \<Rightarrow> u32"
  cpuid_leaf :: "u32 \<Rightarrow> (u32 \<times> u32 \<times> u32 \<times> u32) option"

definition get_cpuid :: "cpu \<Rightarrow> u32 \<Rightarrow> u32 \<times> u32 \<times> u32 \<times> u32 \<Rightarrow> u32 \<times> u32 \<times> u32 \<times> u32" where
  "get_cpuid c leaf regs = (case cpuid_leaf c leaf of None \<Rightarrow> regs | Some r \<Rightarrow> r)"

abbreviation (input) BRAND_LEAF :: u32 where "BRAND_LEAF \<equiv> 0x80000000"

definition cpu_get_model :: "cpu \<Rightarrow> u32 \<Rightarrow> mem \<Rightarrow> mem" where
  "cpu_get_model c model_out m =
     (let (eax, ebx, ecx, edx) = get_cpuid c 0 (0, 0, 0, 0);
          m1 = store32 m model_out ebx;
          m2 = store32 m1 (model_out + 4) edx;
          m3 = store32 m2 (model_out + 8) ecx
      in m3(model_out + 12 := 0))"

definition cpu_brand_string_supported :: "cpu \<Rightarrow> bool" where
  "cpu_brand_string_supported c = (let supported = cpuid_max c BRAND_LEAF in 0x80000004 \<le> supported)"

function brand_loop :: "cpu \<Rightarrow> u32 \<Rightarrow> u32 \<Rightarrow> u32 \<Rightarrow> u32 \<times> u32 \<times> u32 \<times> u32 \<Rightarrow> mem \<Rightarrow> mem" where
  "brand_loop c out i j regs m =
     (if i < 5
      then (let (eax, ebx, ecx, edx) = get_cpuid c (BRAND_LEAF + i) regs;
                m1 = store32 m (out + 4 * j) eax;
                m2 = store32 m1 (out + 4 * (j + 1)) ebx;
                m3 = store32 m2 (out + 4 * (j + 2)) ecx;
                m4 = store32 m3 (out + 4 * (j + 3)) edx
            in brand_loop c out (i + 1) (j + 4) (eax, ebx, ecx, edx) m4)
      else m)"
  by pat_completeness auto
termination
  by (relation "measure (\<lambda>(c, out, i, j, regs, m). unat (5 - i))") (auto dest: word_less_imp_unat_diff_Suc)

declare brand_loop.simps [simp del]

definition cpu_get_brand :: "cpu \<Rightarrow> u32 \<Rightarrow> mem \<Rightarrow> mem" where
  "cpu_get_brand c brand_out m =
     (let m1 = (if \<not> cpu_brand_string_supported c then m(brand_out := 63, brand_out + 1 := 0) else m);
          m2 = brand_loop c brand_out 2 0 (0, 0, 0, 0) m1
      in m2(brand_out + 48 := 0))"

definition cpu_has_apic :: "cpu \<Rightarrow> u32" where
  "cpu_has_apic c = (let (eax, ebx, ecx, edx) = get_cpuid c 1 (0, 0, 0, 0) in edx AND 0x100)"

definition cpu_rdmsr :: "(u32 \<Rightarrow> 64 word) \<Rightarrow> u32 \<Rightarrow> u32 \<Rightarrow> u32 \<Rightarrow> mem \<Rightarrow> mem" where
  "cpu_rdmsr msr msr_idx reg_high reg_low m =
     (let h = ucast (drop_bit 32 (msr msr_idx)); l = ucast (msr msr_idx)
      in store32 (store32 m reg_high h) reg_low l)"

definition cpu_wrmsr :: "u32 \<Rightarrow> u32 \<Rightarrow> u32 \<Rightarrow> (u32 \<Rightarrow> 64 word) \<Rightarrow> (u32 \<Rightarrow> 64 word)" where
  "cpu_wrmsr msr_idx reg_high reg_low msr = msr(msr_idx := push_bit 32 (ucast reg_high) OR ucast reg_low)"

section \<open>The serial port\<close>

abbreviation (input) SERIAL_COM1_BASE :: u16 where "SERIAL_COM1_BASE \<equiv> 0x3F8"
definition SERIAL_DATA_PORT :: "u16 \<Rightarrow> u16" where "SERIAL_DATA_PORT base = base"
definition SERIAL_LINE_COMMAND_PORT :: "u16 \<Rightarrow> u16" where "SERIAL_LINE_COMMAND_PORT base = base + 3"
definition SERIAL_LINE_STATUS_PORT :: "u16 \<Rightarrow> u16" where "SERIAL_LINE_STATUS_PORT base = base + 5"
abbreviation (input) SERIAL_LINE_ENABLE_DLAB :: u8 where "SERIAL_LINE_ENABLE_DLAB \<equiv> 0x80"

definition serial_configure_baud_rate :: "u16 \<Rightarrow> u16 \<Rightarrow> iolog \<Rightarrow> iolog" where
  "serial_configure_baud_rate com divisor l =
     (let l1 = outb (SERIAL_LINE_COMMAND_PORT com) SERIAL_LINE_ENABLE_DLAB l;
          l2 = outb (SERIAL_DATA_PORT com) (ucast (drop_bit 8 divisor AND 0x00ff)) l1
      in outb (SERIAL_DATA_PORT com) (ucast (divisor AND 0x00ff)) l2)"

definition serial_configure_line :: "u16 \<Rightarrow> iolog \<Rightarrow> iolog" where
  "serial_configure_line com l = outb (SERIAL_LINE_COMMAND_PORT com) 0x03 l"

definition serial_is_transmit_fifo_empty :: "device \<Rightarrow> u16 \<Rightarrow> iolog \<Rightarrow> u8 \<times> iolog" where
  "serial_is_transmit_fifo_empty d com l =
     (let (v, l1) = inb d (SERIAL_LINE_STATUS_PORT com) l in (v AND 0x20, l1))"

partial_function (option) serial_wait :: "device \<Rightarrow> u16 \<Rightarrow> iolog \<Rightarrow> iolog option" where
  "serial_wait d com l =
     (let (v, l1) = serial_is_transmit_fifo_empty d com l in if v = 0 then serial_wait d com l1 else Some l1)"

function serial_loop :: "device \<Rightarrow> mem \<Rightarrow> u32 \<Rightarrow> u32 \<Rightarrow> u32 \<Rightarrow> iolog \<Rightarrow> iolog option" where
  "serial_loop d m buf len i l =
     (if i < len
      then (case serial_wait d SERIAL_COM1_BASE l of None \<Rightarrow> None
            | Some l1 \<Rightarrow> serial_loop d m buf len (i + 1) (outb (SERIAL_DATA_PORT SERIAL_COM1_BASE) (m (buf + i)) l1))
      else Some l)"
  by pat_completeness auto
termination
  by (relation "measure (\<lambda>(d, m, buf, len, i, l). unat (len - i))") (auto dest: word_less_imp_unat_diff_Suc)

declare serial_loop.simps [simp del]

definition serial_write :: "device \<Rightarrow> u32 \<Rightarrow> u32 \<Rightarrow> mem \<Rightarrow> iolog \<Rightarrow> iolog option" where
  "serial_write d buf len m l =
     serial_loop d m buf len 0 (serial_configure_line SERIAL_COM1_BASE (serial_configure_baud_rate SERIAL_COM1_BASE 3 l))"

section \<open>Transmission\<close>

definition transmitted :: "u16 \<Rightarrow> iolog \<Rightarrow> u8 list" where
  "transmitted p l = List.map_filter (\<lambda>e. case e of Outb q v \<Rightarrow> if q = p then Some v else None | _ \<Rightarrow> None) l"

text \<open>The port gets ready again and again: from every history, after enough polls.\<close>

definition gets_ready :: "device \<Rightarrow> bool" where
  "gets_ready d \<longleftrightarrow> (\<forall>l. \<exists>n. dev8 d (l @ replicate n (Inb 0x3FD)) 0x3FD AND 0x20 \<noteq> 0)"

lemma transmitted_simps [simp]:
  "transmitted p [] = []" "transmitted p (l @ l') = transmitted p l @ transmitted p l'"
  "transmitted p [Outb q v] = (if q = p then [v] else [])" "transmitted p (replicate n (Inb q)) = []"
  by (simp_all add: transmitted_def map_filter_def filter_replicate)

lemma serial_wait_returns:
  assumes "dev8 d (l @ replicate n (Inb 0x3FD)) 0x3FD AND 0x20 \<noteq> 0"
  shows "\<exists>k. serial_wait d 0x3F8 l = Some (l @ replicate k (Inb 0x3FD))"
  using assms
proof (induction n arbitrary: l)
  case 0
  then show ?case
    by (subst serial_wait.simps)
      (auto simp: serial_is_transmit_fifo_empty_def SERIAL_LINE_STATUS_PORT_def inb_def intro: exI [of _ "Suc 0"])
next
  case (Suc n)
  have step: "serial_wait d 0x3F8 l = (if dev8 d l 0x3FD AND 0x20 = 0 then serial_wait d 0x3F8 (l @ [Inb 0x3FD]) else Some (l @ [Inb 0x3FD]))"
    by (subst serial_wait.simps) (simp add: serial_is_transmit_fifo_empty_def SERIAL_LINE_STATUS_PORT_def inb_def)
  have "dev8 d ((l @ [Inb 0x3FD]) @ replicate n (Inb 0x3FD)) 0x3FD AND 0x20 \<noteq> 0" using Suc.prems by simp
  from Suc.IH [OF this] obtain k where "serial_wait d 0x3F8 (l @ [Inb 0x3FD]) = Some ((l @ [Inb 0x3FD]) @ replicate k (Inb 0x3FD))" ..
  then show ?case unfolding step by (auto intro: exI [of _ "Suc k"] exI [of _ "Suc 0"])
qed

lemma serial_loop_returns:
  "gets_ready d \<Longrightarrow> i \<le> len \<Longrightarrow> \<exists>l'. serial_loop d m buf len i l = Some l' \<and>
    transmitted 0x3F8 l' = transmitted 0x3F8 l @ map (\<lambda>k. m (buf + of_nat k)) [unat i..<unat len]"
proof (induction d m buf len i l rule: serial_loop.induct)
  case (1 d m buf len i l)
  show ?case
  proof (cases "i < len")
    case True
    obtain n where "dev8 d (l @ replicate n (Inb 0x3FD)) 0x3FD AND 0x20 \<noteq> 0" using "1.prems"(1) unfolding gets_ready_def by blast
    then obtain k where k: "serial_wait d 0x3F8 l = Some (l @ replicate k (Inb 0x3FD))" using serial_wait_returns by blast
    let ?l1 = "outb (SERIAL_DATA_PORT SERIAL_COM1_BASE) (m (buf + i)) (l @ replicate k (Inb 0x3FD))"
    have "i + 1 \<le> len" using True by (simp add: inc_le)
    from "1.IH" [OF True k "1.prems"(1) this] obtain l' where l': "serial_loop d m buf len (i + 1) ?l1 = Some l'"
      "transmitted 0x3F8 l' = transmitted 0x3F8 ?l1 @ map (\<lambda>k. m (buf + of_nat k)) [unat (i + 1)..<unat len]" by blast
    have "unat i < unat len" using True by (simp add: word_less_nat_alt)
    then have "[unat i..<unat len] = unat i # [unat (i + 1)..<unat len]" by (simp add: upt_conv_Cons unat_Suc_less [OF True])
    then show ?thesis
      using l' True k by (simp add: serial_loop.simps [of d m buf len i l] outb_def SERIAL_DATA_PORT_def)
  next
    case False
    moreover from this have "unat len \<le> unat i" by (simp add: word_less_nat_alt)
    ultimately show ?thesis by (simp add: serial_loop.simps [of d m buf len i l])
  qed
qed

text \<open>
  C27: Whenever the line status port gets ready again after enough polls, \<^verbatim>\<open>serial_write\<close> returns, and
  what it has handed to the data port of the first serial port is the two divisor bytes, high byte
  first, followed by the bytes of the buffer in order.
\<close>

theorem serial_write_transmits:
  assumes "gets_ready d"
  shows "\<exists>l'. serial_write d buf len m l = Some l' \<and>
    transmitted 0x3F8 l' = transmitted 0x3F8 l @ [0, 3] @ map (\<lambda>k. m (buf + of_nat k)) [0..<unat len]"
proof -
  let ?l = "serial_configure_line SERIAL_COM1_BASE (serial_configure_baud_rate SERIAL_COM1_BASE 3 l)"
  have "?l = l @ [Outb 0x3FB 0x80] @ [Outb 0x3F8 0] @ [Outb 0x3F8 3] @ [Outb 0x3FB 3]"
    by (simp add: serial_configure_line_def serial_configure_baud_rate_def outb_def SERIAL_LINE_COMMAND_PORT_def SERIAL_DATA_PORT_def)
  then have "transmitted 0x3F8 ?l = transmitted 0x3F8 l @ [0, 3]" by (simp only: transmitted_simps) simp
  then show ?thesis using serial_loop_returns [OF assms, of 0 len m buf ?l] by (auto simp: serial_write_def)
qed

definition slow_port :: device where
  "slow_port = \<lparr>dev8 = (\<lambda>l p. if last (Outb 0 0 # l) = Inb 0x3FD then 0x20 else 0), dev16 = (\<lambda>_ _. 0), dev32 = (\<lambda>_ _. 0)\<rparr>"

theorem serial_write_transmits_witness:
  "\<exists>l'. serial_write slow_port 0 2 (\<lambda>a. ucast a + 65) [] = Some l' \<and> transmitted 0x3F8 l' = [0, 3, 65, 66]"
proof -
  have "gets_ready slow_port" unfolding gets_ready_def by (rule allI, rule exI [of _ 1]) (simp add: slow_port_def)
  from serial_write_transmits [OF this, of 0 2 "\<lambda>a. ucast a + 65" "[]"] show ?thesis by (simp add: upt_conv_Cons)
qed

section \<open>The brand string\<close>

definition reg_bytes :: "u32 \<Rightarrow> u8 list" where
  "reg_bytes w = [ucast w, ucast (drop_bit 8 w), ucast (drop_bit 16 w), ucast (drop_bit 24 w)]"

definition leaf_bytes :: "u32 \<times> u32 \<times> u32 \<times> u32 \<Rightarrow> u8 list" where
  "leaf_bytes r = (case r of (a, b, c, d) \<Rightarrow> reg_bytes a @ reg_bytes b @ reg_bytes c @ reg_bytes d)"

lemma store32_write_bytes: "store32 m p w = write_bytes m p (reg_bytes w)"
  by (simp add: store32_def reg_bytes_def add.assoc)

lemma write_bytes_append: "write_bytes m p (xs @ ys) = write_bytes (write_bytes m p xs) (p + of_nat (length xs)) ys"
  by (induction xs arbitrary: m p) (simp_all add: add.assoc)

lemma brand_loop_eq:
  "brand_loop c out 2 0 r m = (let r2 = get_cpuid c 0x80000002 r; r3 = get_cpuid c 0x80000003 r2; r4 = get_cpuid c 0x80000004 r3
     in write_bytes m out (leaf_bytes r2 @ leaf_bytes r3 @ leaf_bytes r4))"
proof -
  have len4: "length (reg_bytes w) = 4" for w by (simp add: reg_bytes_def)
  have step: "brand_loop c out i j r m = brand_loop c out (i + 1) (j + 4) (get_cpuid c (BRAND_LEAF + i) r)
      (write_bytes m (out + 4 * j) (leaf_bytes (get_cpuid c (BRAND_LEAF + i) r)))" if "i < 5" for i j r m
  proof -
    obtain x y z w where "get_cpuid c (BRAND_LEAF + i) r = (x, y, z, w)" by (cases "get_cpuid c (BRAND_LEAF + i) r")
    then show ?thesis
      using that by (simp add: brand_loop.simps [of c out i j] Let_def leaf_bytes_def store32_write_bytes write_bytes_append
          len4 distrib_left add.assoc)
  qed
  have stop: "brand_loop c out 5 j r m = m" for j r m by (simp add: brand_loop.simps [of c out 5])
  have len: "length (leaf_bytes r) = 16" for r by (simp add: leaf_bytes_def reg_bytes_def split: prod.splits)
  show ?thesis
    using step [of 2] step [of 3] step [of 4]
    by (simp add: stop Let_def write_bytes_append len add.assoc)
qed

lemma cpu_get_brand_text:
  assumes "0x80000004 \<le> cpuid_max c 0x80000000" and "cpuid_leaf c 0x80000002 = Some r2"
    and "cpuid_leaf c 0x80000003 = Some r3" and "cpuid_leaf c 0x80000004 = Some r4"
  shows "cpu_get_brand c out m = (write_bytes m out (leaf_bytes r2 @ leaf_bytes r3 @ leaf_bytes r4))(out + 48 := 0)"
  using assms by (simp add: cpu_get_brand_def cpu_brand_string_supported_def brand_loop_eq get_cpuid_def Let_def)

text \<open>Without the three leaves the question mark is overwritten, and the text is empty.\<close>

lemma cpu_get_brand_unsupported:
  assumes "cpuid_leaf c = (\<lambda>_. None)"
  shows "cpu_get_brand c out m out = 0"
proof -
  have "cpu_get_brand c out m out = (write_bytes m' out (0 # replicate 47 0)) out" if "m' = (if \<not> cpu_brand_string_supported c then m(out := 63, out + 1 := 0) else m)" for m'
    using assms by (simp add: cpu_get_brand_def brand_loop_eq get_cpuid_def Let_def leaf_bytes_def reg_bytes_def that numeral_eq_Suc)
  then show ?thesis by (simp add: write_bytes_apply)
qed

end
