(* ===== verification/Kernel.thy ===== *)
theory Kernel
  imports Creation Hal
begin

text \<open>
  \<^verbatim>\<open>kmain\<close> of \<^verbatim>\<open>src/src/kernel/kernel.c\<close>: the operations of the components in the order of the code, in
  five phases (identify the processor, descriptor tables, memory map, text screen behind paging,
  services), with the first user processes. The addresses the linker chooses are a parameter, the
  record \<open>image\<close>; so are the two floating-point computations of the timer, as in \<open>Timer\<close>.
\<close>

section \<open>The image\<close>

text \<open>
  The addresses the linker gives to the string literals, to the functions and variables and to the
  48 interrupt stubs (and the one of the system call), and the address of the array \<^verbatim>\<open>buf\<close> of
  \<^verbatim>\<open>kmain\<close> on the stack.
\<close>

record image =
  rodata :: "string \<Rightarrow> u32"
  symbol :: "string \<Rightarrow> u32"
  isr_stub :: "nat \<Rightarrow> u32"
  buf :: u32

abbreviation (input) MEM_1MB :: u32 where "MEM_1MB \<equiv> 0x100000"
abbreviation (input) VGA_BUFFER_VADDR :: u32 where "VGA_BUFFER_VADDR \<equiv> 0xB0000000"
abbreviation (input) VGA_BUFFER_PADDR :: u32 where "VGA_BUFFER_PADDR \<equiv> 0xB8000"
abbreviation (input) FB_RED :: u8 where "FB_RED \<equiv> 4"

text \<open>The members of \<^verbatim>\<open>multiboot_info_t\<close> and of the 24 byte \<^verbatim>\<open>multiboot_memory_map_t\<close> that are read.\<close>

abbreviation (input) mb_mem_upper :: nat where "mb_mem_upper \<equiv> 8"
abbreviation (input) mb_mmap_length :: nat where "mb_mmap_length \<equiv> 44"
abbreviation (input) mb_mmap_addr :: nat where "mb_mmap_addr \<equiv> 48"
abbreviation (input) mmap_addr_low :: nat where "mmap_addr_low \<equiv> 4"
abbreviation (input) mmap_len_low :: nat where "mmap_len_low \<equiv> 12"
abbreviation (input) mmap_type :: nat where "mmap_type \<equiv> 20"
abbreviation (input) sizeof_mmap_entry :: u32 where "sizeof_mmap_entry \<equiv> 24"
abbreviation (input) MULTIBOOT_MEMORY_AVAILABLE :: u32 where "MULTIBOOT_MEMORY_AVAILABLE \<equiv> 1"

section \<open>Start-up\<close>

definition get_mem_type_str :: "image \<Rightarrow> u32 \<Rightarrow> u32" where
  "get_mem_type_str im t =
     (if t = 1 then rodata im ''Available''
      else if t = 2 then rodata im ''Reserved''
      else if t = 3 then rodata im ''ACPI reclaimable''
      else if t = 4 then rodata im ''NVS''
      else if t = 5 then rodata im ''Bad RAM''
      else rodata im ''**NOT KNOWN**'')"

definition print_jiffies :: "'s timer_scheme \<Rightarrow> 's timer_scheme res" where
  "print_jiffies s =
     bindE (printf (lit ''[Kernel] Time callback jiffies: %d'' @ [10]) [jiffies s] (fb_set_color FB_RED FB_BLACK s))
       (\<lambda>s1. Inr (fb_reset_color s1))"

definition divide_hanlder :: "'s console_scheme \<Rightarrow> 's console_scheme res" where
  "divide_hanlder s = bindE (printf (lit ''Divide Error'' @ [10]) [] s) (\<lambda>_. Inl Panic)"

definition report_cpu :: "image \<Rightarrow> cpu \<Rightarrow> 's console_scheme \<Rightarrow> 's console_scheme res" where
  "report_cpu im c s =
     (let s1 = fb_clear s; s2 = s1\<lparr>mem := cpu_get_brand c (buf im) (mem s1)\<rparr>
      in printf (lit ''[KERNEL] CPU: %s'' @ [10]) [buf im] s2)"

definition init_tables :: "image \<Rightarrow> 's descr_scheme \<Rightarrow> 's descr_scheme res" where
  "init_tables im s =
     bindE (init_gdt (symbol im ''gdt_entries'') s) (\<lambda>s1.
     bindE (init_idt (symbol im ''idt_entries'') (isr_stub im) s1) (\<lambda>s2.
     bindE (tss_init (symbol im ''kernel_tss'') 5 0x10 0 s2) (\<lambda>s3.
     Inr (register_interrupt_handler 0 (symbol im ''divide_hanlder'') s3))))"

function memory_map_loop :: "image \<Rightarrow> u32 \<Rightarrow> u8 \<Rightarrow> u8 \<Rightarrow> 's pmm_scheme \<Rightarrow> 's pmm_scheme res" where
  "memory_map_loop im mmap map_size i s =
     (if i < map_size
      then (let e = mmap + ucast i * sizeof_mmap_entry; type = field s e mmap_type
            in bindE (printf ([9] @ lit ''Base: 0x%08x, len: 0x%08x B, type: %d(%s)'' @ [10])
                       [field s e mmap_addr_low, field s e mmap_len_low, type, get_mem_type_str im type] s) (\<lambda>s1.
               bindE (if field s1 e mmap_type = MULTIBOOT_MEMORY_AVAILABLE
                      then pmm_init_region (field s1 e mmap_addr_low) (field s1 e mmap_len_low) s1
                      else Inr s1) (\<lambda>s2.
               memory_map_loop im mmap map_size (i + 1) s2)))
      else Inr s)"
  by pat_completeness auto
termination
  by (relation "measure (\<lambda>(im, mmap, n, i, s). unat (n - i))") (auto dest: word_less_imp_unat_diff_Suc)

declare memory_map_loop.simps [simp del]

definition report_blocks :: "'s pmm_scheme \<Rightarrow> 's pmm_scheme res" where
  "report_blocks s =
     printf (lit ''[PMM] Pmm initialized blocks: %d, used or reserved blocks: %d, free blocks: %d'' @ [10])
       [pmm_get_block_count s, pmm_get_used_block_count s, pmm_get_free_block_count s] s"

text \<open>\<^verbatim>\<open>&__kernel_end - &__kernel_start\<close> is a difference of pointers to 32-bit words.\<close>

definition word_ptr_diff :: "u32 \<Rightarrow> u32 \<Rightarrow> u32" where
  "word_ptr_diff p q = of_int (sint (p - q) div 4)"

definition init_memory :: "image \<Rightarrow> u32 \<Rightarrow> 's pmm_scheme \<Rightarrow> 's pmm_scheme res" where
  "init_memory im mb_info s =
     (let kernel_start = symbol im ''__kernel_start'';
          kernel_end = symbol im ''__kernel_end'';
          s1 = init_pmm (MEM_1MB + push_bit 10 (field s mb_info mb_mem_upper)) s;
          mmap = field s1 mb_info mb_mmap_addr;
          map_size = ucast (field s1 mb_info mb_mmap_length div sizeof_mmap_entry)
      in bindE (printf (lit ''[PMM] Physical Memory Map:'' @ [10]) [] s1) (\<lambda>s2.
         bindE (memory_map_loop im mmap map_size 0 s2) (\<lambda>s3.
         bindE (printf (lit ''[PMM] Pmm initialized with %d KB physical memory'' @ [10]) [pmm_get_memory_size s3 div 1024] s3) (\<lambda>s4.
         bindE (report_blocks s4) (\<lambda>s5.
         bindE (printf (lit ''[PMM] Start: 0x%x B; end: 0x%x B; size: 0x%x B'' @ [10])
                  [kernel_start, kernel_end, word_ptr_diff kernel_end kernel_start] s5) (\<lambda>s6.
         bindE (pmm_deinit_region kernel_start (word_ptr_diff kernel_end kernel_start) s6) (\<lambda>s7.
         bindE (pmm_deinit_region kernel_end (0x400000 - kernel_end) s7) (\<lambda>s8.
         bindE (printf (lit ''[PMM] Allocate %d block for kernel'' @ [10]) [(0x400000 - kernel_start) div 4096] s8)
           report_blocks))))))))"

definition init_screen :: "'s vmm_scheme \<Rightarrow> 's vmm_scheme res" where
  "init_screen s =
     bindE (vmm_map_page (kpage_dir s) VGA_BUFFER_PADDR VGA_BUFFER_VADDR (PTE_PRESENT OR PTE_WRITABLE OR PTE_USER) s) (\<lambda>s1.
     bindE (vmm_map_page (kpage_dir s1) (VGA_BUFFER_PADDR + 0x1000) (VGA_BUFFER_VADDR + 0x1000)
              (PTE_PRESENT OR PTE_WRITABLE OR PTE_USER) s1) (\<lambda>s2.
     printf (lit ''[VMM] Vmm DONE'' @ [10]) [] (fb_set_buffer VGA_BUFFER_VADDR s2)))"

text \<open>The \<^verbatim>\<open>double\<close> 3.0 is \<open>0x4008000000000000\<close>.\<close>

definition start_services ::
  "image \<Rightarrow> (64 word \<Rightarrow> u16 \<Rightarrow> u32) \<Rightarrow> (u16 \<Rightarrow> 64 word) \<Rightarrow> 's proc_scheme \<Rightarrow> 's proc_scheme res" where
  "start_services im scale period s =
     bindE (init_mm (symbol im ''__kernel_end'') (0xC0400000 - 0x1000) s) (\<lambda>s1.
     bindE (init_timer (symbol im ''timer_handler'') 100 s1) (\<lambda>s2.
     bindE (register_timer_callback scale (symbol im ''print_jiffies'') 0x4008000000000000 s2) (\<lambda>s3.
     bindE (process_init scale period (symbol im ''schedule'') s3) (\<lambda>s4.
     let s5 = tss_set_stack 0x10 0x400000 (syscall_init (symbol im ''syscall_dispatcher'') s4)
     in create_process_from_routine (symbol im ''user_process'') (rodata im ''user process'') s5))))"

definition kmain ::
  "image \<Rightarrow> cpu \<Rightarrow> (64 word \<Rightarrow> u16 \<Rightarrow> u32) \<Rightarrow> (u16 \<Rightarrow> 64 word) \<Rightarrow> u32 \<Rightarrow> 's proc_scheme \<Rightarrow> 's proc_scheme res" where
  "kmain im c scale period mb_info s =
     bindE (report_cpu im c s) (\<lambda>s1.
     bindE (init_tables im s1) (\<lambda>s2.
     bindE (init_memory im mb_info s2) (\<lambda>s3.
     bindE (init_paging (symbol im ''page_fault_handler'') s3) (\<lambda>s4.
     bindE (init_screen s4)
       (start_services im scale period)))))"

section \<open>The first processes\<close>

definition test_syscall :: "image \<Rightarrow> u32 \<Rightarrow> registers \<Rightarrow> 's proc_scheme \<Rightarrow> (user_context, registers \<times> 's proc_scheme) outcome res" where
  "test_syscall im ret regs s =
     (let helo = rodata im (''syscal printf: helo syscall!'' @ [CHR 0x0A])
      in syscall_dispatcher ret (regs\<lparr>r_eax := 0, r_ebx := helo\<rparr>) s)"

text \<open>The delay loops of the two processes have no effect; None is a loop that never ends.\<close>

partial_function (option) user_process2 :: "'s console_scheme \<Rightarrow> 's console_scheme res option" where
  "user_process2 s =
     (case printf (lit ''hi there2'' @ [10]) [] s of Inl e \<Rightarrow> Some (Inl e) | Inr s1 \<Rightarrow> user_process2 s1)"

partial_function (option) user_process_loop :: "'s console_scheme \<Rightarrow> 's console_scheme res option" where
  "user_process_loop s =
     (case printf (lit ''hi there, user_process'' @ [10]) [] s of Inl e \<Rightarrow> Some (Inl e) | Inr s1 \<Rightarrow> user_process_loop s1)"

definition user_process :: "image \<Rightarrow> 's proc_scheme \<Rightarrow> 's proc_scheme res option" where
  "user_process im s =
     (let name = rodata im ''user process''; routine = symbol im ''user_process2''
      in case bindE (create_process_from_routine routine name s) (create_process_from_routine routine (name + 1)) of
           Inl e \<Rightarrow> Some (Inl e) | Inr s2 \<Rightarrow> user_process_loop s2)"

section \<open>Starting the services\<close>

lemma register_timer_run:
  fixes s :: "'s timer_scheme"
  assumes ok: "timers_ok s ns" and room: "roomy (n + 36) s"
  shows "\<exists>p s' la mu m. register_timer_callback scale callback sec s = Inr s' \<and> timers_ok s' (p # ns) \<and> t_callback s' p = callback \<and>
     t_offset s' p = scale sec (frequency_g s) \<and> keeps C s s' \<and> roomy n s' \<and> (\<forall>k. (p, k) \<notin> live_blocks s) \<and>
     s' = s\<lparr>last_alloc := la, memory_used := mu, mem := m, timer_head := p\<rparr>"
proof -
  have r: "roomy (n + unat (24 :: u32) + 12) s" using room by (simp add: add.assoc)
  obtain p s0 la mu m where w0: "malloc 24 s = Inr (p, s0)" "filling 24 s0 n p s0" "\<forall>C. keeps C s s0" "\<forall>k. (p, k) \<notin> live_blocks s"
    "s0 = s\<lparr>last_alloc := la, memory_used := mu, mem := m\<rparr>" using filling_start [OF r] by auto
  let ?off = "scale sec (frequency_g s)"
  define s5 where "s5 = set_field p 20 (timer_head s0) (set_field p 16 (jiffies s + ?off) (set_field p 12 ?off
     (set_field p 8 (ucast (drop_bit 32 sec)) (set_field p 4 (ucast sec) (set_field p 0 callback s0)))))"
  have run: "register_timer_callback scale callback sec s = Inr (s5\<lparr>timer_head := p\<rparr>)"
    using w0(1) by (simp add: register_timer_callback_def s5_def Let_def) (simp add: set_field_def)
  have "filling 24 s0 n p s5" unfolding s5_def by (intro filling_poke w0(2)) simp_all
  then have w: "filling 24 s0 n p (s5\<lparr>timer_head := p\<rparr>)" by (rule filling_vars) simp_all
  from register_timer_callback_prepends [OF ok roomy_malloc(1) [OF r] w0(1), of scale callback sec] run
  have t: "timers_ok (s5\<lparr>timer_head := p\<rparr>) (p # ns)" "t_callback (s5\<lparr>timer_head := p\<rparr>) p = callback"
    "t_offset (s5\<lparr>timer_head := p\<rparr>) p = ?off" by auto
  have "keeps (insert p C) s (s5\<lparr>timer_head := p\<rparr>)"
    by (rule keeps_trans [OF _ keeps_mono [of "{p}"]]) (use w w0(3) in \<open>auto simp: filling_def\<close>)
  then have k: "keeps C s (s5\<lparr>timer_head := p\<rparr>)" using w0(4) [rule_format] by (rule keeps_fresh)
  have "\<exists>m. s5\<lparr>timer_head := p\<rparr> = s\<lparr>last_alloc := la, memory_used := mu, mem := m, timer_head := p\<rparr>"
    by (simp add: s5_def set_field_def w0(5)) blast
  then show ?thesis using run t k w w0(4) unfolding filling_def by blast
qed

lemma list_create_run:
  fixes s :: "'s heap_scheme"
  assumes room: "roomy (n + 24) s"
  shows "\<exists>l s' la mu m. list_create s = Inr (l, s') \<and> list_ok s' l [] \<and> keeps C s s' \<and> roomy n s' \<and> (\<forall>k. (l, k) \<notin> live_blocks s) \<and>
     s' = s\<lparr>last_alloc := la, memory_used := mu, mem := m\<rparr>"
proof -
  have r: "roomy (n + unat (12 :: u32) + 12) s" using room by (simp add: add.assoc)
  obtain l s0 la mu m where w: "malloc 12 s = Inr (l, s0)" "filling 12 s0 n l s0" "\<forall>C. keeps C s s0" "\<forall>k. (l, k) \<notin> live_blocks s"
    "s0 = s\<lparr>last_alloc := la, memory_used := mu, mem := m\<rparr>" "kcalloc 12 1 s = Inr (l, s0)" using filling_start [OF r] by auto
  have c: "list_create s = Inr (l, s0)" using w(6) by (simp add: list_create_def)
  moreover have "list_ok s0 l []"
    using list_create_ok [OF roomy_inv [OF r] roomy_malloc(1) [OF r]] w(1) c by simp
  ultimately show ?thesis using w(2-5) unfolding filling_def by blast
qed

lemma init_mm_run:
  fixes s :: "'s heap_scheme"
  assumes "unat start + 44 + n < unat hend - 0x20000" and "unat hend \<le> 2 ^ 32 - 16" and "4 \<le> unat start"
    and "\<And>a. start \<le> a \<Longrightarrow> unat a < unat hend \<Longrightarrow> \<not> in_window (framebuffer_addr s) a" and "calm s"
  shows "\<exists>s' la pb he mu m pd. init_mm start hend s = Inr s' \<and> roomy n s' \<and> heap_begin s' = start \<and>
     (\<forall>a. 4 \<le> unat a \<longrightarrow> unat a < unat start \<longrightarrow> \<not> in_window (framebuffer_addr s) a \<longrightarrow> mem s' a = mem s a) \<and>
     s' = s\<lparr>heap_begin := start, pheap_end := hend, pheap_begin := pb, heap_end := he, last_alloc := la, memory_used := mu, mem := m, pheap_desc := pd\<rparr>"
proof -
  let ?he = "hend - 0x20000"
  let ?s4 = "s\<lparr>last_alloc := start, heap_begin := start, pheap_end := hend, pheap_begin := ?he, heap_end := ?he,
     mem := memset (mem s) start 0 (?he - start)\<rparr>"
  have e: "unat ?he = unat hend - 0x20000" using assms(1) by (simp add: unat_sub word_le_nat_alt)
  have "heap_ok ?s4 []" using assms(1,2,4) e by (auto simp: heap_ok_def word_le_nat_alt)
  then have r4: "roomy (n + unat (32 :: u32) + 12) ?s4"
    using assms(1,3,5) e unfolding roomy_def by (auto simp: calm_def intro!: exI [of _ "[]"])
  obtain p s5 la mu m where w: "malloc 32 ?s4 = Inr (p, s5)" "filling 32 s5 n p s5" "\<forall>C. keeps C ?s4 s5"
    "s5 = ?s4\<lparr>last_alloc := la, memory_used := mu, mem := m\<rparr>" using filling_start [OF r4] by auto
  have run: "init_mm start hend s = Inr (s5\<lparr>pheap_desc := p\<rparr>)"
  proof -
    have "init_mm start hend s = bindE (malloc 32 ?s4) (\<lambda>(p, s5). Inr (s5\<lparr>pheap_desc := p\<rparr>))" by (simp add: init_mm_def Let_def)
    then show ?thesis by (simp only: w(1) bindE_simps split_conv)
  qed
  have "roomy n (s5\<lparr>pheap_desc := p\<rparr>)" by (rule roomy_vars [of n s5]) (use w(2) in \<open>simp_all add: filling_def\<close>)
  moreover have "mem s5 a = mem s a" if "4 \<le> unat a" "unat a < unat start" "\<not> in_window (framebuffer_addr s) a" for a
  proof -
    have "mem s5 a = mem ?s4 a" using w(3) that by (auto simp: keeps_def)
    moreover have "\<not> a - start < ?he - start"
      using that(2) e assms(1) unat_u32_le [of hend] by (simp add: word_less_nat_alt unat_sub_if_size word_size)
    ultimately show ?thesis by (simp add: memset_apply)
  qed
  moreover have "s5\<lparr>pheap_desc := p\<rparr> = s\<lparr>heap_begin := start, pheap_end := hend, pheap_begin := ?he, heap_end := ?he, last_alloc := la,
      memory_used := mu, mem := m, pheap_desc := p\<rparr>" by (simp add: w(4))
  moreover have "heap_begin (s5\<lparr>pheap_desc := p\<rparr>) = start" "mem (s5\<lparr>pheap_desc := p\<rparr>) = mem s5" by (simp_all add: w(4))
  ultimately show ?thesis using run by metis
qed

text \<open>The name is a string between the text screen and the end of the kernel, where the heap begins.\<close>

definition rodata_text :: "u32 \<Rightarrow> u32 \<Rightarrow> u8 list \<Rightarrow> mem \<Rightarrow> bool" where
  "rodata_text kend p letters m \<longleftrightarrow> cstr m p letters \<and> length letters < 512 \<and> 0xB0020000 \<le> unat p \<and> unat p + length letters < unat kend"

lemma off_screen: "0xB0020000 \<le> unat a \<Longrightarrow> \<not> in_window 0xB0000000 a"
  using unat_u32_le [of a] by (simp add: in_window_def word_less_nat_alt unat_sub_if_size word_size)

lemma rodata_name:
  fixes s :: "'s heap_scheme"
  assumes "rodata_text (heap_begin s) p letters (mem s)" and "framebuffer_addr s = 0xB0000000"
  shows "name_ok p letters s"
proof -
  have "\<not> in_window 0xB0000000 (p + of_nat i)" if "i \<le> length letters" for i
  proof (rule off_screen)
    have "unat (p + of_nat i) = unat p + i"
      using assms(1) that unat_u32_le [of "heap_begin s"] by (simp add: rodata_text_def unat_word_ariths unat_of_nat_u32)
    then show "0xB0020000 \<le> unat (p + of_nat i)" using assms(1) by (simp add: rodata_text_def)
  qed
  then show ?thesis using assms by (simp add: name_ok_def rodata_text_def)
qed

lemma init_heap_run:
  fixes s :: "'s timer_scheme"
  assumes kend: "0xB0020000 \<le> unat kend" "unat kend \<le> 0xC0300000"
    and scr: "framebuffer_addr s = VGA_BUFFER_VADDR" "calm s" and zero: "timer_head s = 0" and nm: "rodata_text kend name letters (mem s)"
  shows "\<exists>s1 s2. init_mm kend (0xC0400000 - 0x1000) s = Inr s1 \<and> init_timer handler 100 s1 = Inr s2 \<and> roomy 712 s2 \<and>
    timers_ok s2 [] \<and> name_ok name letters s2 \<and> frequency_g s2 = 100 \<and> interrupt_handlers s2 32 = handler \<and>
    timer.more s2 = timer.more s"
proof -
  have w: "\<not> in_window (framebuffer_addr s) a" if "kend \<le> a" "unat a < unat (0xC0400000 - 0x1000 :: u32)" for a
    using off_screen [of a] that kend(1) scr(1) by (simp add: word_le_nat_alt)
  have i: "unat kend + 44 + 712 < unat (0xC0400000 - 0x1000 :: u32) - 0x20000" "unat (0xC0400000 - 0x1000 :: u32) \<le> 2 ^ 32 - 16" "4 \<le> unat kend"
    using kend by simp_all
  from init_mm_run [OF i w scr(2)] obtain s1 la pb he mu m pd where s1:
    "init_mm kend (0xC0400000 - 0x1000) s = Inr s1" "roomy 712 s1" "heap_begin s1 = kend"
    "\<forall>a. 4 \<le> unat a \<longrightarrow> unat a < unat kend \<longrightarrow> \<not> in_window (framebuffer_addr s) a \<longrightarrow> mem s1 a = mem s a"
    and v: "s1 = s\<lparr>heap_begin := kend, pheap_end := 0xC0400000 - 0x1000, pheap_begin := pb, heap_end := he, last_alloc := la,
      memory_used := mu, mem := m, pheap_desc := pd\<rparr>" by blast
  have v1: "framebuffer_addr s1 = VGA_BUFFER_VADDR" "timer_head s1 = 0" using scr zero by (simp_all add: v)
  have "mem s1 (name + of_nat i) = mem s (name + of_nat i)" if "i \<le> length letters" for i
  proof -
    have u: "unat (name + of_nat i) = unat name + i"
      using nm that unat_u32_le [of kend] by (simp add: rodata_text_def unat_word_ariths unat_of_nat_u32)
    then have "0xB0020000 \<le> unat (name + of_nat i)" using nm by (simp add: rodata_text_def)
    then show ?thesis using s1(4) off_screen [of "name + of_nat i"] u nm that scr(1) by (simp add: rodata_text_def)
  qed
  then have "rodata_text (heap_begin s1) name letters (mem s1)"
    using nm cstr_agree [of "mem s" name letters "mem s1"] s1(3) by (simp add: rodata_text_def)
  then have n1: "name_ok name letters s1" using rodata_name v1(1) by blast
  define s2 where "s2 = s1\<lparr>frequency_g := 100, interrupt_handlers := (interrupt_handlers s1)(32 := handler),
    iolog := iolog s1 @ [Outb 0x43 0x36, Outb 0x40 0x9B, Outb 0x40 0x2E]\<rparr>"
  have s2: "init_timer handler 100 s1 = Inr s2"
    by (simp add: init_timer_def register_interrupt_handler_def Let_def s2_def outb_def)
  have r2: "roomy 712 s2" by (rule roomy_vars [OF s1(2)]) (simp_all add: s2_def)
  have k2: "keeps {} s1 s2" by (rule keeps_vars [OF roomy_inv [OF s1(2)]]) (simp_all add: s2_def)
  have "timers_ok s2 []" using roomy_inv [OF r2] v1(2) by (simp add: timers_ok_def s2_def)
  moreover have "frequency_g s2 = 100" "interrupt_handlers s2 32 = handler" "timer.more s2 = timer.more s" by (simp_all add: s2_def v)
  ultimately show ?thesis using s1(1) s2 r2 name_keeps [OF n1 k2] by blast
qed

lemma init_processes_run:
  fixes s :: "'s proc_scheme"
  assumes "timers_ok s []" and room: "roomy 712 s"
  shows "\<exists>t1 t2 l s3 s6. register_timer_callback scale print sec s = Inr s3 \<and> process_init scale period sched s3 = Inr s6 \<and>
    timers_ok s6 [t2, t1] \<and> t_callback s6 t1 = print \<and> t_callback s6 t2 = sched \<and> list_ok s6 l [] \<and> l \<notin> {t1, t2} \<and>
    keeps {} s s6 \<and> roomy 616 s6 \<and> process_list s6 = l \<and> current_process s6 = current_process s \<and>
    last_process s6 = last_process s \<and> interrupt_handlers s6 = interrupt_handlers s \<and> frequency_g s6 = frequency_g s"
proof -
  have r2: "roomy (676 + 36) s" using room by simp
  from register_timer_run [OF assms(1) r2, of scale print sec "{}"] obtain t1 s3 la3 mu3 m3 where
    s3: "register_timer_callback scale print sec s = Inr s3" "timers_ok s3 [t1]" "t_callback s3 t1 = print" "keeps {} s s3" "roomy 676 s3"
    and v3: "s3 = s\<lparr>last_alloc := la3, memory_used := mu3, mem := m3, timer_head := t1\<rparr>" by blast
  have r3: "roomy (652 + 24) s3" using s3(5) by simp
  from list_create_run [OF r3, of "{}"] obtain l s4 la4 mu4 m4 where
    s4: "list_create s3 = Inr (l, s4)" "list_ok s4 l []" "keeps {} s3 s4" "roomy 652 s4" "\<forall>k. (l, k) \<notin> live_blocks s3"
    and v4: "s4 = s3\<lparr>last_alloc := la4, memory_used := mu4, mem := m4\<rparr>" by blast
  define s5 where "s5 = s4\<lparr>process_list := l\<rparr>"
  have k5: "keeps {} s4 s5" by (rule keeps_vars [OF roomy_inv [OF s4(4)]]) (simp_all add: s5_def)
  have r5: "roomy (616 + 36) s5" using roomy_vars [OF s4(4), of s5] by (simp add: s5_def)
  have k35: "keeps {} s3 s5" by (rule keeps_trans [OF s4(3) k5])
  have t5: "timers_ok s5 [t1]" by (rule keeps_timers(1) [OF s3(2) k35]) (simp_all add: s5_def v4)
  from register_timer_run [OF t5 r5, of scale sched "period (frequency_g s)" "{}"] obtain t2 s6 la6 mu6 m6 where
    s6: "register_timer_callback scale sched (period (frequency_g s)) s5 = Inr s6" "timers_ok s6 [t2, t1]"
    "t_callback s6 t2 = sched" "keeps {} s5 s6" "roomy 616 s6" "\<forall>k. (t2, k) \<notin> live_blocks s5"
    and v6: "s6 = s5\<lparr>last_alloc := la6, memory_used := mu6, mem := m6, timer_head := t2\<rparr>" by blast
  have run: "process_init scale period sched s3 = Inr s6"
    using s4(1) s6(1) v4 v3 by (simp add: process_init_def s5_def Let_def)
  have k36: "keeps {} s3 s6" by (rule keeps_trans [OF k35 s6(4)])
  have k46: "keeps {} s4 s6" by (rule keeps_trans [OF k5 s6(4)])
  have sz1: "sized 24 (live_blocks s3) t1" using s3(2) by (simp add: timers_ok_def)
  have "object (live_blocks s4) l" using s4(2) by (simp add: list_rep_def)
  then have "sized 12 (live_blocks s5) l" using keeps_sized(1) [OF k5, of 12 l] by (simp add: sized_def object_def)
  then have "l \<notin> {t1, t2}" using s4(5) s6(6) sz1 by (auto simp: sized_def)
  moreover have "t_callback s6 t1 = print" using keeps_sized(2) [OF k36 sz1, of 0] s3(3) by simp
  moreover have "list_ok s6 l []" by (rule keeps_list [OF s4(2) k46]) simp
  moreover have "keeps {} s s6" by (rule keeps_trans [OF s3(4) k36])
  moreover have "process_list s6 = l" "current_process s6 = current_process s" "last_process s6 = last_process s"
    "interrupt_handlers s6 = interrupt_handlers s" "frequency_g s6 = frequency_g s" by (simp_all add: v6 s5_def v4 v3)
  ultimately show ?thesis using s3(1) run s6(2,3,5) by blast
qed

lemma start_services_run:
  fixes s :: "'s proc_scheme" and im :: image
  assumes kend: "0xB0020000 \<le> unat (symbol im ''__kernel_end'')" "unat (symbol im ''__kernel_end'') \<le> 0xC0300000"
    and scr: "framebuffer_addr s = VGA_BUFFER_VADDR" "calm s"
    and zero: "timer_head s = 0" "current_process s = 0"
    and nm: "rodata_text (symbol im ''__kernel_end'') (rodata im ''user process'') letters (mem s)"
  shows "\<exists>p node t1 t2 s'. start_services im scale period s = Inr s' \<and>
    timers_ok s' [t2, t1] \<and> t_callback s' t2 = symbol im ''schedule'' \<and> t_callback s' t1 = symbol im ''print_jiffies'' \<and>
    list_ok s' (process_list s') [(node, p)] \<and> current_process s' = p \<and> last_process s' = last_process s \<and>
    cstr (mem s') p letters \<and> sized 580 (live_blocks s') p \<and> field s' p pcb_self = node \<and> field s' p pcb_state = TASK_CREATED \<and>
    field s' (pcb_regs p) ctx_eip = symbol im ''user_process'' \<and> field s' (pcb_regs p) ctx_esp = 0xC0400000 \<and>
    field s' (pcb_regs p) ctx_eflags = 0x206 \<and> interrupt_handlers s' 32 = symbol im ''timer_handler'' \<and>
    interrupt_handlers s' 0x80 = symbol im ''syscall_dispatcher'' \<and> esp0 (kernel_tss s') = 0x400000 \<and> frequency_g s' = 100"
proof -
  let ?name = "rodata im ''user process''"
  from init_heap_run [OF kend scr zero(1) nm, of "symbol im ''timer_handler''"] obtain s1 s2 where s2:
    "init_mm (symbol im ''__kernel_end'') (0xC0400000 - 0x1000) s = Inr s1" "init_timer (symbol im ''timer_handler'') 100 s1 = Inr s2"
    "roomy 712 s2" "timers_ok s2 []" "name_ok ?name letters s2" "frequency_g s2 = 100" "interrupt_handlers s2 32 = symbol im ''timer_handler''"
    "timer.more s2 = timer.more s" by blast
  have v2: "current_process s2 = 0" "last_process s2 = last_process s" using s2(8) zero(2) by (cases s, cases s2, simp)+
  from init_processes_run [OF s2(4,3), of scale "symbol im ''print_jiffies''" "0x4008000000000000" period "symbol im ''schedule''"]
  obtain t1 t2 l s3 s6 where s6: "register_timer_callback scale (symbol im ''print_jiffies'') 0x4008000000000000 s2 = Inr s3"
    "process_init scale period (symbol im ''schedule'') s3 = Inr s6" "timers_ok s6 [t2, t1]" "t_callback s6 t1 = symbol im ''print_jiffies''"
    "t_callback s6 t2 = symbol im ''schedule''" "list_ok s6 l []" "l \<notin> {t1, t2}" "keeps {} s2 s6" "roomy 616 s6"
    and v6: "process_list s6 = l" "current_process s6 = current_process s2" "last_process s6 = last_process s2"
      "interrupt_handlers s6 = interrupt_handlers s2" "frequency_g s6 = frequency_g s2" by blast
  define s7 where "s7 = tss_set_stack 0x10 0x400000 (syscall_init (symbol im ''syscall_dispatcher'') s6)"
  have v7: "s7 = s6\<lparr>interrupt_handlers := (interrupt_handlers s6)(0x80 := symbol im ''syscall_dispatcher''),
      kernel_tss := (kernel_tss s6)\<lparr>ss0 := 0x10, esp0 := 0x400000\<rparr>\<rparr>"
    by (simp add: s7_def tss_set_stack_def syscall_init_def register_interrupt_handler_def)
  have k7: "keeps {} s6 s7" by (rule keeps_vars [OF roomy_inv [OF s6(9)]]) (simp_all add: v7)
  have r7: "roomy 616 s7" by (rule roomy_vars [OF s6(9)]) (simp_all add: v7)
  have l7: "list_ok s7 (process_list s7) []" using keeps_list [OF s6(6) k7] v6(1) by (simp add: v7)
  have t7: "timers_ok s7 [t2, t1]" by (rule keeps_timers(1) [OF s6(3) k7]) (simp_all add: v7)
  have c7: "t_callback s7 x = t_callback s6 x" for x by (simp add: v7 field_def)
  have n7: "name_ok ?name letters s7" by (rule name_keeps [OF name_keeps [OF s2(5) s6(8)] k7])
  from create_process_run [OF l7 r7 n7, of "symbol im ''user_process''"] obtain p node s' where s':
    "create_process_from_routine (symbol im ''user_process'') ?name s7 = Inr s'" "proc_frame s7 s'"
    "keeps (set (process_list s7 # map fst ([] :: (u32 \<times> u32) list))) s7 s'" "list_ok s' (process_list s7) ((node, p) # [])" and
    p: "sized 580 (live_blocks s') p" "cstr (mem s') p letters"
     "field s' p pcb_self = node" "field s' p pcb_state = TASK_CREATED" "field s' (pcb_regs p) ctx_eip = symbol im ''user_process''"
     "field s' (pcb_regs p) ctx_esp = 0xC0400000" "field s' (pcb_regs p) ctx_eflags = 0x206"
     "current_process s' = (if current_process s7 = 0 then p else current_process s7)" by blast
  have run: "start_services im scale period s = Inr s'"
    using s2(1,2) s6(1,2) s'(1) by (simp add: start_services_def s7_def)
  have k': "keeps {l} s7 s'" using s'(3) v6(1) by (simp add: v7)
  have th: "timer_head s' = timer_head s7" using s'(2) by (auto simp: proc_frame_def)
  have t': "timers_ok s' [t2, t1]" by (rule keeps_timers(1) [OF t7 k' _ th]) (use s6(7) in auto)
  have c': "t_callback s' x = t_callback s7 x" if "x \<in> set [t2, t1]" for x
    by (rule keeps_timers(2) [OF t7 k' _ th that]) (use s6(7) in auto)
  have vars: "process_list s' = process_list s7" "last_process s' = last_process s" "interrupt_handlers s' = interrupt_handlers s7"
    "kernel_tss s' = kernel_tss s7" "frequency_g s' = 100"
    using s'(2) v6 v2 s2(6) by (auto simp: proc_frame_def v7)
  show ?thesis
    using run t' c' c7 s6(4,5) s'(4) p v2 v6 s2(7) vars
    by (intro exI [of _ p] exI [of _ node] exI [of _ t1] exI [of _ t2] exI [of _ s'] conjI) (simp_all add: v7)
qed

section \<open>Properties\<close>

lemma first_schedule:
  fixes s :: "'s proc_scheme"
  assumes ok: "list_ok s (process_list s) [(node, p)]" and c: "calm s" "current_process s = p" "last_process s = 0"
    and p: "sized 580 (live_blocks s) p" "cstr (mem s) p letters" "length letters < 512" "field s p pcb_self = node" "field s p pcb_state = TASK_CREATED"
  shows "\<exists>ctx s'. schedule s = Inr (Enters ctx s') \<and> current_process s' = p \<and> u_eip ctx = field s (pcb_regs p) ctx_eip \<and>
     u_esp ctx = field s (pcb_regs p) ctx_esp \<and> u_eflags ctx = field s (pcb_regs p) ctx_eflags"
proof -
  have inv: "obj_inv s" using ok by (simp add: list_rep_def)
  have "text_at (framebuffer_addr s) (mem s) p"
    unfolding text_at_def using p(2,3) sized_range(4) [OF inv p(1)] by auto
  moreover have "p \<noteq> 0" using objs.sized_nonnull [OF inv p(1)] .
  ultimately have "sched_ok s [] (node, p) []" using ok c p(4,5) by (simp add: sched_ok_def next_process_def)
  from schedule_next [OF this] obtain s3 where s3: "con_frame (s\<lparr>current_process := p\<rparr>) s3"
    "schedule s = context_switch (Some (saved_context s)) (pcb_regs p) s3" by (auto simp: next_process_def)
  have "s\<lparr>current_process := p\<rparr> = s" using c(2) by simp
  then have cf: "con_frame s s3" using s3(1) by simp
  have k: "keeps {} s s3" by (rule keeps_screen [OF inv cf])
  have l3: "last_process s3 = 0" "current_process s3 = p" using cf c(2,3) by (auto simp: con_frame_def)
  have "field s3 (p + 512) j = field s (p + 512) j" if "j + 4 \<le> 68" for j
    using keeps_sized(2) [OF k p(1), of "512 + j"] that by (simp add: pcb_regs_field)
  then show ?thesis
    using s3(2) l3 by (simp add: context_switch_def Let_def) (simp add: user_regs_switch_def)
qed



text \<open>
  \<^verbatim>\<open>user_process\<close> never returns: creating the two processes and printing go on forever unless a
  fault stops them.
\<close>

theorem user_process_never_returns:
  "user_process im s \<noteq> Some (Inr t)"
proof -
  have p2: "\<exists>e. r = Inl e" if "user_process_loop u = Some r" for u and r :: "'a proc_scheme res"
    by (rule user_process_loop.raw_induct [OF _ that]) (auto split: sum.splits, metis)
  show ?thesis using p2 [of _ "Inr t"] by (auto simp: user_process_def Let_def split: sum.splits)
qed

lemma user_process2_never_returns: "user_process2 s \<noteq> Some (Inr t)"
proof -
  have "\<exists>e. r = Inl e" if "user_process2 u = Some r" for u and r :: "'a console_scheme res"
    by (rule user_process2.raw_induct [OF _ that]) (auto split: sum.splits, metis)
  from this [of s "Inr t"] show ?thesis by auto
qed

lemma test_syscall_null: "test_syscall im ret regs s = Inl OutOfBounds"
  by (simp add: test_syscall_def syscall_dispatcher_def syscall_table_def call_api_def)

section \<open>Instances\<close>

definition small_image :: image where
  "small_image = \<lparr>rodata = (\<lambda>_. 0xB0030000), symbol = (\<lambda>_. 0xC0150000), isr_stub = of_nat, buf = 0xC0140000\<rparr>"

definition cleared :: proc where
  "cleared = two_procs\<lparr>mem := (\<lambda>_. 0), current_process := 0\<rparr>"

lemma cleared_fields: "framebuffer_addr cleared = 0xB0000000" "calm cleared" "timer_head cleared = 0" "current_process cleared = 0"
  "last_process cleared = 0" "mem cleared = (\<lambda>_. 0)"
  using two_procs_fields by (simp_all add: cleared_def calm_def) (simp_all add: two_procs_def timer.defs heap.defs)



end
