(* ===== verification/Kmalloc.thy ===== *)
theory Kmalloc
  imports Klist
begin

text \<open>
  The second allocator of the kernel, \<^verbatim>\<open>src/src/kernel/mm/kmalloc.c\<close>, blocks with boundary tags over
  the break of \<^verbatim>\<open>dmm.c\<close>; nothing calls it yet. \<^verbatim>\<open>size_t\<close> is an unsigned 32-bit integer and a
  block pointer is the address behind the header. \<open>mem_heap\<close>, \<open>mem_brk\<close>, \<open>mem_max_adrr\<close> and
  \<open>heap_listp\<close> are the static variables of the two files; \<open>MAX_macro\<close> is the macro \<^verbatim>\<open>MAX\<close>. The two
  loops run until a header of size 0 and need not end on a damaged heap, hence the option.
\<close>

section \<open>State\<close>

record kmm = heap +
  mem_heap :: u32
  mem_brk :: u32
  mem_max_adrr :: u32
  heap_listp :: u32

section \<open>The break\<close>

definition dmm_init :: "u32 \<Rightarrow> u32 \<Rightarrow> 's kmm_scheme \<Rightarrow> 's kmm_scheme" where
  "dmm_init start sz s =
     (let s1 = s\<lparr>mem_heap := start\<rparr>; s2 = s1\<lparr>mem_brk := mem_heap s1\<rparr> in s2\<lparr>mem_max_adrr := mem_heap s2 + sz\<rparr>)"

definition dmm_sbrk :: "u32 \<Rightarrow> 's kmm_scheme \<Rightarrow> (u32 \<times> 's kmm_scheme) res" where
  "dmm_sbrk incr s =
     (let old_brk = mem_brk s
      in if sint incr < 0 \<or> mem_max_adrr s < mem_brk s + incr then Inl Panic
         else Inr (old_brk, s\<lparr>mem_brk := mem_brk s + incr\<rparr>))"

section \<open>Boundary tags\<close>

abbreviation (input) WSIZE :: u32 where "WSIZE \<equiv> 4"
abbreviation (input) DSIZE :: u32 where "DSIZE \<equiv> 8"
abbreviation (input) CHUNKSIZE :: u32 where "CHUNKSIZE \<equiv> 4096"
abbreviation (input) OVERHEAD :: u32 where "OVERHEAD \<equiv> 8"

definition MAX_macro :: "u32 \<Rightarrow> u32 \<Rightarrow> u32" where
  "MAX_macro x y = (if y < x then x else y)"

definition PACK :: "u32 \<Rightarrow> u32 \<Rightarrow> u32" where
  "PACK sz alloc = sz OR alloc"

definition GET :: "u32 \<Rightarrow> 's machine_scheme \<Rightarrow> u32" where
  "GET p s = load32 (mem s) p"

definition PUT :: "u32 \<Rightarrow> u32 \<Rightarrow> 's machine_scheme \<Rightarrow> 's machine_scheme" where
  "PUT p v s = s\<lparr>mem := store32 (mem s) p v\<rparr>"

definition GET_SIZE :: "u32 \<Rightarrow> 's machine_scheme \<Rightarrow> u32" where
  "GET_SIZE p s = GET p s AND NOT 0x07"

definition GET_ALLOC :: "u32 \<Rightarrow> 's machine_scheme \<Rightarrow> u32" where
  "GET_ALLOC p s = GET p s AND NOT 0x1"

definition HDRP :: "u32 \<Rightarrow> u32" where
  "HDRP bp = bp - WSIZE"

definition FTRP :: "u32 \<Rightarrow> 's machine_scheme \<Rightarrow> u32" where
  "FTRP bp s = bp + GET_SIZE (HDRP bp) s - DSIZE"

definition NEXT_BLKP :: "u32 \<Rightarrow> 's machine_scheme \<Rightarrow> u32" where
  "NEXT_BLKP bp s = bp + GET_SIZE (bp - WSIZE) s"

definition PREV_BLKP :: "u32 \<Rightarrow> 's machine_scheme \<Rightarrow> u32" where
  "PREV_BLKP bp s = bp - GET_SIZE (bp - DSIZE) s"

section \<open>Operations\<close>

definition coalesce :: "u32 \<Rightarrow> 's machine_scheme \<Rightarrow> u32 \<times> 's machine_scheme" where
  "coalesce bp s =
     (let prev_alloc = GET_ALLOC (FTRP (PREV_BLKP bp s) s) s;
          next_alloc = GET_ALLOC (HDRP (NEXT_BLKP bp s)) s;
          sz = GET_SIZE (HDRP bp) s
      in if prev_alloc \<noteq> 0 \<and> next_alloc \<noteq> 0 then (bp, s)
         else if prev_alloc \<noteq> 0 \<and> next_alloc = 0
         then (let sz1 = sz + GET_SIZE (HDRP (NEXT_BLKP bp s)) s;
                   s1 = PUT (HDRP bp) (PACK sz1 0) s
               in (bp, PUT (FTRP bp s1) (PACK sz1 0) s1))
         else if prev_alloc = 0 \<and> next_alloc \<noteq> 0
         then (let sz1 = sz + GET_SIZE (HDRP (PREV_BLKP bp s)) s;
                   s1 = PUT (FTRP bp s) (PACK sz1 0) s;
                   s2 = PUT (HDRP (PREV_BLKP bp s1)) (PACK sz1 0) s1
               in (PREV_BLKP bp s2, s2))
         else (let sz1 = sz + (GET_SIZE (HDRP (PREV_BLKP bp s)) s + GET_SIZE (FTRP (NEXT_BLKP bp s) s) s);
                   s1 = PUT (HDRP (PREV_BLKP bp s)) (PACK sz1 0) s;
                   s2 = PUT (FTRP (NEXT_BLKP bp s1) s1) (PACK sz1 0) s1
               in (PREV_BLKP bp s2, s2)))"

definition extend_heap :: "u32 \<Rightarrow> 's kmm_scheme \<Rightarrow> (u32 \<times> 's kmm_scheme) res" where
  "extend_heap ws s =
     (let sz = (if ws mod 2 \<noteq> 0 then (ws + 1) * WSIZE else ws * WSIZE)
      in bindE (dmm_sbrk sz s) (\<lambda>(bp, s0).
           if sint bp < 0 then Inr (0, s0)
           else let s1 = PUT (HDRP bp) (PACK sz 0) s0;
                    s2 = PUT (FTRP bp s1) (PACK sz 0) s1;
                    s3 = PUT (HDRP (NEXT_BLKP bp s2)) (PACK 0 1) s2
                in Inr (coalesce bp s3)))"

definition place :: "u32 \<Rightarrow> u32 \<Rightarrow> 's machine_scheme \<Rightarrow> 's machine_scheme" where
  "place bp asize s =
     (let csize = GET_SIZE (HDRP bp) s
      in if DSIZE + OVERHEAD \<le> csize - asize
         then (let s1 = PUT (HDRP bp) (PACK asize 1) s;
                   s2 = PUT (FTRP bp s1) (PACK asize 1) s1;
                   bp' = NEXT_BLKP bp s2;
                   s3 = PUT (HDRP bp') (PACK (csize - asize) 0) s2
               in PUT (FTRP bp' s3) (PACK (csize - asize) 0) s3)
         else (let s1 = PUT (HDRP bp) (PACK csize 1) s in PUT (FTRP bp s1) (PACK csize 1) s1))"

partial_function (option) fit_loop :: "u32 \<Rightarrow> 's machine_scheme \<Rightarrow> u32 \<Rightarrow> u32 option" where
  "fit_loop asize s bp =
     (if \<not> 0 < GET_SIZE (HDRP bp) s then Some 0
      else if GET_ALLOC (HDRP bp) s = 0 \<and> asize \<le> GET_SIZE (HDRP bp) s then Some bp
      else fit_loop asize s (NEXT_BLKP bp s))"

definition find_fit :: "u32 \<Rightarrow> 's kmm_scheme \<Rightarrow> u32 option" where
  "find_fit asize s = fit_loop asize s (heap_listp s)"

definition mm_init :: "'s kmm_scheme \<Rightarrow> (u32 \<times> 's kmm_scheme) res" where
  "mm_init s =
     bindE (dmm_sbrk (4 * WSIZE) s) (\<lambda>(p, s0).
       let s1 = s0\<lparr>heap_listp := p\<rparr>
       in if p = 0 then Inr (- 1, s1)
          else let s2 = PUT (heap_listp s1) 0 s1;
                   s3 = PUT (heap_listp s2 + WSIZE) (PACK OVERHEAD 1) s2;
                   s4 = PUT (heap_listp s3 + DSIZE) (PACK OVERHEAD 1) s3;
                   s5 = PUT (heap_listp s4 + WSIZE + DSIZE) (PACK 0 1) s4;
                   s6 = s5\<lparr>heap_listp := heap_listp s5 + DSIZE\<rparr>
               in bindE (extend_heap (CHUNKSIZE div WSIZE) s6) (\<lambda>(bp, s7).
                    Inr (if bp = 0 then - 1 else 0, s7)))"

definition adjusted :: "u32 \<Rightarrow> u32" where
  "adjusted sz = (if sz \<le> DSIZE then DSIZE + OVERHEAD else DSIZE * ((sz + OVERHEAD + (DSIZE - 1)) div DSIZE))"

definition mm_malloc :: "u32 \<Rightarrow> 's kmm_scheme \<Rightarrow> (u32 \<times> 's kmm_scheme) res" where
  "mm_malloc sz s =
     (if sz \<le> 0 then Inr (0, s)
      else let asize = adjusted sz
           in bindE (returns (find_fit asize s)) (\<lambda>bp.
                if bp \<noteq> 0 then Inr (bp, place bp asize s)
                else bindE (extend_heap (MAX_macro asize CHUNKSIZE div WSIZE) s) (\<lambda>(bp, s1).
                       if bp = 0 then Inr (0, s1) else Inr (bp, place bp asize s1))))"

definition mm_free :: "u32 \<Rightarrow> 's machine_scheme \<Rightarrow> 's machine_scheme" where
  "mm_free bp s =
     (let sz = GET_SIZE (HDRP bp) s;
          s1 = PUT (HDRP bp) (PACK sz 0) s;
          s2 = PUT (FTRP bp s1) (PACK sz 0) s1
      in snd (coalesce bp s2))"

definition printblock :: "u32 \<Rightarrow> 's console_scheme \<Rightarrow> 's console_scheme res" where
  "printblock bp s =
     (let hsize = GET_SIZE (HDRP bp) s; halloc = GET_ALLOC (HDRP bp) s;
          fsize = GET_SIZE (FTRP bp s) s; falloc = GET_ALLOC (FTRP bp s) s
      in if hsize = 0 then printf (lit ''0x%x: EOL'' @ [10]) [bp] s
         else printf (lit ''0x%x: header: [%d:%c] footer: [%d:%c]'' @ [10])
                [bp, hsize, if halloc \<noteq> 0 then 97 else 102, fsize, if falloc \<noteq> 0 then 97 else 102] s)"

definition checkblock :: "u32 \<Rightarrow> 's console_scheme \<Rightarrow> 's console_scheme res" where
  "checkblock bp s =
     bindE (if bp mod 8 \<noteq> 0 then printf (lit ''Error: 0x%x is not doubleword aligned'' @ [10]) [bp] s else Inr s) (\<lambda>s1.
       if GET (HDRP bp) s1 \<noteq> GET (FTRP bp s1) s1
       then printf (lit ''Error: header does not match footer'' @ [10]) [] s1 else Inr s1)"

partial_function (option) checkheap_loop :: "bool \<Rightarrow> u32 \<Rightarrow> 's console_scheme \<Rightarrow> (u32 \<times> 's console_scheme) res option" where
  "checkheap_loop verbose bp s =
     (if 0 < GET_SIZE (HDRP bp) s
      then (case bindE (if verbose then printblock bp s else Inr s) (checkblock bp) of
              Inl e \<Rightarrow> Some (Inl e)
            | Inr s1 \<Rightarrow> checkheap_loop verbose (NEXT_BLKP bp s1) s1)
      else Some (Inr (bp, s)))"

definition mm_checkheap :: "bool \<Rightarrow> 's kmm_scheme \<Rightarrow> 's kmm_scheme res" where
  "mm_checkheap verbose s =
     bindE (if verbose then printf (lit ''Heap 0x(%x):'' @ [10]) [heap_listp s] s else Inr s) (\<lambda>s1.
     bindE (if GET_SIZE (HDRP (heap_listp s1)) s1 \<noteq> DSIZE \<or> GET_ALLOC (HDRP (heap_listp s1)) s1 = 0
            then printf (lit ''Bad prologue header'' @ [10]) [] s1 else Inr s1) (\<lambda>s2.
     bindE (checkblock (heap_listp s2) s2) (\<lambda>s3.
     bindE (returns (checkheap_loop verbose (heap_listp s3) s3)) (\<lambda>r.
     bindE r (\<lambda>(bp, s4).
     bindE (if verbose then printblock bp s4 else Inr s4) (\<lambda>s5.
       if GET_SIZE (HDRP bp) s5 \<noteq> 0 \<or> GET_ALLOC (HDRP bp) s5 = 0
       then printf (lit ''Bad epilogue header'' @ [10]) [] s5 else Inr s5))))))"

section \<open>The allocation bit\<close>

text \<open>\<open>GET_ALLOC\<close> keeps every bit but the lowest, so a word with a nonzero size always looks allocated.\<close>

lemma size_imp_alloc: "GET_SIZE p s \<noteq> 0 \<Longrightarrow> GET_ALLOC p s \<noteq> 0"
proof
  assume sz: "GET_SIZE p s \<noteq> 0" and al: "GET_ALLOC p s = 0"
  have "GET_SIZE p s = GET_ALLOC p s AND NOT 0x07"
  proof (rule bit_word_eqI)
    fix n
    have "bit (7 :: u32) 0" by simp
    then show "bit (GET_SIZE p s) n = bit (GET_ALLOC p s AND NOT 0x07) n"
      by (cases "n = 0") (auto simp: GET_SIZE_def GET_ALLOC_def bit_simps bit_1_iff)
  qed
  then show False using sz al by simp
qed

lemma fit_loop_null: "fit_loop asize s bp = Some p \<Longrightarrow> p = 0"
proof (erule fit_loop.raw_induct [rotated])
  fix f and asize bp p :: u32 and s :: "'s machine_scheme"
  assume IH: "\<And>asize s bp p. f asize s bp = Some p \<Longrightarrow> p = 0"
    and "(if \<not> 0 < GET_SIZE (HDRP bp) s then Some 0
      else if GET_ALLOC (HDRP bp) s = 0 \<and> asize \<le> GET_SIZE (HDRP bp) s then Some bp
      else f asize s (NEXT_BLKP bp s)) = Some p"
  then show "p = 0" using size_imp_alloc [of "HDRP bp" s] by (auto split: if_splits simp: word_gt_0)
qed

text \<open>So every successful allocation extends the heap; a freed block is never used again.\<close>

lemma mm_malloc_never_reuses:
  fixes s :: "'s kmm_scheme"
  assumes "mm_malloc sz s = Inr (p, s')" and "p \<noteq> 0"
  shows "\<exists>s1. extend_heap (MAX_macro (adjusted sz) 4096 div 4) s = Inr (p, s1) \<and> s' = place p (adjusted sz) s1"
  using assms fit_loop_null [of "adjusted sz" s "heap_listp s"]
  by (auto simp: mm_malloc_def find_fit_def Let_def bindE_eq_Inr returns_def split: if_splits option.splits)

lemma sint_neg_iff: "sint (w :: u32) < 0 \<longleftrightarrow> 2147483648 \<le> unat w"
proof -
  obtain n where "uint w = int n" "unat w = n" by (metis uint_nat)
  then show ?thesis using unat_u32_le [of w] by (simp add: sint_u32_if)
qed

text \<open>
  When the break is at or above 0x80000000, as it is for a heap behind the kernel at
  0xC0000000, \<^verbatim>\<open>mm_init\<close> fails with \<open>- 1\<close> although there is room: \<^verbatim>\<open>extend_heap\<close> takes the sign of the
  address for an error.
\<close>

theorem mm_init_fails_high:
  fixes s :: "'s kmm_scheme"
  assumes "0x80000000 \<le> mem_brk s" and "unat (mem_brk s) + 4112 \<le> unat (mem_max_adrr s)"
  shows "\<exists>s'. mm_init s = Inr (- 1, s')"
proof -
  have lt: "unat (mem_brk s) + 4112 < 4294967296" using assms(2) unat_u32_le [of "mem_max_adrr s"] by linarith
  then have b: "unat (mem_brk s + 16) = unat (mem_brk s) + 16" "unat (mem_brk s + 4112) = unat (mem_brk s) + 4112"
    by (simp_all add: unat_word_ariths)
  have neg: "sint (mem_brk s + 16) < 0"
    using assms(1) b(1) by (simp add: sint_neg_iff word_le_nat_alt)
  have "\<not> mem_max_adrr s < mem_brk s + 16" "\<not> mem_max_adrr s < mem_brk s + 4112"
    using assms(2) b by (simp_all add: word_less_nat_alt)
  moreover have "mem_brk s \<noteq> 0" using assms(1) by auto
  ultimately show ?thesis
    using neg by (simp add: mm_init_def dmm_sbrk_def extend_heap_def Let_def PUT_def add.assoc)
qed

definition high_kmm :: kmm where
  "high_kmm = heap.extend small_heap \<lparr>mem_heap = 0xC0200000, mem_brk = 0xC0200000, mem_max_adrr = 0xC0300000, heap_listp = 0\<rparr>"

theorem mm_init_fails_high_witness: "\<exists>s'. mm_init high_kmm = Inr (- 1, s')"
  using mm_init_fails_high [of high_kmm] by (simp add: high_kmm_def heap.defs)

definition low_kmm :: kmm where
  "low_kmm = heap.extend small_heap \<lparr>mem_heap = 0x200000, mem_brk = 0x200000, mem_max_adrr = 0x300000, heap_listp = 0\<rparr>"

lemma GET_PUT_same: "GET p (PUT p v s) = v"
  by (simp add: GET_def PUT_def)

lemma GET_PUT_other:
  fixes b :: u32
  assumes "4 \<le> j - k" and "4 \<le> k - j"
  shows "GET (b + j) (PUT (b + k) v s) = GET (b + j) s"
proof -
  have "disj_ivl (b + k) 4 (b + j) 4" using assms by (simp add: disj_ivl_def)
  then show ?thesis by (simp add: GET_def PUT_def load32_store32_disj)
qed

lemma PUT_fields [simp]:
  "heap_listp (PUT p v s) = heap_listp s" "mem_brk (PUT p v s) = mem_brk s"
  "mem_max_adrr (PUT p v s) = mem_max_adrr s" "mem_heap (PUT p v s) = mem_heap s"
  by (simp_all add: PUT_def)

lemma GET_fields [simp]:
  "GET p (heap_listp_update f s) = GET p s" "GET p (mem_brk_update f s) = GET p s"
  by (simp_all add: GET_def)

lemma offset_assoc:
  fixes b :: u32
  shows "b + numeral i - numeral j = b + (numeral i - numeral j)" "b + numeral i + numeral j = b + (numeral i + numeral j)"
  by (simp_all only: add.assoc add_diff_eq)

lemma tag_size: "GET p s = 9 \<Longrightarrow> GET_SIZE p s = 8" "GET p s = 1 \<Longrightarrow> GET_SIZE p s = 0"
    "GET p s = 4096 \<Longrightarrow> GET_SIZE p s = 4096"
  by (simp_all add: GET_SIZE_def)

lemma tag_alloc: "GET p s = 9 \<Longrightarrow> GET_ALLOC p s = 8" "GET p s = 1 \<Longrightarrow> GET_ALLOC p s = 0" "GET p s = 4096 \<Longrightarrow> GET_ALLOC p s = 4096"
  by (simp_all add: GET_ALLOC_def)

lemma GET_PUT_numeral:
  fixes b :: u32
  assumes "4 \<le> numeral j - (numeral k :: u32)" and "4 \<le> numeral k - (numeral j :: u32)"
  shows "GET (b + numeral j) (PUT (b + numeral k) v s) = GET (b + numeral j) s"
  using assms by (rule GET_PUT_other)

lemma GET_PUT_numeral0:
  fixes b :: u32
  assumes "4 \<le> (numeral k :: u32)" and "4 \<le> - (numeral k :: u32)"
  shows "GET b (PUT (b + numeral k) v s) = GET b s" "GET (b + numeral k) (PUT b v s) = GET (b + numeral k) s"
  using assms GET_PUT_other [of 0 "numeral k" b v s] GET_PUT_other [of "numeral k" 0 b v s]
  by (simp_all only: diff_0 diff_0_right add_0_right simp_thms)

lemmas tag_words = GET_PUT_same GET_PUT_numeral GET_PUT_numeral0

lemma dmm_sbrk_ok:
  assumes "unat (mem_brk s) + unat incr \<le> unat (mem_max_adrr s)" "unat incr < 2147483648"
  shows "dmm_sbrk incr s = Inr (mem_brk s, s\<lparr>mem_brk := mem_brk s + incr\<rparr>)"
proof -
  have "unat (mem_brk s) + unat incr < 4294967296" using assms(1) unat_u32_le [of "mem_max_adrr s"] by linarith
  then have "unat (mem_brk s + incr) = unat (mem_brk s) + unat incr" by (simp add: unat_word_ariths)
  then show ?thesis using assms by (simp add: dmm_sbrk_def sint_neg_iff not_le word_less_nat_alt)
qed

text \<open>The block that the first extension adds: its tags, the epilogue behind it, and the prologue untouched.\<close>

lemma extend_heap_first:
  fixes t :: "'s kmm_scheme"
  assumes brk: "mem_brk t = p + 16" and room: "unat p + 4112 \<le> unat (mem_max_adrr t)" and low: "unat p + 16 < 2147483648"
    and pro: "GET (p + 4) t = 9" "GET (p + 8) t = 9"
  shows "\<exists>t'. extend_heap 1024 t = Inr (p + 16, t') \<and> heap_listp t' = heap_listp t \<and> mem_brk t' = p + 4112 \<and>
    mem_max_adrr t' = mem_max_adrr t \<and> GET p t' = GET p t \<and> GET (p + 4) t' = 9 \<and> GET (p + 8) t' = 9 \<and>
    GET (p + 12) t' = 4096 \<and> GET (p + 4104) t' = 4096 \<and> GET (p + 4108) t' = 1"
proof -
  have p16: "unat (p + 16) = unat p + 16" using low by (simp add: unat_word_ariths)
  have hd: "HDRP (p + 16) = p + 12" by (simp add: HDRP_def offset_assoc)
  have sbrk: "dmm_sbrk 4096 t = Inr (p + 16, t\<lparr>mem_brk := p + 4112\<rparr>)"
    using dmm_sbrk_ok [of t 4096] brk room p16 by (simp add: add.assoc)
  define t1 where "t1 = PUT (p + 12) 4096 (t\<lparr>mem_brk := p + 4112\<rparr>)"
  define t2 where "t2 = PUT (p + 4104) 4096 t1"
  define t3 where "t3 = PUT (p + 4108) 1 t2"
  have t1: "GET (p + 12) t1 = 4096" by (simp add: t1_def tag_words)
  have t2: "GET (p + 12) t2 = 4096" using t1 by (simp add: t2_def tag_words)
  have t3: "GET (p + 12) t3 = 4096" "GET (p + 4108) t3 = 1" "GET (p + 8) t3 = 9" "GET (p + 4) t3 = 9"
    using t2 pro by (simp_all add: t3_def t2_def t1_def tag_words)
  have blk: "FTRP (p + 16) t1 = p + 4104" "HDRP (NEXT_BLKP (p + 16) t2) = p + 4108" "HDRP (NEXT_BLKP (p + 16) t3) = p + 4108"
    "PREV_BLKP (p + 16) t3 = p + 8" "FTRP (p + 8) t3 = p + 8"
    using t1 t2 t3 by (simp_all add: HDRP_def FTRP_def NEXT_BLKP_def PREV_BLKP_def offset_assoc tag_size)
  define t4 where "t4 = PUT (p + 12) 4096 t3"
  have t4: "FTRP (p + 16) t4 = p + 4104" by (simp add: t4_def HDRP_def FTRP_def offset_assoc tag_size tag_words)
  have co: "coalesce (p + 16) t3 = (p + 16, PUT (p + 4104) 4096 t4)"
    using t3 t4 blk by (simp add: coalesce_def Let_def tag_alloc tag_size PACK_def hd t4_def [symmetric])
  have "extend_heap 1024 t = Inr (coalesce (p + 16) t3)"
    using sbrk low p16 blk
    by (simp add: extend_heap_def sint_neg_iff Let_def hd PACK_def t1_def [symmetric] t2_def [symmetric] t3_def [symmetric])
  then show ?thesis
    using t3 by (simp add: co) (simp add: t4_def t3_def t2_def t1_def tag_words)
qed

text \<open>
  On an unused stretch of memory below two gigabytes with room for 4112 bytes, \<^verbatim>\<open>mm_init\<close> returns
  0 and leaves a well-formed heap: the padding word, the prologue header and footer, one free
  block of \<^verbatim>\<open>CHUNKSIZE\<close> bytes with equal header and footer, and the epilogue right below the break.
  On that heap \<^verbatim>\<open>find_fit\<close> ends and returns \<^verbatim>\<open>NULL\<close> for every size, although the block is free:
  \<^verbatim>\<open>GET_ALLOC\<close> reads the size bits, not the allocation bit.
\<close>

theorem mm_init_layout:
  fixes s :: "'s kmm_scheme"
  assumes "0 < mem_brk s" and "unat (mem_brk s) + 4112 \<le> unat (mem_max_adrr s)" and "unat (mem_brk s) + 16 < 2147483648"
  shows "\<exists>s'. mm_init s = Inr (0, s') \<and> heap_listp s' = mem_brk s + 8 \<and> mem_brk s' = mem_brk s + 4112 \<and>
    map (\<lambda>k. GET (mem_brk s + k) s') [0, 4, 8, 12, 4104, 4108] = [0, 9, 9, 4096, 4096, 1] \<and>
    (\<forall>asize. find_fit asize s' = Some 0)"
proof -
  let ?p = "mem_brk s"
  have sbrk: "dmm_sbrk 16 s = Inr (?p, s\<lparr>mem_brk := ?p + 16\<rparr>)" using assms(2) by (simp add: dmm_sbrk_ok)
  define t where "t = (PUT (?p + 12) 1 (PUT (?p + 8) 9 (PUT (?p + 4) 9 (PUT ?p 0 (s\<lparr>mem_brk := ?p + 16, heap_listp := ?p\<rparr>)))))\<lparr>heap_listp := ?p + 8\<rparr>"
  have "mem_brk t = ?p + 16" "mem_max_adrr t = mem_max_adrr s" "GET (?p + 4) t = 9" "GET (?p + 8) t = 9" "GET ?p t = 0" "heap_listp t = ?p + 8"
    by (simp_all add: t_def tag_words)
  then obtain t' where t': "extend_heap 1024 t = Inr (?p + 16, t')" "heap_listp t' = ?p + 8" "mem_brk t' = ?p + 4112"
    "GET ?p t' = 0" "GET (?p + 4) t' = 9" "GET (?p + 8) t' = 9" "GET (?p + 12) t' = 4096" "GET (?p + 4104) t' = 4096" "GET (?p + 4108) t' = 1"
    using extend_heap_first [of t ?p] assms(2,3) by auto
  have "unat (?p + 16) = unat ?p + 16" using assms(3) by (simp add: unat_word_ariths)
  then have "?p + 16 \<noteq> 0" by auto
  moreover have "mm_init s = Inr (if ?p + 16 = 0 then - 1 else 0, t')"
    using sbrk t'(1) assms(1) by (simp add: mm_init_def Let_def PACK_def add.assoc t_def)
  moreover have "find_fit asize t' = Some 0" for asize
  proof -
    have "fit_loop asize t' (?p + 4112) = Some 0"
      using t' by (simp add: fit_loop.simps [of asize t' "?p + 4112"] HDRP_def offset_assoc tag_size)
    moreover have "NEXT_BLKP (?p + 8) t' = ?p + 16" "NEXT_BLKP (?p + 16) t' = ?p + 4112"
      using t' by (simp_all add: NEXT_BLKP_def offset_assoc tag_size)
    ultimately show ?thesis
      using t' by (simp add: find_fit_def fit_loop.simps [of asize t' "?p + 8"] fit_loop.simps [of asize t' "?p + 16"]
          HDRP_def offset_assoc tag_size tag_alloc)
  qed
  ultimately show ?thesis using t' by simp
qed

theorem mm_init_layout_witness:
  "\<exists>s'. mm_init low_kmm = Inr (0, s') \<and> heap_listp s' = 0x200008 \<and> mem_brk s' = 0x201010 \<and>
    map (\<lambda>k. GET (0x200000 + k) s') [0, 4, 8, 12, 4104, 4108] = [0, 9, 9, 4096, 4096, 1] \<and>
    (\<forall>asize. find_fit asize s' = Some 0)"
  using mm_init_layout [of low_kmm] by (simp add: low_kmm_def heap.defs)

end
