(* ===== verification/Pci.thy ===== *)
theory Pci
  imports Malloc
begin

text \<open>
  The PCI configuration space and the search for a device, \<^verbatim>\<open>src/src/kernel/drivers/pci.c\<close> and
  \<^verbatim>\<open>src/src/includes/kernel/network/pci.h\<close>. The devices are a parameter (\<open>config_space\<close> states what
  the two ports of the chipset deliver). \<open>yields\<close> says that an operation changes nothing but the record
  of port accesses; \<open>first_wanted\<close> over \<open>bus_functions\<close> is the specification of the search.
\<close>

section \<open>Device numbers and fields\<close>

text \<open>
  The union \<^verbatim>\<open>pci_dev_t\<close> is its 32 bits; a bit-field is an offset and a width, and a store to it
  keeps the low bits of the value.
\<close>

type_synonym pci_dev_t = u32

definition set_bits :: "nat \<Rightarrow> nat \<Rightarrow> u32 \<Rightarrow> pci_dev_t \<Rightarrow> pci_dev_t" where
  "set_bits off width v dev = (dev AND NOT (push_bit off (mask width))) OR push_bit off (take_bit width v)"

definition set_field_num :: "u32 \<Rightarrow> pci_dev_t \<Rightarrow> pci_dev_t" where "set_field_num = set_bits 2 6"
definition set_function_num :: "u32 \<Rightarrow> pci_dev_t \<Rightarrow> pci_dev_t" where "set_function_num = set_bits 8 3"
definition set_device_num :: "u32 \<Rightarrow> pci_dev_t \<Rightarrow> pci_dev_t" where "set_device_num = set_bits 11 5"
definition set_bus_num :: "u32 \<Rightarrow> pci_dev_t \<Rightarrow> pci_dev_t" where "set_bus_num = set_bits 16 8"
definition set_enable :: "u32 \<Rightarrow> pci_dev_t \<Rightarrow> pci_dev_t" where "set_enable = set_bits 31 1"

abbreviation (input) PCI_CONFIG_ADDRESS :: u16 where "PCI_CONFIG_ADDRESS \<equiv> 0xCF8"
abbreviation (input) PCI_CONFIG_DATA :: u32 where "PCI_CONFIG_DATA \<equiv> 0xCFC"
abbreviation (input) PCI_VENDOR_ID :: u32 where "PCI_VENDOR_ID \<equiv> 0x00"
abbreviation (input) PCI_DEVICE_ID :: u32 where "PCI_DEVICE_ID \<equiv> 0x02"
abbreviation (input) PCI_COMMAND :: u32 where "PCI_COMMAND \<equiv> 0x04"
abbreviation (input) PCI_STATUS :: u32 where "PCI_STATUS \<equiv> 0x06"
abbreviation (input) PCI_SUBCLASS :: u32 where "PCI_SUBCLASS \<equiv> 0x0a"
abbreviation (input) PCI_CLASS :: u32 where "PCI_CLASS \<equiv> 0x0b"
abbreviation (input) PCI_CACHE_LINE_SIZE :: u32 where "PCI_CACHE_LINE_SIZE \<equiv> 0x0c"
abbreviation (input) PCI_LATENCY_TIMER :: u32 where "PCI_LATENCY_TIMER \<equiv> 0x0d"
abbreviation (input) PCI_HEADER_TYPE :: u32 where "PCI_HEADER_TYPE \<equiv> 0x0e"
abbreviation (input) PCI_BIST :: u32 where "PCI_BIST \<equiv> 0x0f"
abbreviation (input) PCI_BAR0 :: u32 where "PCI_BAR0 \<equiv> 0x10"
abbreviation (input) PCI_BAR1 :: u32 where "PCI_BAR1 \<equiv> 0x14"
abbreviation (input) PCI_BAR2 :: u32 where "PCI_BAR2 \<equiv> 0x18"
abbreviation (input) PCI_BAR3 :: u32 where "PCI_BAR3 \<equiv> 0x1C"
abbreviation (input) PCI_BAR4 :: u32 where "PCI_BAR4 \<equiv> 0x20"
abbreviation (input) PCI_BAR5 :: u32 where "PCI_BAR5 \<equiv> 0x24"
abbreviation (input) PCI_INTERRUPT_LINE :: u32 where "PCI_INTERRUPT_LINE \<equiv> 0x3C"
abbreviation (input) PCI_INTERRUPT_PIN :: u32 where "PCI_INTERRUPT_PIN \<equiv> 0x3D"
abbreviation (input) PCI_SECONDARY_BUS :: u32 where "PCI_SECONDARY_BUS \<equiv> 0x09"
abbreviation (input) PCI_TYPE_BRIDGE :: u32 where "PCI_TYPE_BRIDGE \<equiv> 0x0604"
abbreviation (input) PCI_NONE :: u32 where "PCI_NONE \<equiv> 0xFFFF"
abbreviation (input) DEVICE_PER_BUS :: nat where "DEVICE_PER_BUS \<equiv> 32"
abbreviation (input) FUNCTION_PER_DEVICE :: nat where "FUNCTION_PER_DEVICE \<equiv> 32"

section \<open>State\<close>

text \<open>The array \<^verbatim>\<open>pci_size_map\<close> has 100 elements; an access behind them is \<open>OutOfBounds\<close>.\<close>

record pci = heap +
  pci_size_map :: "u32 \<Rightarrow> u32"

definition pci_init :: "'s pci_scheme \<Rightarrow> 's pci_scheme" where
  "pci_init s = s\<lparr>pci_size_map := (pci_size_map s)
     (PCI_VENDOR_ID := 2, PCI_DEVICE_ID := 2, PCI_COMMAND := 2, PCI_STATUS := 2, PCI_SUBCLASS := 1, PCI_CLASS := 1,
      PCI_CACHE_LINE_SIZE := 1, PCI_LATENCY_TIMER := 1, PCI_HEADER_TYPE := 1, PCI_BIST := 1, PCI_BAR0 := 4, PCI_BAR1 := 4,
      PCI_BAR2 := 4, PCI_BAR3 := 4, PCI_BAR4 := 4, PCI_BAR5 := 4, PCI_INTERRUPT_LINE := 1, PCI_INTERRUPT_PIN := 1,
      PCI_SECONDARY_BUS := 1)\<rparr>"

section \<open>Access to the configuration space\<close>

definition pci_read :: "device \<Rightarrow> pci_dev_t \<Rightarrow> u32 \<Rightarrow> 's pci_scheme \<Rightarrow> (u32 \<times> 's pci_scheme) res" where
  "pci_read d dev field s =
     (let dev1 = set_field_num (drop_bit 2 (field AND 0xFC)) dev;
          dev2 = set_enable 1 dev1;
          l1 = outl PCI_CONFIG_ADDRESS dev2 (iolog s)
      in if 100 \<le> field then Inl OutOfBounds
         else if pci_size_map s field = 1
         then (let (t, l2) = inb d (ucast (PCI_CONFIG_DATA + (field AND 3))) l1 in Inr (ucast t, s\<lparr>iolog := l2\<rparr>))
         else if pci_size_map s field = 2
         then (let (t, l2) = inw d (ucast (PCI_CONFIG_DATA + (field AND 2))) l1 in Inr (ucast t, s\<lparr>iolog := l2\<rparr>))
         else if pci_size_map s field = 4
         then (let (t, l2) = inl d (ucast PCI_CONFIG_DATA) l1 in Inr (t, s\<lparr>iolog := l2\<rparr>))
         else Inr (0xffff, s\<lparr>iolog := l1\<rparr>))"

definition pci_write :: "pci_dev_t \<Rightarrow> u32 \<Rightarrow> u32 \<Rightarrow> 's machine_scheme \<Rightarrow> 's machine_scheme" where
  "pci_write dev field val s =
     (let dev1 = set_field_num (drop_bit 2 (field AND 0xFC)) dev;
          dev2 = set_enable 1 dev1
      in s\<lparr>iolog := outl (ucast PCI_CONFIG_DATA) val (outl PCI_CONFIG_ADDRESS dev2 (iolog s))\<rparr>)"

definition get_device_type :: "device \<Rightarrow> pci_dev_t \<Rightarrow> 's pci_scheme \<Rightarrow> (u32 \<times> 's pci_scheme) res" where
  "get_device_type d dev s =
     bindE (pci_read d dev PCI_CLASS s) (\<lambda>(c, s1).
     bindE (pci_read d dev PCI_SUBCLASS s1) (\<lambda>(sub, s2).
       Inr (push_bit 8 c OR sub, s2)))"

definition get_secondary_bus :: "device \<Rightarrow> pci_dev_t \<Rightarrow> 's pci_scheme \<Rightarrow> (u32 \<times> 's pci_scheme) res" where
  "get_secondary_bus d dev s = pci_read d dev PCI_SECONDARY_BUS s"

definition pci_reach_end :: "device \<Rightarrow> pci_dev_t \<Rightarrow> 's pci_scheme \<Rightarrow> (bool \<times> 's pci_scheme) res" where
  "pci_reach_end d dev s = bindE (pci_read d dev PCI_HEADER_TYPE s) (\<lambda>(t, s1). Inr (t = 0, s1))"

section \<open>Enumeration\<close>

text \<open>
  The three scanning functions call each other without end in sight: a bridge starts a scan of
  another bus. \<open>scan\<close> is that recursive call, and \<^verbatim>\<open>pci_scan_bus\<close> counts the depth of the
  recursion; \<open>Diverges\<close> at every depth is a recursion that does not end. \<open>try_each\<close> is the loop that
  returns the first result with a nonzero \<^verbatim>\<open>bits\<close>.
\<close>

definition pci_scan_function ::
  "(u32 \<Rightarrow> 's pci_scheme \<Rightarrow> (pci_dev_t \<times> 's pci_scheme) res) \<Rightarrow> device \<Rightarrow> u16 \<Rightarrow> u16 \<Rightarrow> u32 \<Rightarrow> u32 \<Rightarrow> u32 \<Rightarrow> u32 \<Rightarrow>
     's pci_scheme \<Rightarrow> (pci_dev_t \<times> 's pci_scheme) res" where
  "pci_scan_function scan d vendor_id device_id bus device function device_type s =
     (let dev = set_function_num function (set_device_num device (set_bus_num bus 0))
      in bindE (get_device_type d dev s) (\<lambda>(ty, s1).
         bindE (if ty = PCI_TYPE_BRIDGE
                then bindE (get_secondary_bus d dev s1) (\<lambda>(b, s2). bindE (scan b s2) (\<lambda>(_, s3). Inr s3))
                else Inr s1) (\<lambda>s4.
         bindE (if device_type = - 1 then Inr (True, s4)
                else bindE (get_device_type d dev s4) (\<lambda>(ty', s5). Inr (device_type = ty', s5))) (\<lambda>(fits, s6).
           if fits
           then bindE (pci_read d dev PCI_DEVICE_ID s6) (\<lambda>(devid, s7).
                bindE (pci_read d dev PCI_VENDOR_ID s7) (\<lambda>(vendid, s8).
                  Inr (if devid = ucast device_id \<and> ucast vendor_id = vendid then dev else 0, s8)))
           else Inr (0, s6)))))"

primrec try_each ::
  "('a \<Rightarrow> 's \<Rightarrow> (pci_dev_t \<times> 's) res) \<Rightarrow> 'a list \<Rightarrow> 's \<Rightarrow> (pci_dev_t \<times> 's) res" where
  "try_each f [] s = Inr (0, s)"
| "try_each f (x # xs) s = bindE (f x s) (\<lambda>(t, s1). if t \<noteq> 0 then Inr (t, s1) else try_each f xs s1)"

definition pci_scan_device ::
  "(u32 \<Rightarrow> 's pci_scheme \<Rightarrow> (pci_dev_t \<times> 's pci_scheme) res) \<Rightarrow> device \<Rightarrow> u16 \<Rightarrow> u16 \<Rightarrow> u32 \<Rightarrow> u32 \<Rightarrow> u32 \<Rightarrow>
     's pci_scheme \<Rightarrow> (pci_dev_t \<times> 's pci_scheme) res" where
  "pci_scan_device scan d vendor_id device_id bus device device_type s =
     (let dev = set_device_num device (set_bus_num bus 0)
      in bindE (pci_read d dev PCI_VENDOR_ID s) (\<lambda>(v, s1).
         if v = PCI_NONE then Inr (0, s1)
         else bindE (pci_scan_function scan d vendor_id device_id bus device 0 device_type s1) (\<lambda>(t, s2).
           if t \<noteq> 0 then Inr (t, s2)
           else bindE (pci_reach_end d dev s2) (\<lambda>(e, s3).
             if e then Inr (0, s3)
             else try_each (\<lambda>function s4. bindE (pci_read d dev PCI_VENDOR_ID s4) (\<lambda>(v', s5).
                    if v' \<noteq> PCI_NONE
                    then pci_scan_function scan d vendor_id device_id bus device function device_type s5
                    else Inr (0, s5)))
                  (map of_nat [1..<FUNCTION_PER_DEVICE]) s3))))"

primrec pci_scan_bus ::
  "nat \<Rightarrow> device \<Rightarrow> u16 \<Rightarrow> u16 \<Rightarrow> u32 \<Rightarrow> u32 \<Rightarrow> 's pci_scheme \<Rightarrow> (pci_dev_t \<times> 's pci_scheme) res" where
  "pci_scan_bus 0 d vendor_id device_id bus device_type s = Inl Diverges"
| "pci_scan_bus (Suc depth) d vendor_id device_id bus device_type s =
     try_each (\<lambda>device. pci_scan_device (\<lambda>b. pci_scan_bus depth d vendor_id device_id b device_type)
         d vendor_id device_id bus device device_type)
       (map of_nat [0..<DEVICE_PER_BUS]) s"

primrec get_device_loop ::
  "nat \<Rightarrow> device \<Rightarrow> u16 \<Rightarrow> u16 \<Rightarrow> u32 \<Rightarrow> u32 list \<Rightarrow> 's pci_scheme \<Rightarrow> (pci_dev_t \<times> 's pci_scheme) res" where
  "get_device_loop depth d vendor_id device_id device_type [] s = Inr (0, s)"
| "get_device_loop depth d vendor_id device_id device_type (function # fs) s =
     bindE (pci_read d (set_function_num function 0) PCI_VENDOR_ID s) (\<lambda>(v, s1).
       if v = PCI_NONE then Inr (0, s1)
       else bindE (pci_scan_bus depth d vendor_id device_id function device_type s1) (\<lambda>(t, s2).
         if t \<noteq> 0 then Inr (t, s2) else get_device_loop depth d vendor_id device_id device_type fs s2))"

definition pci_get_device :: "nat \<Rightarrow> device \<Rightarrow> u16 \<Rightarrow> u16 \<Rightarrow> u32 \<Rightarrow> 's pci_scheme \<Rightarrow> (pci_dev_t \<times> 's pci_scheme) res" where
  "pci_get_device depth d vendor_id device_id device_type s =
     bindE (pci_scan_bus depth d vendor_id device_id 0 device_type s) (\<lambda>(t, s1).
       if t \<noteq> 0 then Inr (t, s1)
       else bindE (pci_reach_end d 0 s1) (\<lambda>(e, s2).
            bindE (if e then printf (lit ''PCI Get device failed...'' @ [10]) [] s2 else Inr s2) (\<lambda>s3.
              get_device_loop depth d vendor_id device_id device_type (map of_nat [1..<FUNCTION_PER_DEVICE]) s3)))"

section \<open>The configuration space behind the two ports\<close>

text \<open>
  What the chipset documents of its two ports: a 32-bit write to 0xCF8 selects a register of a
  device, and a read at 0xCFC + k of one, two or four bytes delivers the bytes of that register
  from byte k on. \<open>cfg\<close> is the contents of the configuration space.
\<close>

fun selected :: "iolog \<Rightarrow> u32" where
  "selected [] = 0"
| "selected (Outl p a # l) = (if p = 0xCF8 then a else selected l)"
| "selected (_ # l) = selected l"

definition config_space :: "device \<Rightarrow> (u32 \<Rightarrow> u32) \<Rightarrow> bool" where
  "config_space d cfg \<longleftrightarrow> (\<forall>l.
     (\<forall>k \<in> {0, 1, 2, 3}. dev8 d l (0xCFC + of_nat k) = ucast (drop_bit (8 * k) (cfg (selected (rev l))))) \<and>
     (\<forall>k \<in> {0, 2}. dev16 d l (0xCFC + of_nat k) = ucast (drop_bit (8 * k) (cfg (selected (rev l))))) \<and>
     dev32 d l 0xCFC = cfg (selected (rev l)))"

definition pci_register :: "pci_dev_t \<Rightarrow> u32 \<Rightarrow> u32" where
  "pci_register dev field = set_enable 1 (set_field_num (drop_bit 2 (field AND 0xFC)) dev)"

definition cfg8 :: "(u32 \<Rightarrow> u32) \<Rightarrow> pci_dev_t \<Rightarrow> u32 \<Rightarrow> u32" where
  "cfg8 cfg dev field = take_bit 8 (drop_bit (8 * unat (field AND 3)) (cfg (pci_register dev field)))"

definition cfg16 :: "(u32 \<Rightarrow> u32) \<Rightarrow> pci_dev_t \<Rightarrow> u32 \<Rightarrow> u32" where
  "cfg16 cfg dev field = take_bit 16 (drop_bit (8 * unat (field AND 2)) (cfg (pci_register dev field)))"

definition sizes_ok :: "'s pci_scheme \<Rightarrow> bool" where
  "sizes_ok s \<longleftrightarrow> map (pci_size_map s) [PCI_VENDOR_ID, PCI_DEVICE_ID, PCI_COMMAND, PCI_BAR0] = [2, 2, 2, 4] \<and>
     map (pci_size_map s) [PCI_SUBCLASS, PCI_CLASS, PCI_HEADER_TYPE, PCI_SECONDARY_BUS, PCI_INTERRUPT_LINE] = [1, 1, 1, 1, 1]"

section \<open>The devices of a bus\<close>

definition pci_function :: "u32 \<Rightarrow> u32 \<Rightarrow> u32 \<Rightarrow> pci_dev_t" where
  "pci_function bus device function = set_function_num function (set_device_num device (set_bus_num bus 0))"

definition device_class :: "(u32 \<Rightarrow> u32) \<Rightarrow> pci_dev_t \<Rightarrow> u32" where
  "device_class cfg dev = push_bit 8 (cfg8 cfg dev PCI_CLASS) OR cfg8 cfg dev PCI_SUBCLASS"

definition wanted :: "(u32 \<Rightarrow> u32) \<Rightarrow> u16 \<Rightarrow> u16 \<Rightarrow> u32 \<Rightarrow> pci_dev_t \<Rightarrow> bool" where
  "wanted cfg vendor_id device_id device_type dev \<longleftrightarrow>
     (device_type = - 1 \<or> device_type = device_class cfg dev) \<and>
     cfg16 cfg dev PCI_VENDOR_ID = ucast vendor_id \<and> cfg16 cfg dev PCI_DEVICE_ID = ucast device_id"

definition device_functions :: "(u32 \<Rightarrow> u32) \<Rightarrow> u32 \<Rightarrow> u32 \<Rightarrow> pci_dev_t list" where
  "device_functions cfg bus device =
     (if cfg16 cfg (pci_function bus device 0) PCI_VENDOR_ID = PCI_NONE then []
      else if cfg8 cfg (pci_function bus device 0) PCI_HEADER_TYPE = 0 then [pci_function bus device 0]
      else map (\<lambda>n. pci_function bus device (of_nat n)) [0..<FUNCTION_PER_DEVICE])"

definition bus_functions :: "(u32 \<Rightarrow> u32) \<Rightarrow> u32 \<Rightarrow> pci_dev_t list" where
  "bus_functions cfg bus = concat (map (\<lambda>n. device_functions cfg bus (of_nat n)) [0..<DEVICE_PER_BUS])"

definition first_wanted :: "(u32 \<Rightarrow> u32) \<Rightarrow> u16 \<Rightarrow> u16 \<Rightarrow> u32 \<Rightarrow> pci_dev_t list \<Rightarrow> pci_dev_t" where
  "first_wanted cfg vendor_id device_id device_type devs =
     (case find (\<lambda>dev. dev \<noteq> 0 \<and> wanted cfg vendor_id device_id device_type dev) devs of None \<Rightarrow> 0 | Some dev \<Rightarrow> dev)"

section \<open>Reads\<close>

text \<open>\<open>yields r v s\<close>: the operation returns \<open>v\<close> and has done nothing to the state \<open>s\<close> but access ports.\<close>

definition yields :: "('v \<times> 's machine_scheme) res \<Rightarrow> 'v \<Rightarrow> 's machine_scheme \<Rightarrow> bool" where
  "yields r v s \<longleftrightarrow> (\<exists>l. r = Inr (v, s\<lparr>iolog := iolog s @ l\<rparr>))"

lemma yields_Inr [simp]: "yields (Inr (v, s)) w s \<longleftrightarrow> v = w"
  unfolding yields_def by (auto intro: exI [of _ "[]"])

lemma yields_trans: "yields r v (s\<lparr>iolog := iolog s @ l\<rparr>) \<Longrightarrow> yields r v s"
  unfolding yields_def by fastforce

lemma yields_bind:
  assumes "yields r v s" and "\<And>l. yields (g v (s\<lparr>iolog := iolog s @ l\<rparr>)) w (s\<lparr>iolog := iolog s @ l\<rparr>)"
  shows "yields (bindE r (\<lambda>(v, s'). g v s')) w s"
proof -
  obtain l where "r = Inr (v, s\<lparr>iolog := iolog s @ l\<rparr>)" using assms(1) unfolding yields_def by auto
  then show ?thesis using yields_trans [OF assms(2) [of l]] by simp
qed

lemma sizes_ok_iolog [simp]: "sizes_ok (s\<lparr>iolog := l\<rparr>) = sizes_ok s"
  by (simp add: sizes_ok_def)

lemma pci_init_sizes [simp]: "sizes_ok (pci_init s)"
  by (simp add: sizes_ok_def pci_init_def)

lemma word_below_4: "x AND 3 \<in> {0, 1, 2, 3 :: u32}"
proof -
  have "x AND 3 = x AND mask 2" by (simp add: mask_eq_exp_minus_1)
  then have "unat (x AND 3) < 4"
    using take_bit_nat_less_exp [of 2 "unat x"] by (simp add: take_bit_eq_mask [symmetric] unsigned_take_bit_eq)
  then show ?thesis using word_less_4_cases [of "x AND 3"] by (simp add: word_less_nat_alt)
qed

lemma word_and_2: "x AND 2 \<in> {0, 2 :: u32}"
proof -
  have "x AND 2 = (x AND 2) AND 3" by (simp add: and.assoc)
  then have "x AND 2 \<in> {0, 1, 2, 3}" using word_below_4 [of "x AND 2"] by simp
  moreover have "\<not> bit (x AND 2) 0" by (simp add: bit_and_iff)
  ultimately show ?thesis by auto
qed

lemma ucast_ucast_take [simp]:
  "ucast (ucast (x :: u32) :: u8) = take_bit 8 x" "ucast (ucast (x :: u32) :: u16) = take_bit 16 x"
  by (simp_all add: unsigned_ucast_eq)

lemma pci_read8:
  assumes "config_space d cfg" and "pci_size_map s field = 1" and "field < 100"
  shows "yields (pci_read d dev field s) (cfg8 cfg dev field) s"
proof -
  have k: "unat (field AND 3) \<in> {0, 1, 2, 3}" "ucast (0xCFC + (field AND 3)) = (0xCFC + of_nat (unat (field AND 3)) :: u16)"
    using word_below_4 [of field] by auto
  then have "dev8 d l (ucast (0xCFC + (field AND 3))) = ucast (drop_bit (8 * unat (field AND 3)) (cfg (selected (rev l))))" for l
    using assms(1) by (simp only: k(2) config_space_def)
  then show ?thesis
    using assms(2,3) unfolding yields_def
    by (auto simp: pci_read_def Let_def inb_def outl_def cfg8_def pci_register_def not_le intro: exI [of _ "[_, _]"])
qed

lemma pci_read16:
  assumes "config_space d cfg" and "pci_size_map s field = 2" and "field < 100"
  shows "yields (pci_read d dev field s) (cfg16 cfg dev field) s"
proof -
  have k: "unat (field AND 2) \<in> {0, 2}" "ucast (0xCFC + (field AND 2)) = (0xCFC + of_nat (unat (field AND 2)) :: u16)"
    using word_and_2 [of field] by auto
  then have "dev16 d l (ucast (0xCFC + (field AND 2))) = ucast (drop_bit (8 * unat (field AND 2)) (cfg (selected (rev l))))" for l
    using assms(1) by (simp only: k(2) config_space_def)
  then show ?thesis
    using assms(2,3) unfolding yields_def
    by (auto simp: pci_read_def Let_def inw_def outl_def cfg16_def pci_register_def not_le intro: exI [of _ "[_, _]"])
qed

lemma scan_reads:
  assumes "config_space d cfg" and "sizes_ok s"
  shows "yields (pci_read d dev PCI_CLASS s) (cfg8 cfg dev PCI_CLASS) s"
    "yields (pci_read d dev PCI_SUBCLASS s) (cfg8 cfg dev PCI_SUBCLASS) s"
    "yields (pci_read d dev PCI_HEADER_TYPE s) (cfg8 cfg dev PCI_HEADER_TYPE) s"
    "yields (pci_read d dev PCI_SECONDARY_BUS s) (cfg8 cfg dev PCI_SECONDARY_BUS) s"
    "yields (pci_read d dev PCI_VENDOR_ID s) (cfg16 cfg dev PCI_VENDOR_ID) s"
    "yields (pci_read d dev PCI_DEVICE_ID s) (cfg16 cfg dev PCI_DEVICE_ID) s"
  using assms(2) by (auto intro!: pci_read8 pci_read16 assms(1) simp: sizes_ok_def)

lemma get_device_type_yields:
  "config_space d cfg \<Longrightarrow> sizes_ok s \<Longrightarrow> yields (get_device_type d dev s) (device_class cfg dev) s"
  unfolding get_device_type_def
  by (rule yields_bind, erule (1) scan_reads, rule yields_bind, rule scan_reads) (auto simp: device_class_def)

lemma pci_reach_end_yields:
  "config_space d cfg \<Longrightarrow> sizes_ok s \<Longrightarrow> yields (pci_reach_end d dev s) (cfg8 cfg dev PCI_HEADER_TYPE = 0) s"
  unfolding pci_reach_end_def by (rule yields_bind, erule (1) scan_reads) auto

section \<open>Scanning\<close>

text \<open>What a nested scan has to do for the scan of a function: return, with the state as it was.\<close>

definition scans :: "(u32 \<Rightarrow> 's pci_scheme \<Rightarrow> (pci_dev_t \<times> 's pci_scheme) res) \<Rightarrow> u32 \<Rightarrow> bool" where
  "scans scan bus \<longleftrightarrow> (\<forall>s. sizes_ok s \<longrightarrow> (\<exists>t. yields (scan bus s) t s))"

definition bridge :: "(u32 \<Rightarrow> u32) \<Rightarrow> pci_dev_t \<Rightarrow> bool" where
  "bridge cfg dev \<longleftrightarrow> device_class cfg dev = PCI_TYPE_BRIDGE"

lemma pci_scan_function_yields:
  assumes cfg: "config_space d cfg" "sizes_ok s"
    and nested: "bridge cfg (pci_function bus device function) \<Longrightarrow> scans scan (cfg8 cfg (pci_function bus device function) PCI_SECONDARY_BUS)"
  shows "yields (pci_scan_function scan d vendor_id device_id bus device function device_type s)
    (if wanted cfg vendor_id device_id device_type (pci_function bus device function) then pci_function bus device function else 0) s"
proof -
  let ?dev = "pci_function bus device function"
  let ?t = "if wanted cfg vendor_id device_id device_type ?dev then ?dev else 0"
  let ?ids = "\<lambda>s6. bindE (pci_read d ?dev PCI_DEVICE_ID s6) (\<lambda>(devid, s7).
                bindE (pci_read d ?dev PCI_VENDOR_ID s7) (\<lambda>(vendid, s8).
                  Inr (if devid = ucast device_id \<and> ucast vendor_id = vendid then ?dev else 0, s8)))"
  let ?fit = "\<lambda>s4. bindE (if device_type = - 1 then Inr (True, s4)
                else bindE (get_device_type d ?dev s4) (\<lambda>(ty', s5). Inr (device_type = ty', s5))) (\<lambda>(fits, s6).
           if fits then ?ids s6 else Inr (0, s6))"
  let ?down = "\<lambda>s1. bindE (get_secondary_bus d ?dev s1) (\<lambda>(b, s2). bindE (scan b s2) (\<lambda>(_, s3). Inr s3))"
  have ids: "yields (?ids s) (if cfg16 cfg ?dev PCI_DEVICE_ID = ucast device_id \<and> ucast vendor_id = cfg16 cfg ?dev PCI_VENDOR_ID then ?dev else 0) s"
    if "sizes_ok s" for s
    by (rule yields_bind, rule scan_reads [OF cfg(1) that], rule yields_bind, rule scan_reads [OF cfg(1)]) (use that in auto)
  have fit: "yields (?fit s) ?t s" if s: "sizes_ok s" for s
  proof (rule yields_bind)
    show "yields (if device_type = - 1 then Inr (True, s)
                else bindE (get_device_type d ?dev s) (\<lambda>(ty', s5). Inr (device_type = ty', s5)))
            (device_type = - 1 \<or> device_type = device_class cfg ?dev) s"
      using yields_bind [OF get_device_type_yields [OF cfg(1) s], of "\<lambda>ty' s5. Inr (device_type = ty', s5)"] by auto
    show "yields (if device_type = - 1 \<or> device_type = device_class cfg ?dev then ?ids (s\<lparr>iolog := iolog s @ l\<rparr>)
        else Inr (0, s\<lparr>iolog := iolog s @ l\<rparr>)) ?t (s\<lparr>iolog := iolog s @ l\<rparr>)" for l
      using ids [of "s\<lparr>iolog := iolog s @ l\<rparr>"] s by (auto simp: wanted_def conj_commute eq_commute)
  qed
  have down: "\<exists>l. ?down s = Inr (s\<lparr>iolog := iolog s @ l\<rparr>)" if s: "sizes_ok s" and br: "bridge cfg ?dev" for s
  proof -
    obtain l where l: "pci_read d ?dev PCI_SECONDARY_BUS s = Inr (cfg8 cfg ?dev PCI_SECONDARY_BUS, s\<lparr>iolog := iolog s @ l\<rparr>)"
      using scan_reads(4) [OF cfg(1) s] unfolding yields_def by blast
    obtain t l' where "scan (cfg8 cfg ?dev PCI_SECONDARY_BUS) (s\<lparr>iolog := iolog s @ l\<rparr>) = Inr (t, s\<lparr>iolog := (iolog s @ l) @ l'\<rparr>)"
      using nested [OF br, unfolded scans_def yields_def, rule_format, of "s\<lparr>iolog := iolog s @ l\<rparr>"] s by auto
    then show ?thesis using l by (auto simp: get_secondary_bus_def)
  qed
  have rest: "yields (bindE (if device_class cfg ?dev = PCI_TYPE_BRIDGE then ?down s else Inr s) ?fit) ?t s" if ok: "sizes_ok s" for s
  proof (cases "bridge cfg ?dev")
    case True
    then obtain l where "?down s = Inr (s\<lparr>iolog := iolog s @ l\<rparr>)" using down [OF ok] by blast
    then show ?thesis using True fit [of "s\<lparr>iolog := iolog s @ l\<rparr>"] ok by (auto simp: bridge_def intro: yields_trans)
  qed (use fit [OF ok] in \<open>simp add: bridge_def\<close>)
  show ?thesis
    unfolding pci_scan_function_def Let_def pci_function_def [symmetric]
    by (rule yields_bind, rule get_device_type_yields [OF cfg], rule rest) (simp add: cfg)
qed

lemma first_wanted_simps:
  "first_wanted cfg v i ty [] = 0"
  "first_wanted cfg v i ty [dev] = (if wanted cfg v i ty dev then dev else 0)"
  "first_wanted cfg v i ty (xs @ ys) =
     (if first_wanted cfg v i ty xs \<noteq> 0 then first_wanted cfg v i ty xs else first_wanted cfg v i ty ys)"
proof -
  let ?P = "\<lambda>dev. dev \<noteq> 0 \<and> wanted cfg v i ty dev"
  have "find ?P xs = Some dev \<Longrightarrow> dev \<noteq> 0" for dev
    by (auto simp: find_Some_iff)
  moreover have "find ?P (xs @ ys) = (case find ?P xs of None \<Rightarrow> find ?P ys | Some x \<Rightarrow> Some x)"
    by (induction xs) auto
  ultimately show "first_wanted cfg v i ty (xs @ ys) =
     (if first_wanted cfg v i ty xs \<noteq> 0 then first_wanted cfg v i ty xs else first_wanted cfg v i ty ys)"
    by (auto simp: first_wanted_def split: option.splits)
qed (auto simp: first_wanted_def)

lemma first_wanted_Cons:
  "first_wanted cfg v i ty (dev # devs) = (if dev \<noteq> 0 \<and> wanted cfg v i ty dev then dev else first_wanted cfg v i ty devs)"
  by (simp add: first_wanted_def)

lemma try_each_yields:
  assumes "sizes_ok s" and "\<And>x s. x \<in> set xs \<Longrightarrow> sizes_ok s \<Longrightarrow> yields (f x s) (first_wanted cfg v i ty (g x)) s"
  shows "yields (try_each f xs s) (first_wanted cfg v i ty (concat (map g xs))) s"
  using assms
proof (induction xs arbitrary: s)
  case (Cons x xs)
  have "yields (try_each f xs s) (first_wanted cfg v i ty (concat (map g xs))) s" if "sizes_ok s" for s
    using Cons.IH [OF that] Cons.prems(2) by simp
  then show ?case
    unfolding try_each.simps using Cons.prems(1)
    by (intro yields_bind [OF Cons.prems(2)]) (auto simp: first_wanted_simps)
qed (simp add: first_wanted_simps)

lemma pci_scan_device_yields:
  fixes s :: "'s pci_scheme"
  assumes cfg: "config_space d cfg" and s: "sizes_ok s"
    and nested: "\<And>function. bridge cfg (pci_function bus device function) \<Longrightarrow>
      scans scan (cfg8 cfg (pci_function bus device function) PCI_SECONDARY_BUS)"
  shows "yields (pci_scan_device scan d v i bus device ty s) (first_wanted cfg v i ty (device_functions cfg bus device)) s"
proof -
  let ?dev = "pci_function bus device 0"
  let ?each = "\<lambda>function s4. bindE (pci_read d ?dev PCI_VENDOR_ID s4) (\<lambda>(v', s5).
      if v' \<noteq> PCI_NONE then pci_scan_function scan d v i bus device function ty s5 else Inr (0, s5))"
  let ?one = "\<lambda>function. if wanted cfg v i ty (pci_function bus device function) then pci_function bus device function else 0"
  let ?fns = "map of_nat [1..<32] :: u32 list"
  have dev: "set_device_num device (set_bus_num bus 0) = ?dev"
    by (rule bit_word_eqI) (auto simp: pci_function_def set_function_num_def set_device_num_def set_bus_num_def set_bits_def bit_simps)
  have fn: "yields (pci_scan_function scan d v i bus device f ty s) (?one f) s" if "sizes_ok s" for f and s :: "'s pci_scheme"
    using pci_scan_function_yields [OF cfg that nested] by simp
  have loop: "yields (try_each ?each ?fns s) (first_wanted cfg v i ty (concat (map (\<lambda>function. [pci_function bus device function]) ?fns))) s"
    if "sizes_ok s" and "cfg16 cfg ?dev PCI_VENDOR_ID \<noteq> PCI_NONE" for s :: "'s pci_scheme"
  proof (rule try_each_yields [OF that(1)])
    fix f and s :: "'s pci_scheme" assume ok: "sizes_ok s"
    show "yields (?each f s) (first_wanted cfg v i ty [pci_function bus device f]) s"
      by (rule yields_bind, rule scan_reads [OF cfg ok]) (use fn ok that(2) in \<open>auto simp: first_wanted_simps\<close>)
  qed
  have sing: "concat (map (\<lambda>f. [g f]) xs) = map g xs" for g :: "u32 \<Rightarrow> u32" and xs by (induction xs) auto
  have tail: "yields (bindE (pci_reach_end d ?dev s) (\<lambda>(e, s3). if e then Inr (0, s3) else try_each ?each ?fns s3))
      (if cfg8 cfg ?dev PCI_HEADER_TYPE = 0 then 0
       else first_wanted cfg v i ty (map (pci_function bus device) ?fns)) s"
    if "sizes_ok s" and "cfg16 cfg ?dev PCI_VENDOR_ID \<noteq> PCI_NONE" for s :: "'s pci_scheme"
    by (rule yields_bind, rule pci_reach_end_yields [OF cfg that(1)])
      (use that loop [unfolded sing] in auto)
  have upt: "map (\<lambda>n. pci_function bus device (of_nat n)) [0..<32] = [?dev] @ map (pci_function bus device) ?fns"
    by (simp add: upt_conv_Cons comp_def)
  show ?thesis
    unfolding pci_scan_device_def Let_def dev
  proof (rule yields_bind [OF scan_reads(5) [OF cfg s]], goal_cases)
    case (1 l)
    let ?s = "s\<lparr>iolog := iolog s @ l\<rparr>"
    have ok: "sizes_ok ?s" using s by simp
    show ?case
    proof (cases "cfg16 cfg ?dev PCI_VENDOR_ID = PCI_NONE")
      case False
      have "yields (bindE (pci_scan_function scan d v i bus device 0 ty ?s) (\<lambda>(t, s2).
           if t \<noteq> 0 then Inr (t, s2)
           else bindE (pci_reach_end d ?dev s2) (\<lambda>(e, s3). if e then Inr (0, s3) else try_each ?each ?fns s3)))
        (if ?one 0 \<noteq> 0 then ?one 0 else if cfg8 cfg ?dev PCI_HEADER_TYPE = 0 then 0
         else first_wanted cfg v i ty (map (pci_function bus device) ?fns)) ?s"
        by (rule yields_bind [OF fn [OF ok]]) (use tail [OF _ False] ok in auto)
      moreover have "first_wanted cfg v i ty (device_functions cfg bus device) =
        (if ?one 0 \<noteq> 0 then ?one 0 else if cfg8 cfg ?dev PCI_HEADER_TYPE = 0 then 0
         else first_wanted cfg v i ty (map (pci_function bus device) ?fns))"
        using False by (simp add: device_functions_def upt first_wanted_Cons first_wanted_simps(1))
      ultimately show ?thesis using False by simp
    qed (simp add: device_functions_def first_wanted_simps)
  qed
qed

text \<open>
  C19: On a configuration space in which the bus numbers read from bridges lead to buses of smaller
  and smaller rank, \<^verbatim>\<open>pci_scan_bus\<close> returns, and its result is the first function of that very bus
  (present devices in order, all functions of a multi-function device) with the wanted vendor,
  device and class, or 0: a device behind a bridge is never found, for the result of the nested
  scan is dropped, and neither is function 0 of device 0 of bus 0, whose number is 0.
\<close>

theorem pci_scan_bus_finds_first:
  fixes s :: "'s pci_scheme"
  assumes "config_space d cfg" and "sizes_ok s"
    and "\<And>b device f. bridge cfg (pci_function b device f) \<Longrightarrow>
      rank (cfg8 cfg (pci_function b device f) PCI_SECONDARY_BUS) < rank b"
    and "rank bus < depth"
  shows "\<exists>l. pci_scan_bus depth d v i bus ty s =
    Inr (first_wanted cfg v i ty (bus_functions cfg bus), s\<lparr>iolog := iolog s @ l\<rparr>)"
proof -
  have "yields (pci_scan_bus depth d v i bus ty s) (first_wanted cfg v i ty (bus_functions cfg bus)) s"
    using assms(2,4)
  proof (induction depth arbitrary: bus s)
    case (Suc depth)
    have "scans (\<lambda>b (s :: 's pci_scheme). pci_scan_bus depth d v i b ty s) (cfg8 cfg (pci_function bus device f) PCI_SECONDARY_BUS :: u32)"
      if "bridge cfg (pci_function bus device f)" for device f
    proof -
      have "rank (cfg8 cfg (pci_function bus device f) PCI_SECONDARY_BUS) < depth"
        using assms(3) [OF that] Suc.prems(2) by linarith
      then show ?thesis unfolding scans_def using Suc.IH by blast
    qed
    then show ?case
      using try_each_yields [OF Suc.prems(1), where xs = "map of_nat [0..<32]" and g = "device_functions cfg bus",
          OF pci_scan_device_yields [OF assms(1)]]
      by (simp add: bus_functions_def comp_def)
  qed simp
  then show ?thesis unfolding yields_def .
qed

section \<open>A bridge that leads back\<close>

text \<open>
  A PCI-to-PCI bridge with the programming interface 0 (the usual one) as function 0 of device 0 of bus 0.
\<close>

text \<open>
  C20: When function 0 of device 0 of bus 0 is a PCI-to-PCI bridge whose byte 9, the programming
  interface, is 0, the scan of bus 0 does not end, at any depth of recursion: \<^verbatim>\<open>PCI_SECONDARY_BUS\<close> is
  0x09 where the bus number is at 0x19, so the bridge seems to lead to bus 0 again.
\<close>

theorem pci_scan_bridge_diverges:
  fixes s :: "'s pci_scheme"
  assumes "config_space d cfg" and "sizes_ok s" and "cfg16 cfg 0 PCI_VENDOR_ID \<noteq> PCI_NONE"
    and "bridge cfg 0" and "cfg8 cfg 0 PCI_SECONDARY_BUS = 0"
  shows "pci_scan_bus depth d v i 0 ty s = Inl Diverges"
  using assms(2)
proof (induction depth arbitrary: s)
  case (Suc depth)
  let ?scan = "\<lambda>b. pci_scan_bus depth d v i b ty"
  have zero: "set_function_num 0 0 = 0" "set_device_num 0 0 = 0" "set_bus_num 0 0 = 0"
    by (simp_all add: set_function_num_def set_device_num_def set_bus_num_def set_bits_def)
  have fn: "pci_scan_function ?scan d v i 0 0 0 ty s = Inl Diverges" if ok: "sizes_ok s" for s :: "'s pci_scheme"
  proof -
    obtain l where ty: "get_device_type d 0 s = Inr (PCI_TYPE_BRIDGE, s\<lparr>iolog := iolog s @ l\<rparr>)"
      using get_device_type_yields [OF assms(1) ok, of 0] assms(4) by (auto simp: yields_def bridge_def)
    obtain l' where "get_secondary_bus d 0 (s\<lparr>iolog := iolog s @ l\<rparr>) = Inr (0, s\<lparr>iolog := (iolog s @ l) @ l'\<rparr>)"
      using scan_reads(4) [OF assms(1), of "s\<lparr>iolog := iolog s @ l\<rparr>" 0] ok assms(5)
      by (auto simp: yields_def get_secondary_bus_def)
    then show ?thesis using ty Suc.IH [of "s\<lparr>iolog := (iolog s @ l) @ l'\<rparr>"] ok by (simp add: pci_scan_function_def Let_def zero)
  qed
  obtain l where "pci_read d 0 PCI_VENDOR_ID s = Inr (cfg16 cfg 0 PCI_VENDOR_ID, s\<lparr>iolog := iolog s @ l\<rparr>)"
    using scan_reads(5) [OF assms(1) Suc.prems, of 0] by (auto simp: yields_def)
  then have "pci_scan_device ?scan d v i 0 0 ty s = Inl Diverges"
    using fn [of "s\<lparr>iolog := iolog s @ l\<rparr>"] assms(3) Suc.prems by (simp add: pci_scan_device_def Let_def zero)
  then show ?case by (simp add: upt_conv_Cons)
qed simp

section \<open>Instances\<close>

text \<open>A chipset with the contents \<open>cfg\<close> behind the ports, a bus with one RTL8139 as device 3, and a bus with a bridge.\<close>

definition chipset :: "(u32 \<Rightarrow> u32) \<Rightarrow> device" where
  "chipset cfg = \<lparr>dev8 = (\<lambda>l p. ucast (drop_bit (8 * unat (p - 0xCFC)) (cfg (selected (rev l))))),
     dev16 = (\<lambda>l p. ucast (drop_bit (8 * unat (p - 0xCFC)) (cfg (selected (rev l))))),
     dev32 = (\<lambda>l p. cfg (selected (rev l)))\<rparr>"

lemma config_space_chipset [simp]: "config_space (chipset cfg) cfg"
  by (simp add: config_space_def chipset_def)

definition one_card :: "u32 \<Rightarrow> u32" where
  "one_card a = (if a = 0x80001800 then 0x813910EC else if a AND 0xFF = 0 then 0xFFFFFFFF else 0)"

definition one_bridge :: "u32 \<Rightarrow> u32" where
  "one_bridge a = (if a = 0x80000000 then 0x12378086 else if a = 0x80000008 then 0x06040000 else 0xFFFFFFFF)"

definition small_pci :: pci where
  "small_pci = pci_init (heap.extend small_heap \<lparr>pci_size_map = (\<lambda>_. 0)\<rparr>)"

theorem pci_scan_bridge_diverges_witness:
  "pci_scan_bus 257 (chipset one_bridge) 0x10EC 0x8139 0 (- 1) small_pci = Inl Diverges"
  by (rule pci_scan_bridge_diverges [of _ one_bridge])
    (simp_all add: small_pci_def bridge_def device_class_def cfg8_def cfg16_def pci_register_def one_bridge_def
      set_field_num_def set_enable_def set_bits_def)

lemma one_card_class: "device_class one_card dev = 0"
proof -
  have "one_card a = 0" if "bit a 3" for a
  proof -
    have "bit (a AND 0xFF) 3" using that by (simp add: bit_and_iff)
    then have "a AND 0xFF \<noteq> 0" by auto
    moreover have "a \<noteq> 0x80001800" using that by auto
    ultimately show ?thesis by (simp add: one_card_def)
  qed
  moreover have "bit (pci_register dev PCI_CLASS) 3" "bit (pci_register dev PCI_SUBCLASS) 3"
    by (simp_all add: pci_register_def set_enable_def set_field_num_def set_bits_def bit_simps)
  ultimately show ?thesis by (simp add: device_class_def cfg8_def)
qed

theorem pci_scan_bus_finds_first_witness:
  "\<exists>l. pci_scan_bus 1 (chipset one_card) 0x10EC 0x8139 0 (- 1) small_pci =
    Inr (0x1800, small_pci\<lparr>iolog := iolog small_pci @ l\<rparr>)"
proof -
  have "first_wanted one_card 0x10EC 0x8139 (- 1) (bus_functions one_card 0) = 0x1800"
    by code_simp
  moreover have "\<exists>l. pci_scan_bus 1 (chipset one_card) 0x10EC 0x8139 0 (- 1) small_pci =
    Inr (first_wanted one_card 0x10EC 0x8139 (- 1) (bus_functions one_card 0), small_pci\<lparr>iolog := iolog small_pci @ l\<rparr>)"
    by (rule pci_scan_bus_finds_first [where rank = "\<lambda>_. 0"]) (simp_all add: small_pci_def bridge_def one_card_class)
  ultimately show ?thesis by (simp only:)
qed

end
