(* ===== verification/Ethernet.thy ===== *)
theory Ethernet
  imports Pci Objects
begin

text \<open>
  The network card and the ethernet layer: \<^verbatim>\<open>src/src/kernel/drivers/rtl8139.c\<close> and
  \<^verbatim>\<open>src/src/kernel/network/\<close> \<^verbatim>\<open>network_utils.c\<close> and \<^verbatim>\<open>ethernet.c\<close>. The card is the parameter behind the
  ports. Local arrays have an address that the compiler chooses: \<open>src_mac_addr\<close> is a parameter of
  \<^verbatim>\<open>ethernet_send_packet\<close>. The device-independent byte order functions come first, then the driver,
  then the frames.
\<close>

section \<open>Byte order\<close>

definition flip_short :: "u16 \<Rightarrow> u16" where
  "flip_short short_int =
     (let first_byte = ucast (ucast short_int :: u8) :: u32;
          second_byte = ucast (ucast (drop_bit 8 short_int) :: u8) :: u32
      in ucast (push_bit 8 first_byte OR second_byte))"

definition flip_long :: "u32 \<Rightarrow> u32" where
  "flip_long long_int =
     (let first_byte = ucast (ucast long_int :: u8) :: u32;
          second_byte = ucast (ucast (drop_bit 8 long_int) :: u8) :: u32;
          third_byte = ucast (ucast (drop_bit 16 long_int) :: u8) :: u32;
          fourth_byte = ucast (ucast (drop_bit 24 long_int) :: u8) :: u32
      in push_bit 24 first_byte OR push_bit 16 second_byte OR push_bit 8 third_byte OR fourth_byte)"

text \<open>The shifts are defined in C for 0 to 8 bits.\<close>

definition flip_byte :: "u8 \<Rightarrow> u32 \<Rightarrow> u8" where
  "flip_byte byte num_bits =
     (let t = ucast (push_bit (unat (8 - num_bits)) (ucast byte :: u32)) :: u8
      in t OR drop_bit (unat num_bits) byte)"

definition htonb :: "u8 \<Rightarrow> u32 \<Rightarrow> u8" where "htonb byte num_bits = flip_byte byte num_bits"
definition ntohb :: "u8 \<Rightarrow> u32 \<Rightarrow> u8" where "ntohb byte num_bits = flip_byte byte (8 - num_bits)"
definition htons :: "u16 \<Rightarrow> u16" where "htons hostshort = flip_short hostshort"
definition htonl :: "u32 \<Rightarrow> u32" where "htonl hostlong = flip_long hostlong"
definition ntohs :: "u16 \<Rightarrow> u16" where "ntohs netshort = flip_short netshort"
definition ntohl :: "u32 \<Rightarrow> u32" where "ntohl netlong = flip_long netlong"

section \<open>The card\<close>

abbreviation (input) RTL8139_VENDOR_ID :: u16 where "RTL8139_VENDOR_ID \<equiv> 0x10EC"
abbreviation (input) RTL8139_DEVICE_ID :: u16 where "RTL8139_DEVICE_ID \<equiv> 0x8139"
abbreviation (input) RX_BUF_SIZE :: u32 where "RX_BUF_SIZE \<equiv> 8192"
abbreviation (input) CAPR :: u16 where "CAPR \<equiv> 0x38"
abbreviation (input) RX_READ_POINTER_MASK :: u32 where "RX_READ_POINTER_MASK \<equiv> NOT 3"
abbreviation (input) ROK :: u16 where "ROK \<equiv> 1"
abbreviation (input) TOK :: u16 where "TOK \<equiv> 4"

text \<open>The variables of the driver; \<^verbatim>\<open>rtl8139_device\<close> is spread over the fields.\<close>

record net = pci +
  pci_rtl8139_device :: pci_dev_t
  bar_type :: u8
  io_base :: u16
  mem_base :: u32
  eeprom_exist :: u32
  mac_addr :: "u8 list"
  rx_buffer :: u32
  tx_cur :: u32
  current_packet_ptr :: u32

definition TSAD_array :: "u8 list" where "TSAD_array = [0x20, 0x24, 0x28, 0x2C]"
definition TSD_array :: "u8 list" where "TSD_array = [0x10, 0x14, 0x18, 0x1C]"

abbreviation (input) sizeof_ethernet_frame :: u32 where "sizeof_ethernet_frame \<equiv> 14"
abbreviation (input) ETHERNET_TYPE_ARP :: u16 where "ETHERNET_TYPE_ARP \<equiv> 0x0806"
abbreviation (input) ETHERNET_TYPE_IP :: u16 where "ETHERNET_TYPE_IP \<equiv> 0x0800"

definition ethernet_handle_packet :: "u32 \<Rightarrow> u32 \<Rightarrow> 's heap_scheme \<Rightarrow> 's heap_scheme res" where
  "ethernet_handle_packet packet len s =
     (let dat = packet + sizeof_ethernet_frame;
          data_len = len - sizeof_ethernet_frame;
          ty = load16 (mem s) (packet + 12)
      in bindE (if ntohs ty = ETHERNET_TYPE_ARP then printf (lit ''(ARP Packet) %d: %x'' @ [10]) [data_len, dat] s
                else if ntohs ty = ETHERNET_TYPE_IP then printf (lit ''(IP Packet)len: %d: %x'' @ [10]) [data_len, dat] s
                else printf (lit ''unsupported ethernet frame: type = 0x%04x'' @ [10]) [ucast ty] s)
           (free packet))"

definition advance_packet_ptr :: "u32 \<Rightarrow> 's net_scheme \<Rightarrow> 's net_scheme" where
  "advance_packet_ptr packet_length s =
     (let s1 = s\<lparr>current_packet_ptr := (current_packet_ptr s + packet_length + 4 + 3) AND RX_READ_POINTER_MASK\<rparr>
      in if RX_BUF_SIZE < current_packet_ptr s1
         then s1\<lparr>current_packet_ptr := current_packet_ptr s1 - RX_BUF_SIZE\<rparr> else s1)"

definition receive_packet :: "'s net_scheme \<Rightarrow> 's net_scheme res" where
  "receive_packet s =
     (let t = rx_buffer s + current_packet_ptr s;
          packet_length = load16 (mem s) (t + 2);
          t' = t + 4
      in bindE (malloc (ucast packet_length) s) (\<lambda>(packet, s1).
         let s2 = s1\<lparr>mem := memcpy (mem s1) packet t' (ucast packet_length)\<rparr>
         in bindE (ethernet_handle_packet packet (ucast packet_length) s2) (\<lambda>s3.
            let s5 = advance_packet_ptr (ucast packet_length) s3
            in Inr (s5\<lparr>iolog := outw (io_base s5 + CAPR) (ucast (current_packet_ptr s5 - 0x10)) (iolog s5)\<rparr>))))"

definition rtl8139_handler :: "device \<Rightarrow> registers \<Rightarrow> 's net_scheme \<Rightarrow> 's net_scheme res" where
  "rtl8139_handler d reg s =
     (let (status, l) = inw d (io_base s + 0x3e) (iolog s); s0 = s\<lparr>iolog := l\<rparr>
      in bindE (if status AND TOK \<noteq> 0 then printf (lit ''Packet sent'' @ [10]) [] s0 else Inr s0) (\<lambda>s1.
         bindE (if status AND ROK \<noteq> 0 then receive_packet s1 else Inr s1) (\<lambda>s2.
           Inr (s2\<lparr>iolog := outw (io_base s2 + 0x3E) 0x5 (iolog s2)\<rparr>))))"

definition read_mac_addr :: "device \<Rightarrow> 's net_scheme \<Rightarrow> 's net_scheme" where
  "read_mac_addr d s =
     (let (mac_part1, l1) = inl d (io_base s + 0x00) (iolog s);
          (mac_part2, l2) = inw d (io_base s + 0x04) l1
      in s\<lparr>iolog := l2, mac_addr :=
           [ucast mac_part1, ucast (drop_bit 8 mac_part1), ucast (drop_bit 16 mac_part1), ucast (drop_bit 24 mac_part1),
            ucast mac_part2, ucast (drop_bit 8 mac_part2)]\<rparr>)"

definition get_mac_addr :: "u32 \<Rightarrow> 's net_scheme \<Rightarrow> 's net_scheme" where
  "get_mac_addr src_mac_addr s = s\<lparr>mem := write_bytes (mem s) src_mac_addr (mac_addr s)\<rparr>"

definition rtl8139_send_packet :: "u32 \<Rightarrow> u32 \<Rightarrow> 's net_scheme \<Rightarrow> 's net_scheme res" where
  "rtl8139_send_packet dat len s =
     bindE (malloc len s) (\<lambda>(transfer_data, s1).
       let phys_addr = virt2phys (cur_dir s1) transfer_data s1;
           s2 = s1\<lparr>mem := memcpy (mem s1) transfer_data dat len\<rparr>
       in if 4 \<le> tx_cur s2 then Inl OutOfBounds
          else let s3 = s2\<lparr>iolog := outl (io_base s2 + ucast (TSAD_array ! unat (tx_cur s2))) phys_addr (iolog s2)\<rparr>;
                   s4 = s3\<lparr>iolog := outl (io_base s3 + ucast (TSD_array ! unat (tx_cur s3))) len (iolog s3), tx_cur := tx_cur s3 + 1\<rparr>
               in Inr (if 3 < sint (tx_cur s4) then s4\<lparr>tx_cur := 0\<rparr> else s4))"

text \<open>The wait for the end of the reset, as long as the card wants.\<close>

partial_function (option) reset_wait :: "device \<Rightarrow> u16 \<Rightarrow> iolog \<Rightarrow> iolog option" where
  "reset_wait d port l =
     (let (v, l') = inb d port l in if v AND 0x10 \<noteq> 0 then reset_wait d port l' else Some l')"

definition rtl8139_init :: "nat \<Rightarrow> device \<Rightarrow> u32 \<Rightarrow> 's net_scheme \<Rightarrow> 's net_scheme res" where
  "rtl8139_init depth d rtl8139_handler_addr s =
     bindE (pci_get_device depth d RTL8139_VENDOR_ID RTL8139_DEVICE_ID (- 1) s) (\<lambda>(dev, s0).
     let s1 = s0\<lparr>pci_rtl8139_device := dev\<rparr>
     in bindE (pci_read d (pci_rtl8139_device s1) PCI_BAR0 s1) (\<lambda>(ret, s2).
     let s3 = s2\<lparr>bar_type := ucast (ret AND 0x1), io_base := ucast (ret AND NOT 0x3), mem_base := ret AND NOT 0xf, tx_cur := 0\<rparr>
     in bindE (pci_read d (pci_rtl8139_device s3) PCI_COMMAND s3) (\<lambda>(pci_command_reg, s4).
     let s5 = (if pci_command_reg AND 4 = 0 then pci_write (pci_rtl8139_device s4) PCI_COMMAND (pci_command_reg OR 4) s4 else s4);
         l6 = outb (io_base s5 + 0x37) 0x10 (outb (io_base s5 + 0x52) 0x0 (iolog s5))
     in bindE (returns (reset_wait d (io_base s5 + 0x37) l6)) (\<lambda>l7.
     bindE (malloc (8192 + 16 + 1500) (s5\<lparr>iolog := l7\<rparr>)) (\<lambda>(rx, s8).
     let s9 = s8\<lparr>rx_buffer := rx\<rparr>;
         s10 = s9\<lparr>mem := memset (mem s9) (rx_buffer s9) 0x0 (8192 + 16 + 1500)\<rparr>;
         l11 = outl (io_base s10 + 0x30) (virt2phys (cur_dir s10) (rx_buffer s10) s10) (iolog s10);
         l12 = outw (io_base s10 + 0x3C) 0x0005 l11;
         l13 = outl (io_base s10 + 0x44) (0xf OR 0x80) l12;
         l14 = outb (io_base s10 + 0x37) 0x0C l13
     in bindE (pci_read d (pci_rtl8139_device s10) PCI_INTERRUPT_LINE (s10\<lparr>iolog := l14\<rparr>)) (\<lambda>(irq_num, s15).
     let irq_port = ucast (32 + irq_num) :: u8;
         s16 = s15\<lparr>iolog := enable_irq d irq_port (iolog s15)\<rparr>;
         s17 = register_interrupt_handler (scast irq_port) rtl8139_handler_addr s16
     in Inr (read_mac_addr d s17)))))))"

section \<open>Frames\<close>

definition ethernet_send_packet ::
  "u32 \<Rightarrow> u32 \<Rightarrow> u32 \<Rightarrow> u32 \<Rightarrow> u16 \<Rightarrow> 's net_scheme \<Rightarrow> (u32 \<times> 's net_scheme) res" where
  "ethernet_send_packet src_mac_addr dst_mac_addr dat len protocol s =
     bindE (malloc (sizeof_ethernet_frame + len) s) (\<lambda>(frame, s1).
     let frame_data = frame + sizeof_ethernet_frame;
         s2 = get_mac_addr src_mac_addr s1;
         s3 = s2\<lparr>mem := memcpy (mem s2) (frame + 6) src_mac_addr 6\<rparr>;
         s4 = s3\<lparr>mem := memcpy (mem s3) frame dst_mac_addr 6\<rparr>;
         s5 = s4\<lparr>mem := memcpy (mem s4) frame_data dat len\<rparr>;
         s6 = s5\<lparr>mem := store16 (mem s5) (frame + 12) (htons protocol)\<rparr>
     in bindE (rtl8139_send_packet frame (sizeof_ethernet_frame + len) s6) (\<lambda>s7.
        bindE (free frame s7) (\<lambda>s8. Inr (len, s8))))"

definition ethernet_init :: "'s net_scheme \<Rightarrow> 's net_scheme" where
  "ethernet_init s = s"

section \<open>Byte order\<close>

lemma flip_short_bytes: "ucast (htons x) = (ucast (drop_bit 8 x) :: u8)" "ucast (drop_bit 8 (htons x)) = (ucast x :: u8)"
  by (rule bit_word_eqI; auto simp: htons_def flip_short_def Let_def bit_simps)+

lemma flip_long_bytes:
  "ucast (htonl x) = (ucast (drop_bit 24 x) :: u8)" "ucast (drop_bit 8 (htonl x)) = (ucast (drop_bit 16 x) :: u8)"
  "ucast (drop_bit 16 (htonl x)) = (ucast (drop_bit 8 x) :: u8)" "ucast (drop_bit 24 (htonl x)) = (ucast x :: u8)"
  by (rule bit_word_eqI; auto simp: htonl_def flip_long_def Let_def bit_simps)+

lemma word_bytes:
  "push_bit 24 (ucast (ucast (drop_bit 24 x) :: u8)) OR push_bit 16 (ucast (ucast (drop_bit 16 x) :: u8)) OR
   push_bit 8 (ucast (ucast (drop_bit 8 x) :: u8)) OR ucast (ucast x :: u8) = (x :: u32)"
proof (rule bit_word_eqI)
  fix n assume "n < LENGTH(32)"
  then consider "n < 8" | "8 \<le> n" "n < 16" | "16 \<le> n" "n < 24" | "24 \<le> n" "n < 32" by force
  then show "bit (push_bit 24 (ucast (ucast (drop_bit 24 x) :: u8)) OR push_bit 16 (ucast (ucast (drop_bit 16 x) :: u8)) OR
      push_bit 8 (ucast (ucast (drop_bit 8 x) :: u8)) OR ucast (ucast x :: u8) :: u32) n = bit x n"
    by cases (auto simp: bit_or_iff bit_push_bit_iff bit_take_bit_iff bit_drop_bit_eq)
qed

text \<open>
  \<^verbatim>\<open>ntohs\<close> and \<^verbatim>\<open>ntohl\<close> undo \<^verbatim>\<open>htons\<close> and \<^verbatim>\<open>htonl\<close>, and a 16-bit value converted with \<^verbatim>\<open>htons\<close> lies in memory
  with its high byte first.
\<close>

theorem network_byte_order:
  "ntohs (htons x) = x \<and> ntohl (htonl y) = y \<and>
   store16 m p (htons x) p = ucast (drop_bit 8 x) \<and> store16 m p (htons x) (p + 1) = ucast x"
proof (intro conjI)
  show "ntohs (htons x) = x"
    by (rule bit_word_eqI) (auto simp: ntohs_def htons_def flip_short_def Let_def bit_simps)
  show "ntohl (htonl y) = y"
    unfolding ntohl_def flip_long_def Let_def flip_long_bytes by (rule word_bytes)
qed (simp_all add: store16_def flip_short_bytes)

text \<open>
  \<^verbatim>\<open>ntohb\<close> undoes \<^verbatim>\<open>htonb\<close> for every byte and every split of it into two fields.
\<close>

theorem ntohb_htonb:
  assumes "num_bits \<le> 8"
  shows "ntohb (htonb byte num_bits) num_bits = byte"
proof -
  define n where "n = unat num_bits"
  have n: "n \<le> 8" "unat (8 - num_bits) = 8 - n" "unat (8 - (8 - num_bits)) = n"
    using assms by (auto simp: n_def word_le_nat_alt unat_sub)
  show ?thesis
  proof (rule bit_word_eqI)
    fix k assume "k < LENGTH(8)"
    then show "bit (ntohb (htonb byte num_bits) num_bits) k = bit byte k"
      using n by (auto simp: ntohb_def htonb_def flip_byte_def Let_def bit_simps n_def [symmetric] dest: bit_imp_le_length)
  qed
qed

theorem ntohb_htonb_witness: "ntohb (htonb 0xA5 3) 3 = 0xA5"
  by (rule ntohb_htonb) simp

section \<open>Bytes the heap leaves alone\<close>

definition safe :: "'s heap_scheme \<Rightarrow> u32 \<Rightarrow> bool" where
  "safe s a \<longleftrightarrow> \<not> in_window (framebuffer_addr s) a \<and>
     (unat a < unat (heap_begin s) \<or> (\<exists>q n. (q, n) \<in> live_blocks s \<and> unat q \<le> unat a \<and> unat a < unat q + n))"

lemma safe_not_header:
  assumes "heap_ok s bs" and "safe s a"
  shows "unat a \<notin> headers (unat (heap_begin s)) bs"
proof (cases "unat a < unat (heap_begin s)")
  case False
  then obtain q n where q: "(q, n) \<in> live_blocks s" "unat q \<le> unat a" "unat a < unat q + n"
    using assms(2) by (auto simp: safe_def)
  have "heap_inv s" using assms(1) by (auto simp: heap_inv_def)
  then obtain cs i where c: "heap_ok s cs" "i < length cs" "n = fst (cs ! i)"
    "unat q = block_addr (unat (heap_begin s)) cs i + 8"
    using q(1) by (rule live_block) auto
  then have "cs = bs" using heap_ok_unique [OF c(1) assms(1)] by simp
  then show ?thesis using payload_not_header [of i bs "unat (heap_begin s)" "unat a"] c q by simp
qed (use headers_range in force)

lemma write_safe:
  assumes "heap_ok s bs" and "\<And>a. m a \<noteq> mem s a \<Longrightarrow> safe s a"
  shows "heap_ok (s\<lparr>mem := m\<rparr>) bs" and "live_blocks (s\<lparr>mem := m\<rparr>) = live_blocks s"
proof -
  show ok: "heap_ok (s\<lparr>mem := m\<rparr>) bs"
  proof (rule heap_ok_write [OF assms(1)])
    fix x assume x: "x \<in> headers (unat (heap_begin s)) bs"
    have "unat (of_nat x :: u32) = x" using heap_bytes_nat(1) [OF assms(1) x] by (rule unat_of_nat_u32)
    then show "m (of_nat x) = mem s (of_nat x)" using safe_not_header [OF assms(1), of "of_nat x"] assms(2) x by fastforce
  qed
  show "live_blocks (s\<lparr>mem := m\<rparr>) = live_blocks s" using live_blocks_write [OF assms(1) ok] by simp
qed

lemma first_fit_append_used: "first_fit n bs = None \<Longrightarrow> first_fit n (bs @ [(k, True)]) = None"
  by (induction bs) (auto split: if_splits)

lemma malloc_new_block:
  fixes s :: "'s heap_scheme"
  assumes "heap_ok s bs" and "calm s" and "sz \<noteq> 0" and "first_fit (unat sz) bs = None"
    and "unat (last_alloc s) + unat sz + 8 < unat (heap_end s)"
  obtains s' m mu where "malloc sz s = Inr (last_alloc s + 8, s')" and "heap_ok s' (bs @ [(unat sz, True)])"
    and "s' = s\<lparr>mem := m, last_alloc := last_alloc s + sz + 12, memory_used := mu\<rparr>"
    and "\<And>a. safe s a \<Longrightarrow> m a = mem s a" and "\<And>a. safe s a \<Longrightarrow> safe s' a"
    and "\<And>a. unat (last_alloc s) + 8 \<le> unat a \<Longrightarrow> unat a < unat (last_alloc s) + 8 + unat sz \<Longrightarrow> safe s' a \<and> \<not> safe s a"
proof -
  have inv: "heap_inv s" using assms(1) by (auto simp: heap_inv_def)
  have small: "unat (last_alloc s) + unat sz + 8 < 2 ^ 32" using assms(5) unat_u32_le [of "heap_end s"] by simp
  have req: "request_ok sz s" using assms(2,3) small by (simp add: request_ok_def)
  obtain s' where s': "malloc sz s = Inr (last_alloc s + 8, s')" "heap_ok s' (bs @ [(unat sz, True)])"
    "last_alloc s' = last_alloc s + sz + 12" "heap_vars_same s s'"
    using malloc_fresh [OF assms] by blast
  have scan: "malloc_scan (mem s) (last_alloc s) sz (heap_begin s) = Some None"
    using malloc_scan_ok [of "mem s" "unat (heap_begin s)" bs "last_alloc s" sz] assms(1,4) by (simp add: heap_ok_def)
  then have eq: "s' = s\<lparr>mem := mem s', last_alloc := last_alloc s + sz + 12, memory_used := memory_used s'\<rparr>"
    using s'(1) assms(3) by (auto simp: malloc_def malloc_new_def Let_def add.assoc split: if_splits)
  have ch: "only_changed (last_alloc s) (sz + 8) s s'"
    using malloc_ok [OF assms(1-3) small] s'(1) assms(4,5) by (auto simp: malloc_spec_def)
  have start: "unat (heap_begin s) \<le> unat (last_alloc s)" using assms(1) by (simp add: heap_ok_def)
  have out: "mem s' a = mem s a" if ok: "safe s a" for a
  proof (cases "unat a < unat (heap_begin s)")
    case True
    then have "unat (a - last_alloc s) = 2 ^ 32 + unat a - unat (last_alloc s)"
      using start by (simp add: unat_sub_if_size word_size)
    moreover have "unat (sz + 8) = unat sz + 8" using small by (simp add: unat_word_ariths)
    ultimately have "\<not> a - last_alloc s < sz + 8" using small by (simp add: word_less_nat_alt)
    then show ?thesis using ch ok by (simp add: only_changed_def safe_def)
  next
    case False
    then obtain q n where "(q, n) \<in> live_blocks s" "unat q \<le> unat a" "unat a < unat q + n" using ok by (auto simp: safe_def)
    then show ?thesis using malloc_live_bytes [OF inv req s'(1)] by blast
  qed
  obtain n where law: "heap_inv s'" "unat sz \<le> n" "live_blocks s' = insert (last_alloc s + 8, n) (live_blocks s)"
    "\<And>k. (last_alloc s + 8, k) \<notin> live_blocks s"
    using heap.alloc_law [OF inv req s'(1)] by blast
  have fb: "framebuffer_addr s' = framebuffer_addr s" "heap_begin s' = heap_begin s" using s'(4) by (simp_all add: heap_vars_same_def)
  have keep: "safe s' a" if "safe s a" for a using that law(3) fb unfolding safe_def by auto
  have la: "unat (last_alloc s + 8) = unat (last_alloc s) + 8" using small by (simp add: unat_word_ariths)
  have new: "safe s' a \<and> \<not> safe s a" if a: "unat (last_alloc s) + 8 \<le> unat a" "unat a < unat (last_alloc s) + 8 + unat sz" for a
  proof
    have live: "(last_alloc s + 8, n) \<in> live_blocks s'" using law(3) by simp
    have r: "unat (last_alloc s + 8) \<le> unat a" "unat a < unat (last_alloc s + 8) + n" using a la law(2) by simp_all
    then show "safe s' a" unfolding safe_def using live_range(1) [OF law(1) live r] live by blast
    show "\<not> safe s a"
    proof
      assume "safe s a"
      moreover have "\<not> unat a < unat (heap_begin s)" using a start by simp
      ultimately obtain q k where q: "(q, k) \<in> live_blocks s" "unat q \<le> unat a" "unat a < unat q + k" by (auto simp: safe_def)
      have "q \<noteq> last_alloc s + 8" using law(4) q(1) by auto
      then show False using heap.disjoint [OF law(1), of q k "last_alloc s + 8" n] law(2,3) q a la by auto
    qed
  qed
  show thesis by (rule that [OF s'(1,2) eq]) (use out keep new in auto)
qed

section \<open>Copies between regions\<close>

definition bytes :: "mem \<Rightarrow> u32 \<Rightarrow> nat \<Rightarrow> u8 list" where
  "bytes m p n = map (\<lambda>i. m (p + of_nat i)) [0..<n]"

definition within :: "u32 \<Rightarrow> nat \<Rightarrow> u32 \<Rightarrow> bool" where
  "within p n a \<longleftrightarrow> unat (a - p) < n"

lemma within_iff: "n < 2 ^ 32 \<Longrightarrow> within p n a \<longleftrightarrow> (\<exists>i < n. a = p + of_nat i)"
proof
  assume "within p n a"
  then show "\<exists>i < n. a = p + of_nat i"
    unfolding within_def by (intro exI [of _ "unat (a - p)"]) simp
next
  assume "n < 2 ^ 32" and "\<exists>i < n. a = p + of_nat i"
  then show "within p n a" unfolding within_def by (auto simp: unat_of_nat_u32)
qed

lemma within_add:
  assumes "k + n < 2 ^ 32" and "within (p + of_nat k) n a"
  shows "within p (k + n) a"
proof -
  obtain i where "i < n" "a = p + of_nat k + of_nat i" using assms by (auto simp: within_iff)
  then have "a = p + of_nat (k + i) \<and> k + i < k + n" by simp
  then show ?thesis using assms(1) within_iff by blast
qed

lemma bytes_cong:
  assumes "n < 2 ^ 32" and "\<And>a. within p n a \<Longrightarrow> m a = m' a"
  shows "bytes m p n = bytes m' p n"
proof -
  have "m (p + of_nat i) = m' (p + of_nat i)" if "i < n" for i
    using assms(2) [of "p + of_nat i"] within_iff [OF assms(1)] that by blast
  then show ?thesis by (simp add: bytes_def)
qed

lemma length_bytes [simp]: "length (bytes m p n) = n"
  by (simp add: bytes_def)

lemma bytes_append: "bytes m p (j + k) = bytes m p j @ bytes m (p + of_nat j) k"
proof -
  have "map (\<lambda>i. m (p + of_nat i)) [j..<j + k] = map (\<lambda>i. m (p + of_nat j + of_nat i)) [0..<k]"
    by (rule nth_equalityI) (simp_all add: add.assoc)
  then show ?thesis by (simp add: bytes_def upt_add_eq_append [of 0 j k, simplified])
qed

lemma memcpy_bytes:
  assumes "\<And>a. within q (unat n) a \<Longrightarrow> \<not> within p (unat n) a"
  shows "bytes (memcpy m p q n) p (unat n) = bytes m q (unat n)"
    and "\<not> within p (unat n) a \<Longrightarrow> memcpy m p q n a = m a"
proof -
  have n32: "unat n < 2 ^ 32" using unat_u32_le [of n] by simp
  have le: "n \<le> p - q"
  proof (rule ccontr)
    assume "\<not> n \<le> p - q"
    then have "within q (unat n) p" by (simp add: within_def word_less_nat_alt not_le)
    moreover from this have "within p (unat n) p" by (auto simp: within_def)
    ultimately show False using assms by blast
  qed
  show "\<not> within p (unat n) a \<Longrightarrow> memcpy m p q n a = m a"
    using memcpy_apply [OF le, of m a] by (simp add: within_def word_less_nat_alt)
  show "bytes (memcpy m p q n) p (unat n) = bytes m q (unat n)"
    unfolding bytes_def
  proof (rule map_cong [OF refl])
    fix i assume "i \<in> set [0..<unat n]"
    then have "unat (of_nat i :: u32) = i" "i < unat n" using n32 by (simp_all add: unat_of_nat_u32)
    then show "memcpy m p q n (p + of_nat i) = m (q + of_nat i)"
      using memcpy_apply [OF le, of m "p + of_nat i"] by (simp add: word_less_nat_alt)
  qed
qed

lemma write_bytes_bytes:
  assumes "length bs < 2 ^ 32"
  shows "bytes (write_bytes m p bs) p (length bs) = bs" and "\<not> within p (length bs) a \<Longrightarrow> write_bytes m p bs a = m a"
proof -
  show "\<not> within p (length bs) a \<Longrightarrow> write_bytes m p bs a = m a"
    using assms by (simp add: write_bytes_apply within_def)
  show "bytes (write_bytes m p bs) p (length bs) = bs"
    by (rule nth_equalityI) (use assms in \<open>auto simp: bytes_def write_bytes_apply unat_of_nat_u32\<close>)
qed

section \<open>Sending\<close>

lemma array_values:
  "TSAD_array ! 0 = 0x20" "TSAD_array ! 1 = 0x24" "TSAD_array ! 2 = 0x28" "TSAD_array ! 3 = 0x2C"
  "TSD_array ! 0 = 0x10" "TSD_array ! 1 = 0x14" "TSD_array ! 2 = 0x18" "TSD_array ! 3 = 0x1C"
  by code_simp+

definition tx_ring :: "u32 \<Rightarrow> u32" where
  "tx_ring i = (if i = 3 then 0 else i + 1)"

lemma rtl8139_send_packet_step:
  fixes s :: "'s net_scheme"
  assumes "malloc len s = Inr (p, s1)" and "tx_cur s1 < 4"
  shows "rtl8139_send_packet dat len s = Inr (s1\<lparr>mem := memcpy (mem s1) p dat len, tx_cur := tx_ring (tx_cur s1),
    iolog := iolog s1 @ [Outl (io_base s1 + 0x20 + 4 * ucast (tx_cur s1)) (virt2phys (cur_dir s1) p s1),
      Outl (io_base s1 + 0x10 + 4 * ucast (tx_cur s1)) len]\<rparr>)"
proof -
  have "unat (tx_cur s1) < 4" using assms(2) by (simp add: word_less_nat_alt)
  then consider "tx_cur s1 = 0" | "tx_cur s1 = 1" | "tx_cur s1 = 2" | "tx_cur s1 = 3"
    using word_less_4_cases assms(2) by auto
  moreover have "\<not> (4 :: u32) \<le> 1" by (simp add: word_le_nat_alt)
  ultimately show ?thesis
    using assms(1)
    by cases (simp_all add: rtl8139_send_packet_def Let_def array_values [simplified] outl_def tx_ring_def)
qed

section \<open>A frame on the wire\<close>

definition region_safe :: "'s heap_scheme \<Rightarrow> u32 \<Rightarrow> nat \<Rightarrow> bool" where
  "region_safe s p n \<longleftrightarrow> (\<forall>a. within p n a \<longrightarrow> safe s a)"

definition frame_bytes :: "u8 list \<Rightarrow> u8 list \<Rightarrow> u16 \<Rightarrow> u8 list \<Rightarrow> u8 list" where
  "frame_bytes dst src protocol pl = dst @ src @ [ucast (drop_bit 8 protocol), ucast protocol] @ pl"

text \<open>
  The five stores that build a frame at \<open>p\<close>, from three regions none of which meets the frame, the first
  of which (the local array at \<open>sp\<close>) meets none of the others.
\<close>

definition build_frame :: "mem \<Rightarrow> u8 list \<Rightarrow> u32 \<Rightarrow> u32 \<Rightarrow> u32 \<Rightarrow> u32 \<Rightarrow> u32 \<Rightarrow> u16 \<Rightarrow> mem" where
  "build_frame m mac p sp dst dat len protocol =
     store16 (memcpy (memcpy (memcpy (write_bytes m sp mac) (p + 6) sp 6) p dst 6) (p + 14) dat len) (p + 12) (htons protocol)"

lemma within_sub: "within (p + of_nat k) n a \<Longrightarrow> k + n \<le> N \<Longrightarrow> N < 2 ^ 32 \<Longrightarrow> within p N a"
  using within_add [of k n p a] by (auto simp: within_def)

lemma within_unat:
  assumes "k + n < 2 ^ 32"
  shows "within (p + of_nat k) n a \<longleftrightarrow> k \<le> unat (a - p) \<and> unat (a - p) < k + n"
proof
  assume "within (p + of_nat k) n a"
  then obtain i where "i < n" "a - p = of_nat (k + i)" using assms by (auto simp: within_iff)
  then show "k \<le> unat (a - p) \<and> unat (a - p) < k + n" using assms by (simp add: unat_of_nat_u32 del: of_nat_add)
next
  assume r: "k \<le> unat (a - p) \<and> unat (a - p) < k + n"
  have "unat (of_nat k :: u32) = k" using assms by (intro unat_of_nat_u32) simp
  then have "unat (a - (p + of_nat k)) = unat (a - p) - k"
    using r unat_sub [of "of_nat k" "a - p"] by (simp add: word_le_nat_alt diff_diff_eq [symmetric])
  then show "within (p + of_nat k) n a" using r by (auto simp: within_def)
qed

lemma build_frame_bytes:
  assumes mac: "length mac = 6" and small: "unat len + 14 < 2 ^ 32"
    and apart: "\<And>a. within sp 6 a \<or> within dst 6 a \<or> within dat (unat len) a \<Longrightarrow> \<not> within p (14 + unat len) a"
    and local: "\<And>a. within dst 6 a \<or> within dat (unat len) a \<Longrightarrow> \<not> within sp 6 a"
  shows "bytes (build_frame m mac p sp dst dat len protocol) p (14 + unat len) =
      frame_bytes (bytes m dst 6) mac protocol (bytes m dat (unat len))"
    and "\<not> within p (14 + unat len) a \<Longrightarrow> \<not> within sp 6 a \<Longrightarrow> build_frame m mac p sp dst dat len protocol a = m a"
proof -
  let ?n = "unat len"
  define m2 where "m2 = write_bytes m sp mac"
  define m3 where "m3 = memcpy m2 (p + 6) sp 6"
  define m4 where "m4 = memcpy m3 p dst 6"
  define m5 where "m5 = memcpy m4 (p + 14) dat len"
  define m6 where "m6 = store16 m5 (p + 12) (htons protocol)"
  have m6_eq: "build_frame m mac p sp dst dat len protocol = m6"
    by (simp add: build_frame_def m2_def m3_def m4_def m5_def m6_def)
  have off: "within (p + 6) 6 a \<longleftrightarrow> 6 \<le> unat (a - p) \<and> unat (a - p) < 12" "within p 6 a \<longleftrightarrow> unat (a - p) < 6"
    "within (p + 14) ?n a \<longleftrightarrow> 14 \<le> unat (a - p) \<and> unat (a - p) < 14 + ?n" 
    "within p (14 + ?n) a \<longleftrightarrow> unat (a - p) < 14 + ?n" for a
    using within_unat [of 6 6 p a] within_unat [of 14 ?n p a] small by (simp_all add: within_def)
  have sep: "within sp (unat (6 :: u32)) a \<Longrightarrow> \<not> within (p + 6) (unat (6 :: u32)) a"
    "within dst (unat (6 :: u32)) a \<Longrightarrow> \<not> within p (unat (6 :: u32)) a"
    "within dat (unat len) a \<Longrightarrow> \<not> within (p + 14) (unat len) a" for a
    using apart [of a] off [of a] by auto
  have m2: "bytes m2 sp 6 = mac" "\<And>a. \<not> within sp 6 a \<Longrightarrow> m2 a = m a"
    using write_bytes_bytes [where bs = mac and m = m and p = sp] mac by (simp_all add: m2_def)
  have m3: "bytes m3 (p + 6) 6 = bytes m2 sp 6" "\<And>a. \<not> within (p + 6) 6 a \<Longrightarrow> m3 a = m2 a"
    using memcpy_bytes [OF sep(1), where m = m2] by (simp_all add: m3_def)
  have m4: "bytes m4 p 6 = bytes m3 dst 6" "\<And>a. \<not> within p 6 a \<Longrightarrow> m4 a = m3 a"
    using memcpy_bytes [OF sep(2), where m = m3] by (simp_all add: m4_def)
  have m5: "bytes m5 (p + 14) ?n = bytes m4 dat ?n" "\<And>a. \<not> within (p + 14) ?n a \<Longrightarrow> m5 a = m4 a"
    using memcpy_bytes [OF sep(3), where m = m4] by (simp_all add: m5_def)
  have m6: "m6 (p + 12) = ucast (drop_bit 8 protocol)" "m6 (p + 13) = ucast protocol"
    "\<And>a. \<not> within (p + 12) 2 a \<Longrightarrow> m6 a = m5 a"
    using store16_apply [of m5 "p + 12" "htons protocol"] by (simp_all add: m6_def flip_short_bytes within_def)
  have off2: "within (p + 12) 2 a \<longleftrightarrow> 12 \<le> unat (a - p) \<and> unat (a - p) < 14" for a
    using within_unat [of 12 2 p a] by simp
  have "bytes m6 p 6 = bytes m4 p 6"
    by (rule bytes_cong) (use m6(3) m5(2) off off2 in auto)
  moreover have "bytes m3 dst 6 = bytes m dst 6"
    by (rule bytes_cong) (simp, use m3(2) m2(2) apart local off in force)
  ultimately have d: "bytes m6 p 6 = bytes m dst 6" using m4(1) by simp
  have "bytes m6 (p + 6) 6 = bytes m3 (p + 6) 6"
    by (rule bytes_cong) (use m6(3) m5(2) m4(2) off off2 in auto)
  then have sr: "bytes m6 (p + 6) 6 = mac" using m3(1) m2(1) by simp
  have ty: "bytes m6 (p + 12) 2 = [ucast (drop_bit 8 protocol), ucast protocol]"
    using m6(1,2) by (simp add: bytes_def numeral_2_eq_2 add.assoc)
  have "bytes m6 (p + 14) ?n = bytes m5 (p + 14) ?n"
    by (rule bytes_cong) (use small m6(3) off off2 in auto)
  moreover have "bytes m4 dat ?n = bytes m dat ?n"
    by (rule bytes_cong) (use small in simp, use m4(2) m3(2) m2(2) apart local off in force)
  ultimately have pl: "bytes m6 (p + 14) ?n = bytes m dat ?n" using m5(1) by simp
  have "bytes m6 p (6 + (6 + (2 + ?n))) = bytes m6 p 6 @ bytes m6 (p + 6) 6 @ bytes m6 (p + 12) 2 @ bytes m6 (p + 14) ?n"
    unfolding bytes_append by (simp add: add.assoc)
  then show "bytes (build_frame m mac p sp dst dat len protocol) p (14 + ?n) = frame_bytes (bytes m dst 6) mac protocol (bytes m dat ?n)"
    by (simp add: m6_eq d sr ty pl frame_bytes_def)
  show "\<not> within p (14 + ?n) a \<Longrightarrow> \<not> within sp 6 a \<Longrightarrow> build_frame m mac p sp dst dat len protocol a = m a"
    using m6(3) [of a] m5(2) [of a] m4(2) [of a] m3(2) [of a] m2(2) [of a] off [of a] off2 [of a] by (auto simp: m6_eq)
qed

lemma free_fields:
  fixes s :: "'s heap_scheme"
  assumes "calm s" and "free p s = Inr s'"
  shows "\<exists>m l x y mu. s' = s\<lparr>mem := m, iolog := l, fb_pos_x := x, fb_pos_y := y, memory_used := mu\<rparr>"
proof -
  let ?a = "p - 8"
  let ?s1 = "s\<lparr>memory_used := memory_used s - (alloc_size (mem s) ?a + 8), mem := (mem s)(?a := 0)\<rparr>"
  have "printf_safe (lit ''Free memeory: %x, size: %d'' @ [10]) [p, alloc_size (mem ?s1) ?a + 8]"
    by (simp add: lit_def of_char_def)
  moreover have "calm ?s1" using assms(1) by (simp add: calm_def)
  ultimately obtain m l x y where "s' = ?s1\<lparr>mem := m, iolog := l, fb_pos_x := x, fb_pos_y := y\<rparr>"
    using printf_heap [of _ _ ?s1] assms(2) by (fastforce simp: free_def Let_def)
  then have "s' = s\<lparr>mem := m, iolog := l, fb_pos_x := x, fb_pos_y := y,
      memory_used := memory_used s - (alloc_size (mem s) ?a + 8)\<rparr>" by simp
  then show ?thesis by blast
qed

lemma unat_plus: "unat x + unat y < 4294967296 \<Longrightarrow> unat (x + y :: u32) = unat x + unat y"
  by (simp add: unat_word_ariths)

lemma within_range:
  assumes "within p n a" and "unat p + n \<le> 4294967296"
  shows "unat p \<le> unat a" and "unat a < unat p + n"
proof -
  have i: "unat (a - p) < n" using assms(1) by (simp add: within_def)
  have "a = p + (a - p)" by simp
  moreover have "unat (p + (a - p)) = unat p + unat (a - p)"
    using i assms(2) by (intro unat_plus) simp
  ultimately have "unat a = unat p + unat (a - p)" by simp
  then show "unat p \<le> unat a" "unat a < unat p + n" using i by simp_all
qed

lemma ethernet_frame_sent:
  fixes s :: "'s net_scheme"
  assumes ok: "heap_ok s bs" and calm: "calm s" and fit: "first_fit (14 + unat len) bs = None"
    and room: "unat (last_alloc s) + 2 * unat len + 60 < unat (heap_end s)"
    and mac: "length (mac_addr s) = 6" and tx: "tx_cur s < 4"
    and safe: "\<And>a. within sp 6 a \<or> within dst 6 a \<or> within dat (unat len) a \<Longrightarrow> safe s a"
    and local: "\<And>a. within dst 6 a \<or> within dat (unat len) a \<Longrightarrow> \<not> within sp 6 a"
  shows "\<exists>s7 s' phys. ethernet_send_packet sp dst dat len protocol s = Inr (len, s') \<and>
    bytes (mem s') (last_alloc s + len + 34) (14 + unat len) =
      frame_bytes (bytes (mem s) dst 6) (mac_addr s) protocol (bytes (mem s) dat (unat len)) \<and>
    free (last_alloc s + 8) s7 = Inr s' \<and> iolog s7 = iolog s @ [Outl (io_base s + 0x20 + 4 * ucast (tx_cur s)) phys,
      Outl (io_base s + 0x10 + 4 * ucast (tx_cur s)) (14 + len)] \<and>
    tx_cur s' = tx_ring (tx_cur s)"
proof -
  have n: "unat (14 + len) = 14 + unat len" using room unat_u32_le [of "heap_end s"] by (simp add: unat_word_ariths)
  let ?p = "last_alloc s + 8"
  have r1: "unat (last_alloc s) + unat (14 + len) + 8 < unat (heap_end s)" using room n by simp
  have nz: "14 + len \<noteq> 0" using n by auto
  have fit1: "first_fit (unat (14 + len)) bs = None" using fit n by simp
  obtain s1 m1 mu where s1: "malloc (14 + len) s = Inr (?p, s1)" "heap_ok s1 (bs @ [(14 + unat len, True)])"
    "s1 = s\<lparr>mem := m1, last_alloc := last_alloc s + (14 + len) + 12, memory_used := mu\<rparr>"
    "\<And>a. safe s a \<Longrightarrow> m1 a = mem s a" "\<And>a. safe s a \<Longrightarrow> safe s1 a"
    "\<And>a. unat (last_alloc s) + 8 \<le> unat a \<Longrightarrow> unat a < unat (last_alloc s) + 8 + (14 + unat len) \<Longrightarrow> safe s1 a \<and> \<not> safe s a"
    by (rule malloc_new_block [OF ok calm nz fit1 r1, unfolded n], rule that)
  have p: "unat ?p = unat (last_alloc s) + 8" using room unat_u32_le [of "heap_end s"] by (simp add: unat_word_ariths)
  have hi: "unat (heap_end s) < 4294967296" using unat_u32_le [of "heap_end s"] by linarith
  have ph: "unat ?p + (14 + unat len) \<le> 4294967296" using p r1 n hi by linarith
  have inp: "safe s1 a \<and> \<not> safe s a" if "within ?p (14 + unat len) a" for a
    using within_range [OF that ph] s1(6) [of a] p n by simp
  have apart: "\<not> within ?p (14 + unat len) a" if "within sp 6 a \<or> within dst 6 a \<or> within dat (unat len) a" for a
    using inp safe that by blast
  have small: "unat len + 14 < 2 ^ 32" using n unat_u32_le [of "14 + len"] by simp
  define m2 where "m2 = build_frame m1 (mac_addr s) ?p sp dst dat len protocol"
  have fb: "bytes m2 ?p (14 + unat len) = frame_bytes (bytes m1 dst 6) (mac_addr s) protocol (bytes m1 dat (unat len))"
    "\<And>a. \<not> within ?p (14 + unat len) a \<Longrightarrow> \<not> within sp 6 a \<Longrightarrow> m2 a = m1 a"
    unfolding m2_def by (rule build_frame_bytes [OF mac small]; use apart local in blast)+
  note fb(1)
  moreover have "bytes m1 dst 6 = bytes (mem s) dst 6" "bytes m1 dat (unat len) = bytes (mem s) dat (unat len)"
    using small s1(4) safe by (intro bytes_cong; simp)+
  ultimately have frame: "bytes m2 ?p (14 + unat len) =
      frame_bytes (bytes (mem s) dst 6) (mac_addr s) protocol (bytes (mem s) dat (unat len))" by simp
  let ?s2 = "s1\<lparr>mem := m2\<rparr>"
  have m2s: "m2 a = mem s1 a" if "\<not> safe s1 a" for a
    using fb(2) [of a] that inp [of a] s1(3) s1(5) [of a] safe [of a] by auto
  have ok2: "heap_ok ?s2 (bs @ [(14 + unat len, True)])"
    using m2s by (intro write_safe(1) [OF s1(2)]) auto
  have calm2: "calm ?s2" using calm s1(3) by (simp add: calm_def)
  have la2: "unat (last_alloc ?s2) = unat (last_alloc s) + unat len + 26"
  proof -
    have "unat (last_alloc s + (14 + len)) = unat (last_alloc s) + (14 + unat len)" using n room hi by (intro trans [OF unat_plus]) simp_all
    moreover from this have "unat (last_alloc s + (14 + len) + 12) = unat (last_alloc s + (14 + len)) + 12"
      using unat_plus [of "last_alloc s + (14 + len)" 12] room hi by simp
    ultimately show ?thesis using s1(3) by simp
  qed
  have r2: "unat (last_alloc ?s2) + unat (14 + len) + 8 < unat (heap_end ?s2)"
    using la2 room n s1(3) by simp
  have fit2: "first_fit (unat (14 + len)) (bs @ [(14 + unat len, True)]) = None"
    using first_fit_append_used [OF fit] n by simp
  obtain s3 m3 mu3 where s3: "malloc (14 + len) ?s2 = Inr (last_alloc ?s2 + 8, s3)"
    "heap_ok s3 ((bs @ [(14 + unat len, True)]) @ [(14 + unat len, True)])"
    "s3 = ?s2\<lparr>mem := m3, last_alloc := last_alloc ?s2 + (14 + len) + 12, memory_used := mu3\<rparr>"
    "\<And>a. safe ?s2 a \<Longrightarrow> m3 a = mem ?s2 a" "\<And>a. safe ?s2 a \<Longrightarrow> safe s3 a"
    "\<And>a. unat (last_alloc ?s2) + 8 \<le> unat a \<Longrightarrow> unat a < unat (last_alloc ?s2) + 8 + (14 + unat len) \<Longrightarrow> safe s3 a \<and> \<not> safe ?s2 a"
    by (rule malloc_new_block [OF ok2 calm2 nz fit2 r2, unfolded n], rule that)
  let ?q = "last_alloc s + len + 34" and ?N = "14 + unat len"
  have q: "last_alloc ?s2 + 8 = ?q" using s1(3) by simp
  have uq: "unat ?q = unat (last_alloc s) + unat len + 34"
  proof -
    have "unat (last_alloc ?s2) + unat (8 :: u32) < 4294967296" unfolding la2 using room hi by simp
    from unat_plus [OF this] show ?thesis unfolding q la2 by simp
  qed
  have qh: "unat ?q + ?N \<le> 4294967296" using uq room hi by linarith
  have inq: "safe s3 a \<and> \<not> safe ?s2 a" if "within ?q ?N a" for a
    using within_range [OF that qh] s3(6) [of a] la2 uq n by simp
  have safe2: "safe ?s2 a = safe s1 a" for a
  proof -
    have "live_blocks ?s2 = live_blocks s1" by (rule write_safe(2) [OF s1(2)]) (use m2s in blast)
    then show ?thesis by (simp add: safe_def)
  qed
  define m4 where "m4 = memcpy m3 ?q ?p (14 + len)"
  have sep: "\<not> within ?q (unat (14 + len)) a" if "within ?p (unat (14 + len)) a" for a
    using that inp [of a] inq [of a] safe2 n by auto
  have cp: "bytes m4 ?q ?N = bytes m3 ?p ?N" "\<And>a. \<not> within ?q ?N a \<Longrightarrow> m4 a = m3 a"
    using memcpy_bytes(1) [of ?p "14 + len" ?q m3] memcpy_bytes(2) [of ?p "14 + len" ?q _ m3] sep
    unfolding m4_def n by blast+
  have "bytes m3 ?p ?N = bytes m2 ?p ?N"
    using small inp safe2 s3(4) by (intro bytes_cong) auto
  then have out: "bytes m4 ?q ?N = frame_bytes (bytes (mem s) dst 6) (mac_addr s) protocol (bytes (mem s) dat (unat len))"
    using cp(1) frame n by simp
  define s7 where "s7 = s3\<lparr>mem := m4, tx_cur := tx_ring (tx_cur s3),
    iolog := iolog s3 @ [Outl (io_base s3 + 0x20 + 4 * ucast (tx_cur s3)) (virt2phys (cur_dir s3) ?q s3),
      Outl (io_base s3 + 0x10 + 4 * ucast (tx_cur s3)) (14 + len)]\<rparr>"
  have m3_eq: "mem s3 = m3" by (subst s3(3)) simp
  have "tx_cur s3 < 4" using tx s3(3) s1(3) by simp
  then have send: "rtl8139_send_packet ?p (14 + len) ?s2 = Inr s7"
    using rtl8139_send_packet_step [OF s3(1), unfolded q m3_eq] unfolding s7_def m4_def by blast
  have "heap_ok (s3\<lparr>mem := m4\<rparr>) ((bs @ [(?N, True)]) @ [(?N, True)])"
    using write_safe(1) [OF s3(2), of m4] cp(2) inq n s3(3) by fastforce
  then have ok7: "heap_ok s7 ((bs @ [(?N, True)]) @ [(?N, True)])"
    by (rule heap_ok_frame) (simp_all add: s7_def)
  have calm7: "calm s7" using calm2 s3(3) by (simp add: s7_def calm_def)
  have same: "heap_begin s7 = heap_begin s" "framebuffer_addr s7 = framebuffer_addr s" "framebuffer_addr s3 = framebuffer_addr s"
    using s1(3) s3(3) by (simp_all add: s7_def)
  have blk: "block_addr (unat (heap_begin s7)) ((bs @ [(?N, True)]) @ [(?N, True)]) (length bs) = unat (last_alloc s)"
    using ok same by (simp add: block_addr_def heap_ok_def)
  obtain s' where s': "free ?p s7 = Inr s'" "only_changed (last_alloc s) 1 s7 s'"
    using free_ok [OF ok7 calm7, of "length bs"] blk by auto
  have "mem s' a = m4 a" if "within ?q ?N a" for a
  proof -
    have "\<not> in_window (framebuffer_addr s7) a" using inq [OF that] same by (simp add: safe_def)
    moreover have "\<not> a - last_alloc s < 1" using within_range(1) [OF that qh] uq by auto
    ultimately show ?thesis using s'(2) by (simp add: only_changed_def s7_def)
  qed
  then have "bytes (mem s') ?q ?N = bytes m4 ?q ?N" using small by (intro bytes_cong) auto
  moreover have "tx_cur s' = tx_cur s7" using free_fields [OF calm7 s'(1)] by auto
  moreover have "ethernet_send_packet sp dst dat len protocol s = Inr (len, s')"
    using s1(1,3) send s'(1)
    by (simp add: ethernet_send_packet_def Let_def get_mac_addr_def m2_def build_frame_def)
  moreover have "iolog s7 = iolog s @ [Outl (io_base s + 0x20 + 4 * ucast (tx_cur s)) (virt2phys (cur_dir s3) ?q s3),
      Outl (io_base s + 0x10 + 4 * ucast (tx_cur s)) (14 + len)]" "tx_cur s7 = tx_ring (tx_cur s)"
    using s1(3) s3(3) by (simp_all add: s7_def)
  ultimately show ?thesis using out s'(1) by auto
qed

definition small_net :: net where
  "small_net = pci.extend small_pci
     \<lparr>pci_rtl8139_device = 0x1800, bar_type = 1, io_base = 0xC000, mem_base = 0, eeprom_exist = 0,
      mac_addr = [0x52, 0x54, 0, 0x12, 0x34, 0x56], rx_buffer = 0, tx_cur = 3, current_packet_ptr = 0\<rparr>"

lemma small_net_fields:
  "heap_begin small_net = 0xC0200000" "heap_end small_net = 0xC0300000" "last_alloc small_net = 0xC0200000"
  "framebuffer_addr small_net = 0xB0000000" "calm small_net" "mac_addr small_net = [0x52, 0x54, 0, 0x12, 0x34, 0x56]"
  "tx_cur small_net = 3" "io_base small_net = 0xC000" "mem small_net = mem small_heap"
  using small_heap_calm
  by (simp_all add: small_net_def small_pci_def pci_init_def pci.defs heap.defs small_heap_fields calm_def)

lemma small_net_ok: "heap_ok small_net []"
  using small_heap_ok by (simp add: heap_ok_def small_net_fields small_heap_fields)

lemma small_net_safe: "unat a < 0x10000 \<Longrightarrow> safe small_net a"
  by (simp add: safe_def small_net_fields in_window_def word_less_nat_alt unat_sub_if_size word_size)

lemma small_net_regions:
  "within 0x1000 6 a \<or> within 0x2000 6 a \<or> within 0x3000 4 a \<Longrightarrow> safe small_net a"
  "within 0x2000 6 a \<or> within 0x3000 4 a \<Longrightarrow> \<not> within 0x1000 6 a"
proof -
  have r: "unat a < 0x10000 \<and> \<not> within 0x1000 6 a" if "within 0x2000 6 a \<or> within 0x3000 4 a"
    using that within_range [of "0x2000" 6 a] within_range [of "0x3000" 4 a] within_range [of "0x1000" 6 a] by auto
  show "within 0x1000 6 a \<or> within 0x2000 6 a \<or> within 0x3000 4 a \<Longrightarrow> safe small_net a"
    using r within_range [of "0x1000" 6 a] by (intro small_net_safe) auto
  show "within 0x2000 6 a \<or> within 0x3000 4 a \<Longrightarrow> \<not> within 0x1000 6 a" using r by blast
qed

lemma small_net_sends:
  "\<exists>s'. ethernet_send_packet 0x1000 0x2000 0x3000 4 0x0800 small_net = Inr (4, s') \<and> tx_cur s' = 0"
  using ethernet_frame_sent [OF small_net_ok, where len = 4 and sp = "0x1000" and dst = "0x2000" and dat = "0x3000" and protocol = "0x0800"]
    small_net_regions
  by (auto simp: small_net_fields tx_ring_def)



section \<open>The state of the driver\<close>

text \<open>
  \<open>card_ok\<close>: the index of the transmit descriptors stays inside the two arrays of four, the card's
  address has six bytes, the receive pointer is a multiple of four.
\<close>

definition card_ok :: "'s net_scheme \<Rightarrow> bool" where
  "card_ok s \<longleftrightarrow> tx_cur s < 4 \<and> length (mac_addr s) = 6 \<and> current_packet_ptr s AND 3 = 0"

inductive card_step :: "device \<Rightarrow> 's net_scheme \<Rightarrow> 's net_scheme \<Rightarrow> bool" for d where
  init: "rtl8139_init depth d h s = Inr s' \<Longrightarrow> card_step d s s'"
| send: "ethernet_send_packet sp dst dat len protocol s = Inr (r, s') \<Longrightarrow> card_step d s s'"
| interrupt: "rtl8139_handler d reg s = Inr s' \<Longrightarrow> card_step d s s'"
| others: "card_step d s (s\<lparr>mem := m, iolog := l\<rparr>)"

inductive_cases card_stepE: "card_step d s s'"

definition driver_same :: "'s net_scheme \<Rightarrow> 's net_scheme \<Rightarrow> bool" where
  "driver_same s s' \<longleftrightarrow> tx_cur s' = tx_cur s \<and> mac_addr s' = mac_addr s \<and> current_packet_ptr s' = current_packet_ptr s"

lemma driver_same_trans: "driver_same s t \<Longrightarrow> driver_same t u \<Longrightarrow> driver_same s u"
  by (simp add: driver_same_def)

lemma driver_same_ok: "driver_same s s' \<Longrightarrow> card_ok s \<Longrightarrow> card_ok s'"
  by (simp add: driver_same_def card_ok_def)

lemma driver_printf: "printf fmt args (s :: 's net_scheme) = Inr s' \<Longrightarrow> driver_same s s'"
  by (auto dest!: printf_vars simp: con_vars_def driver_same_def)

lemma driver_malloc:
  fixes s :: "'s net_scheme"
  assumes "malloc sz s = Inr (p, s')"
  shows "driver_same s s'"
proof -
  have new: "malloc_new sz s = Inr (p, s') \<Longrightarrow> driver_same s s'"
    by (auto simp: malloc_new_def Let_def driver_same_def split: if_splits)
  have reuse: "malloc_reuse sz q s = Inr (p, s') \<Longrightarrow> driver_same s s'" for q
    by (auto simp: malloc_reuse_def Let_def bindE_eq_Inr driver_same_def dest!: driver_printf)
  show ?thesis
    using assms new reuse
    by (auto simp: malloc_def bindE_eq_Inr returns_def driver_same_def split: if_splits option.splits)
qed

lemma driver_free: "free p (s :: 's net_scheme) = Inr s' \<Longrightarrow> driver_same s s'"
  unfolding free_def Let_def by (drule driver_printf) (simp add: driver_same_def)

lemma driver_pci_read: "pci_read d dev fld (s :: 's net_scheme) = Inr (v, s') \<Longrightarrow> driver_same s s'"
  by (auto simp: pci_read_def Let_def driver_same_def inb_def inw_def inl_def split: if_splits)

lemma send_card_ok:
  fixes s :: "'s net_scheme"
  assumes "rtl8139_send_packet dat len s = Inr s'" and "card_ok s"
  shows "card_ok s'"
proof -
  obtain p s1 where m: "malloc len s = Inr (p, s1)" using assms(1) by (auto simp: rtl8139_send_packet_def bindE_eq_Inr)
  then have ok: "card_ok s1" using driver_malloc driver_same_ok assms(2) by blast
  then have "tx_cur s1 < 4" by (simp add: card_ok_def)
  note step = rtl8139_send_packet_step [OF m this]
  have "tx_ring (tx_cur s1) < 4"
    using \<open>tx_cur s1 < 4\<close> word_less_4_cases [of "tx_cur s1"] by (auto simp: tx_ring_def)
  then show ?thesis using assms(1) ok by (auto simp: step card_ok_def)
qed

lemma ethernet_send_card_ok:
  fixes s :: "'s net_scheme"
  assumes "ethernet_send_packet sp dst dat len protocol s = Inr (r, s')" and "card_ok s"
  shows "card_ok s'"
proof -
  obtain f s1 where m: "malloc (14 + len) s = Inr (f, s1)"
    using assms(1) by (auto simp: ethernet_send_packet_def bindE_eq_Inr)
  then have "card_ok s1" using driver_malloc driver_same_ok assms(2) by blast
  then have upd: "card_ok (s1\<lparr>mem := m\<rparr>)" for m by (simp add: card_ok_def)
  obtain m s2 where "rtl8139_send_packet f (14 + len) (s1\<lparr>mem := m\<rparr>) = Inr s2" "free f s2 = Inr s'"
    using assms(1) m by (auto simp: ethernet_send_packet_def Let_def get_mac_addr_def bindE_eq_Inr)
  then show ?thesis using send_card_ok upd driver_free driver_same_ok by blast
qed

lemma advance_card_ok: "card_ok s \<Longrightarrow> card_ok (advance_packet_ptr n s)"
proof -
  have "(x AND NOT 3) AND 3 = (0 :: u32)" for x
    by (rule bit_word_eqI) (auto simp: bit_simps)
  moreover have "(y - 8192) AND 3 = y AND 3" for y :: u32
  proof -
    have low: "uint (w AND 3) = uint w mod 4" for w :: u32
    proof -
      have "w AND 3 = take_bit 2 w" by (simp add: take_bit_eq_mask mask_eq_exp_minus_1)
      then show ?thesis by (simp add: unsigned_take_bit_eq take_bit_int_def)
    qed
    have "uint (y - 8192) mod 4 = ((uint y - 8192) mod 2 ^ 32) mod 4" by (simp add: uint_word_ariths)
    also have "\<dots> = (uint y - 8192) mod 4" by (rule mod_mod_cancel) simp
    also have "\<dots> = uint y mod 4" by presburger
    finally show ?thesis by (intro word_uint_eqI) (simp only: low)
  qed
  ultimately show "card_ok s \<Longrightarrow> card_ok (advance_packet_ptr n s)"
    by (auto simp: advance_packet_ptr_def Let_def card_ok_def)
qed

lemma receive_card_ok:
  fixes s :: "'s net_scheme"
  assumes "receive_packet s = Inr s'" and "card_ok s"
  shows "card_ok s'"
proof -
  let ?n = "load16 (mem s) (rx_buffer s + current_packet_ptr s + 2)"
  obtain p s1 where m: "malloc (ucast ?n) s = Inr (p, s1)"
    using assms(1) by (auto simp: receive_packet_def Let_def bindE_eq_Inr)
  let ?s2 = "s1\<lparr>mem := memcpy (mem s1) p (rx_buffer s + current_packet_ptr s + 4) (ucast ?n)\<rparr>"
  obtain s3 where h: "ethernet_handle_packet p (ucast ?n) ?s2 = Inr s3"
    using assms(1) m by (cases "ethernet_handle_packet p (ucast ?n) ?s2") (auto simp: receive_packet_def Let_def)
  have s': "\<exists>l. s' = (advance_packet_ptr (ucast ?n) s3)\<lparr>iolog := l\<rparr>"
    using assms(1) by (auto simp: receive_packet_def Let_def m h)
  have "driver_same ?s2 s3"
    using h by (auto simp: ethernet_handle_packet_def Let_def bindE_eq_Inr split: if_splits
        dest!: driver_printf driver_free elim: driver_same_trans)
  then have "driver_same s s3" using driver_malloc [OF m] by (simp add: driver_same_def)
  then have "card_ok (advance_packet_ptr (ucast ?n) s3)" using assms(2) driver_same_ok advance_card_ok by blast
  then show ?thesis using s' by (auto simp: card_ok_def)
qed

lemma handler_card_ok:
  fixes s :: "'s net_scheme"
  assumes "rtl8139_handler d reg s = Inr s'" and "card_ok s"
  shows "card_ok s'"
proof -
  have upd: "card_ok (t\<lparr>iolog := l\<rparr>) = card_ok t" for t :: "'s net_scheme" and l by (simp add: card_ok_def)
  let ?st = "dev16 d (iolog s) (io_base s + 0x3e)" and ?s = "s\<lparr>iolog := iolog s @ [Inw (io_base s + 0x3e)]\<rparr>"
  obtain s1 s2 where h: "(if ?st AND 4 \<noteq> 0 then printf (lit ''Packet sent'' @ [10]) [] ?s else Inr ?s) = Inr s1"
    "(if ?st AND 1 \<noteq> 0 then receive_packet s1 else Inr s1) = Inr s2" "\<exists>l. s' = s2\<lparr>iolog := l\<rparr>"
    using assms(1) by (auto simp: rtl8139_handler_def Let_def inw_def bindE_eq_Inr)
  have "card_ok s1"
  proof (cases "?st AND 4 = 0")
    case False
    then have "driver_same ?s s1" using h(1) driver_printf by auto
    then show ?thesis using driver_same_ok assms(2) upd by blast
  qed (use h(1) assms(2) upd in auto)
  then have "card_ok s2" using h(2) receive_card_ok by (auto split: if_splits)
  then show ?thesis using h(3) upd by auto
qed

text \<open>
  The search for the device: \<open>leads P r\<close> says that if \<open>r\<close> is a result, \<open>P\<close> holds of it; the rules
  follow the sequence of the calls.
\<close>

definition leads :: "('a \<Rightarrow> bool) \<Rightarrow> 'a res \<Rightarrow> bool" where
  "leads P r \<longleftrightarrow> (\<forall>y. r = Inr y \<longrightarrow> P y)"

lemma leads_simps: "leads P (Inr y) = P y" "leads P (Inl e)"
  by (simp_all add: leads_def)

lemma leads_bind2:
  "leads (\<lambda>(t, s'). driver_same s s') r \<Longrightarrow> (\<And>t s'. driver_same s s' \<Longrightarrow> leads P (g t s')) \<Longrightarrow>
   leads P (bindE r (\<lambda>(t, s'). g t s'))"
  by (fastforce simp: leads_def bindE_eq_Inr)

lemma leads_bind1:
  "leads (driver_same s) r \<Longrightarrow> (\<And>s'. driver_same s s' \<Longrightarrow> leads P (g s')) \<Longrightarrow> leads P (bindE r g)"
  by (fastforce simp: leads_def bindE_eq_Inr)

lemma leads_if: "(b \<Longrightarrow> leads P r) \<Longrightarrow> (\<not> b \<Longrightarrow> leads P q) \<Longrightarrow> leads P (if b then r else q)"
  by simp

lemma leads_ret: "driver_same s s' \<Longrightarrow> leads (\<lambda>(t, s'). driver_same s s') (Inr (t, s'))" "driver_same s s' \<Longrightarrow> leads (driver_same s) (Inr s')"
  by (simp_all add: leads_simps)

lemma leads_read: "driver_same s s1 \<Longrightarrow> leads (\<lambda>(t, s'). driver_same s s') (pci_read d dev fld s1)"
  by (auto simp: leads_def dest!: driver_pci_read elim: driver_same_trans)

lemma leads_printf: "driver_same s s1 \<Longrightarrow> leads (driver_same s) (printf fmt args s1)"
  by (auto simp: leads_def dest!: driver_printf elim: driver_same_trans)

lemma leads_type: "driver_same s s1 \<Longrightarrow> leads (\<lambda>(t, s'). driver_same s s') (get_device_type d dev s1)"
  unfolding get_device_type_def by (intro leads_bind2 [where s = s] leads_read leads_ret)

definition driver_frame :: "('a \<Rightarrow> 's net_scheme \<Rightarrow> (u32 \<times> 's net_scheme) res) \<Rightarrow> bool" where
  "driver_frame f \<longleftrightarrow> (\<forall>x s s1. driver_same s s1 \<longrightarrow> leads (\<lambda>(t, s'). driver_same s s') (f x s1))"

lemma driver_frameD: "driver_frame f \<Longrightarrow> driver_same s s1 \<Longrightarrow> leads (\<lambda>(t, s'). driver_same s s') (f x s1)"
  by (simp add: driver_frame_def)

lemma leads_scan_function:
  assumes "driver_frame scan" and "driver_same s s1"
  shows "leads (\<lambda>(t, s'). driver_same s s') (pci_scan_function scan d v i bus device f ty s1)"
  unfolding pci_scan_function_def Let_def get_secondary_bus_def
  by (intro leads_bind2 [where s = s] leads_bind1 [where s = s] leads_if leads_type leads_read leads_ret
      driver_frameD [OF assms(1)] assms(2); assumption?)

lemma leads_try_each: "driver_frame f \<Longrightarrow> driver_same s s1 \<Longrightarrow> leads (\<lambda>(t, s'). driver_same s s') (try_each f xs s1)"
proof (induction xs arbitrary: s1)
  case (Cons x xs)
  show ?case
    unfolding try_each.simps
    by (intro leads_bind2 [where s = s] leads_if leads_ret driver_frameD [OF Cons.prems(1)] Cons.prems(2) Cons.IH [OF Cons.prems(1)])
qed (simp add: leads_simps)

lemma leads_scan_device:
  assumes "driver_frame scan" and "driver_same s s1"
  shows "leads (\<lambda>(t, s'). driver_same s s') (pci_scan_device scan d v i bus device ty s1)"
proof -
  let ?dev = "set_device_num device (set_bus_num bus 0)"
  have "driver_frame (\<lambda>fn s4. bindE (pci_read d ?dev PCI_VENDOR_ID s4) (\<lambda>(v', s5).
      if v' \<noteq> PCI_NONE then pci_scan_function scan d v i bus device fn ty s5 else Inr (0, s5)))"
    unfolding driver_frame_def
    by (intro allI impI, rule leads_bind2, erule leads_read) (intro leads_if leads_ret leads_scan_function [OF assms(1)])
  then show ?thesis
    unfolding pci_scan_device_def Let_def pci_reach_end_def
    by (intro leads_bind2 [where s = s] leads_if leads_ret leads_read leads_try_each leads_scan_function [OF assms(1)] assms(2))
qed

lemma driver_scan_bus: "driver_frame (\<lambda>b (s :: 's net_scheme). pci_scan_bus depth d v i b ty s)"
proof (induction depth)
  case 0
  then show ?case by (simp add: driver_frame_def leads_simps)
next
  case (Suc depth)
  have step: "driver_frame (\<lambda>device (s :: 's net_scheme). pci_scan_device (\<lambda>b. pci_scan_bus depth d v i b ty) d v i bus device ty s)" for bus
    unfolding driver_frame_def by (intro allI impI leads_scan_device [OF Suc.IH])
  show ?case unfolding driver_frame_def pci_scan_bus.simps by (intro allI impI leads_try_each [OF step])
qed

lemma leads_get_loop: "driver_same s s1 \<Longrightarrow> leads (\<lambda>(t, s'). driver_same s s') (get_device_loop depth d v i ty fs s1)"
proof (induction fs arbitrary: s1)
  case (Cons f fs)
  show ?case
    unfolding get_device_loop.simps
    by (intro leads_bind2 [where s = s] leads_if leads_ret leads_read driver_frameD [OF driver_scan_bus] Cons)
qed (simp add: leads_simps)

lemma leads_get_device:
  "driver_same s s1 \<Longrightarrow> leads (\<lambda>(t, s'). driver_same s s') (pci_get_device depth d v i ty s1)"
  unfolding pci_get_device_def pci_reach_end_def
  by (intro leads_bind2 [where s = s] leads_bind1 [where s = s] leads_if leads_ret leads_read leads_printf leads_get_loop
      driver_frameD [OF driver_scan_bus])

text \<open>\<open>rtl8139_init\<close> needs only the receive pointer: it sets the index and reads the address itself.\<close>

definition init_ok :: "'s net_scheme \<Rightarrow> bool" where
  "init_ok s \<longleftrightarrow> tx_cur s < 4 \<and> current_packet_ptr s AND 3 = 0"

lemma leads_bind_init:
  "leads (\<lambda>(t, s'). init_ok s') r \<Longrightarrow> (\<And>t s'. init_ok s' \<Longrightarrow> leads P (g t s')) \<Longrightarrow> leads P (bindE r (\<lambda>(t, s'). g t s'))"
  by (fastforce simp: leads_def bindE_eq_Inr)

lemma leads_bind_log: "(\<And>l. leads P (g l)) \<Longrightarrow> leads P (bindE r g)"
  by (auto simp: leads_def bindE_eq_Inr)

lemma init_ok_ops: "init_ok s \<Longrightarrow> leads (\<lambda>(t, s'). init_ok s') (pci_read d dev fld s)"
  "init_ok s \<Longrightarrow> leads (\<lambda>(t, s'). init_ok s') (malloc sz s)"
  by (auto simp: leads_def init_ok_def driver_same_def dest!: driver_pci_read driver_malloc)

lemma init_card_ok:
  fixes s :: "'s net_scheme"
  assumes "rtl8139_init depth d h s = Inr s'" and "current_packet_ptr s AND 3 = 0"
  shows "card_ok s'"
proof -
  have upd: "init_ok (s\<lparr>iolog := l\<rparr>) = init_ok s" "init_ok (s\<lparr>mem := m\<rparr>) = init_ok s" "init_ok (s\<lparr>rx_buffer := p\<rparr>) = init_ok s"
    "init_ok (register_interrupt_handler n h s) = init_ok s"
    for s :: "'s net_scheme" and l m p n
    by (simp_all add: init_ok_def register_interrupt_handler_def)
  have wr: "init_ok (pci_write dev fld v s) = init_ok s" for s :: "'s net_scheme" and dev fld v
    by (simp add: pci_write_def Let_def init_ok_def)
  have mac: "init_ok s \<Longrightarrow> card_ok (read_mac_addr d s)" for s :: "'s net_scheme"
    by (simp add: init_ok_def card_ok_def read_mac_addr_def inl_def inw_def)
  have start: "init_ok (t\<lparr>bar_type := a, io_base := b, mem_base := c, tx_cur := 0\<rparr>)" if "driver_same s t" for t a b c
    using assms(2) that by (simp add: init_ok_def driver_same_def)
  have "leads card_ok (rtl8139_init depth d h s)"
    unfolding rtl8139_init_def Let_def
  proof (rule leads_bind2 [where s = s])
    show "leads (\<lambda>(t, s'). driver_same s s') (pci_get_device depth d RTL8139_VENDOR_ID RTL8139_DEVICE_ID (- 1) s)"
      by (rule leads_get_device) (simp add: driver_same_def)
  qed (rule leads_bind2 [where s = s], rule leads_read, simp add: driver_same_def,
      intro leads_bind_init leads_bind_log init_ok_ops,
      auto simp: leads_simps upd wr mac start)
  then show ?thesis using assms(1) by (simp add: leads_def)
qed



section \<open>The interrupt line of the card\<close>

text \<open>
  \<^verbatim>\<open>rtl8139_init\<close> hands \<^verbatim>\<open>enable_irq\<close> the number of the interrupt vector, where \<^verbatim>\<open>enable_irq\<close>
  expects the number of the line: for the lines 0 to 7 the mask is read and written back unchanged.
\<close>

lemma rtl8139_line_stays_masked:
  assumes "irq_num < 8"
  shows "enable_irq d (ucast (32 + irq_num :: u32)) l = l @ [Inb 0xA1, Outb 0xA1 (dev8 d l 0xA1)]"
proof -
  have "unat irq_num < 8" using assms by (simp add: word_less_nat_alt)
  then obtain n where n: "n < 8" "irq_num = of_nat n" by (metis of_nat_unat ucast_id)
  have keep: "ucast ((ucast (v :: u8) :: u32) AND NOT (push_bit k 1)) = v" if "8 \<le> k" for v k
    using that by (intro bit_word_eqI) (auto simp: bit_simps)
  from n have "n = 0 \<or> n = 1 \<or> n = 2 \<or> n = 3 \<or> n = 4 \<or> n = 5 \<or> n = 6 \<or> n = 7" by linarith
  then show ?thesis
    unfolding n(2) by (elim disjE) (simp_all add: enable_irq_def irq_line_def inb_def outb_def keep [of 24, simplified] keep [of 25, simplified] keep [of 26, simplified] keep [of 27, simplified] keep [of 28, simplified] keep [of 29, simplified] keep [of 30, simplified] keep [of 31, simplified])
qed

end
