(* ===== verification/Lc3.thy ===== *)
theory Lc3
  imports Prelude
begin

text \<open>
  The LC-3 virtual machine of \<^verbatim>\<open>src/sample/lc3\<close> (the implementation is in \<^verbatim>\<open>vm.h\<close>, the
  declarations in \<^verbatim>\<open>vm.c\<close>): memory-mapped devices, the loader of object files, one definition
  per instruction and the run loop. \<open>instr\<close>, \<open>encode\<close> and \<open>exec\<close> give the instruction set
  itself, without bit fields, and \<open>runs\<close> the runs of the machine as an inductive relation; the
  interpreter is compared with both. An access outside the array \<^verbatim>\<open>mem\<close> and a failed \<^verbatim>\<open>assert\<close>
  are results of their own; calls of the host's library are logged and their results are a
  parameter.
\<close>

section \<open>Types and constants\<close>

text \<open>
  What the host does is a parameter: \<open>host_select\<close> tells whether \<^verbatim>\<open>select\<close> on the standard input
  returns a nonzero value and \<open>host_getchar\<close> what \<^verbatim>\<open>getchar\<close> delivers, each from the calls made so far.
\<close>

datatype host_event = Select | Getchar | Putchar u8

record host =
  host_select :: "host_event list \<Rightarrow> bool"
  host_getchar :: "host_event list \<Rightarrow> u32"

datatype vm_fault = Out_of_bounds | Assert_failed

datatype vm_load_result = VM_LOAD_SUCCESS | VM_LOAD_INPUT_NOT_FOUND | VM_LOAD_INPUT_TOO_LARGE

datatype vm_run_result = VM_RUN_SUCCESS | VM_RUN_UNIMPLEMENTED_OPCODE

abbreviation (input) VM_ADDR_MAX :: nat where "VM_ADDR_MAX \<equiv> 65535"
abbreviation (input) VM_ADDR_INITIAL :: u16 where "VM_ADDR_INITIAL \<equiv> 0x3000"
abbreviation (input) VM_SIGN_BIT :: u16 where "VM_SIGN_BIT \<equiv> 0x8000"
abbreviation (input) VM_STATUS_BIT :: u16 where "VM_STATUS_BIT \<equiv> 0x8000"

abbreviation (input) VM_OPCODE_ADD :: u16 where "VM_OPCODE_ADD \<equiv> 1"
abbreviation (input) VM_OPCODE_AND :: u16 where "VM_OPCODE_AND \<equiv> 5"
abbreviation (input) VM_OPCODE_BR :: u16 where "VM_OPCODE_BR \<equiv> 0"
abbreviation (input) VM_OPCODE_JMP :: u16 where "VM_OPCODE_JMP \<equiv> 12"
abbreviation (input) VM_OPCODE_JSR :: u16 where "VM_OPCODE_JSR \<equiv> 4"
abbreviation (input) VM_OPCODE_LD :: u16 where "VM_OPCODE_LD \<equiv> 2"
abbreviation (input) VM_OPCODE_LDI :: u16 where "VM_OPCODE_LDI \<equiv> 10"
abbreviation (input) VM_OPCODE_LDR :: u16 where "VM_OPCODE_LDR \<equiv> 6"
abbreviation (input) VM_OPCODE_LEA :: u16 where "VM_OPCODE_LEA \<equiv> 14"
abbreviation (input) VM_OPCODE_NOT :: u16 where "VM_OPCODE_NOT \<equiv> 9"
abbreviation (input) VM_OPCODE_RTI :: u16 where "VM_OPCODE_RTI \<equiv> 8"
abbreviation (input) VM_OPCODE_ST :: u16 where "VM_OPCODE_ST \<equiv> 3"
abbreviation (input) VM_OPCODE_STI :: u16 where "VM_OPCODE_STI \<equiv> 11"
abbreviation (input) VM_OPCODE_STR :: u16 where "VM_OPCODE_STR \<equiv> 7"
abbreviation (input) VM_OPCODE_TRAP :: u16 where "VM_OPCODE_TRAP \<equiv> 15"

abbreviation (input) VM_ADDR_KBSR :: u16 where "VM_ADDR_KBSR \<equiv> 0xfe00"
abbreviation (input) VM_ADDR_KBDR :: u16 where "VM_ADDR_KBDR \<equiv> 0xfe02"
abbreviation (input) VM_ADDR_DSR :: u16 where "VM_ADDR_DSR \<equiv> 0xfe04"
abbreviation (input) VM_ADDR_DDR :: u16 where "VM_ADDR_DDR \<equiv> 0xfe06"
abbreviation (input) VM_ADDR_MCR :: u16 where "VM_ADDR_MCR \<equiv> 0xfffe"

abbreviation (input) VM_REG_PC :: u16 where "VM_REG_PC \<equiv> 8"
abbreviation (input) VM_REG_PSR :: u16 where "VM_REG_PSR \<equiv> 9"

abbreviation (input) VM_FLAG_NEGATIVE :: u16 where "VM_FLAG_NEGATIVE \<equiv> 4"
abbreviation (input) VM_FLAG_ZERO :: u16 where "VM_FLAG_ZERO \<equiv> 2"
abbreviation (input) VM_FLAG_POSITIVE :: u16 where "VM_FLAG_POSITIVE \<equiv> 1"

text \<open>The registers are indexed by the value of \<^verbatim>\<open>vm_reg\<close>; \<open>vm_log\<close> lists the calls to the host.\<close>

record vm_impl =
  vm_mem :: "u16 \<Rightarrow> u16"
  vm_reg :: "u16 \<Rightarrow> u16"
  vm_log :: "host_event list"

type_synonym 'a vm_res = "vm_fault + 'a"

definition and_then :: "'a vm_res \<Rightarrow> ('a \<Rightarrow> 'b vm_res) \<Rightarrow> 'b vm_res" where
  "and_then x f = (case x of Inl e \<Rightarrow> Inl e | Inr y \<Rightarrow> f y)"

lemma and_then_simps [simp]: "and_then (Inl e) f = Inl e" "and_then (Inr y) f = f y"
  by (simp_all add: and_then_def)

section \<open>Helpers\<close>

definition swap16 :: "u16 \<Rightarrow> u16" where
  "swap16 val = push_bit 8 val OR drop_bit 8 val"

definition sextend :: "u16 \<Rightarrow> nat \<Rightarrow> u16" where
  "sextend val n = (let m = push_bit (n - 1) 1; v = val AND (push_bit n 1 - 1) in (v XOR m) - m)"

section \<open>Creation\<close>

definition vm_create :: vm_impl where
  "vm_create = \<lparr>vm_mem = (\<lambda>_. 0)(VM_ADDR_MCR := VM_STATUS_BIT),
     vm_reg = (\<lambda>_. 0)(VM_REG_PC := VM_ADDR_INITIAL, VM_REG_PSR := VM_FLAG_ZERO), vm_log = []\<rparr>"

section \<open>Memory\<close>

text \<open>The array \<^verbatim>\<open>mem\<close> has \<^verbatim>\<open>VM_ADDR_MAX\<close> elements, so that its last valid index is 0xfffe.\<close>

definition mem_get :: "u16 \<Rightarrow> vm_impl \<Rightarrow> u16 vm_res" where
  "mem_get addr vm = (if unat addr < VM_ADDR_MAX then Inr (vm_mem vm addr) else Inl Out_of_bounds)"

definition mem_set :: "u16 \<Rightarrow> u16 \<Rightarrow> vm_impl \<Rightarrow> vm_impl vm_res" where
  "mem_set addr val vm =
     (if unat addr < VM_ADDR_MAX then Inr (vm\<lparr>vm_mem := (vm_mem vm)(addr := val)\<rparr>) else Inl Out_of_bounds)"

definition vm_select :: "host \<Rightarrow> vm_impl \<Rightarrow> u16 \<times> vm_impl" where
  "vm_select h vm = (if host_select h (vm_log vm) then VM_STATUS_BIT else 0, vm\<lparr>vm_log := vm_log vm @ [Select]\<rparr>)"

definition vm_getchar :: "host \<Rightarrow> vm_impl \<Rightarrow> u16 \<times> vm_impl" where
  "vm_getchar h vm = (ucast (host_getchar h (vm_log vm)), vm\<lparr>vm_log := vm_log vm @ [Getchar]\<rparr>)"

definition vm_read :: "host \<Rightarrow> u16 \<Rightarrow> vm_impl \<Rightarrow> (u16 \<times> vm_impl) vm_res" where
  "vm_read h addr vm =
     (if addr = VM_ADDR_KBSR then Inr (vm_select h vm)
      else if addr = VM_ADDR_KBDR
      then (let (v, vm1) = vm_select h vm in if v \<noteq> 0 then Inr (vm_getchar h vm1) else Inr (0, vm1))
      else if addr = VM_ADDR_DSR then Inr (VM_STATUS_BIT, vm)
      else if addr = VM_ADDR_DDR then Inr (0, vm)
      else and_then (mem_get addr vm) (\<lambda>v. Inr (v, vm)))"

definition vm_write :: "u16 \<Rightarrow> u16 \<Rightarrow> vm_impl \<Rightarrow> vm_impl vm_res" where
  "vm_write addr val vm =
     (if addr = VM_ADDR_KBSR \<or> addr = VM_ADDR_KBDR \<or> addr = VM_ADDR_DSR then Inr vm
      else if addr = VM_ADDR_DDR then Inr (vm\<lparr>vm_log := vm_log vm @ [Putchar (ucast val)]\<rparr>)
      else mem_set addr val vm)"

section \<open>Loading\<close>

text \<open>The data is the bytes of the file; \<^verbatim>\<open>size_t\<close> has 64 bits. A 16-bit read is little-endian.\<close>

definition data16 :: "u8 list \<Rightarrow> nat \<Rightarrow> u16 vm_res" where
  "data16 data i =
     (if i + 1 < length data then Inr (ucast (data ! i) OR push_bit 8 (ucast (data ! (i + 1)))) else Inl Out_of_bounds)"

fun load_words :: "u8 list \<Rightarrow> nat \<Rightarrow> nat \<Rightarrow> u16 \<Rightarrow> vm_impl \<Rightarrow> vm_impl vm_res" where
  "load_words data i 0 dest vm = Inr vm"
| "load_words data i (Suc n) dest vm =
     and_then (data16 data i) (\<lambda>w.
     and_then (mem_set dest (swap16 w) vm) (\<lambda>vm1. load_words data (i + 2) n (dest + 1) vm1))"

definition vm_load_data :: "u8 list \<Rightarrow> vm_impl \<Rightarrow> (vm_load_result \<times> vm_impl) vm_res" where
  "vm_load_data data vm =
     and_then (data16 data 0) (\<lambda>w.
       let load_addr = swap16 w;
           load_length = (of_nat (length data) - 2) div 2 :: 64 word
       in if \<not> ucast load_addr + load_length < 65535 then Inl Assert_failed
          else if VM_ADDR_MAX \<le> unat load_addr + unat load_length then Inr (VM_LOAD_INPUT_TOO_LARGE, vm)
          else and_then (load_words data 2 (unat load_length) load_addr vm) (\<lambda>vm1.
                 Inr (VM_LOAD_SUCCESS, vm1\<lparr>vm_reg := (vm_reg vm1)(VM_REG_PC := load_addr)\<rparr>)))"

text \<open>The image of the operating system is not in the repository.\<close>

definition vm_load_os :: "u8 list \<Rightarrow> vm_impl \<Rightarrow> vm_impl vm_res" where
  "vm_load_os lc3os_obj vm =
     and_then (vm_load_data lc3os_obj vm) (\<lambda>(res, vm1). if res = VM_LOAD_SUCCESS then Inr vm1 else Inl Assert_failed)"

text \<open>The file is \<open>None\<close> when one of \<^verbatim>\<open>open\<close>, \<^verbatim>\<open>fstat\<close> and \<^verbatim>\<open>mmap\<close> fails.\<close>

definition vm_load_file :: "u8 list option \<Rightarrow> vm_impl \<Rightarrow> (vm_load_result \<times> vm_impl) vm_res" where
  "vm_load_file file vm =
     (case file of None \<Rightarrow> Inr (VM_LOAD_INPUT_NOT_FOUND, vm) | Some data \<Rightarrow> vm_load_data data vm)"

section \<open>Execution\<close>

definition vm_sign_flag :: "u16 \<Rightarrow> u16" where
  "vm_sign_flag val =
     (if val = 0 then VM_FLAG_ZERO else if val AND VM_SIGN_BIT \<noteq> 0 then VM_FLAG_NEGATIVE else VM_FLAG_POSITIVE)"

definition set_reg :: "u16 \<Rightarrow> u16 \<Rightarrow> vm_impl \<Rightarrow> vm_impl" where
  "set_reg r v vm = vm\<lparr>vm_reg := (vm_reg vm)(r := v)\<rparr>"

definition vm_setcc :: "u16 \<Rightarrow> vm_impl \<Rightarrow> vm_impl" where
  "vm_setcc r vm = set_reg VM_REG_PSR (vm_sign_flag (vm_reg vm r)) vm"

text \<open>The bit fields of an instruction: \<open>field3 k instr\<close> is \<^verbatim>\<open>(instr >> k) & 0b111\<close>.\<close>

definition field3 :: "nat \<Rightarrow> u16 \<Rightarrow> u16" where
  "field3 k instr = drop_bit k instr AND 7"

abbreviation (input) run_ok :: "vm_impl \<Rightarrow> (vm_run_result \<times> vm_impl) vm_res" where
  "run_ok vm \<equiv> Inr (VM_RUN_SUCCESS, vm)"

text \<open>One definition per case of the switch in \<^verbatim>\<open>vm_perform\<close>.\<close>

type_synonym vm_op = "u16 \<Rightarrow> vm_impl \<Rightarrow> (vm_run_result \<times> vm_impl) vm_res"

definition perform_ADD :: vm_op where
  "perform_ADD instr vm =
     (let dr = field3 9 instr; sr1 = field3 6 instr
      in if instr AND push_bit 5 1 \<noteq> 0
         then (let imm5 = sextend instr 5 in run_ok (vm_setcc dr (set_reg dr (vm_reg vm sr1 + imm5) vm)))
         else (let sr2 = instr AND 7 in run_ok (vm_setcc dr (set_reg dr (vm_reg vm sr1 + vm_reg vm sr2) vm))))"

definition perform_AND :: vm_op where
  "perform_AND instr vm =
     (let dr = field3 9 instr; sr1 = field3 6 instr
      in if instr AND push_bit 5 1 \<noteq> 0
         then (let imm5 = sextend instr 5 in run_ok (vm_setcc dr (set_reg dr (vm_reg vm sr1 AND imm5) vm)))
         else (let sr2 = instr AND 7 in run_ok (vm_setcc dr (set_reg dr (vm_reg vm sr1 AND vm_reg vm sr2) vm))))"

definition perform_BR :: vm_op where
  "perform_BR instr vm =
     (let current_nzp = vm_reg vm VM_REG_PSR AND 7;
          desired_nzp = field3 9 instr;
          pc_offset9 = sextend instr 9
      in if current_nzp AND desired_nzp \<noteq> 0
         then run_ok (set_reg VM_REG_PC (vm_reg vm VM_REG_PC + pc_offset9) vm)
         else run_ok vm)"

definition perform_JMP :: vm_op where
  "perform_JMP instr vm = (let baser = field3 6 instr in run_ok (set_reg VM_REG_PC (vm_reg vm baser) vm))"

definition perform_JSR :: vm_op where
  "perform_JSR instr vm =
     (let original_pc = vm_reg vm VM_REG_PC;
          vm1 = (if instr AND push_bit 11 1 \<noteq> 0
                 then (let pc_offset11 = sextend instr 11
                       in set_reg VM_REG_PC (vm_reg vm VM_REG_PC + pc_offset11) vm)
                 else (let baser_value = vm_reg vm (field3 6 instr) in set_reg VM_REG_PC baser_value vm))
      in run_ok (set_reg 7 original_pc vm1))"

definition perform_LD :: "host \<Rightarrow> vm_op" where
  "perform_LD h instr vm =
     (let dr = field3 9 instr; pc_offset9 = sextend instr 9
      in and_then (vm_read h (vm_reg vm VM_REG_PC + pc_offset9) vm) (\<lambda>(v, vm1).
           run_ok (vm_setcc dr (set_reg dr v vm1))))"

definition perform_LDI :: "host \<Rightarrow> vm_op" where
  "perform_LDI h instr vm =
     (let dr = field3 9 instr; pc_offset9 = sextend instr 9
      in and_then (vm_read h (vm_reg vm VM_REG_PC + pc_offset9) vm) (\<lambda>(a, vm1).
         and_then (vm_read h a vm1) (\<lambda>(v, vm2).
           run_ok (vm_setcc dr (set_reg dr v vm2)))))"

definition perform_LDR :: "host \<Rightarrow> vm_op" where
  "perform_LDR h instr vm =
     (let dr = field3 9 instr; baser = field3 6 instr; offset6 = sextend instr 6
      in and_then (vm_read h (vm_reg vm baser + offset6) vm) (\<lambda>(v, vm1).
           run_ok (vm_setcc dr (set_reg dr v vm1))))"

definition perform_LEA :: vm_op where
  "perform_LEA instr vm =
     (let dr = field3 9 instr; pc_offset9 = sextend instr 9
      in run_ok (vm_setcc dr (set_reg dr (vm_reg vm VM_REG_PC + pc_offset9) vm)))"

definition perform_NOT :: vm_op where
  "perform_NOT instr vm =
     (let dr = field3 9 instr; sr = field3 6 instr
      in run_ok (vm_setcc dr (set_reg dr (NOT (vm_reg vm sr)) vm)))"

definition perform_ST :: vm_op where
  "perform_ST instr vm =
     (let sr = field3 9 instr; pc_offset9 = sextend instr 9
      in and_then (vm_write (vm_reg vm VM_REG_PC + pc_offset9) (vm_reg vm sr) vm) (\<lambda>vm1. run_ok vm1))"

definition perform_STI :: "host \<Rightarrow> vm_op" where
  "perform_STI h instr vm =
     (let sr = field3 9 instr; pc_offset9 = sextend instr 9
      in and_then (vm_read h (vm_reg vm VM_REG_PC + pc_offset9) vm) (\<lambda>(a, vm1).
         and_then (vm_write a (vm_reg vm1 sr) vm1) (\<lambda>vm2. run_ok vm2)))"

definition perform_STR :: vm_op where
  "perform_STR instr vm =
     (let sr = field3 9 instr; baser = field3 6 instr; offset6 = sextend instr 6
      in and_then (vm_write (vm_reg vm baser + offset6) (vm_reg vm sr) vm) (\<lambda>vm1. run_ok vm1))"

definition perform_TRAP :: "host \<Rightarrow> vm_op" where
  "perform_TRAP h instr vm =
     (let trapvect8 = instr AND 0xff
      in if trapvect8 = 0x20
         then (let (c, vm1) = vm_getchar h vm in run_ok (set_reg 0 c vm1))
         else (let vm1 = set_reg 7 (vm_reg vm VM_REG_PC) vm
               in and_then (vm_read h trapvect8 vm1) (\<lambda>(v, vm2). run_ok (set_reg VM_REG_PC v vm2))))"

definition vm_perform :: "host \<Rightarrow> vm_op" where
  "vm_perform h instr vm =
     (let op = drop_bit 12 instr
      in if op = VM_OPCODE_ADD then perform_ADD instr vm
         else if op = VM_OPCODE_AND then perform_AND instr vm
         else if op = VM_OPCODE_BR then perform_BR instr vm
         else if op = VM_OPCODE_JMP then perform_JMP instr vm
         else if op = VM_OPCODE_JSR then perform_JSR instr vm
         else if op = VM_OPCODE_LD then perform_LD h instr vm
         else if op = VM_OPCODE_LDI then perform_LDI h instr vm
         else if op = VM_OPCODE_LDR then perform_LDR h instr vm
         else if op = VM_OPCODE_LEA then perform_LEA instr vm
         else if op = VM_OPCODE_NOT then perform_NOT instr vm
         else if op = VM_OPCODE_RTI then Inr (VM_RUN_UNIMPLEMENTED_OPCODE, vm)
         else if op = VM_OPCODE_ST then perform_ST instr vm
         else if op = VM_OPCODE_STI then perform_STI h instr vm
         else if op = VM_OPCODE_STR then perform_STR instr vm
         else if op = VM_OPCODE_TRAP then perform_TRAP h instr vm
         else Inr (VM_RUN_UNIMPLEMENTED_OPCODE, vm))"

text \<open>One turn of the loop of \<^verbatim>\<open>vm_run\<close>: \<open>None\<close> when the status bit of the machine control register is clear.\<close>

definition vm_cycle :: "host \<Rightarrow> vm_impl \<Rightarrow> (vm_run_result \<times> vm_impl) vm_res option" where
  "vm_cycle h vm =
     (case vm_read h VM_ADDR_MCR vm of
        Inl e \<Rightarrow> Some (Inl e)
      | Inr (mcr, vm1) \<Rightarrow>
          if mcr AND VM_STATUS_BIT = 0 then None
          else (let pc = vm_reg vm1 VM_REG_PC;
                    vm2 = set_reg VM_REG_PC (pc + 1) vm1
                in Some (and_then (vm_read h pc vm2) (\<lambda>(instr, vm3). vm_perform h instr vm3))))"

partial_function (option) vm_run :: "host \<Rightarrow> vm_impl \<Rightarrow> (vm_run_result \<times> vm_impl) vm_res option" where
  "vm_run h vm =
     (case vm_cycle h vm of
        None \<Rightarrow> Some (run_ok vm)
      | Some (Inl e) \<Rightarrow> Some (Inl e)
      | Some (Inr (res, vm1)) \<Rightarrow> if res = VM_RUN_SUCCESS then vm_run h vm1 else Some (Inr (res, vm1)))"

section \<open>The instruction set\<close>

text \<open>
  The instructions of the LC-3 with their operands, their 16-bit encoding and what each does,
  written without bit fields: a register operand has 3 bits, an immediate or an offset is a
  two's complement number of its own width.
\<close>

datatype instr =
    ADD "3 word" "3 word" "3 word" | ADDI "3 word" "3 word" "5 word"
  | ANDR "3 word" "3 word" "3 word" | ANDI "3 word" "3 word" "5 word"
  | BR "3 word" "9 word" | JMP "3 word" | JSR "11 word" | JSRR "3 word"
  | LD "3 word" "9 word" | LDI "3 word" "9 word" | LDR "3 word" "3 word" "6 word"
  | LEA "3 word" "9 word" | NOTR "3 word" "3 word" | RTI
  | ST "3 word" "9 word" | STI "3 word" "9 word" | STRB "3 word" "3 word" "6 word" | TRAP "8 word"

fun encode :: "instr \<Rightarrow> u16" where
  "encode (ADD d a b) = 0x1000 OR push_bit 9 (ucast d) OR push_bit 6 (ucast a) OR ucast b"
| "encode (ADDI d a i) = 0x1020 OR push_bit 9 (ucast d) OR push_bit 6 (ucast a) OR ucast i"
| "encode (ANDR d a b) = 0x5000 OR push_bit 9 (ucast d) OR push_bit 6 (ucast a) OR ucast b"
| "encode (ANDI d a i) = 0x5020 OR push_bit 9 (ucast d) OR push_bit 6 (ucast a) OR ucast i"
| "encode (BR c off) = push_bit 9 (ucast c) OR ucast off"
| "encode (JMP b) = 0xC000 OR push_bit 6 (ucast b)"
| "encode (JSR off) = 0x4800 OR ucast off"
| "encode (JSRR b) = 0x4000 OR push_bit 6 (ucast b)"
| "encode (LD d off) = 0x2000 OR push_bit 9 (ucast d) OR ucast off"
| "encode (LDI d off) = 0xA000 OR push_bit 9 (ucast d) OR ucast off"
| "encode (LDR d b off) = 0x6000 OR push_bit 9 (ucast d) OR push_bit 6 (ucast b) OR ucast off"
| "encode (LEA d off) = 0xE000 OR push_bit 9 (ucast d) OR ucast off"
| "encode (NOTR d a) = 0x903F OR push_bit 9 (ucast d) OR push_bit 6 (ucast a)"
| "encode RTI = 0x8000"
| "encode (ST r off) = 0x3000 OR push_bit 9 (ucast r) OR ucast off"
| "encode (STI r off) = 0xB000 OR push_bit 9 (ucast r) OR ucast off"
| "encode (STRB r b off) = 0x7000 OR push_bit 9 (ucast r) OR push_bit 6 (ucast b) OR ucast off"
| "encode (TRAP v) = 0xF000 OR ucast v"

definition reg :: "vm_impl \<Rightarrow> 3 word \<Rightarrow> u16" where
  "reg vm r = vm_reg vm (ucast r)"

definition result :: "3 word \<Rightarrow> u16 \<Rightarrow> vm_impl \<Rightarrow> vm_impl" where
  "result d v vm = vm\<lparr>vm_reg := (vm_reg vm)(ucast d := v,
     VM_REG_PSR := (if v = 0 then VM_FLAG_ZERO else if sint v < 0 then VM_FLAG_NEGATIVE else VM_FLAG_POSITIVE))\<rparr>"

definition jump :: "u16 \<Rightarrow> vm_impl \<Rightarrow> vm_impl" where
  "jump a vm = vm\<lparr>vm_reg := (vm_reg vm)(VM_REG_PC := a)\<rparr>"

definition link :: "u16 \<Rightarrow> vm_impl \<Rightarrow> vm_impl" where
  "link a vm = vm\<lparr>vm_reg := (vm_reg vm)(7 := a)\<rparr>"

abbreviation (input) pc_of :: "vm_impl \<Rightarrow> u16" where "pc_of vm \<equiv> vm_reg vm VM_REG_PC"

fun exec :: "host \<Rightarrow> instr \<Rightarrow> vm_impl \<Rightarrow> (vm_run_result \<times> vm_impl) vm_res" where
  "exec h (ADD d a b) vm = run_ok (result d (reg vm a + reg vm b) vm)"
| "exec h (ADDI d a i) vm = run_ok (result d (reg vm a + scast i) vm)"
| "exec h (ANDR d a b) vm = run_ok (result d (reg vm a AND reg vm b) vm)"
| "exec h (ANDI d a i) vm = run_ok (result d (reg vm a AND scast i) vm)"
| "exec h (BR c off) vm =
     run_ok (if \<exists>k < 3. bit c k \<and> bit (vm_reg vm VM_REG_PSR) k then jump (pc_of vm + scast off) vm else vm)"
| "exec h (JMP b) vm = run_ok (jump (reg vm b) vm)"
| "exec h (JSR off) vm = run_ok (link (pc_of vm) (jump (pc_of vm + scast off) vm))"
| "exec h (JSRR b) vm = run_ok (link (pc_of vm) (jump (reg vm b) vm))"
| "exec h (LD d off) vm = and_then (vm_read h (pc_of vm + scast off) vm) (\<lambda>(v, vm1). run_ok (result d v vm1))"
| "exec h (LDI d off) vm =
     and_then (vm_read h (pc_of vm + scast off) vm) (\<lambda>(a, vm1).
     and_then (vm_read h a vm1) (\<lambda>(v, vm2). run_ok (result d v vm2)))"
| "exec h (LDR d b off) vm = and_then (vm_read h (reg vm b + scast off) vm) (\<lambda>(v, vm1). run_ok (result d v vm1))"
| "exec h (LEA d off) vm = run_ok (result d (pc_of vm + scast off) vm)"
| "exec h (NOTR d a) vm = run_ok (result d (NOT (reg vm a)) vm)"
| "exec h RTI vm = Inr (VM_RUN_UNIMPLEMENTED_OPCODE, vm)"
| "exec h (ST r off) vm = and_then (vm_write (pc_of vm + scast off) (reg vm r) vm) (\<lambda>vm1. run_ok vm1)"
| "exec h (STI r off) vm =
     and_then (vm_read h (pc_of vm + scast off) vm) (\<lambda>(a, vm1).
     and_then (vm_write a (reg vm1 r) vm1) (\<lambda>vm2. run_ok vm2))"
| "exec h (STRB r b off) vm = and_then (vm_write (reg vm b + scast off) (reg vm r) vm) (\<lambda>vm1. run_ok vm1)"
| "exec h (TRAP v) vm =
     (if v = 0x20 then (let (c, vm1) = vm_getchar h vm in run_ok (set_reg 0 c vm1))
      else and_then (vm_read h (ucast v) (link (pc_of vm) vm)) (\<lambda>(a, vm1). run_ok (jump a vm1)))"

section \<open>Bit fields\<close>

lemma sextend_signed:
  assumes "0 < n" and "n \<le> 16"
  shows "sextend val n = signed_take_bit (n - 1) val"
proof -
  have mask: "push_bit n 1 - 1 = (mask n :: u16)" by (simp add: mask_eq_exp_minus_1 push_bit_eq_mult)
  have 1: "val AND mask n = take_bit n val" by (simp add: take_bit_eq_mask)
  obtain k where k: "n = Suc k" using assms(1) by (cases n) auto
  have "(take_bit (Suc k) val XOR push_bit k 1) - push_bit k 1 = signed_take_bit k val"
  proof (cases "bit val k")
    case True
    have "take_bit (Suc k) val XOR push_bit k 1 = take_bit k val"
      using True by (intro bit_word_eqI) (auto simp: bit_simps less_Suc_eq bit_1_iff)
    moreover have "take_bit k val + NOT (mask k) = take_bit k val OR NOT (mask k)"
      by (rule disjunctive_add) (auto simp: bit_simps)
    moreover have "- push_bit k 1 = (NOT (mask k) :: u16)" by (simp add: minus_exp_eq_not_mask push_bit_eq_mult)
    ultimately show ?thesis
      using True by (simp add: signed_take_bit_eq_if_negative diff_conv_add_uminus del: add_uminus_conv_diff)
  next
    case False
    then have "take_bit (Suc k) val = take_bit k val" by (intro bit_word_eqI) (auto simp: bit_simps less_Suc_eq)
    moreover have "take_bit k val XOR push_bit k 1 = take_bit k val OR push_bit k 1"
      by (rule bit_word_eqI) (auto simp: bit_simps bit_1_iff)
    moreover have "take_bit k val + push_bit k 1 = take_bit k val OR push_bit k 1"
      by (rule disjunctive_add) (auto simp: bit_simps bit_1_iff)
    ultimately show ?thesis using False by (metis add_diff_cancel_right' signed_take_bit_eq_if_positive)
  qed
  then show ?thesis unfolding sextend_def Let_def mask 1 by (simp add: k)
qed

lemma bit_lt: "bit (w :: 'a::len word) n \<Longrightarrow> n < LENGTH('a)"
  by (rule bit_imp_le_length)

lemma op_bits [simp]:
  "drop_bit 12 (push_bit 9 (ucast (d :: 3 word)) :: u16) = 0"
  "drop_bit 12 (push_bit 6 (ucast (d :: 3 word)) :: u16) = 0"
  "drop_bit 12 (ucast (d :: 3 word) :: u16) = 0" "drop_bit 12 (ucast (i :: 5 word) :: u16) = 0"
  "drop_bit 12 (ucast (j :: 6 word) :: u16) = 0" "drop_bit 12 (ucast (v :: 8 word) :: u16) = 0"
  "drop_bit 12 (ucast (f :: 9 word) :: u16) = 0" "drop_bit 12 (ucast (k :: 11 word) :: u16) = 0"
  by (rule bit_word_eqI; auto simp: bit_simps dest!: bit_lt)+

lemma op_of:
  "drop_bit 12 (encode (ADD d a b)) = 1" "drop_bit 12 (encode (ADDI d a i)) = 1"
  "drop_bit 12 (encode (ANDR d a b)) = 5" "drop_bit 12 (encode (ANDI d a i)) = 5"
  "drop_bit 12 (encode (BR d f)) = 0" "drop_bit 12 (encode (JMP a)) = 12"
  "drop_bit 12 (encode (JSR k)) = 4" "drop_bit 12 (encode (JSRR a)) = 4"
  "drop_bit 12 (encode (LD d f)) = 2" "drop_bit 12 (encode (LDI d f)) = 10"
  "drop_bit 12 (encode (LDR d a j)) = 6" "drop_bit 12 (encode (LEA d f)) = 14"
  "drop_bit 12 (encode (NOTR d a)) = 9" "drop_bit 12 (encode RTI) = 8"
  "drop_bit 12 (encode (ST d f)) = 3" "drop_bit 12 (encode (STI d f)) = 11"
  "drop_bit 12 (encode (STRB d a j)) = 7" "drop_bit 12 (encode (TRAP v)) = 15"
  by simp_all

text \<open>The operands come back out of the encoding; the opcode bits and the neighbours vanish under the masks.\<close>

lemma field3_take_bit: "field3 k w = take_bit 3 (drop_bit k w)"
  by (simp add: field3_def take_bit_eq_mask mask_eq_exp_minus_1)

lemma field3_or [simp]: "field3 k (x OR y) = field3 k x OR field3 k y"
  by (simp add: field3_take_bit drop_bit_or)

lemma field3_parts [simp]:
  "field3 9 (push_bit 9 (ucast (d :: 3 word))) = ucast d" "field3 6 (push_bit 6 (ucast d)) = ucast d"
  "field3 9 (push_bit 6 (ucast (d :: 3 word))) = 0" "field3 6 (push_bit 9 (ucast (d :: 3 word))) = 0"
  "field3 9 (ucast (i :: 5 word)) = 0" "field3 6 (ucast i) = 0" "field3 9 (ucast (j :: 6 word)) = 0" "field3 6 (ucast j) = 0"
  "field3 9 (ucast (f :: 9 word)) = 0" "field3 9 (ucast (d :: 3 word)) = 0" "field3 6 (ucast (d :: 3 word)) = 0"
  by (rule bit_word_eqI; auto simp: field3_take_bit bit_simps dest: bit_lt)+

lemma field3_opcode [simp]:
  "field3 9 0x1000 = 0" "field3 6 0x1000 = 0" "field3 9 0x1020 = 0" "field3 6 0x1020 = 0"
  "field3 9 0x5000 = 0" "field3 6 0x5000 = 0" "field3 9 0x5020 = 0" "field3 6 0x5020 = 0"
  "field3 6 0xC000 = 0" "field3 6 0x4000 = 0" "field3 9 0x2000 = 0" "field3 9 0xA000 = 0"
  "field3 9 0x6000 = 0" "field3 6 0x6000 = 0" "field3 9 0xE000 = 0" "field3 9 0x903F = 0" "field3 6 0x903F = 0"
  "field3 9 0x3000 = 0" "field3 9 0xB000 = 0" "field3 9 0x7000 = 0" "field3 6 0x7000 = 0"
  by (simp_all add: field3_def)

lemma low3: "(w :: u16) AND 7 = take_bit 3 w"
  by (simp add: take_bit_eq_mask mask_eq_exp_minus_1)

lemma low8: "(w :: u16) AND 255 = take_bit 8 w"
  by (simp add: take_bit_eq_mask mask_eq_exp_minus_1)

lemma take_bit_parts [simp]:
  "take_bit 3 (push_bit 9 (ucast (d :: 3 word)) :: u16) = 0" "take_bit 3 (push_bit 6 (ucast (d :: 3 word)) :: u16) = 0"
  "take_bit 5 (push_bit 9 (ucast (d :: 3 word)) :: u16) = 0" "take_bit 5 (push_bit 6 (ucast (d :: 3 word)) :: u16) = 0"
  "take_bit 6 (push_bit 9 (ucast (d :: 3 word)) :: u16) = 0" "take_bit 6 (push_bit 6 (ucast (d :: 3 word)) :: u16) = 0"
  "take_bit 9 (push_bit 9 (ucast (d :: 3 word)) :: u16) = 0"
  by (rule bit_word_eqI; auto simp: bit_simps)+

lemma take_bit_ucast_same [simp]: "take_bit LENGTH('a) (ucast (w :: 'a::len word) :: u16) = ucast w"
  by (rule bit_word_eqI) (auto simp: bit_simps dest: bit_lt)

lemmas take_bit_operand [simp] =
  take_bit_ucast_same [where 'a = 3, simplified] take_bit_ucast_same [where 'a = 5, simplified]
  take_bit_ucast_same [where 'a = 6, simplified] take_bit_ucast_same [where 'a = 8, simplified]
  take_bit_ucast_same [where 'a = 9, simplified] take_bit_ucast_same [where 'a = 11, simplified]

lemma sextend_scast:
  fixes i :: "'a::len word"
  assumes "take_bit LENGTH('a) x = ucast i" and "LENGTH('a) \<le> 16"
  shows "sextend x LENGTH('a) = scast i"
proof -
  have b: "bit x k = bit i k" if "k < LENGTH('a)" for k
    using arg_cong [OF assms(1), of "\<lambda>w. bit w k"] that assms(2) by (simp add: bit_simps)
  show ?thesis
    unfolding sextend_signed [OF len_gt_0 assms(2)]
    by (rule bit_word_eqI) (auto simp: bit_simps b min_def)
qed

lemmas sextend_operand =
  sextend_scast [where 'a = 5, simplified] sextend_scast [where 'a = 6, simplified]
  sextend_scast [where 'a = 9, simplified] sextend_scast [where 'a = 11, simplified]

lemma flag_parts:
  "push_bit 9 (ucast (d :: 3 word)) AND push_bit 5 1 = (0 :: u16)" "push_bit 6 (ucast (d :: 3 word)) AND push_bit 5 1 = (0 :: u16)"
  "ucast (d :: 3 word) AND push_bit 5 1 = (0 :: u16)" "ucast (i :: 5 word) AND push_bit 5 1 = (0 :: u16)"
  "push_bit 6 (ucast (d :: 3 word)) AND push_bit 11 1 = (0 :: u16)" "ucast (k :: 11 word) AND push_bit 11 1 = (0 :: u16)"
  by (rule bit_word_eqI; auto simp: bit_simps dest: bit_lt simp del: push_bit_of_1 push_bit_numeral)+

lemmas flag_simps = flag_parts [simplified]

lemma and_or_distrib: "(x OR y) AND z = (x AND z) OR (y AND z :: u16)"
  by (rule bit.conj_disj_distrib2)

lemma sign_flag: "vm_sign_flag v = (if v = 0 then 2 else if sint v < 0 then 4 else 1)"
proof -
  have "v AND 0x8000 = 0 \<longleftrightarrow> \<not> bit v 15"
    using and_exp_eq_0_iff_not_bit [of v 15] by simp
  also have "\<dots> \<longleftrightarrow> \<not> sint v < 0" using bit_last_iff [of v] by simp
  finally show ?thesis by (simp add: vm_sign_flag_def)
qed

lemma setcc_result: "vm_setcc (ucast d) (set_reg (ucast d) v vm) = result d v vm"
  by (simp add: vm_setcc_def set_reg_def result_def sign_flag)

lemma nzp_test: "take_bit 3 psr AND ucast (c :: 3 word) \<noteq> (0 :: u16) \<longleftrightarrow> (\<exists>k < 3. bit c k \<and> bit psr k)"
proof -
  have "bit (take_bit 3 psr AND ucast c :: u16) k \<longleftrightarrow> k < 3 \<and> bit c k \<and> bit psr k" for k
    by (auto simp: bit_simps dest: bit_lt)
  moreover have "w \<noteq> 0 \<longleftrightarrow> (\<exists>k. bit w k)" for w :: u16 by (metis bit_0_eq bit_word_eqI bot_apply bot_bool_def)
  ultimately show ?thesis by auto
qed

lemma operands:
  "sextend (encode (ADDI d a x)) 5 = scast x" "sextend (encode (ANDI d a x)) 5 = scast x"
  "sextend (encode (BR c off)) 9 = scast off" "sextend (encode (LD d off)) 9 = scast off"
  "sextend (encode (LDI d off)) 9 = scast off" "sextend (encode (LEA d off)) 9 = scast off"
  "sextend (encode (ST d off)) 9 = scast off" "sextend (encode (STI d off)) 9 = scast off"
  "sextend (encode (LDR d b y)) 6 = scast y" "sextend (encode (STRB d b y)) 6 = scast y"
  "sextend (encode (JSR z)) 11 = scast z"
  by (rule sextend_operand; simp add: take_bit_or)+

lemma vector8: "take_bit 8 (encode (TRAP v)) = ucast v"
  by (simp add: take_bit_or)

lemmas perform_defs = perform_ADD_def perform_AND_def perform_BR_def perform_JMP_def perform_JSR_def perform_LD_def
  perform_LDI_def perform_LDR_def perform_LEA_def perform_NOT_def perform_ST_def perform_STI_def perform_STR_def
  perform_TRAP_def

lemma trap_0x20: "ucast (v :: 8 word) = (0x20 :: u16) \<longleftrightarrow> v = 0x20"
proof
  assume "ucast v = (0x20 :: u16)"
  then have "unat (ucast v :: u16) = 32" by simp
  moreover have "unat v < 256" using unsigned_less [of v] by simp
  then have "unat (ucast v :: u16) = unat v" by (simp add: unsigned_ucast_eq take_bit_nat_eq_self)
  ultimately show "v = 0x20" by (simp add: word_unat_eq_iff)
qed simp

lemma perform_encoded: "vm_perform h (encode i) vm = exec h i vm"
proof (cases i)
  case (BR c off)
  show ?thesis
    unfolding BR vm_perform_def Let_def op_of
    by (auto simp: perform_BR_def low3 nzp_test jump_def set_reg_def operands [simplified])
next
  case (TRAP v)
  show ?thesis
    unfolding TRAP vm_perform_def Let_def op_of
    by (simp add: perform_TRAP_def low8 vector8 [simplified] trap_0x20 jump_def link_def set_reg_def take_bit_or)
qed (unfold vm_perform_def Let_def op_of,
     simp_all add: op_of [simplified] perform_defs low3 operands [simplified] setcc_result [unfolded set_reg_def] reg_def flag_simps and_or_distrib
       Let_def link_def jump_def set_reg_def take_bit_or)

section \<open>Condition codes\<close>

definition cc_ok :: "vm_impl \<Rightarrow> bool" where
  "cc_ok vm \<longleftrightarrow> vm_reg vm VM_REG_PSR \<in> {VM_FLAG_POSITIVE, VM_FLAG_ZERO, VM_FLAG_NEGATIVE}"

lemma vm_read_regs: "vm_read h a vm = Inr (v, vm') \<Longrightarrow> vm_reg vm' = vm_reg vm"
  by (auto simp: vm_read_def vm_select_def vm_getchar_def mem_get_def Let_def and_then_def split: if_splits)

lemma vm_write_regs: "vm_write a x vm = Inr vm' \<Longrightarrow> vm_reg vm' = vm_reg vm"
  by (auto simp: vm_write_def mem_set_def split: if_splits)

lemma and_then_Inr: "and_then x f = Inr z \<longleftrightarrow> (\<exists>y. x = Inr y \<and> f y = Inr z)"
  by (cases x) auto

lemma cc_ok_setcc [simp]: "cc_ok (vm_setcc r vm)"
  by (simp add: cc_ok_def vm_setcc_def set_reg_def vm_sign_flag_def)

lemma cc_ok_set_reg [simp]: "r \<noteq> 9 \<Longrightarrow> cc_ok (set_reg r v vm) = cc_ok vm"
  by (simp add: cc_ok_def set_reg_def)

lemma cc_ok_read: "vm_read h a vm = Inr (v, vm') \<Longrightarrow> cc_ok vm' = cc_ok vm"
  by (simp add: cc_ok_def vm_read_regs)

lemma cc_ok_write: "vm_write a x vm = Inr vm' \<Longrightarrow> cc_ok vm' = cc_ok vm"
  by (simp add: cc_ok_def vm_write_regs)

lemma vm_perform_cc:
  assumes "cc_ok vm" and "vm_perform h instr vm = Inr (res, vm')"
  shows "cc_ok vm'"
proof -
  have "cc_ok (snd (vm_getchar h vm)) = cc_ok vm" by (simp add: vm_getchar_def cc_ok_def)
  then show ?thesis
    using assms
    by (auto simp: vm_perform_def perform_defs Let_def and_then_Inr cc_ok_read cc_ok_write split: if_splits prod.splits
        dest!: cc_ok_read cc_ok_write)
qed

lemma vm_cycle_cc: "cc_ok vm \<Longrightarrow> vm_cycle h vm = Some (Inr (res, vm')) \<Longrightarrow> cc_ok vm'"
  by (auto simp: vm_cycle_def Let_def and_then_Inr split: sum.splits prod.splits if_splits
      dest!: cc_ok_read dest: vm_perform_cc)

section \<open>Runs\<close>

inductive runs :: "host \<Rightarrow> vm_impl \<Rightarrow> (vm_run_result \<times> vm_impl) vm_res \<Rightarrow> bool" for h where
  halted: "vm_cycle h vm = None \<Longrightarrow> runs h vm (run_ok vm)"
| fault: "vm_cycle h vm = Some (Inl e) \<Longrightarrow> runs h vm (Inl e)"
| stop: "vm_cycle h vm = Some (Inr (res, vm1)) \<Longrightarrow> res \<noteq> VM_RUN_SUCCESS \<Longrightarrow> runs h vm (Inr (res, vm1))"
| step: "vm_cycle h vm = Some (run_ok vm1) \<Longrightarrow> runs h vm1 out \<Longrightarrow> runs h vm out"

lemma vm_run_runs: "vm_run h vm = Some out \<Longrightarrow> runs h vm out"
proof (erule vm_run.raw_induct [rotated])
  fix f h vm and out :: "(vm_run_result \<times> vm_impl) vm_res"
  assume IH: "\<And>h vm out. f h vm = Some out \<Longrightarrow> runs h vm out"
    and "(case vm_cycle h vm of None \<Rightarrow> Some (run_ok vm) | Some (Inl e) \<Rightarrow> Some (Inl e)
      | Some (Inr (res, vm1)) \<Rightarrow> if res = VM_RUN_SUCCESS then f h vm1 else Some (Inr (res, vm1))) = Some out"
  then show "runs h vm out" by (auto intro: runs.intros split: option.splits sum.splits prod.splits if_splits)
qed

lemma runs_vm_run: "runs h vm out \<Longrightarrow> vm_run h vm = Some out"
  by (induction rule: runs.induct) (subst vm_run.simps; auto split: option.splits sum.splits)+

lemma runs_cc: "runs h vm out \<Longrightarrow> cc_ok vm \<Longrightarrow> out = Inr (res, vm') \<Longrightarrow> cc_ok vm'"
  by (induction rule: runs.induct) (auto dest: vm_cycle_cc)

section \<open>Loading\<close>

definition be16 :: "u16 \<Rightarrow> u8 list" where
  "be16 w = [ucast (drop_bit 8 w), ucast w]"

definition obj_image :: "u16 \<Rightarrow> u16 list \<Rightarrow> u8 list" where
  "obj_image org ws = be16 org @ concat (map be16 ws)"

lemma length_be16 [simp]: "length (be16 w) = 2"
  by (simp add: be16_def)

lemma length_be16s [simp]: "length (concat (map be16 ws)) = 2 * length ws"
  by (induction ws) auto

lemma swap16_be16: "swap16 (ucast (ucast (drop_bit 8 w) :: u8) OR push_bit 8 (ucast (ucast w :: u8))) = w"
  by (rule bit_word_eqI) (auto simp: swap16_def bit_simps)

lemma data16_be16: "data16 (xs @ be16 w @ ys) (length xs) =
    Inr (ucast (ucast (drop_bit 8 w) :: u8) OR push_bit 8 (ucast (ucast w :: u8)))"
  by (simp add: data16_def be16_def nth_append)

lemma load_words_ok:
  assumes "unat dest + length ws \<le> 65535"
  shows "load_words (xs @ concat (map be16 ws)) (length xs) (length ws) dest vm =
    Inr (vm\<lparr>vm_mem := \<lambda>a. if unat (a - dest) < length ws then ws ! unat (a - dest) else vm_mem vm a\<rparr>)"
  using assms
proof (induction ws arbitrary: xs dest vm)
  case (Cons w ws)
  have "unat (dest + 1) = unat dest + 1" using Cons.prems by (simp add: unat_word_ariths)
  then have IH: "load_words ((xs @ be16 w) @ concat (map be16 ws)) (length (xs @ be16 w)) (length ws) (dest + 1) v =
    Inr (v\<lparr>vm_mem := \<lambda>a. if unat (a - (dest + 1)) < length ws then ws ! unat (a - (dest + 1)) else vm_mem v a\<rparr>)" for v
    using Cons.prems by (intro Cons.IH) simp
  have set: "mem_set dest w vm = Inr (vm\<lparr>vm_mem := (vm_mem vm)(dest := w)\<rparr>)"
    using Cons.prems by (simp add: mem_set_def)
  have "(if unat (a - (dest + 1)) < length ws then ws ! unat (a - (dest + 1)) else ((vm_mem vm)(dest := w)) a) =
    (if unat (a - dest) < length (w # ws) then (w # ws) ! unat (a - dest) else vm_mem vm a)" for a
  proof (cases "a = dest")
    case False
    then have "unat (a - dest - 1) = unat (a - dest) - 1" "unat (a - dest) \<noteq> 0" by (simp_all add: unat_minus_one unat_eq_0)
    then show ?thesis using False by (auto simp: diff_diff_eq [symmetric] nth_Cons')
  qed (use Cons.prems in \<open>simp add: unsigned_minus_1_eq_mask mask_eq_exp_minus_1\<close>)
  then have "(\<lambda>a. if unat (a - (dest + 1)) < length ws then ws ! unat (a - (dest + 1)) else ((vm_mem vm)(dest := w)) a) =
    (\<lambda>a. if unat (a - dest) < length (w # ws) then (w # ws) ! unat (a - dest) else vm_mem vm a)" by (rule ext)
  then show ?case
    using IH [of "vm\<lparr>vm_mem := (vm_mem vm)(dest := w)\<rparr>"] data16_be16 [of xs w "concat (map be16 ws)"] set
    by (simp add: swap16_be16 del: fun_upd_apply cong: if_cong)
qed simp

section \<open>Properties\<close>

text \<open>
  C1: \<^verbatim>\<open>vm_perform\<close> implements the instruction set: for every instruction, executing its 16-bit
  encoding has exactly the effect the instruction set defines, with immediates and offsets sign
  extended and the condition codes set from the result.
\<close>

theorem vm_perform_refines_isa: "vm_perform h (encode i) vm = exec h i vm"
  by (rule perform_encoded)

text \<open>
  \<^verbatim>\<open>sextend(val, n)\<close> is the two's complement sign extension of the low \<^verbatim>\<open>n\<close> bits, for every width
  from 1 to 16.
\<close>

theorem sextend_is_sign_extension:
  assumes "0 < n" and "n \<le> 16"
  shows "sextend val n = signed_take_bit (n - 1) val"
  by (rule sextend_signed [OF assms])

theorem sextend_is_sign_extension_witness: "sextend 0x1F 5 = - 1 \<and> sextend 0x2F 5 = 15"
  using sextend_is_sign_extension [of 5 "0x1F"] sextend_is_sign_extension [of 5 "0x2F"] by simp


text \<open>
  C33: \<^verbatim>\<open>vm_load_data\<close> of the big-endian image of an origin and a list of words stores exactly these
  words from the origin on and sets the program counter; an image that reaches 0xffff fails the
  assertion, so \<^verbatim>\<open>VM_LOAD_INPUT_TOO_LARGE\<close> is never returned.
\<close>

theorem vm_load_data_loads:
  assumes "2 * length ws + 2 < 2 ^ 64"
  shows "vm_load_data (obj_image org ws) vm =
     (if unat org + length ws < 65535
      then Inr (VM_LOAD_SUCCESS,
        vm\<lparr>vm_mem := \<lambda>a. if unat (a - org) < length ws then ws ! unat (a - org) else vm_mem vm a,
           vm_reg := (vm_reg vm)(VM_REG_PC := org)\<rparr>)
      else Inl Assert_failed)"
proof -
  have "length (obj_image org ws) = 2 * length ws + 2" by (simp add: obj_image_def)
  then have "(of_nat (length (obj_image org ws)) - 2) div 2 = (of_nat (length ws) :: 64 word)"
    using assms by (simp add: word_unat_eq_iff unat_div unsigned_of_nat take_bit_nat_eq_self unat_word_ariths)
  moreover have n: "unat (of_nat (length ws) :: 64 word) = length ws"
    using assms by (simp add: unsigned_of_nat take_bit_nat_eq_self)
  moreover have "ucast org + of_nat (length ws) < (65535 :: 64 word) \<longleftrightarrow> unat org + length ws < 65535"
  proof -
    have "unat org < 65536" using unsigned_less [of org] by simp
    then have "unat (ucast org + of_nat (length ws) :: 64 word) = unat org + length ws"
      using n assms by (simp add: unat_word_ariths unsigned_ucast_eq take_bit_nat_eq_self)
    then show ?thesis by (simp add: word_less_nat_alt)
  qed
  moreover have "data16 (obj_image org ws) 0 = Inr (ucast (ucast (drop_bit 8 org) :: u8) OR push_bit 8 (ucast (ucast org :: u8)))"
    using data16_be16 [of "[]" org "concat (map be16 ws)"] by (simp add: obj_image_def)
  moreover have "load_words (obj_image org ws) 2 (length ws) org vm =
    Inr (vm\<lparr>vm_mem := \<lambda>a. if unat (a - org) < length ws then ws ! unat (a - org) else vm_mem vm a\<rparr>)"
    if "unat org + length ws < 65535"
    using load_words_ok [of org ws "be16 org" vm] that by (simp add: obj_image_def)
  ultimately show ?thesis by (simp add: vm_load_data_def swap16_be16)
qed

theorem vm_load_data_loads_witness:
  "vm_load_data (obj_image 0x3000 [0x1234, 0xABCD]) vm_create =
     Inr (VM_LOAD_SUCCESS,
       vm_create\<lparr>vm_mem := \<lambda>a. if unat (a - 0x3000) < Suc (Suc 0) then [0x1234, 0xABCD] ! unat (a - 0x3000) else vm_mem vm_create a,
          vm_reg := (vm_reg vm_create)(8 := 0x3000)\<rparr>)"
  using vm_load_data_loads [of "[0x1234, 0xABCD]" "0x3000" vm_create] by simp

lemma unat_u16_max: "unat (a :: u16) < 65535 \<longleftrightarrow> a \<noteq> 0xffff"
proof -
  have "unat a < 65536" using unsigned_less [of a] by simp
  then have "unat a < 65535 \<longleftrightarrow> unat a \<noteq> 65535" by auto
  then show ?thesis by (simp add: word_unat_eq_iff)
qed

text \<open>
  A read and a write of the virtual machine stay inside the array \<^verbatim>\<open>mem\<close> for every address but
  0xffff, for which both leave it.
\<close>

theorem vm_access_bounds:
  "((\<exists>r. vm_read h a vm = Inr r) \<longleftrightarrow> a \<noteq> 0xffff) \<and> ((\<exists>vm'. vm_write a v vm = Inr vm') \<longleftrightarrow> a \<noteq> 0xffff)"
  by (auto simp: vm_read_def vm_write_def mem_get_def mem_set_def unat_u16_max Let_def split: prod.splits)

definition stores_ok :: "u16 \<Rightarrow> bool" where
  "stores_ok a \<longleftrightarrow> a \<notin> {0xfe00, 0xfe02, 0xfe04, 0xfe06, 0xffff}"

text \<open>
  Outside the device registers, a write of the virtual machine is read back, and no other
  address changes.
\<close>

theorem vm_write_read:
  assumes "stores_ok a" and "stores_ok b"
  shows "\<exists>vm'. vm_write a v vm = Inr vm' \<and> vm_read h b vm' = Inr (if b = a then v else vm_mem vm b, vm')"
  using assms by (auto simp: stores_ok_def vm_read_def vm_write_def mem_get_def mem_set_def unat_u16_max)

theorem vm_write_read_witness:
  "\<exists>vm'. vm_write 0x3000 7 vm_create = Inr vm' \<and> vm_read \<lparr>host_select = \<lambda>_. False, host_getchar = \<lambda>_. 0\<rparr> 0x3000 vm' = Inr (7, vm')"
  using vm_write_read [of "0x3000" "0x3000" 7 vm_create "\<lparr>host_select = \<lambda>_. False, host_getchar = \<lambda>_. 0\<rparr>"] by (simp add: stores_ok_def)

text \<open>A program that adds 5 and 7 and halts by clearing the machine control register.\<close>

definition sum_program :: "u16 list" where
  "sum_program = map encode [ANDI 0 0 0, ADDI 0 0 5, ADDI 0 0 7, ANDI 1 1 0, STI 1 0] @ [0xfffe]"

definition sum_vm :: vm_impl where
  "sum_vm = vm_create\<lparr>vm_mem := \<lambda>a. if unat (a - 0x3000) < 6 then sum_program ! unat (a - 0x3000) else vm_mem vm_create a\<rparr>"

lemma vm_cycle_exec:
  assumes "vm_mem vm 0xfffe AND 0x8000 \<noteq> 0" and "stores_ok (vm_reg vm 8)" and "vm_mem vm (vm_reg vm 8) = encode i"
  shows "vm_cycle h vm = Some (exec h i (jump (vm_reg vm 8 + 1) vm))"
proof -
  have "vm_read h 0xfffe vm = Inr (vm_mem vm 0xfffe, vm)" by (simp add: vm_read_def mem_get_def)
  moreover have "vm_read h (vm_reg vm 8) (jump a vm) = Inr (encode i, jump a vm)" for a
    using assms(2,3) by (simp add: stores_ok_def vm_read_def mem_get_def jump_def unat_u16_max)
  ultimately show ?thesis
    using assms(1) perform_encoded by (simp add: vm_cycle_def Let_def set_reg_def jump_def)
qed

lemma sum_vm_fields:
  "vm_mem sum_vm 0x3000 = encode (ANDI 0 0 0)" "vm_mem sum_vm 0x3001 = encode (ADDI 0 0 5)"
  "vm_mem sum_vm 0x3002 = encode (ADDI 0 0 7)" "vm_mem sum_vm 0x3003 = encode (ANDI 1 1 0)"
  "vm_mem sum_vm 0x3004 = encode (STI 1 0)" "vm_mem sum_vm 0x3005 = 0xfffe" "vm_mem sum_vm 0xfffe = 0x8000"
  "vm_reg sum_vm 8 = 0x3000"
  by (simp_all add: sum_vm_def sum_program_def vm_create_def)

lemma sum_step:
  assumes "stores_ok (r 8)" and "vm_mem sum_vm (r 8) = encode i"
    and "exec h i (sum_vm\<lparr>vm_reg := r(8 := r 8 + 1)\<rparr>) = run_ok vm1" and "runs h vm1 out"
  shows "runs h (sum_vm\<lparr>vm_reg := r\<rparr>) out"
proof (rule runs.step [OF _ assms(4)])
  show "vm_cycle h (sum_vm\<lparr>vm_reg := r\<rparr>) = Some (run_ok vm1)"
    using vm_cycle_exec [of "sum_vm\<lparr>vm_reg := r\<rparr>" i h] assms(1-3) by (simp add: sum_vm_fields jump_def)
qed

lemma sum_runs: "\<exists>vm'. runs h sum_vm (run_ok vm') \<and> vm_reg vm' 0 = 12"
proof -
  define r where "r = vm_reg sum_vm"
  have r8: "r 8 = 0x3000" by (simp add: r_def sum_vm_fields)
  let ?m = "(vm_mem sum_vm)(0xfffe := 0)"
  let ?r5 = "r(0 := 12, 1 := 0, 8 := 0x3005, 9 := 2)"
  let ?vm5 = "sum_vm\<lparr>vm_mem := ?m, vm_reg := ?r5\<rparr>"
  have "vm_cycle h ?vm5 = None" by (simp add: vm_cycle_def vm_read_def mem_get_def)
  then have "runs h ?vm5 (run_ok ?vm5)" by (rule runs.halted)
  then have "runs h (sum_vm\<lparr>vm_reg := r(0 := 12, 1 := 0, 8 := 0x3004, 9 := 2)\<rparr>) (run_ok ?vm5)"
    by (rule sum_step [where i = "STI 1 0", rotated 3])
       (simp_all add: sum_vm_fields stores_ok_def vm_read_def vm_write_def mem_get_def mem_set_def reg_def fun_upd_twist)
  then have "runs h (sum_vm\<lparr>vm_reg := r(0 := 12, 8 := 0x3003, 9 := 1)\<rparr>) (run_ok ?vm5)"
    by (rule sum_step [where i = "ANDI 1 1 0", rotated 3])
       (simp_all add: sum_vm_fields stores_ok_def result_def fun_upd_twist)
  then have "runs h (sum_vm\<lparr>vm_reg := r(0 := 5, 8 := 0x3002, 9 := 1)\<rparr>) (run_ok ?vm5)"
    by (rule sum_step [where i = "ADDI 0 0 7", rotated 3])
       (simp_all add: sum_vm_fields stores_ok_def result_def reg_def fun_upd_twist)
  then have "runs h (sum_vm\<lparr>vm_reg := r(0 := 0, 8 := 0x3001, 9 := 2)\<rparr>) (run_ok ?vm5)"
    by (rule sum_step [where i = "ADDI 0 0 5", rotated 3])
       (simp_all add: sum_vm_fields stores_ok_def result_def reg_def fun_upd_twist)
  then have "runs h (sum_vm\<lparr>vm_reg := r\<rparr>) (run_ok ?vm5)"
    by (rule sum_step [where i = "ANDI 0 0 0", rotated 3])
       (simp_all add: sum_vm_fields stores_ok_def result_def reg_def r8 fun_upd_twist)
  then show ?thesis by (auto simp: r_def)
qed

text \<open>
  C32: Whatever program is run, exactly one of the three condition codes is set when \<^verbatim>\<open>vm_run\<close>
  returns, if it was so at the start.
\<close>

theorem vm_run_keeps_cc:
  assumes "vm_run h vm = Some (Inr (res, vm'))" and "cc_ok vm"
  shows "cc_ok vm'"
  using runs_cc [OF vm_run_runs [OF assms(1)] assms(2)] by simp

theorem vm_run_keeps_cc_witness:
  "\<exists>vm'. vm_run \<lparr>host_select = \<lambda>_. False, host_getchar = \<lambda>_. 0\<rparr> sum_vm = Some (Inr (VM_RUN_SUCCESS, vm')) \<and>
     vm_reg vm' 0 = 12 \<and> cc_ok vm'"
proof -
  have "cc_ok sum_vm" by (simp add: cc_ok_def sum_vm_def vm_create_def)
  then show ?thesis using sum_runs runs_vm_run vm_run_keeps_cc by blast
qed

end
