(* ===== verification/Spec2Isabelle.thy ===== *)
theory Spec2Isabelle
  imports Bplus_Delete Sample_Lists Sample_Arrays Sample_Trees Keyboard Kernel Kmalloc Ethernet Lc3
begin

text \<open>
  A verification library for \<^bold>\<open>unos\<close>, a 32-bit x86 teaching kernel written in C, and for the
  C programs of its \<^verbatim>\<open>sample\<close> directory that have a state of their own.

  \<^bold>\<open>The program.\<close> GRUB loads the kernel and calls \<^verbatim>\<open>kmain\<close> (\<^verbatim>\<open>src/src/kernel/kernel.c\<close>), which sets up the
  segment and interrupt tables, the physical memory manager, paging, the kernel heap, the timer and
  the process list, and creates the first process. From then on everything happens in interrupt
  handlers: the timer runs callbacks, one of which is the scheduler; the keyboard and the network card
  have handlers of their own; a system call is interrupt 0x80.

  \<^bold>\<open>State.\<close> The state is one record that grows along the imports: \<open>console\<close> (memory, port accesses,
  text screen), \<open>pmm\<close>, \<open>isr\<close>, \<open>descr\<close>, \<open>vmm\<close>, \<open>heap\<close>, \<open>timer\<close>, \<open>proc\<close>, with \<open>kbd\<close>, \<open>kmm\<close>,
  \<open>pci\<close> and \<open>net\<close> beside the last two. A routine of one component is defined on every extension of
  its record, so that the components share memory and devices as the C code does and compose by
  function application. Memory is a function from 32-bit addresses to bytes. Every port access is
  recorded in order, and what a port delivers is a parameter, a function of the accesses so far. C
  integers are words of their width. A fault (panic, access out of bounds, a loop that does not end)
  is a value of \<open>fault\<close> in the left summand of \<open>res\<close>; a loop without an evident bound is a
  \<open>partial_function\<close> whose None is a run that never ends.

  \<^bold>\<open>Theories.\<close>
  \<^item> \<open>Prelude\<close>, \<open>Machine\<close>: faults, the monad of faulting steps, words, 32-bit loads and stores, ports
    (\<^verbatim>\<open>drivers/io.c\<close>, \<^verbatim>\<open>lib/log.h\<close>, \<^verbatim>\<open>lib/stdint.h\<close>).
  \<^item> \<open>Kstring\<close>: \<^verbatim>\<open>lib/string.c\<close> but \<^verbatim>\<open>printf\<close>. Each routine is described by what it does to memory; the
    number conversions are shown to invert reading the number back.
  \<^item> \<open>Console\<close>: \<^verbatim>\<open>drivers/framebuffer.c\<close> and \<^verbatim>\<open>printf\<close>. \<open>con_frame\<close> is what printing can change; it
    is the frame condition of every routine above that prints.
  \<^item> \<open>Pmm\<close>: \<^verbatim>\<open>mm/pmm.c\<close>. The bitmap with its bound, the counters, and the interface \<open>block_allocator\<close>
    that single-frame allocation interprets.
  \<^item> \<open>Interrupts\<close>: \<^verbatim>\<open>drivers/pic.c\<close>, \<^verbatim>\<open>isr.c\<close>. \<open>Descriptors\<close>: \<^verbatim>\<open>gdt.c\<close>, \<^verbatim>\<open>idt.c\<close>, \<^verbatim>\<open>tss.c\<close>, with the
    64-bit encodings as the processor reads them.
  \<^item> \<open>Vmm\<close>: \<^verbatim>\<open>mm/vmm.c\<close>. Page tables in memory, the translation of the processor as specification, and
    a refinement of mapping by a finite map of pages.
  \<^item> \<open>Malloc\<close>: \<^verbatim>\<open>mm/malloc.c\<close>. The heap as a list of blocks, first fit as specification, and the
    interface \<open>region_allocator\<close>. \<open>Objects\<close>: words at offsets of live blocks, the interface
    \<open>object_heap\<close>. \<open>Klist\<close>: \<^verbatim>\<open>lib/list.c\<close> over that interface.
  \<^item> \<open>Keyboard\<close>, \<open>Timer\<close>, \<open>Process\<close>: \<^verbatim>\<open>drivers/keyboard.c\<close>, \<^verbatim>\<open>drivers/timer.c\<close>,
    \<^verbatim>\<open>scheduler/process.c\<close>, \<^verbatim>\<open>syscall/\<close>. A callback is a function argument that may return or leave the
    kernel for a user context.
  \<^item> \<open>Creation\<close>: what creating a process leaves on the heap. \<open>Kernel\<close>: \<^verbatim>\<open>kmain\<close> as the composition of
    all these, with the state it hands to the scheduler.
  \<^item> \<open>Hal\<close>: \<^verbatim>\<open>hal/cpu.c\<close>, \<^verbatim>\<open>drivers/serial.c\<close>. \<open>Kmalloc\<close>: \<^verbatim>\<open>mm/kmalloc.c\<close>, \<^verbatim>\<open>mm/dmm.c\<close>.
    \<open>Pci\<close>: \<^verbatim>\<open>drivers/pci.c\<close>. \<open>Ethernet\<close>: \<^verbatim>\<open>network/\<close>, \<^verbatim>\<open>drivers/rtl8139.c\<close>.
  \<^item> \<open>Lc3\<close>: the LC-3 virtual machine of \<^verbatim>\<open>sample/lc3\<close>, shown to refine the instruction set it is
    written for.
  \<^item> \<open>Bplus_Tree\<close> models \<^verbatim>\<open>sample/data_structure/bplus_tree.c\<close>. \<open>Bplus_Nodes\<close>: what its loops do to one
    node. \<open>Bplus_Search\<close>: the tree in memory, its shape and order, searching. \<open>Bplus_Insert\<close>: splits
    and the way up to the root; a tree stands for a map. \<open>Bplus_Merge\<close>: merging and borrowing.
    \<open>Bplus_Delete\<close>: the way up after a removal, destruction, sequences of operations.
  \<^item> \<open>Sample_Lists\<close>, \<open>Sample_Arrays\<close>, \<open>Sample_Trees\<close>: the other programs of \<^verbatim>\<open>sample/data_structure\<close>,
    each routine with what it does to the list, array or tree it is called for.

  \<^bold>\<open>Interfaces.\<close> \<open>block_allocator\<close>, \<open>region_allocator\<close> and its extension \<open>object_heap\<close> are locales: the
  properties of allocation traces, lists and objects are proved in them once, and \<open>Pmm\<close>, \<open>Malloc\<close> and
  \<open>Objects\<close> interpret them on the code. \<open>key_index\<close> and its extension \<open>dictionary\<close> are what users of an
  index rely on; \<open>Bplus_Insert\<close> and \<open>Bplus_Delete\<close> interpret them on the B+ tree. \<open>Vmm\<close> and \<open>Lc3\<close> state the abstract machines they refine.

  \<^bold>\<open>Bounds and parameters.\<close> Frame numbers stay below 2 ^ 20, the size of the bitmap. Printing is followed
  for a cursor at most 400 lines down, where the address of a cell does not wrap; \<open>calm\<close> says so. The
  scans of the PCI bus call each other, and a counter bounds the depth; with bridges the code does not
  return for any depth, which is a property. The two floating-point products of the timer, the
  contents of ports, the answers of \<^verbatim>\<open>cpuid\<close>, the addresses the linker chooses and the terminal of the
  LC-3 are arguments of the definitions that use them.

  \<^bold>\<open>Not modelled.\<close> The assembly (\<^verbatim>\<open>boot/\<close>, the interrupt stubs, \<^verbatim>\<open>user_regs_switch\<close>, of which the effect is
  a value), \<^verbatim>\<open>vmm_flush_tlb_entry\<close> (one \<^verbatim>\<open>invlpg\<close>; the model has no translation cache), the accesses of
  the network card to memory, and preemption inside a kernel routine: a handler runs from a state
  between two routines. Of the samples, the assembly, the ELF printers and loaders and the library
  demonstrations are left out: they are system calls and formatting.
\<close>

end
